(* ===== verification/Prelude.thy ===== *)
theory Prelude
  imports Main "HOL-Library.Word" "HOL-Library.Product_Lexorder"
begin

text \<open>
  The vocabulary shared by the component theories: the ordered containers of the C++ standard
  library (\<open>std::map\<close> as a key-sorted association list, \<open>std::set\<close> as a sorted list), loops with
  an early exit, C++ integer conversions written out, and the generic lemmas on them.
\<close>

text \<open>Servers are pairs; quantifiers over them stay quantifiers over servers.\<close>

declare split_paired_All [simp del] split_paired_Ex [simp del]

named_theorems std_simps \<open>rewrite rules of the std::map and std::set model\<close>

section \<open>Integer conversions\<close>

text \<open>
  Where the code mixes \<open>uint32_t\<close> and \<open>int\<close>, the model computes in \<open>int\<close> and writes the
  conversion out: \<open>u32\<close> is the conversion to \<open>uint32_t\<close>, \<open>i32\<close> the conversion to \<open>int\<close>.
\<close>

definition u32 :: "int \<Rightarrow> int" where
  "u32 x = x mod 2 ^ 32"

definition i32 :: "int \<Rightarrow> int" where
  "i32 x = (x + 2 ^ 31) mod 2 ^ 32 - 2 ^ 31"

lemma u32_id [simp]: "0 \<le> x \<Longrightarrow> x < 2 ^ 32 \<Longrightarrow> u32 x = x"
  by (simp add: u32_def)

lemma i32_id [simp]: "- (2 ^ 31) \<le> x \<Longrightarrow> x < 2 ^ 31 \<Longrightarrow> i32 x = x"
  by (simp add: i32_def)

text \<open>The division of C++ truncates towards zero.\<close>

definition cdiv :: "int \<Rightarrow> int \<Rightarrow> int" where
  "cdiv a b = (if (a < 0) = (b < 0) then \<bar>a\<bar> div \<bar>b\<bar> else - (\<bar>a\<bar> div \<bar>b\<bar>))"

lemma cdiv_nonneg [simp]: "0 \<le> a \<Longrightarrow> 0 < b \<Longrightarrow> cdiv a b = a div b"
  by (simp add: cdiv_def)

section \<open>Ordered maps: std::map\<close>

text \<open>
  A \<open>std::map\<close> is the list of its pairs in key order, which is the order its iterators visit.
  \<open>smap_at d k m\<close> is what \<open>m[k]\<close> evaluates to (\<open>d\<close> is the value-initialised element that
  \<open>operator[]\<close> inserts for a missing key), \<open>smap_alter d f k m\<close> the map after \<open>m[k]\<close> has been
  evaluated and the element it refers to overwritten with its image under \<open>f\<close>.
\<close>

type_synonym ('k, 'v) smap = "('k \<times> 'v) list"

fun smap_upd :: "'k::linorder \<Rightarrow> 'v \<Rightarrow> ('k, 'v) smap \<Rightarrow> ('k, 'v) smap" where
  "smap_upd k v [] = [(k, v)]"
| "smap_upd k v ((k', v') # m) =
     (if k < k' then (k, v) # (k', v') # m
      else if k = k' then (k, v) # m
      else (k', v') # smap_upd k v m)"

definition smap_at :: "'v \<Rightarrow> 'k \<Rightarrow> ('k, 'v) smap \<Rightarrow> 'v" where
  "smap_at d k m = (case map_of m k of None \<Rightarrow> d | Some v \<Rightarrow> v)"

definition smap_alter :: "'v \<Rightarrow> ('v \<Rightarrow> 'v) \<Rightarrow> 'k::linorder \<Rightarrow> ('k, 'v) smap \<Rightarrow> ('k, 'v) smap" where
  "smap_alter d f k m = smap_upd k (f (smap_at d k m)) m"

abbreviation smap_touch :: "'v \<Rightarrow> 'k::linorder \<Rightarrow> ('k, 'v) smap \<Rightarrow> ('k, 'v) smap" where
  "smap_touch d k m \<equiv> smap_alter d id k m"

definition smap_wf :: "('k::linorder, 'v) smap \<Rightarrow> bool" where
  "smap_wf m \<longleftrightarrow> sorted_wrt (<) (map fst m)"

lemma map_of_smap_upd [std_simps]: "map_of (smap_upd k v m) = (map_of m)(k \<mapsto> v)"
  by (induction m) (auto simp: fun_eq_iff)

lemma smap_at_upd [std_simps]:
  "smap_at d k (smap_upd k' v m) = (if k = k' then v else smap_at d k m)"
  by (simp add: smap_at_def map_of_smap_upd)

lemma smap_at_alter [std_simps]:
  "smap_at d k (smap_alter d f k' m) = (if k = k' then f (smap_at d k m) else smap_at d k m)"
  by (simp add: smap_alter_def smap_at_upd)

lemma smap_at_Nil [std_simps]: "smap_at d k [] = d"
  by (simp add: smap_at_def)

lemma smap_at_mem: "smap_at d k m \<noteq> d \<Longrightarrow> (k, smap_at d k m) \<in> set m"
  by (auto simp: smap_at_def map_of_SomeD split: option.splits)

lemma fst_set_smap_upd: "fst ` set (smap_upd k v m) = insert k (fst ` set m)"
  by (induction k v m rule: smap_upd.induct) (simp_all add: insert_commute)

lemma smap_wf_Nil [simp]: "smap_wf []"
  by (simp add: smap_wf_def)

lemma smap_wf_upd: "smap_wf m \<Longrightarrow> smap_wf (smap_upd k v m)"
proof (induction m)
  case Nil
  then show ?case by (simp add: smap_wf_def)
next
  case (Cons p m)
  obtain k' v' where p: "p = (k', v')" by (cases p)
  from Cons.prems have wf: "smap_wf m" and lt: "\<forall>y \<in> fst ` set m. k' < y"
    by (auto simp: smap_wf_def p)
  from Cons.IH [OF wf] have "smap_wf (smap_upd k v m)" .
  moreover have "\<forall>y \<in> fst ` set (smap_upd k v m). k' < y" if "k' < k"
    using lt that by (simp add: fst_set_smap_upd)
  ultimately show ?case
    using wf lt by (auto simp: smap_wf_def p)
qed

lemma smap_wf_alter: "smap_wf m \<Longrightarrow> smap_wf (smap_alter d f k m)"
  by (simp add: smap_alter_def smap_wf_upd)

section \<open>Ordered sets: std::set\<close>

definition set_insert :: "'a::linorder \<Rightarrow> 'a list \<Rightarrow> 'a list" where
  "set_insert x xs = insort_insert x xs"

definition set_erase :: "'a \<Rightarrow> 'a list \<Rightarrow> 'a list" where
  "set_erase x xs = removeAll x xs"

lemma set_set_insert [std_simps]: "set (set_insert x xs) = insert x (set xs)"
  by (simp add: set_insert_def set_insort_insert)

lemma set_set_erase [std_simps]: "set (set_erase x xs) = set xs - {x}"
  by (simp add: set_erase_def)

lemma sorted_set_insert: "sorted xs \<Longrightarrow> sorted (set_insert x xs)"
  by (simp add: set_insert_def sorted_insort_insert)

lemma distinct_set_insert: "distinct xs \<Longrightarrow> distinct (set_insert x xs)"
  by (simp add: set_insert_def distinct_insort insort_insert_key_def)

section \<open>Loops with an early exit\<close>

text \<open>
  \<open>foldE f xs s\<close> runs the body \<open>f\<close> over \<open>xs\<close>; a body that yields \<open>Inl e\<close> leaves the loop (a
  \<open>return\<close> inside it), a body that yields \<open>Inr s\<close> goes on with the state \<open>s\<close>.
\<close>

fun foldE :: "('a \<Rightarrow> 's \<Rightarrow> 'e + 's) \<Rightarrow> 'a list \<Rightarrow> 's \<Rightarrow> 'e + 's" where
  "foldE f [] s = Inr s"
| "foldE f (x # xs) s = (case f x s of Inl e \<Rightarrow> Inl e | Inr s' \<Rightarrow> foldE f xs s')"

lemma foldE_append:
  "foldE f (xs @ ys) s = (case foldE f xs s of Inl e \<Rightarrow> Inl e | Inr s' \<Rightarrow> foldE f ys s')"
  by (induction xs arbitrary: s) (auto split: sum.splits)

lemma foldE_invariant:
  assumes "P s" and "\<And>x s s'. x \<in> set xs \<Longrightarrow> P s \<Longrightarrow> f x s = Inr s' \<Longrightarrow> P s'"
    and "foldE f xs s = Inr s'"
  shows "P s'"
  using assms
proof (induction xs arbitrary: s)
  case Nil
  then show ?case by simp
next
  case (Cons x xs)
  from Cons.prems(3) obtain s1 where s1: "f x s = Inr s1" and rest: "foldE f xs s1 = Inr s'"
    by (auto split: sum.splits)
  have "P s1" using Cons.prems(1,2) s1 by (meson list.set_intros(1))
  then show ?case
    using rest Cons.prems(2) by (intro Cons.IH) (auto intro: Cons.prems(2))
qed

lemma foldE_total:
  assumes "P s" and "\<And>x s. x \<in> set xs \<Longrightarrow> P s \<Longrightarrow> \<exists>s'. f x s = Inr s' \<and> P s'"
  shows "\<exists>s'. foldE f xs s = Inr s' \<and> P s'"
  using assms
proof (induction xs arbitrary: s)
  case Nil
  then show ?case by simp
next
  case (Cons x xs)
  from Cons.prems obtain s1 where s1: "f x s = Inr s1" "P s1" by (meson list.set_intros(1))
  have "\<exists>s'. foldE f xs s1 = Inr s' \<and> P s'"
    using Cons.prems(2) by (intro Cons.IH s1) auto
  with s1 show ?case by simp
qed

text \<open>A loop over \<open>0, ..., n - 1\<close> with an invariant that talks about the iterations done.\<close>

lemma foldE_upt_invariant:
  assumes "P m s" and "m \<le> n"
    and "\<And>i s s'. m \<le> i \<Longrightarrow> i < n \<Longrightarrow> P i s \<Longrightarrow> f i s = Inr s' \<Longrightarrow> P (Suc i) s'"
    and "foldE f [m..<n] s = Inr s'"
  shows "P n s'"
  using assms
proof (induction "n - m" arbitrary: m s)
  case 0
  then show ?case by simp
next
  case (Suc d)
  then have m: "m < n" by simp
  with Suc.prems(4) obtain s1 where s1: "f m s = Inr s1"
    and rest: "foldE f [Suc m..<n] s1 = Inr s'"
    by (auto simp: upt_conv_Cons split: sum.splits)
  have step: "P (Suc m) s1"
    using Suc.prems(1,3) s1 m by blast
  show ?case
    using Suc.hyps(2) m step Suc.prems(3) rest by (intro Suc.hyps(1)) auto
qed

lemma foldE_upt_total:
  assumes "P m s" and "m \<le> n"
    and "\<And>i s. m \<le> i \<Longrightarrow> i < n \<Longrightarrow> P i s \<Longrightarrow> \<exists>s'. f i s = Inr s' \<and> P (Suc i) s'"
  shows "\<exists>s'. foldE f [m..<n] s = Inr s' \<and> P n s'"
  using assms
proof (induction "n - m" arbitrary: m s)
  case 0
  then show ?case by simp
next
  case (Suc d)
  then have m: "m < n" by simp
  with Suc.prems(1,3) obtain s1 where s1: "f m s = Inr s1" "P (Suc m) s1" by blast
  have "\<exists>s'. foldE f [Suc m..<n] s1 = Inr s' \<and> P n s'"
    using Suc.hyps(2) m s1 Suc.prems(3) by (intro Suc.hyps(1)) auto
  with s1 m show ?case by (simp add: upt_conv_Cons)
qed

section \<open>Lists\<close>

lemma sum_list_list_update:
  fixes f :: "'a \<Rightarrow> int"
  shows "i < length xs \<Longrightarrow>
    sum_list (map f (xs[i := x])) = sum_list (map f xs) - f (xs ! i) + f x"
proof (induction xs arbitrary: i)
  case Nil
  then show ?case by simp
next
  case (Cons y ys)
  then show ?case by (cases i) auto
qed

end
