(* ===== verification/Table_Builder.thy ===== *)
theory Table_Builder
  imports Prelude
begin

unbundle bit_operations_syntax

text \<open>
  The hash table builder of the config server (\<open>src/configserver/table_builder.hpp\<close> and
  \<open>table_builder.cpp\<close>): the class \<open>table_builder\<close> with its state as the record \<open>builder\<close>, one
  definition per member function. The two strategies \<open>table_builder1\<close> and \<open>table_builder2\<close>
  derive from it; what they override is passed as a table of functions, \<open>table_strategy\<close>, and
  what they add to the state is an extension of the record.

  A hash table (\<open>map<int, vector<server_id_type>>\<close>) is the list of its lines: \<open>load_hash_table\<close>
  makes its keys \<open>0, ..., copy_count - 1\<close> with \<open>bucket_count\<close> cells each, which is \<open>wf_table\<close>.
  Indexing a cell out of range is undefined behaviour in the code and unspecified here; the
  theorems assume \<open>wf_table\<close>.
\<close>

section \<open>Data\<close>

text \<open>A server is identified by its address and its position (the address under the mask).\<close>

type_synonym server_id_type = "64 word \<times> 32 word"
type_synonym hash_table_line_type = "server_id_type list"
type_synonym hash_table_type = "hash_table_line_type list"
type_synonym server_list_type = "server_id_type list"
type_synonym server_capable_type = "(server_id_type, int) smap"

definition INVALID_FLAG :: "64 word" where
  "INVALID_FLAG = 0"

definition CONSIDER_ALL :: nat where
  "CONSIDER_ALL = 0"

definition CONSIDER_POS :: nat where
  "CONSIDER_POS = 1"

definition CONSIDER_BASE :: nat where
  "CONSIDER_BASE = 2"

definition CONSIDER_FORCE :: nat where
  "CONSIDER_FORCE = 3"

definition NODE_OK :: int where
  "NODE_OK = 0"

definition INVALID_NODE :: int where
  "INVALID_NODE = 1"

definition TOOMANY_MASTER :: int where
  "TOOMANY_MASTER = 2"

definition TOOMANY_BUCKET :: int where
  "TOOMANY_BUCKET = 3"

definition SAME_NODE :: int where
  "SAME_NODE = 4"

definition SAME_POS :: int where
  "SAME_POS = 5"

definition BUILD_ERROR :: int where
  "BUILD_ERROR = 0"

definition BUILD_OK :: int where
  "BUILD_OK = 1"

definition BUILD_QUICK :: int where
  "BUILD_QUICK = 2"

definition TAIR_POS_MASK :: "64 word" where
  "TAIR_POS_MASK = 0xffff"


lemmas consider_defs = CONSIDER_ALL_def CONSIDER_POS_def CONSIDER_BASE_def CONSIDER_FORCE_def
lemmas node_code_defs = NODE_OK_def INVALID_NODE_def TOOMANY_MASTER_def TOOMANY_BUCKET_def
  SAME_NODE_def SAME_POS_def
lemmas build_code_defs = BUILD_ERROR_def BUILD_OK_def BUILD_QUICK_def

record builder =
  tokens_count_in_node :: "(server_id_type, int) smap"
  max_count_now :: int
  tokens_count_in_node_now :: "(server_id_type, int) smap"
  count_server :: "(int, server_list_type) smap"
  mtokens_count_in_node :: "(server_id_type, int) smap"
  mcount_server :: "(int, server_list_type) smap"
  scandidate_node :: "(int, server_list_type) smap"
  mcandidate_node :: "(int, server_list_type) smap"
  available_server :: server_list_type
  server_capable :: server_capable_type
  master_server_capable :: server_capable_type
  pos_mask :: "64 word"
  bucket_count :: nat
  copy_count :: nat

text \<open>
  The virtual member functions a strategy provides. \<open>caculate_capable\<close> divides by the number
  of available servers and asserts: \<open>None\<close> is the death of the process.
\<close>

record 'x table_strategy =
  is_this_node_OK :: "'x builder_scheme \<Rightarrow> server_id_type \<Rightarrow> nat \<Rightarrow> nat \<Rightarrow> hash_table_type \<Rightarrow>
    nat \<Rightarrow> bool \<Rightarrow> int"
  caculate_capable :: "'x builder_scheme \<Rightarrow> 'x builder_scheme option"
  get_tokens_per_node :: "'x builder_scheme \<Rightarrow> server_id_type \<Rightarrow> int"

definition wf_table :: "'x builder_scheme \<Rightarrow> hash_table_type \<Rightarrow> bool" where
  "wf_table b t \<longleftrightarrow> length t = copy_count b \<and> (\<forall>line \<in> set t. length line = bucket_count b)"

abbreviation cell_upd :: "hash_table_type \<Rightarrow> nat \<Rightarrow> nat \<Rightarrow> server_id_type \<Rightarrow> hash_table_type" where
  "cell_upd t l i v \<equiv> t[l := (t ! l)[i := v]]"

section \<open>Counters and indexes\<close>

definition init_token_count :: "'x builder_scheme \<Rightarrow> (server_id_type, int) smap" where
  "init_token_count b = fold (\<lambda>it collector. smap_upd it 0 collector) (available_server b) []"

definition update_node_count ::
  "server_id_type \<Rightarrow> (server_id_type, int) smap \<Rightarrow> bool \<times> (server_id_type, int) smap" where
  "update_node_count node_id collector =
     (case map_of collector node_id of
        Some c \<Rightarrow> (True, smap_upd node_id (c + 1) collector)
      | None \<Rightarrow> (False, collector))"

definition build_index :: "(server_id_type, int) smap \<Rightarrow> (int, server_list_type) smap" where
  "build_index collector =
     fold (\<lambda>it indexer. smap_alter [] (set_insert (fst it)) (snd it) indexer) collector []"

definition is_node_availble :: "'x builder_scheme \<Rightarrow> server_id_type \<Rightarrow> bool" where
  "is_node_availble b node_id =
     (if fst node_id = INVALID_FLAG then False else node_id \<in> set (available_server b))"

text \<open>
  The function works on references to the maps of one of the two index families; the model
  returns the maps after it, the capability map included, because \<open>operator[]\<close> may insert.
\<close>

record token_index =
  count_in_node :: "(server_id_type, int) smap"
  count_server_map :: "(int, server_list_type) smap"
  candidate_node_info :: "(int, server_list_type) smap"
  server_capable_info :: server_capable_type

definition change_tokens_count_in_node ::
  "token_index \<Rightarrow> server_id_type \<Rightarrow> bool \<Rightarrow> token_index" where
  "change_tokens_count_in_node ix node_id is_minus =
     (let tc = smap_at 0 node_id (count_in_node ix);
          cap = smap_at 0 node_id (server_capable_info ix);
          tc' = (if is_minus then tc - 1 else tc + 1)
      in \<lparr>count_in_node = smap_upd node_id tc' (count_in_node ix),
          count_server_map =
            smap_alter [] (set_insert node_id) tc'
              (smap_alter [] (set_erase node_id) tc (count_server_map ix)),
          candidate_node_info =
            smap_alter [] (set_insert node_id) (tc' - cap)
              (smap_alter [] (set_erase node_id) (tc - cap) (candidate_node_info ix)),
          server_capable_info = smap_touch 0 node_id (server_capable_info ix)\<rparr>)"

text \<open>The call with the maps of all copies, and the call with the maps of the masters.\<close>

definition change_tokens :: "server_id_type \<Rightarrow> bool \<Rightarrow> 'x builder_scheme \<Rightarrow> 'x builder_scheme" where
  "change_tokens node_id is_minus b =
     (let ix = change_tokens_count_in_node
            \<lparr>count_in_node = tokens_count_in_node b, count_server_map = count_server b,
             candidate_node_info = scandidate_node b, server_capable_info = server_capable b\<rparr>
            node_id is_minus
      in b\<lparr>tokens_count_in_node := count_in_node ix, count_server := count_server_map ix,
           scandidate_node := candidate_node_info ix, server_capable := server_capable_info ix\<rparr>)"

definition change_mtokens :: "server_id_type \<Rightarrow> bool \<Rightarrow> 'x builder_scheme \<Rightarrow> 'x builder_scheme" where
  "change_mtokens node_id is_minus b =
     (let ix = change_tokens_count_in_node
            \<lparr>count_in_node = mtokens_count_in_node b, count_server_map = mcount_server b,
             candidate_node_info = mcandidate_node b,
             server_capable_info = master_server_capable b\<rparr>
            node_id is_minus
      in b\<lparr>mtokens_count_in_node := count_in_node ix, mcount_server := count_server_map ix,
           mcandidate_node := candidate_node_info ix,
           master_server_capable := server_capable_info ix\<rparr>)"

definition init_candidate ::
  "server_capable_type \<Rightarrow> (int, server_list_type) smap \<Rightarrow>
    server_capable_type \<times> (int, server_list_type) smap" where
  "init_candidate pcapable pcount_server =
     fold (\<lambda>it (cap, cand).
        fold (\<lambda>server_it (cap, cand).
            (smap_touch 0 server_it cap,
             smap_alter [] (set_insert server_it) (fst it - smap_at 0 server_it cap) cand))
          (snd it) (cap, cand))
       pcount_server (pcapable, [])"

section \<open>Changing one cell\<close>

definition invaliad_node ::
  "nat \<Rightarrow> nat \<Rightarrow> hash_table_type \<times> 'x builder_scheme \<Rightarrow> hash_table_type \<times> 'x builder_scheme" where
  "invaliad_node line_num node_idx s =
     (let (t, b) = s;
          node_id = t ! line_num ! node_idx;
          b' = (if is_node_availble b node_id
                then (let b1 = change_tokens node_id True b
                      in if line_num = 0 then change_mtokens node_id True b1 else b1)
                else b)
      in (cell_upd t line_num node_idx (INVALID_FLAG, snd node_id), b'))"

definition update_node ::
  "nat \<Rightarrow> nat \<Rightarrow> server_id_type \<Rightarrow> hash_table_type \<times> 'x builder_scheme \<Rightarrow>
    hash_table_type \<times> 'x builder_scheme" where
  "update_node line_num node_idx suitable_node s =
     (let (t, b) = s;
          b' = (if is_node_availble b suitable_node
                then (let b1 = change_tokens suitable_node False b
                      in if line_num = 0 then change_mtokens suitable_node False b1 else b1)
                else b)
      in (cell_upd t line_num node_idx suitable_node, b'))"

text \<open>
  The search loop of \<open>change_master_node\<close>: the copy of the bucket whose server is the master
  of the fewest buckets, as (\<open>chosen_line_num\<close>, \<open>min_node_count\<close>), with \<open>None\<close> for the initial
  \<open>-1\<close> (the counts are never negative).
\<close>

definition better_master ::
  "'x builder_scheme \<Rightarrow> hash_table_type \<Rightarrow> nat \<Rightarrow> nat \<Rightarrow> (nat \<times> int) option \<Rightarrow>
    (nat \<times> int) option" where
  "better_master b t idx next_line best =
     (let node_id = t ! next_line ! idx in
      if is_node_availble b node_id then
        (let c = smap_at 0 node_id (mtokens_count_in_node b) in
         case best of
           None \<Rightarrow> Some (next_line, c)
         | Some (ln, mn) \<Rightarrow> if mn > c then Some (next_line, c) else best)
      else best)"

definition choose_master_line ::
  "'x builder_scheme \<Rightarrow> hash_table_type \<Rightarrow> nat \<Rightarrow> (nat \<times> int) option" where
  "choose_master_line b t idx = fold (better_master b t idx) [1..<copy_count b] None"

definition change_master_node ::
  "nat \<Rightarrow> bool \<Rightarrow> hash_table_type \<times> 'x builder_scheme \<Rightarrow>
    bool \<times> hash_table_type \<times> 'x builder_scheme" where
  "change_master_node idx force_flag s =
     (let (t, b) = s in
      case choose_master_line b t idx of
        None \<Rightarrow> (False, t, b)
      | Some (chosen_line_num, _) \<Rightarrow>
          (let choosen_node_id = t ! chosen_line_num ! idx in
           if \<not> force_flag \<and>
              smap_at 0 choosen_node_id (mtokens_count_in_node b) \<ge>
              smap_at 0 choosen_node_id (master_server_capable b)
           then (False, t, b)
           else
             (let org_node_id = t ! 0 ! idx;
                  new_master_node = choosen_node_id;
                  t1 = cell_upd t 0 idx new_master_node;
                  b1 = b\<lparr>tokens_count_in_node_now :=
                           smap_alter 0 (\<lambda>c. c + 1) new_master_node (tokens_count_in_node_now b)\<rparr>;
                  b2 = change_mtokens new_master_node False b1
              in if is_node_availble b2 org_node_id
                 then (True, cell_upd t1 chosen_line_num idx org_node_id,
                       change_mtokens org_node_id True b2)
                 else (True, cell_upd t1 chosen_line_num idx (INVALID_FLAG, snd choosen_node_id),
                       b2))))"

section \<open>Choosing a server for a cell\<close>

text \<open>The innermost loop: the last acceptable server, or the original one when it is met.\<close>

fun pick_server ::
  "(server_id_type \<Rightarrow> bool) \<Rightarrow> server_id_type \<Rightarrow> server_id_type \<Rightarrow> server_list_type \<Rightarrow>
    server_id_type" where
  "pick_server ok original_node suitable_node [] = suitable_node"
| "pick_server ok original_node suitable_node (server_id # rest) =
     (if ok server_id then
        (if fst server_id = fst original_node then server_id
         else pick_server ok original_node server_id rest)
      else pick_server ok original_node suitable_node rest)"

text \<open>The loop over the candidate map; \<open>s\<close> counts its steps on the first two levels.\<close>

fun pick_candidate ::
  "(server_id_type \<Rightarrow> bool) \<Rightarrow> server_id_type \<Rightarrow> nat \<Rightarrow> nat \<Rightarrow> (int, server_list_type) smap \<Rightarrow>
    server_id_type \<Rightarrow> server_id_type" where
  "pick_candidate ok original_node i s [] suitable_node = suitable_node"
| "pick_candidate ok original_node i s (it # rest) suitable_node =
     (if s < i + 1 \<and> fst suitable_node = INVALID_FLAG
      then pick_candidate ok original_node i (if i < CONSIDER_BASE then s + 1 else s) rest
             (pick_server ok original_node suitable_node (snd it))
      else suitable_node)"

definition get_suitable_node ::
  "'x table_strategy \<Rightarrow> nat \<Rightarrow> nat \<Rightarrow> server_id_type \<Rightarrow> hash_table_type \<times> 'x builder_scheme \<Rightarrow>
    server_id_type" where
  "get_suitable_node S line_num node_idx original_node s =
     (let (t, b) = s;
          pcandidate_node = (if line_num = 0 then mcandidate_node b else scandidate_node b)
      in fold (\<lambda>i suitable_node.
            if fst suitable_node = INVALID_FLAG
            then pick_candidate
                   (\<lambda>server_id. is_this_node_OK S b server_id line_num node_idx t i False = NODE_OK)
                   original_node i CONSIDER_ALL pcandidate_node suitable_node
            else suitable_node)
          [CONSIDER_ALL..<Suc CONSIDER_FORCE] (INVALID_FLAG, 0))"

section \<open>The quick table\<close>

text \<open>
  When masters are lost, the quick table promotes a live copy of each of their buckets and
  clears the dead copies. A bucket with no live copy ends the build.
\<close>

definition build_quick_table ::
  "hash_table_type \<times> 'x builder_scheme \<Rightarrow> bool \<times> hash_table_type \<times> 'x builder_scheme" where
  "build_quick_table s =
     (case foldE (\<lambda>idx (t, b).
              if \<not> is_node_availble b (t ! 0 ! idx) then
                (case change_master_node idx True (t, b) of
                   (False, s') \<Rightarrow> Inl s'
                 | (True, s') \<Rightarrow> Inr s')
              else Inr (t, b))
            [0..<bucket_count (snd s)] s of
        Inl s' \<Rightarrow> (False, s')
      | Inr (t, b) \<Rightarrow>
          (True,
           fold (\<lambda>line_number t.
               fold (\<lambda>idx t.
                   if \<not> is_node_availble b (t ! line_number ! idx)
                   then cell_upd t line_number idx (0, 0) else t)
                 [0..<bucket_count b] t)
             [1..<copy_count b] t,
           b))"

section \<open>Rebuilding the table\<close>

text \<open>The counting loop over the source table, which also notices lost masters.\<close>

definition count_cell ::
  "nat \<Rightarrow> server_id_type \<Rightarrow> bool \<times> 'x builder_scheme \<Rightarrow> bool \<times> 'x builder_scheme" where
  "count_cell line_key node s =
     (let (need_build_quick_table, b) = s;
          b1 = b\<lparr>tokens_count_in_node := snd (update_node_count node (tokens_count_in_node b))\<rparr>
      in if line_key = 0 then
           (case update_node_count node (mtokens_count_in_node b1) of
              (found, m) \<Rightarrow>
                (if found then need_build_quick_table else True,
                 b1\<lparr>mtokens_count_in_node := m\<rparr>))
         else (need_build_quick_table, b1))"

definition count_table ::
  "hash_table_type \<Rightarrow> 'x builder_scheme \<Rightarrow> bool \<times> 'x builder_scheme" where
  "count_table source b =
     fold (\<lambda>k s. fold (\<lambda>i s. count_cell k (source ! k ! i) s) [0..<bucket_count b] s)
       [0..<length source] (False, b)"

text \<open>The counters as \<open>rebuild_table\<close> sets them up before it looks at any cell.\<close>

definition init_counts :: "'x builder_scheme \<Rightarrow> 'x builder_scheme" where
  "init_counts b = b\<lparr>tokens_count_in_node := init_token_count b,
     tokens_count_in_node_now := init_token_count b,
     mtokens_count_in_node := init_token_count b,
     max_count_now := 0\<rparr>"

definition index_counts :: "'x builder_scheme \<Rightarrow> 'x builder_scheme" where
  "index_counts b = b\<lparr>count_server := build_index (tokens_count_in_node b),
     mcount_server := build_index (mtokens_count_in_node b)\<rparr>"

definition init_candidates :: "'x builder_scheme \<Rightarrow> 'x builder_scheme" where
  "init_candidates b =
     (let (mcap, mcand) = init_candidate (master_server_capable b) (mcount_server b);
          b1 = b\<lparr>master_server_capable := mcap, mcandidate_node := mcand\<rparr>;
          (cap, cand) = init_candidate (server_capable b1) (count_server b1)
      in b1\<lparr>server_capable := cap, scandidate_node := cand\<rparr>)"

text \<open>
  The body of the three nested loops, for the cell (\<open>line_num\<close>, \<open>node_idx\<close>) in the outer round
  \<open>line_num_out\<close>. \<open>Inl\<close> is the \<open>return BUILD_ERROR\<close> when no server suits the cell.
\<close>

definition note_node ::
  "'x table_strategy \<Rightarrow> server_id_type \<Rightarrow> 'x builder_scheme \<Rightarrow> 'x builder_scheme" where
  "note_node S node_id b =
     (let token_per_node_min = get_tokens_per_node S b node_id;
          n = smap_at 0 node_id (tokens_count_in_node_now b) + 1;
          b1 = b\<lparr>tokens_count_in_node_now := smap_upd node_id n (tokens_count_in_node_now b)\<rparr>
      in if n = token_per_node_min + 1 then b1\<lparr>max_count_now := max_count_now b1 + 1\<rparr> else b1)"

definition replace_node ::
  "'x table_strategy \<Rightarrow> nat \<Rightarrow> nat \<Rightarrow> hash_table_type \<times> 'x builder_scheme \<Rightarrow>
    (hash_table_type \<times> 'x builder_scheme) + (hash_table_type \<times> 'x builder_scheme)" where
  "replace_node S line_num node_idx s =
     (let old_node = fst s ! line_num ! node_idx;
          s1 = invaliad_node line_num node_idx s;
          suitable_node = get_suitable_node S line_num node_idx old_node s1
      in if fst suitable_node = INVALID_FLAG then Inl s1
         else (case update_node line_num node_idx suitable_node s1 of
                 (t2, b2) \<Rightarrow> Inr (t2, note_node S suitable_node b2)))"

definition rebuild_cell ::
  "'x table_strategy \<Rightarrow> nat \<Rightarrow> nat \<Rightarrow> nat \<Rightarrow> hash_table_type \<times> 'x builder_scheme \<Rightarrow>
    (hash_table_type \<times> 'x builder_scheme) + (hash_table_type \<times> 'x builder_scheme)" where
  "rebuild_cell S line_num_out node_idx line_num s =
     (if line_num_out = 0 \<and> line_num \<noteq> 0 then Inr s
      else
        (let (t, b) = s;
             node_id = t ! line_num ! node_idx;
             consider_level = (if line_num_out = 0 then CONSIDER_BASE else CONSIDER_ALL);
             change_type = is_this_node_OK S b node_id line_num node_idx t consider_level True
         in if change_type \<noteq> 0 then
              (if line_num = 0 then
                 (case change_master_node node_idx False (t, b) of
                    (True, s') \<Rightarrow> Inr s'
                  | (False, s') \<Rightarrow> replace_node S line_num node_idx s')
               else replace_node S line_num node_idx (t, b))
            else Inr (t, note_node S node_id b)))"

definition rebuild_loop ::
  "'x table_strategy \<Rightarrow> hash_table_type \<times> 'x builder_scheme \<Rightarrow>
    (hash_table_type \<times> 'x builder_scheme) + (hash_table_type \<times> 'x builder_scheme)" where
  "rebuild_loop S s =
     foldE (\<lambda>line_num_out.
        foldE (\<lambda>node_idx.
            foldE (\<lambda>line_num. rebuild_cell S line_num_out node_idx line_num)
              [line_num_out..<copy_count (snd s)])
          [0..<bucket_count (snd s)])
       (take 2 [0..<length (fst s)]) s"

definition rebuild_table ::
  "'x table_strategy \<Rightarrow> hash_table_type \<Rightarrow> bool \<Rightarrow> 'x builder_scheme \<Rightarrow>
    (int \<times> hash_table_type \<times> 'x builder_scheme) option" where
  "rebuild_table S hash_table_source no_quick_table b =
     (case count_table hash_table_source (init_counts b) of
        (need_build_quick_table, b1) \<Rightarrow>
          (case caculate_capable S (index_counts b1) of
             None \<Rightarrow> None
           | Some b2 \<Rightarrow>
               (let b3 = init_candidates b2;
                    hash_table_result = hash_table_source
                in Some
                  (if need_build_quick_table \<and> \<not> no_quick_table then
                     (case build_quick_table (hash_table_result, b3) of
                        (True, s) \<Rightarrow> (BUILD_QUICK, s)
                      | (False, s) \<Rightarrow> (BUILD_ERROR, s))
                   else if length (available_server b3) < copy_count b3
                   then (BUILD_ERROR, hash_table_result, b3)
                   else
                     (case rebuild_loop S (hash_table_result, b3) of
                        Inl s \<Rightarrow> (BUILD_ERROR, s)
                      | Inr s \<Rightarrow> (BUILD_OK, s))))))"

section \<open>The available servers, loading and writing the table\<close>

text \<open>
  The nodes come from the group's set of live nodes; of a node only its server id is read.
\<close>

definition set_pos_mask :: "64 word \<Rightarrow> 'x builder_scheme \<Rightarrow> 'x builder_scheme" where
  "set_pos_mask m b = b\<lparr>pos_mask := m\<rparr>"

definition set_available_server :: "64 word list \<Rightarrow> 'x builder_scheme \<Rightarrow> 'x builder_scheme" where
  "set_available_server ava_server b =
     b\<lparr>available_server :=
         fold (\<lambda>server_id. set_insert (server_id, ucast (server_id AND pos_mask b))) ava_server []\<rparr>"

definition load_hash_table :: "'x builder_scheme \<Rightarrow> 64 word list \<Rightarrow> hash_table_type" where
  "load_hash_table b p_hash_table =
     map (\<lambda>i. map (\<lambda>j. let v = p_hash_table ! (i * bucket_count b + j)
                       in (v, ucast (v AND pos_mask b)))
            [0..<bucket_count b])
       [0..<copy_count b]"

definition write_hash_table :: "'x builder_scheme \<Rightarrow> hash_table_type \<Rightarrow> 64 word list" where
  "write_hash_table b hash_table_data =
     concat (map (\<lambda>line. map (\<lambda>i. fst (line ! i)) [0..<bucket_count b]) hash_table_data)"

end
