(* ===== verification/Table_Builder_Counts.thy ===== *)
theory Table_Builder_Counts
  imports Table_Builder
begin

text \<open>
  The counters of the table builder: what each counter operation does to the counts, the
  capabilities and the candidate index, and the invariant \<open>counts_inv\<close> that the counters say
  what is in the table, which \<open>rebuild_table\<close> sets up and every change of a cell keeps.
\<close>

section \<open>Occurrences of a server in a table\<close>

definition occ_line :: "hash_table_line_type \<Rightarrow> server_id_type \<Rightarrow> int" where
  "occ_line line n = int (count_list line n)"

definition occ :: "hash_table_type \<Rightarrow> server_id_type \<Rightarrow> int" where
  "occ t n = sum_list (map (\<lambda>line. occ_line line n) t)"

lemma occ_line_simps [simp]:
  "occ_line [] n = 0"
  "occ_line (x # xs) n = (if x = n then 1 else 0) + occ_line xs n"
  "occ_line (xs @ ys) n = occ_line xs n + occ_line ys n"
  by (simp_all add: occ_line_def)

lemma occ_line_nonneg [simp]: "0 \<le> occ_line xs n"
  by (simp add: occ_line_def)

lemma occ_line_zero_iff: "occ_line xs n = 0 \<longleftrightarrow> n \<notin> set xs"
  by (simp add: occ_line_def count_list_0_iff)

lemma occ_line_update:
  "i < length xs \<Longrightarrow> occ_line (xs[i := v]) n =
     occ_line xs n - (if xs ! i = n then 1 else 0) + (if v = n then 1 else 0)"
proof (induction xs arbitrary: i)
  case Nil
  then show ?case by simp
next
  case (Cons x xs)
  then show ?case by (cases i) auto
qed

lemma occ_simps [simp]: "occ [] n = 0" "occ (l # t) n = occ_line l n + occ t n"
  by (simp_all add: occ_def)

lemma wf_table_line: "wf_table b t \<Longrightarrow> l < copy_count b \<Longrightarrow> length (t ! l) = bucket_count b"
  by (simp add: wf_table_def)

lemma wf_table_length: "wf_table b t \<Longrightarrow> length t = copy_count b"
  by (simp add: wf_table_def)

lemma wf_table_cell_upd:
  "wf_table b t \<Longrightarrow> l < copy_count b \<Longrightarrow> wf_table b (cell_upd t l i v)"
  by (auto simp: wf_table_def dest!: set_update_subset_insert [THEN subsetD])

lemma occ_cell_upd:
  assumes "wf_table b t" "l < copy_count b" "i < bucket_count b"
  shows "occ (cell_upd t l i v) n =
    occ t n - (if t ! l ! i = n then 1 else 0) + (if v = n then 1 else 0)"
proof -
  have "l < length t" "i < length (t ! l)"
    using assms by (simp_all add: wf_table_def)
  then show ?thesis
    by (simp add: occ_def sum_list_list_update occ_line_update)
qed

lemma cell_upd_nth:
  assumes "wf_table b t" "l < copy_count b" "i < bucket_count b"
  shows "cell_upd t l i v ! l' ! i' = (if l' = l \<and> i' = i then v else t ! l' ! i')"
  using assms by (auto simp: wf_table_def nth_list_update)

section \<open>The effect of the counter operations\<close>

lemma change_tokens_fields [simp]:
  "available_server (change_tokens m f b) = available_server b"
  "bucket_count (change_tokens m f b) = bucket_count b"
  "copy_count (change_tokens m f b) = copy_count b"
  "mtokens_count_in_node (change_tokens m f b) = mtokens_count_in_node b"
  "mcandidate_node (change_tokens m f b) = mcandidate_node b"
  "master_server_capable (change_tokens m f b) = master_server_capable b"
  by (simp_all add: change_tokens_def Let_def)

lemma change_mtokens_fields [simp]:
  "available_server (change_mtokens m f b) = available_server b"
  "bucket_count (change_mtokens m f b) = bucket_count b"
  "copy_count (change_mtokens m f b) = copy_count b"
  "tokens_count_in_node (change_mtokens m f b) = tokens_count_in_node b"
  "scandidate_node (change_mtokens m f b) = scandidate_node b"
  "server_capable (change_mtokens m f b) = server_capable b"
  by (simp_all add: change_mtokens_def Let_def)

text \<open>The counts and capabilities as the code reads them.\<close>

abbreviation tok :: "'x builder_scheme \<Rightarrow> server_id_type \<Rightarrow> int" where
  "tok b n \<equiv> smap_at 0 n (tokens_count_in_node b)"
abbreviation mtok :: "'x builder_scheme \<Rightarrow> server_id_type \<Rightarrow> int" where
  "mtok b n \<equiv> smap_at 0 n (mtokens_count_in_node b)"
abbreviation cap :: "'x builder_scheme \<Rightarrow> server_id_type \<Rightarrow> int" where
  "cap b n \<equiv> smap_at 0 n (server_capable b)"
abbreviation mcap :: "'x builder_scheme \<Rightarrow> server_id_type \<Rightarrow> int" where
  "mcap b n \<equiv> smap_at 0 n (master_server_capable b)"

lemma change_tokens_effect [simp]:
  "tok (change_tokens m f b) n = tok b n + (if n = m then (if f then -1 else 1) else 0)"
  "cap (change_tokens m f b) n = cap b n"
  by (simp_all add: change_tokens_def change_tokens_count_in_node_def Let_def std_simps)

lemma change_mtokens_effect [simp]:
  "mtok (change_mtokens m f b) n = mtok b n + (if n = m then (if f then -1 else 1) else 0)"
  "mcap (change_mtokens m f b) n = mcap b n"
  by (simp_all add: change_mtokens_def change_tokens_count_in_node_def Let_def std_simps)

lemma is_node_availble_cong [simp]:
  "is_node_availble (change_tokens m f b) = is_node_availble b"
  "is_node_availble (change_mtokens m f b) = is_node_availble b"
  by (simp_all add: is_node_availble_def fun_eq_iff)

section \<open>The candidate index\<close>

text \<open>
  Every available server is filed in the candidate map under its surplus, the number of its
  buckets beyond its capability, so a search through the whole map sees every available server.
\<close>

definition indexed :: "server_id_type \<Rightarrow> int \<Rightarrow> (int, server_list_type) smap \<Rightarrow> bool" where
  "indexed n k m \<longleftrightarrow> n \<in> set (smap_at [] k m)"

definition index_inv :: "'x builder_scheme \<Rightarrow> bool" where
  "index_inv b \<longleftrightarrow> (\<forall>n. is_node_availble b n \<longrightarrow>
     indexed n (tok b n - cap b n) (scandidate_node b) \<and>
     indexed n (mtok b n - mcap b n) (mcandidate_node b))"

lemma indexed_move:
  "indexed n k (smap_alter [] (set_insert m) k2 (smap_alter [] (set_erase m) k1 ix)) \<longleftrightarrow>
     (if n = m then k = k2 \<or> (indexed n k ix \<and> k \<noteq> k1) else indexed n k ix)"
  by (auto simp: indexed_def std_simps)

lemma scandidate_change_tokens:
  "scandidate_node (change_tokens m f b) =
     smap_alter [] (set_insert m) (tok (change_tokens m f b) m - cap b m)
       (smap_alter [] (set_erase m) (tok b m - cap b m) (scandidate_node b))"
  by (simp add: change_tokens_def change_tokens_count_in_node_def Let_def std_simps)

lemma mcandidate_change_mtokens:
  "mcandidate_node (change_mtokens m f b) =
     smap_alter [] (set_insert m) (mtok (change_mtokens m f b) m - mcap b m)
       (smap_alter [] (set_erase m) (mtok b m - mcap b m) (mcandidate_node b))"
  by (simp add: change_mtokens_def change_tokens_count_in_node_def Let_def std_simps)

lemma index_inv_change_tokens: "index_inv b \<Longrightarrow> index_inv (change_tokens m f b)"
  by (simp add: index_inv_def scandidate_change_tokens indexed_move)

lemma index_inv_change_mtokens: "index_inv b \<Longrightarrow> index_inv (change_mtokens m f b)"
  by (simp add: index_inv_def mcandidate_change_mtokens indexed_move)

section \<open>The counters say what is in the table\<close>

definition counts_inv :: "hash_table_type \<Rightarrow> 'x builder_scheme \<Rightarrow> bool" where
  "counts_inv t b \<longleftrightarrow> wf_table b t \<and> 0 < copy_count b \<and>
     (\<forall>n. is_node_availble b n \<longrightarrow> tok b n = occ t n \<and> mtok b n = occ_line (t ! 0) n)"

lemma counts_inv_wf: "counts_inv t b \<Longrightarrow> wf_table b t"
  by (simp add: counts_inv_def)

lemma counts_inv_line0: "counts_inv t b \<Longrightarrow> length (t ! 0) = bucket_count b"
  by (simp add: counts_inv_def wf_table_def)

text \<open>
  What the builder's state keeps through every change of a cell: the sizes, the available
  servers and the capabilities.
\<close>

definition same_frame :: "'x builder_scheme \<Rightarrow> 'x builder_scheme \<Rightarrow> bool" where
  "same_frame b b' \<longleftrightarrow> available_server b' = available_server b \<and>
     bucket_count b' = bucket_count b \<and> copy_count b' = copy_count b \<and>
     (\<forall>n. mcap b' n = mcap b n)"

lemma same_frame_refl [simp]: "same_frame b b"
  by (simp add: same_frame_def)

lemma same_frame_trans [trans]: "same_frame a b \<Longrightarrow> same_frame b c \<Longrightarrow> same_frame a c"
  by (simp add: same_frame_def)

lemma same_frame_availble: "same_frame b b' \<Longrightarrow> is_node_availble b' = is_node_availble b"
  by (simp add: same_frame_def is_node_availble_def fun_eq_iff)

lemma same_frame_changes [simp]:
  "same_frame b (change_tokens m f b)"
  "same_frame b (change_mtokens m f b)"
  by (simp_all add: same_frame_def)

end
