(* ===== verification/Table_Builder_Cells.thy ===== *)
theory Table_Builder_Cells
  imports Table_Builder_Counts
begin

text \<open>
  What changing one cell does: \<open>invaliad_node\<close>, \<open>update_node\<close>, \<open>change_master_node\<close> and the
  search for a server. Each keeps \<open>builder_inv\<close>: the counters agree with the table and every
  available server is in the candidate index.
\<close>

definition builder_inv :: "hash_table_type \<Rightarrow> 'x builder_scheme \<Rightarrow> bool" where
  "builder_inv t b \<longleftrightarrow> counts_inv t b \<and> index_inv b"

lemma builder_inv_wf: "builder_inv t b \<Longrightarrow> wf_table b t"
  by (simp add: builder_inv_def counts_inv_def)

lemma builder_inv_copies: "builder_inv t b \<Longrightarrow> 0 < copy_count b"
  by (simp add: builder_inv_def counts_inv_def)

lemma builder_inv_mtok:
  "builder_inv t b \<Longrightarrow> is_node_availble b n \<Longrightarrow> mtok b n = occ_line (t ! 0) n"
  by (simp add: builder_inv_def counts_inv_def)

lemma not_availble_invalid [simp]: "\<not> is_node_availble b (INVALID_FLAG, p)"
  by (simp add: is_node_availble_def)

lemma availble_not_invalid: "is_node_availble b n \<Longrightarrow> fst n \<noteq> INVALID_FLAG"
  by (auto simp: is_node_availble_def)

lemma wf_table_frame: "same_frame b b' \<Longrightarrow> wf_table b' t = wf_table b t"
  by (simp add: same_frame_def wf_table_def)

section \<open>Taking a server out of a cell and putting one in\<close>

lemma invaliad_node_table:
  "fst (invaliad_node l i (t, b)) = cell_upd t l i (INVALID_FLAG, snd (t ! l ! i))"
  by (simp add: invaliad_node_def Let_def)

lemma invaliad_node_frame: "same_frame b (snd (invaliad_node l i (t, b)))"
  by (auto simp: invaliad_node_def Let_def same_frame_def)

lemma update_node_table: "fst (update_node l i n (t, b)) = cell_upd t l i n"
  by (simp add: update_node_def Let_def)

lemma update_node_frame: "same_frame b (snd (update_node l i n (t, b)))"
  by (auto simp: update_node_def Let_def same_frame_def)

lemma occ_line0_cell_upd:
  assumes "wf_table b t" "l < copy_count b" "i < bucket_count b"
  shows "occ_line (cell_upd t l i v ! 0) n =
    occ_line (t ! 0) n + (if l = 0 then (if v = n then 1 else 0) - (if t ! 0 ! i = n then 1 else 0)
                          else 0)"
  using assms by (auto simp: wf_table_def nth_list_update occ_line_update)

lemmas cell_counts = occ_cell_upd occ_line0_cell_upd wf_table_cell_upd

lemma invaliad_node_inv:
  assumes inv: "builder_inv t b" and l: "l < copy_count b" and i: "i < bucket_count b"
    and eq: "invaliad_node l i (t, b) = (t', b')"
  shows "builder_inv t' b'"
proof -
  have wf: "wf_table b t" using inv by (rule builder_inv_wf)
  have t': "t' = cell_upd t l i (INVALID_FLAG, snd (t ! l ! i))"
    using eq invaliad_node_table [of l i t b] by simp
  have fr: "same_frame b b'" using eq invaliad_node_frame [of b l i t] by simp
  have ix: "index_inv b'"
    using inv eq
    by (auto simp: builder_inv_def invaliad_node_def Let_def index_inv_change_tokens
        index_inv_change_mtokens split: if_splits)
  have ne: "(INVALID_FLAG, snd (t ! l ! i)) \<noteq> n" if "is_node_availble b n" for n
    using availble_not_invalid [OF that] by auto
  have "tok b' n = occ t' n \<and> mtok b' n = occ_line (t' ! 0) n" if av: "is_node_availble b' n" for n
  proof -
    have av': "is_node_availble b n" using av same_frame_availble [OF fr] by simp
    have base: "tok b n = occ t n" "mtok b n = occ_line (t ! 0) n"
      using inv av' by (simp_all add: builder_inv_def counts_inv_def)
    have "occ t' n = occ t n - (if t ! l ! i = n then 1 else 0)"
      "occ_line (t' ! 0) n = occ_line (t ! 0) n - (if l = 0 \<and> t ! 0 ! i = n then 1 else 0)"
      using cell_counts(1,2) [OF wf l i] ne [OF av'] by (cases "l = 0"; simp add: t')+
    then show ?thesis
      using eq av' base by (cases "l = 0") (auto simp: invaliad_node_def Let_def split: if_splits)
  qed
  moreover have "wf_table b' t'"
    using wf_table_frame [OF fr] cell_counts(3) [OF wf l] by (simp add: t')
  moreover have "0 < copy_count b'"
    using fr inv by (simp add: same_frame_def builder_inv_def counts_inv_def)
  ultimately show ?thesis
    using ix by (simp add: builder_inv_def counts_inv_def)
qed

lemma update_node_inv:
  assumes inv: "builder_inv t b" and l: "l < copy_count b" and i: "i < bucket_count b"
    and old: "\<not> is_node_availble b (t ! l ! i)"
    and eq: "update_node l i v (t, b) = (t', b')"
  shows "builder_inv t' b'"
proof -
  have wf: "wf_table b t" using inv by (rule builder_inv_wf)
  have t': "t' = cell_upd t l i v" using eq update_node_table [of l i v t b] by simp
  have fr: "same_frame b b'" using eq update_node_frame [of b l i v t] by simp
  have ix: "index_inv b'"
    using inv eq
    by (auto simp: builder_inv_def update_node_def Let_def index_inv_change_tokens
        index_inv_change_mtokens split: if_splits)
  have "tok b' n = occ t' n \<and> mtok b' n = occ_line (t' ! 0) n" if av: "is_node_availble b' n" for n
  proof -
    have av': "is_node_availble b n" using av same_frame_availble [OF fr] by simp
    have base: "tok b n = occ t n" "mtok b n = occ_line (t ! 0) n"
      using inv av' by (simp_all add: builder_inv_def counts_inv_def)
    have "t ! l ! i \<noteq> n" using old av' by auto
    then have "occ t' n = occ t n + (if v = n then 1 else 0)"
      "occ_line (t' ! 0) n = occ_line (t ! 0) n + (if l = 0 \<and> v = n then 1 else 0)"
      using cell_counts(1,2) [OF wf l i] by (cases "l = 0"; simp add: t')+
    then show ?thesis
      using eq av' base by (cases "l = 0") (auto simp: update_node_def Let_def split: if_splits)
  qed
  moreover have "wf_table b' t'"
    using wf_table_frame [OF fr] cell_counts(3) [OF wf l] by (simp add: t')
  moreover have "0 < copy_count b'"
    using fr inv by (simp add: same_frame_def builder_inv_def counts_inv_def)
  ultimately show ?thesis
    using ix by (simp add: builder_inv_def counts_inv_def)
qed

section \<open>Promoting a copy to master\<close>

definition good_choice ::
  "'x builder_scheme \<Rightarrow> hash_table_type \<Rightarrow> nat \<Rightarrow> (nat \<times> int) option \<Rightarrow> bool" where
  "good_choice b t idx best =
     (case best of None \<Rightarrow> True
      | Some (ln, c) \<Rightarrow> 1 \<le> ln \<and> ln < copy_count b \<and> is_node_availble b (t ! ln ! idx) \<and>
          c = mtok b (t ! ln ! idx))"

lemma better_master_good:
  "good_choice b t idx best \<Longrightarrow> 1 \<le> l \<and> l < copy_count b \<Longrightarrow>
     good_choice b t idx (better_master b t idx l best)"
  by (cases best) (auto simp: better_master_def good_choice_def Let_def)

lemma choose_master_line_Some:
  assumes "choose_master_line b t idx = Some (ln, c)"
  shows "1 \<le> ln \<and> ln < copy_count b \<and> is_node_availble b (t ! ln ! idx) \<and>
    c = mtok b (t ! ln ! idx)"
proof -
  have "good_choice b t idx (choose_master_line b t idx)"
    unfolding choose_master_line_def
    by (rule fold_invariant [where Q = "\<lambda>l. 1 \<le> l \<and> l < copy_count b"])
      (auto simp: better_master_good, simp add: good_choice_def)
  then show ?thesis using assms by (simp add: good_choice_def)
qed

lemma better_master_None:
  "better_master b t idx l best = None \<longleftrightarrow> best = None \<and> \<not> is_node_availble b (t ! l ! idx)"
  by (auto simp: better_master_def Let_def split: option.split)

lemma choose_master_line_None_iff:
  "choose_master_line b t idx = None \<longleftrightarrow>
     (\<forall>l. 1 \<le> l \<longrightarrow> l < copy_count b \<longrightarrow> \<not> is_node_availble b (t ! l ! idx))"
proof -
  have "fold (better_master b t idx) xs best = None \<longleftrightarrow>
      best = None \<and> (\<forall>l \<in> set xs. \<not> is_node_availble b (t ! l ! idx))" for xs best
    by (induction xs arbitrary: best) (auto simp: better_master_None)
  from this [of "[1..<copy_count b]" None] show ?thesis
    by (auto simp: choose_master_line_def)
qed

text \<open>
  A successful promotion swaps the chosen copy into line 0; the old master takes its place if it
  is alive, otherwise the place is invalidated.
\<close>

lemma change_master_node_True:
  assumes "change_master_node idx force_flag (t, b) = (True, t', b')"
  obtains ln where "1 \<le> ln" "ln < copy_count b" "is_node_availble b (t ! ln ! idx)"
    "force_flag \<or> mtok b (t ! ln ! idx) < mcap b (t ! ln ! idx)"
    "t' = cell_upd (cell_upd t 0 idx (t ! ln ! idx)) ln idx
       (if is_node_availble b (t ! 0 ! idx) then t ! 0 ! idx
        else (INVALID_FLAG, snd (t ! ln ! idx)))"
    "same_frame b b'"
    "\<And>n. tok b' n = tok b n"
    "\<And>n. mtok b' n = mtok b n + (if n = t ! ln ! idx then 1 else 0) -
        (if is_node_availble b (t ! 0 ! idx) \<and> n = t ! 0 ! idx then 1 else 0)"
    "index_inv b \<Longrightarrow> index_inv b'"
proof -
  obtain ln c where ch: "choose_master_line b t idx = Some (ln, c)"
    using assms by (auto simp: change_master_node_def split: option.splits)
  note cs = choose_master_line_Some [OF ch]
  define b1 where "b1 = b\<lparr>tokens_count_in_node_now :=
    smap_alter 0 (\<lambda>c. c + 1) (t ! ln ! idx) (tokens_count_in_node_now b)\<rparr>"
  have b1: "is_node_availble b1 = is_node_availble b" "index_inv b \<Longrightarrow> index_inv b1"
    "same_frame b b1"
    by (auto simp: b1_def is_node_availble_def index_inv_def same_frame_def fun_eq_iff)
  have eqs: "force_flag \<or> mtok b (t ! ln ! idx) < mcap b (t ! ln ! idx)"
    "t' = cell_upd (cell_upd t 0 idx (t ! ln ! idx)) ln idx
       (if is_node_availble b (t ! 0 ! idx) then t ! 0 ! idx
        else (INVALID_FLAG, snd (t ! ln ! idx)))"
    "b' = (if is_node_availble b (t ! 0 ! idx)
           then change_mtokens (t ! 0 ! idx) True (change_mtokens (t ! ln ! idx) False b1)
           else change_mtokens (t ! ln ! idx) False b1)"
    using assms ch b1(1)
    by (auto simp: change_master_node_def Let_def b1_def [symmetric] split: if_splits)
  show ?thesis
  proof (rule that [of ln])
    show "same_frame b b'"
      using b1(3) by (auto simp: eqs(3) same_frame_def)
    show "tok b' n = tok b n" for n by (simp add: eqs(3) b1_def)
    show "mtok b' n = mtok b n + (if n = t ! ln ! idx then 1 else 0) -
        (if is_node_availble b (t ! 0 ! idx) \<and> n = t ! 0 ! idx then 1 else 0)" for n
      by (simp add: eqs(3) b1_def)
    show "index_inv b \<Longrightarrow> index_inv b'"
      using b1(2) by (auto simp: eqs(3) intro!: index_inv_change_mtokens)
  qed (use cs eqs(1,2) in auto)
qed

lemma change_master_node_False:
  "change_master_node idx force_flag (t, b) = (False, t', b') \<Longrightarrow> t' = t \<and> b' = b"
  by (auto simp: change_master_node_def Let_def split: option.splits if_splits)

lemma change_master_node_fails_iff:
  "fst (change_master_node idx True (t, b)) = False \<longleftrightarrow>
     (\<forall>l. 1 \<le> l \<longrightarrow> l < copy_count b \<longrightarrow> \<not> is_node_availble b (t ! l ! idx))"
proof -
  have "fst (change_master_node idx True (t, b)) = False \<longleftrightarrow> choose_master_line b t idx = None"
    by (cases "choose_master_line b t idx")
      (simp_all add: change_master_node_def Let_def split: prod.split)
  then show ?thesis by (simp add: choose_master_line_None_iff)
qed

lemma change_master_node_inv:
  assumes inv: "builder_inv t b" and i: "idx < bucket_count b"
    and eq: "change_master_node idx force_flag (t, b) = (True, t', b')"
  shows "builder_inv t' b'"
proof -
  have wf: "wf_table b t" using inv by (rule builder_inv_wf)
  have c0: "0 < copy_count b" using inv by (rule builder_inv_copies)
  obtain ln where ln: "1 \<le> ln" "ln < copy_count b" "is_node_availble b (t ! ln ! idx)"
    and t': "t' = cell_upd (cell_upd t 0 idx (t ! ln ! idx)) ln idx
       (if is_node_availble b (t ! 0 ! idx) then t ! 0 ! idx
        else (INVALID_FLAG, snd (t ! ln ! idx)))"
    and fr: "same_frame b b'" and tk: "\<And>n. tok b' n = tok b n"
    and mt: "\<And>n. mtok b' n = mtok b n + (if n = t ! ln ! idx then 1 else 0) -
        (if is_node_availble b (t ! 0 ! idx) \<and> n = t ! 0 ! idx then 1 else 0)"
    and ix: "index_inv b \<Longrightarrow> index_inv b'"
    using eq by (rule change_master_node_True) blast
  define t1 where "t1 = cell_upd t 0 idx (t ! ln ! idx)"
  have wf1: "wf_table b t1" using cell_counts(3) [OF wf c0] by (simp add: t1_def)
  have t1ln: "t1 ! ln ! idx = t ! ln ! idx"
    using cell_upd_nth [OF wf c0 i] ln(1) by (simp add: t1_def)
  have ne: "(INVALID_FLAG, p) \<noteq> n" if "is_node_availble b n" for n p
    using availble_not_invalid [OF that] by auto
  have "tok b' n = occ t' n \<and> mtok b' n = occ_line (t' ! 0) n"
    if "is_node_availble b n" for n
  proof -
    have base: "tok b n = occ t n" "mtok b n = occ_line (t ! 0) n"
      using inv that by (simp_all add: builder_inv_def counts_inv_def)
    have o1: "occ t1 n = occ t n - (if t ! 0 ! idx = n then 1 else 0) +
        (if t ! ln ! idx = n then 1 else 0)"
      using occ_cell_upd [OF wf c0 i] by (simp add: t1_def)
    have l1: "occ_line (t1 ! 0) n = occ_line (t ! 0) n + (if t ! ln ! idx = n then 1 else 0) -
        (if t ! 0 ! idx = n then 1 else 0)"
      using occ_line0_cell_upd [OF wf c0 i] by (simp add: t1_def)
    show ?thesis
      using ln(1) that ne [OF that] o1 l1 base
        occ_cell_upd [OF wf1 ln(2) i] occ_line0_cell_upd [OF wf1 ln(2) i]
      by (auto simp: t' t1_def [symmetric] t1ln tk mt)
  qed
  moreover have "wf_table b' t'"
    using wf_table_frame [OF fr] wf_table_cell_upd [OF wf1 ln(2)] by (simp add: t' t1_def [symmetric])
  moreover have "0 < copy_count b'" using fr c0 by (simp add: same_frame_def)
  ultimately show ?thesis
    using inv ix same_frame_availble [OF fr] by (simp add: builder_inv_def counts_inv_def)
qed

section \<open>Noting a checked server\<close>

lemma note_node_fields [simp]:
  "available_server (note_node S n b) = available_server b"
  "bucket_count (note_node S n b) = bucket_count b"
  "copy_count (note_node S n b) = copy_count b"
  "tokens_count_in_node (note_node S n b) = tokens_count_in_node b"
  "mtokens_count_in_node (note_node S n b) = mtokens_count_in_node b"
  "server_capable (note_node S n b) = server_capable b"
  "master_server_capable (note_node S n b) = master_server_capable b"
  "scandidate_node (note_node S n b) = scandidate_node b"
  "mcandidate_node (note_node S n b) = mcandidate_node b"
  by (simp_all add: note_node_def Let_def)

lemma note_node_frame [simp]: "same_frame b (note_node S n b)"
  by (simp add: same_frame_def)

lemma note_node_inv: "builder_inv t (note_node S n b) = builder_inv t b"
  by (simp add: builder_inv_def counts_inv_def index_inv_def wf_table_def is_node_availble_def)

end
