(* ===== verification/Table_Builder_Rebuild.thy ===== *)
theory Table_Builder_Rebuild
  imports Table_Builder_Cells
begin

text \<open>
  The rebuild loop, for any strategy. The locale \<open>build_strategy\<close> states what the loop relies on
  of the virtual functions: an accepted server is alive, does not already hold a copy of the
  bucket, and is below its share of masters; \<open>caculate_capable\<close> touches only the capabilities.
  From that the locale's lemmas show that a finished rebuild has a live server in every cell
  and no two copies of a bucket on one server.
\<close>

section \<open>The search for a server\<close>

lemma pick_server_cases:
  "pick_server ok orig cur xs = cur \<or> ok (pick_server ok orig cur xs)"
  by (induction ok orig cur xs rule: pick_server.induct) auto

lemma pick_server_finds:
  "x \<in> set xs \<Longrightarrow> ok x \<Longrightarrow> ok (pick_server ok orig cur xs)"
proof (induction ok orig cur xs rule: pick_server.induct)
  case (1 ok orig cur)
  then show ?case by simp
next
  case (2 ok orig cur y rest)
  then show ?case
    using pick_server_cases [of ok orig y rest] by auto
qed

lemma pick_candidate_cases:
  "pick_candidate ok orig i s m cur = cur \<or> ok (pick_candidate ok orig i s m cur)"
proof (induction ok orig i s m cur rule: pick_candidate.induct)
  case (1 ok orig i s cur)
  then show ?case by simp
next
  case (2 ok orig i s it rest cur)
  then show ?case
    using pick_server_cases [of ok orig cur "snd it"] by auto
qed

lemma pick_candidate_finds:
  assumes "\<And>x. ok x \<Longrightarrow> fst x \<noteq> INVALID_FLAG" and "CONSIDER_BASE \<le> i"
    and "fst cur = INVALID_FLAG" and "it \<in> set m" and "x \<in> set (snd it)" and "ok x"
    and "s < i + 1"
  shows "fst (pick_candidate ok orig i s m cur) \<noteq> INVALID_FLAG"
  using assms(3-)
proof (induction m arbitrary: cur)
  case Nil
  then show ?case by simp
next
  case (Cons it' m)
  let ?c = "pick_server ok orig cur (snd it')"
  have step: "pick_candidate ok orig i s (it' # m) cur = pick_candidate ok orig i s m ?c"
    using Cons.prems(1,5) assms(2) by simp
  show ?case
  proof (cases "fst ?c = INVALID_FLAG")
    case True
    then have "\<not> ok ?c" using assms(1) by blast
    then have "it \<noteq> it'"
      using pick_server_finds [of x "snd it'" ok orig cur] Cons.prems(3,4) by blast
    then have "it \<in> set m" using Cons.prems(2) by simp
    then show ?thesis
      using Cons.IH [OF True _ Cons.prems(3,4,5)] step by simp
  next
    case False
    then have "pick_candidate ok orig i s m ?c = ?c" by (cases m) auto
    with False step show ?thesis by simp
  qed
qed

text \<open>The loop over the levels stops at the first that yields a server.\<close>

definition search_levels ::
  "(nat \<Rightarrow> server_id_type \<Rightarrow> server_id_type) \<Rightarrow> nat list \<Rightarrow> server_id_type \<Rightarrow> server_id_type" where
  "search_levels g = fold (\<lambda>i c. if fst c = INVALID_FLAG then g i c else c)"

lemma search_levels_simps:
  "search_levels g [] c = c"
  "search_levels g (i # is) c =
     search_levels g is (if fst c = INVALID_FLAG then g i c else c)"
  by (simp_all add: search_levels_def)

lemma search_levels_cases:
  assumes "\<And>i c. g i c = c \<or> ok i (g i c)"
  shows "search_levels g is c = c \<or> (\<exists>i. ok i (search_levels g is c))"
proof (induction "is" arbitrary: c)
  case Nil
  then show ?case by (simp add: search_levels_simps)
next
  case (Cons i "is")
  then show ?case
    using assms [of i c] by (simp add: search_levels_simps) metis
qed

lemma search_levels_keep: "fst c \<noteq> INVALID_FLAG \<Longrightarrow> search_levels g is c = c"
  by (induction "is") (simp_all add: search_levels_simps)

lemma search_levels_finds:
  assumes "i \<in> set is" and "\<And>c. fst c = INVALID_FLAG \<Longrightarrow> fst (g i c) \<noteq> INVALID_FLAG"
  shows "fst (search_levels g is c) \<noteq> INVALID_FLAG"
  using assms(1)
proof (induction "is" arbitrary: c)
  case Nil
  then show ?case by simp
next
  case (Cons j "is")
  show ?case
  proof (cases "j = i")
    case True
    have "fst (if fst c = INVALID_FLAG then g i c else c) \<noteq> INVALID_FLAG"
      using assms(2) by simp
    then show ?thesis using True search_levels_keep by (simp add: search_levels_simps)
  next
    case False
    then show ?thesis using Cons by (simp add: search_levels_simps)
  qed
qed

abbreviation accepts ::
  "'x table_strategy \<Rightarrow> nat \<Rightarrow> nat \<Rightarrow> hash_table_type \<times> 'x builder_scheme \<Rightarrow> nat \<Rightarrow>
    server_id_type \<Rightarrow> bool" where
  "accepts S l i s lvl n \<equiv> is_this_node_OK S (snd s) n l i (fst s) lvl False = NODE_OK"

abbreviation search_at ::
  "'x table_strategy \<Rightarrow> nat \<Rightarrow> nat \<Rightarrow> server_id_type \<Rightarrow> hash_table_type \<times> 'x builder_scheme \<Rightarrow>
    nat \<Rightarrow> server_id_type \<Rightarrow> server_id_type" where
  "search_at S l i orig s lvl \<equiv> pick_candidate (accepts S l i s lvl) orig lvl CONSIDER_ALL
     (if l = 0 then mcandidate_node (snd s) else scandidate_node (snd s))"

lemma get_suitable_node_levels:
  "get_suitable_node S l i orig s =
     search_levels (search_at S l i orig s) [CONSIDER_ALL..<Suc CONSIDER_FORCE] (INVALID_FLAG, 0)"
  unfolding get_suitable_node_def search_levels_def Let_def case_prod_beta by (rule refl)

lemma get_suitable_node_sound:
  assumes "fst (get_suitable_node S l i orig s) \<noteq> INVALID_FLAG"
  shows "\<exists>lvl. accepts S l i s lvl (get_suitable_node S l i orig s)"
proof -
  have "get_suitable_node S l i orig s = (INVALID_FLAG, 0) \<or>
      (\<exists>lvl. accepts S l i s lvl (get_suitable_node S l i orig s))"
    unfolding get_suitable_node_levels
    by (rule search_levels_cases [where ok = "accepts S l i s"]) (rule pick_candidate_cases)
  then show ?thesis using assms by auto
qed

lemma get_suitable_node_complete:
  assumes ok: "\<And>n. accepts S l i s lvl n \<Longrightarrow> fst n \<noteq> INVALID_FLAG"
    and lvl: "CONSIDER_BASE \<le> lvl" "lvl \<le> CONSIDER_FORCE" and n: "accepts S l i s lvl n"
    and ix: "indexed n k (if l = 0 then mcandidate_node (snd s) else scandidate_node (snd s))"
  shows "fst (get_suitable_node S l i orig s) \<noteq> INVALID_FLAG"
proof -
  let ?cand = "if l = 0 then mcandidate_node (snd s) else scandidate_node (snd s)"
  define xs where "xs = smap_at [] k ?cand"
  have n_in: "n \<in> set xs" using ix by (simp only: indexed_def xs_def)
  then have "xs \<noteq> []" by auto
  then have xs: "(k, xs) \<in> set ?cand" unfolding xs_def by (rule smap_at_mem)
  have "fst (search_at S l i orig s lvl c) \<noteq> INVALID_FLAG" if "fst c = INVALID_FLAG" for c
  proof (rule pick_candidate_finds [where x = n])
    show "fst x \<noteq> INVALID_FLAG" if "accepts S l i s lvl x" for x using that by (rule ok)
    show "n \<in> set (snd (k, xs))" using n_in by simp
    show "CONSIDER_ALL < lvl + 1" by (simp add: consider_defs)
  qed (fact lvl(1) that xs n)+
  then show ?thesis
    unfolding get_suitable_node_levels using lvl(2)
    by (intro search_levels_finds [of lvl]) (simp_all add: consider_defs)
qed

section \<open>The interface to a strategy\<close>

text \<open>No two copies of bucket \<open>j\<close> on one server, and every copy on a live server.\<close>

definition bucket_good :: "'x builder_scheme \<Rightarrow> hash_table_type \<Rightarrow> nat \<Rightarrow> bool" where
  "bucket_good b t j \<longleftrightarrow>
     (\<forall>l < copy_count b. is_node_availble b (t ! l ! j)) \<and>
     (\<forall>l < copy_count b. \<forall>k < copy_count b. l \<noteq> k \<longrightarrow> fst (t ! l ! j) \<noteq> fst (t ! k ! j))"

text \<open>A server over its share of masters has no cell among the first \<open>i\<close> of the master line.\<close>

definition masters_settled :: "'x builder_scheme \<Rightarrow> hash_table_type \<Rightarrow> nat \<Rightarrow> bool" where
  "masters_settled b t i \<longleftrightarrow> (\<forall>n. is_node_availble b n \<longrightarrow>
     occ_line (t ! 0) n \<le> mcap b n \<or> (\<forall>j < i. t ! 0 ! j \<noteq> n))"

text \<open>What the first round has established before bucket \<open>i\<close>, seen from the state \<open>b0\<close> before the loop.\<close>

definition masters_done :: "'x builder_scheme \<Rightarrow> nat \<Rightarrow> hash_table_type \<times> 'x builder_scheme \<Rightarrow> bool"
  where "masters_done b0 i s \<longleftrightarrow> builder_inv (fst s) (snd s) \<and> same_frame b0 (snd s) \<and>
    (\<forall>j < i. is_node_availble b0 (fst s ! 0 ! j)) \<and> masters_settled b0 (fst s) i"

lemma rebuild_cell_master:
  "rebuild_cell S 0 i 0 (t, b) =
     (if is_this_node_OK S b (t ! 0 ! i) 0 i t CONSIDER_BASE True = NODE_OK
      then Inr (t, note_node S (t ! 0 ! i) b)
      else if fst (change_master_node i False (t, b)) then Inr (snd (change_master_node i False (t, b)))
      else replace_node S 0 i (t, b))"
  using change_master_node_False [of i False t b]
  by (cases "change_master_node i False (t, b)")
    (auto simp: rebuild_cell_def Let_def NODE_OK_def split: bool.split)

lemma rebuild_cell_slave:
  "1 \<le> l \<Longrightarrow> rebuild_cell S 1 i l (t, b) =
     (if is_this_node_OK S b (t ! l ! i) l i t CONSIDER_ALL True = NODE_OK
      then Inr (t, note_node S (t ! l ! i) b) else replace_node S l i (t, b))"
  by (simp add: rebuild_cell_def Let_def NODE_OK_def)

lemma rebuild_master_cases:
  assumes "rebuild_cell S 0 i 0 (t, b) = Inr (t', b')"
  shows "is_this_node_OK S b (t ! 0 ! i) 0 i t CONSIDER_BASE True = NODE_OK \<and>
      t' = t \<and> b' = note_node S (t ! 0 ! i) b \<or>
    change_master_node i False (t, b) = (True, t', b') \<or> replace_node S 0 i (t, b) = Inr (t', b')"
  using assms unfolding rebuild_cell_master
  by (cases "change_master_node i False (t, b)") (auto split: if_splits)

lemma rebuild_slave_cases:
  assumes "1 \<le> l" "rebuild_cell S 1 i l (t, b) = Inr (t', b')"
  shows "is_this_node_OK S b (t ! l ! i) l i t CONSIDER_ALL True = NODE_OK \<and>
      t' = t \<and> b' = note_node S (t ! l ! i) b \<or> replace_node S l i (t, b) = Inr (t', b')"
  using assms(2) unfolding rebuild_cell_slave [OF assms(1)] by (auto split: if_splits)

text \<open>
  What the second round has established before bucket \<open>i\<close>, and inside bucket \<open>i\<close> before line \<open>l\<close>.
\<close>

definition slaves_done ::
  "'x builder_scheme \<Rightarrow> hash_table_line_type \<Rightarrow> nat \<Rightarrow> hash_table_type \<times> 'x builder_scheme \<Rightarrow> bool" where
  "slaves_done b0 masters i s \<longleftrightarrow> builder_inv (fst s) (snd s) \<and> same_frame b0 (snd s) \<and>
     fst s ! 0 = masters \<and> (\<forall>j < i. bucket_good b0 (fst s) j)"

definition column_done ::
  "'x builder_scheme \<Rightarrow> hash_table_line_type \<Rightarrow> nat \<Rightarrow> nat \<Rightarrow> hash_table_type \<times> 'x builder_scheme \<Rightarrow>
    bool" where
  "column_done b0 masters i l s \<longleftrightarrow> slaves_done b0 masters i s \<and>
     (\<forall>k. 1 \<le> k \<longrightarrow> k < l \<longrightarrow> is_node_availble b0 (fst s ! k ! i) \<and>
        (\<forall>k' < copy_count b0. k' \<noteq> k \<longrightarrow> fst (fst s ! k' ! i) \<noteq> fst (fst s ! k ! i)))"

lemma column_done_bucket:
  assumes "column_done b0 masters i (copy_count b0) s" and "is_node_availble b0 (masters ! i)"
  shows "slaves_done b0 masters (Suc i) s"
proof -
  have sl: "slaves_done b0 masters i s" using assms(1) by (simp add: column_done_def)
  have col: "is_node_availble b0 (fst s ! k ! i)"
      "k' < copy_count b0 \<Longrightarrow> k' \<noteq> k \<Longrightarrow> fst (fst s ! k' ! i) \<noteq> fst (fst s ! k ! i)"
    if "1 \<le> k" "k < copy_count b0" for k k'
    using assms(1) that by (simp_all add: column_done_def)
  have m0: "fst s ! 0 = masters" using sl by (simp add: slaves_done_def)
  have "bucket_good b0 (fst s) i"
    unfolding bucket_good_def
  proof (intro conjI allI impI)
    fix l assume "l < copy_count b0"
    then show "is_node_availble b0 (fst s ! l ! i)"
      using col(1) [of l] assms(2) m0 by (cases "l = 0") auto
  next
    fix l k assume "l < copy_count b0" "k < copy_count b0" "l \<noteq> k"
    then show "fst (fst s ! l ! i) \<noteq> fst (fst s ! k ! i)"
      using col(2) [of k l] col(2) [of l k] by (cases "k = 0") auto
  qed
  then show ?thesis using sl by (auto simp: slaves_done_def less_Suc_eq)
qed

lemma first_round_cell:
  "0 < n \<Longrightarrow> foldE (rebuild_cell S 0 i) [0..<n] s = rebuild_cell S 0 i 0 s"
proof -
  have skip: "foldE (rebuild_cell S 0 i) [Suc 0..<n] s = Inr s" for s
    by (induction n) (simp_all add: foldE_append rebuild_cell_def)
  assume "0 < n"
  then show ?thesis by (simp add: upt_conv_Cons skip split: sum.split)
qed

text \<open>The two rounds of \<open>rebuild_loop\<close>.\<close>

abbreviation master_round where
  "master_round S b \<equiv> foldE (\<lambda>i. rebuild_cell S 0 i 0) [0..<bucket_count b]"
abbreviation slave_round where
  "slave_round S b \<equiv>
     foldE (\<lambda>i. foldE (rebuild_cell S 1 i) [1..<copy_count b]) [0..<bucket_count b]"

lemma rebuild_loop_rounds:
  assumes "length t = copy_count b" "0 < copy_count b"
  shows "rebuild_loop S (t, b) =
    (case master_round S b (t, b) of
       Inl s \<Rightarrow> Inl s
     | Inr s \<Rightarrow> (if copy_count b = 1 then Inr s else slave_round S b s))"
proof -
  have r0: "foldE (rebuild_cell S 0 i) [0..<copy_count b] = rebuild_cell S 0 i 0" for i
    using first_round_cell [OF assms(2)] by (rule ext)
  have lines: "take 2 [0..<length t] = (if copy_count b = 1 then [0] else [0, 1])"
    using assms by (auto simp: upt_conv_Cons numeral_2_eq_2)
  have rounds: "foldE F (if c then [0] else [0, 1]) s =
      (case F 0 s of Inl e \<Rightarrow> Inl e | Inr s \<Rightarrow> if c then Inr s else F 1 s)"
    for F :: "nat \<Rightarrow> 's \<Rightarrow> 's + 's" and c s
    by (simp split: sum.split)
  show ?thesis unfolding rebuild_loop_def fst_conv snd_conv lines rounds r0 by (rule refl)
qed

locale build_strategy =
  fixes S :: "'x table_strategy"
  assumes ok_available:
      "is_this_node_OK S b n l i t lvl used = NODE_OK \<Longrightarrow> is_node_availble b n"
    and ok_distinct:
      "is_this_node_OK S b n l i t lvl used = NODE_OK \<Longrightarrow> \<not> (l = 0 \<and> lvl = CONSIDER_BASE) \<Longrightarrow>
        k < copy_count b \<Longrightarrow> k \<noteq> l \<Longrightarrow> fst (t ! k ! i) \<noteq> fst n"
    and ok_master:
      "is_this_node_OK S b n 0 i t lvl used = NODE_OK \<Longrightarrow>
        mtok b n < mcap b n + (if used then 1 else 0)"
    and capable_frame:
      "caculate_capable S b = Some b' \<Longrightarrow>
        available_server b' = available_server b \<and> bucket_count b' = bucket_count b \<and>
        copy_count b' = copy_count b \<and> tokens_count_in_node b' = tokens_count_in_node b \<and>
        mtokens_count_in_node b' = mtokens_count_in_node b \<and>
        count_server b' = count_server b \<and> mcount_server b' = mcount_server b"
begin

lemma replace_node_Inr:
  assumes inv: "builder_inv t b" and l: "l < copy_count b" and i: "i < bucket_count b"
    and eq: "replace_node S l i (t, b) = Inr (t', b')"
  obtains n where "t' = cell_upd t l i n" "is_node_availble b n" "builder_inv t' b'"
    "same_frame b b'"
    "l \<noteq> 0 \<Longrightarrow> \<forall>k < copy_count b. k \<noteq> l \<longrightarrow> fst (t ! k ! i) \<noteq> fst n"
    "l = 0 \<Longrightarrow> occ_line (t' ! 0) n \<le> mcap b n"
proof -
  obtain t1 b1 where s1: "invaliad_node l i (t, b) = (t1, b1)" by (cases "invaliad_node l i (t, b)")
  define n where "n = get_suitable_node S l i (t ! l ! i) (t1, b1)"
  have ne: "fst n \<noteq> INVALID_FLAG"
    and up: "\<exists>b2. update_node l i n (t1, b1) = (t', b2) \<and> b' = note_node S n b2"
    using eq s1 by (auto simp: replace_node_def Let_def n_def split: if_splits prod.splits)
  then obtain b2 where b2: "update_node l i n (t1, b1) = (t', b2)" "b' = note_node S n b2" by blast
  have wf: "wf_table b t" using inv by (rule builder_inv_wf)
  have t1: "t1 = cell_upd t l i (INVALID_FLAG, snd (t ! l ! i))"
    using s1 invaliad_node_table [of l i t b] by simp
  have fr1: "same_frame b b1" using s1 invaliad_node_frame [of b l i t] by simp
  have fr2: "same_frame b1 b2" using b2(1) update_node_frame [of b1 l i n t1] by simp
  have inv1: "builder_inv t1 b1" using invaliad_node_inv [OF inv l i s1] .
  have dims: "copy_count b1 = copy_count b" "bucket_count b1 = bucket_count b"
    using fr1 by (simp_all add: same_frame_def)
  have t': "t' = cell_upd t l i n"
    using b2(1) update_node_table [of l i n t1 b1] wf l by (simp add: t1 wf_table_def)
  obtain lvl where ok: "is_this_node_OK S b1 n l i t1 lvl False = NODE_OK"
    using get_suitable_node_sound [of S l i "t ! l ! i" "(t1, b1)"] ne by (auto simp: n_def)
  have av: "is_node_availble b1 n" using ok by (rule ok_available)
  have inv2: "builder_inv t' b2"
    using update_node_inv [OF inv1 _ _ _ b2(1)] l i dims cell_upd_nth [OF wf l i]
    by (simp add: t1)
  show ?thesis
  proof (rule that [OF t'])
    show "is_node_availble b n" using av same_frame_availble [OF fr1] by simp
    show "builder_inv t' b'" using inv2 by (simp add: b2(2) note_node_inv)
    show "same_frame b b'"
      using same_frame_trans [OF fr1 fr2] by (simp add: b2(2) same_frame_def)
    show "\<forall>k < copy_count b. k \<noteq> l \<longrightarrow> fst (t ! k ! i) \<noteq> fst n" if "l \<noteq> 0"
    proof (intro allI impI)
      fix k assume k: "k < copy_count b" "k \<noteq> l"
      have "fst (t1 ! k ! i) \<noteq> fst n"
        using ok_distinct [OF ok] that k dims by simp
      then show "fst (t ! k ! i) \<noteq> fst n"
        using cell_upd_nth [OF wf l i] k by (simp add: t1)
    qed
    show "occ_line (t' ! 0) n \<le> mcap b n" if "l = 0"
    proof -
      have "mtok b1 n < mcap b n"
        using ok_master ok that fr1 by (fastforce simp: same_frame_def)
      then have "occ_line (t1 ! 0) n < mcap b n" using builder_inv_mtok [OF inv1 av] by simp
      moreover have "occ_line (t' ! 0) n \<le> occ_line (t1 ! 0) n + 1"
        using wf i l that by (simp add: t' t1 wf_table_def occ_line_update)
      ultimately show ?thesis by simp
    qed
  qed
qed

text \<open>One step of the first round: the master of bucket \<open>i\<close> becomes or stays a live server within its share.\<close>

lemma rebuild_master_Inr:
  assumes inv: "builder_inv t b" and i: "i < bucket_count b"
    and eq: "rebuild_cell S 0 i 0 (t, b) = Inr (t', b')"
  obtains n where "t' ! 0 = (t ! 0)[i := n]" "is_node_availble b n" "builder_inv t' b'"
    "same_frame b b'" "occ_line (t' ! 0) n \<le> mcap b n"
proof -
  have wf: "wf_table b t" using inv by (rule builder_inv_wf)
  have c0: "0 < copy_count b" using inv by (rule builder_inv_copies)
  have len: "0 < length t" "length (t ! 0) = bucket_count b"
    using wf c0 by (simp_all add: wf_table_def)
  consider (keep) "is_this_node_OK S b (t ! 0 ! i) 0 i t CONSIDER_BASE True = NODE_OK"
      "t' = t" "b' = note_node S (t ! 0 ! i) b"
    | (change) "change_master_node i False (t, b) = (True, t', b')"
    | (replace) "replace_node S 0 i (t, b) = Inr (t', b')"
    using rebuild_master_cases [OF eq] by blast
  then show ?thesis
  proof cases
    case keep
    note ok = keep(1)
    have av: "is_node_availble b (t ! 0 ! i)" using ok by (rule ok_available)
    then have "occ_line (t ! 0) (t ! 0 ! i) \<le> mcap b (t ! 0 ! i)"
      using ok_master [OF ok] builder_inv_mtok [OF inv av] by simp
    then show ?thesis
      by (intro that [of "t ! 0 ! i"]) (simp_all add: keep inv av note_node_inv)
  next
    case change
    obtain ln where ln: "1 \<le> ln" "is_node_availble b (t ! ln ! i)"
        "mtok b (t ! ln ! i) < mcap b (t ! ln ! i)" "same_frame b b'"
      and t': "t' = cell_upd (cell_upd t 0 i (t ! ln ! i)) ln i
        (if is_node_availble b (t ! 0 ! i) then t ! 0 ! i else (INVALID_FLAG, snd (t ! ln ! i)))"
      using change_master_node_True [OF change] by metis
    have line0: "t' ! 0 = (t ! 0)[i := t ! ln ! i]" using ln(1) len(1) by (simp add: t')
    show ?thesis
    proof (rule that [OF line0 ln(2) change_master_node_inv [OF inv i change] ln(4)])
      show "occ_line (t' ! 0) (t ! ln ! i) \<le> mcap b (t ! ln ! i)"
        using ln(3) builder_inv_mtok [OF inv ln(2)] len i by (simp add: line0 occ_line_update)
    qed
  next
    case replace
    then show ?thesis
      using replace_node_Inr [OF inv c0 i replace] len by (metis nth_list_update_eq that)
  qed
qed

text \<open>One step of the second round: the cell gets or keeps a live server that holds no other copy.\<close>

lemma rebuild_slave_Inr:
  assumes inv: "builder_inv t b" and l: "l < copy_count b" "1 \<le> l" and i: "i < bucket_count b"
    and eq: "rebuild_cell S 1 i l (t, b) = Inr (t', b')"
  obtains n where "t' = cell_upd t l i n" "is_node_availble b n" "builder_inv t' b'"
    "same_frame b b'" "\<forall>k < copy_count b. k \<noteq> l \<longrightarrow> fst (t ! k ! i) \<noteq> fst n"
proof -
  consider (keep) "is_this_node_OK S b (t ! l ! i) l i t CONSIDER_ALL True = NODE_OK"
      "t' = t" "b' = note_node S (t ! l ! i) b"
    | (replace) "replace_node S l i (t, b) = Inr (t', b')"
    using rebuild_slave_cases [OF l(2) eq] by blast
  then show ?thesis
  proof cases
    case keep
    note ok = keep(1)
    show ?thesis
    proof (rule that [of "t ! l ! i"])
      show "\<forall>k < copy_count b. k \<noteq> l \<longrightarrow> fst (t ! k ! i) \<noteq> fst (t ! l ! i)"
        using ok_distinct [OF ok] l(2) by simp
      show "is_node_availble b (t ! l ! i)" using ok by (rule ok_available)
      show "builder_inv t' b'" unfolding keep(2,3) note_node_inv by (rule inv)
      show "same_frame b b'" unfolding keep(3) by (rule note_node_frame)
      show "t' = cell_upd t l i (t ! l ! i)" unfolding keep(2) by simp
    qed
  next
    case replace
    have "l \<noteq> 0" using l(2) by simp
    show ?thesis
    proof (rule replace_node_Inr [OF inv l(1) i replace])
      fix n assume n: "t' = cell_upd t l i n" "is_node_availble b n" "builder_inv t' b'"
        "same_frame b b'"
        and "l \<noteq> 0 \<Longrightarrow> \<forall>k < copy_count b. k \<noteq> l \<longrightarrow> fst (t ! k ! i) \<noteq> fst n"
      then show ?thesis using \<open>l \<noteq> 0\<close> by (intro that [OF n]) blast
    qed
  qed
qed

lemma masters_done_step:
  assumes inv0: "masters_done b0 i s" and i: "i < bucket_count b0"
    and eq: "rebuild_cell S 0 i 0 s = Inr s'"
  shows "masters_done b0 (Suc i) s'"
proof -
  obtain t b where s: "s = (t, b)" by (cases s)
  obtain t' b' where s': "s' = (t', b')" by (cases s')
  have inv: "builder_inv t b" and fr: "same_frame b0 b"
    and av: "\<forall>j < i. is_node_availble b0 (t ! 0 ! j)" and st: "masters_settled b0 t i"
    using inv0 by (simp_all add: masters_done_def s)
  have i': "i < bucket_count b" using i fr by (simp add: same_frame_def)
  obtain n where n: "t' ! 0 = (t ! 0)[i := n]" "is_node_availble b n" "builder_inv t' b'"
    "same_frame b b'" "occ_line (t' ! 0) n \<le> mcap b n"
    using rebuild_master_Inr [OF inv i'] eq s s' by metis
  have avn: "is_node_availble b0 n" using n(2) same_frame_availble [OF fr] by simp
  have mc: "mcap b n = mcap b0 n" for n using fr by (simp add: same_frame_def)
  have len: "length (t ! 0) = bucket_count b"
    using inv counts_inv_line0 by (auto simp: builder_inv_def)
  have "masters_settled b0 t' (Suc i)"
    unfolding masters_settled_def
  proof (intro allI impI)
    fix m assume m: "is_node_availble b0 m"
    show "occ_line (t' ! 0) m \<le> mcap b0 m \<or> (\<forall>j < Suc i. t' ! 0 ! j \<noteq> m)"
    proof (cases "m = n")
      case True
      then show ?thesis using n(5) mc by simp
    next
      case False
      have "occ_line (t ! 0) m \<le> mcap b0 m \<or> (\<forall>j < i. t ! 0 ! j \<noteq> m)"
        using st m by (simp add: masters_settled_def)
      then show ?thesis
        using False i' len by (auto simp: n(1) occ_line_update nth_list_update less_Suc_eq)
    qed
  qed
  moreover have "\<forall>j < Suc i. is_node_availble b0 (t' ! 0 ! j)"
    using av avn i' len by (auto simp: n(1) nth_list_update less_Suc_eq)
  ultimately show ?thesis
    using n(3) same_frame_trans [OF fr n(4)] by (simp add: masters_done_def s')
qed

lemma column_done_step:
  assumes cd: "column_done b0 masters i l s" and i: "i < bucket_count b0"
    and l: "1 \<le> l" "l < copy_count b0" and eq: "rebuild_cell S 1 i l s = Inr s'"
  shows "column_done b0 masters i (Suc l) s'"
proof -
  obtain t b where s: "s = (t, b)" by (cases s)
  obtain t' b' where s': "s' = (t', b')" by (cases s')
  have inv: "builder_inv t b" and fr: "same_frame b0 b"
    using cd by (simp_all add: column_done_def slaves_done_def s)
  have dims: "copy_count b = copy_count b0" "bucket_count b = bucket_count b0"
    using fr by (simp_all add: same_frame_def)
  have l': "l < copy_count b" and i': "i < bucket_count b" using l i dims by simp_all
  obtain n where n: "t' = cell_upd t l i n" "is_node_availble b n" "builder_inv t' b'"
    "same_frame b b'" "\<forall>k < copy_count b. k \<noteq> l \<longrightarrow> fst (t ! k ! i) \<noteq> fst n"
    using rebuild_slave_Inr [OF inv l' l(1) i'] eq s s' by metis
  have nth: "t' ! k ! j = (if k = l \<and> j = i then n else t ! k ! j)" for k j
    unfolding n(1) by (rule cell_upd_nth [OF builder_inv_wf [OF inv] l' i'])
  have avn: "is_node_availble b0 n" using n(2) same_frame_availble [OF fr] by simp
  have "t' ! 0 = t ! 0" using l(1) by (simp add: n(1))
  then have "slaves_done b0 masters i s'"
    using cd n(3) same_frame_trans [OF fr n(4)]
    by (simp add: column_done_def slaves_done_def bucket_good_def s s' nth)
  moreover have "is_node_availble b0 (t' ! k ! i) \<and>
      (\<forall>k' < copy_count b0. k' \<noteq> k \<longrightarrow> fst (t' ! k' ! i) \<noteq> fst (t' ! k ! i))"
    if "1 \<le> k" "k < Suc l" for k
  proof (cases "k = l")
    case True
    then show ?thesis using avn n(5) dims by (simp add: nth)
  next
    case False
    then have "k < l" "k < copy_count b" using that l' by simp_all
    then have "is_node_availble b0 (t ! k ! i)"
      "\<forall>k' < copy_count b0. k' \<noteq> k \<longrightarrow> fst (t ! k' ! i) \<noteq> fst (t ! k ! i)"
      "fst n \<noteq> fst (t ! k ! i)"
      using cd that(1) n(5) by (auto simp: column_done_def s)
    then show ?thesis using False by (simp add: nth)
  qed
  ultimately show ?thesis by (simp add: column_done_def s')
qed

lemma slaves_done_step:
  assumes "slaves_done b0 masters i s" and i: "i < bucket_count b0"
    and "is_node_availble b0 (masters ! i)" and "1 \<le> copy_count b0"
    and eq: "foldE (rebuild_cell S 1 i) [1..<copy_count b0] s = Inr s'"
  shows "slaves_done b0 masters (Suc i) s'"
proof -
  have "column_done b0 masters i 1 s" using assms(1) by (simp add: column_done_def)
  then have "column_done b0 masters i (copy_count b0) s'"
    by (rule foldE_upt_invariant [where P = "column_done b0 masters i", OF _ assms(4) _ eq])
      (rule column_done_step [OF _ i])
  then show ?thesis using assms(3) by (rule column_done_bucket)
qed

text \<open>
  A rebuild that ends has every bucket good, every server within its share of masters, and
  counters that say what is in the table.
\<close>

lemma master_round_done:
  assumes inv: "builder_inv t b" and eq: "master_round S b (t, b) = Inr s"
  shows "masters_done b (bucket_count b) s"
proof (rule foldE_upt_invariant [where P = "masters_done b", OF _ _ _ eq])
  show "masters_done b 0 (t, b)" using inv by (simp add: masters_done_def masters_settled_def)
qed (simp_all add: masters_done_step)

lemma slave_round_done:
  assumes md: "masters_done b (bucket_count b) (t, b1)" and "1 \<le> copy_count b"
    and eq: "slave_round S b (t, b1) = Inr s"
  shows "slaves_done b (t ! 0) (bucket_count b) s"
proof (rule foldE_upt_invariant [where P = "slaves_done b (t ! 0)", OF _ _ _ eq])
  show "slaves_done b (t ! 0) 0 (t, b1)" using md by (simp add: masters_done_def slaves_done_def)
  fix i s s'
  assume "i < bucket_count b" "slaves_done b (t ! 0) i s"
    "foldE (rebuild_cell S 1 i) [1..<copy_count b] s = Inr s'"
  then show "slaves_done b (t ! 0) (Suc i) s'"
    using md assms(2) by (intro slaves_done_step) (simp_all add: masters_done_def)
qed simp

lemma rebuild_loop_good:
  assumes inv: "builder_inv t b" and eq: "rebuild_loop S (t, b) = Inr (t', b')"
  shows "builder_inv t' b'" and "same_frame b b'"
    and "\<And>j. j < bucket_count b \<Longrightarrow> bucket_good b t' j"
    and "\<And>n. is_node_availble b n \<Longrightarrow> occ_line (t' ! 0) n \<le> max 0 (mcap b n)"
proof -
  have c0: "0 < copy_count b" using inv by (rule builder_inv_copies)
  have len: "length t = copy_count b" using inv by (simp add: builder_inv_wf wf_table_length)
  obtain t1 b1 where mr: "master_round S b (t, b) = Inr (t1, b1)"
    and sr: "if copy_count b = 1 then (t1, b1) = (t', b') else slave_round S b (t1, b1) = Inr (t', b')"
    using eq unfolding rebuild_loop_rounds [OF len c0]
    by (cases "master_round S b (t, b)") (auto split: if_splits)
  have md: "masters_done b (bucket_count b) (t1, b1)" using inv mr by (rule master_round_done)
  have sd: "slaves_done b (t1 ! 0) (bucket_count b) (t', b')"
  proof (cases "copy_count b = 1")
    case True
    then show ?thesis using sr md by (auto simp: masters_done_def slaves_done_def bucket_good_def)
  next
    case False
    then show ?thesis using slave_round_done [OF md] sr c0 by simp
  qed
  then show inv': "builder_inv t' b'" and "same_frame b b'"
    and "\<And>j. j < bucket_count b \<Longrightarrow> bucket_good b t' j"
    by (simp_all add: slaves_done_def)
  have line0: "t' ! 0 = t1 ! 0" using sd by (simp add: slaves_done_def)
  have len0: "length (t1 ! 0) = bucket_count b"
    using md counts_inv_line0 [of t1 b1] by (auto simp: masters_done_def builder_inv_def same_frame_def)
  fix n assume "is_node_availble b n"
  then have "occ_line (t1 ! 0) n \<le> mcap b n \<or> (\<forall>j < bucket_count b. t1 ! 0 ! j \<noteq> n)"
    using md by (simp add: masters_done_def masters_settled_def)
  moreover have "occ_line (t1 ! 0) n = 0" if "\<forall>j < bucket_count b. t1 ! 0 ! j \<noteq> n"
    using that len0 by (auto simp: occ_line_zero_iff in_set_conv_nth)
  ultimately show "occ_line (t' ! 0) n \<le> max 0 (mcap b n)" by (auto simp: line0)
qed

end

end
