(* ===== verification/Table_Builder_Setup.thy ===== *)
theory Table_Builder_Setup
  imports Table_Builder_Rebuild
begin

text \<open>
  What \<open>rebuild_table\<close> does before its loop: the counters start at zero for the available
  servers, count the source table, and the candidate maps are built from them. Together these
  establish the invariant of the loop, which gives what a whole \<open>rebuild_table\<close> guarantees.
\<close>

section \<open>Counting the source table\<close>

lemma map_of_init_token_count:
  "map_of (init_token_count b) n = (if n \<in> set (available_server b) then Some 0 else None)"
proof -
  have "map_of (fold (\<lambda>it c. smap_upd it 0 c) xs m) n =
      (if n \<in> set xs then Some 0 else map_of m n)" for xs :: server_list_type and m :: "(_, int) smap"
    by (induction xs arbitrary: m) (simp_all add: map_of_smap_upd)
  then show ?thesis by (simp add: init_token_count_def)
qed

lemma map_of_update_node_count:
  "map_of (snd (update_node_count node c)) n =
     map_option (\<lambda>k. k + (if n = node then 1 else 0)) (map_of c n)"
  by (auto simp: update_node_count_def map_of_smap_upd option.map_ident split: option.splits)

lemma fst_update_node_count: "fst (update_node_count node c) \<longleftrightarrow> map_of c node \<noteq> None"
  by (simp add: update_node_count_def split: option.split)

text \<open>The fields that counting leaves alone.\<close>

definition same_setting :: "'x builder_scheme \<Rightarrow> 'x builder_scheme \<Rightarrow> bool" where
  "same_setting b b' \<longleftrightarrow> available_server b' = available_server b \<and>
     bucket_count b' = bucket_count b \<and> copy_count b' = copy_count b"

lemma same_setting_refl [simp]: "same_setting b b"
  by (simp add: same_setting_def)

lemma same_setting_trans: "same_setting a b \<Longrightarrow> same_setting b c \<Longrightarrow> same_setting a c"
  by (simp add: same_setting_def)

text \<open>
  \<open>counted b0 f g lost (q, b)\<close>: since \<open>b0\<close> the counts have grown by \<open>f\<close> for all copies and by \<open>g\<close>
  for masters, and the flag \<open>q\<close> says whether a lost master was met.
\<close>

definition counted ::
  "'x builder_scheme \<Rightarrow> (server_id_type \<Rightarrow> int) \<Rightarrow> (server_id_type \<Rightarrow> int) \<Rightarrow> bool \<Rightarrow>
    bool \<times> 'x builder_scheme \<Rightarrow> bool" where
  "counted b0 f g lost s \<longleftrightarrow> same_setting b0 (snd s) \<and> (fst s \<longleftrightarrow> lost) \<and>
     (\<forall>n. map_of (tokens_count_in_node (snd s)) n =
        map_option (\<lambda>k. k + f n) (map_of (tokens_count_in_node b0) n)) \<and>
     (\<forall>n. map_of (mtokens_count_in_node (snd s)) n =
        map_option (\<lambda>k. k + g n) (map_of (mtokens_count_in_node b0) n))"

lemma counted_cell:
  assumes "counted b0 f g lost s"
  shows "counted b0 (\<lambda>n. f n + (if n = node then 1 else 0))
    (\<lambda>n. g n + (if k = 0 \<and> n = node then 1 else 0))
    (lost \<or> k = 0 \<and> map_of (mtokens_count_in_node b0) node = None) (count_cell k node s)"
proof -
  obtain q b where s: "s = (q, b)" by (cases s)
  have none: "map_of (mtokens_count_in_node b) node = None \<longleftrightarrow>
      map_of (mtokens_count_in_node b0) node = None"
    using assms by (simp add: counted_def s)
  obtain found m where up: "update_node_count node (mtokens_count_in_node b) = (found, m)"
    by (cases "update_node_count node (mtokens_count_in_node b)")
  have m: "map_of m n = map_option (\<lambda>k. k + (if n = node then 1 else 0))
      (map_of (mtokens_count_in_node b) n)" for n
    using map_of_update_node_count [of node "mtokens_count_in_node b" n] by (simp add: up)
  have found: "found \<longleftrightarrow> map_of (mtokens_count_in_node b0) node \<noteq> None"
    using fst_update_node_count [of node "mtokens_count_in_node b"] none by (simp add: up)
  show ?thesis
    using assms
    by (auto simp: counted_def count_cell_def Let_def s up same_setting_def map_of_update_node_count
        m found option.map_comp comp_def add.assoc option.map_ident)
qed

lemma fold_upt_nth: "fold (\<lambda>i s. f (xs ! i) s) [0..<length xs] s = fold f xs s"
proof -
  have "fold f (map ((!) xs) [0..<length xs]) s = fold (\<lambda>i s. f (xs ! i) s) [0..<length xs] s"
    by (simp add: fold_map comp_def)
  then show ?thesis by (simp add: map_nth)
qed

lemma counted_line:
  assumes "counted b0 f g lost s"
  shows "counted b0 (\<lambda>n. f n + occ_line line n) (\<lambda>n. g n + (if k = 0 then occ_line line n else 0))
    (lost \<or> k = 0 \<and> (\<exists>node \<in> set line. map_of (mtokens_count_in_node b0) node = None))
    (fold (count_cell k) line s)"
  using assms
proof (induction line arbitrary: f g lost s)
  case Nil
  then show ?case by (simp cong: if_cong)
next
  case (Cons node line)
  let ?none = "\<lambda>node. map_of (mtokens_count_in_node b0) node = None"
  have f: "(\<lambda>n. f n + (if n = node then 1 else 0) + occ_line line n) =
      (\<lambda>n. f n + occ_line (node # line) n)" by auto
  have g: "(\<lambda>n. g n + (if k = 0 \<and> n = node then 1 else 0) + (if k = 0 then occ_line line n else 0)) =
      (\<lambda>n. g n + (if k = 0 then occ_line (node # line) n else 0))" by auto
  have q: "((lost \<or> k = 0 \<and> ?none node) \<or> k = 0 \<and> (\<exists>node \<in> set line. ?none node)) =
      (lost \<or> k = 0 \<and> (\<exists>node \<in> set (node # line). ?none node))" by auto
  from Cons.IH [OF counted_cell [OF Cons.prems, where k = k and node = node]] show ?case
    unfolding f g q by (simp only: fold_Cons comp_apply)
qed

lemma occ_upt: "occ t n = (\<Sum>k\<leftarrow>[0..<length t]. occ_line (t ! k) n)"
proof -
  have "map (\<lambda>k. occ_line (t ! k) n) [0..<length t] = map (\<lambda>line. occ_line line n) (map ((!) t) [0..<length t])"
    by simp
  then show ?thesis by (simp only: occ_def map_nth)
qed

lemma counted_table:
  assumes "wf_table b t" and "m \<le> copy_count b"
  shows "counted b (\<lambda>n. \<Sum>k\<leftarrow>[0..<m]. occ_line (t ! k) n)
      (\<lambda>n. if 0 < m then occ_line (t ! 0) n else 0)
      (0 < m \<and> (\<exists>node \<in> set (t ! 0). map_of (mtokens_count_in_node b) node = None))
      (fold (\<lambda>k s. fold (\<lambda>i s. count_cell k (t ! k ! i) s) [0..<bucket_count b] s) [0..<m] (False, b))"
  using assms(2)
proof (induction m)
  case 0
  then show ?case by (simp add: counted_def option.map_ident)
next
  case (Suc m)
  have "length (t ! m) = bucket_count b" using assms(1) Suc.prems by (simp add: wf_table_def)
  then have line: "fold (\<lambda>i s. count_cell m (t ! m ! i) s) [0..<bucket_count b] s =
      fold (count_cell m) (t ! m) s" for s :: "bool \<times> 'a builder_scheme"
    using fold_upt_nth [of "count_cell m" "t ! m" s] by simp
  from counted_line [OF Suc.IH, where k = m and line = "t ! m"] Suc.prems line show ?case
    by (cases "m = 0") simp_all
qed

lemma count_table_counts:
  assumes "wf_table b t" and "0 < copy_count b"
  shows "counted b (occ t) (occ_line (t ! 0))
    (\<exists>node \<in> set (t ! 0). map_of (mtokens_count_in_node b) node = None) (count_table t b)"
  using counted_table [OF assms(1) order_refl] assms
  by (simp add: count_table_def wf_table_def occ_upt [abs_def])

lemma init_counts_fields [simp]:
  "available_server (init_counts b) = available_server b"
  "bucket_count (init_counts b) = bucket_count b"
  "copy_count (init_counts b) = copy_count b"
  "tokens_count_in_node (init_counts b) = init_token_count b"
  "mtokens_count_in_node (init_counts b) = init_token_count b"
  by (simp_all add: init_counts_def)

lemma index_counts_fields [simp]:
  "available_server (index_counts b) = available_server b"
  "bucket_count (index_counts b) = bucket_count b"
  "copy_count (index_counts b) = copy_count b"
  "tokens_count_in_node (index_counts b) = tokens_count_in_node b"
  "mtokens_count_in_node (index_counts b) = mtokens_count_in_node b"
  "count_server (index_counts b) = build_index (tokens_count_in_node b)"
  "mcount_server (index_counts b) = build_index (mtokens_count_in_node b)"
  by (simp_all add: index_counts_def)

text \<open>
  After counting, the counter of an available server is the number of its cells, and the flag
  for the quick table is set when a master of the source table is not available.
\<close>

lemma count_table_result:
  assumes "wf_table b t" and "0 < copy_count b"
    and "count_table t (init_counts b) = (quick, b1)"
  shows "same_setting b b1"
    and "quick \<longleftrightarrow> (\<exists>node \<in> set (t ! 0). node \<notin> set (available_server b))"
    and "map_of (tokens_count_in_node b1) n =
      (if n \<in> set (available_server b) then Some (occ t n) else None)"
    and "map_of (mtokens_count_in_node b1) n =
      (if n \<in> set (available_server b) then Some (occ_line (t ! 0) n) else None)"
proof -
  have "wf_table (init_counts b) t" using assms(1) by (simp add: wf_table_def)
  from count_table_counts [OF this] assms(2,3)
  have c: "counted (init_counts b) (occ t) (occ_line (t ! 0))
      (\<exists>node \<in> set (t ! 0). map_of (init_token_count b) node = None) (quick, b1)"
    by simp
  from c show "same_setting b b1" by (simp add: counted_def same_setting_def)
  from c show "quick \<longleftrightarrow> (\<exists>node \<in> set (t ! 0). node \<notin> set (available_server b))"
    by (simp add: counted_def map_of_init_token_count)
  from c have "map_of (tokens_count_in_node b1) n =
      map_option (\<lambda>k. k + occ t n) (map_of (init_token_count b) n)"
    by (simp only: counted_def snd_conv init_counts_fields)
  then show "map_of (tokens_count_in_node b1) n =
      (if n \<in> set (available_server b) then Some (occ t n) else None)"
    by (simp add: map_of_init_token_count)
  from c have "map_of (mtokens_count_in_node b1) n =
      map_option (\<lambda>k. k + occ_line (t ! 0) n) (map_of (init_token_count b) n)"
    by (simp only: counted_def snd_conv init_counts_fields)
  then show "map_of (mtokens_count_in_node b1) n =
      (if n \<in> set (available_server b) then Some (occ_line (t ! 0) n) else None)"
    by (simp add: map_of_init_token_count)
qed

section \<open>Building the index and the candidates\<close>

lemma indexed_insert:
  "indexed n k (smap_alter [] (set_insert m) k' ix) \<longleftrightarrow> indexed n k ix \<or> n = m \<and> k = k'"
  by (auto simp: indexed_def std_simps)

lemma indexed_Nil [simp]: "\<not> indexed n k []"
  by (simp add: indexed_def std_simps)

lemma indexed_build_index: "indexed n k (build_index c) \<longleftrightarrow> (n, k) \<in> set c"
proof -
  have "indexed n k (fold (\<lambda>it ix. smap_alter [] (set_insert (fst it)) (snd it) ix) c ix) \<longleftrightarrow>
      indexed n k ix \<or> (n, k) \<in> set c" for ix
  proof (induction c arbitrary: ix)
    case Nil
    then show ?case by simp
  next
    case (Cons it c)
    show ?case
      unfolding fold_simps Cons.IH indexed_insert by (cases it) auto
  qed
  then show ?thesis by (simp add: build_index_def)
qed

text \<open>One server of the inner loop of \<open>init_candidate\<close>, and the loop over one set.\<close>

definition candidate_step :: "int \<Rightarrow> server_id_type \<Rightarrow>
    server_capable_type \<times> (int, server_list_type) smap \<Rightarrow>
    server_capable_type \<times> (int, server_list_type) smap" where
  "candidate_step c = (\<lambda>server_it (cap, cand).
     (smap_touch 0 server_it cap,
      smap_alter [] (set_insert server_it) (c - smap_at 0 server_it cap) cand))"

lemma candidate_set:
  "smap_at 0 n (fst (fold (candidate_step c) xs (cp, cand))) = smap_at 0 n cp"
  "indexed n k (snd (fold (candidate_step c) xs (cp, cand))) \<longleftrightarrow>
     indexed n k cand \<or> n \<in> set xs \<and> k = c - smap_at 0 n cp"
proof (induction xs arbitrary: cp cand)
  case (Cons x xs)
  {
    case 1
    then show ?case using Cons(1) by (simp add: candidate_step_def std_simps)
  next
    case 2
    then show ?case using Cons(2) by (auto simp: candidate_step_def indexed_insert std_simps)
  }
qed simp_all

lemma init_candidate_steps:
  "init_candidate cp counts = fold (\<lambda>it. fold (candidate_step (fst it)) (snd it)) counts (cp, [])"
  by (simp add: init_candidate_def candidate_step_def)

lemma candidate_counts:
  "smap_at 0 n (fst (fold (\<lambda>it. fold (candidate_step (fst it)) (snd it)) counts (cp, cand))) =
     smap_at 0 n cp \<and>
   (indexed n k (snd (fold (\<lambda>it. fold (candidate_step (fst it)) (snd it)) counts (cp, cand))) \<longleftrightarrow>
     indexed n k cand \<or> (\<exists>it \<in> set counts. n \<in> set (snd it) \<and> k = fst it - smap_at 0 n cp))"
proof (induction counts arbitrary: cp cand)
  case Nil
  then show ?case by simp
next
  case (Cons it counts)
  obtain cp' cand' where s: "fold (candidate_step (fst it)) (snd it) (cp, cand) = (cp', cand')"
    by (cases "fold (candidate_step (fst it)) (snd it) (cp, cand)")
  have "smap_at 0 n cp' = smap_at 0 n cp"
    "indexed n k cand' \<longleftrightarrow> indexed n k cand \<or> n \<in> set (snd it) \<and> k = fst it - smap_at 0 n cp"
    using candidate_set(1) [of n "fst it" "snd it" cp cand]
      candidate_set(2) [of n k "fst it" "snd it" cp cand] by (simp_all add: s)
  then show ?case
    using Cons.IH [of cp' cand'] by (simp add: s disj_assoc)
qed

lemma init_candidate_effect:
  "smap_at 0 n (fst (init_candidate cp counts)) = smap_at 0 n cp"
  "indexed n k (snd (init_candidate cp counts)) \<longleftrightarrow>
     (\<exists>it \<in> set counts. n \<in> set (snd it) \<and> k = fst it - smap_at 0 n cp)"
  using candidate_counts [of n counts cp "[]" k] unfolding init_candidate_steps by simp_all

lemma indexed_mem: "indexed n k m \<Longrightarrow> \<exists>it \<in> set m. fst it = k \<and> n \<in> set (snd it)"
  using smap_at_mem [of "[]" k m] by (cases "smap_at [] k m = []") (force simp: indexed_def)+

lemma init_candidate_indexed:
  "indexed n k counts \<Longrightarrow> indexed n (k - smap_at 0 n cp) (snd (init_candidate cp counts))"
  using indexed_mem [of n k counts] by (auto simp: init_candidate_effect)

lemma init_candidates_fields [simp]:
  "available_server (init_candidates b) = available_server b"
  "bucket_count (init_candidates b) = bucket_count b"
  "copy_count (init_candidates b) = copy_count b"
  "tokens_count_in_node (init_candidates b) = tokens_count_in_node b"
  "mtokens_count_in_node (init_candidates b) = mtokens_count_in_node b"
  "scandidate_node (init_candidates b) = snd (init_candidate (server_capable b) (count_server b))"
  "mcandidate_node (init_candidates b) =
     snd (init_candidate (master_server_capable b) (mcount_server b))"
  by (simp_all add: init_candidates_def Let_def split: prod.split)

lemma init_candidates_caps [simp]:
  "cap (init_candidates b) n = cap b n" "mcap (init_candidates b) n = mcap b n"
  using init_candidate_effect(1) [of n "server_capable b" "count_server b"]
    init_candidate_effect(1) [of n "master_server_capable b" "mcount_server b"]
  by (simp_all add: init_candidates_def Let_def case_prod_beta)

lemma smap_at_Some: "map_of m n = Some v \<Longrightarrow> smap_at d n m = v"
  by (simp add: smap_at_def)

lemma init_candidates_inv:
  assumes "wf_table b t" "0 < copy_count b"
    and "\<And>n. is_node_availble b n \<Longrightarrow> map_of (tokens_count_in_node b) n = Some (occ t n) \<and>
      map_of (mtokens_count_in_node b) n = Some (occ_line (t ! 0) n)"
    and "count_server b = build_index (tokens_count_in_node b)"
    and "mcount_server b = build_index (mtokens_count_in_node b)"
  shows "builder_inv t (init_candidates b)"
proof -
  have av: "is_node_availble (init_candidates b) n = is_node_availble b n" for n
    by (simp add: is_node_availble_def)
  have wf: "wf_table (init_candidates b) t" using assms(1) by (simp add: wf_table_def)
  have toks: "tok b n = occ t n" "mtok b n = occ_line (t ! 0) n"
    and ix: "indexed n (tok b n) (count_server b)" "indexed n (mtok b n) (mcount_server b)"
    if "is_node_availble b n" for n
    using assms(3) [OF that]
    by (simp_all add: smap_at_Some map_of_SomeD assms(4,5) indexed_build_index)
  show ?thesis
    unfolding builder_inv_def counts_inv_def index_inv_def
    using assms(2) wf toks init_candidate_indexed [OF ix(1)] init_candidate_indexed [OF ix(2)]
    by (simp add: av)
qed

text \<open>
  \<open>rebuild_ready S t b q b3\<close>: counting the source table \<open>t\<close>, working out the capabilities and
  filling the candidate maps leave the builder in the state \<open>b3\<close>, with \<open>q\<close> set when a master is
  lost.
\<close>

definition rebuild_ready ::
  "'x table_strategy \<Rightarrow> hash_table_type \<Rightarrow> 'x builder_scheme \<Rightarrow> bool \<Rightarrow> 'x builder_scheme \<Rightarrow> bool" where
  "rebuild_ready S t b q b3 \<longleftrightarrow> (\<exists>b1 b2. count_table t (init_counts b) = (q, b1) \<and>
     caculate_capable S (index_counts b1) = Some b2 \<and> b3 = init_candidates b2)"

lemma rebuild_table_ready:
  assumes "rebuild_table S t no_quick b = Some r"
  obtains q b3 where "rebuild_ready S t b q b3"
    "r = (if q \<and> \<not> no_quick
          then (case build_quick_table (t, b3) of
                  (True, s) \<Rightarrow> (BUILD_QUICK, s) | (False, s) \<Rightarrow> (BUILD_ERROR, s))
          else if length (available_server b3) < copy_count b3 then (BUILD_ERROR, t, b3)
          else (case rebuild_loop S (t, b3) of
                  Inl s \<Rightarrow> (BUILD_ERROR, s) | Inr s \<Rightarrow> (BUILD_OK, s)))"
proof -
  obtain q b1 where c: "count_table t (init_counts b) = (q, b1)"
    by (cases "count_table t (init_counts b)")
  obtain b2 where k: "caculate_capable S (index_counts b1) = Some b2"
    using assms by (cases "caculate_capable S (index_counts b1)") (simp_all add: rebuild_table_def c)
  have "rebuild_ready S t b q (init_candidates b2)" using c k by (auto simp: rebuild_ready_def)
  then show ?thesis
    using assms by (intro that) (auto simp: rebuild_table_def c k Let_def)
qed

context build_strategy
begin

lemma ready_inv:
  assumes "wf_table b t" and "0 < copy_count b" and "rebuild_ready S t b q b3"
  shows "builder_inv t b3" and "same_setting b b3"
    and "q \<longleftrightarrow> (\<exists>node \<in> set (t ! 0). node \<notin> set (available_server b))"
proof -
  obtain b1 b2 where c: "count_table t (init_counts b) = (q, b1)"
    and k: "caculate_capable S (index_counts b1) = Some b2" and b3: "b3 = init_candidates b2"
    using assms(3) by (auto simp: rebuild_ready_def)
  note count = count_table_result [OF assms(1,2) c]
  have fr: "available_server b2 = available_server b1" "bucket_count b2 = bucket_count b1"
    "copy_count b2 = copy_count b1" "tokens_count_in_node b2 = tokens_count_in_node b1"
    "mtokens_count_in_node b2 = mtokens_count_in_node b1"
    "count_server b2 = build_index (tokens_count_in_node b1)"
    "mcount_server b2 = build_index (mtokens_count_in_node b1)"
    using capable_frame [OF k] by simp_all
  have set1: "available_server b1 = available_server b" "bucket_count b1 = bucket_count b"
    "copy_count b1 = copy_count b"
    using count(1) by (simp_all add: same_setting_def)
  show "builder_inv t b3"
    unfolding b3
  proof (rule init_candidates_inv)
    show "wf_table b2 t" using assms(1) by (simp add: wf_table_def fr set1)
    show "map_of (tokens_count_in_node b2) n = Some (occ t n) \<and>
        map_of (mtokens_count_in_node b2) n = Some (occ_line (t ! 0) n)"
      if "is_node_availble b2 n" for n
      using that count(3,4) [of n] by (simp add: is_node_availble_def fr set1 split: if_splits)
  qed (simp_all add: fr set1 assms(2))
  show "same_setting b b3" by (simp add: same_setting_def b3 fr set1)
  show "q \<longleftrightarrow> (\<exists>node \<in> set (t ! 0). node \<notin> set (available_server b))" by (rule count(2))
qed

end

end
