(* ===== verification/Table_Builder_Live.thy ===== *)
theory Table_Builder_Live
  imports Table_Builder_Setup
begin

text \<open>
  Progress and balance of the rebuild. A strategy that lets go of everything but the essentials
  at its last search levels (\<open>live_strategy\<close>) always finds a server for a cell as long as there
  are as many live servers as copies, and when the shares of masters add up to the number of
  buckets every server ends up with exactly its share.
\<close>

section \<open>Counting\<close>

lemma sum_occ_line:
  "finite A \<Longrightarrow> (\<Sum>n \<in> A. occ_line xs n) = int (length (filter (\<lambda>x. x \<in> A) xs))"
  by (induction xs) (simp_all add: sum.distrib)

lemma sum_occ_line_le: "finite A \<Longrightarrow> (\<Sum>n \<in> A. occ_line xs n) \<le> int (length xs)"
  by (simp add: sum_occ_line)

lemma sum_occ_line_all: "finite A \<Longrightarrow> set xs \<subseteq> A \<Longrightarrow> (\<Sum>n \<in> A. occ_line xs n) = int (length xs)"
proof -
  assume "finite A" "set xs \<subseteq> A"
  moreover from this have "filter (\<lambda>x. x \<in> A) xs = xs" by (auto intro: filter_True)
  ultimately show ?thesis by (simp add: sum_occ_line)
qed

lemma sum_occ_line_lt:
  assumes "finite A" "x \<in> set xs" "x \<notin> A"
  shows "(\<Sum>n \<in> A. occ_line xs n) < int (length xs)"
proof -
  have "length (filter (\<lambda>x. x \<in> A) xs) < length xs"
    using assms(2,3) by (rule length_filter_less)
  then show ?thesis using assms(1) by (simp add: sum_occ_line)
qed

text \<open>The servers a build can use: different addresses, none of them 0, one for every copy.\<close>

definition servers_ok :: "'x builder_scheme \<Rightarrow> bool" where
  "servers_ok b \<longleftrightarrow> distinct (map fst (available_server b)) \<and>
     INVALID_FLAG \<notin> fst ` set (available_server b) \<and> copy_count b \<le> length (available_server b)"

text \<open>The shares of masters add up to the buckets.\<close>

definition masters_fit :: "'x builder_scheme \<Rightarrow> bool" where
  "masters_fit b \<longleftrightarrow> (\<Sum>n \<in> set (available_server b). mcap b n) = int (bucket_count b)"

lemma servers_ok_availble: "servers_ok b \<Longrightarrow> is_node_availble b n \<longleftrightarrow> n \<in> set (available_server b)"
  by (metis imageI is_node_availble_def servers_ok_def)

lemma servers_ok_frame: "same_frame b b' \<Longrightarrow> servers_ok b' = servers_ok b"
  by (simp add: servers_ok_def same_frame_def)

lemma masters_fit_frame: "same_frame b b' \<Longrightarrow> masters_fit b' = masters_fit b"
  by (simp add: masters_fit_def same_frame_def)

text \<open>With a cell of the master line empty, some server is below its share.\<close>

lemma master_below_share:
  assumes inv: "builder_inv t b" and ok: "servers_ok b" and fit: "masters_fit b"
    and i: "i < bucket_count b" and dead: "\<not> is_node_availble b (t ! 0 ! i)"
  shows "\<exists>n. is_node_availble b n \<and> mtok b n < mcap b n"
proof (rule ccontr)
  let ?A = "set (available_server b)"
  assume none: "\<not> ?thesis"
  have len: "length (t ! 0) = bucket_count b"
    using inv counts_inv_line0 [of t b] by (simp add: builder_inv_def)
  have "mcap b n \<le> occ_line (t ! 0) n" if "n \<in> ?A" for n
  proof -
    have av: "is_node_availble b n" using that servers_ok_availble [OF ok] by simp
    then have "\<not> mtok b n < mcap b n" using none by blast
    then show ?thesis using builder_inv_mtok [OF inv av] by simp
  qed
  then have "int (bucket_count b) \<le> (\<Sum>n \<in> ?A. occ_line (t ! 0) n)"
    using fit unfolding masters_fit_def by (metis (no_types, lifting) sum_mono)
  moreover have "t ! 0 ! i \<in> set (t ! 0)" using i len by simp
  then have "(\<Sum>n \<in> ?A. occ_line (t ! 0) n) < int (bucket_count b)"
    using sum_occ_line_lt [of ?A "t ! 0 ! i" "t ! 0"] dead servers_ok_availble [OF ok] len by simp
  ultimately show False by simp
qed

text \<open>With one line of a bucket set aside, some server holds none of the other copies.\<close>

lemma server_not_in_bucket:
  assumes ok: "servers_ok b" and l: "l < copy_count b"
  shows "\<exists>n. is_node_availble b n \<and> (\<forall>k < copy_count b. k \<noteq> l \<longrightarrow> fst (t ! k ! i) \<noteq> fst n)"
proof -
  let ?used = "(\<lambda>k. fst (t ! k ! i)) ` ({..<copy_count b} - {l})"
  have "card ?used \<le> card ({..<copy_count b} - {l})" by (rule card_image_le) simp
  also have "\<dots> = copy_count b - 1" using l by simp
  also have "\<dots> < length (available_server b)"
    using ok l unfolding servers_ok_def by linarith
  also have "\<dots> = card (fst ` set (available_server b))"
    using ok distinct_card [of "map fst (available_server b)"] by (simp add: servers_ok_def)
  finally have "\<not> fst ` set (available_server b) \<subseteq> ?used"
    using card_mono [of ?used "fst ` set (available_server b)"] by auto
  then have "\<exists>n \<in> set (available_server b). fst n \<notin> ?used"
    unfolding image_subset_iff [of fst] by (simp only: Bex_def Ball_def not_all not_imp)
  then obtain n where n: "n \<in> set (available_server b)" "fst n \<notin> ?used" by (rule bexE)
  have "fst (t ! k ! i) \<noteq> fst n" if "k < copy_count b" "k \<noteq> l" for k
  proof -
    have "fst (t ! k ! i) \<in> ?used" using that by (intro imageI) simp
    then show ?thesis using n(2) by metis
  qed
  moreover have "is_node_availble b n" using n(1) by (simp add: servers_ok_availble [OF ok])
  ultimately show ?thesis by blast
qed

section \<open>A strategy that always finds a server\<close>

locale live_strategy = build_strategy S for S :: "'x table_strategy" +
  assumes master_base_ok:
      "is_node_availble b n \<Longrightarrow> mtok b n < mcap b n \<Longrightarrow>
        is_this_node_OK S b n 0 i t CONSIDER_BASE False = NODE_OK"
    and force_ok:
      "is_node_availble b n \<Longrightarrow> l \<noteq> 0 \<Longrightarrow>
        \<forall>k < copy_count b. k \<noteq> l \<longrightarrow> fst (t ! k ! i) \<noteq> fst n \<Longrightarrow>
        is_this_node_OK S b n l i t CONSIDER_FORCE False = NODE_OK"
begin

lemma get_suitable_node_found:
  assumes inv: "builder_inv t b" and ok: "servers_ok b" and fit: "l = 0 \<Longrightarrow> masters_fit b"
    and l: "l < copy_count b" and i: "i < bucket_count b"
    and dead: "\<not> is_node_availble b (t ! l ! i)"
  shows "fst (get_suitable_node S l i orig (t, b)) \<noteq> INVALID_FLAG"
proof -
  have ix: "indexed n (if l = 0 then mtok b n - mcap b n else tok b n - cap b n)
      (if l = 0 then mcandidate_node (snd (t, b)) else scandidate_node (snd (t, b)))"
    if "is_node_availble b n" for n
    using inv that by (simp add: builder_inv_def index_inv_def)
  have live: "fst n \<noteq> INVALID_FLAG" if "accepts S l i (t, b) lvl n" for lvl n
    using ok_available [of "snd (t, b)", OF that] by (rule availble_not_invalid)
  show ?thesis
  proof (cases "l = 0")
    case True
    obtain n where n: "is_node_availble b n" "mtok b n < mcap b n"
      using master_below_share [OF inv ok fit [OF True] i] dead True by auto
    have acc: "accepts S l i (t, b) CONSIDER_BASE n"
      using master_base_ok [OF n] True by simp
    show ?thesis
      by (rule get_suitable_node_complete [OF live _ _ acc ix [OF n(1)]]) (simp_all add: consider_defs)
  next
    case False
    obtain n where n: "is_node_availble b n" "\<forall>k < copy_count b. k \<noteq> l \<longrightarrow> fst (t ! k ! i) \<noteq> fst n"
      using server_not_in_bucket [OF ok l] by blast
    have acc: "accepts S l i (t, b) CONSIDER_FORCE n" using force_ok [OF n(1) False n(2)] by simp
    show ?thesis
      by (rule get_suitable_node_complete [OF live _ _ acc ix [OF n(1)]]) (simp_all add: consider_defs)
  qed
qed

lemma replace_node_found:
  assumes inv: "builder_inv t b" and ok: "servers_ok b" and fit: "l = 0 \<Longrightarrow> masters_fit b"
    and l: "l < copy_count b" and i: "i < bucket_count b"
  shows "\<exists>s'. replace_node S l i (t, b) = Inr s'"
proof -
  obtain t1 b1 where s1: "invaliad_node l i (t, b) = (t1, b1)" by (cases "invaliad_node l i (t, b)")
  have fr: "same_frame b b1" using s1 invaliad_node_frame [of b l i t] by simp
  have inv1: "builder_inv t1 b1" using invaliad_node_inv [OF inv l i s1] .
  have dims: "copy_count b1 = copy_count b" "bucket_count b1 = bucket_count b"
    using fr by (simp_all add: same_frame_def)
  have t1: "t1 = cell_upd t l i (INVALID_FLAG, snd (t ! l ! i))"
    using s1 invaliad_node_table [of l i t b] by simp
  have "t1 ! l ! i = (INVALID_FLAG, snd (t ! l ! i))"
    using cell_upd_nth [OF builder_inv_wf [OF inv] l i] by (simp add: t1)
  then have "\<not> is_node_availble b1 (t1 ! l ! i)" by simp
  then have "fst (get_suitable_node S l i (t ! l ! i) (t1, b1)) \<noteq> INVALID_FLAG"
    using ok fit l i by (intro get_suitable_node_found [OF inv1])
      (simp_all add: servers_ok_frame [OF fr] masters_fit_frame [OF fr] dims)
  then show ?thesis
    by (simp add: replace_node_def Let_def s1 split: prod.split)
qed

lemma rebuild_cell_found:
  assumes inv: "builder_inv t b" and ok: "servers_ok b" and fit: "masters_fit b"
    and l: "l < copy_count b" "l = 0 \<longleftrightarrow> r = 0" "r \<le> 1" and i: "i < bucket_count b"
  shows "\<exists>s'. rebuild_cell S r i l (t, b) = Inr s'"
proof (cases "l = 0")
  case True
  then show ?thesis
    using replace_node_found [OF inv ok fit l(1) i] l(2) by (simp add: rebuild_cell_master)
next
  case False
  then have "r = 1" "1 \<le> l" using l by auto
  then show ?thesis
    using replace_node_found [OF inv ok fit l(1) i] rebuild_cell_slave [of l S i t b] by auto
qed

lemma master_round_found:
  assumes inv: "builder_inv t b" and ok: "servers_ok b" and fit: "masters_fit b"
  shows "\<exists>s'. master_round S b (t, b) = Inr s' \<and> masters_done b (bucket_count b) s'"
proof (rule foldE_upt_total [where P = "masters_done b"])
  show "masters_done b 0 (t, b)" using inv by (simp add: masters_done_def masters_settled_def)
  fix i s assume i: "i < bucket_count b" and md: "masters_done b i s"
  then have fr: "same_frame b (snd s)" and inv': "builder_inv (fst s) (snd s)"
    by (simp_all add: masters_done_def)
  have "0 < copy_count (snd s)" using inv' by (rule builder_inv_copies)
  then have "\<exists>s'. rebuild_cell S 0 i 0 (fst s, snd s) = Inr s'"
    using ok fit i fr by (intro rebuild_cell_found [OF inv'])
      (simp_all add: servers_ok_frame [OF fr] masters_fit_frame [OF fr] same_frame_def)
  then show "\<exists>s'. rebuild_cell S 0 i 0 s = Inr s' \<and> masters_done b (Suc i) s'"
    using masters_done_step [OF md i] by auto
qed simp

lemma column_found:
  assumes sd: "slaves_done b masters i s" and i: "i < bucket_count b" and c: "1 \<le> copy_count b"
    and ok: "servers_ok b" and fit: "masters_fit b"
  shows "\<exists>s'. foldE (rebuild_cell S 1 i) [1..<copy_count b] s = Inr s' \<and>
    column_done b masters i (copy_count b) s'"
proof (rule foldE_upt_total [where P = "column_done b masters i", OF _ c])
  show "column_done b masters i 1 s" using sd by (simp add: column_done_def)
  fix l s assume l: "1 \<le> l" "l < copy_count b" and cd: "column_done b masters i l s"
  then have fr: "same_frame b (snd s)" and inv': "builder_inv (fst s) (snd s)"
    by (simp_all add: column_done_def slaves_done_def)
  have "\<exists>s'. rebuild_cell S 1 i l (fst s, snd s) = Inr s'"
    using ok fit i l fr by (intro rebuild_cell_found [OF inv'])
      (simp_all add: servers_ok_frame [OF fr] masters_fit_frame [OF fr] same_frame_def)
  then show "\<exists>s'. rebuild_cell S 1 i l s = Inr s' \<and> column_done b masters i (Suc l) s'"
    using column_done_step [OF cd i l] by auto
qed

lemma slave_round_found:
  assumes md: "masters_done b (bucket_count b) (t, b1)" and c: "1 \<le> copy_count b"
    and ok: "servers_ok b" and fit: "masters_fit b"
  shows "\<exists>s'. slave_round S b (t, b1) = Inr s'"
proof -
  have "\<exists>s'. slave_round S b (t, b1) = Inr s' \<and> slaves_done b (t ! 0) (bucket_count b) s'"
  proof (rule foldE_upt_total [where P = "slaves_done b (t ! 0)"])
    show "slaves_done b (t ! 0) 0 (t, b1)" using md by (simp add: masters_done_def slaves_done_def)
    fix i s assume i: "i < bucket_count b" and sd: "slaves_done b (t ! 0) i s"
    have av: "is_node_availble b (t ! 0 ! i)" using md i by (simp add: masters_done_def)
    show "\<exists>s'. foldE (rebuild_cell S 1 i) [1..<copy_count b] s = Inr s' \<and>
        slaves_done b (t ! 0) (Suc i) s'"
      using column_found [OF sd i c ok fit] column_done_bucket [OF _ av] by blast
  qed simp
  then show ?thesis by blast
qed

text \<open>The loop never gives up, and it leaves every server with exactly its share of masters.\<close>

lemma rebuild_loop_found:
  assumes inv: "builder_inv t b" and ok: "servers_ok b" and fit: "masters_fit b"
  shows "\<exists>s'. rebuild_loop S (t, b) = Inr s'"
proof -
  have c0: "0 < copy_count b" using inv by (rule builder_inv_copies)
  have len: "length t = copy_count b" using inv by (simp add: builder_inv_wf wf_table_length)
  obtain t1 b1 where mr: "master_round S b (t, b) = Inr (t1, b1)"
    and md: "masters_done b (bucket_count b) (t1, b1)"
    using master_round_found [OF inv ok fit] by (metis surj_pair)
  have "\<exists>s'. slave_round S b (t1, b1) = Inr s'"
    using slave_round_found [OF md _ ok fit] c0 by simp
  then show ?thesis unfolding rebuild_loop_rounds [OF len c0] mr by simp
qed

end

lemma sum_eq_pointwise:
  fixes f :: "'a \<Rightarrow> int"
  assumes "finite A" "\<And>x. x \<in> A \<Longrightarrow> f x \<le> g x" "sum f A = sum g A" "x \<in> A"
  shows "f x = g x"
proof (rule ccontr)
  assume "f x \<noteq> g x"
  then have "f x < g x" using assms(2,4) by (simp add: order_less_le)
  then have "sum f A < sum g A" using assms by (intro sum_strict_mono_ex1) auto
  then show False using assms(3) by simp
qed

context build_strategy
begin

lemma rebuild_loop_balanced:
  assumes inv: "builder_inv t b" and ok: "servers_ok b" and fit: "masters_fit b"
    and nonneg: "\<And>n. 0 \<le> mcap b n" and eq: "rebuild_loop S (t, b) = Inr (t', b')"
    and n: "n \<in> set (available_server b)"
  shows "occ_line (t' ! 0) n = mcap b n"
proof (rule sum_eq_pointwise [OF _ _ _ n])
  let ?A = "set (available_server b)"
  note good = rebuild_loop_good [OF inv eq]
  have c0: "0 < copy_count b" using inv by (rule builder_inv_copies)
  show "occ_line (t' ! 0) m \<le> mcap b m" if "m \<in> ?A" for m
    using good(4) [of m] that servers_ok_availble [OF ok] nonneg [of m] by simp
  have len: "length (t' ! 0) = bucket_count b"
    using good(1,2) counts_inv_line0 [of t' b'] by (simp add: builder_inv_def same_frame_def)
  have "t' ! 0 ! j \<in> ?A" if "j < bucket_count b" for j
    using good(3) [OF that] c0 servers_ok_availble [OF ok] by (simp add: bucket_good_def)
  then have "set (t' ! 0) \<subseteq> ?A" using len by (metis in_set_conv_nth subsetI)
  then show "(\<Sum>m \<in> ?A. occ_line (t' ! 0) m) = (\<Sum>m \<in> ?A. mcap b m)"
    using fit len by (simp add: sum_occ_line_all masters_fit_def)
qed simp

section \<open>The whole rebuild\<close>

lemma same_setting_availble: "same_setting b b' \<Longrightarrow> is_node_availble b' = is_node_availble b"
  by (simp add: same_setting_def is_node_availble_def fun_eq_iff)

lemma rebuild_table_OK_loop:
  assumes wf: "wf_table b t" and c0: "0 < copy_count b"
    and eq: "rebuild_table S t no_quick b = Some (BUILD_OK, t', b')"
  obtains q b3 where "rebuild_ready S t b q b3" "builder_inv t b3" "same_setting b b3"
    "rebuild_loop S (t, b3) = Inr (t', b')"
proof -
  obtain q b3 where r: "rebuild_ready S t b q b3"
    and res: "(BUILD_OK, t', b') = (if q \<and> \<not> no_quick
          then (case build_quick_table (t, b3) of
                  (True, s) \<Rightarrow> (BUILD_QUICK, s) | (False, s) \<Rightarrow> (BUILD_ERROR, s))
          else if length (available_server b3) < copy_count b3 then (BUILD_ERROR, t, b3)
          else (case rebuild_loop S (t, b3) of
                  Inl s \<Rightarrow> (BUILD_ERROR, s) | Inr s \<Rightarrow> (BUILD_OK, s)))"
    using rebuild_table_ready [OF eq] by blast
  have "rebuild_loop S (t, b3) = Inr (t', b')"
    using res by (auto simp: build_code_defs split: if_splits prod.splits bool.splits sum.splits)
  then show ?thesis using that [OF r] ready_inv [OF wf c0 r] by blast
qed

lemma rebuild_table_OK_good:
  assumes wf: "wf_table b t" and c0: "0 < copy_count b"
    and eq: "rebuild_table S t no_quick b = Some (BUILD_OK, t', b')"
  shows "wf_table b t' \<and> (\<forall>j < bucket_count b. bucket_good b t' j)"
proof -
  obtain q b3 where inv: "builder_inv t b3" and st: "same_setting b b3"
    and loop: "rebuild_loop S (t, b3) = Inr (t', b')"
    using rebuild_table_OK_loop [OF wf c0 eq] by blast
  note good = rebuild_loop_good [OF inv loop]
  have "wf_table b t'"
    using builder_inv_wf [OF good(1)] good(2) st
    by (simp add: wf_table_def same_frame_def same_setting_def)
  moreover have "bucket_good b t' j" if "j < bucket_count b" for j
    using good(3) [of j] that st same_setting_availble [OF st]
    by (simp add: bucket_good_def same_setting_def)
  ultimately show ?thesis by blast
qed

lemma rebuild_table_OK_setting:
  assumes "wf_table b t" and "0 < copy_count b"
    and "rebuild_table S t no_quick b = Some (BUILD_OK, t', b')"
  shows "same_setting b b'"
proof -
  obtain q b3 where inv: "builder_inv t b3" and st: "same_setting b b3"
    and loop: "rebuild_loop S (t, b3) = Inr (t', b')"
    using rebuild_table_OK_loop [OF assms] by blast
  show ?thesis using rebuild_loop_good(2) [OF inv loop] st by (simp add: same_setting_def same_frame_def)
qed

end

end
