(* ===== verification/Table_Builder_Quick.thy ===== *)
theory Table_Builder_Quick
  imports Table_Builder_Cells
begin

text \<open>
  The quick table: which tables \<open>build_quick_table\<close> can be built from, and that the one it builds
  has a live master for every bucket, taken from the bucket's own copies, loses no live copy and
  keeps no dead one.
\<close>

section \<open>The promotion loop\<close>

text \<open>The servers that hold a copy of bucket \<open>j\<close> and are alive.\<close>

definition live_copies :: "'x builder_scheme \<Rightarrow> hash_table_type \<Rightarrow> nat \<Rightarrow> server_id_type set" where
  "live_copies b t j = {n. is_node_availble b n \<and> (\<exists>l < copy_count b. t ! l ! j = n)}"

text \<open>The body of the loop over the buckets.\<close>

definition promote ::
  "nat \<Rightarrow> hash_table_type \<times> 'x builder_scheme \<Rightarrow>
    (hash_table_type \<times> 'x builder_scheme) + (hash_table_type \<times> 'x builder_scheme)" where
  "promote idx s =
     (if is_node_availble (snd s) (fst s ! 0 ! idx) then Inr s
      else if fst (change_master_node idx True s) then Inr (snd (change_master_node idx True s))
      else Inl (snd (change_master_node idx True s)))"

text \<open>Before bucket \<open>i\<close>: the first \<open>i\<close> columns have live masters, the others are as in \<open>t0\<close>.\<close>

definition promoted ::
  "'x builder_scheme \<Rightarrow> hash_table_type \<Rightarrow> nat \<Rightarrow> hash_table_type \<times> 'x builder_scheme \<Rightarrow> bool" where
  "promoted b0 t0 i s \<longleftrightarrow> wf_table b0 (fst s) \<and> same_frame b0 (snd s) \<and>
     (\<forall>j < bucket_count b0. live_copies b0 (fst s) j = live_copies b0 t0 j) \<and>
     (\<forall>j < i. is_node_availble b0 (fst s ! 0 ! j)) \<and>
     (\<forall>j l. i \<le> j \<or> is_node_availble b0 (t0 ! 0 ! j) \<longrightarrow> fst s ! l ! j = t0 ! l ! j)"

lemma promote_step:
  assumes p: "promoted b0 t0 i s" and i: "i < bucket_count b0" and c0: "0 < copy_count b0"
    and eq: "promote i s = Inr s'"
  shows "promoted b0 t0 (Suc i) s'"
proof -
  obtain t b where s: "s = (t, b)" by (cases s)
  obtain t' b' where s': "s' = (t', b')" by (cases s')
  have wf: "wf_table b0 t" and fr: "same_frame b0 b"
    and live: "\<And>j. j < bucket_count b0 \<Longrightarrow> live_copies b0 t j = live_copies b0 t0 j"
    and av: "\<And>j. j < i \<Longrightarrow> is_node_availble b0 (t ! 0 ! j)"
    and same: "\<And>j l. i \<le> j \<or> is_node_availble b0 (t0 ! 0 ! j) \<Longrightarrow> t ! l ! j = t0 ! l ! j"
    using p by (auto simp: promoted_def s)
  have avb: "is_node_availble b = is_node_availble b0" using fr by (rule same_frame_availble)
  have dims: "copy_count b = copy_count b0" "bucket_count b = bucket_count b0"
    using fr by (simp_all add: same_frame_def)
  show ?thesis
  proof (cases "is_node_availble b0 (t ! 0 ! i)")
    case True
    then have "s' = s" using eq by (simp add: promote_def s avb)
    then show ?thesis using p True by (auto simp: promoted_def s less_Suc_eq)
  next
    case False
    then have cm: "change_master_node i True (t, b) = (True, t', b')"
      using eq by (cases "change_master_node i True (t, b)")
        (auto simp: promote_def s s' avb split: if_splits)
    obtain ln where ln: "1 \<le> ln" "ln < copy_count b0" "is_node_availble b0 (t ! ln ! i)"
      and t': "t' = cell_upd (cell_upd t 0 i (t ! ln ! i)) ln i (INVALID_FLAG, snd (t ! ln ! i))"
      and fr': "same_frame b b'"
      by (rule change_master_node_True [OF cm]) (simp add: avb dims False)
    have wf1: "wf_table b0 (cell_upd t 0 i (t ! ln ! i))" using wf c0 by (rule wf_table_cell_upd)
    have nth: "t' ! l ! j = (if j \<noteq> i then t ! l ! j else if l = 0 then t ! ln ! i
        else if l = ln then (INVALID_FLAG, snd (t ! ln ! i)) else t ! l ! i)" for l j
      unfolding t' cell_upd_nth [OF wf1 ln(2) i] cell_upd_nth [OF wf c0 i] using ln(1) by auto
    have "n \<in> live_copies b0 t' j \<longleftrightarrow> n \<in> live_copies b0 t j" for n j
    proof (cases "j = i")
      case True
      have "\<exists>k < copy_count b0. t ! k ! i = n"
        if "is_node_availble b0 n" "l < copy_count b0" "t' ! l ! i = n" for l
        using that ln(2) by (cases "l = 0"; cases "l = ln") (auto simp: nth)
      moreover have "\<exists>k < copy_count b0. t' ! k ! i = n"
        if "is_node_availble b0 n" "l < copy_count b0" "t ! l ! i = n" for l
      proof (cases "l = ln")
        case True
        then show ?thesis using c0 that by (intro exI [of _ 0]) (simp add: nth)
      next
        case neq: False
        have "l \<noteq> 0" using that False by (cases "l = 0") simp_all
        then show ?thesis using neq that by (intro exI [of _ l]) (simp add: nth)
      qed
      ultimately show ?thesis using True unfolding live_copies_def by blast
    next
      case False
      then show ?thesis by (simp add: live_copies_def nth)
    qed
    then have "\<forall>j < bucket_count b0. live_copies b0 t' j = live_copies b0 t0 j"
      using live by blast
    moreover have "wf_table b0 t'" unfolding t' using wf1 ln(2) by (rule wf_table_cell_upd)
    moreover have "\<forall>j < Suc i. is_node_availble b0 (t' ! 0 ! j)"
      using av ln(3) by (auto simp: nth less_Suc_eq)
    moreover have "\<forall>j l. Suc i \<le> j \<or> is_node_availble b0 (t0 ! 0 ! j) \<longrightarrow> t' ! l ! j = t0 ! l ! j"
      using same False by (auto simp: nth)
    ultimately show ?thesis
      using same_frame_trans [OF fr fr'] by (simp add: promoted_def s')
  qed
qed

lemma promote_fails:
  assumes p: "promoted b0 t0 i s" and i: "i < bucket_count b0" and eq: "promote i s = Inl e"
  shows "live_copies b0 t0 i = {}"
proof -
  obtain t b where s: "s = (t, b)" by (cases s)
  have fr: "same_frame b0 b" and live: "live_copies b0 t i = live_copies b0 t0 i"
    using p i by (simp_all add: promoted_def s)
  have avb: "is_node_availble b = is_node_availble b0" using fr by (rule same_frame_availble)
  have dims: "copy_count b = copy_count b0" using fr by (simp add: same_frame_def)
  have m: "\<not> is_node_availble b0 (t ! 0 ! i)" and "\<not> fst (change_master_node i True (t, b))"
    using eq by (simp_all add: promote_def s avb split: if_splits)
  then have sl: "\<not> is_node_availble b0 (t ! l ! i)" if "1 \<le> l" "l < copy_count b0" for l
    using change_master_node_fails_iff [of i t b] that by (simp add: avb dims)
  have "\<not> is_node_availble b0 (t ! l ! i)" if "l < copy_count b0" for l
    using m sl [of l] that by (cases "l = 0") simp_all
  then have "live_copies b0 t i = {}" unfolding live_copies_def by blast
  then show ?thesis using live by simp
qed

section \<open>The clearing loop\<close>

definition clear_cell :: "'x builder_scheme \<Rightarrow> nat \<Rightarrow> nat \<Rightarrow> hash_table_type \<Rightarrow> hash_table_type" where
  "clear_cell b l i t = (if \<not> is_node_availble b (t ! l ! i) then cell_upd t l i (0, 0) else t)"

lemma clear_line:
  assumes "wf_table b t" and "l < copy_count b" and "n \<le> bucket_count b"
  shows "wf_table b (fold (clear_cell b l) [0..<n] t) \<and>
    (\<forall>l' i'. fold (clear_cell b l) [0..<n] t ! l' ! i' =
      (if l' = l \<and> i' < n \<and> \<not> is_node_availble b (t ! l ! i') then (0, 0) else t ! l' ! i'))"
  using assms(3)
proof (induction n)
  case 0
  then show ?case using assms(1) by simp
next
  case (Suc n)
  define u where "u = fold (clear_cell b l) [0..<n] t"
  have wf: "wf_table b u"
    and nth: "\<And>l' i'. u ! l' ! i' =
      (if l' = l \<and> i' < n \<and> \<not> is_node_availble b (t ! l ! i') then (0, 0) else t ! l' ! i')"
    using Suc by (auto simp: u_def)
  have n: "n < bucket_count b" using Suc.prems by simp
  have here: "u ! l ! n = t ! l ! n" by (simp add: nth)
  have "wf_table b (clear_cell b l n u)"
    using wf wf_table_cell_upd [OF wf assms(2)] by (simp add: clear_cell_def)
  moreover have "clear_cell b l n u ! l' ! i' =
      (if l' = l \<and> i' < Suc n \<and> \<not> is_node_availble b (t ! l ! i') then (0, 0) else t ! l' ! i')"
    for l' i'
  proof (cases "is_node_availble b (t ! l ! n)")
    case True
    then show ?thesis by (auto simp: clear_cell_def here nth less_Suc_eq)
  next
    case False
    then have "clear_cell b l n u = cell_upd u l n (0, 0)" by (simp add: clear_cell_def here)
    then show ?thesis
      using False by (simp only: cell_upd_nth [OF wf assms(2) n] nth) (auto simp: less_Suc_eq)
  qed
  ultimately show ?case by (simp add: u_def)
qed

abbreviation clear_dead :: "'x builder_scheme \<Rightarrow> nat list \<Rightarrow> hash_table_type \<Rightarrow> hash_table_type" where
  "clear_dead b \<equiv> fold (\<lambda>l. fold (clear_cell b l) [0..<bucket_count b])"

lemma clear_dead_nth:
  assumes "wf_table b t" and "n \<le> copy_count b" and "m \<le> n"
  shows "wf_table b (clear_dead b [m..<n] t) \<and>
    (\<forall>l i. clear_dead b [m..<n] t ! l ! i =
      (if m \<le> l \<and> l < n \<and> i < bucket_count b \<and> \<not> is_node_availble b (t ! l ! i) then (0, 0)
       else t ! l ! i))"
  using assms(3,2)
proof (induction n rule: dec_induct)
  case base
  then show ?case using assms(1) by auto
next
  case (step n)
  let ?t = "clear_dead b [m..<n] t"
  have wf: "wf_table b ?t" and nth: "\<And>l i. ?t ! l ! i =
      (if m \<le> l \<and> l < n \<and> i < bucket_count b \<and> \<not> is_node_availble b (t ! l ! i) then (0, 0)
       else t ! l ! i)"
    using step by auto
  have "n < copy_count b" using step.prems by simp
  note line = clear_line [OF wf this order_refl]
  have eq: "clear_dead b [m..<Suc n] t = fold (clear_cell b n) [0..<bucket_count b] ?t"
    using step.hyps by simp
  show ?case
    unfolding eq using line step.hyps by (auto simp: nth less_Suc_eq)
qed

section \<open>The quick table\<close>

lemma promote_eq:
  "(\<lambda>idx (t, b). if \<not> is_node_availble b (t ! 0 ! idx) then
      (case change_master_node idx True (t, b) of (False, s') \<Rightarrow> Inl s' | (True, s') \<Rightarrow> Inr s')
    else Inr (t, b)) = promote"
  by (auto simp: promote_def fun_eq_iff split: prod.split bool.split)

lemma build_quick_table_loops:
  "build_quick_table (t, b) =
     (case foldE promote [0..<bucket_count b] (t, b) of
        Inl s \<Rightarrow> (False, s)
      | Inr s \<Rightarrow> (True, clear_dead (snd s) [1..<copy_count (snd s)] (fst s), snd s))"
  unfolding build_quick_table_def promote_eq clear_cell_def [abs_def] snd_conv
  unfolding case_prod_unfold by (rule refl)

lemma build_quick_table_cases:
  assumes wf: "wf_table b t" and c0: "0 < copy_count b"
  shows "if \<forall>j < bucket_count b. live_copies b t j \<noteq> {}
    then \<exists>t1 b'. promoted b t (bucket_count b) (t1, b') \<and>
      build_quick_table (t, b) = (True, clear_dead b [1..<copy_count b] t1, b')
    else \<not> fst (build_quick_table (t, b))"
proof -
  have p0: "promoted b t 0 (t, b)" using wf by (simp add: promoted_def)
  show ?thesis
  proof (cases "foldE promote [0..<bucket_count b] (t, b)")
    case (Inr s)
    have "promoted b t (bucket_count b) s"
      by (rule foldE_upt_invariant [where P = "promoted b t", OF p0 _ _ Inr])
        (simp_all add: promote_step c0)
    moreover from this have fr: "same_frame b (snd s)" by (simp add: promoted_def)
    moreover have "clear_dead (snd s) = clear_dead b"
      using same_frame_availble [OF fr] fr by (simp add: clear_cell_def [abs_def] same_frame_def)
    moreover have "live_copies b t j \<noteq> {}" if "j < bucket_count b" for j
    proof -
      have "is_node_availble b (fst s ! 0 ! j)" "live_copies b (fst s) j = live_copies b t j"
        using \<open>promoted b t (bucket_count b) s\<close> that by (simp_all add: promoted_def)
      then have "fst s ! 0 ! j \<in> live_copies b t j"
        using c0 unfolding live_copies_def by blast
      then show ?thesis by blast
    qed
    ultimately show ?thesis
      using Inr by (cases s) (auto simp: build_quick_table_loops same_frame_def)
  next
    case (Inl e)
    have "\<exists>j < bucket_count b. live_copies b t j = {}"
    proof (rule ccontr)
      assume all: "\<not> ?thesis"
      have "\<exists>s'. promote i s = Inr s' \<and> promoted b t (Suc i) s'"
        if "i < bucket_count b" "promoted b t i s" for i s
        using that all promote_fails [OF that(2,1)] promote_step [OF that(2,1) c0]
        by (cases "promote i s") auto
      then have "\<exists>s'. foldE promote [0..<bucket_count b] (t, b) = Inr s' \<and>
          promoted b t (bucket_count b) s'"
        by (intro foldE_upt_total [where P = "promoted b t", OF p0]) simp_all
      then show False using Inl by simp
    qed
    then show ?thesis using Inl by (auto simp: build_quick_table_loops)
  qed
qed

lemma quick_table_columns:
  assumes wf: "wf_table b t" and c0: "0 < copy_count b" and j: "j < bucket_count b"
    and eq: "build_quick_table (t, b) = (True, t', b')"
  shows "is_node_availble b (t' ! 0 ! j)"
    and "live_copies b t' j = live_copies b t j"
    and "is_node_availble b (t ! 0 ! j) \<Longrightarrow> t' ! 0 ! j = t ! 0 ! j"
    and "1 \<le> l \<Longrightarrow> l < copy_count b \<Longrightarrow> is_node_availble b (t' ! l ! j) \<or> t' ! l ! j = (0, 0)"
proof -
  obtain t1 where p: "promoted b t (bucket_count b) (t1, b')"
    and t': "t' = clear_dead b [1..<copy_count b] t1"
    using build_quick_table_cases [OF wf c0] eq by (auto split: if_splits)
  have wf1: "wf_table b t1" and m: "is_node_availble b (t1 ! 0 ! j)"
    and live: "live_copies b t1 j = live_copies b t j"
    and same: "is_node_availble b (t ! 0 ! j) \<Longrightarrow> t1 ! 0 ! j = t ! 0 ! j"
    using p j by (auto simp: promoted_def)
  have nth: "t' ! l ! j = (if 1 \<le> l \<and> l < copy_count b \<and> \<not> is_node_availble b (t1 ! l ! j)
      then (0, 0) else t1 ! l ! j)" for l
    using clear_dead_nth [OF wf1 order_refl, of 1] c0 j unfolding t' by simp
  have dead: "\<not> is_node_availble b (0, 0)" by (simp add: is_node_availble_def INVALID_FLAG_def)
  show "is_node_availble b (t' ! 0 ! j)" using m by (simp add: nth)
  show "t' ! 0 ! j = t ! 0 ! j" if "is_node_availble b (t ! 0 ! j)" using same that by (simp add: nth)
  show "is_node_availble b (t' ! l ! j) \<or> t' ! l ! j = (0, 0)" if "1 \<le> l" "l < copy_count b"
    using that by (simp add: nth)
  have eq: "is_node_availble b n \<and> t' ! l ! j = n \<longleftrightarrow> is_node_availble b n \<and> t1 ! l ! j = n" for l n
  proof (cases "1 \<le> l \<and> l < copy_count b \<and> \<not> is_node_availble b (t1 ! l ! j)")
    case True
    then have "t' ! l ! j = (0, 0)" by (simp only: nth if_True simp_thms)
    then show ?thesis using True dead by metis
  next
    case False
    then have "t' ! l ! j = t1 ! l ! j" unfolding nth by (rule if_not_P)
    then show ?thesis by simp
  qed
  have "n \<in> live_copies b t' j \<longleftrightarrow> n \<in> live_copies b t1 j" for n
    using eq [of n] unfolding live_copies_def mem_Collect_eq by blast
  then show "live_copies b t' j = live_copies b t j" using live by blast
qed

lemma quick_table_frame:
  assumes wf: "wf_table b t" and c0: "0 < copy_count b"
    and eq: "build_quick_table (t, b) = (True, t', b')"
  shows "same_frame b b'" and "wf_table b t'"
proof -
  obtain t1 where p: "promoted b t (bucket_count b) (t1, b')"
    and t': "t' = clear_dead b [1..<copy_count b] t1"
    using build_quick_table_cases [OF wf c0] eq by (auto split: if_splits)
  show "same_frame b b'" using p by (simp add: promoted_def)
  show "wf_table b t'"
    using clear_dead_nth [of b t1 "copy_count b" 1] p c0 unfolding t' by (simp add: promoted_def)
qed

text \<open>The quick table is built exactly when every bucket still has a live copy.\<close>

lemma quick_table_fails:
  "wf_table b t \<Longrightarrow> 0 < copy_count b \<Longrightarrow>
     fst (build_quick_table (t, b)) \<longleftrightarrow> (\<forall>j < bucket_count b. live_copies b t j \<noteq> {})"
  using build_quick_table_cases [of b t] by (auto split: if_splits)

end
