(* ===== verification/Table_Builder1.thy ===== *)
theory Table_Builder1
  imports Table_Builder_Live Table_Builder_Quick
begin

text \<open>
  The load-balancing strategy (\<open>src/configserver/table_builder1.hpp\<close> and \<open>table_builder1.cpp\<close>):
  every server gets the same number of buckets and of masters, up to one. It is an instance of
  \<open>live_strategy\<close>, so its rebuild never gives up while there are enough servers, and the shares it
  computes add up to the table.
\<close>

section \<open>The strategy\<close>

record builder1 = builder +
  tokens_per_node_min :: int
  tokens_per_node_max_count :: int
  tokens_per_node_min_count :: int
  master_tokens_per_node_min :: int
  master_tokens_per_node_max_count :: int
  master_tokens_per_node_min_count :: int

text \<open>
  The loop over the other copies of the bucket, from line \<open>i\<close> on. The maps the function reads with
  \<open>operator[]\<close> have an entry for every available server, so the reads insert nothing.
\<close>

fun same_place :: "server_id_type \<Rightarrow> nat \<Rightarrow> nat \<Rightarrow> nat \<Rightarrow> nat \<Rightarrow> hash_table_type \<Rightarrow> int" where
  "same_place node_id line_num node_idx option_level i [] = NODE_OK"
| "same_place node_id line_num node_idx option_level i (line # rest) =
     (if i \<noteq> line_num \<and> fst (line ! node_idx) = fst node_id then SAME_NODE
      else if i \<noteq> line_num \<and> option_level < CONSIDER_BASE \<and> snd (line ! node_idx) = snd node_id
      then SAME_POS
      else same_place node_id line_num node_idx option_level (i + 1) rest)"

definition is_this_node_OK1 ::
  "builder1 \<Rightarrow> server_id_type \<Rightarrow> nat \<Rightarrow> nat \<Rightarrow> hash_table_type \<Rightarrow> nat \<Rightarrow> bool \<Rightarrow> int" where
  "is_this_node_OK1 b node_id line_num node_idx hash_table_dest option_level node_in_use =
     (let turn = (if node_in_use then 1 else 0) in
      if \<not> is_node_availble b node_id then INVALID_NODE
      else if line_num = 0 \<and>
        smap_at 0 node_id (mtokens_count_in_node b) \<ge>
        smap_at 0 node_id (master_server_capable b) + turn
      then TOOMANY_MASTER
      else if line_num \<noteq> 0 \<and> option_level = CONSIDER_ALL \<and>
        smap_at 0 node_id (tokens_count_in_node b) \<ge> smap_at 0 node_id (server_capable b) + turn
      then TOOMANY_BUCKET
      else if line_num \<noteq> 0 \<and> option_level \<noteq> CONSIDER_ALL \<and> option_level \<noteq> CONSIDER_FORCE \<and>
        smap_at 0 node_id (tokens_count_in_node_now b) \<ge> tokens_per_node_min b + turn \<and>
        max_count_now b \<ge> tokens_per_node_max_count b + turn
      then TOOMANY_BUCKET
      else if line_num = 0 \<and> option_level = CONSIDER_BASE then NODE_OK
      else same_place node_id line_num node_idx option_level 0
             (map ((!) hash_table_dest) [0..<copy_count b]))"

text \<open>The average number of buckets of the servers that have any.\<close>

definition average_count :: "(server_id_type, int) smap \<Rightarrow> int" where
  "average_count counts =
     (let nonzero = filter (\<lambda>it. snd it \<noteq> 0) counts;
          size = int (length nonzero)
      in if size > 0 then sum_list (map snd nonzero) div size else 0)"

text \<open>
  The share of one server, and the number of larger shares given out so far: a server that had no
  more than the average gets the smaller share while there are smaller shares left, and the other
  way round.
\<close>

definition give_share :: "int \<Rightarrow> int \<Rightarrow> int \<Rightarrow> int \<Rightarrow> int \<Rightarrow> int \<Rightarrow> int \<Rightarrow> int \<times> int" where
  "give_share last_count pre_min i max_s per_node_min min_count max_count =
     (if last_count \<le> pre_min then
        (if i - max_s < min_count then (per_node_min, max_s) else (per_node_min + 1, max_s + 1))
      else
        (if max_s < max_count then (per_node_min + 1, max_s + 1) else (per_node_min, max_s)))"

definition share_step ::
  "(server_id_type, int) smap \<Rightarrow> int \<Rightarrow> int \<Rightarrow> int \<Rightarrow> int \<Rightarrow> server_id_type \<Rightarrow>
    (int \<times> int) \<times> server_capable_type \<Rightarrow> (int \<times> int) \<times> server_capable_type" where
  "share_step counts pre_min per_node_min min_count max_count it s =
     (case s of ((i, max_s), capable) \<Rightarrow>
        (case give_share (smap_at 0 it counts) pre_min i max_s per_node_min min_count max_count of
           (share, max_s') \<Rightarrow> ((i + 1, max_s'), smap_upd it share capable)))"

definition give_shares ::
  "(server_id_type, int) smap \<Rightarrow> int \<Rightarrow> int \<Rightarrow> int \<Rightarrow> int \<Rightarrow> server_list_type \<Rightarrow>
    server_capable_type" where
  "give_shares counts pre_min per_node_min min_count max_count servers =
     snd (fold (share_step counts pre_min per_node_min min_count max_count) servers ((0, 0), []))"

text \<open>
  \<open>bucket_count\<close> and \<open>copy_count\<close> are \<open>uint32_t\<close>, so the products and differences are computed
  modulo \<open>2\<^sup>3\<^sup>2\<close>. With no available server the first division stops the process. The code fills the
  two capability maps in one loop; the counters of the two do not interact.
\<close>

definition caculate_capable1 :: "builder1 \<Rightarrow> builder1 option" where
  "caculate_capable1 b =
     (let S = int (length (available_server b));
          buckets = u32 (int (bucket_count b));
          total = u32 (int (bucket_count b) * int (copy_count b)) in
      if S = 0 then None
      else
        (let tpn_min = i32 (total div S);
             tpn_max_count = i32 (u32 (total - tpn_min * S));
             tpn_min_count = S - tpn_max_count;
             mtpn_min = i32 (buckets div S);
             mtpn_max_count = i32 (u32 (buckets - mtpn_min * S));
             mtpn_min_count = S - mtpn_max_count
         in Some (b\<lparr>
           tokens_per_node_min := tpn_min,
           tokens_per_node_max_count := tpn_max_count,
           tokens_per_node_min_count := tpn_min_count,
           master_tokens_per_node_min := mtpn_min,
           master_tokens_per_node_max_count := mtpn_max_count,
           master_tokens_per_node_min_count := mtpn_min_count,
           server_capable :=
             give_shares (tokens_count_in_node b) (average_count (tokens_count_in_node b))
               tpn_min tpn_min_count tpn_max_count (available_server b),
           master_server_capable :=
             give_shares (mtokens_count_in_node b) (average_count (mtokens_count_in_node b))
               mtpn_min mtpn_min_count mtpn_max_count (available_server b)\<rparr>)))"

definition get_tokens_per_node1 :: "builder1 \<Rightarrow> server_id_type \<Rightarrow> int" where
  "get_tokens_per_node1 b node_id = tokens_per_node_min b"

definition table_builder1 :: "unit builder1_ext table_strategy" where
  "table_builder1 =
     \<lparr>is_this_node_OK = is_this_node_OK1, caculate_capable = caculate_capable1,
      get_tokens_per_node = get_tokens_per_node1\<rparr>"

text \<open>
  The constructor. It leaves the integer members indeterminate; \<open>rebuild_table\<close> sets each of them
  before it reads it, so the model starts them at 0.
\<close>

definition new_table_builder1 :: "nat \<Rightarrow> nat \<Rightarrow> builder1" where
  "new_table_builder1 bucket_c copy_c =
     \<lparr>tokens_count_in_node = [], max_count_now = 0, tokens_count_in_node_now = [],
      count_server = [], mtokens_count_in_node = [], mcount_server = [], scandidate_node = [],
      mcandidate_node = [], available_server = [], server_capable = [],
      master_server_capable = [], pos_mask = TAIR_POS_MASK, bucket_count = bucket_c, copy_count = copy_c,
      tokens_per_node_min = 0, tokens_per_node_max_count = 0, tokens_per_node_min_count = 0,
      master_tokens_per_node_min = 0, master_tokens_per_node_max_count = 0,
      master_tokens_per_node_min_count = 0\<rparr>"

section \<open>What the strategy accepts\<close>

lemma same_place_OK:
  "same_place n l i lvl k ls = NODE_OK \<Longrightarrow> j < length ls \<Longrightarrow> k + j \<noteq> l \<Longrightarrow>
     fst (ls ! j ! i) \<noteq> fst n"
proof (induction n l i lvl k ls arbitrary: j rule: same_place.induct)
  case (2 n l i lvl k line rest)
  then show ?case by (cases j) (auto simp: node_code_defs split: if_splits)
qed simp

lemma same_place_accepts:
  "CONSIDER_BASE \<le> lvl \<Longrightarrow> (\<And>j. j < length ls \<Longrightarrow> k + j \<noteq> l \<Longrightarrow> fst (ls ! j ! i) \<noteq> fst n) \<Longrightarrow>
     same_place n l i lvl k ls = NODE_OK"
proof (induction n l i lvl k ls rule: same_place.induct)
  case (2 n l i lvl k line rest)
  have "same_place n l i lvl (k + 1) rest = NODE_OK" if "k = l \<or> fst (line ! i) \<noteq> fst n"
    using 2(1) 2(2) 2(3) [of "Suc _"] that by auto
  then show ?case using 2(2) 2(3) [of 0] by auto
qed simp

lemma is_this_node_OK1_iff:
  "is_this_node_OK1 b n l i t lvl used = NODE_OK \<longleftrightarrow>
     is_node_availble b n \<and>
     (if l = 0 then mtok b n < mcap b n + (if used then 1 else 0)
      else if lvl = CONSIDER_ALL then tok b n < cap b n + (if used then 1 else 0)
      else lvl = CONSIDER_FORCE \<or>
        smap_at 0 n (tokens_count_in_node_now b) < tokens_per_node_min b + (if used then 1 else 0) \<or>
        max_count_now b < tokens_per_node_max_count b + (if used then 1 else 0)) \<and>
     (l = 0 \<and> lvl = CONSIDER_BASE \<or>
      same_place n l i lvl 0 (map ((!) t) [0..<copy_count b]) = NODE_OK)"
  by (auto simp: is_this_node_OK1_def Let_def node_code_defs)

lemma caculate_capable1_Some:
  "caculate_capable1 b = Some b' \<Longrightarrow>
     available_server b' = available_server b \<and> bucket_count b' = bucket_count b \<and>
     copy_count b' = copy_count b \<and> tokens_count_in_node b' = tokens_count_in_node b \<and>
     mtokens_count_in_node b' = mtokens_count_in_node b \<and>
     count_server b' = count_server b \<and> mcount_server b' = mcount_server b"
  by (auto simp: caculate_capable1_def Let_def split: if_splits)

text \<open>The strategy keeps the contract of the rebuild loop, and always has a last resort.\<close>

interpretation tb1: live_strategy table_builder1
proof
  fix b :: builder1 and b' n l i t lvl used k
  note defs = table_builder1_def is_this_node_OK1_iff
  assume ok: "is_this_node_OK table_builder1 b n l i t lvl used = NODE_OK"
  then show "is_node_availble b n" by (simp add: defs)
  show "fst (t ! k ! i) \<noteq> fst n"
    if "\<not> (l = 0 \<and> lvl = CONSIDER_BASE)" "k < copy_count b" "k \<noteq> l"
    using ok that same_place_OK [of n l i lvl 0 "map ((!) t) [0..<copy_count b]" k] by (simp add: defs)
next
  fix b :: builder1 and n i t lvl used
  show "mtok b n < mcap b n + (if used then 1 else 0)"
    if "is_this_node_OK table_builder1 b n 0 i t lvl used = NODE_OK"
    using that by (simp add: table_builder1_def is_this_node_OK1_iff)
next
  fix b b' :: builder1
  show "available_server b' = available_server b \<and> bucket_count b' = bucket_count b \<and>
     copy_count b' = copy_count b \<and> tokens_count_in_node b' = tokens_count_in_node b \<and>
     mtokens_count_in_node b' = mtokens_count_in_node b \<and>
     count_server b' = count_server b \<and> mcount_server b' = mcount_server b"
    if "caculate_capable table_builder1 b = Some b'"
    using that by (simp add: table_builder1_def caculate_capable1_Some)
next
  fix b :: builder1 and n i t
  show "is_this_node_OK table_builder1 b n 0 i t CONSIDER_BASE False = NODE_OK"
    if "is_node_availble b n" "mtok b n < mcap b n"
    using that by (simp add: table_builder1_def is_this_node_OK1_iff)
next
  fix b :: builder1 and n l i t
  show "is_this_node_OK table_builder1 b n l i t CONSIDER_FORCE False = NODE_OK"
    if "is_node_availble b n" "l \<noteq> 0" "\<forall>k < copy_count b. k \<noteq> l \<longrightarrow> fst (t ! k ! i) \<noteq> fst n"
  proof -
    have "same_place n l i CONSIDER_FORCE 0 (map ((!) t) [0..<copy_count b]) = NODE_OK"
      using that(3) by (intro same_place_accepts) (simp_all add: consider_defs)
    then show ?thesis
      using that by (simp add: table_builder1_def is_this_node_OK1_iff consider_defs)
  qed
qed

section \<open>The shares\<close>

lemma share_step_Pair:
  "share_step counts pre mn lo hi it ((i, m), cp) =
     ((i + 1, snd (give_share (smap_at 0 it counts) pre i m mn lo hi)),
      smap_upd it (fst (give_share (smap_at 0 it counts) pre i m mn lo hi)) cp)"
  by (simp add: share_step_def case_prod_beta)

lemma give_share_step:
  assumes "give_share c pre i m mn lo hi = (share, m')"
  shows "share = mn + (m' - m)" "m' = m \<or> m' = m + 1"
    and "m \<le> hi \<Longrightarrow> i - m \<le> lo \<Longrightarrow> i < lo + hi \<Longrightarrow> m' \<le> hi \<and> i + 1 - m' \<le> lo"
  using assms by (auto simp: give_share_def split: if_splits)

lemma fold_shares:
  assumes "distinct xs" and "m \<le> hi" "i - m \<le> lo" "i + int (length xs) \<le> lo + hi"
    and "fold (share_step counts pre mn lo hi) xs ((i, m), cp) = ((i', m'), cp')"
  shows "i' = i + int (length xs) \<and> m' \<le> hi \<and> i' - m' \<le> lo \<and>
    (\<Sum>n \<in> set xs. smap_at 0 n cp') = mn * int (length xs) + (m' - m) \<and>
    (\<forall>n. n \<notin> set xs \<longrightarrow> smap_at 0 n cp' = smap_at 0 n cp) \<and>
    (\<forall>n \<in> set xs. smap_at 0 n cp' = mn \<or> smap_at 0 n cp' = mn + 1)"
  using assms
proof (induction xs arbitrary: i m cp)
  case Nil
  then show ?case by simp
next
  case (Cons x xs)
  obtain share m1 where g: "give_share (smap_at 0 x counts) pre i m mn lo hi = (share, m1)"
    by (cases "give_share (smap_at 0 x counts) pre i m mn lo hi")
  note step = give_share_step [OF g]
  have m1: "m1 \<le> hi" "i + 1 - m1 \<le> lo" using step(3) Cons.prems(2-4) by auto
  have rest: "fold (share_step counts pre mn lo hi) xs ((i + 1, m1), smap_upd x share cp) =
      ((i', m'), cp')"
    using Cons.prems(5) by (simp add: share_step_Pair g)
  note IH = Cons.IH [OF _ m1 _ rest]
  have x: "smap_at 0 x cp' = share" using IH Cons.prems(1,4) by (simp add: std_simps)
  then show ?case
    using IH Cons.prems(1,4) step(1,2) by (auto simp: std_simps algebra_simps)
qed

text \<open>The larger shares are given out exactly as often as they should be.\<close>

lemma give_shares_sum:
  assumes "distinct xs" "0 \<le> lo" "0 \<le> hi" "lo + hi = int (length xs)"
  shows "(\<Sum>n \<in> set xs. smap_at 0 n (give_shares counts pre mn lo hi xs)) = mn * int (length xs) + hi"
    and "n \<in> set xs \<Longrightarrow> smap_at 0 n (give_shares counts pre mn lo hi xs) \<in> {mn, mn + 1}"
    and "n \<notin> set xs \<Longrightarrow> smap_at 0 n (give_shares counts pre mn lo hi xs) = 0"
proof -
  obtain i' m' cp' where f: "fold (share_step counts pre mn lo hi) xs ((0, 0), []) = ((i', m'), cp')"
    by (metis surj_pair)
  have cp': "give_shares counts pre mn lo hi xs = cp'" by (simp add: give_shares_def f)
  note fs = fold_shares [OF assms(1) _ _ _ f]
  show "(\<Sum>n \<in> set xs. smap_at 0 n (give_shares counts pre mn lo hi xs)) = mn * int (length xs) + hi"
    using fs assms by (simp add: cp')
  show "smap_at 0 n (give_shares counts pre mn lo hi xs) \<in> {mn, mn + 1}" if "n \<in> set xs"
    using fs assms that by (simp add: cp')
  show "smap_at 0 n (give_shares counts pre mn lo hi xs) = 0" if "n \<notin> set xs"
    using fs assms that by (simp add: cp' std_simps)
qed

lemma split_shares:
  fixes total S :: int
  assumes "0 \<le> total" "total < 2 ^ 31" "0 < S"
  defines "mn \<equiv> i32 (u32 total div S)"
  shows "mn = total div S" "i32 (u32 (u32 total - mn * S)) = total mod S"
    "0 \<le> S - total mod S" "mn * S + total mod S = total"
proof -
  have div_le: "total div S \<le> total" using assms(1,3) zdiv_mono2 [of total 1 S] by simp
  have "0 \<le> total div S" using assms(1,3) by (simp add: pos_imp_zdiv_nonneg_iff)
  then show mn: "mn = total div S" using assms(1,2) div_le by (simp add: mn_def)
  have m: "0 \<le> total mod S" "total mod S < S" "total mod S \<le> total"
    using assms(1,3) by (simp_all add: zmod_le_nonneg_dividend)
  have "u32 total - mn * S = total mod S"
    using assms(1,2) mn by (simp add: minus_div_mult_eq_mod)
  then show "i32 (u32 (u32 total - mn * S)) = total mod S"
    using m assms(2) by simp
  show "0 \<le> S - total mod S" using m by simp
  show "mn * S + total mod S = total" using mn by simp
qed

text \<open>What the two capability maps hold after \<open>caculate_capable\<close>.\<close>

lemma caculate_capable1_shares:
  assumes eq: "caculate_capable1 b = Some b'" and d: "distinct (available_server b)"
    and big: "bucket_count b * copy_count b < 2 ^ 31" and c0: "0 < copy_count b"
  defines "S \<equiv> int (length (available_server b))"
  shows "(\<Sum>n \<in> set (available_server b). cap b' n) = int (bucket_count b * copy_count b)"
    and "(\<Sum>n \<in> set (available_server b). mcap b' n) = int (bucket_count b)"
    and "n \<in> set (available_server b) \<Longrightarrow>
      cap b' n - int (bucket_count b * copy_count b) div S \<in> {0, 1}"
    and "n \<in> set (available_server b) \<Longrightarrow> mcap b' n - int (bucket_count b) div S \<in> {0, 1}"
    and "n \<notin> set (available_server b) \<Longrightarrow> mcap b' n = 0"
proof -
  let ?A = "available_server b" and ?T = "int (bucket_count b) * int (copy_count b)"
    and ?B = "int (bucket_count b)"
  have S: "0 < S" using eq by (auto simp: caculate_capable1_def Let_def S_def split: if_splits)
  have "int (bucket_count b * copy_count b) < 2 ^ 31" using big by (simp only: of_nat_less_numeral_power_cancel_iff)
  then have T: "0 \<le> ?T" "?T < 2 ^ 31" by simp_all
  have "?B * 1 \<le> ?T" using c0 by (intro mult_left_mono) simp_all
  then have B: "0 \<le> ?B" "?B < 2 ^ 31" using T(2) by simp_all
  note sT = split_shares [OF T S] and sB = split_shares [OF B S]
  have mods: "0 \<le> ?T mod S" "0 \<le> ?B mod S" using S by simp_all
  have caps: "server_capable b' = give_shares (tokens_count_in_node b)
      (average_count (tokens_count_in_node b)) (?T div S) (S - ?T mod S) (?T mod S) ?A"
    "master_server_capable b' = give_shares (mtokens_count_in_node b)
      (average_count (mtokens_count_in_node b)) (?B div S) (S - ?B mod S) (?B mod S) ?A"
    using eq S sT(1,2) sB(1,2)
    by (auto simp: caculate_capable1_def Let_def S_def [symmetric] split: if_splits)
  note gT = give_shares_sum [OF d sT(3) mods(1)] and gB = give_shares_sum [OF d sB(3) mods(2)]
  show "(\<Sum>n \<in> set ?A. cap b' n) = int (bucket_count b * copy_count b)"
    using gT(1) sT(1,4) by (simp add: caps S_def)
  show "(\<Sum>n \<in> set ?A. mcap b' n) = ?B" using gB(1) sB(1,4) by (simp add: caps S_def)
  show "cap b' n - int (bucket_count b * copy_count b) div S \<in> {0, 1}" if "n \<in> set ?A"
    using gT(2) [OF _ that, of "tokens_count_in_node b" "average_count (tokens_count_in_node b)" "?T div S"]
    by (auto simp: caps S_def)
  show "mcap b' n - ?B div S \<in> {0, 1}" if "n \<in> set ?A"
    using gB(2) [OF _ that, of "mtokens_count_in_node b" "average_count (mtokens_count_in_node b)" "?B div S"]
    by (auto simp: caps S_def)
  show "mcap b' n = 0" if "n \<notin> set ?A"
    using gB(3) [OF _ that] by (simp add: caps S_def)
qed

section \<open>The rebuild with this strategy\<close>

lemma ready1_shares:
  assumes wf: "wf_table b t" and c0: "0 < copy_count b" and d: "distinct (available_server b)"
    and big: "bucket_count b * copy_count b < 2 ^ 31"
    and r: "rebuild_ready table_builder1 t b q b3"
  shows "masters_fit b3" and "0 \<le> mcap b3 n"
    and "n \<in> set (available_server b) \<Longrightarrow>
      mcap b3 n - int (bucket_count b) div int (length (available_server b)) \<in> {0, 1}"
proof -
  obtain b1 b2 where c: "count_table t (init_counts b) = (q, b1)"
    and k: "caculate_capable1 (index_counts b1) = Some b2" and b3: "b3 = init_candidates b2"
    using r by (auto simp: rebuild_ready_def table_builder1_def)
  have st: "available_server b1 = available_server b" "bucket_count b1 = bucket_count b"
    "copy_count b1 = copy_count b"
    using count_table_result(1) [OF wf c0 c] by (simp_all add: same_setting_def)
  have st2: "available_server b2 = available_server b" "bucket_count b2 = bucket_count b"
    using caculate_capable1_Some [OF k] st by simp_all
  note sh = caculate_capable1_shares [OF k, simplified index_counts_fields st, OF d big c0]
  show "masters_fit b3" using sh(2) by (simp add: masters_fit_def b3 st2)
  show n: "mcap b3 n - int (bucket_count b) div int (length (available_server b)) \<in> {0, 1}"
    if "n \<in> set (available_server b)" using sh(4) [OF that] by (simp add: b3)
  have "0 \<le> int (bucket_count b) div int (length (available_server b))"
    by (simp only: zdiv_int [symmetric] of_nat_0_le_iff)
  then show "0 \<le> mcap b3 n"
    using n sh(5) [of n] by (cases "n \<in> set (available_server b)") (auto simp: b3)
qed

lemma servers_ok_distinct: "servers_ok b \<Longrightarrow> distinct (available_server b)"
  by (simp add: servers_ok_def distinct_map)

text \<open>
  A group of three servers with two buckets of two copies, in which the server 9 has died: the
  state in which the witnesses below apply the theorems.
\<close>

definition ex_builder :: builder1 where
  "ex_builder = set_available_server [1, 2, 3] (set_pos_mask 1 (new_table_builder1 2 2))"

definition ex_table :: hash_table_type where
  "ex_table = load_hash_table ex_builder [9, 1, 2, 9]"

lemma ex_fields:
  "available_server ex_builder = [(1, 1), (2, 0), (3, 1)]" "bucket_count ex_builder = 2"
  "copy_count ex_builder = 2"
  by code_simp+

lemma ex_wf: "wf_table ex_builder ex_table" "servers_ok ex_builder"
  by code_simp+

lemma ex_rebuild:
  "\<exists>b'. rebuild_table table_builder1 ex_table True ex_builder =
     Some (BUILD_OK, [[(2, 0), (3, 1)], [(3, 1), (1, 1)]], b')"
proof -
  have "map_option (\<lambda>r. (fst r, fst (snd r))) (rebuild_table table_builder1 ex_table True ex_builder) =
      Some (BUILD_OK, [[(2, 0), (3, 1)], [(3, 1), (1, 1)]])"
    by code_simp
  then show ?thesis by (auto simp: map_option_case split: option.splits)
qed

text \<open>
  C6. A rebuild with the load-balancing strategy that reports success yields a table of the right
  shape in which every copy of every bucket is on a live server and no two copies of a bucket are
  on the same server.
\<close>

theorem tb1_rebuild_good:
  assumes "wf_table b t" and "0 < copy_count b"
    and "rebuild_table table_builder1 t no_quick b = Some (BUILD_OK, t', b')"
  shows "wf_table b t' \<and> (\<forall>j < bucket_count b. bucket_good b t' j)"
  using assms by (rule tb1.rebuild_table_OK_good)

theorem tb1_rebuild_good_witness:
  "\<exists>b'. rebuild_table table_builder1 ex_table True ex_builder =
      Some (BUILD_OK, [[(2, 0), (3, 1)], [(3, 1), (1, 1)]], b') \<and>
    (\<forall>j < 2. bucket_good ex_builder [[(2, 0), (3, 1)], [(3, 1), (1, 1)]] j)"
  using ex_rebuild tb1_rebuild_good [OF ex_wf(1)] by (auto simp: ex_fields)

lemma tb1_rebuild_total:
  assumes wf: "wf_table b t" and c0: "0 < copy_count b" and ok: "servers_ok b"
    and big: "bucket_count b * copy_count b < 2 ^ 31"
  shows "\<exists>t' b'. rebuild_table table_builder1 t True b = Some (BUILD_OK, t', b')"
proof -
  obtain q b1 where c: "count_table t (init_counts b) = (q, b1)"
    by (cases "count_table t (init_counts b)")
  have "available_server b1 = available_server b"
    using count_table_result(1) [OF wf c0 c] by (simp add: same_setting_def)
  then have "available_server b1 \<noteq> []" using ok c0 by (auto simp: servers_ok_def)
  then obtain b2 where k: "caculate_capable1 (index_counts b1) = Some b2"
    by (simp add: caculate_capable1_def Let_def)
  have r: "rebuild_ready table_builder1 t b q (init_candidates b2)"
    using c k by (auto simp: rebuild_ready_def table_builder1_def)
  note inv = tb1.ready_inv [OF wf c0 r]
  have ok3: "servers_ok (init_candidates b2)"
    using ok inv(2) unfolding servers_ok_def same_setting_def by simp
  obtain t' b' where "rebuild_loop table_builder1 (t, init_candidates b2) = Inr (t', b')"
    using tb1.rebuild_loop_found [OF inv(1) ok3 ready1_shares(1) [OF wf c0 _ big r]]
      servers_ok_distinct [OF ok] by (metis surj_pair)
  then have "rebuild_table table_builder1 t True b = Some (BUILD_OK, t', b')"
    using k ok3 unfolding rebuild_table_def c servers_ok_def
    by (simp add: table_builder1_def Let_def)
  then show ?thesis by blast
qed

text \<open>
  C13. With at least as many live servers as copies (different, nonzero addresses), the rebuild of
  any table succeeds: no cell is left without a server.
\<close>

theorem tb1_rebuild_succeeds:
  assumes "wf_table b t" and "0 < copy_count b" and "servers_ok b"
    and "bucket_count b * copy_count b < 2 ^ 31"
  shows "\<exists>t' b'. rebuild_table table_builder1 t True b = Some (BUILD_OK, t', b')"
  using assms by (rule tb1_rebuild_total)

theorem tb1_rebuild_succeeds_witness:
  "wf_table ex_builder ex_table \<and>
   (\<exists>t' b'. rebuild_table table_builder1 ex_table True ex_builder = Some (BUILD_OK, t', b'))"
  using tb1_rebuild_succeeds [OF ex_wf(1) _ ex_wf(2)] ex_wf(1) by (simp add: ex_fields)

text \<open>
  C12. After a successful rebuild the masters are balanced: every live server is the master of
  \<open>bucket_count div S\<close> or one more bucket, where \<open>S\<close> is the number of live servers.
\<close>

theorem tb1_masters_balanced:
  assumes wf: "wf_table b t" and c0: "0 < copy_count b" and ok: "servers_ok b"
    and big: "bucket_count b * copy_count b < 2 ^ 31"
    and eq: "rebuild_table table_builder1 t no_quick b = Some (BUILD_OK, t', b')"
    and n: "n \<in> set (available_server b)"
  shows "count_list (t' ! 0) n \<in> {bucket_count b div length (available_server b),
    bucket_count b div length (available_server b) + 1}"
proof -
  obtain q b3 where r: "rebuild_ready table_builder1 t b q b3" and inv: "builder_inv t b3"
    and st: "same_setting b b3" and loop: "rebuild_loop table_builder1 (t, b3) = Inr (t', b')"
    using tb1.rebuild_table_OK_loop [OF wf c0 eq] by blast
  note sh = ready1_shares [OF wf c0 servers_ok_distinct [OF ok] big r]
  have ok3: "servers_ok b3" using ok st unfolding servers_ok_def same_setting_def by simp
  have "occ_line (t' ! 0) n = mcap b3 n"
    using tb1.rebuild_loop_balanced [OF inv ok3 sh(1,2) loop] n st by (simp add: same_setting_def)
  then have "int (count_list (t' ! 0) n) -
      int (bucket_count b div length (available_server b)) \<in> {0, 1}"
    using sh(3) [OF n] by (simp add: occ_line_def zdiv_int)
  then show ?thesis by auto
qed

theorem tb1_masters_balanced_witness:
  "\<exists>b'. rebuild_table table_builder1 ex_table True ex_builder =
      Some (BUILD_OK, [[(2, 0), (3, 1)], [(3, 1), (1, 1)]], b') \<and>
    count_list ([[(2, 0), (3, 1)], [(3, 1), (1, 1 :: 32 word)]] ! 0) (3, 1) \<in> {2 div 3, 2 div 3 + (1 :: nat)}"
  using ex_rebuild tb1_masters_balanced [OF ex_wf(1) _ ex_wf(2), where n = "(3, 1)" and no_quick = True]
  by (auto simp: ex_fields)

text \<open>
  C19. The capabilities the strategy works out share the whole table among the live servers: all
  copies add up to \<open>bucket_count * copy_count\<close>, the masters to \<open>bucket_count\<close>, and each share is
  the average rounded down or one more.
\<close>

theorem tb1_capable_shares:
  assumes "caculate_capable1 b = Some b'" and "distinct (available_server b)"
    and "bucket_count b * copy_count b < 2 ^ 31" and "0 < copy_count b"
  shows "(\<Sum>n \<in> set (available_server b). cap b' n) = int (bucket_count b * copy_count b) \<and>
    (\<Sum>n \<in> set (available_server b). mcap b' n) = int (bucket_count b) \<and>
    (\<forall>n \<in> set (available_server b).
      cap b' n - int (bucket_count b * copy_count b) div int (length (available_server b)) \<in> {0, 1} \<and>
      mcap b' n - int (bucket_count b) div int (length (available_server b)) \<in> {0, 1})"
  using caculate_capable1_shares [OF assms] by blast

theorem tb1_capable_shares_witness:
  "\<exists>b'. caculate_capable1 ex_builder = Some b' \<and>
    (\<Sum>n \<in> set (available_server ex_builder). cap b' n) = 4"
proof -
  obtain b' where "caculate_capable1 ex_builder = Some b'"
    by (cases "caculate_capable1 ex_builder")
      (simp_all add: caculate_capable1_def Let_def ex_fields)
  then show ?thesis using tb1_capable_shares [of ex_builder b'] by (simp add: ex_fields)
qed

end
