(* ===== verification/Table_Builder_Rooms.thy ===== *)
theory Table_Builder_Rooms
  imports Table_Builder_Setup
begin

text \<open>
  What a strategy adds to the rebuild loop that refuses a bucket with all its copies in one place
  (\<open>rooms_strategy\<close>): after a successful rebuild no bucket has all its copies in one room. The last
  line of each bucket is checked against all the others, which no longer change.
\<close>

text \<open>Two copies of bucket \<open>j\<close> are in different rooms.\<close>

definition rooms_apart :: "'x builder_scheme \<Rightarrow> hash_table_type \<Rightarrow> nat \<Rightarrow> bool" where
  "rooms_apart b t j \<longleftrightarrow> (\<exists>l < copy_count b. \<exists>k < copy_count b. snd (t ! l ! j) \<noteq> snd (t ! k ! j))"

lemma more_changes [simp]:
  "builder.more (change_tokens n f b) = builder.more b"
  "builder.more (change_mtokens n f b) = builder.more b"
  "builder.more (note_node S n b) = builder.more b"
  by (simp_all add: change_tokens_def change_mtokens_def note_node_def Let_def)

lemma more_cells [simp]:
  "builder.more (snd (invaliad_node l i s)) = builder.more (snd s)"
  "builder.more (snd (update_node l i n s)) = builder.more (snd s)"
  by (simp_all add: invaliad_node_def update_node_def Let_def split: prod.split)

lemma more_change_master [simp]:
  "builder.more (snd (snd (change_master_node i f s))) = builder.more (snd s)"
  by (simp add: change_master_node_def Let_def split: prod.split option.split)

lemma more_replace_node: "replace_node S l i s = Inr s' \<Longrightarrow> builder.more (snd s') = builder.more (snd s)"
proof -
  assume eq: "replace_node S l i s = Inr s'"
  define n where "n = get_suitable_node S l i (fst s ! l ! i) (invaliad_node l i s)"
  have "snd s' = note_node S n (snd (update_node l i n (invaliad_node l i s)))"
    using eq by (auto simp: replace_node_def Let_def n_def split: if_splits prod.splits)
  then show ?thesis by simp
qed

lemma more_rebuild_cell:
  assumes "rebuild_cell S r i l s = Inr s'" shows "builder.more (snd s') = builder.more (snd s)"
proof -
  obtain t b where s: "s = (t, b)" by (cases s)
  obtain f t1 b1 where cm: "change_master_node i False (t, b) = (f, t1, b1)"
    by (cases "change_master_node i False (t, b)")
  have b1: "builder.more b1 = builder.more b" using more_change_master [of i False "(t, b)"] by (simp add: cm)
  show ?thesis
    using assms b1 more_replace_node [of S l i "(t, b)" s'] more_replace_node [of S l i "(t1, b1)" s']
    by (auto simp: rebuild_cell_def Let_def s cm split: if_splits bool.splits)
qed

lemma more_foldE:
  assumes "\<And>x s s'. f x s = Inr s' \<Longrightarrow> builder.more (snd s') = builder.more (snd s)"
    and "foldE f xs s = Inr s'"
  shows "builder.more (snd s') = builder.more (snd s)"
  by (rule foldE_invariant [where P = "\<lambda>s1. builder.more (snd s1) = builder.more (snd s)", OF _ _ assms(2)])
    (simp_all add: assms(1))

locale rooms_strategy = build_strategy S for S :: "'x table_strategy" +
  fixes two_rooms :: "'x builder_scheme \<Rightarrow> bool"
  assumes two_rooms_more: "builder.more b = builder.more b' \<Longrightarrow> two_rooms b = two_rooms b'"
    and ok_rooms:
    "is_this_node_OK S b n l i t lvl used = NODE_OK \<Longrightarrow> l \<noteq> 0 \<Longrightarrow> two_rooms b \<Longrightarrow>
      l < copy_count b \<Longrightarrow> \<exists>k < copy_count b. \<exists>k' < copy_count b.
        (if k = l then snd n else snd (t ! k ! i)) \<noteq> (if k' = l then snd n else snd (t ! k' ! i))"
begin

lemma slave_rooms:
  assumes inv: "builder_inv t b" and l: "l < copy_count b" "1 \<le> l" and i: "i < bucket_count b"
    and eq: "rebuild_cell S 1 i l (t, b) = Inr (t', b')" and two: "two_rooms b"
  shows "rooms_apart b t' i"
proof -
  have wf: "wf_table b t" using inv by (rule builder_inv_wf)
  consider (keep) "is_this_node_OK S b (t ! l ! i) l i t CONSIDER_ALL True = NODE_OK" "t' = t"
    | (replace) "replace_node S l i (t, b) = Inr (t', b')"
    using rebuild_slave_cases [OF l(2) eq] by blast
  then show ?thesis
  proof cases
    case keep
    have eta: "(if k = l then snd (t ! l ! i) else snd (t ! k ! i)) = snd (t ! k ! i)" for k by simp
    show ?thesis
      using ok_rooms [OF keep(1) _ two l(1)] l(2) unfolding rooms_apart_def keep(2) eta by simp
  next
    case replace
    obtain t1 b1 where s1: "invaliad_node l i (t, b) = (t1, b1)" by (cases "invaliad_node l i (t, b)")
    define n where "n = get_suitable_node S l i (t ! l ! i) (t1, b1)"
    have ne: "fst n \<noteq> INVALID_FLAG" and up: "t' = fst (update_node l i n (t1, b1))"
      using replace s1 by (auto simp: replace_node_def Let_def n_def split: if_splits prod.splits)
    have t1: "t1 = cell_upd t l i (INVALID_FLAG, snd (t ! l ! i))"
      using s1 invaliad_node_table [of l i t b] by simp
    have b1: "builder.more b1 = builder.more b" "copy_count b1 = copy_count b"
      using s1 more_cells(1) [of l i "(t, b)"] invaliad_node_frame [of b l i t]
      by (simp_all add: same_frame_def)
    obtain lvl where ok: "is_this_node_OK S b1 n l i t1 lvl False = NODE_OK"
      using get_suitable_node_sound [of S l i "t ! l ! i" "(t1, b1)"] ne by (auto simp: n_def)
    have nth1: "t1 ! k ! i = (if k = l then (INVALID_FLAG, snd (t ! l ! i)) else t ! k ! i)" for k
      using cell_upd_nth [OF wf l(1) i] by (simp add: t1)
    have nth': "t' ! k ! i = (if k = l then n else t ! k ! i)" for k
      using cell_upd_nth [OF wf l(1) i] update_node_table [of l i n t1 b1] wf l(1)
      by (simp add: up t1 wf_table_def)
    have eta: "(if k = l then snd n else snd (t1 ! k ! i)) = snd (t' ! k ! i)" for k
      by (simp add: nth1 nth')
    show ?thesis
      using ok_rooms [OF ok] two_rooms_more [OF b1(1)] two l b1(2) unfolding rooms_apart_def eta by simp
  qed
qed

lemma column_rooms:
  assumes sd: "slaves_done b0 masters i s" and i: "i < bucket_count b0" and c: "2 \<le> copy_count b0"
    and two: "two_rooms (snd s)"
    and eq: "foldE (rebuild_cell S 1 i) [1..<copy_count b0] s = Inr s'"
  shows "rooms_apart b0 (fst s') i"
proof -
  define l where "l = copy_count b0 - 1"
  have l: "copy_count b0 = Suc l" "1 \<le> l" using c by (simp_all add: l_def)
  obtain s1 where s1: "foldE (rebuild_cell S 1 i) [1..<l] s = Inr s1"
    and last: "rebuild_cell S 1 i l s1 = Inr s'"
    using eq l by (auto simp: foldE_append split: sum.splits)
  have "column_done b0 masters i 1 s" using sd by (simp add: column_done_def)
  then have "column_done b0 masters i l s1"
    by (rule foldE_upt_invariant [where P = "column_done b0 masters i", OF _ l(2) _ s1])
      (rule column_done_step [OF _ i], simp_all add: l)
  then have inv: "builder_inv (fst s1) (snd s1)" and fr: "same_frame b0 (snd s1)"
    by (simp_all add: column_done_def slaves_done_def)
  have "builder.more (snd s1) = builder.more (snd s)"
    by (rule more_foldE [OF _ s1]) (rule more_rebuild_cell)
  then have "two_rooms (snd s1)" using two two_rooms_more by blast
  then have "rooms_apart (snd s1) (fst s') i"
    using slave_rooms [OF inv, of l i "fst s'" "snd s'"] last l i fr by (simp add: same_frame_def)
  then show ?thesis using fr by (simp add: rooms_apart_def same_frame_def)
qed

lemma slave_keeps_other_columns:
  assumes cd: "column_done b0 masters i l s" and l: "1 \<le> l" "l < copy_count b0"
    and i: "i < bucket_count b0" and eq: "rebuild_cell S 1 i l s = Inr s'" and j: "j \<noteq> i"
  shows "fst s' ! k ! j = fst s ! k ! j"
proof -
  have inv: "builder_inv (fst s) (snd s)" and fr: "same_frame b0 (snd s)"
    using cd by (simp_all add: column_done_def slaves_done_def)
  have l': "l < copy_count (snd s)" and i': "i < bucket_count (snd s)"
    using l i fr by (simp_all add: same_frame_def)
  have eq': "rebuild_cell S 1 i l (fst s, snd s) = Inr (fst s', snd s')" using eq by simp
  obtain n where "fst s' = cell_upd (fst s) l i n"
    using rebuild_slave_Inr [OF inv l' l(1) i' eq'] by blast
  then show ?thesis using cell_upd_nth [OF builder_inv_wf [OF inv] l' i'] j by simp
qed

lemma column_keeps_rooms:
  assumes sd: "slaves_done b0 masters i s" and i: "i < bucket_count b0" and c: "1 \<le> copy_count b0"
    and eq: "foldE (rebuild_cell S 1 i) [1..<copy_count b0] s = Inr s'" and j: "j < i"
    and apart: "rooms_apart b0 (fst s) j"
  shows "rooms_apart b0 (fst s') j"
proof -
  have "column_done b0 masters i (copy_count b0) s' \<and> rooms_apart b0 (fst s') j"
  proof (rule foldE_upt_invariant
      [where P = "\<lambda>l s. column_done b0 masters i l s \<and> rooms_apart b0 (fst s) j", OF _ c _ eq])
    show "column_done b0 masters i 1 s \<and> rooms_apart b0 (fst s) j"
      using sd apart by (simp add: column_done_def)
    fix l s s' assume l: "1 \<le> l" "l < copy_count b0" and r: "rebuild_cell S 1 i l s = Inr s'"
      and p: "column_done b0 masters i l s \<and> rooms_apart b0 (fst s) j"
    then show "column_done b0 masters i (Suc l) s' \<and> rooms_apart b0 (fst s') j"
      using column_done_step [OF _ i l r] slave_keeps_other_columns [OF _ l i r, of masters j] j
      by (simp add: rooms_apart_def)
  qed
  then show ?thesis by blast
qed

lemma slave_round_rooms:
  assumes md: "masters_done b (bucket_count b) (t, b1)" and c: "2 \<le> copy_count b"
    and two: "two_rooms b1" and eq: "slave_round S b (t, b1) = Inr s"
  shows "\<forall>j < bucket_count b. rooms_apart b (fst s) j"
proof -
  let ?P = "\<lambda>i s. slaves_done b (t ! 0) i s \<and> two_rooms (snd s) \<and>
    (\<forall>j < i. rooms_apart b (fst s) j)"
  have "?P (bucket_count b) s"
  proof (rule foldE_upt_invariant [where P = ?P, OF _ _ _ eq])
    show "?P 0 (t, b1)" using md two by (simp add: masters_done_def slaves_done_def)
    fix i s s' assume i: "i < bucket_count b" and p: "?P i s"
      and col: "foldE (rebuild_cell S 1 i) [1..<copy_count b] s = Inr s'"
    have av: "is_node_availble b (t ! 0 ! i)" using md i by (simp add: masters_done_def)
    have "slaves_done b (t ! 0) (Suc i) s'" using slaves_done_step [OF _ i av _ col] p c by simp
    moreover have "two_rooms (snd s') = two_rooms (snd s)"
      by (rule two_rooms_more, rule more_foldE [OF _ col]) (rule more_rebuild_cell)
    moreover have "rooms_apart b (fst s') j" if "j < Suc i" for j
      using p column_rooms [OF _ i c _ col] column_keeps_rooms [OF _ i _ col, of "t ! 0" j] c that
      by (cases "j = i") auto
    ultimately show "?P (Suc i) s'" using p by simp
  qed simp
  then show ?thesis by blast
qed

lemma rebuild_loop_rooms:
  assumes inv: "builder_inv t b" and c: "2 \<le> copy_count b" and two: "two_rooms b"
    and eq: "rebuild_loop S (t, b) = Inr (t', b')" and j: "j < bucket_count b"
  shows "rooms_apart b t' j"
proof -
  have c0: "0 < copy_count b" using inv by (rule builder_inv_copies)
  have len: "length t = copy_count b" using inv by (simp add: builder_inv_wf wf_table_length)
  obtain t1 b1 where mr: "master_round S b (t, b) = Inr (t1, b1)"
    and sr: "slave_round S b (t1, b1) = Inr (t', b')"
    using eq c unfolding rebuild_loop_rounds [OF len c0]
    by (cases "master_round S b (t, b)") (auto split: if_splits)
  have md: "masters_done b (bucket_count b) (t1, b1)" using inv mr by (rule master_round_done)
  have "builder.more b1 = builder.more b"
    using more_foldE [OF more_rebuild_cell mr] by simp
  then have "two_rooms b1" using two two_rooms_more by blast
  then show ?thesis using slave_round_rooms [OF md c _ sr] j by simp
qed

end

end
