(* ===== verification/Table_Builder2.thy ===== *)
theory Table_Builder2
  imports Complex_Main Table_Builder_Rooms Table_Builder_Live
begin

unbundle bit_operations_syntax

text \<open>
  The location-safe strategy (\<open>src/configserver/table_builder2.hpp\<close> and \<open>table_builder2.cpp\<close>): the
  copies of a bucket must not all be in one room. It builds only while the servers are spread
  evenly enough over the rooms. Its ratios are computed in single precision, which \<open>f32\<close> models.
\<close>

section \<open>Single precision\<close>

text \<open>
  \<open>f32 x\<close> is the IEEE single precision number nearest to \<open>x\<close>, ties to even, for \<open>0\<close> and the
  numbers from \<open>2\<^sup>-\<^sup>6\<^sup>4\<close> up: 24 significant bits, \<open>bits - 64\<close> of them before the point.
\<close>

definition round_even :: "rat \<Rightarrow> int" where
  "round_even x =
     (let f = \<lfloor>x\<rfloor>; d = x - of_int f
      in if d < 1 / 2 then f else if d > 1 / 2 then f + 1 else if even f then f else f + 1)"

function bit_length :: "int \<Rightarrow> nat" where
  "bit_length n = (if n \<le> 0 then 0 else bit_length (n div 2) + 1)"
  by pat_completeness simp
termination
  by (relation "measure nat") simp_all

declare bit_length.simps [simp del]

definition f32 :: "rat \<Rightarrow> rat" where
  "f32 x =
     (if x = 0 then 0
      else let bits = bit_length \<lfloor>x * 2 ^ 64\<rfloor>; ulp = 2 ^ bits / 2 ^ 88
           in of_int (round_even (x / ulp)) * ulp)"

section \<open>The strategy\<close>

record builder2 = builder +
  build_stat_normal :: bool
  stat_change_ratio :: rat
  pos_max :: int
  max_machine_room_id :: "32 word"
  mtokens_per_node_min :: int
  mtokens_per_node_max_count :: int
  mtokens_per_node_min_count :: int
  otokens_per_node_min :: int
  otokens_per_node_max_count :: int
  otokens_per_node_min_count :: int

text \<open>
  The loop over the other copies from line \<open>i\<close> on: \<open>None\<close> when one of them is on the same server,
  otherwise the places seen.
\<close>

fun other_places :: "server_id_type \<Rightarrow> nat \<Rightarrow> nat \<Rightarrow> nat \<Rightarrow> hash_table_type \<Rightarrow> 32 word list \<Rightarrow>
    32 word list option" where
  "other_places node_id line_num node_idx i [] pos_limit = Some pos_limit"
| "other_places node_id line_num node_idx i (line # rest) pos_limit =
     (if i \<noteq> line_num then
        (if fst (line ! node_idx) = fst node_id then None
         else other_places node_id line_num node_idx (i + 1) rest
                (set_insert (snd (line ! node_idx)) pos_limit))
      else other_places node_id line_num node_idx (i + 1) rest pos_limit)"

definition is_this_node_OK2 ::
  "builder2 \<Rightarrow> server_id_type \<Rightarrow> nat \<Rightarrow> nat \<Rightarrow> hash_table_type \<Rightarrow> nat \<Rightarrow> bool \<Rightarrow> int" where
  "is_this_node_OK2 b node_id line_num node_idx hash_table_dest option_level node_in_use =
     (let tokenPerNode_min = (if snd node_id = max_machine_room_id b
                              then mtokens_per_node_min b else otokens_per_node_min b);
          tokenPerNode_max_count = (if snd node_id = max_machine_room_id b
                              then mtokens_per_node_max_count b else otokens_per_node_max_count b);
          turn = (if node_in_use then 1 else 0) in
      if \<not> is_node_availble b node_id then INVALID_NODE
      else if line_num = 0 \<and>
        smap_at 0 node_id (mtokens_count_in_node b) \<ge>
        smap_at 0 node_id (master_server_capable b) + turn
      then TOOMANY_MASTER
      else if line_num \<noteq> 0 \<and> option_level = CONSIDER_ALL \<and>
        smap_at 0 node_id (tokens_count_in_node b) \<ge> smap_at 0 node_id (server_capable b) + turn
      then TOOMANY_BUCKET
      else if line_num \<noteq> 0 \<and> option_level \<noteq> CONSIDER_ALL \<and> option_level \<noteq> CONSIDER_FORCE \<and>
        smap_at 0 node_id (tokens_count_in_node_now b) \<ge> tokenPerNode_min + turn \<and>
        max_count_now b \<ge> tokenPerNode_max_count + turn
      then TOOMANY_BUCKET
      else if line_num = 0 \<and> option_level = CONSIDER_BASE then NODE_OK
      else
        (case other_places node_id line_num node_idx 0
                (map ((!) hash_table_dest) [0..<copy_count b]) (set_insert (snd node_id) []) of
           None \<Rightarrow> SAME_NODE
         | Some pos_limit \<Rightarrow>
             (if build_stat_normal b \<and> line_num \<noteq> 0 \<and> length pos_limit < 2 then SAME_POS
              else NODE_OK)))"

text \<open>The room with the most servers, the first of them in the order of the map.\<close>

definition largest_room :: "(32 word, int) smap \<Rightarrow> int \<times> 32 word \<Rightarrow> int \<times> 32 word" where
  "largest_room pos_count start =
     fold (\<lambda>it (m, room). if snd it > m then (snd it, fst it) else (m, room)) pos_count start"

text \<open>
  With no server at all the ratio is 0 divided by 0, and a comparison with it is false. The
  constant of the last comparison is the double nearest to 0.9999.
\<close>

definition set_available_server2 :: "64 word list \<Rightarrow> builder2 \<Rightarrow> builder2" where
  "set_available_server2 ava_server b =
     (let avail = fold (\<lambda>server_id. set_insert (server_id, ucast (server_id AND pos_mask b)))
            ava_server [];
          pos_count = fold (\<lambda>server_id.
              smap_alter 0 (\<lambda>c. c + 1) (ucast (server_id AND pos_mask b))) ava_server [];
          (pmax, room) = largest_room pos_count (0, max_machine_room_id b);
          diff = int (length avail) - pmax - pmax;
          diff_server = (if diff \<le> 0 then 0 - diff else diff);
          ratio = f32 (f32 (of_int diff_server) / f32 (of_int pmax))
      in b\<lparr>available_server := avail, pos_max := pmax, max_machine_room_id := room,
           build_stat_normal :=
             \<not> (pmax \<noteq> 0 \<and> ratio > stat_change_ratio b \<or> length avail < copy_count b \<or>
                pmax \<noteq> 0 \<and> ratio > 4503149267407759 / 4503599627370496)\<rparr>)"

text \<open>
  One of the two loops that hand out the shares to the servers of one room: the first \<open>max_count\<close>
  of them get one more.
\<close>

definition room_shares ::
  "(server_id_type \<Rightarrow> bool) \<Rightarrow> int \<Rightarrow> int \<Rightarrow> server_list_type \<Rightarrow> server_capable_type \<Rightarrow>
    server_capable_type" where
  "room_shares in_room per_node_min max_count servers capable =
     snd (fold (\<lambda>it (max_s, capable).
            if \<not> in_room it then (max_s, capable)
            else if max_s < max_count
            then (max_s + 1, smap_upd it (per_node_min + 1) capable)
            else (max_s, smap_upd it per_node_min capable))
          servers (0, capable))"

text \<open>The capabilities of all copies and of the masters, once the divisors are known not to be 0.\<close>

definition capable_maps2 :: "builder2 \<Rightarrow> server_capable_type \<times> server_capable_type" where
  "capable_maps2 b =
     (let available_server_count = int (length (available_server b));
          real_copy_count = int (copy_count b);
          buckets = int (bucket_count b);
          share = f32 (f32 (of_int (pos_max b)) / f32 (of_int available_server_count));
          master_bucket = \<lfloor>f32 (f32 (of_int buckets) * share)\<rfloor>;
          balance_bucket = \<lfloor>f32 (f32 (of_int (u32 (buckets * real_copy_count))) * share)\<rfloor>;
          total_bucket = min (i32 (u32 (buckets * (real_copy_count - 1)))) balance_bucket;
          server_count = pos_max b;
          mtoken_min = cdiv total_bucket server_count;
          mtoken_max_count = total_bucket - mtoken_min * server_count;
          mtoken_min_count = server_count - mtoken_max_count;
          mmaster_min = cdiv master_bucket server_count;
          mmaster_max_count = master_bucket - mmaster_min * server_count;
          mmaster_min_count = server_count - mmaster_max_count;
          total_bucket = i32 (u32 (buckets * real_copy_count -
            (mtoken_min * mtoken_min_count + (mtoken_min + 1) * mtoken_max_count)));
          master_bucket = i32 (u32 (buckets -
            (mmaster_min * mmaster_min_count + (mmaster_min + 1) * mmaster_max_count)));
          server_count = available_server_count - server_count;
          otoken_min = cdiv total_bucket server_count;
          otoken_max_count = total_bucket - otoken_min * server_count;
          omaster_min = cdiv master_bucket server_count;
          omaster_max_count = master_bucket - omaster_min * server_count;
          in_max = (\<lambda>it :: server_id_type. snd it = max_machine_room_id b)
      in (room_shares (\<lambda>it. \<not> in_max it) otoken_min otoken_max_count (available_server b)
            (room_shares in_max mtoken_min mtoken_max_count (available_server b) []),
          room_shares (\<lambda>it. \<not> in_max it) omaster_min omaster_max_count (available_server b)
            (room_shares in_max mmaster_min mmaster_max_count (available_server b) [])))"

text \<open>
  \<open>None\<close> is the death of the process: a failed assertion or a division by zero. The members
  \<open>mtokens_per_node_min\<close> to \<open>otokens_per_node_min_count\<close> are not assigned; the values go to local
  variables of similar names.
\<close>

definition caculate_capable2 :: "builder2 \<Rightarrow> builder2 option" where
  "caculate_capable2 b =
     (let available_server_count = int (length (available_server b));
          b1 = (if copy_count b \<le> 1 then b\<lparr>build_stat_normal := False\<rparr> else b) in
      if \<not> build_stat_normal b1 \<or> available_server_count = 0 \<or> pos_max b = 0 \<or>
         available_server_count - pos_max b = 0
      then None
      else Some (b1\<lparr>server_capable := fst (capable_maps2 b),
                    master_server_capable := snd (capable_maps2 b)\<rparr>))"

definition get_tokens_per_node2 :: "builder2 \<Rightarrow> server_id_type \<Rightarrow> int" where
  "get_tokens_per_node2 b node_id =
     (if snd node_id = max_machine_room_id b then mtokens_per_node_min b
      else otokens_per_node_min b)"

definition table_builder2 :: "unit builder2_ext table_strategy" where
  "table_builder2 =
     \<lparr>is_this_node_OK = is_this_node_OK2, caculate_capable = caculate_capable2,
      get_tokens_per_node = get_tokens_per_node2\<rparr>"

text \<open>The override refuses to build on an uneven group and leaves the destination alone.\<close>

definition rebuild_table2 ::
  "hash_table_type \<Rightarrow> hash_table_type \<Rightarrow> bool \<Rightarrow> builder2 \<Rightarrow>
    (int \<times> hash_table_type \<times> builder2) option" where
  "rebuild_table2 hash_table_source hash_table_dest no_quick_table b =
     (if \<not> build_stat_normal b then Some (BUILD_ERROR, hash_table_dest, b)
      else rebuild_table table_builder2 hash_table_source no_quick_table b)"

text \<open>
  The constructor. The members it leaves indeterminate are parameters of the model, \<open>m\<close> and \<open>ot\<close>,
  where the code reads them before it sets them: the token counts of the two rooms.
\<close>

definition new_table_builder2 :: "rat \<Rightarrow> nat \<Rightarrow> nat \<Rightarrow> int \<times> int \<times> int \<Rightarrow> int \<times> int \<times> int \<Rightarrow> builder2" where
  "new_table_builder2 change_ratio bucket_c copy_c m ot =
     \<lparr>tokens_count_in_node = [], max_count_now = 0, tokens_count_in_node_now = [],
      count_server = [], mtokens_count_in_node = [], mcount_server = [], scandidate_node = [],
      mcandidate_node = [], available_server = [], server_capable = [],
      master_server_capable = [], pos_mask = TAIR_POS_MASK, bucket_count = bucket_c,
      copy_count = copy_c, build_stat_normal = False, stat_change_ratio = f32 change_ratio,
      pos_max = 0, max_machine_room_id = 0, mtokens_per_node_min = fst m,
      mtokens_per_node_max_count = fst (snd m), mtokens_per_node_min_count = snd (snd m),
      otokens_per_node_min = fst ot, otokens_per_node_max_count = fst (snd ot),
      otokens_per_node_min_count = snd (snd ot)\<rparr>"

section \<open>What the strategy accepts\<close>

lemma other_places_None:
  "other_places n l i k ls pl \<noteq> None \<Longrightarrow> j < length ls \<Longrightarrow> k + j \<noteq> l \<Longrightarrow> fst (ls ! j ! i) \<noteq> fst n"
proof (induction n l i k ls pl arbitrary: j rule: other_places.induct)
  case (2 n l i k line rest pl)
  then show ?case by (cases j) (auto split: if_splits)
qed simp

lemma other_places_Some:
  "other_places n l i k ls pl = Some pl' \<Longrightarrow> distinct pl \<Longrightarrow>
     distinct pl' \<and> set pl' = set pl \<union> {snd (ls ! j ! i) |j. j < length ls \<and> k + j \<noteq> l}"
proof (induction n l i k ls pl rule: other_places.induct)
  case (1 n l i k pl)
  then show ?case by simp
next
  case (2 n l i k line rest pl)
  have split: "{snd ((line # rest) ! j ! i) |j. j < length (line # rest) \<and> k + j \<noteq> l} =
      (if k \<noteq> l then {snd (line ! i)} else {}) \<union>
      {snd (rest ! j ! i) |j. j < length rest \<and> k + 1 + j \<noteq> l}" (is "?L = ?R")
  proof
    show "?L \<subseteq> ?R"
    proof
      fix x assume "x \<in> ?L"
      then obtain j where j: "x = snd ((line # rest) ! j ! i)" "j < length (line # rest)" "k + j \<noteq> l"
        by blast
      then show "x \<in> ?R" by (cases j) auto
    qed
    show "?R \<subseteq> ?L" by (force split: if_splits)
  qed
  show ?case
    unfolding split using 2 by (auto simp: std_simps distinct_set_insert split: if_splits)
qed

lemma set_insert_Nil: "set_insert x [] = [x]"
  by (simp add: set_insert_def insort_insert_key_def)

lemma is_this_node_OK2_OK:
  assumes ok: "is_this_node_OK2 b n l i t lvl used = NODE_OK"
  shows "is_node_availble b n" and "l = 0 \<Longrightarrow> mtok b n < mcap b n + (if used then 1 else 0)"
    and "\<not> (l = 0 \<and> lvl = CONSIDER_BASE) \<Longrightarrow>
      \<exists>pl. other_places n l i 0 (map ((!) t) [0..<copy_count b]) [snd n] = Some pl \<and>
        (build_stat_normal b \<and> l \<noteq> 0 \<longrightarrow> 2 \<le> length pl)"
proof -
  show av: "is_node_availble b n"
    using ok by (rule contrapos_pp) (simp add: is_this_node_OK2_def Let_def node_code_defs)
  show "mtok b n < mcap b n + (if used then 1 else 0)" if "l = 0"
    using ok
    by (rule contrapos_pp) (simp add: that av is_this_node_OK2_def Let_def node_code_defs not_less)
  let ?o = "other_places n l i 0 (map ((!) t) [0..<copy_count b]) [snd n]"
  show "\<exists>pl. ?o = Some pl \<and> (build_stat_normal b \<and> l \<noteq> 0 \<longrightarrow> 2 \<le> length pl)"
    if "\<not> (l = 0 \<and> lvl = CONSIDER_BASE)"
  proof -
    define z where "z = (case ?o of None \<Rightarrow> SAME_NODE
      | Some pl \<Rightarrow> if build_stat_normal b \<and> l \<noteq> 0 \<and> length pl < 2 then SAME_POS else NODE_OK)"
    have "z = NODE_OK"
      using ok that unfolding is_this_node_OK2_def Let_def set_insert_Nil z_def [symmetric]
      by (simp only: if_False node_code_defs split: if_split_asm)
    then show ?thesis by (auto simp: z_def node_code_defs split: option.splits if_splits)
  qed
qed

lemma caculate_capable2_Some:
  "caculate_capable2 b = Some b' \<Longrightarrow>
     available_server b' = available_server b \<and> bucket_count b' = bucket_count b \<and>
     copy_count b' = copy_count b \<and> tokens_count_in_node b' = tokens_count_in_node b \<and>
     mtokens_count_in_node b' = mtokens_count_in_node b \<and>
     count_server b' = count_server b \<and> mcount_server b' = mcount_server b \<and>
     build_stat_normal b' \<and> 2 \<le> copy_count b"
  by (auto simp: caculate_capable2_def Let_def split: if_splits)

lemma two_places:
  assumes ok: "is_this_node_OK2 b n l i t lvl used = NODE_OK" and "l \<noteq> 0" "build_stat_normal b"
    and l: "l < copy_count b"
  shows "\<exists>k < copy_count b. \<exists>k' < copy_count b.
    (if k = l then snd n else snd (t ! k ! i)) \<noteq> (if k' = l then snd n else snd (t ! k' ! i))"
proof (rule ccontr)
  assume "\<not> ?thesis"
  then have same: "snd (t ! k ! i) = snd n" if "k < copy_count b" "k \<noteq> l" for k
    using l that by (metis (full_types))
  obtain pl where pl: "other_places n l i 0 (map ((!) t) [0..<copy_count b]) [snd n] = Some pl"
    and two: "2 \<le> length pl"
    using is_this_node_OK2_OK(3) [OF ok] assms(2,3) by auto
  have "distinct pl" "set pl \<subseteq> {snd n}"
    using other_places_Some [OF pl] same by auto
  then have "length pl \<le> 1" using card_mono [of "{snd n}" "set pl"] by (simp add: distinct_card)
  then show False using two by simp
qed

lemma build_stat_normal_more:
  fixes b b' :: builder2
  shows "builder.more b = builder.more b' \<Longrightarrow> build_stat_normal b = build_stat_normal b'"
  by (cases b; cases b') simp

interpretation tb2: rooms_strategy table_builder2 build_stat_normal
proof
  fix b :: builder2 and b' n l i t lvl used k
  note defs = table_builder2_def
  assume ok: "is_this_node_OK table_builder2 b n l i t lvl used = NODE_OK"
  then have ok2: "is_this_node_OK2 b n l i t lvl used = NODE_OK" by (simp add: defs)
  show "is_node_availble b n" using ok2 by (rule is_this_node_OK2_OK)
  show "fst (t ! k ! i) \<noteq> fst n"
    if "\<not> (l = 0 \<and> lvl = CONSIDER_BASE)" "k < copy_count b" "k \<noteq> l"
    using is_this_node_OK2_OK(3) [OF ok2 that(1)] that(2,3)
      other_places_None [of n l i 0 "map ((!) t) [0..<copy_count b]" "[snd n]" k] by auto
  show "\<exists>k < copy_count b. \<exists>k' < copy_count b.
      (if k = l then snd n else snd (t ! k ! i)) \<noteq> (if k' = l then snd n else snd (t ! k' ! i))"
    if "l \<noteq> 0" "build_stat_normal b" "l < copy_count b"
    using ok2 that by (rule two_places)
next
  fix b :: builder2 and n i t lvl used
  show "mtok b n < mcap b n + (if used then 1 else 0)"
    if "is_this_node_OK table_builder2 b n 0 i t lvl used = NODE_OK"
    using that is_this_node_OK2_OK(2) [of b n 0 i t lvl used] by (simp add: table_builder2_def)
next
  fix b b' :: builder2
  show "available_server b' = available_server b \<and> bucket_count b' = bucket_count b \<and>
     copy_count b' = copy_count b \<and> tokens_count_in_node b' = tokens_count_in_node b \<and>
     mtokens_count_in_node b' = mtokens_count_in_node b \<and>
     count_server b' = count_server b \<and> mcount_server b' = mcount_server b"
    if "caculate_capable table_builder2 b = Some b'"
    using that caculate_capable2_Some [of b b'] by (simp add: table_builder2_def)
  show "build_stat_normal b = build_stat_normal b'" if "builder.more b = builder.more b'"
    using that by (rule build_stat_normal_more)
qed

section \<open>The rebuild with this strategy\<close>

text \<open>
  C10. A rebuild with the location-safe strategy that reports success yields a table in which every
  copy of every bucket is on a live server, no two copies of a bucket are on the same server, and
  no bucket has all its copies in one room.
\<close>

theorem tb2_rebuild_good:
  assumes wf: "wf_table b t" and c0: "0 < copy_count b"
    and eq: "rebuild_table2 t dest no_quick b = Some (BUILD_OK, t', b')"
  shows "wf_table b t' \<and> (\<forall>j < bucket_count b. bucket_good b t' j \<and> rooms_apart b t' j)"
proof -
  have eq': "rebuild_table table_builder2 t no_quick b = Some (BUILD_OK, t', b')"
    using eq by (simp add: rebuild_table2_def build_code_defs split: if_splits)
  obtain q b3 where r: "rebuild_ready table_builder2 t b q b3" and inv: "builder_inv t b3"
    and st: "same_setting b b3" and loop: "rebuild_loop table_builder2 (t, b3) = Inr (t', b')"
    using tb2.rebuild_table_OK_loop [OF wf c0 eq'] by blast
  obtain b1 b2 where k: "caculate_capable2 b1 = Some b2" and b3: "b3 = init_candidates b2"
    using r by (auto simp: rebuild_ready_def table_builder2_def)
  have more: "builder.more b3 = builder.more b2"
    by (simp add: b3 init_candidates_def Let_def split: prod.split)
  have two: "build_stat_normal b3" "2 \<le> copy_count b3"
    using caculate_capable2_Some [OF k] build_stat_normal_more [OF more] by (simp_all add: b3)
  have "rooms_apart b t' j" if "j < bucket_count b" for j
    using tb2.rebuild_loop_rooms [OF inv two(2,1) loop, of j] that st
    by (simp add: rooms_apart_def same_setting_def)
  then show ?thesis using tb2.rebuild_table_OK_good [OF wf c0 eq'] by blast
qed

text \<open>Four servers in two rooms, two buckets of two copies, the server 9 lost.\<close>

definition ex2_builder :: "nat \<Rightarrow> builder2" where
  "ex2_builder copies = set_available_server2 [2, 3, 4, 5]
     (set_pos_mask 1 (new_table_builder2 (3 / 5) 2 copies (0, 0, 0) (0, 0, 0)))"

definition ex2_table :: hash_table_type where
  "ex2_table = load_hash_table (ex2_builder 2) [2, 9, 4, 3]"

lemma ex2_fields:
  "build_stat_normal (ex2_builder 2)" "build_stat_normal (ex2_builder 1)"
  "copy_count (ex2_builder 2) = 2" "bucket_count (ex2_builder 2) = 2" "copy_count (ex2_builder 1) = 1"
  "wf_table (ex2_builder 2) ex2_table" "wf_table (ex2_builder 1) [[(2, 0), (9, 1)]]"
  by code_simp+

theorem tb2_rebuild_good_witness:
  "\<exists>t' b'. rebuild_table2 ex2_table [] True (ex2_builder 2) = Some (BUILD_OK, t', b') \<and>
    (\<forall>j < 2. bucket_good (ex2_builder 2) t' j \<and> rooms_apart (ex2_builder 2) t' j)"
proof -
  have "map_option fst (rebuild_table2 ex2_table [] True (ex2_builder 2)) = Some BUILD_OK"
    by code_simp
  then obtain t' b' where eq: "rebuild_table2 ex2_table [] True (ex2_builder 2) = Some (BUILD_OK, t', b')"
    by (auto simp: map_option_case split: option.splits)
  then show ?thesis
    using tb2_rebuild_good [OF ex2_fields(6) _ eq] by (simp add: ex2_fields)
qed

text \<open>
  C32. The location-safe strategy cannot build a table of single copies: for such a group an even
  spread of the servers gets past the check in \<open>rebuild_table\<close> and the rebuild ends the process.
\<close>

theorem tb2_single_copy_dies:
  assumes "copy_count b \<le> 1" and "build_stat_normal b" and "wf_table b t" and "0 < copy_count b"
  shows "rebuild_table2 t dest no_quick b = None"
proof -
  obtain q b1 where c: "count_table t (init_counts b) = (q, b1)"
    by (cases "count_table t (init_counts b)")
  have "copy_count b1 = copy_count b"
    using count_table_result(1) [OF assms(3,4) c] by (simp add: same_setting_def)
  then have "caculate_capable2 (index_counts b1) = None"
    using assms(1) by (simp add: caculate_capable2_def Let_def)
  then show ?thesis using assms(2) by (simp add: rebuild_table2_def rebuild_table_def c table_builder2_def)
qed

theorem tb2_single_copy_dies_witness:
  "build_stat_normal (ex2_builder 1) \<and>
   rebuild_table2 [[(2, 0), (9, 1)]] [] True (ex2_builder 1) = None"
  using tb2_single_copy_dies [of "ex2_builder 1"] ex2_fields(2,5,7) by simp

end
