(* ===== verification/Group_Info.thy ===== *)
theory Group_Info
  imports Table_Builder1 Table_Builder2
begin

unbundle bit_operations_syntax

text \<open>
  A group of data servers in the config server (\<open>src/configserver/group_info.cpp\<close>): its three hash
  tables, their versions, the rebuild when servers come or go, and the migration that takes the
  group from the table in use to the rebuilt one, bucket by bucket. The state is the record
  \<open>group_info\<close>; the three tables, which the code keeps in one memory-mapped file, are its fields,
  with \<open>None\<close> for an access outside them. Sending packets, compressing the tables and writing the
  file back are left out: they do not change the state.
\<close>

section \<open>The state of a group\<close>

definition TAIR_DATA_NEED_MIGRATE :: int where
  "TAIR_DATA_NEED_MIGRATE = 1"

definition TAIR_CONFIG_MIN_VERSION :: "32 word" where
  "TAIR_CONFIG_MIN_VERSION = 10"


datatype server_status = ALIVE | DOWN | FORCE_DOWN

record server_info =
  server_id :: "64 word"
  last_time :: "32 word"
  status :: server_status

record group_info =
  client_version :: "32 word"
  server_version :: "32 word"
  area_capacity_version :: "32 word"
  migrate_block_count :: int
  hash_table :: "64 word list"
  m_hash_table :: "64 word list"
  d_hash_table :: "64 word list"
  server_bucket_count :: nat
  server_copy_count :: nat
  node_list :: "server_info list"
  need_rebuild_hash_table :: int
  data_need_move :: int
  min_config_version :: "32 word"
  min_data_server_count :: nat
  migrate_machine :: "(64 word, int) smap"
  should_syn_mig_info :: bool
  group_can_work :: bool
  group_is_OK :: bool
  build_strategy :: int
  server_down_time :: int
  diff_ratio :: rat
  group_pos_mask :: "64 word"
  available_server_ids :: "64 word list"
  reported_serverid :: "64 word list"

definition get_hash_table_size :: "group_info \<Rightarrow> nat" where
  "get_hash_table_size g = server_bucket_count g * server_copy_count g"

definition inc_version :: "32 word \<Rightarrow> 32 word \<Rightarrow> 32 word" where
  "inc_version min_version v = (let v' = v + 1 in if min_version > v' then min_version else v')"

definition inc_versions :: "group_info \<Rightarrow> group_info" where
  "inc_versions g =
     g\<lparr>client_version := inc_version (min_config_version g) (client_version g),
       server_version := inc_version (min_config_version g) (server_version g)\<rparr>"

section \<open>Migration\<close>

text \<open>Bucket \<open>i\<close> has to move: another master, or a copy on a server that had none.\<close>

definition migrate_this_bucket :: "group_info \<Rightarrow> nat \<Rightarrow> bool" where
  "migrate_this_bucket g i =
     (let bc = server_bucket_count g; cc = server_copy_count g;
          m = m_hash_table g; d = d_hash_table g in
      m ! i \<noteq> 0 \<and>
      (m ! i \<noteq> d ! i \<or>
       list_ex (\<lambda>j. \<not> list_ex (\<lambda>k. d ! (j * bc + i) = m ! (k * bc + i)) [1..<cc]) [1..<cc]))"

definition fill_migrate_machine :: "group_info \<Rightarrow> int \<times> group_info" where
  "fill_migrate_machine g =
     (case fold (\<lambda>i (n, mm).
          if migrate_this_bucket g i
          then (n + 1, smap_alter 0 (\<lambda>c. c + 1) (m_hash_table g ! i) mm) else (n, mm))
        [0..<server_bucket_count g] (0, []) of
        (n, mm) \<Rightarrow> (n, g\<lparr>migrate_machine := mm\<rparr>))"

definition is_migrating :: "group_info \<Rightarrow> bool" where
  "is_migrating g = (migrate_block_count g \<noteq> -1)"

text \<open>
  The loop over the copies of the bucket; the flag says whether any cell changed. \<open>None\<close> is an
  access outside the tables.
\<close>

definition move_cell ::
  "nat \<Rightarrow> group_info \<Rightarrow> nat \<Rightarrow> bool \<times> 64 word list \<Rightarrow> unit + bool \<times> 64 word list" where
  "move_cell bucket_id g i s =
     (let (ret, m) = s; d = d_hash_table g; idx = i * server_bucket_count g + bucket_id in
      if length m \<le> idx \<or> length d \<le> idx then Inl ()
      else if m ! idx \<noteq> d ! idx then Inr (True, m[idx := d ! idx]) else Inr (ret, m))"

definition move_bucket :: "nat \<Rightarrow> group_info \<Rightarrow> (bool \<times> 64 word list) option" where
  "move_bucket bucket_id g =
     (case foldE (move_cell bucket_id g) [0..<server_copy_count g] (False, m_hash_table g) of
        Inl _ \<Rightarrow> None
      | Inr r \<Rightarrow> Some r)"

text \<open>\<open>None\<close> is also a failed assertion, when the server has nothing left to migrate.\<close>

definition set_migrating_hashtable :: "nat \<Rightarrow> 64 word \<Rightarrow> group_info \<Rightarrow> group_info option" where
  "set_migrating_hashtable bucket_id server g =
     (if bucket_id > server_bucket_count g \<or> \<not> is_migrating g then Some g
      else if length (m_hash_table g) \<le> bucket_id then None
      else if m_hash_table g ! bucket_id \<noteq> server then Some g
      else
        (case move_bucket bucket_id g of
           None \<Rightarrow> None
         | Some (False, m) \<Rightarrow> Some (g\<lparr>m_hash_table := m\<rparr>)
         | Some (True, m) \<Rightarrow>
             (case map_of (migrate_machine g) server of
                None \<Rightarrow> None
              | Some c \<Rightarrow> Some (g\<lparr>
                  m_hash_table := m,
                  migrate_block_count := migrate_block_count g - 1,
                  migrate_machine :=
                    (if c - 1 = 0 then filter (\<lambda>it. fst it \<noteq> server) (migrate_machine g)
                     else smap_upd server (c - 1) (migrate_machine g)),
                  should_syn_mig_info := True\<rparr>))))"

definition do_finish_migrate ::
  "64 word \<Rightarrow> 32 word \<Rightarrow> nat \<Rightarrow> group_info \<Rightarrow> (bool \<times> group_info) option" where
  "do_finish_migrate server version bucket_id g =
     (if data_need_move g \<noteq> TAIR_DATA_NEED_MIGRATE then Some (False, g)
      else if version \<noteq> server_version g then Some (False, g)
      else map_option (\<lambda>g. (True, g)) (set_migrating_hashtable bucket_id server g))"

text \<open>A heartbeat reports the buckets a server has finished; the first report of a server counts.\<close>

definition do_proxy_report :: "64 word \<Rightarrow> nat list \<Rightarrow> group_info \<Rightarrow> group_info option" where
  "do_proxy_report server vec_bucket_no g =
     (if is_migrating g \<and> server \<notin> set (reported_serverid g)
      then (case foldE (\<lambda>i g. case set_migrating_hashtable i server g of
                              None \<Rightarrow> Inl () | Some g \<Rightarrow> Inr g)
              vec_bucket_no (g\<lparr>reported_serverid := set_insert server (reported_serverid g)\<rparr>) of
              Inl _ \<Rightarrow> None
            | Inr g \<Rightarrow> Some g)
      else Some g)"

text \<open>
  \<open>down\<close> says of a server whether it is unknown or down. \<open>None\<close> is the failed assertion that the
  migrated table is the destination table.
\<close>

definition check_migrate_complete ::
  "(64 word \<Rightarrow> bool) \<Rightarrow> group_info \<Rightarrow> (bool \<times> group_info) option" where
  "check_migrate_complete down g =
     (if data_need_move g \<noteq> TAIR_DATA_NEED_MIGRATE \<or> migrate_block_count g = -1 then Some (True, g)
      else if migrate_machine g \<noteq> [] then
        (if list_ex (\<lambda>it. down (fst it)) (migrate_machine g) then Some (True, g)
         else Some (False, g\<lparr>should_syn_mig_info := False\<rparr>))
      else if m_hash_table g \<noteq> d_hash_table g then None
      else Some (True, (inc_versions g)\<lparr>hash_table := d_hash_table g, migrate_block_count := -1,
                         reported_serverid := [], should_syn_mig_info := False\<rparr>))"

definition hard_check_migrate_complete :: "group_info \<Rightarrow> group_info" where
  "hard_check_migrate_complete g =
     (if m_hash_table g = d_hash_table g then g\<lparr>migrate_machine := []\<rparr> else g)"

section \<open>The live servers\<close>

definition find_available_server :: "group_info \<Rightarrow> group_info" where
  "find_available_server g =
     g\<lparr>available_server_ids :=
         fold (\<lambda>node ids. if status node \<noteq> DOWN then set_insert (server_id node) ids else ids)
           (node_list g) []\<rparr>"

text \<open>
  The clock and the liveness of the connection to a server are parameters. A server that has not
  been heard of for half its down time, or was forced down, goes down; the others are the up nodes.
\<close>

definition goes_down :: "int \<Rightarrow> (64 word \<Rightarrow> bool) \<Rightarrow> server_info \<Rightarrow> bool" where
  "goes_down now alive node \<longleftrightarrow>
     uint (last_time node) < now \<and> status node = ALIVE \<and> \<not> alive (server_id node) \<or>
     status node = FORCE_DOWN"

definition get_up_node ::
  "int \<Rightarrow> (64 word \<Rightarrow> bool) \<Rightarrow> group_info \<Rightarrow> 64 word list \<times> group_info" where
  "get_up_node time alive g =
     (let now = time - cdiv (server_down_time g + 1) 2;
          up = filter (\<lambda>node. status node \<noteq> DOWN \<and> \<not> goes_down now alive node) (node_list g)
      in (map server_id up,
          g\<lparr>node_list := map (\<lambda>node. if status node \<noteq> DOWN \<and> goes_down now alive node
                                     then node\<lparr>status := DOWN\<rparr> else node) (node_list g),
            available_server_ids := fold (\<lambda>node. set_insert (server_id node)) up []\<rparr>))"

definition is_need_rebuild :: "int \<Rightarrow> group_info \<Rightarrow> bool" where
  "is_need_rebuild now g =
     (need_rebuild_hash_table g \<noteq> 0 \<and> need_rebuild_hash_table g < now - server_down_time g)"

definition select_build_strategy :: "64 word list \<Rightarrow> group_info \<Rightarrow> int" where
  "select_build_strategy ava_server g =
     (let pos_count = fold (\<lambda>id. smap_alter 0 (\<lambda>c. c + 1) (ucast (id AND group_pos_mask g) :: 32 word))
            ava_server [] in
      if length pos_count \<le> 1 then 1
      else
        (let pmax = fst (largest_room pos_count (0, 0));
             diff = int (length ava_server) - pmax - pmax;
             diff_server = (if diff \<le> 0 then 0 - diff else diff);
             ratio = f32 (f32 (of_int diff_server) / f32 (of_int pmax))
         in if ratio > f32 (diff_ratio g) \<or> length ava_server < server_copy_count g \<or>
               ratio > 4503149267407759 / 4503599627370496
            then 1 else 2))"

section \<open>The rebuild of a group\<close>

text \<open>The tables after a successful build, from the quick table and the destination table.\<close>

definition install_tables ::
  "'x builder_scheme \<Rightarrow> bool \<Rightarrow> hash_table_type \<Rightarrow> hash_table_type \<Rightarrow> group_info \<Rightarrow> group_info" where
  "install_tables b first_run quick dest g =
     (let d = write_hash_table b dest; q = write_hash_table b quick in
      if data_need_move g = TAIR_DATA_NEED_MIGRATE \<and> \<not> first_run then
        (let fix = (\<lambda>i. server_copy_count g \<le> 1 \<and> q ! i \<notin> set (available_server_ids g));
             q' = map (\<lambda>i. if fix i then d ! i else q ! i) [0..<length q]
         in g\<lparr>d_hash_table := d, m_hash_table := q', hash_table := q'\<rparr>)
      else g\<lparr>d_hash_table := d, m_hash_table := d, hash_table := d\<rparr>)"

definition start_migration :: "bool \<Rightarrow> group_info \<Rightarrow> group_info" where
  "start_migration first_run g =
     (case if first_run then (0, g) else fill_migrate_machine g of
        (diff_count, g1) \<Rightarrow>
          (let g2 = inc_versions (g1\<lparr>migrate_block_count := (if diff_count > 0 then diff_count else -1)\<rparr>)
           in g2\<lparr>area_capacity_version :=
                    inc_version (min_config_version g2) (area_capacity_version g2),
                  group_can_work := True, group_is_OK := True\<rparr>))"

text \<open>The first build of a group starts from an empty table.\<close>

definition is_first_run :: "group_info \<Rightarrow> bool" where
  "is_first_run g = list_all (\<lambda>i. m_hash_table g ! i = 0) [0..<get_hash_table_size g]"

text \<open>
  The part of \<open>rebuild\<close> after the builder has been chosen: \<open>b\<close> is the builder with its available
  servers, \<open>build\<close> its virtual \<open>rebuild_table\<close>. \<open>None\<close> is the death of the process in it.
\<close>

definition rebuild_with ::
  "(hash_table_type \<Rightarrow> 'x builder_scheme \<Rightarrow> (int \<times> hash_table_type \<times> 'x builder_scheme) option) \<Rightarrow>
    'x builder_scheme \<Rightarrow> group_info \<Rightarrow> group_info option" where
  "rebuild_with build b g =
     (let first_run = is_first_run g;
          t = load_hash_table b (m_hash_table g);
          (quick_ok, quick, b1) =
            (if data_need_move g = TAIR_DATA_NEED_MIGRATE \<and> server_copy_count g > 1 \<and> \<not> first_run
             then build_quick_table (t, b) else (True, t, b))
      in if \<not> quick_ok then Some (inc_versions (g\<lparr>group_is_OK := False\<rparr>))
         else
           (case build t b1 of
              None \<Rightarrow> None
            | Some (ret, dest, b2) \<Rightarrow>
                Some (if ret = 0
                      then inc_versions (g\<lparr>group_can_work := False, group_is_OK := False\<rparr>)
                      else start_migration first_run (install_tables b2 first_run quick dest g))))"

text \<open>
  \<open>up\<close> are the up nodes, and \<open>m\<close> and \<open>ot\<close> the indeterminate members of a new \<open>table_builder2\<close>. An
  unknown strategy ends the rebuild with nothing done (and, in the code, the lock still held).
\<close>

definition rebuild ::
  "int \<times> int \<times> int \<Rightarrow> int \<times> int \<times> int \<Rightarrow> 64 word list \<Rightarrow> group_info \<Rightarrow> group_info option" where
  "rebuild m ot up g =
     (let strategy = (if build_strategy g = 3 then select_build_strategy up g else build_strategy g) in
      if length up < min_data_server_count g then Some (inc_versions g)
      else if strategy = 1 then
        rebuild_with (\<lambda>t. rebuild_table table_builder1 t True)
          (set_available_server up (set_pos_mask (group_pos_mask g)
             (new_table_builder1 (server_bucket_count g) (server_copy_count g)))) g
      else if strategy = 2 then
        rebuild_with (\<lambda>t. rebuild_table2 t [] True)
          (set_available_server2 up (set_pos_mask (group_pos_mask g)
             (new_table_builder2 (diff_ratio g) (server_bucket_count g) (server_copy_count g) m ot))) g
      else Some g)"

end
