(* ===== verification/Group_Migration.thy ===== *)
theory Group_Migration
  imports Group_Info
begin

text \<open>
  The migration of a group as a state machine. While the counts of the migrating servers agree with
  the buckets in which the migrated table differs from the destination, no message can hurt: the
  assertions of the code hold, every report moves exactly its bucket, and when all buckets have been
  reported the destination table comes into use.
\<close>

section \<open>Cells of a flat table\<close>

abbreviation cell :: "group_info \<Rightarrow> nat \<Rightarrow> nat \<Rightarrow> nat" where
  "cell g l i \<equiv> l * server_bucket_count g + i"

definition wf_group :: "group_info \<Rightarrow> bool" where
  "wf_group g \<longleftrightarrow> 0 < server_copy_count g \<and>
     length (m_hash_table g) = get_hash_table_size g \<and> length (d_hash_table g) = get_hash_table_size g"

lemma cell_less: "l < server_copy_count g \<Longrightarrow> i < server_bucket_count g \<Longrightarrow> cell g l i < get_hash_table_size g"
proof -
  assume "l < server_copy_count g" "i < server_bucket_count g"
  then have "cell g l i < (l + 1) * server_bucket_count g" by simp
  also have "\<dots> \<le> server_copy_count g * server_bucket_count g"
    using \<open>l < server_copy_count g\<close> by (intro mult_le_mono1) simp
  finally show ?thesis by (simp add: get_hash_table_size_def mult.commute)
qed

lemma cell_inject:
  "i < server_bucket_count g \<Longrightarrow> j < server_bucket_count g \<Longrightarrow> cell g l i = cell g k j \<longleftrightarrow> l = k \<and> i = j"
proof -
  assume ij: "i < server_bucket_count g" "j < server_bucket_count g"
  have "l = k \<and> i = j" if "cell g l i = cell g k j"
  proof -
    have "cell g l i div server_bucket_count g = l" "cell g k j div server_bucket_count g = k"
      using ij by simp_all
    then show ?thesis using that by auto
  qed
  then show ?thesis by blast
qed

lemma cell_exists:
  assumes "n < get_hash_table_size g"
  shows "\<exists>l < server_copy_count g. \<exists>i < server_bucket_count g. n = cell g l i"
proof -
  let ?b = "server_bucket_count g"
  have b: "0 < ?b" using assms by (cases "?b = 0") (simp_all add: get_hash_table_size_def)
  have "n div ?b < server_copy_count g"
    using assms b by (simp add: get_hash_table_size_def less_mult_imp_div_less mult.commute)
  moreover have "n mod ?b < ?b" using b by simp
  moreover have "n = cell g (n div ?b) (n mod ?b)" by simp
  ultimately show ?thesis by blast
qed

text \<open>The migrated table differs from the destination in bucket \<open>i\<close>.\<close>

definition differs :: "group_info \<Rightarrow> nat \<Rightarrow> bool" where
  "differs g i \<longleftrightarrow> (\<exists>l < server_copy_count g. m_hash_table g ! cell g l i \<noteq> d_hash_table g ! cell g l i)"

definition pending :: "group_info \<Rightarrow> 64 word \<Rightarrow> nat set" where
  "pending g s = {i. i < server_bucket_count g \<and> differs g i \<and> m_hash_table g ! i = s}"

lemma finite_pending [simp]: "finite (pending g s)"
  by (simp add: pending_def)

lemma no_differs_eq:
  assumes "wf_group g" and "\<And>i. i < server_bucket_count g \<Longrightarrow> \<not> differs g i"
  shows "m_hash_table g = d_hash_table g"
proof (rule nth_equalityI)
  show "length (m_hash_table g) = length (d_hash_table g)" using assms(1) by (simp add: wf_group_def)
  fix n assume "n < length (m_hash_table g)"
  then obtain l i where "l < server_copy_count g" "i < server_bucket_count g" "n = cell g l i"
    using cell_exists [of n g] assms(1) by (auto simp: wf_group_def)
  then show "m_hash_table g ! n = d_hash_table g ! n" using assms(2) by (auto simp: differs_def)
qed

section \<open>The invariant\<close>

definition migration_inv :: "group_info \<Rightarrow> bool" where
  "migration_inv g \<longleftrightarrow> wf_group g \<and>
     (\<forall>s. map_of (migrate_machine g) s =
        (if pending g s = {} then None else Some (int (card (pending g s))))) \<and>
     (is_migrating g \<longrightarrow>
        migrate_block_count g = int (card {i. i < server_bucket_count g \<and> differs g i}))"

text \<open>A migration with nobody left to migrate has reached its destination.\<close>

lemma migration_inv_done:
  assumes "migration_inv g" and "migrate_machine g = []"
  shows "m_hash_table g = d_hash_table g"
proof (rule no_differs_eq)
  show "wf_group g" using assms(1) by (simp add: migration_inv_def)
  fix i assume i: "i < server_bucket_count g"
  have "pending g (m_hash_table g ! i) = {}"
    using assms by (auto simp: migration_inv_def split: if_splits)
  then show "\<not> differs g i" using i by (auto simp: pending_def)
qed

lemma migration_inv_eq:
  assumes "migration_inv g" and "m_hash_table g = d_hash_table g"
  shows "migrate_machine g = []"
proof -
  have "pending g s = {}" for s using assms(2) by (simp add: pending_def differs_def)
  then have "map_of (migrate_machine g) s = None" for s using assms(1) by (simp add: migration_inv_def)
  then show ?thesis by (metis map_of_eq_empty_iff ext)
qed

text \<open>Moving one bucket.\<close>

lemma move_bucket_step:
  assumes wf: "wf_group g" and i: "i < server_bucket_count g" and k: "k \<le> server_copy_count g"
  shows "\<exists>m'. foldE (move_cell i g) [0..<k] (False, m_hash_table g) =
      Inr (\<exists>l < k. m_hash_table g ! cell g l i \<noteq> d_hash_table g ! cell g l i, m') \<and>
    length m' = length (m_hash_table g) \<and>
    (\<forall>n. m' ! n = (if \<exists>l < k. n = cell g l i then d_hash_table g ! n else m_hash_table g ! n))"
  using k
proof (induction k)
  case 0
  then show ?case by simp
next
  case (Suc k)
  let ?ch = "\<lambda>k. \<exists>l < k. m_hash_table g ! cell g l i \<noteq> d_hash_table g ! cell g l i"
  obtain m' where f: "foldE (move_cell i g) [0..<k] (False, m_hash_table g) = Inr (?ch k, m')"
    and len: "length m' = length (m_hash_table g)"
    and nth: "\<And>n. m' ! n = (if \<exists>l < k. n = cell g l i then d_hash_table g ! n else m_hash_table g ! n)"
    using Suc by auto
  have idx: "cell g k i < length m'" "cell g k i < length (d_hash_table g)"
    using cell_less [of k g i] i Suc.prems wf by (simp_all add: len wf_group_def)
  have here: "m' ! cell g k i = m_hash_table g ! cell g k i"
    using cell_inject [OF i i] by (auto simp: nth)
  define m2 where "m2 = (if m_hash_table g ! cell g k i = d_hash_table g ! cell g k i then m'
    else m'[cell g k i := d_hash_table g ! cell g k i])"
  have "move_cell i g k (?ch k, m') = Inr (?ch (Suc k), m2)"
    using idx here unfolding move_cell_def m2_def Let_def by (simp add: less_Suc_eq ex_disj_distrib) blast
  then have "foldE (move_cell i g) [0..<Suc k] (False, m_hash_table g) = Inr (?ch (Suc k), m2)"
    using f by (simp add: foldE_append)
  moreover have "length m2 = length (m_hash_table g)" using len by (simp add: m2_def)
  moreover have "m2 ! n = (if \<exists>l < Suc k. n = cell g l i then d_hash_table g ! n else m_hash_table g ! n)"
    for n
    using here idx(1) by (cases "n = cell g k i") (auto simp: m2_def nth less_Suc_eq)
  ultimately show ?case by blast
qed

lemma move_bucket_moves:
  assumes wf: "wf_group g" and i: "i < server_bucket_count g"
  obtains m' where "move_bucket i g = Some (differs g i, m')"
    "length m' = length (m_hash_table g)"
    "\<And>l j. l < server_copy_count g \<Longrightarrow> j < server_bucket_count g \<Longrightarrow>
      m' ! cell g l j = (if j = i then d_hash_table g ! cell g l j else m_hash_table g ! cell g l j)"
proof -
  obtain m' where f: "foldE (move_cell i g) [0..<server_copy_count g] (False, m_hash_table g) =
      Inr (differs g i, m')" and len: "length m' = length (m_hash_table g)"
    and nth: "\<And>n. m' ! n = (if \<exists>l < server_copy_count g. n = cell g l i then d_hash_table g ! n
        else m_hash_table g ! n)"
    using move_bucket_step [OF wf i order_refl] unfolding differs_def by blast
  show ?thesis
  proof (rule that [OF _ len])
    show "move_bucket i g = Some (differs g i, m')" using f by (simp add: move_bucket_def Let_def)
    show "m' ! cell g l j = (if j = i then d_hash_table g ! cell g l j else m_hash_table g ! cell g l j)"
      if "l < server_copy_count g" "j < server_bucket_count g" for l j
      using that cell_inject [OF that(2) i] by (auto simp: nth)
  qed
qed

lemma map_of_drop: "map_of (filter (\<lambda>it. fst it \<noteq> s) m) k = (if k = s then None else map_of m k)"
  by (induction m) auto

text \<open>The tables and counts after bucket \<open>i\<close> has been moved.\<close>

definition moved :: "group_info \<Rightarrow> nat \<Rightarrow> group_info \<Rightarrow> bool" where
  "moved g i g' \<longleftrightarrow> server_bucket_count g' = server_bucket_count g \<and>
     server_copy_count g' = server_copy_count g \<and> d_hash_table g' = d_hash_table g \<and>
     hash_table g' = hash_table g \<and> server_version g' = server_version g \<and>
     data_need_move g' = data_need_move g \<and> is_migrating g' = is_migrating g \<and>
     length (m_hash_table g') = length (m_hash_table g) \<and>
     (\<forall>l j. l < server_copy_count g \<longrightarrow> j < server_bucket_count g \<longrightarrow> m_hash_table g' ! cell g l j =
        (if j = i then d_hash_table g ! cell g l j else m_hash_table g ! cell g l j))"

lemma moved_differs:
  assumes "moved g i g'" and "j < server_bucket_count g"
  shows "differs g' j \<longleftrightarrow> differs g j \<and> j \<noteq> i"
  using assms by (cases "j = i") (auto simp: moved_def differs_def)

lemma moved_nth:
  "moved g i g' \<Longrightarrow> l < server_copy_count g \<Longrightarrow> j < server_bucket_count g \<Longrightarrow>
     m_hash_table g' ! cell g l j =
       (if j = i then d_hash_table g ! cell g l j else m_hash_table g ! cell g l j)"
  by (simp add: moved_def)

lemma moved_master:
  assumes "moved g i g'" and "j < server_bucket_count g" and "wf_group g" and "j \<noteq> i"
  shows "m_hash_table g' ! j = m_hash_table g ! j"
  using moved_nth [OF assms(1), of 0 j] assms by (simp add: wf_group_def)

lemma moved_pending:
  assumes mv: "moved g i g'" and wf: "wf_group g"
  shows "pending g' s = pending g s - {i}"
proof -
  have "j \<in> pending g' s \<longleftrightarrow> j \<in> pending g s \<and> j \<noteq> i" for j
    using moved_differs [OF mv, of j] moved_master [OF mv _ wf, of j] mv
    by (auto simp: pending_def moved_def)
  then show ?thesis by blast
qed

lemma moved_wf: "moved g i g' \<Longrightarrow> wf_group g \<Longrightarrow> wf_group g'"
  by (simp add: moved_def wf_group_def get_hash_table_size_def)

lemma moved_count:
  assumes mv: "moved g i g'" and i: "i < server_bucket_count g" "differs g i"
  shows "int (card {j. j < server_bucket_count g' \<and> differs g' j}) =
    int (card {j. j < server_bucket_count g \<and> differs g j}) - 1"
proof -
  let ?D = "{j. j < server_bucket_count g \<and> differs g j}"
  have "{j. j < server_bucket_count g' \<and> differs g' j} = ?D - {i}"
    using moved_differs [OF mv] mv by (auto simp: moved_def)
  moreover have "i \<in> ?D" "finite ?D" using i by simp_all
  then have "0 < card ?D" by (auto simp: card_gt_0_iff)
  ultimately show ?thesis using \<open>i \<in> ?D\<close> by (simp add: card_Diff_singleton)
qed

text \<open>A report for a bucket in range never fails, and it moves the bucket if it comes from its master.\<close>

lemma set_migrating_hashtable_step:
  assumes inv: "migration_inv g" and i: "i < server_bucket_count g"
  obtains g' where "set_migrating_hashtable i s g = Some g'" "migration_inv g'"
    "g' = g \<or> moved g i g'"
    "is_migrating g \<Longrightarrow> m_hash_table g ! i = s \<Longrightarrow> moved g i g'"
proof -
  have wf: "wf_group g" using inv by (simp add: migration_inv_def)
  have len: "i < length (m_hash_table g)"
    using cell_less [of 0 g i] i wf by (simp add: wf_group_def)
  consider (ignored) "\<not> is_migrating g \<or> m_hash_table g ! i \<noteq> s"
    | (same) "is_migrating g" "m_hash_table g ! i = s" "\<not> differs g i"
    | (move) "is_migrating g" "m_hash_table g ! i = s" "differs g i" by blast
  then show ?thesis
  proof cases
    case ignored
    then show ?thesis using i len inv by (intro that [of g]) (auto simp: set_migrating_hashtable_def)
  next
    case same
    obtain m' where mb: "move_bucket i g = Some (differs g i, m')"
      and m': "length m' = length (m_hash_table g)"
        "\<And>l j. l < server_copy_count g \<Longrightarrow> j < server_bucket_count g \<Longrightarrow>
          m' ! cell g l j = (if j = i then d_hash_table g ! cell g l j else m_hash_table g ! cell g l j)"
      using move_bucket_moves [OF wf i] by blast
    let ?g = "g\<lparr>m_hash_table := m'\<rparr>"
    have mv: "moved g i ?g" using m' by (simp add: moved_def is_migrating_def)
    have pend: "pending ?g t = pending g t" for t
      using moved_pending [OF mv wf] same(3) by (auto simp: pending_def)
    have diff: "{j. j < server_bucket_count ?g \<and> differs ?g j} = {j. j < server_bucket_count g \<and> differs g j}"
      using moved_differs [OF mv] same(3) by auto
    have "migration_inv ?g"
      using inv moved_wf [OF mv wf] pend diff by (simp add: migration_inv_def is_migrating_def)
    then show ?thesis
      using same mb i len mv by (intro that [of ?g]) (simp_all add: set_migrating_hashtable_def)
  next
    case move
    obtain m' where mb: "move_bucket i g = Some (True, m')"
      and m': "length m' = length (m_hash_table g)"
        "\<And>l j. l < server_copy_count g \<Longrightarrow> j < server_bucket_count g \<Longrightarrow>
          m' ! cell g l j = (if j = i then d_hash_table g ! cell g l j else m_hash_table g ! cell g l j)"
      using move_bucket_moves [OF wf i] move(3) by auto
    let ?c = "int (card (pending g s))"
    have ip: "i \<in> pending g s" using move i by (simp add: pending_def)
    have mm: "map_of (migrate_machine g) s = Some ?c" using inv ip by (auto simp: migration_inv_def)
    define g' where "g' = g\<lparr>m_hash_table := m', migrate_block_count := migrate_block_count g - 1,
      migrate_machine := (if ?c - 1 = 0 then filter (\<lambda>it. fst it \<noteq> s) (migrate_machine g)
        else smap_upd s (?c - 1) (migrate_machine g)), should_syn_mig_info := True\<rparr>"
    have smh: "set_migrating_hashtable i s g = Some g'"
      using move i len mb mm by (simp add: set_migrating_hashtable_def g'_def)
    have "0 < card {j. j < server_bucket_count g \<and> differs g j}" using i move(3) by (auto simp: card_gt_0_iff)
    then have pos: "0 < migrate_block_count g" using inv move(1) by (simp add: migration_inv_def)
    have mv: "moved g i g'" using m' move(1) pos by (simp add: moved_def is_migrating_def g'_def)
    have cnt: "int (card (pending g s - {i})) = ?c - 1"
      using ip card_gt_0_iff [of "pending g s"] by (auto simp: card_Diff_singleton)
    then have emp: "pending g s - {i} = {} \<longleftrightarrow> ?c - 1 = 0" by (metis card_0_eq finite_Diff finite_pending of_nat_0_eq_iff)
    have "map_of (migrate_machine g') t =
        (if pending g' t = {} then None else Some (int (card (pending g' t))))" for t
    proof (cases "t = s")
      case True
      then show ?thesis
        unfolding moved_pending [OF mv wf] True using emp cnt by (simp add: g'_def map_of_drop map_of_smap_upd)
    next
      case False
      then have "pending g t - {i} = pending g t" using move(2) by (auto simp: pending_def)
      then show ?thesis
        unfolding moved_pending [OF mv wf] using False inv
        by (simp add: g'_def map_of_drop map_of_smap_upd migration_inv_def)
    qed
    moreover have "migrate_block_count g' = int (card {j. j < server_bucket_count g' \<and> differs g' j})"
      unfolding moved_count [OF mv i move(3)] using inv move(1) by (simp add: g'_def migration_inv_def)
    ultimately have "migration_inv g'" using moved_wf [OF mv wf] by (simp add: migration_inv_def)
    then show ?thesis using smh mv by (intro that [of g']) simp_all
  qed
qed

section \<open>The start of a migration\<close>

text \<open>
  The code counts a bucket as migrating when its master changes or a copy is on a new server. The
  tables are in order when that catches every bucket in which they differ: no bucket has merely
  exchanged its copies, and none that differs is without a master.
\<close>

definition in_order :: "group_info \<Rightarrow> bool" where
  "in_order g \<longleftrightarrow> (\<forall>i < server_bucket_count g. differs g i \<longrightarrow> migrate_this_bucket g i)"

lemma migrate_this_bucket_differs:
  assumes "wf_group g" and "migrate_this_bucket g i"
  shows "differs g i"
proof (cases "m_hash_table g ! i = d_hash_table g ! i")
  case True
  then obtain j where j: "1 \<le> j" "j < server_copy_count g"
    and "\<not> list_ex (\<lambda>k. d_hash_table g ! cell g j i = m_hash_table g ! cell g k i) [1..<server_copy_count g]"
    using assms(2) by (auto simp: migrate_this_bucket_def Let_def list_ex_iff)
  then have "m_hash_table g ! cell g j i \<noteq> d_hash_table g ! cell g j i"
    unfolding list_ex_iff by (metis atLeastLessThan_iff atLeastLessThan_upt)
  then show ?thesis using j(2) by (auto simp: differs_def)
next
  case False
  then show ?thesis using assms(1) unfolding differs_def wf_group_def by (intro exI [of _ 0]) simp
qed

lemma card_insert_if_less:
  "card {i. i < Suc k \<and> P i} = card {i. i < k \<and> P i} + (if P k then 1 else (0 :: nat))"
proof -
  have "{i. i < Suc k \<and> P i} = (if P k then insert k {i. i < k \<and> P i} else {i. i < k \<and> P i})"
    by (auto simp: less_Suc_eq)
  then show ?thesis by simp
qed

text \<open>The loop of \<open>fill_migrate_machine\<close> over the first \<open>k\<close> buckets counts them by master.\<close>

lemma fill_counts:
  "\<exists>mm. fold (\<lambda>i (n, mm). if P i then (n + 1, smap_alter 0 (\<lambda>c. c + 1) (m ! i) mm) else (n, mm))
      [0..<k] (0, []) = (int (card {i. i < k \<and> P i}), mm) \<and>
    (\<forall>s. map_of mm s = (let c = card {i. i < k \<and> P i \<and> m ! i = s}
      in if c = 0 then None else Some (int c)))"
  for m :: "64 word list"
proof (induction k)
  case 0
  then show ?case by simp
next
  case (Suc k)
  then obtain mm where f: "fold (\<lambda>i (n, mm). if P i then (n + 1, smap_alter 0 (\<lambda>c. c + 1) (m ! i) mm)
      else (n, mm)) [0..<k] (0, []) = (int (card {i. i < k \<and> P i}), mm)"
    and mm: "\<And>s. map_of mm s = (let c = card {i. i < k \<and> P i \<and> m ! i = s}
      in if c = 0 then None else Some (int c))" by blast
  define mm' where "mm' = (if P k then smap_alter 0 (\<lambda>c. c + 1) (m ! k) mm else mm)"
  have "map_of mm' s = (let c = card {i. i < Suc k \<and> P i \<and> m ! i = s}
      in if c = 0 then None else Some (int c))" for s
    unfolding card_insert_if_less [of k "\<lambda>i. P i \<and> m ! i = s"]
    by (auto simp: mm'_def smap_alter_def smap_at_def map_of_smap_upd mm Let_def)
  moreover have "fold (\<lambda>i (n, mm). if P i then (n + 1, smap_alter 0 (\<lambda>c. c + 1) (m ! i) mm) else (n, mm))
      [0..<Suc k] (0, []) = (int (card {i. i < Suc k \<and> P i}), mm')"
    using f by (simp add: mm'_def card_insert_if_less)
  ultimately show ?case by blast
qed

lemma fill_migrate_machine_inv:
  assumes wf: "wf_group g" and ord: "in_order g" and eq: "fill_migrate_machine g = (n, g')"
  shows "n = int (card {i. i < server_bucket_count g \<and> differs g i})"
    and "migration_inv (g'\<lparr>migrate_block_count := (if n > 0 then n else -1)\<rparr>)"
proof -
  let ?P = "migrate_this_bucket g"
  have iff: "i < server_bucket_count g \<and> ?P i \<longleftrightarrow> i < server_bucket_count g \<and> differs g i" for i
    using ord migrate_this_bucket_differs [OF wf] by (auto simp: in_order_def)
  obtain mm where f: "fold (\<lambda>i (n, mm). if ?P i then (n + 1, smap_alter 0 (\<lambda>c. c + 1) (m_hash_table g ! i) mm)
      else (n, mm)) [0..<server_bucket_count g] (0, []) =
      (int (card {i. i < server_bucket_count g \<and> ?P i}), mm)"
    and mm: "\<And>s. map_of mm s = (let c = card {i. i < server_bucket_count g \<and> ?P i \<and> m_hash_table g ! i = s}
      in if c = 0 then None else Some (int c))"
    using fill_counts [of ?P "m_hash_table g" "server_bucket_count g"] by blast
  have g': "g' = g\<lparr>migrate_machine := mm\<rparr>" and n': "n = int (card {i. i < server_bucket_count g \<and> ?P i})"
    using eq unfolding fill_migrate_machine_def f by auto
  show n: "n = int (card {i. i < server_bucket_count g \<and> differs g i})" using n' iff by simp
  let ?g = "g'\<lparr>migrate_block_count := (if n > 0 then n else -1)\<rparr>"
  have fr: "differs ?g i = differs g i" "pending ?g s = pending g s" for i s
    by (simp_all add: g' differs_def pending_def)
  have pend: "{i. i < server_bucket_count g \<and> ?P i \<and> m_hash_table g ! i = s} = pending g s" for s
    using iff by (auto simp: pending_def)
  have "map_of mm s = (if pending g s = {} then None else Some (int (card (pending g s))))" for s
    unfolding mm pend by (simp add: Let_def)
  then show "migration_inv ?g"
    unfolding migration_inv_def fr using wf n by (auto simp: g' wf_group_def get_hash_table_size_def is_migrating_def)
qed

section \<open>The state machine\<close>

text \<open>
  What can happen to a group between two rebuilds: a server reports a finished bucket, a heartbeat
  reports several, and the two periodic checks run. The bucket numbers are below the number of buckets;
  the code lets the number itself through as well, which is treated separately below.
\<close>

inductive migration_step :: "group_info \<Rightarrow> group_info \<Rightarrow> bool" where
  finish: "i < server_bucket_count g \<Longrightarrow> do_finish_migrate s v i g = Some (r, g') \<Longrightarrow>
    migration_step g g'"
| report: "\<forall>i \<in> set is. i < server_bucket_count g \<Longrightarrow> do_proxy_report s is g = Some g' \<Longrightarrow>
    migration_step g g'"
| check: "check_migrate_complete down g = Some (r, g') \<Longrightarrow> migration_step g g'"
| hard_check: "migration_step g (hard_check_migrate_complete g)"

lemma do_finish_migrate_step:
  assumes inv: "migration_inv g" and i: "i < server_bucket_count g"
  obtains r g' where "do_finish_migrate s v i g = Some (r, g')" "migration_inv g'"
    "g' = g \<or> moved g i g'"
    "data_need_move g = TAIR_DATA_NEED_MIGRATE \<Longrightarrow> v = server_version g \<Longrightarrow> is_migrating g \<Longrightarrow>
      m_hash_table g ! i = s \<Longrightarrow> moved g i g'"
proof -
  obtain g' where "set_migrating_hashtable i s g = Some g'" "migration_inv g'" "g' = g \<or> moved g i g'"
    "is_migrating g \<Longrightarrow> m_hash_table g ! i = s \<Longrightarrow> moved g i g'"
    using set_migrating_hashtable_step [OF inv i] by blast
  then show ?thesis
    using inv by (cases "data_need_move g = TAIR_DATA_NEED_MIGRATE \<and> v = server_version g")
      (auto simp: do_finish_migrate_def intro: that [of True g'] that [of False g])
qed

text \<open>What a step keeps of the tables: the destination, and the table in use until it is replaced.\<close>

definition same_goal :: "group_info \<Rightarrow> group_info \<Rightarrow> bool" where
  "same_goal g g' \<longleftrightarrow> server_bucket_count g' = server_bucket_count g \<and>
     server_copy_count g' = server_copy_count g \<and> d_hash_table g' = d_hash_table g \<and>
     (hash_table g' = hash_table g \<or> hash_table g' = d_hash_table g)"

lemma moved_same_goal: "g' = g \<or> moved g i g' \<Longrightarrow> same_goal g g'"
  by (auto simp: same_goal_def moved_def)

lemma do_proxy_report_step:
  assumes inv: "migration_inv g" and "is": "\<forall>i \<in> set is. i < server_bucket_count g"
  obtains g' where "do_proxy_report s is g = Some g'" "migration_inv g'" "same_goal g g'"
proof (cases "is_migrating g \<and> s \<notin> set (reported_serverid g)")
  case True
  let ?g = "g\<lparr>reported_serverid := set_insert s (reported_serverid g)\<rparr>"
  let ?f = "\<lambda>i g. case set_migrating_hashtable i s g of None \<Rightarrow> Inl () | Some g \<Rightarrow> Inr g"
  let ?P = "\<lambda>g'. migration_inv g' \<and> server_bucket_count g' = server_bucket_count g \<and>
      server_copy_count g' = server_copy_count g \<and> d_hash_table g' = d_hash_table g \<and>
      hash_table g' = hash_table g"
  have "\<exists>g'. foldE ?f is ?g = Inr g' \<and> ?P g'"
  proof (rule foldE_total [where P = ?P])
    show "?P ?g"
      using inv by (simp add: migration_inv_def wf_group_def get_hash_table_size_def is_migrating_def
          pending_def differs_def)
    fix i g1 assume i: "i \<in> set is" and p: "?P g1"
    then have "i < server_bucket_count g1" using "is" by simp
    then obtain g' where "set_migrating_hashtable i s g1 = Some g'" "migration_inv g'"
      "g' = g1 \<or> moved g1 i g'"
      using set_migrating_hashtable_step [of g1 i s] p by blast
    then show "\<exists>g'. ?f i g1 = Inr g' \<and> ?P g'" using p by (auto simp: moved_def)
  qed
  then show ?thesis using True that by (auto simp: do_proxy_report_def same_goal_def)
next
  case False
  then show ?thesis using inv that [of g] by (auto simp: do_proxy_report_def same_goal_def)
qed

lemma check_migrate_complete_step:
  assumes inv: "migration_inv g"
  obtains r g' where "check_migrate_complete down g = Some (r, g')" "migration_inv g'" "same_goal g g'"
proof -
  have inv': "migration_inv (g\<lparr>should_syn_mig_info := False\<rparr>)"
    using inv by (simp add: migration_inv_def wf_group_def get_hash_table_size_def is_migrating_def
        pending_def differs_def)
  let ?g = "(inc_versions g)\<lparr>hash_table := d_hash_table g, migrate_block_count := -1,
    reported_serverid := [], should_syn_mig_info := False\<rparr>"
  have fin: "m_hash_table g = d_hash_table g \<and> migration_inv ?g" if "migrate_machine g = []"
    using inv migration_inv_done [OF inv that]
    by (simp add: migration_inv_def inc_versions_def wf_group_def get_hash_table_size_def
        is_migrating_def pending_def differs_def)
  show ?thesis
    using inv inv' fin
    by (cases "data_need_move g = TAIR_DATA_NEED_MIGRATE \<and> migrate_block_count g \<noteq> -1";
        cases "migrate_machine g = []"; cases "list_ex (\<lambda>it. down (fst it)) (migrate_machine g)")
      (auto simp: check_migrate_complete_def same_goal_def inc_versions_def intro: that)
qed

lemma migration_step_inv:
  assumes "migration_step g g'" and inv: "migration_inv g"
  shows "migration_inv g' \<and> same_goal g g'"
  using assms(1)
proof cases
  case (finish i s v r)
  then show ?thesis
    using do_finish_migrate_step [OF inv finish(1), of s v] moved_same_goal [of g' g i] by auto
next
  case (report "is" s)
  then show ?thesis using do_proxy_report_step [OF inv report(1), of s] by auto
next
  case (check down r)
  then show ?thesis using check_migrate_complete_step [OF inv, of down] by auto
next
  case hard_check
  have "hard_check_migrate_complete g = g"
    using migration_inv_eq [OF inv] by (simp add: hard_check_migrate_complete_def)
  then show ?thesis using hard_check inv by (simp add: same_goal_def)
qed

lemma same_goal_trans: "same_goal a b \<Longrightarrow> same_goal b c \<Longrightarrow> same_goal a c"
  by (auto simp: same_goal_def)

lemma migration_steps_inv:
  assumes "migration_step\<^sup>*\<^sup>* g g'" and "migration_inv g"
  shows "migration_inv g' \<and> same_goal g g'"
  using assms
proof (induction rule: rtranclp_induct)
  case base
  then show ?case by (simp add: same_goal_def)
next
  case (step b c)
  then show ?case using migration_step_inv [OF step.hyps(2)] same_goal_trans by blast
qed

lemma start_migration_inv:
  assumes wf: "wf_group g" and ord: "in_order g"
  shows "migration_inv (start_migration False g)"
    and "d_hash_table (start_migration False g) = d_hash_table g"
    and "hash_table (start_migration False g) = hash_table g"
    and "server_bucket_count (start_migration False g) = server_bucket_count g"
proof -
  obtain n g1 where f: "fill_migrate_machine g = (n, g1)" by (cases "fill_migrate_machine g")
  have "migration_inv (g1\<lparr>migrate_block_count := (if n > 0 then n else -1)\<rparr>)"
    using fill_migrate_machine_inv(2) [OF wf ord f] .
  then show "migration_inv (start_migration False g)"
    by (simp add: start_migration_def f Let_def inc_versions_def migration_inv_def wf_group_def
        get_hash_table_size_def is_migrating_def pending_def differs_def)
  show "d_hash_table (start_migration False g) = d_hash_table g"
    "hash_table (start_migration False g) = hash_table g"
    "server_bucket_count (start_migration False g) = server_bucket_count g"
    using f by (auto simp: start_migration_def Let_def inc_versions_def fill_migrate_machine_def
        split: prod.splits)
qed

text \<open>Every bucket of the list reported as finished by the server that was its master in \<open>g\<close>.\<close>

definition finish_buckets :: "group_info \<Rightarrow> nat list \<Rightarrow> unit + group_info" where
  "finish_buckets g bs =
     foldE (\<lambda>i g'. case do_finish_migrate (m_hash_table g ! i) (server_version g) i g' of
              None \<Rightarrow> Inl () | Some (r, g'') \<Rightarrow> Inr g'') bs g"

lemma finish_buckets_run:
  assumes inv: "migration_inv g" and mig: "is_migrating g"
    and need: "data_need_move g = TAIR_DATA_NEED_MIGRATE"
    and bs: "\<forall>i \<in> set bs. i < server_bucket_count g"
  shows "\<exists>g'. finish_buckets g bs = Inr g' \<and> migration_inv g' \<and> is_migrating g' \<and>
    data_need_move g' = data_need_move g \<and> server_version g' = server_version g \<and>
    d_hash_table g' = d_hash_table g \<and> server_bucket_count g' = server_bucket_count g \<and>
    (\<forall>j < server_bucket_count g. j \<in> set bs \<longrightarrow> \<not> differs g' j) \<and>
    (\<forall>j < server_bucket_count g. (differs g' j \<longrightarrow> differs g j) \<and>
       (j \<notin> set bs \<longrightarrow> m_hash_table g' ! j = m_hash_table g ! j))"
  using bs
proof (induction bs rule: rev_induct)
  case Nil
  then show ?case using inv mig by (simp add: finish_buckets_def)
next
  case (snoc i bs)
  then obtain g1 where run: "finish_buckets g bs = Inr g1" and inv1: "migration_inv g1"
    and fr1: "is_migrating g1" "data_need_move g1 = data_need_move g" "server_version g1 = server_version g"
      "d_hash_table g1 = d_hash_table g" "server_bucket_count g1 = server_bucket_count g"
    and d1: "\<And>j. j < server_bucket_count g \<Longrightarrow> j \<in> set bs \<Longrightarrow> \<not> differs g1 j"
      "\<And>j. j < server_bucket_count g \<Longrightarrow> differs g1 j \<Longrightarrow> differs g j"
      "\<And>j. j < server_bucket_count g \<Longrightarrow> j \<notin> set bs \<Longrightarrow> m_hash_table g1 ! j = m_hash_table g ! j"
    by auto
  have i: "i < server_bucket_count g" and i1: "i < server_bucket_count g1" using snoc.prems fr1 by simp_all
  have wf1: "wf_group g1" using inv1 by (simp add: migration_inv_def)
  obtain r g2 where f: "do_finish_migrate (m_hash_table g ! i) (server_version g) i g1 = Some (r, g2)"
    and inv2: "migration_inv g2" and or2: "g2 = g1 \<or> moved g1 i g2"
    and mv: "m_hash_table g1 ! i = m_hash_table g ! i \<Longrightarrow> moved g1 i g2"
    using do_finish_migrate_step [OF inv1 i1, of "m_hash_table g ! i" "server_version g"] need fr1 by metis
  have run2: "finish_buckets g (bs @ [i]) = Inr g2"
    using run f by (simp add: finish_buckets_def foldE_append)
  have gone: "\<not> differs g2 i"
  proof (cases "i \<in> set bs")
    case True
    then show ?thesis using d1(1) [OF i] or2 moved_differs [of g1 i g2 i] i1 by auto
  next
    case False
    then show ?thesis using mv d1(3) [OF i] moved_differs [of g1 i g2 i] i1 by auto
  qed
  have fewer: "differs g2 j \<Longrightarrow> differs g1 j" if "j < server_bucket_count g" for j
    using or2 moved_differs [of g1 i g2 j] that fr1(5) by auto
  have others: "m_hash_table g2 ! j = m_hash_table g1 ! j" if "j < server_bucket_count g" "j \<noteq> i" for j
    using or2 moved_master [of g1 i g2 j] that fr1(5) wf1 by auto
  have fr2: "is_migrating g2" "data_need_move g2 = data_need_move g" "server_version g2 = server_version g"
      "d_hash_table g2 = d_hash_table g" "server_bucket_count g2 = server_bucket_count g"
    using or2 fr1 by (auto simp: moved_def)
  show ?case using run2 inv2 fr2 gone fewer others d1 by (intro exI [of _ g2]) auto
qed

section \<open>Properties\<close>

text \<open>
  A group with two buckets of two copies, in which the bucket 0 gets another master and the bucket 1
  another copy: the state in which the witnesses below apply the theorems.
\<close>

definition ex_group :: "64 word list \<Rightarrow> 64 word list \<Rightarrow> nat \<Rightarrow> nat \<Rightarrow> group_info" where
  "ex_group m d buckets copies =
     \<lparr>client_version = 1, server_version = 1, area_capacity_version = 1, migrate_block_count = -1,
      hash_table = m, m_hash_table = m, d_hash_table = d, server_bucket_count = buckets,
      server_copy_count = copies, node_list = [], need_rebuild_hash_table = 0,
      data_need_move = TAIR_DATA_NEED_MIGRATE, min_config_version = TAIR_CONFIG_MIN_VERSION,
      min_data_server_count = 1, migrate_machine = [], should_syn_mig_info = False,
      group_can_work = True, group_is_OK = True, build_strategy = 1, server_down_time = 4,
      diff_ratio = 3 / 5, group_pos_mask = 1, available_server_ids = [], reported_serverid = []\<rparr>"

definition ex_migration :: group_info where
  "ex_migration = ex_group [1, 2, 3, 1] [4, 2, 3, 4] 2 2"

lemma ex_migration_facts:
  "wf_group ex_migration" "server_bucket_count ex_migration = 2"
  "d_hash_table ex_migration = [4, 2, 3, 4]" "hash_table ex_migration = [1, 2, 3, 1]"
  "data_need_move (start_migration False ex_migration) = TAIR_DATA_NEED_MIGRATE"
  "is_migrating (start_migration False ex_migration)"
  by code_simp+

lemma ex_migration_in_order: "in_order ex_migration"
proof -
  have "migrate_this_bucket ex_migration 0 \<and> migrate_this_bucket ex_migration 1" by code_simp
  then show ?thesis by (auto simp: in_order_def ex_migration_facts less_2_cases_iff)
qed

text \<open>
  C5. Take the start of a migration with the tables in order, that is, with every bucket that differs
  counted as migrating. Whatever reports, heartbeats and checks follow, as long as the reported bucket
  numbers are below the number of buckets, the counts of the migrating servers stay exact: no assertion in the handling of a further report,
  heartbeat or check can fail, the destination does not change, and the table in use is the old one
  or the destination.
\<close>

theorem migration_safe:
  assumes wf: "wf_group g" and ord: "in_order g"
    and run: "migration_step\<^sup>*\<^sup>* (start_migration False g) g'"
  shows "migration_inv g' \<and> d_hash_table g' = d_hash_table g \<and>
    hash_table g' \<in> {hash_table g, d_hash_table g} \<and>
    (\<forall>s v i. i < server_bucket_count g \<longrightarrow> do_finish_migrate s v i g' \<noteq> None) \<and>
    (\<forall>s is. (\<forall>i \<in> set is. i < server_bucket_count g) \<longrightarrow> do_proxy_report s is g' \<noteq> None) \<and>
    (\<forall>down. check_migrate_complete down g' \<noteq> None)"
proof -
  note start = start_migration_inv [OF wf ord]
  have inv: "migration_inv g'" and goal: "same_goal (start_migration False g) g'"
    using migration_steps_inv [OF run start(1)] by simp_all
  have bc: "server_bucket_count g' = server_bucket_count g" using goal start by (simp add: same_goal_def)
  have "do_finish_migrate s v i g' \<noteq> None" if "i < server_bucket_count g" for s v i
    by (rule do_finish_migrate_step [OF inv, of i s v]) (simp_all add: that bc)
  moreover have "do_proxy_report s is g' \<noteq> None" if "\<forall>i \<in> set is. i < server_bucket_count g" for s "is"
    by (rule do_proxy_report_step [OF inv, of "is" s]) (simp_all add: that bc)
  moreover have "check_migrate_complete down g' \<noteq> None" for down
    by (rule check_migrate_complete_step [OF inv, of down]) simp
  ultimately show ?thesis using inv goal start by (auto simp: same_goal_def)
qed

theorem migration_safe_witness:
  "migration_inv (start_migration False ex_migration) \<and>
   check_migrate_complete (\<lambda>_. False) (start_migration False ex_migration) \<noteq> None"
  using migration_safe [OF ex_migration_facts(1) ex_migration_in_order, of "start_migration False ex_migration"]
  by blast

text \<open>
  C8. A migration ends: once every bucket that differs has been reported by its master, in any
  order and however often, the next check puts the destination table into use and closes the
  migration.
\<close>

theorem migration_completes:
  assumes inv: "migration_inv g" and mig: "is_migrating g"
    and need: "data_need_move g = TAIR_DATA_NEED_MIGRATE"
    and bs: "\<forall>i \<in> set bs. i < server_bucket_count g"
    and all: "\<forall>i < server_bucket_count g. differs g i \<longrightarrow> i \<in> set bs"
  shows "\<exists>g1 g2. finish_buckets g bs = Inr g1 \<and> check_migrate_complete down g1 = Some (True, g2) \<and>
    hash_table g2 = d_hash_table g \<and> \<not> is_migrating g2"
proof -
  obtain g1 where run: "finish_buckets g bs = Inr g1" and inv1: "migration_inv g1" and mig1: "is_migrating g1"
    and need1: "data_need_move g1 = data_need_move g" and d1: "d_hash_table g1 = d_hash_table g"
    and "server_bucket_count g1 = server_bucket_count g"
    and "\<And>j. j < server_bucket_count g \<Longrightarrow> j \<in> set bs \<Longrightarrow> \<not> differs g1 j"
      "\<And>j. j < server_bucket_count g \<Longrightarrow> differs g1 j \<Longrightarrow> differs g j"
    using finish_buckets_run [OF inv mig need bs] by blast
  then have "\<not> differs g1 j" if "j < server_bucket_count g1" for j using all that by metis
  moreover have "wf_group g1" using inv1 by (simp add: migration_inv_def)
  ultimately have eq: "m_hash_table g1 = d_hash_table g1" using no_differs_eq by blast
  then have "migrate_machine g1 = []" using migration_inv_eq [OF inv1] by blast
  then show ?thesis
    using run eq mig1 need need1 d1 by (simp add: check_migrate_complete_def is_migrating_def inc_versions_def)
qed

theorem migration_completes_witness:
  "\<exists>g1 g2. finish_buckets (start_migration False ex_migration) [1, 0] = Inr g1 \<and>
     check_migrate_complete (\<lambda>_. False) g1 = Some (True, g2) \<and> hash_table g2 = [4, 2, 3, 4]"
proof -
  note start = start_migration_inv [OF ex_migration_facts(1) ex_migration_in_order]
  show ?thesis
    using migration_completes [OF start(1) ex_migration_facts(6,5), of "[1, 0]" "\<lambda>_. False"]
    by (auto simp: start ex_migration_facts less_2_cases_iff)
qed

text \<open>
  C33. The range check on a reported bucket is off by one: the number \<open>bucket_count\<close> passes it, and
  handling a report for it from the server in that cell reaches outside the tables.
\<close>

theorem bucket_count_out_of_range:
  assumes wf: "wf_group g" and mig: "is_migrating g" and c: "2 \<le> server_copy_count g"
    and b: "0 < server_bucket_count g" and s: "m_hash_table g ! server_bucket_count g = s"
  shows "set_migrating_hashtable (server_bucket_count g) s g = None"
proof -
  let ?b = "server_bucket_count g"
  define l where "l = server_copy_count g - 1"
  have l: "server_copy_count g = Suc l" "1 \<le> l" using c by (simp_all add: l_def)
  have "length (m_hash_table g) = get_hash_table_size g" using wf by (simp add: wf_group_def)
  have keep: "length (snd s') = length (m_hash_table g)"
    if "foldE (move_cell ?b g) [0..<l] (False, m_hash_table g) = Inr s'" for s'
    by (rule foldE_invariant [where P = "\<lambda>s. length (snd s) = length (m_hash_table g)", OF _ _ that])
      (auto simp: move_cell_def Let_def split: if_splits)
  have last: "move_cell ?b g l s' = Inl ()" if "length (snd s') = length (m_hash_table g)" for s'
    using that wf l(1)
    by (cases s') (simp add: move_cell_def wf_group_def get_hash_table_size_def mult.commute)
  have "foldE (move_cell ?b g) [0..<Suc l] (False, m_hash_table g) = Inl ()"
    using keep last by (auto simp: foldE_append split: sum.split)
  then have "move_bucket ?b g = None" by (simp add: move_bucket_def l(1))
  moreover have "?b < length (m_hash_table g)"
    using wf b l(2) by (simp add: wf_group_def get_hash_table_size_def l(1))
  ultimately show ?thesis using mig s by (simp add: set_migrating_hashtable_def)
qed

theorem bucket_count_out_of_range_witness:
  "set_migrating_hashtable 2 3 (start_migration False ex_migration) = None"
proof -
  let ?g = "start_migration False ex_migration"
  have "wf_group ?g" "2 \<le> server_copy_count ?g" "server_bucket_count ?g = 2" "m_hash_table ?g ! 2 = 3"
    by code_simp+
  then show ?thesis using bucket_count_out_of_range [of ?g 3] ex_migration_facts(6) by simp
qed

section \<open>Buckets that are not counted\<close>

text \<open>
  A bucket that differs and is not counted as migrating is never moved. The reports for the counted
  buckets then have the effect they would have if the destination agreed with the migrated table in all
  other buckets.
\<close>

definition counted_target :: "group_info \<Rightarrow> 64 word list" where
  "counted_target g = map (\<lambda>n. if migrate_this_bucket g (n mod server_bucket_count g) then d_hash_table g ! n
     else m_hash_table g ! n) [0..<get_hash_table_size g]"

abbreviation retarget :: "64 word list \<Rightarrow> group_info \<Rightarrow> group_info" where
  "retarget d g \<equiv> g\<lparr>d_hash_table := d\<rparr>"

lemma length_counted_target [simp]: "length (counted_target g) = get_hash_table_size g"
  by (simp add: counted_target_def)

lemma counted_target_nth:
  assumes "l < server_copy_count g" and "i < server_bucket_count g"
  shows "counted_target g ! cell g l i =
    (if migrate_this_bucket g i then d_hash_table g ! cell g l i else m_hash_table g ! cell g l i)"
  using cell_less [OF assms] assms(2) by (simp add: counted_target_def)

lemma foldE_cong: "(\<And>x s. x \<in> set xs \<Longrightarrow> f x s = h x s) \<Longrightarrow> foldE f xs s = foldE h xs s"
  by (induction xs arbitrary: s) (auto split: sum.splits)

definition agrees :: "nat \<Rightarrow> 64 word list \<Rightarrow> group_info \<Rightarrow> bool" where
  "agrees i d g \<longleftrightarrow> length d = length (d_hash_table g) \<and>
     (\<forall>l < server_copy_count g. d ! cell g l i = d_hash_table g ! cell g l i)"

lemma set_migrating_retarget:
  assumes "agrees i d g"
  shows "set_migrating_hashtable i s (retarget d g) = map_option (retarget d) (set_migrating_hashtable i s g)"
proof -
  have "foldE (move_cell i (retarget d g)) [0..<server_copy_count g] x = foldE (move_cell i g) [0..<server_copy_count g] x" for x
    using assms by (intro foldE_cong) (auto simp: move_cell_def agrees_def Let_def)
  then have "move_bucket i (retarget d g) = move_bucket i g"
    by (simp add: move_bucket_def)
  then show ?thesis
    by (auto simp: set_migrating_hashtable_def is_migrating_def split: option.splits bool.splits)
qed

lemma set_migrating_frame:
  assumes "set_migrating_hashtable i s g = Some g'"
  shows "d_hash_table g' = d_hash_table g \<and> server_copy_count g' = server_copy_count g \<and> server_bucket_count g' = server_bucket_count g"
  using assms by (auto simp: set_migrating_hashtable_def split: if_splits option.splits bool.splits)

lemma finish_buckets_frame:
  assumes "finish_buckets g bs = Inr g'"
  shows "d_hash_table g' = d_hash_table g"
proof (rule foldE_invariant [where P = "\<lambda>x. d_hash_table x = d_hash_table g", OF refl _ assms [unfolded finish_buckets_def]])
  fix i x y assume "d_hash_table x = d_hash_table g"
    and "(case do_finish_migrate (m_hash_table g ! i) (server_version g) i x of None \<Rightarrow> Inl () | Some (r, z) \<Rightarrow> Inr z) = Inr y"
  then show "d_hash_table y = d_hash_table g"
    using set_migrating_frame [of i "m_hash_table g ! i" x]
    by (auto simp: do_finish_migrate_def split: if_splits option.splits)
qed

lemma finish_buckets_retarget:
  assumes "\<forall>i \<in> set bs. agrees i d g"
  shows "finish_buckets (retarget d g) bs = (case finish_buckets g bs of Inl e \<Rightarrow> Inl e | Inr g' \<Rightarrow> Inr (retarget d g'))"
proof -
  let ?f = "\<lambda>i g'. case do_finish_migrate (m_hash_table g ! i) (server_version g) i g' of None \<Rightarrow> Inl () | Some (r, g'') \<Rightarrow> Inr g''"
  have step: "?f i (retarget d x) = (case ?f i x of Inl e \<Rightarrow> Inl e | Inr y \<Rightarrow> Inr (retarget d y))" if "agrees i d x" for i x
    using set_migrating_retarget [OF that, of "m_hash_table g ! i"]
    by (auto simp: do_finish_migrate_def split: option.splits)
  have frame: "agrees j d x \<longleftrightarrow> agrees j d y" if "?f i x = Inr y" for i j x y
    using that set_migrating_frame [of i "m_hash_table g ! i" x]
    by (auto simp: do_finish_migrate_def agrees_def split: if_splits option.splits)
  have "foldE ?f bs (retarget d x) = (case foldE ?f bs x of Inl e \<Rightarrow> Inl e | Inr y \<Rightarrow> Inr (retarget d y))"
    if "\<forall>i \<in> set bs. agrees i d x" for x
    using that
  proof (induction bs arbitrary: x)
    case (Cons i bs)
    show ?case
    proof (cases "?f i x")
      case (Inr y)
      then have "\<forall>j \<in> set bs. agrees j d y"
        using Cons.prems frame [OF Inr] by simp
      then show ?thesis
        using Cons.IH [of y] step [of i x] Cons.prems Inr by simp
    qed (use step [of i x] Cons.prems in simp)
  qed simp
  then show ?thesis
    using assms by (simp add: finish_buckets_def)
qed

lemma counted_target_group:
  assumes "wf_group g"
  defines "g' \<equiv> retarget (counted_target g) g"
  shows "wf_group g'" and "in_order g'" and "i < server_bucket_count g \<Longrightarrow> migrate_this_bucket g' i = migrate_this_bucket g i"
    and "start_migration False g' = retarget (counted_target g) (start_migration False g)"
proof -
  show wf: "wf_group g'"
    using assms(1) by (simp add: g'_def wf_group_def get_hash_table_size_def)
  have diff: "\<not> differs g' i" if "i < server_bucket_count g" "\<not> migrate_this_bucket g i" for i
    using that counted_target_nth [OF _ that(1)] by (simp add: differs_def g'_def)
  have same: "migrate_this_bucket g' i = migrate_this_bucket g i" if "i < server_bucket_count g" for i
  proof (cases "migrate_this_bucket g i")
    case True
    have "counted_target g ! cell g l i = d_hash_table g ! cell g l i" if "l < server_copy_count g" for l
      using counted_target_nth [OF that \<open>i < server_bucket_count g\<close>] True by simp
    moreover from this [of 0] have "counted_target g ! i = d_hash_table g ! i"
      using assms(1) by (simp add: wf_group_def)
    ultimately show ?thesis
      by (simp add: migrate_this_bucket_def g'_def Let_def list_ex_iff)
  next
    case False
    then show ?thesis
      using diff [OF that] migrate_this_bucket_differs [OF wf] by blast
  qed
  then show "i < server_bucket_count g \<Longrightarrow> migrate_this_bucket g' i = migrate_this_bucket g i" .
  show "in_order g'"
    using diff same by (auto simp: in_order_def g'_def)
  have fr: "server_bucket_count g' = server_bucket_count g" "m_hash_table g' = m_hash_table g"
    by (simp_all add: g'_def)
  have eq: "fold (\<lambda>i (n, mm). if migrate_this_bucket g' i then (n + 1, smap_alter 0 (\<lambda>c. c + 1) (m_hash_table g ! i) mm) else (n, mm))
        [0..<server_bucket_count g] (0, []) =
      fold (\<lambda>i (n, mm). if migrate_this_bucket g i then (n + 1, smap_alter 0 (\<lambda>c. c + 1) (m_hash_table g ! i) mm) else (n, mm))
        [0..<server_bucket_count g] (0 :: int, [] :: (64 word \<times> int) list)"
    by (intro fold_cong) (auto simp: same)
  have "fill_migrate_machine g' = (case fill_migrate_machine g of (n, h) \<Rightarrow> (n, retarget (counted_target g) h))"
    unfolding fill_migrate_machine_def fr eq by (auto simp: g'_def split: prod.splits)
  then show "start_migration False g' = retarget (counted_target g) (start_migration False g)"
    by (auto simp: start_migration_def inc_versions_def Let_def split: prod.splits)
qed

text \<open>
  C34. Take tables in which some bucket migrates, and some other bucket keeps its master and has the same
  servers for its further copies in another order. That bucket is not counted as migrating although
  the tables differ in it: when all counted buckets have been reported by their masters, in any order,
  nobody is left to migrate and the check for the end of the migration fails its assertion that the
  tables are equal.
\<close>

theorem exchanged_copies_fail_check:
  assumes wf: "wf_group g" and need: "data_need_move g = TAIR_DATA_NEED_MIGRATE"
    and i: "i < server_bucket_count g" "m_hash_table g ! i = d_hash_table g ! i" "differs g i"
      "\<forall>l \<in> {1..<server_copy_count g}. \<exists>k \<in> {1..<server_copy_count g}. d_hash_table g ! cell g l i = m_hash_table g ! cell g k i"
    and bs: "set bs = {j. j < server_bucket_count g \<and> migrate_this_bucket g j}" "bs \<noteq> []"
  shows "\<exists>g1. finish_buckets (start_migration False g) bs = Inr g1 \<and> migrate_machine g1 = [] \<and>
     check_migrate_complete down g1 = None"
proof -
  let ?d = "counted_target g" and ?g = "start_migration False g"
  note ct = counted_target_group [OF wf]
  have start: "migration_inv (retarget ?d ?g)" "server_bucket_count ?g = server_bucket_count g"
    using start_migration_inv [OF ct(1,2)] unfolding ct(4) by simp_all
  have fr: "data_need_move ?g = data_need_move g" "server_copy_count ?g = server_copy_count g"
      "m_hash_table ?g = m_hash_table g" "d_hash_table ?g = d_hash_table g"
    by (auto simp: start_migration_def fill_migrate_machine_def inc_versions_def Let_def split: prod.splits)
  have mig: "is_migrating (retarget ?d ?g)"
  proof -
    have "fst (fill_migrate_machine g) = int (card (set bs))"
      using fill_counts [of "migrate_this_bucket g" "m_hash_table g" "server_bucket_count g"]
      unfolding bs(1) fill_migrate_machine_def by (auto split: prod.splits)
    moreover have "0 < card (set bs)"
      using bs(2) by (simp add: card_gt_0_iff)
    ultimately show ?thesis
      by (auto simp: start_migration_def is_migrating_def inc_versions_def Let_def split: prod.splits)
  qed
  have agree: "\<forall>j \<in> set bs. agrees j ?d ?g"
    using wf unfolding bs(1) by (auto simp: agrees_def fr start(2) counted_target_nth wf_group_def)
  have "\<forall>j \<in> set bs. j < server_bucket_count (retarget ?d ?g)"
    using bs(1) start(2) by simp
  then obtain h where h: "finish_buckets (retarget ?d ?g) bs = Inr h" "migration_inv h" "is_migrating h"
      "data_need_move h = data_need_move g" "d_hash_table h = ?d" "server_bucket_count h = server_bucket_count g"
      "\<And>j. j < server_bucket_count g \<Longrightarrow> j \<in> set bs \<Longrightarrow> \<not> differs h j"
      "\<And>j. j < server_bucket_count g \<Longrightarrow> differs h j \<Longrightarrow> differs (retarget ?d ?g) j"
    using finish_buckets_run [OF start(1) mig, of bs] need fr(1) start(2) by auto
  obtain g1 where g1: "finish_buckets ?g bs = Inr g1" "h = retarget ?d g1"
    using h(1) unfolding finish_buckets_retarget [OF agree] by (auto split: sum.splits)
  have "\<not> differs (retarget ?d ?g) j" if "j < server_bucket_count g" "j \<notin> set bs" for j
    using that bs(1) counted_target_nth [of _ g j] by (simp add: differs_def fr start(2))
  then have "\<not> differs h j" if "j < server_bucket_count g" for j
    using h(7,8) [OF that] that by blast
  then have eq: "m_hash_table h = ?d"
    using no_differs_eq [of h] h(2,5,6) by (auto simp: migration_inv_def)
  then have idle: "migrate_machine g1 = []" "m_hash_table g1 = ?d"
    using migration_inv_eq [OF h(2)] h(5) g1(2) by simp_all
  have d1: "d_hash_table g1 = d_hash_table g"
    using finish_buckets_frame [OF g1(1)] fr(4) by simp
  have "\<not> migrate_this_bucket g i"
    using i(2,4) by (auto simp: migrate_this_bucket_def Let_def list_ex_iff)
  then have "?d \<noteq> d_hash_table g"
    using i(3) counted_target_nth [OF _ i(1)] by (auto simp: differs_def)
  then show ?thesis
    using g1 idle d1 h(3,4) need by (simp add: check_migrate_complete_def is_migrating_def)
qed

text \<open>Two buckets of three copies: bucket 0 gets another master, the two further copies of bucket 1 change places.\<close>

definition ex_exchange :: group_info where
  "ex_exchange = ex_group [1, 2, 3, 1, 5, 5] [4, 2, 3, 5, 5, 1] 2 3"

theorem exchanged_copies_fail_check_witness:
  "\<exists>g1. finish_buckets (start_migration False ex_exchange) [0] = Inr g1 \<and> check_migrate_complete (\<lambda>_. False) g1 = None"
proof -
  have f: "wf_group ex_exchange" "data_need_move ex_exchange = TAIR_DATA_NEED_MIGRATE" "server_bucket_count ex_exchange = 2"
      "server_copy_count ex_exchange = 3" "m_hash_table ex_exchange ! 1 = d_hash_table ex_exchange ! 1"
      "migrate_this_bucket ex_exchange 0" "\<not> migrate_this_bucket ex_exchange 1"
    by code_simp+
  have "differs ex_exchange 1"
    unfolding differs_def by (rule exI [of _ 1]) code_simp
  moreover have "\<forall>l \<in> {1..<server_copy_count ex_exchange}. \<exists>k \<in> {1..<server_copy_count ex_exchange}.
      d_hash_table ex_exchange ! cell ex_exchange l 1 = m_hash_table ex_exchange ! cell ex_exchange k 1"
    by code_simp
  moreover have "{j. j < server_bucket_count ex_exchange \<and> migrate_this_bucket ex_exchange j} = set [0]"
    using f(3,6,7) by (auto simp: less_2_cases_iff)
  ultimately show ?thesis
    using exchanged_copies_fail_check [OF f(1,2), of 1 "[0]" "\<lambda>_. False"] f(3,5) by auto
qed

end
