(* ===== verification/Group_Rebuild.thy ===== *)
theory Group_Rebuild
  imports Group_Migration
begin

unbundle bit_operations_syntax

text \<open>
  What a rebuild does to the tables of a group: the tables as the builder loads and writes them, the
  servers it makes available, and that after a rebuild with the load-balancing strategy every bucket
  of the table in use has a live master and every cell of the destination a live server.
\<close>

section \<open>Loading and writing a table\<close>

lemma load_hash_table_wf: "wf_table b (load_hash_table b p)"
  by (auto simp: wf_table_def load_hash_table_def)

lemma load_hash_table_nth:
  "l < copy_count b \<Longrightarrow> i < bucket_count b \<Longrightarrow>
     load_hash_table b p ! l ! i =
       (p ! (l * bucket_count b + i), ucast (p ! (l * bucket_count b + i) AND pos_mask b))"
  by (simp add: load_hash_table_def Let_def)

lemma concat_uniform:
  assumes "\<forall>x \<in> set xs. length x = n"
  shows "length (concat xs) = length xs * n"
    and "l < length xs \<Longrightarrow> i < n \<Longrightarrow> concat xs ! (l * n + i) = xs ! l ! i"
proof -
  show len: "length (concat xs) = length xs * n" using assms by (induction xs) auto
  show "concat xs ! (l * n + i) = xs ! l ! i" if "l < length xs" "i < n"
    using assms that
  proof (induction xs arbitrary: l)
    case Nil
    then show ?case by simp
  next
    case (Cons x xs)
    then show ?case by (cases l) (auto simp: nth_append add.assoc)
  qed
qed

lemma write_hash_table_nth:
  assumes "wf_table b t"
  shows "length (write_hash_table b t) = copy_count b * bucket_count b"
    and "l < copy_count b \<Longrightarrow> i < bucket_count b \<Longrightarrow>
      write_hash_table b t ! (l * bucket_count b + i) = fst (t ! l ! i)"
proof -
  let ?rows = "map (\<lambda>line. map (\<lambda>i. fst (line ! i)) [0..<bucket_count b]) t"
  have u: "\<forall>x \<in> set ?rows. length x = bucket_count b" by simp
  show "length (write_hash_table b t) = copy_count b * bucket_count b"
    using concat_uniform(1) [OF u] assms by (simp add: write_hash_table_def wf_table_def)
  show "write_hash_table b t ! (l * bucket_count b + i) = fst (t ! l ! i)"
    if "l < copy_count b" "i < bucket_count b"
    using concat_uniform(2) [OF u, of l i] assms that by (simp add: write_hash_table_def wf_table_def)
qed

text \<open>
  C20. Writing a table that has been loaded gives back the array it was loaded from.
\<close>

theorem write_load_hash_table:
  assumes "length p = copy_count b * bucket_count b"
  shows "write_hash_table b (load_hash_table b p) = p"
proof (rule nth_equalityI)
  note w = write_hash_table_nth [OF load_hash_table_wf [of b p]]
  show "length (write_hash_table b (load_hash_table b p)) = length p" using w(1) assms by simp
  fix n assume "n < length (write_hash_table b (load_hash_table b p))"
  then have n: "n < copy_count b * bucket_count b" using w(1) by simp
  let ?l = "n div bucket_count b" and ?i = "n mod bucket_count b"
  have b: "0 < bucket_count b" using n by (cases "bucket_count b = 0") simp_all
  have li: "?l < copy_count b" "?i < bucket_count b" using n b by (simp_all add: less_mult_imp_div_less)
  have "write_hash_table b (load_hash_table b p) ! (?l * bucket_count b + ?i) =
      fst (load_hash_table b p ! ?l ! ?i)"
    using li by (rule w(2))
  also have "\<dots> = p ! (?l * bucket_count b + ?i)" unfolding load_hash_table_nth [OF li] by (rule fst_conv)
  finally show "write_hash_table b (load_hash_table b p) ! n = p ! n" by simp
qed

theorem write_load_hash_table_witness:
  "write_hash_table ex_builder (load_hash_table ex_builder [9, 1, 2, 9]) = [9, 1, 2, 9]"
  by (rule write_load_hash_table) (simp add: ex_fields)

section \<open>The available servers\<close>

lemma set_available_server_fields:
  "available_server (set_available_server up b) =
     fold (\<lambda>id. set_insert (id, ucast (id AND pos_mask b))) up []"
  "bucket_count (set_available_server up b) = bucket_count b"
  "copy_count (set_available_server up b) = copy_count b"
  "pos_mask (set_available_server up b) = pos_mask b"
  by (simp_all add: set_available_server_def)

lemma fold_set_insert:
  "set (fold (\<lambda>x. set_insert (f x)) xs ys) = set ys \<union> f ` set xs"
  "distinct ys \<Longrightarrow> distinct (fold (\<lambda>x. set_insert (f x)) xs ys)"
  by (induction xs arbitrary: ys) (auto simp: std_simps distinct_set_insert)

lemma set_available_server_ok:
  assumes "0 \<notin> set up" and "copy_count b \<le> card (set up)"
  shows "servers_ok (set_available_server up b)"
    and "fst ` set (available_server (set_available_server up b)) = set up"
proof -
  let ?pos = "\<lambda>id. (id, ucast (id AND pos_mask b)) :: server_id_type"
  let ?A = "available_server (set_available_server up b)"
  have A: "set ?A = ?pos ` set up" "distinct ?A"
    by (simp_all add: set_available_server_fields fold_set_insert)
  have inj: "inj_on fst (set ?A)" by (auto simp: A inj_on_def)
  show ids: "fst ` set ?A = set up" by (simp add: A image_image)
  have "length ?A = card (set ?A)" using A(2) by (simp add: distinct_card)
  also have "\<dots> = card (set up)" using card_image [OF inj] ids by simp
  finally show "servers_ok (set_available_server up b)"
    using assms A(2) inj ids
    by (simp add: servers_ok_def distinct_map INVALID_FLAG_def set_available_server_fields)
qed

section \<open>The tables after a rebuild\<close>

text \<open>
  Every copy of every bucket of the flat table \<open>p\<close> is on one of the servers \<open>up\<close>, and no two copies
  of a bucket are on the same server.
\<close>

definition table_good :: "group_info \<Rightarrow> 64 word list \<Rightarrow> 64 word list \<Rightarrow> bool" where
  "table_good g up p \<longleftrightarrow> length p = get_hash_table_size g \<and>
     (\<forall>i < server_bucket_count g. \<forall>l < server_copy_count g. p ! cell g l i \<in> set up \<and>
        (\<forall>k < server_copy_count g. k \<noteq> l \<longrightarrow> p ! cell g k i \<noteq> p ! cell g l i))"

lemma write_good:
  assumes good: "wf_table b t \<and> (\<forall>j < bucket_count b. bucket_good b t j)"
    and dims: "bucket_count b = server_bucket_count g" "copy_count b = server_copy_count g"
    and ids: "fst ` set (available_server b) = set up"
  shows "table_good g up (write_hash_table b t)"
proof -
  note w = write_hash_table_nth [of b t, unfolded dims]
  have wf: "wf_table b t" using good by simp
  have cells: "write_hash_table b t ! cell g l i = fst (t ! l ! i)"
    if "l < server_copy_count g" "i < server_bucket_count g" for l i
    using w(2) [OF wf] that by simp
  have live: "fst (t ! l ! i) \<in> set up" if "l < server_copy_count g" "i < server_bucket_count g" for l i
  proof -
    have "is_node_availble b (t ! l ! i)" using good that by (simp add: bucket_good_def dims)
    then have "t ! l ! i \<in> set (available_server b)" by (simp add: is_node_availble_def split: if_splits)
    then have "fst (t ! l ! i) \<in> fst ` set (available_server b)" by (rule imageI)
    then show ?thesis using ids by simp
  qed
  have "fst (t ! k ! i) \<noteq> fst (t ! l ! i)"
    if "l < server_copy_count g" "k < server_copy_count g" "i < server_bucket_count g" "k \<noteq> l" for l k i
    using good that by (simp add: bucket_good_def dims)
  then show ?thesis
    using w(1) [OF wf] cells live by (simp add: table_good_def get_hash_table_size_def mult.commute)
qed

lemma write_masters:
  assumes wf: "wf_table b t" and dims: "bucket_count b = server_bucket_count g" "copy_count b = server_copy_count g"
    and c: "0 < server_copy_count g" and i: "i < server_bucket_count g"
    and av: "is_node_availble b (t ! 0 ! i)" and ids: "fst ` set (available_server b) = set up"
  shows "write_hash_table b t ! i \<in> set up"
proof -
  have "write_hash_table b t ! i = fst (t ! 0 ! i)"
    using write_hash_table_nth(2) [OF wf, of 0 i] c i by (simp add: dims)
  moreover have "t ! 0 ! i \<in> set (available_server b)"
    using av by (simp add: is_node_availble_def split: if_splits)
  ultimately show ?thesis using ids by (metis imageI)
qed

text \<open>The builder that \<open>rebuild\<close> sets up for the load-balancing strategy.\<close>

abbreviation group_builder1 :: "64 word list \<Rightarrow> group_info \<Rightarrow> builder1" where
  "group_builder1 up g \<equiv> set_available_server up (set_pos_mask (group_pos_mask g)
     (new_table_builder1 (server_bucket_count g) (server_copy_count g)))"

lemma group_builder1_fields:
  "bucket_count (group_builder1 up g) = server_bucket_count g"
  "copy_count (group_builder1 up g) = server_copy_count g"
  by (simp_all add: set_available_server_fields set_pos_mask_def new_table_builder1_def)

text \<open>Enough servers, with addresses, for a group of this size.\<close>

definition enough_servers :: "64 word list \<Rightarrow> group_info \<Rightarrow> bool" where
  "enough_servers up g \<longleftrightarrow> 0 \<notin> set up \<and> server_copy_count g \<le> card (set up) \<and>
     0 < server_copy_count g \<and> get_hash_table_size g < 2 ^ 31"

lemma group_builder1_ok:
  assumes "enough_servers up g"
  shows "servers_ok (group_builder1 up g)"
    and "fst ` set (available_server (group_builder1 up g)) = set up"
  using set_available_server_ok [of up "set_pos_mask (group_pos_mask g)
     (new_table_builder1 (server_bucket_count g) (server_copy_count g))"] assms
  by (simp_all add: enough_servers_def set_pos_mask_def new_table_builder1_def)

lemma availble_loaded:
  assumes "enough_servers up g" and "l < server_copy_count g" and "i < server_bucket_count g"
  shows "is_node_availble (group_builder1 up g) (load_hash_table (group_builder1 up g) p ! l ! i) \<longleftrightarrow>
    p ! cell g l i \<in> set up"
proof -
  let ?b = "group_builder1 up g"
  have n: "load_hash_table ?b p ! l ! i = (p ! cell g l i, ucast (p ! cell g l i AND pos_mask ?b))"
    using load_hash_table_nth [of l ?b i p] assms(2,3) by (simp add: group_builder1_fields)
  have "set (available_server ?b) = (\<lambda>id. (id, ucast (id AND pos_mask ?b))) ` set up"
    by (simp add: set_available_server_fields fold_set_insert)
  then show ?thesis
    unfolding n using assms(1) by (auto simp: is_node_availble_def INVALID_FLAG_def enough_servers_def)
qed

definition some_bucket_lost :: "64 word list \<Rightarrow> group_info \<Rightarrow> bool" where
  "some_bucket_lost up g \<longleftrightarrow> (\<exists>i < server_bucket_count g. \<forall>l < server_copy_count g.
     m_hash_table g ! cell g l i \<notin> set up)"

lemma live_copies_loaded:
  assumes "enough_servers up g" and "i < server_bucket_count g"
  shows "live_copies (group_builder1 up g) (load_hash_table (group_builder1 up g) p) i \<noteq> {} \<longleftrightarrow>
    (\<exists>l < server_copy_count g. p ! cell g l i \<in> set up)"
  using availble_loaded [OF assms(1) _ assms(2), of _ p]
  unfolding live_copies_def group_builder1_fields by blast

lemma rebuild1_total:
  assumes es: "enough_servers up g" and fr: "same_frame (group_builder1 up g) b"
  obtains t' b' where "rebuild_table table_builder1 (load_hash_table (group_builder1 up g) p) True b =
      Some (BUILD_OK, t', b')"
    "table_good g up (write_hash_table b' t')" "bucket_count b' = server_bucket_count g"
    "copy_count b' = server_copy_count g" "fst ` set (available_server b') = set up"
proof -
  let ?b = "group_builder1 up g" and ?t = "load_hash_table (group_builder1 up g) p"
  have dims: "bucket_count b = server_bucket_count g" "copy_count b = server_copy_count g"
    "available_server b = available_server ?b"
    using fr by (simp_all add: same_frame_def group_builder1_fields)
  have wf: "wf_table b ?t" using load_hash_table_wf [of ?b p] by (simp add: wf_table_frame [OF fr])
  have c0: "0 < copy_count b" using es by (simp add: enough_servers_def dims)
  have ok: "servers_ok b" using group_builder1_ok(1) [OF es] by (simp add: servers_ok_frame [OF fr])
  have big: "bucket_count b * copy_count b < 2 ^ 31"
    using es by (simp add: enough_servers_def dims get_hash_table_size_def)
  obtain t' b' where eq: "rebuild_table table_builder1 ?t True b = Some (BUILD_OK, t', b')"
    using tb1_rebuild_total [OF wf c0 ok big] by blast
  have st: "same_setting b b'" using tb1.rebuild_table_OK_setting [OF wf c0 eq] .
  have good: "wf_table b' t' \<and> (\<forall>j < bucket_count b'. bucket_good b' t' j)"
    using tb1.rebuild_table_OK_good [OF wf c0 eq] st tb1.same_setting_availble [OF st]
    by (simp add: wf_table_def bucket_good_def same_setting_def)
  have ids: "fst ` set (available_server b') = set up"
    using group_builder1_ok(2) [OF es] st by (simp add: same_setting_def dims)
  have d': "bucket_count b' = server_bucket_count g" "copy_count b' = server_copy_count g"
    using st by (simp_all add: same_setting_def dims)
  show ?thesis using that [OF eq write_good [OF good d' ids] d' ids] .
qed

text \<open>Every bucket of the table in use has a live master.\<close>

definition masters_live :: "group_info \<Rightarrow> 64 word list \<Rightarrow> 64 word list \<Rightarrow> bool" where
  "masters_live g up p \<longleftrightarrow> length p = get_hash_table_size g \<and> (\<forall>i < server_bucket_count g. p ! i \<in> set up)"

lemma table_good_masters:
  assumes "table_good g up p" and "0 < server_copy_count g"
  shows "masters_live g up p"
proof -
  have "p ! cell g 0 i \<in> set up" if "i < server_bucket_count g" for i
    using assms that unfolding table_good_def by blast
  then show ?thesis using assms(1) by (simp add: masters_live_def table_good_def)
qed

lemma start_migration_tables:
  "d_hash_table (start_migration f g) = d_hash_table g"
  "m_hash_table (start_migration f g) = m_hash_table g"
  "hash_table (start_migration f g) = hash_table g"
  "group_is_OK (start_migration f g)"
  by (simp_all add: start_migration_def fill_migrate_machine_def Let_def inc_versions_def split: prod.splits)

lemma install_tables_serve:
  assumes dest: "table_good g up (write_hash_table b dest)" and c0: "0 < server_copy_count g"
    and av: "set (available_server_ids g) = set up"
    and len: "length (write_hash_table b quick) = get_hash_table_size g"
    and quick: "1 < server_copy_count g \<Longrightarrow> data_need_move g = TAIR_DATA_NEED_MIGRATE \<Longrightarrow> \<not> first \<Longrightarrow>
      masters_live g up (write_hash_table b quick)"
  shows "table_good g up (d_hash_table (install_tables b first quick dest g))"
    and "m_hash_table (install_tables b first quick dest g) = hash_table (install_tables b first quick dest g)"
    and "masters_live g up (hash_table (install_tables b first quick dest g))"
proof -
  let ?g = "install_tables b first quick dest g" and ?q = "write_hash_table b quick"
  have dm: "masters_live g up (write_hash_table b dest)" using dest c0 by (rule table_good_masters)
  have size: "i < get_hash_table_size g" if "i < server_bucket_count g" for i
    using cell_less [of 0 g i] c0 that by simp
  show "table_good g up (d_hash_table ?g)" "m_hash_table ?g = hash_table ?g"
    using dest by (simp_all add: install_tables_def Let_def)
  show "masters_live g up (hash_table ?g)"
  proof (cases "data_need_move g = TAIR_DATA_NEED_MIGRATE \<and> \<not> first")
    case True
    then have "?q ! i \<in> set up \<or> server_copy_count g \<le> 1" if "i < server_bucket_count g" for i
      using quick that by (cases "server_copy_count g \<le> 1") (auto simp: masters_live_def)
    then show ?thesis
      using True dm len size av by (auto simp: install_tables_def Let_def masters_live_def)
  next
    case False
    then show ?thesis using dm by (auto simp: install_tables_def Let_def)
  qed
qed

text \<open>Whether the rebuild goes through the quick table.\<close>

definition uses_quick_table :: "group_info \<Rightarrow> bool" where
  "uses_quick_table g \<longleftrightarrow> data_need_move g = TAIR_DATA_NEED_MIGRATE \<and> 1 < server_copy_count g \<and>
     \<not> is_first_run g"

lemma rebuild_with1:
  assumes es: "enough_servers up g" and av: "set (available_server_ids g) = set up"
    and go: "\<not> (uses_quick_table g \<and> some_bucket_lost up g)"
  shows "\<exists>g'. rebuild_with (\<lambda>t. rebuild_table table_builder1 t True) (group_builder1 up g) g = Some g' \<and>
    group_is_OK g' \<and> table_good g up (d_hash_table g') \<and> m_hash_table g' = hash_table g' \<and>
    masters_live g up (hash_table g')"
proof -
  let ?b = "group_builder1 up g" and ?t = "load_hash_table (group_builder1 up g) (m_hash_table g)"
  have c0: "0 < server_copy_count g" "0 < copy_count ?b"
    using es by (simp_all add: enough_servers_def group_builder1_fields)
  have wf: "wf_table ?b ?t" by (rule load_hash_table_wf)
  obtain q b1 where q: "(if uses_quick_table g then build_quick_table (?t, ?b) else (True, ?t, ?b)) = (True, q, b1)"
    and fr: "same_frame ?b b1" and wfq: "wf_table ?b q"
    and live: "\<And>i. uses_quick_table g \<Longrightarrow> i < server_bucket_count g \<Longrightarrow> is_node_availble ?b (q ! 0 ! i)"
  proof (cases "uses_quick_table g")
    case True
    then have "\<forall>j < bucket_count ?b. live_copies ?b ?t j \<noteq> {}"
      using go live_copies_loaded [OF es] unfolding some_bucket_lost_def group_builder1_fields by blast
    then have "fst (build_quick_table (?t, ?b))" using quick_table_fails [OF wf c0(2)] by simp
    then obtain q b1 where eq: "build_quick_table (?t, ?b) = (True, q, b1)"
      by (cases "build_quick_table (?t, ?b)") auto
    show ?thesis
      using that [of q b1] True eq quick_table_frame [OF wf c0(2) eq] quick_table_columns(1) [OF wf c0(2) _ eq]
      by (simp add: group_builder1_fields)
  next
    case False
    then show ?thesis using that [of ?t ?b] wf by simp
  qed
  obtain t' b' where r: "rebuild_table table_builder1 ?t True b1 = Some (BUILD_OK, t', b')"
    and good: "table_good g up (write_hash_table b' t')"
    and d': "bucket_count b' = server_bucket_count g" "copy_count b' = server_copy_count g"
    and ids: "fst ` set (available_server b') = set up"
    using rebuild1_total [OF es fr, of "m_hash_table g"] by blast
  have same: "write_hash_table b' q = write_hash_table ?b q"
    by (simp add: write_hash_table_def d' group_builder1_fields)
  have len: "length (write_hash_table b' q) = get_hash_table_size g"
    using write_hash_table_nth(1) [OF wfq] by (simp add: same group_builder1_fields get_hash_table_size_def mult.commute)
  have quick: "masters_live g up (write_hash_table b' q)" if "uses_quick_table g"
    unfolding masters_live_def same
    using len live [OF that] write_masters [OF wfq group_builder1_fields c0(1) _ _ group_builder1_ok(2) [OF es]]
    by (simp add: same)
  let ?g = "install_tables b' (is_first_run g) q t' g"
  have inst: "table_good g up (d_hash_table ?g)" "m_hash_table ?g = hash_table ?g" "masters_live g up (hash_table ?g)"
    using install_tables_serve [OF good c0(1) av len, of "is_first_run g"] quick
    by (auto simp: uses_quick_table_def)
  have "rebuild_with (\<lambda>t. rebuild_table table_builder1 t True) ?b g = Some (start_migration (is_first_run g) ?g)"
    using q r by (simp add: rebuild_with_def Let_def uses_quick_table_def build_code_defs)
  then show ?thesis using inst by (simp add: start_migration_tables)
qed

lemma rebuild_with1_lost:
  assumes es: "enough_servers up g" and quick: "uses_quick_table g" and lost: "some_bucket_lost up g"
  shows "rebuild_with (\<lambda>t. rebuild_table table_builder1 t True) (group_builder1 up g) g =
    Some (inc_versions (g\<lparr>group_is_OK := False\<rparr>))"
proof -
  let ?b = "group_builder1 up g" and ?t = "load_hash_table (group_builder1 up g) (m_hash_table g)"
  have c0: "0 < copy_count ?b" using es by (simp add: enough_servers_def group_builder1_fields)
  obtain i where i: "i < server_bucket_count g"
    and none: "\<not> (\<exists>l < server_copy_count g. m_hash_table g ! cell g l i \<in> set up)"
    using lost by (auto simp: some_bucket_lost_def)
  have "live_copies ?b ?t i = {}" using live_copies_loaded [OF es i, of "m_hash_table g"] none by blast
  then have "\<not> fst (build_quick_table (?t, ?b))"
    using quick_table_fails [OF load_hash_table_wf c0, of "m_hash_table g"] i
    by (auto simp: group_builder1_fields)
  then obtain s where "build_quick_table (?t, ?b) = (False, s)" by (cases "build_quick_table (?t, ?b)") auto
  then show ?thesis using quick by (simp add: rebuild_with_def Let_def uses_quick_table_def split: prod.split)
qed

text \<open>
  C4. The rebuild of a group with the load-balancing strategy, which is configured or chosen by
  \<open>select_build_strategy\<close>, and enough live servers never kills the process. Unless the group migrates and some bucket has lost all its copies (then the group is
  marked as broken and its tables are kept), it leaves a destination table with every copy on a
  live server and no two copies of a bucket on one, and a table in use in which every bucket has a
  live master.
\<close>

theorem rebuild_serves:
  assumes es: "enough_servers up g" and av: "set (available_server_ids g) = set up"
    and "min_data_server_count g \<le> length up"
    and "(if build_strategy g = 3 then select_build_strategy up g else build_strategy g) = 1"
  shows "\<exists>g'. rebuild m ot up g = Some g' \<and>
    (if uses_quick_table g \<and> some_bucket_lost up g
     then \<not> group_is_OK g' \<and> hash_table g' = hash_table g \<and> m_hash_table g' = m_hash_table g \<and>
       d_hash_table g' = d_hash_table g
     else group_is_OK g' \<and> table_good g up (d_hash_table g') \<and> m_hash_table g' = hash_table g' \<and>
       masters_live g up (hash_table g'))"
proof -
  have r: "rebuild m ot up g =
      rebuild_with (\<lambda>t. rebuild_table table_builder1 t True) (group_builder1 up g) g"
    using assms(3,4) by (simp add: rebuild_def Let_def)
  show ?thesis
  proof (cases "uses_quick_table g \<and> some_bucket_lost up g")
    case True
    then show ?thesis using rebuild_with1_lost [OF es] by (simp add: r inc_versions_def)
  next
    case False
    show ?thesis unfolding r if_not_P [OF False] using es av False by (rule rebuild_with1)
  qed
qed

text \<open>A group in which the server 9 has died and the servers 1, 2 and 3 are up.\<close>

definition ex_rebuild_group :: group_info where
  "ex_rebuild_group =
     (ex_group [9, 1, 2, 9] [9, 1, 2, 9] 2 2)\<lparr>available_server_ids := [1, 2, 3]\<rparr>"

lemma ex_rebuild_group_facts:
  "enough_servers [1, 2, 3] ex_rebuild_group" "\<not> some_bucket_lost [1, 2, 3] ex_rebuild_group"
  "set (available_server_ids ex_rebuild_group) = set [1, 2, 3]"
  "min_data_server_count ex_rebuild_group \<le> length [1, 2, 3 :: 64 word]"
  "build_strategy ex_rebuild_group = 1"
  by (auto simp: enough_servers_def ex_rebuild_group_def ex_group_def get_hash_table_size_def
      some_bucket_lost_def less_2_cases_iff)

theorem rebuild_serves_witness:
  "\<exists>g'. rebuild (0, 0, 0) (0, 0, 0) [1, 2, 3] ex_rebuild_group = Some g' \<and>
    masters_live ex_rebuild_group [1, 2, 3] (hash_table g')"
  using rebuild_serves [OF ex_rebuild_group_facts(1,3,4), of "(0, 0, 0)" "(0, 0, 0)"] ex_rebuild_group_facts(5)
    ex_rebuild_group_facts(2) by auto

text \<open>
  C15. The quick table is built exactly when every bucket still has a live copy. It has a live
  master for every bucket, keeps the masters that are alive, holds exactly the live copies of the
  old table, and is empty in the other cells.
\<close>

theorem quick_table_serves:
  assumes wf: "wf_table b t" and c0: "0 < copy_count b"
  shows "(fst (build_quick_table (t, b)) \<longleftrightarrow> (\<forall>j < bucket_count b. live_copies b t j \<noteq> {})) \<and>
    (\<forall>t' b'. build_quick_table (t, b) = (True, t', b') \<longrightarrow> (\<forall>j < bucket_count b.
       is_node_availble b (t' ! 0 ! j) \<and> live_copies b t' j = live_copies b t j \<and>
       (is_node_availble b (t ! 0 ! j) \<longrightarrow> t' ! 0 ! j = t ! 0 ! j) \<and>
       (\<forall>l. 1 \<le> l \<and> l < copy_count b \<longrightarrow> is_node_availble b (t' ! l ! j) \<or> t' ! l ! j = (0, 0))))"
  using quick_table_fails [OF wf c0] quick_table_columns [OF wf c0] by blast

theorem quick_table_serves_witness:
  "fst (build_quick_table (ex_table, ex_builder)) \<longleftrightarrow> (\<forall>j < 2. live_copies ex_builder ex_table j \<noteq> {})"
  using quick_table_serves [OF ex_wf(1)] by (simp add: ex_fields)

end
