(* ===== verification/Data_Buffer.thy ===== *)
theory Data_Buffer
  imports Prelude
begin

unbundle bit_operations_syntax

text \<open>
  The byte buffer of the network library (\<open>tb-common-utils/tbnet/src/databuffer.h\<close>): a block of
  memory with the received or written bytes in its middle. The record \<open>data_buffer\<close> holds the block
  and, as offsets into it, the two pointers that move; \<open>stored\<close> is the abstraction, the bytes
  between them. Every operation on the block is shown to do to the stored bytes what its name says,
  however the block is moved or grown on the way.
\<close>

section \<open>Numbers as bytes\<close>

type_synonym bytes = "8 word list"

text \<open>The byte at \<open>dst[k]\<close> is the number shifted right by eight bits for every byte after it.\<close>

definition bytes16 :: "16 word \<Rightarrow> bytes" where
  "bytes16 n = [ucast (drop_bit 8 n), ucast n]"

definition bytes32 :: "32 word \<Rightarrow> bytes" where
  "bytes32 n = [ucast (drop_bit 24 n), ucast (drop_bit 16 n), ucast (drop_bit 8 n), ucast n]"

definition bytes64 :: "64 word \<Rightarrow> bytes" where
  "bytes64 n = [ucast (drop_bit 56 n), ucast (drop_bit 48 n), ucast (drop_bit 40 n),
     ucast (drop_bit 32 n), ucast (drop_bit 24 n), ucast (drop_bit 16 n), ucast (drop_bit 8 n),
     ucast n]"

text \<open>Reading shifts the number left and or-s in the next byte.\<close>

definition join_bytes :: "bytes \<Rightarrow> 'a::len word" where
  "join_bytes bs = fold (\<lambda>b n. push_bit 8 n OR ucast b) bs 0"

lemma length_bytes [simp]: "length (bytes16 n) = 2" "length (bytes32 m) = 4" "length (bytes64 k) = 8"
  by (simp_all add: bytes16_def bytes32_def bytes64_def)

lemma unat_of_nat_small: "n < 2 ^ LENGTH('a) \<Longrightarrow> unat (of_nat n :: 'a::len word) = n"
  by (simp add: unat_of_nat)

lemma sint_of_nat_small:
  assumes "n < 2 ^ 31"
  shows "sint (of_nat n :: 32 word) = int n"
  using assms by (simp add: signed_of_nat signed_take_bit_int_eq_self)

lemma signed_byte: "uint x = sint y \<longleftrightarrow> x = y \<and> y < 128" for x y :: "8 word"
proof -
  have range: "0 \<le> uint x" "uint y < 256" "0 \<le> uint y"
    using uint_lt2p [of y] by simp_all
  have top: "bit (uint y) 7 \<longleftrightarrow> \<not> uint y < 128"
    unfolding bit_iff_odd using range by (auto simp: odd_iff_mod_2_eq_one)
  have "take_bit 8 (uint y) = uint y"
    using range by (simp add: take_bit_int_eq_self)
  then have "sint y = (if uint y < 128 then uint y else uint y - 256)"
    using top by (simp add: sint_uint signed_take_bit_eq_take_bit_minus)
  moreover have "uint x \<noteq> uint y - 256"
    using range by linarith
  ultimately show ?thesis
    by (auto simp: word_less_def word_uint_eq_iff)
qed

lemma bit_join_bytes:
  "bit (join_bytes (bs @ [b]) :: 'a::len word) k \<longleftrightarrow>
   k < LENGTH('a) \<and> (if k < 8 then bit b k else bit (join_bytes bs :: 'a word) (k - 8))"
  by (auto simp: join_bytes_def bit_simps dest: bit_imp_le_length)

lemma join_bytes_Nil: "join_bytes [] = 0"
  by (simp add: join_bytes_def)

lemmas bytes_snoc =
  bit_join_bytes [of "[]"] bit_join_bytes [of "[a]" for a] bit_join_bytes [of "[a, b]" for a b]
  bit_join_bytes [of "[a, b, c]" for a b c] bit_join_bytes [of "[a, b, c, d]" for a b c d]
  bit_join_bytes [of "[a, b, c, d, e]" for a b c d e]
  bit_join_bytes [of "[a, b, c, d, e, f]" for a b c d e f]
  bit_join_bytes [of "[a, b, c, d, e, f, g]" for a b c d e f g]

lemmas bytes_snocs = bytes_snoc [simplified append.simps]

lemma join_bytes16 [simp]: "join_bytes (bytes16 n) = (n :: 16 word)"
  by (rule bit_word_eqI) (auto simp: bytes_snocs join_bytes_Nil bytes16_def bit_simps)

lemma join_bytes32 [simp]: "join_bytes (bytes32 n) = (n :: 32 word)"
  by (rule bit_word_eqI) (auto simp: bytes_snocs join_bytes_Nil bytes32_def bit_simps)

lemma join_bytes64 [simp]: "join_bytes (bytes64 n) = (n :: 64 word)"
  by (rule bit_word_eqI) (auto simp: bytes_snocs join_bytes_Nil bytes64_def bit_simps)

section \<open>The buffer\<close>

text \<open>
  \<open>blk\<close> is the memory from \<open>_pstart\<close> to \<open>_pend\<close>, empty for the null pointer; \<open>pdata\<close> and \<open>pfree\<close> are
  the offsets of \<open>_pdata\<close> and \<open>_pfree\<close>. A result \<open>None\<close> is a failed assertion or an access outside
  the block; \<open>malloc\<close> succeeds, and what it returns is never looked at before it is written.
\<close>

record data_buffer =
  blk :: bytes
  pdata :: nat
  pfree :: nat

definition new_data_buffer :: data_buffer where
  "new_data_buffer = \<lparr>blk = [], pdata = 0, pfree = 0\<rparr>"

definition MAX_BUFFER_SIZE :: nat where
  "MAX_BUFFER_SIZE = 2048"

definition getDataLen :: "data_buffer \<Rightarrow> int" where
  "getDataLen b = int (pfree b) - int (pdata b)"

definition getFreeLen :: "data_buffer \<Rightarrow> int" where
  "getFreeLen b = int (length (blk b)) - int (pfree b)"

definition clear_data :: "data_buffer \<Rightarrow> data_buffer" where
  "clear_data b = b\<lparr>pdata := 0, pfree := 0\<rparr>"

definition drainData :: "nat \<Rightarrow> data_buffer \<Rightarrow> data_buffer" where
  "drainData len b =
     (let b = b\<lparr>pdata := pdata b + len\<rparr> in if pdata b \<ge> pfree b then clear_data b else b)"

definition pourData :: "nat \<Rightarrow> data_buffer \<Rightarrow> data_buffer option" where
  "pourData len b = (if getFreeLen b \<ge> int len then Some (b\<lparr>pfree := pfree b + len\<rparr>) else None)"

definition stripData :: "nat \<Rightarrow> data_buffer \<Rightarrow> data_buffer option" where
  "stripData len b = (if getDataLen b \<ge> int len then Some (b\<lparr>pfree := pfree b - len\<rparr>) else None)"

text \<open>A block of a new size with the data at its start: \<open>shrink\<close> and \<open>expand\<close> copy into one.\<close>

definition relocate :: "nat \<Rightarrow> data_buffer \<Rightarrow> data_buffer" where
  "relocate sz b =
     (let dlen = pfree b - pdata b
      in \<lparr>blk = take dlen (drop (pdata b) (blk b)) @ replicate (sz - dlen) 0, pdata = 0, pfree = dlen\<rparr>)"

definition shrink :: "data_buffer \<Rightarrow> data_buffer" where
  "shrink b =
     (if blk b = [] then b
      else if length (blk b) \<le> MAX_BUFFER_SIZE \<or> getDataLen b > int MAX_BUFFER_SIZE then b
      else relocate MAX_BUFFER_SIZE b)"

text \<open>The doubling loop on a 32-bit \<open>int\<close>: past \<open>2\<^sup>3\<^sup>0\<close> the next doubling overflows.\<close>

function grow :: "nat \<Rightarrow> nat \<Rightarrow> nat option" where
  "grow need len =
     (if len < need then if 2 * len < 2 ^ 31 \<and> 0 < len then grow need (2 * len) else None
      else Some len)"
  by pat_completeness auto
termination
  by (relation "measure (\<lambda>(need, len). need - len)") auto

declare grow.simps [simp del]

text \<open>
  The product \<open>flen * 4\<close> is a 32-bit \<open>int\<close> as well, and computed only when the free bytes suffice: from
  \<open>2\<^sup>2\<^sup>9\<close> free bytes on it overflows.
\<close>

definition expand :: "nat \<Rightarrow> data_buffer \<Rightarrow> data_buffer option" where
  "expand need b =
     (if blk b = [] then
        map_option (\<lambda>len. \<lparr>blk = replicate len 0, pdata = 0, pfree = 0\<rparr>) (grow need 256)
      else if getFreeLen b < int need then
        (if getDataLen b < 0 then None
         else
           let flen = (length (blk b) - pfree b) + pdata b; dlen = pfree b - pdata b;
               grown = (if length (blk b) * 2 < 2 ^ 31
                        then map_option (\<lambda>bufsize. relocate bufsize b) (grow (need + dlen) (length (blk b) * 2))
                        else None)
           in if flen < need then grown
              else if flen * 4 \<ge> 2 ^ 31 then None
              else if flen * 4 < dlen then grown
              else Some (b\<lparr>blk := take dlen (drop (pdata b) (blk b)) @ drop dlen (blk b),
                           pdata := 0, pfree := dlen\<rparr>))
      else Some b)"

definition ensureFree :: "nat \<Rightarrow> data_buffer \<Rightarrow> data_buffer option" where
  "ensureFree len b = expand len b"

subsection \<open>Writing\<close>

text \<open>Bytes put into the block at an offset.\<close>

definition poke :: "nat \<Rightarrow> bytes \<Rightarrow> bytes \<Rightarrow> bytes" where
  "poke i xs mem = take i mem @ xs @ drop (i + length xs) mem"

definition store_bytes :: "bytes \<Rightarrow> data_buffer \<Rightarrow> data_buffer" where
  "store_bytes xs b = b\<lparr>blk := poke (pfree b) xs (blk b), pfree := pfree b + length xs\<rparr>"

definition writeInt8 :: "8 word \<Rightarrow> data_buffer \<Rightarrow> data_buffer option" where
  "writeInt8 n b = map_option (store_bytes [n]) (expand 1 b)"

definition writeInt16 :: "16 word \<Rightarrow> data_buffer \<Rightarrow> data_buffer option" where
  "writeInt16 n b = map_option (store_bytes (bytes16 n)) (expand 2 b)"

definition writeInt32 :: "32 word \<Rightarrow> data_buffer \<Rightarrow> data_buffer option" where
  "writeInt32 n b = map_option (store_bytes (bytes32 n)) (expand 4 b)"

definition writeInt64 :: "64 word \<Rightarrow> data_buffer \<Rightarrow> data_buffer option" where
  "writeInt64 n b = map_option (store_bytes (bytes64 n)) (expand 8 b)"

definition writeBytes :: "bytes \<Rightarrow> data_buffer \<Rightarrow> data_buffer option" where
  "writeBytes src b = map_option (store_bytes src) (expand (length src) b)"

text \<open>The \<open>fill\<close> functions overwrite bytes at a pointer into the block.\<close>

definition fill_bytes :: "nat \<Rightarrow> bytes \<Rightarrow> data_buffer \<Rightarrow> data_buffer option" where
  "fill_bytes dst xs b =
     (if dst + length xs \<le> length (blk b) then Some (b\<lparr>blk := poke dst xs (blk b)\<rparr>) else None)"

definition fillInt8 :: "nat \<Rightarrow> 8 word \<Rightarrow> data_buffer \<Rightarrow> data_buffer option" where
  "fillInt8 dst n b = fill_bytes dst [n] b"

definition fillInt16 :: "nat \<Rightarrow> 16 word \<Rightarrow> data_buffer \<Rightarrow> data_buffer option" where
  "fillInt16 dst n b = fill_bytes dst (bytes16 n) b"

definition fillInt32 :: "nat \<Rightarrow> 32 word \<Rightarrow> data_buffer \<Rightarrow> data_buffer option" where
  "fillInt32 dst n b = fill_bytes dst (bytes32 n) b"

definition fillInt64 :: "nat \<Rightarrow> 64 word \<Rightarrow> data_buffer \<Rightarrow> data_buffer option" where
  "fillInt64 dst n b = fill_bytes dst (bytes64 n) b"

text \<open>
  A C string is written with its terminating zero, and the null pointer and the empty string as the
  length 0. The argument is the memory at the pointer, of which \<open>strlen\<close> takes what precedes the
  first zero byte.
\<close>

definition strlen :: "bytes \<Rightarrow> nat" where
  "strlen str = length (takeWhile (\<lambda>c. c \<noteq> 0) str)"

definition writeString :: "bytes option \<Rightarrow> data_buffer \<Rightarrow> data_buffer option" where
  "writeString str b =
     (let slen = (case str of None \<Rightarrow> 0 | Some s \<Rightarrow> strlen s);
          len = (if slen > 0 then slen + 1 else slen)
      in Option.bind (expand (len + 4) b) (\<lambda>b.
         Option.bind (writeInt32 (of_nat len) b) (\<lambda>b.
           Some (if len > 0 then store_bytes (take slen (the str) @ [0]) b else b))))"

fun write_each :: "('a \<Rightarrow> data_buffer \<Rightarrow> data_buffer option) \<Rightarrow> 'a list \<Rightarrow> data_buffer \<Rightarrow> data_buffer option" where
  "write_each wr [] b = Some b"
| "write_each wr (x # xs) b = Option.bind (wr x b) (write_each wr xs)"

definition writeVector32 :: "32 word list \<Rightarrow> data_buffer \<Rightarrow> data_buffer option" where
  "writeVector32 v b = Option.bind (writeInt32 (of_nat (length v)) b) (write_each writeInt32 v)"

definition writeVector64 :: "64 word list \<Rightarrow> data_buffer \<Rightarrow> data_buffer option" where
  "writeVector64 v b = Option.bind (writeInt32 (of_nat (length v)) b) (write_each writeInt64 v)"

subsection \<open>Reading\<close>

text \<open>The \<open>k\<close> bytes at the data pointer; outside the block there is nothing to read.\<close>

definition peek :: "nat \<Rightarrow> data_buffer \<Rightarrow> bytes option" where
  "peek k b = (if pdata b + k \<le> length (blk b) then Some (take k (drop (pdata b) (blk b))) else None)"

definition readInt8 :: "data_buffer \<Rightarrow> (8 word \<times> data_buffer) option" where
  "readInt8 b = map_option (\<lambda>bs. (join_bytes bs, b\<lparr>pdata := pdata b + 1\<rparr>)) (peek 1 b)"

definition readInt16 :: "data_buffer \<Rightarrow> (16 word \<times> data_buffer) option" where
  "readInt16 b = map_option (\<lambda>bs. (join_bytes bs, b\<lparr>pdata := pdata b + 2\<rparr>)) (peek 2 b)"

text \<open>The wider reads assert that the pointer has not run past the data.\<close>

definition assert_data :: "'a \<times> data_buffer \<Rightarrow> ('a \<times> data_buffer) option" where
  "assert_data r = (if pfree (snd r) \<ge> pdata (snd r) then Some r else None)"

definition readInt32 :: "data_buffer \<Rightarrow> (32 word \<times> data_buffer) option" where
  "readInt32 b = Option.bind (peek 4 b) (\<lambda>bs. assert_data (join_bytes bs, b\<lparr>pdata := pdata b + 4\<rparr>))"

definition readInt64 :: "data_buffer \<Rightarrow> (64 word \<times> data_buffer) option" where
  "readInt64 b = Option.bind (peek 8 b) (\<lambda>bs. assert_data (join_bytes bs, b\<lparr>pdata := pdata b + 8\<rparr>))"

text \<open>
  \<open>readBytes\<close> gives \<open>Some None\<close> when it returns false; a negative length passes the test and
  reaches \<open>memcpy\<close> as a huge one.
\<close>

definition readBytes :: "int \<Rightarrow> data_buffer \<Rightarrow> (bytes option \<times> data_buffer) option" where
  "readBytes len b =
     (if int (pdata b) + len > int (pfree b) then Some (None, b)
      else if len < 0 then None
      else Option.bind (peek (nat len) b) (\<lambda>bs. assert_data (Some bs, b\<lparr>pdata := pdata b + nat len\<rparr>)))"

text \<open>
  \<open>readString\<close>: the caller's pointer is null (\<open>None\<close>) or points to \<open>len\<close> bytes. The result says
  whether it returned true, and the pointer afterwards.
\<close>

definition cut_string :: "nat \<Rightarrow> bytes \<Rightarrow> bytes" where
  "cut_string len src = (take len src)[len - 1 := 0]"

definition readString :: "bytes option \<Rightarrow> int \<Rightarrow> data_buffer \<Rightarrow> (bool \<times> bytes option \<times> data_buffer) option" where
  "readString str len b =
     (if pdata b + 4 > pfree b then Some (False, str, b)
      else Option.bind (readInt32 b) (\<lambda>(n, b).
        let slen = (if getDataLen b < sint n then getDataLen b else sint n);
            fresh = (str = None \<and> slen > 0);
            mem = (if fresh then replicate (nat slen) 0 else case str of None \<Rightarrow> [] | Some s \<Rightarrow> s);
            len = (if fresh then slen else len);
            len = (if len > slen then slen else len);
            str = (if fresh then Some mem else str);
            str = (if len > 0 then Some (poke 0 (cut_string (nat len) (drop (pdata b) (blk b))) mem) else str);
            p = int (pdata b) + slen
        in if p < 0 then None
           else Option.bind (assert_data ((), b\<lparr>pdata := nat p\<rparr>)) (\<lambda>(u, b). Some (True, str, b))))"

fun read_each :: "(data_buffer \<Rightarrow> ('a \<times> data_buffer) option) \<Rightarrow> nat \<Rightarrow> data_buffer \<Rightarrow> ('a list \<times> data_buffer) option" where
  "read_each rd 0 b = Some ([], b)"
| "read_each rd (Suc k) b =
     Option.bind (rd b) (\<lambda>(x, b). map_option (\<lambda>(xs, b). (x # xs, b)) (read_each rd k b))"

definition readVector32 :: "32 word list \<Rightarrow> data_buffer \<Rightarrow> (32 word list \<times> data_buffer) option" where
  "readVector32 v b =
     Option.bind (readInt32 b) (\<lambda>(len, b).
       map_option (\<lambda>(xs, b). (v @ xs, b)) (read_each readInt32 (unat len) b))"

definition readVector64 :: "64 word list \<Rightarrow> data_buffer \<Rightarrow> (64 word list \<times> data_buffer) option" where
  "readVector64 v b =
     Option.bind (readInt32 b) (\<lambda>(len, b).
       map_option (\<lambda>(xs, b). (v @ xs, b)) (read_each readInt64 (unat len) b))"

text \<open>
  \<open>findBytes\<close> compares an unsigned byte of the buffer with a signed \<open>char\<close> of the pattern before it
  compares the memory.
\<close>

definition found_at :: "bytes \<Rightarrow> nat \<Rightarrow> bytes \<Rightarrow> nat \<Rightarrow> bool" where
  "found_at findstr len d i \<longleftrightarrow>
     uint (d ! i) = sint (findstr ! 0) \<and> take len (drop i d) = take len findstr"

definition findBytes :: "bytes \<Rightarrow> nat \<Rightarrow> data_buffer \<Rightarrow> int" where
  "findBytes findstr len b =
     (let dLen = getDataLen b - int len + 1
      in case List.find (found_at findstr len (drop (pdata b) (blk b))) [0..<nat dLen] of
           None \<Rightarrow> -1
         | Some i \<Rightarrow> int i)"

section \<open>What the buffer stores\<close>

definition wf_buffer :: "data_buffer \<Rightarrow> bool" where
  "wf_buffer b \<longleftrightarrow> pdata b \<le> pfree b \<and> pfree b \<le> length (blk b)"

definition stored :: "data_buffer \<Rightarrow> bytes" where
  "stored b = take (pfree b - pdata b) (drop (pdata b) (blk b))"

lemma length_stored [simp]: "wf_buffer b \<Longrightarrow> length (stored b) = pfree b - pdata b"
  by (auto simp: wf_buffer_def stored_def)

lemma grow_result:
  assumes "0 < len" and "need \<le> 2 ^ 30"
  shows "\<exists>n. grow need len = Some n \<and> need \<le> n \<and> len \<le> n \<and> (n = len \<or> n < 2 * need)"
  using assms
proof (induction need len rule: grow.induct)
  case (1 need len)
  show ?case
  proof (cases "len < need")
    case True
    then obtain n where "grow need (2 * len) = Some n" "need \<le> n" "2 * len \<le> n" "n = 2 * len \<or> n < 2 * need"
      using 1 by auto
    then show ?thesis
      using True 1(2,3) by (subst grow.simps) auto
  qed (use 1 in \<open>simp add: grow.simps [of need len]\<close>)
qed

lemma relocate_result:
  assumes "wf_buffer b" and "pfree b - pdata b + need \<le> n"
  shows "wf_buffer (relocate n b) \<and> stored (relocate n b) = stored b
         \<and> pfree (relocate n b) + need \<le> length (blk (relocate n b))"
  using assms by (auto simp: wf_buffer_def stored_def relocate_def Let_def)

text \<open>
  A buffer can be written to without an overflow in \<open>expand\<close> when nothing has been taken from its front,
  since then a block that is too short has too few free bytes, or when its block is short of half a gigabyte.
\<close>

definition writable :: "data_buffer \<Rightarrow> bool" where
  "writable b \<longleftrightarrow> wf_buffer b \<and> (pdata b = 0 \<or> length (blk b) < 2 ^ 29)"

lemma writable_wf: "writable b \<Longrightarrow> wf_buffer b"
  by (simp add: writable_def)

lemma length_stored_writable [simp]: "writable b \<Longrightarrow> length (stored b) = pfree b - pdata b"
  by (simp add: writable_wf)

lemma writable_new [simp]: "writable new_data_buffer" "wf_buffer new_data_buffer" "stored new_data_buffer = []"
  by (simp_all add: new_data_buffer_def writable_def wf_buffer_def stored_def)

lemma relocate_start [simp]: "pdata (relocate n b) = 0"
  by (simp add: relocate_def Let_def)

lemma relocate_length: "wf_buffer b \<Longrightarrow> pfree b - pdata b \<le> n \<Longrightarrow> length (blk (relocate n b)) = n"
  by (auto simp: relocate_def Let_def wf_buffer_def)

text \<open>The three things \<open>expand\<close> can do to a writable buffer.\<close>

lemma expand_cases:
  assumes "writable b" and "length (stored b) + need \<le> 2 ^ 29"
  obtains (enough) "expand need b = Some b" "pfree b + need \<le> length (blk b)" "blk b \<noteq> []"
  | (fresh) n where "blk b = []" "expand need b = Some \<lparr>blk = replicate n 0, pdata = 0, pfree = 0\<rparr>" "need \<le> n" "n = 256 \<or> n < 2 * need"
  | (grown) n where "expand need b = Some (relocate n b)" "pfree b - pdata b + need \<le> n"
      "n < 2 * (need + (pfree b - pdata b)) \<or> 2 * n < 5 * (pfree b - pdata b)"
  | (moved) "expand need b = Some (b\<lparr>blk := take (pfree b - pdata b) (drop (pdata b) (blk b)) @ drop (pfree b - pdata b) (blk b),
      pdata := 0, pfree := pfree b - pdata b\<rparr>)" "need \<le> (length (blk b) - pfree b) + pdata b"
proof -
  let ?flen = "(length (blk b) - pfree b) + pdata b" and ?dlen = "pfree b - pdata b"
  have wf: "pdata b \<le> pfree b" "pfree b \<le> length (blk b)" "pdata b = 0 \<or> length (blk b) < 2 ^ 29"
    using assms(1) by (auto simp: writable_def wf_buffer_def)
  have lim: "?dlen + need \<le> 2 ^ 29"
    using assms by simp
  consider "blk b = []" | "blk b \<noteq> []" "\<not> getFreeLen b < int need"
    | "blk b \<noteq> []" "getFreeLen b < int need" "?flen < need \<or> ?flen * 4 < ?dlen"
    | "blk b \<noteq> []" "getFreeLen b < int need" "\<not> (?flen < need \<or> ?flen * 4 < ?dlen)"
    by blast
  then show ?thesis
  proof cases
    case 1
    obtain n where "grow need 256 = Some n" "need \<le> n" "n = 256 \<or> n < 2 * need"
      using grow_result [of 256 need] lim by auto
    then show ?thesis
      using 1 by (intro fresh) (simp_all add: expand_def)
  next
    case 2
    then show ?thesis
      by (intro enough) (auto simp: expand_def getFreeLen_def)
  next
    case 3
    have small: "length (blk b) * 2 < 2 ^ 31" and no: "\<not> ?flen < need \<Longrightarrow> \<not> ?flen * 4 \<ge> 2 ^ 31"
      using 3 lim wf by (auto simp: getFreeLen_def)
    obtain n where n: "grow (need + ?dlen) (length (blk b) * 2) = Some n" "need + ?dlen \<le> n"
        "n = length (blk b) * 2 \<or> n < 2 * (need + ?dlen)"
      using grow_result [of "length (blk b) * 2" "need + ?dlen"] lim 3(1) by auto
    have "expand need b = Some (relocate n b)"
      using 3 small no n(1) wf by (auto simp: expand_def getDataLen_def Let_def)
    moreover have "n < 2 * (need + ?dlen) \<or> 2 * n < 5 * ?dlen"
      using n(3) 3(3) wf by auto
    ultimately show ?thesis
      using n(2) by (intro grown) simp_all
  next
    case 4
    have "\<not> ?flen * 4 \<ge> 2 ^ 31"
      using 4(2,3) wf by (auto simp: getFreeLen_def)
    then show ?thesis
      using 4 wf by (intro moved) (auto simp: expand_def getDataLen_def Let_def)
  qed
qed

lemma expand_result:
  assumes "writable b" and "length (stored b) + need \<le> 2 ^ 29"
  shows "\<exists>b'. expand need b = Some b' \<and> writable b' \<and> stored b' = stored b
              \<and> pfree b' + need \<le> length (blk b')"
  using assms
proof (cases rule: expand_cases)
  case (grown n)
  then show ?thesis
    using relocate_result [OF writable_wf [OF assms(1)], of need n] by (simp add: writable_def)
qed (use assms in \<open>auto simp: writable_def wf_buffer_def stored_def\<close>)

text \<open>As long as little is stored the block stays short, so that it can be drained and written to for ever.\<close>

lemma expand_short:
  assumes "wf_buffer b" and "length (blk b) < 2 ^ 29" and "length (stored b) + need \<le> 2 ^ 27" and "expand need b = Some b'"
  shows "length (blk b') < 2 ^ 29"
proof -
  have w: "writable b" "length (stored b) + need \<le> 2 ^ 29"
    using assms(1-3) by (simp_all add: writable_def)
  then show ?thesis
  proof (cases rule: expand_cases)
    case (grown n)
    then show ?thesis
      using relocate_length [OF assms(1), of n] assms by auto
  qed (use assms in \<open>auto simp: wf_buffer_def\<close>)
qed

lemma expand_room:
  assumes "wf_buffer b" and "length (blk b) < 2 ^ 29" and "length (stored b) + need \<le> 2 ^ 27"
  shows "\<exists>b'. expand need b = Some b' \<and> wf_buffer b' \<and> stored b' = stored b \<and> length (blk b') < 2 ^ 29
              \<and> pfree b' + need \<le> length (blk b')"
proof -
  have "writable b" "length (stored b) + need \<le> 2 ^ 29"
    using assms by (simp_all add: writable_def)
  then show ?thesis
    using expand_result expand_short [OF assms] writable_wf by metis
qed

lemma store_bytes_result:
  assumes "wf_buffer b" and "pfree b + length xs \<le> length (blk b)"
  shows "wf_buffer (store_bytes xs b)" and "stored (store_bytes xs b) = stored b @ xs"
    and "writable b \<Longrightarrow> writable (store_bytes xs b)"
  using assms by (auto simp: writable_def wf_buffer_def stored_def store_bytes_def poke_def drop_take)

lemma write_result:
  assumes "writable b" and "length (stored b) + length xs \<le> 2 ^ 29"
  shows "\<exists>b'. map_option (store_bytes xs) (expand (length xs) b) = Some b'
              \<and> writable b' \<and> stored b' = stored b @ xs"
  using expand_result [OF assms] by (auto simp: store_bytes_result writable_wf)

lemma peek_stored:
  assumes "wf_buffer b" and "k \<le> length (stored b)"
  shows "peek k b = Some (take k (stored b))"
  using assms by (auto simp: wf_buffer_def peek_def stored_def)

lemma advance_stored:
  assumes "wf_buffer b" and "k \<le> length (stored b)"
  shows "wf_buffer (b\<lparr>pdata := pdata b + k\<rparr>)" and "stored (b\<lparr>pdata := pdata b + k\<rparr>) = drop k (stored b)"
  using assms by (auto simp: wf_buffer_def stored_def drop_take add.commute)

section \<open>Fields of a fixed width\<close>

text \<open>
  What a pair of a write and a read function of one width promises: the bytes of the value are
  appended behind what is stored, and reading them back takes them from the front.
\<close>

locale field_codec =
  fixes wr :: "'a \<Rightarrow> data_buffer \<Rightarrow> data_buffer option"
    and rd :: "data_buffer \<Rightarrow> ('a \<times> data_buffer) option"
    and enc :: "'a \<Rightarrow> bytes"
    and width :: nat
  assumes enc_width: "length (enc x) = width"
    and writes: "writable b \<Longrightarrow> length (stored b) + width \<le> 2 ^ 29 \<Longrightarrow>
      \<exists>b'. wr x b = Some b' \<and> writable b' \<and> stored b' = stored b @ enc x"
    and reads: "wf_buffer b \<Longrightarrow> stored b = enc x @ rest \<Longrightarrow>
      \<exists>b'. rd b = Some (x, b') \<and> wf_buffer b' \<and> blk b' = blk b \<and> stored b' = rest"
begin

lemma each_width: "length (concat (map enc xs)) = length xs * width"
  by (induction xs) (auto simp: enc_width)

lemma each_written:
  assumes "writable b" and "length (stored b) + length xs * width \<le> 2 ^ 29"
  shows "\<exists>b'. write_each wr xs b = Some b' \<and> writable b' \<and> stored b' = stored b @ concat (map enc xs)"
  using assms
proof (induction xs arbitrary: b)
  case (Cons x xs)
  obtain c where c: "wr x b = Some c" "writable c" "stored c = stored b @ enc x"
    using writes [of b x] Cons.prems by auto
  have "length (stored c) + length xs * width \<le> 2 ^ 29"
    using Cons.prems(2) c(3) enc_width [of x] by simp
  from Cons.IH [OF c(2) this] show ?case
    using c by auto
qed simp

lemma each_read:
  assumes "wf_buffer b" and "stored b = concat (map enc xs) @ rest"
  shows "\<exists>b'. read_each rd (length xs) b = Some (xs, b') \<and> wf_buffer b' \<and> blk b' = blk b \<and> stored b' = rest"
  using assms
proof (induction xs arbitrary: b)
  case (Cons x xs)
  obtain c where c: "rd b = Some (x, c)" "wf_buffer c" "stored c = concat (map enc xs) @ rest" "blk c = blk b"
    using reads [of b x "concat (map enc xs) @ rest"] Cons.prems by auto
  from Cons.IH [OF c(2,3)] show ?case
    using c(1,4) by auto
qed simp

end

lemma read_front:
  assumes "wf_buffer b" and "stored b = xs @ rest"
  shows "peek (length xs) b = Some xs" and "wf_buffer (b\<lparr>pdata := pdata b + length xs\<rparr>)"
    and "stored (b\<lparr>pdata := pdata b + length xs\<rparr>) = rest"
    and "pdata b + length xs \<le> pfree b"
  using peek_stored [OF assms(1), of "length xs"] advance_stored [OF assms(1), of "length xs"]
    length_stored [OF assms(1)] assms(1) unfolding assms(2) wf_buffer_def
  by auto

interpretation fc8: field_codec writeInt8 readInt8 "\<lambda>n. [n]" 1
proof unfold_locales
  fix b :: data_buffer and x :: "8 word" and rest
  show "\<exists>b'. writeInt8 x b = Some b' \<and> writable b' \<and> stored b' = stored b @ [x]"
    if "writable b" "length (stored b) + 1 \<le> 2 ^ 29"
    using write_result [of b "[x]"] that by (simp add: writeInt8_def)
  show "\<exists>b'. readInt8 b = Some (x, b') \<and> wf_buffer b' \<and> blk b' = blk b \<and> stored b' = rest"
    if "wf_buffer b" "stored b = [x] @ rest"
    using read_front [OF that] by (simp add: readInt8_def join_bytes_def)
qed simp

interpretation fc16: field_codec writeInt16 readInt16 bytes16 2
proof unfold_locales
  fix b :: data_buffer and x :: "16 word" and rest
  show "\<exists>b'. writeInt16 x b = Some b' \<and> writable b' \<and> stored b' = stored b @ bytes16 x"
    if "writable b" "length (stored b) + 2 \<le> 2 ^ 29"
    using write_result [of b "bytes16 x"] that by (simp add: writeInt16_def)
  show "\<exists>b'. readInt16 b = Some (x, b') \<and> wf_buffer b' \<and> blk b' = blk b \<and> stored b' = rest"
    if "wf_buffer b" "stored b = bytes16 x @ rest"
    using read_front [OF that] by (simp add: readInt16_def)
qed simp

interpretation fc32: field_codec writeInt32 readInt32 bytes32 4
proof unfold_locales
  fix b :: data_buffer and x :: "32 word" and rest
  show "\<exists>b'. writeInt32 x b = Some b' \<and> writable b' \<and> stored b' = stored b @ bytes32 x"
    if "writable b" "length (stored b) + 4 \<le> 2 ^ 29"
    using write_result [of b "bytes32 x"] that by (simp add: writeInt32_def)
  show "\<exists>b'. readInt32 b = Some (x, b') \<and> wf_buffer b' \<and> blk b' = blk b \<and> stored b' = rest"
    if "wf_buffer b" "stored b = bytes32 x @ rest"
    using read_front [OF that] by (simp add: readInt32_def assert_data_def)
qed simp

interpretation fc64: field_codec writeInt64 readInt64 bytes64 8
proof unfold_locales
  fix b :: data_buffer and x :: "64 word" and rest
  show "\<exists>b'. writeInt64 x b = Some b' \<and> writable b' \<and> stored b' = stored b @ bytes64 x"
    if "writable b" "length (stored b) + 8 \<le> 2 ^ 29"
    using write_result [of b "bytes64 x"] that by (simp add: writeInt64_def)
  show "\<exists>b'. readInt64 b = Some (x, b') \<and> wf_buffer b' \<and> blk b' = blk b \<and> stored b' = rest"
    if "wf_buffer b" "stored b = bytes64 x @ rest"
    using read_front [OF that] by (simp add: readInt64_def assert_data_def)
qed simp

lemma writeBytes_result:
  assumes "writable b" and "length (stored b) + length src \<le> 2 ^ 29"
  shows "\<exists>b'. writeBytes src b = Some b' \<and> writable b' \<and> stored b' = stored b @ src"
  using write_result [OF assms] by (simp add: writeBytes_def)

lemma readBytes_result:
  assumes "wf_buffer b" and "stored b = xs @ rest"
  shows "\<exists>b'. readBytes (int (length xs)) b = Some (Some xs, b') \<and> wf_buffer b' \<and> blk b' = blk b \<and> stored b' = rest"
  using read_front [OF assms] by (simp add: readBytes_def assert_data_def)

lemma readBytes_short:
  assumes "wf_buffer b" and "int (length (stored b)) < len"
  shows "readBytes len b = Some (None, b)"
  using assms by (auto simp: readBytes_def wf_buffer_def)

lemma readInt32_short:
  assumes "wf_buffer b" and "length (stored b) < 4"
  shows "readInt32 b = None"
  using assms by (auto simp: readInt32_def assert_data_def peek_def wf_buffer_def Option.bind_eq_None_conv)

section \<open>Properties\<close>

lemma getDataLen_stored: "wf_buffer b \<Longrightarrow> getDataLen b = int (length (stored b))"
  by (simp add: getDataLen_def wf_buffer_def)

lemma shrink_result:
  assumes "wf_buffer b"
  shows "wf_buffer (shrink b) \<and> stored (shrink b) = stored b \<and> (writable b \<longrightarrow> writable (shrink b))"
  using assms relocate_result [OF assms, of 0 MAX_BUFFER_SIZE]
  by (auto simp: shrink_def getDataLen_def wf_buffer_def writable_def)

lemma shrink_short: "wf_buffer b \<Longrightarrow> length (blk b) < 2 ^ 29 \<Longrightarrow> length (blk (shrink b)) < 2 ^ 29"
  using relocate_length [of b MAX_BUFFER_SIZE] by (auto simp: shrink_def getDataLen_def MAX_BUFFER_SIZE_def)

lemma drainData_result:
  assumes "wf_buffer b"
  shows "wf_buffer (drainData len b) \<and> stored (drainData len b) = drop len (stored b) \<and> blk (drainData len b) = blk b"
  using assms by (auto simp: drainData_def clear_data_def wf_buffer_def stored_def Let_def drop_take add.commute)

text \<open>
  C14. The buffer is a byte queue whatever its block goes through. Take a buffer from whose front nothing
  has been taken, or whose block is short of half a gigabyte: as long as at most half a gigabyte is
  stored every write succeeds inside the block and appends exactly its bytes, most significant byte
  first; making room, shrinking and draining never change or lose a stored byte. With at most 128
  megabytes stored the block moreover stays short, so that this goes on for ever.
\<close>

theorem buffer_appends:
  assumes "writable b" and "length (stored b) + length src + 8 \<le> 2 ^ 29"
  shows "(\<exists>c. expand (length src) b = Some c \<and> writable c \<and> stored c = stored b
              \<and> getFreeLen c \<ge> int (length src)
              \<and> (length (blk b) < 2 ^ 29 \<and> length (stored b) + length src \<le> 2 ^ 27 \<longrightarrow> length (blk c) < 2 ^ 29))
       \<and> (\<exists>c. writeInt8 n8 b = Some c \<and> writable c \<and> stored c = stored b @ [n8])
       \<and> (\<exists>c. writeInt16 n16 b = Some c \<and> writable c \<and> stored c = stored b @ bytes16 n16)
       \<and> (\<exists>c. writeInt32 n32 b = Some c \<and> writable c \<and> stored c = stored b @ bytes32 n32)
       \<and> (\<exists>c. writeInt64 n64 b = Some c \<and> writable c \<and> stored c = stored b @ bytes64 n64)
       \<and> (\<exists>c. writeBytes src b = Some c \<and> writable c \<and> stored c = stored b @ src)
       \<and> writable (shrink b) \<and> stored (shrink b) = stored b
       \<and> wf_buffer (drainData len b) \<and> blk (drainData len b) = blk b \<and> stored (drainData len b) = drop len (stored b)"
proof -
  obtain c where c: "expand (length src) b = Some c" "writable c" "stored c = stored b" "pfree c + length src \<le> length (blk c)"
    using expand_result [OF assms(1), of "length src"] assms(2) by auto
  have "length (blk c) < 2 ^ 29" if "length (blk b) < 2 ^ 29" "length (stored b) + length src \<le> 2 ^ 27"
    by (rule expand_short [OF writable_wf [OF assms(1)] that c(1)])
  then have "\<exists>c. expand (length src) b = Some c \<and> writable c \<and> stored c = stored b \<and> getFreeLen c \<ge> int (length src)
      \<and> (length (blk b) < 2 ^ 29 \<and> length (stored b) + length src \<le> 2 ^ 27 \<longrightarrow> length (blk c) < 2 ^ 29)"
    using c by (auto simp: getFreeLen_def)
  moreover have "stored (shrink b) = stored b" "writable (shrink b)" "blk (drainData len b) = blk b"
      "wf_buffer (drainData len b)" "stored (drainData len b) = drop len (stored b)"
    using shrink_result [OF writable_wf [OF assms(1)]] drainData_result [OF writable_wf [OF assms(1)]] assms(1) by simp_all
  ultimately show ?thesis
    using assms fc8.writes [OF assms(1)] fc16.writes [OF assms(1)] fc32.writes [OF assms(1)] fc64.writes [OF assms(1)]
      writeBytes_result [OF assms(1)] by simp
qed

theorem buffer_appends_witness:
  "stored (drainData 1 (the (writeInt16 0x0203 (the (writeInt8 1 new_data_buffer))))) = [2, 3]"
proof -
  obtain c where c: "writeInt8 1 new_data_buffer = Some c" "writable c" "stored c = [1]"
    using buffer_appends [of new_data_buffer "[]" 1 0 0 0 0] by auto
  obtain d where d: "writeInt16 0x0203 c = Some d" "writable d" "stored d = [1] @ bytes16 0x0203"
    using buffer_appends [of c "[]" 0 "0x0203" 0 0 0] c by auto
  show ?thesis
    using buffer_appends [of d "[]" 0 0 0 0 1] c(1) d by (simp add: bytes16_def)
qed

text \<open>
  C25. A vector written to an empty writable buffer is read back as it was, element by element, appended to the
  vector the caller passes; what follows it in the buffer stays.
\<close>

theorem vector_round_trip:
  assumes "writable b" and "stored b = []" and "length v \<le> 2 ^ 25" and "length rest \<le> 2 ^ 25"
  shows "\<exists>c d e. writeVector64 v b = Some c \<and> writeBytes rest c = Some d
              \<and> readVector64 w d = Some (w @ v, e) \<and> stored e = rest"
proof -
  let ?n = "of_nat (length v) :: 32 word"
  have n: "unat ?n = length v"
    using assms(3) by (intro unat_of_nat_small) simp
  obtain a where a: "writeInt32 ?n b = Some a" "writable a" "stored a = bytes32 ?n"
    using fc32.writes [OF assms(1), of ?n] assms(2) by auto
  obtain c where c: "write_each writeInt64 v a = Some c" "writable c"
      "stored c = bytes32 ?n @ concat (map bytes64 v)"
    using fc64.each_written [OF a(2), of v] a(3) assms(3) by auto
  obtain d where d: "writeBytes rest c = Some d" "writable d"
      "stored d = bytes32 ?n @ concat (map bytes64 v) @ rest"
    using writeBytes_result [OF c(2), of rest] c(3) assms(3,4) fc64.each_width [of v] by auto
  obtain f where f: "readInt32 d = Some (?n, f)" "wf_buffer f" "stored f = concat (map bytes64 v) @ rest"
    using fc32.reads [OF writable_wf [OF d(2)] d(3)] by auto
  obtain e where e: "read_each readInt64 (length v) f = Some (v, e)" "stored e = rest"
    using fc64.each_read [OF f(2,3)] by auto
  show ?thesis
    using a(1) c(1) d(1) f(1) e n by (simp add: writeVector64_def readVector64_def)
qed

theorem vector_round_trip_witness:
  "\<exists>c d e. writeVector64 [5, 6] new_data_buffer = Some c \<and> writeBytes [9] c = Some d
      \<and> readVector64 [4] d = Some ([4, 5, 6], e) \<and> stored e = [9]"
  using vector_round_trip [of new_data_buffer "[5, 6]" "[9]" "[4]"] by simp

lemma takeWhile_cstring: "0 \<notin> set s \<Longrightarrow> takeWhile (\<lambda>c. c \<noteq> 0) (s @ 0 # t) = s"
  by (induction s) auto

lemma writeString_result:
  assumes "writable b" and "0 \<notin> set s" and "s \<noteq> []"
    and "length (stored b) + length s + 5 \<le> 2 ^ 29"
  shows "\<exists>c. writeString (Some (s @ 0 # t)) b = Some c \<and> writable c
              \<and> stored c = stored b @ bytes32 (of_nat (length s + 1)) @ s @ [0]"
proof -
  let ?n = "of_nat (Suc (length s)) :: 32 word"
  obtain a where a: "expand (Suc (length s) + 4) b = Some a" "writable a" "stored a = stored b"
      "pfree a + (Suc (length s) + 4) \<le> length (blk a)"
    using expand_result [OF assms(1), of "Suc (length s) + 4"] assms(4) by auto
  have "expand 4 a = Some a"
    using a(4) by (auto simp: expand_def getFreeLen_def)
  then have w: "writeInt32 ?n a = Some (store_bytes (bytes32 ?n) a)"
    by (simp add: writeInt32_def)
  let ?c = "store_bytes (bytes32 ?n) a"
  have c: "writable ?c" "stored ?c = stored a @ bytes32 ?n"
    using store_bytes_result [OF writable_wf [OF a(2)], of "bytes32 ?n"] a(2,4) by auto
  have "pfree ?c + length (s @ [0]) \<le> length (blk ?c)"
    using a(4) by (simp add: store_bytes_def poke_def)
  note d = store_bytes_result [OF writable_wf [OF c(1)] this]
  have len: "strlen (s @ 0 # t) = length s"
    using takeWhile_cstring [OF assms(2)] by (simp add: strlen_def)
  have "writeString (Some (s @ 0 # t)) b = Some (store_bytes (s @ [0]) ?c)"
    using a(1) w assms(3) unfolding writeString_def Let_def option.case len by simp
  then show ?thesis
    using d c a(3) by simp
qed

lemma writeString_empty:
  assumes "writable b" and "length (stored b) + 4 \<le> 2 ^ 29" and "strlen mem = 0"
  shows "\<exists>c. writeString (Some mem) b = Some c \<and> writable c \<and> stored c = stored b @ bytes32 0"
proof -
  obtain a where a: "expand 4 b = Some a" "writable a" "stored a = stored b"
    using expand_result [OF assms(1,2)] by auto
  obtain c where "writeInt32 0 a = Some c" "writable c" "stored c = stored a @ bytes32 0"
    using fc32.writes [OF a(2), of 0] a(3) assms(2) by auto
  then show ?thesis
    using a(1,3) assms(3) by (simp add: writeString_def)
qed

lemma readString_result:
  assumes "wf_buffer b" and "s \<noteq> []" and "length s < 2 ^ 30"
    and "stored b = bytes32 (of_nat (length s + 1)) @ s @ [0] @ rest"
  shows "\<exists>c. readString None len b = Some (True, Some (s @ [0]), c) \<and> wf_buffer c \<and> stored c = rest"
proof -
  let ?n = "of_nat (length s + 1) :: 32 word"
  have n: "sint ?n = int (length s + 1)"
    using assms(3) by (intro sint_of_nat_small) simp
  obtain c where c: "readInt32 b = Some (?n, c)" "wf_buffer c" "stored c = (s @ [0]) @ rest"
    using fc32.reads [OF assms(1,4)] by auto
  note front = read_front [OF c(2,3)]
  have long: "\<not> getDataLen c < int (length s + 1)"
    using getDataLen_stored [OF c(2)] c(3) by simp
  have cut: "cut_string (Suc (length s)) (drop (pdata c) (blk c)) = s @ [0]"
    using front(1) by (auto simp: peek_def cut_string_def split: if_splits)
  have start: "\<not> pfree b < pdata b + 4"
    using read_front(4) [OF assms(1,4)] by simp
  have "readString None len b = Some (True, Some (s @ [0]), c\<lparr>pdata := pdata c + Suc (length s)\<rparr>)"
    unfolding readString_def using start c(1) n long cut front(4)
    by (simp add: Let_def poke_def assert_data_def nat_add_distrib)
  then show ?thesis
    using front(2,3) by simp
qed

lemma readString_empty:
  assumes "wf_buffer b" and "stored b = bytes32 0 @ rest"
  shows "\<exists>c. readString str len b = Some (True, str, c) \<and> wf_buffer c \<and> blk c = blk b \<and> stored c = rest"
proof -
  obtain c where c: "readInt32 b = Some (0, c)" "wf_buffer c" "blk c = blk b" "stored c = rest"
    using fc32.reads [OF assms] by auto
  have "\<not> pfree b < pdata b + 4" "\<not> getDataLen c < 0" "pdata c \<le> pfree c"
    using read_front(4) [OF assms] c(2) by (simp_all add: getDataLen_def wf_buffer_def)
  moreover have "c\<lparr>pdata := pdata c\<rparr> = c"
    by simp
  ultimately show ?thesis
    using c unfolding readString_def by (simp add: Let_def assert_data_def)
qed

text \<open>
  C26. A string written to an empty writable buffer is read back, with its terminating zero, into memory
  the reader allocates, and the buffer is empty again. The empty string is written as the length 0, for
  which the reader allocates nothing and leaves the null pointer.
\<close>

theorem string_round_trip:
  assumes "writable b" and "stored b = []" and "0 \<notin> set s" and "length s \<le> 2 ^ 28"
  shows "\<exists>c d. writeString (Some (s @ [0])) b = Some c
            \<and> readString None 0 c = Some (True, if s = [] then None else Some (s @ [0]), d) \<and> stored d = []"
proof (cases "s = []")
  case True
  obtain c where c: "writeString (Some [0]) b = Some c" "writable c" "stored c = bytes32 0 @ []"
    using writeString_empty [OF assms(1), of "[0]"] assms(2) by (auto simp: strlen_def)
  then show ?thesis
    using readString_empty [OF writable_wf [OF c(2)] c(3)] True by auto
next
  case False
  obtain c where c: "writeString (Some (s @ [0])) b = Some c" "writable c"
      "stored c = bytes32 (of_nat (length s + 1)) @ s @ [0] @ []"
    using writeString_result [OF assms(1,3) False, of "[]"] assms(2,4) by auto
  then show ?thesis
    using readString_result [OF writable_wf [OF c(2)] False _ c(3)] False assms(4) by auto
qed

theorem string_round_trip_witness:
  "\<exists>c d. writeString (Some [116, 97, 105, 114, 0]) new_data_buffer = Some c
      \<and> readString None 0 c = Some (True, Some [116, 97, 105, 114, 0], d) \<and> stored d = []"
  using string_round_trip [of new_data_buffer "[116, 97, 105, 114]"] by simp

text \<open>
  C35. The length of a received string is trusted when it is negative: the length \<open>-4\<close> is
  reported as a string read, while the read pointer is moved back onto the length itself and the
  next read finds the same four bytes again.
\<close>

theorem string_length_negative:
  assumes "wf_buffer b" and "stored b = bytes32 (- 4) @ rest"
  shows "readString str len b = Some (True, str, b)"
proof -
  have start: "\<not> pfree b < pdata b + 4" and peek: "peek 4 b = Some (bytes32 (- 4))"
    using read_front(1,4) [OF assms] by simp_all
  have n: "readInt32 b = Some (- 4, b\<lparr>pdata := pdata b + 4\<rparr>)"
    unfolding readInt32_def peek using start by (simp add: assert_data_def)
  have "\<not> getDataLen (b\<lparr>pdata := pdata b + 4\<rparr>) < - 4" and "pdata b \<le> pfree b"
    using start by (simp_all add: getDataLen_def)
  then show ?thesis
    unfolding readString_def n using start by (simp add: Let_def assert_data_def)
qed

theorem string_length_negative_witness:
  "readString None 0 \<lparr>blk = [255, 255, 255, 252], pdata = 0, pfree = 4\<rparr> =
     Some (True, None, \<lparr>blk = [255, 255, 255, 252], pdata = 0, pfree = 4\<rparr>)"
proof (rule string_length_negative [of _ "[]"])
  have "bytes32 (- 4) = [255, 255, 255, 252]"
    by code_simp
  then show "stored \<lparr>blk = [255, 255, 255, 252], pdata = 0, pfree = 4\<rparr> = bytes32 (- 4) @ []"
    by (simp add: stored_def)
qed (simp add: wf_buffer_def)

text \<open>The reference search: the position of the first occurrence, \<open>-1\<close> without one.\<close>

fun first_occurrence :: "bytes \<Rightarrow> bytes \<Rightarrow> int" where
  "first_occurrence fs [] = - 1"
| "first_occurrence fs (x # d) =
     (if take (length fs) (x # d) = fs then 0
      else let r = first_occurrence fs d in if r < 0 then - 1 else r + 1)"

lemma find_map: "List.find P (map f xs) = map_option f (List.find (P \<circ> f) xs)"
  by (induction xs) auto

lemma find_cong_mem: "(\<And>x. x \<in> set xs \<Longrightarrow> P x = Q x) \<Longrightarrow> List.find P xs = List.find Q xs"
  by (induction xs) auto

lemma first_occurrence_find:
  assumes "fs \<noteq> []"
  shows "first_occurrence fs d =
    (case List.find (\<lambda>i. take (length fs) (drop i d) = fs) [0..<length d + 1 - length fs] of
       None \<Rightarrow> - 1 | Some i \<Rightarrow> int i)"
proof (induction d)
  case Nil
  then show ?case
    using assms by (cases fs) auto
next
  case (Cons x d)
  show ?case
  proof (cases "length (x # d) + 1 - length fs")
    case 0
    then have "take (length fs) (x # d) \<noteq> fs" "length d + 1 - length fs = 0"
      by (auto dest: arg_cong [of _ _ length])
    then show ?thesis
      using Cons 0 by simp
  next
    case (Suc n)
    then have n: "length d + 1 - length fs = n"
      by auto
    have "[0..<Suc n] = 0 # map Suc [0..<n]"
      by (simp add: upt_conv_Cons map_Suc_upt del: upt_Suc)
    then show ?thesis
      using Cons unfolding Suc n by (auto simp: find_map comp_def split: option.splits)
  qed
qed

text \<open>
  C27. \<open>findBytes\<close> is the search for the first occurrence of the pattern in the stored bytes when
  the pattern starts with an ASCII character. A pattern that starts with a byte from 128 on is
  never found, because the byte of the buffer is unsigned and the byte of the pattern signed.
\<close>

theorem findBytes_first_occurrence:
  assumes "wf_buffer b" and "fs \<noteq> []"
  shows "findBytes fs (length fs) b = (if fs ! 0 < 128 then first_occurrence fs (stored b) else - 1)"
proof -
  let ?n = "length (stored b) + 1 - length fs" and ?m = "drop (pdata b) (blk b)"
  have len: "nat (getDataLen b - int (length fs) + 1) = ?n"
    using getDataLen_stored [OF assms(1)] by auto
  have sign: "uint x = sint y \<longleftrightarrow> x = y \<and> y < 128" for x y :: "8 word"
    by (rule signed_byte)
  have at: "found_at fs (length fs) ?m i \<longleftrightarrow> fs ! 0 < 128 \<and> take (length fs) (drop i (stored b)) = fs"
    if "i < ?n" for i
  proof -
    have "i + length fs \<le> pfree b - pdata b"
      using that length_stored [OF assms(1)] by auto
    then have sub: "take (length fs) (drop i (stored b)) = take (length fs) (drop i ?m)"
      unfolding stored_def by (simp add: drop_take min_def)
    have "?m ! i = fs ! 0" if "take (length fs) (drop i ?m) = fs"
    proof -
      have "take (length fs) (drop i ?m) ! 0 = fs ! 0" "i \<le> length ?m"
        using that assms(2) by (auto intro: ccontr)
      then show ?thesis
        using assms nth_drop [of "i + pdata b" "blk b" 0] by (auto simp: wf_buffer_def add.commute)
    qed
    then show ?thesis
      unfolding found_at_def sign sub by auto
  qed
  have "List.find (found_at fs (length fs) ?m) [0..<?n] =
      List.find (\<lambda>i. fs ! 0 < 128 \<and> take (length fs) (drop i (stored b)) = fs) [0..<?n]"
    by (rule find_cong_mem) (simp add: at)
  then show ?thesis
    unfolding findBytes_def Let_def len first_occurrence_find [OF assms(2)]
    by (cases "fs ! 0 < 128") (auto simp: find_Some_iff split: option.splits)
qed

theorem findBytes_first_occurrence_witness:
  "findBytes [13, 10] 2 \<lparr>blk = [71, 13, 13, 10, 0], pdata = 1, pfree = 4\<rparr> = 1"
proof -
  let ?b = "\<lparr>blk = [71, 13, 13, 10, 0], pdata = 1, pfree = 4\<rparr>"
  have "findBytes [13, 10] (length [13, 10 :: 8 word]) ?b = 1"
    by (subst findBytes_first_occurrence) (simp_all add: wf_buffer_def stored_def)
  moreover have "length [13, 10 :: 8 word] = 2"
    by simp
  ultimately show ?thesis
    by metis
qed

end
