(* ===== verification/Wire.thy ===== *)
theory Wire
  imports Data_Buffer "HOL-Library.Monad_Syntax"
begin

text \<open>
  Two predicates carry all proofs about messages. \<open>emits f xs\<close>: the encoder \<open>f\<close> appends exactly the
  bytes \<open>xs\<close> to any writable buffer with room for them. \<open>accepts r xs v\<close>: the decoder \<open>r\<close>, on any buffer that
  starts with \<open>xs\<close>, takes exactly \<open>xs\<close> from it and returns \<open>v\<close>, whatever bytes of later messages
  follow, and does not touch the block. Both compose along the statements of an encoder or decoder.
\<close>

definition emits :: "(data_buffer \<Rightarrow> data_buffer option) \<Rightarrow> bytes \<Rightarrow> bool" where
  "emits f xs \<longleftrightarrow> (\<forall>b. writable b \<longrightarrow> length (stored b) + length xs \<le> 2 ^ 29 \<longrightarrow>
     (\<exists>c. f b = Some c \<and> writable c \<and> stored c = stored b @ xs))"

definition accepts :: "(data_buffer \<Rightarrow> ('a \<times> data_buffer) option) \<Rightarrow> bytes \<Rightarrow> 'a \<Rightarrow> bool" where
  "accepts r xs v \<longleftrightarrow> (\<forall>b rest. wf_buffer b \<longrightarrow> stored b = xs @ rest \<longrightarrow>
     (\<exists>c. r b = Some (v, c) \<and> wf_buffer c \<and> blk c = blk b \<and> stored c = rest))"

named_theorems emits_rules \<open>what the statements of an encoder append\<close>
named_theorems accepts_rules \<open>what the statements of a decoder take\<close>

lemma emitsI:
  "(\<And>b. writable b \<Longrightarrow> length (stored b) + length xs \<le> 2 ^ 29 \<Longrightarrow>
     \<exists>c. f b = Some c \<and> writable c \<and> stored c = stored b @ xs) \<Longrightarrow> emits f xs"
  by (simp add: emits_def)

lemma emitsD:
  "emits f xs \<Longrightarrow> writable b \<Longrightarrow> length (stored b) + length xs \<le> 2 ^ 29 \<Longrightarrow>
     \<exists>c. f b = Some c \<and> writable c \<and> stored c = stored b @ xs"
  by (simp add: emits_def)

lemma acceptsI:
  "(\<And>b rest. wf_buffer b \<Longrightarrow> stored b = xs @ rest \<Longrightarrow>
     \<exists>c. r b = Some (v, c) \<and> wf_buffer c \<and> blk c = blk b \<and> stored c = rest) \<Longrightarrow> accepts r xs v"
  by (simp add: accepts_def)

lemma acceptsD:
  "accepts r xs v \<Longrightarrow> wf_buffer b \<Longrightarrow> stored b = xs @ rest \<Longrightarrow>
     \<exists>c. r b = Some (v, c) \<and> wf_buffer c \<and> blk c = blk b \<and> stored c = rest"
  by (simp add: accepts_def)

subsection \<open>Encoders\<close>

lemma emits_Some [emits_rules]: "emits (\<lambda>b. Some b) []"
  by (simp add: emits_def)

lemma emits_bind [emits_rules]:
  assumes "emits f xs" and "emits g ys"
  shows "emits (\<lambda>b. Option.bind (f b) g) (xs @ ys)"
proof (rule emitsI)
  fix b assume b: "writable b" "length (stored b) + length (xs @ ys) \<le> 2 ^ 29"
  obtain c where c: "f b = Some c" "writable c" "stored c = stored b @ xs"
    using emitsD [OF assms(1) b(1)] b(2) by auto
  with emitsD [OF assms(2) c(2)] b(2)
  show "\<exists>d. Option.bind (f b) g = Some d \<and> writable d \<and> stored d = stored b @ xs @ ys"
    by auto
qed

lemma emits_Int8 [emits_rules]: "emits (writeInt8 n) [n]"
  by (rule emitsI) (use fc8.writes in auto)

lemma emits_Int16 [emits_rules]: "emits (writeInt16 n) (bytes16 n)"
  by (rule emitsI) (use fc16.writes in auto)

lemma emits_Int32 [emits_rules]: "emits (writeInt32 n) (bytes32 n)"
  by (rule emitsI) (use fc32.writes in auto)

lemma emits_Int64 [emits_rules]: "emits (writeInt64 n) (bytes64 n)"
  by (rule emitsI) (use fc64.writes in auto)

lemma emits_Bytes [emits_rules]: "emits (writeBytes xs) xs"
  by (rule emitsI) (use writeBytes_result in auto)

lemma emits_if:
  assumes "c \<Longrightarrow> emits f xs" and "\<not> c \<Longrightarrow> emits g ys"
  shows "emits (\<lambda>b. if c then f b else g b) (if c then xs else ys)"
  using assms by (simp split: if_splits)

lemma emits_each [emits_rules]:
  assumes "\<And>x. x \<in> set xs \<Longrightarrow> emits (f x) (enc x)"
  shows "emits (write_each f xs) (concat (map enc xs))"
  using assms
proof (induction xs)
  case Nil
  then show ?case
    by (simp add: emits_def)
next
  case (Cons x xs)
  have "emits (\<lambda>b. Option.bind (f x b) (write_each f xs)) (enc x @ concat (map enc xs))"
    using Cons by (intro emits_bind) auto
  moreover have "write_each f (x # xs) = (\<lambda>b. Option.bind (f x b) (write_each f xs))"
    by (rule ext) simp
  ultimately show ?case
    by simp
qed

subsection \<open>Decoders\<close>

lemma accepts_Some: "accepts (\<lambda>b. Some (v, b)) [] v"
  by (simp add: accepts_def)

lemma accepts_bind:
  assumes "accepts r xs v" and "accepts (k v) ys w"
  shows "accepts (\<lambda>b. Option.bind (r b) (\<lambda>(v, b). k v b)) (xs @ ys) w"
proof (rule acceptsI)
  fix b rest assume b: "wf_buffer b" "stored b = (xs @ ys) @ rest"
  obtain c where c: "r b = Some (v, c)" "wf_buffer c" "stored c = ys @ rest" "blk c = blk b"
    using acceptsD [OF assms(1) b(1)] b(2) by auto
  show "\<exists>d. Option.bind (r b) (\<lambda>(v, b). k v b) = Some (w, d) \<and> wf_buffer d \<and> blk d = blk b \<and> stored d = rest"
    using acceptsD [OF assms(2) c(2,3)] c(1,4) by auto
qed

lemma accepts_Int8 [accepts_rules]: "accepts readInt8 [n] n"
  by (rule acceptsI) (use fc8.reads in auto)

lemma accepts_Int16 [accepts_rules]: "accepts readInt16 (bytes16 n) n"
  by (rule acceptsI) (use fc16.reads in auto)

lemma accepts_Int32 [accepts_rules]: "accepts readInt32 (bytes32 n) n"
  by (rule acceptsI) (use fc32.reads in auto)

lemma accepts_Int64 [accepts_rules]: "accepts readInt64 (bytes64 n) n"
  by (rule acceptsI) (use fc64.reads in auto)

lemma accepts_Bytes: "n = int (length xs) \<Longrightarrow> accepts (readBytes n) xs (Some xs)"
  by (rule acceptsI) (use readBytes_result in auto)

text \<open>The same step for a decoder that continues with \<open>k\<close>, one rule per kind of field.\<close>

lemmas accepts_field [accepts_rules] =
  accepts_bind [OF accepts_Int8] accepts_bind [OF accepts_Int16]
  accepts_bind [OF accepts_Int32] accepts_bind [OF accepts_Int64]

lemma getDataLen_front:
  "wf_buffer b \<Longrightarrow> stored b = xs @ rest \<Longrightarrow> getDataLen b = int (length xs) + int (length rest)"
  by (simp add: getDataLen_stored del: length_stored)

text \<open>A guard on the number of bytes left lets a complete message through.\<close>

lemma accepts_guard [accepts_rules]:
  assumes "accepts r xs v" and "int k \<le> int (length xs)"
  shows "accepts (\<lambda>b. if getDataLen b < int k then f b else r b) xs v"
proof (rule acceptsI)
  fix b rest assume b: "wf_buffer b" "stored b = xs @ rest"
  have "\<not> getDataLen b < int k"
    using getDataLen_front [OF b] assms(2) by simp
  then show "\<exists>c. (if getDataLen b < int k then f b else r b) = Some (v, c) \<and> wf_buffer c \<and> blk c = blk b \<and> stored c = rest"
    using acceptsD [OF assms(1) b] by simp
qed

text \<open>The last field of a decoder, after which the result is put together.\<close>

lemma accepts_end:
  assumes "accepts r xs v" and "w = g v"
  shows "accepts (\<lambda>b. Option.bind (r b) (\<lambda>(v, b). Some (g v, b))) xs w"
  using accepts_bind [OF assms(1), of "\<lambda>v b. Some (g v, b)" "[]" "g v"] assms(2)
  by (simp add: accepts_Some)

lemmas accepts_ends =
  accepts_end [OF accepts_Int8] accepts_end [OF accepts_Int16]
  accepts_end [OF accepts_Int32] accepts_end [OF accepts_Int64]

end
