(* ===== verification/Packet_Streamer.thy ===== *)
theory Packet_Streamer
  imports Wire
begin

text \<open>
  Frames on a connection (\<open>packets/packet_streamer.cpp\<close>, \<open>tbnet/src/tcpconnection.cpp\<close>): every packet
  is preceded by a flag, the id of its channel, its code and the length of its body. The theory
  models the streamer, which is a table of functions of the packet classes away from the packets
  themselves, and the loop that cuts the bytes of a socket into packets, in whatever pieces the
  socket delivers them.
\<close>

section \<open>The streamer\<close>

record packet_header =
  chid :: "32 word"
  pcode :: "32 word"
  dataLen :: "32 word"

definition TAIR_PACKET_FLAG :: "32 word" where
  "TAIR_PACKET_FLAG = 0x6d426454"

text \<open>
  The virtual functions of a packet class: \<open>encode\<close> returns a truth value; \<open>decode\<close> gives \<open>None\<close> in
  the first component when it returns false, with the buffer as it leaves it.
\<close>

type_synonym 'p packet_encode = "'p \<Rightarrow> data_buffer \<Rightarrow> (bool \<times> data_buffer) option"
type_synonym 'p packet_decode = "packet_header \<Rightarrow> data_buffer \<Rightarrow> ('p option \<times> data_buffer) option"

definition getPacketInfo ::
  "32 word \<Rightarrow> bool \<Rightarrow> data_buffer \<Rightarrow> packet_header \<Rightarrow> bool \<Rightarrow> (bool \<times> data_buffer \<times> packet_header \<times> bool) option"
where
  "getPacketInfo packet_flag existPacketHeader input header broken =
     (if existPacketHeader then
        if getDataLen input < 16 then Some (False, input, header, broken)
        else do {
          (fl, input) \<leftarrow> readInt32 input;
          (ch, input) \<leftarrow> readInt32 input;
          (pc, input) \<leftarrow> readInt32 input;
          (dl, input) \<leftarrow> readInt32 input;
          Some (True, input, \<lparr>chid = ch, pcode = pc, dataLen = dl\<rparr>,
                if fl \<noteq> packet_flag \<or> sint dl < 0 \<or> sint dl > 0x4000000 then True else broken) }
      else if getDataLen input = 0 then Some (False, input, header, broken)
      else Some (True, input, header, broken))"

text \<open>The factory gives for a code the \<open>decode\<close> of a new packet of that class, or no packet.\<close>

definition streamer_decode ::
  "(32 word \<Rightarrow> 'p packet_decode option) \<Rightarrow> data_buffer \<Rightarrow> packet_header \<Rightarrow> ('p option \<times> data_buffer) option"
where
  "streamer_decode createPacket input header =
     (case createPacket (pcode header) of
        Some packet_dec \<Rightarrow> packet_dec header input
      | None \<Rightarrow> Some (None, drainData (nat (sint (dataLen header))) input))"

definition streamer_encode ::
  "32 word \<Rightarrow> bool \<Rightarrow> 'p packet_encode \<Rightarrow> packet_header \<Rightarrow> 'p \<Rightarrow> data_buffer \<Rightarrow> (bool \<times> packet_header \<times> data_buffer) option"
where
  "streamer_encode packet_flag existPacketHeader packet_enc header packet output =
     (let oldLen = getDataLen output
      in do {
        (dataLenOffset, headerSize, output) \<leftarrow>
          (if existPacketHeader then do {
             output \<leftarrow> writeInt32 packet_flag output;
             output \<leftarrow> writeInt32 (chid header) output;
             output \<leftarrow> writeInt32 (pcode header) output;
             let dataLenOffset = getDataLen output;
             output \<leftarrow> writeInt32 0 output;
             Some (dataLenOffset, 16, output) }
           else Some (- 1, 0, output));
        (ok, output) \<leftarrow> packet_enc packet output;
        (if \<not> ok then do {
           output \<leftarrow> stripData (nat (getDataLen output - oldLen)) output;
           Some (False, header, output) }
         else
           let header = header\<lparr>dataLen := of_int (getDataLen output - oldLen - headerSize)\<rparr>
           in if dataLenOffset \<ge> 0 then do {
                output \<leftarrow> fillInt32 (pdata output + nat dataLenOffset) (dataLen header) output;
                Some (True, header, output) }
              else Some (True, header, output)) })"

section \<open>Reading from a connection\<close>

text \<open>
  The part of a connection that \<open>readData\<close> works on. \<open>handled\<close> is the state of the rest, which
  \<open>handlePacket\<close> changes.
\<close>

record 'h tcp_connection =
  inbuf :: data_buffer
  gotHeader :: bool
  packetHeader :: packet_header
  handled :: 'h

definition READ_WRITE_SIZE :: nat where
  "READ_WRITE_SIZE = 8192"

text \<open>
  The inner loop of \<open>readData\<close>: it ends with the flag \<open>broken\<close> when a header is wrong or the bytes
  do not suffice for the next packet. It is a partial function, since a \<open>decode\<close> may move the read
  pointer backwards.
\<close>

partial_function (option) read_packets ::
  "(data_buffer \<Rightarrow> packet_header \<Rightarrow> bool \<Rightarrow> (bool \<times> data_buffer \<times> packet_header \<times> bool) option) \<Rightarrow>
   ('h \<Rightarrow> data_buffer \<Rightarrow> packet_header \<Rightarrow> ('h \<times> data_buffer) option) \<Rightarrow>
   'h tcp_connection \<Rightarrow> (bool \<times> 'h tcp_connection) option"
where
  "read_packets info handle c =
     Option.bind
       (if \<not> gotHeader c
        then Option.bind (info (inbuf c) (packetHeader c) False) (\<lambda>(got, b, h, broken).
               Some (broken, c\<lparr>inbuf := b, gotHeader := got, packetHeader := h\<rparr>))
        else Some (False, c))
       (\<lambda>(broken, c).
          if broken then Some (True, c)
          else if gotHeader c \<and> getDataLen (inbuf c) \<ge> sint (dataLen (packetHeader c))
          then Option.bind (handle (handled c) (inbuf c) (packetHeader c)) (\<lambda>(hs, b).
                 read_packets info handle
                   (c\<lparr>handled := hs, inbuf := b, gotHeader := False,
                      packetHeader := (packetHeader c)\<lparr>dataLen := 0\<rparr>\<rparr>))
          else Some (False, c))"

declare read_packets.simps [code]

text \<open>The bytes the socket has put at the free pointer are taken into the buffer.\<close>

definition pour_chunk :: "bytes \<Rightarrow> 'h tcp_connection \<Rightarrow> 'h tcp_connection option" where
  "pour_chunk xs c = do {
     b \<leftarrow> fill_bytes (pfree (inbuf c)) xs (inbuf c);
     b \<leftarrow> pourData (length xs) b;
     Some (c\<lparr>inbuf := b\<rparr>) }"

text \<open>The room asked for before the next \<open>read\<close>: what is missing of a large packet, or the usual size.\<close>

definition next_room :: "'h tcp_connection \<Rightarrow> nat" where
  "next_room c =
     (let missing = sint (dataLen (packetHeader c)) - getDataLen (inbuf c)
      in if missing > int READ_WRITE_SIZE then nat missing else READ_WRITE_SIZE)"

text \<open>
  The outer loop, given what successive \<open>read\<close> calls of the socket return: some bytes (at most as
  many as there is room for), 0 at the end of the stream, or \<open>-1\<close> with \<open>EAGAIN\<close> or another error. It
  returns the flag \<open>broken\<close> and the last result of \<open>read\<close>.
\<close>

datatype read_result = Bytes bytes | Closed | WouldBlock | Failed

fun read_rounds ::
  "(data_buffer \<Rightarrow> packet_header \<Rightarrow> bool \<Rightarrow> (bool \<times> data_buffer \<times> packet_header \<times> bool) option) \<Rightarrow>
   ('h \<Rightarrow> data_buffer \<Rightarrow> packet_header \<Rightarrow> ('h \<times> data_buffer) option) \<Rightarrow>
   read_result list \<Rightarrow> nat \<Rightarrow> 'h tcp_connection \<Rightarrow> (bool \<times> read_result \<times> 'h tcp_connection) option"
where
  "read_rounds info handle (Bytes xs # rs) readCnt c = do {
     c \<leftarrow> pour_chunk xs c;
     let freeLen = getFreeLen (inbuf c);
     (broken, c) \<leftarrow> read_packets info handle c;
     (if broken \<or> freeLen > 0 \<or> readCnt \<ge> 10 then Some (broken, Bytes xs, c)
      else do {
        b \<leftarrow> ensureFree (next_room c) (inbuf c);
        read_rounds info handle rs (readCnt + 1) (c\<lparr>inbuf := b\<rparr>) }) }"
| "read_rounds info handle (r # rs) readCnt c = Some (False, r, c)"
| "read_rounds info handle [] readCnt c = Some (False, WouldBlock, c)"

definition readData ::
  "(data_buffer \<Rightarrow> packet_header \<Rightarrow> bool \<Rightarrow> (bool \<times> data_buffer \<times> packet_header \<times> bool) option) \<Rightarrow>
   ('h \<Rightarrow> data_buffer \<Rightarrow> packet_header \<Rightarrow> ('h \<times> data_buffer) option) \<Rightarrow>
   read_result list \<Rightarrow> 'h tcp_connection \<Rightarrow> (bool \<times> 'h tcp_connection) option"
where
  "readData info handle rs c = do {
     b \<leftarrow> ensureFree READ_WRITE_SIZE (inbuf c);
     (broken, ret, c) \<leftarrow> read_rounds info handle rs 0 (c\<lparr>inbuf := b\<rparr>);
     let c = c\<lparr>inbuf := shrink (inbuf c)\<rparr>;
     (if \<not> broken then
        Some (\<not> (case ret of Closed \<Rightarrow> True | Failed \<Rightarrow> True | _ \<Rightarrow> False), c)
      else Some (False, c\<lparr>gotHeader := False\<rparr>)) }"

section \<open>Frames\<close>

definition header_wire :: "32 word \<Rightarrow> packet_header \<Rightarrow> bytes" where
  "header_wire fl h = bytes32 fl @ bytes32 (chid h) @ bytes32 (pcode h) @ bytes32 (dataLen h)"

lemma length_header_wire [simp]: "length (header_wire fl h) = 16"
  by (simp add: header_wire_def)

definition good_header :: "packet_header \<Rightarrow> bool" where
  "good_header h \<longleftrightarrow> 0 \<le> sint (dataLen h) \<and> sint (dataLen h) \<le> 0x4000000"

lemma getPacketInfo_short:
  assumes "wf_buffer b" and "length (stored b) < 16"
  shows "getPacketInfo fl True b h broken = Some (False, b, h, broken)"
  using assms by (simp add: getPacketInfo_def getDataLen_stored del: length_stored)

lemma accepts_getPacketInfo:
  assumes "wf_buffer b" and "stored b = header_wire fl h @ rest" and "good_header h"
  shows "\<exists>c. getPacketInfo fl True b h0 broken = Some (True, c, h, broken) \<and> wf_buffer c \<and> blk c = blk b \<and> stored c = rest"
proof -
  have long: "\<not> getDataLen b < 16"
    using getDataLen_front [OF assms(1,2)] by simp
  obtain b1 where b1: "readInt32 b = Some (fl, b1)" "wf_buffer b1"
      "stored b1 = bytes32 (chid h) @ bytes32 (pcode h) @ bytes32 (dataLen h) @ rest" "blk b1 = blk b"
    using acceptsD [OF accepts_Int32, of b fl] assms(1,2) by (auto simp: header_wire_def)
  obtain b2 where b2: "readInt32 b1 = Some (chid h, b2)" "wf_buffer b2"
      "stored b2 = bytes32 (pcode h) @ bytes32 (dataLen h) @ rest" "blk b2 = blk b1"
    using acceptsD [OF accepts_Int32 b1(2,3)] by auto
  obtain b3 where b3: "readInt32 b2 = Some (pcode h, b3)" "wf_buffer b3" "stored b3 = bytes32 (dataLen h) @ rest" "blk b3 = blk b2"
    using acceptsD [OF accepts_Int32 b2(2,3)] by auto
  obtain b4 where b4: "readInt32 b3 = Some (dataLen h, b4)" "wf_buffer b4" "stored b4 = rest" "blk b4 = blk b3"
    using acceptsD [OF accepts_Int32 b3(2,3)] by auto
  show ?thesis
    using long b1(1,4) b2(1,4) b3(1,4) b4 assms(3) by (simp add: getPacketInfo_def good_header_def)
qed

lemma header_wire_eq: "header_wire fl g = header_wire fl h \<longleftrightarrow> g = h"
proof
  assume eq: "header_wire fl g = header_wire fl h"
  have inj: "m = n" if "bytes32 m = bytes32 n" for m n
    using arg_cong [OF that, of "join_bytes :: bytes \<Rightarrow> 32 word"] by simp
  have "chid g = chid h" "pcode g = pcode h" "dataLen g = dataLen h"
    using eq inj unfolding header_wire_def by (auto simp: append_eq_append_conv)
  then show "g = h"
    by simp
qed simp

lemma fill_stored:
  assumes "wf_buffer b" and "stored b = xs @ ys @ zs" and "length ys = length ws"
  shows "\<exists>c. fill_bytes (pdata b + length xs) ws b = Some c \<and> wf_buffer c \<and> stored c = xs @ ws @ zs
             \<and> pdata c = pdata b \<and> length (blk c) = length (blk b)"
proof -
  define pre where "pre = take (pdata b) (blk b)"
  define post where "post = drop (pfree b) (blk b)"
  have len: "pfree b = pdata b + length (xs @ ys @ zs)" "length pre = pdata b" "pfree b \<le> length (blk b)"
    using assms(1) length_stored [OF assms(1)] unfolding assms(2) by (auto simp: wf_buffer_def pre_def)
  have blk: "blk b = pre @ (xs @ ys @ zs) @ post"
  proof -
    have "drop (pdata b) (blk b) = stored b @ post"
      unfolding stored_def post_def using len(1)
      by (metis append_take_drop_id drop_drop le_add1 le_add_diff_inverse2)
    then show ?thesis
      unfolding pre_def assms(2) [symmetric] by (metis append_take_drop_id)
  qed
  have "poke (pdata b + length xs) ws (blk b) = pre @ (xs @ ws @ zs) @ post"
    using len(2) assms(3) by (simp add: blk poke_def)
  then show ?thesis
    using len assms(3) blk by (auto simp: fill_bytes_def wf_buffer_def stored_def)
qed

text \<open>
  The packets of a program: what the streamer may rely on of \<open>encode\<close>, \<open>decode\<close> and the factory. The
  packet that arrives may differ from the one sent (\<open>received\<close>), its body may not.
\<close>

locale packet_codec =
  fixes enc :: "'p packet_encode"
    and create :: "32 word \<Rightarrow> 'p packet_decode option"
    and code :: "'p \<Rightarrow> 32 word"
    and valid :: "'p \<Rightarrow> bool"
    and body :: "'p \<Rightarrow> bytes"
    and received :: "'p \<Rightarrow> 'p"
  assumes body_limit: "valid p \<Longrightarrow> length (body p) \<le> 0x4000000"
    and encodes: "valid p \<Longrightarrow> writable b \<Longrightarrow> length (stored b) + length (body p) \<le> 2 ^ 29 \<Longrightarrow>
      \<exists>c. enc p b = Some (True, c) \<and> writable c \<and> stored c = stored b @ body p"
    and decodes: "valid p \<Longrightarrow> pcode h = code p \<Longrightarrow> dataLen h = of_nat (length (body p)) \<Longrightarrow>
      \<exists>dec. create (code p) = Some dec \<and> accepts (dec h) (body p) (Some (received p))"

text \<open>The header and the frame of a packet sent on a channel.\<close>

definition frame_header :: "('p \<Rightarrow> 32 word) \<Rightarrow> ('p \<Rightarrow> bytes) \<Rightarrow> 32 word \<times> 'p \<Rightarrow> packet_header" where
  "frame_header code body cp =
     \<lparr>chid = fst cp, pcode = code (snd cp), dataLen = of_nat (length (body (snd cp)))\<rparr>"

definition frame :: "32 word \<Rightarrow> ('p \<Rightarrow> 32 word) \<Rightarrow> ('p \<Rightarrow> bytes) \<Rightarrow> 32 word \<times> 'p \<Rightarrow> bytes" where
  "frame fl code body cp = header_wire fl (frame_header code body cp) @ body (snd cp)"

text \<open>The server's part of \<open>handlePacket\<close>: every packet, or \<open>None\<close> for a bad one, goes to the adapter.\<close>

definition handlePacket_server ::
  "(32 word \<Rightarrow> 'p packet_decode option) \<Rightarrow> (packet_header \<times> 'p option) list \<Rightarrow> data_buffer \<Rightarrow> packet_header \<Rightarrow>
   ((packet_header \<times> 'p option) list \<times> data_buffer) option"
where
  "handlePacket_server createPacket hs input header = do {
     (packet, input) \<leftarrow> streamer_decode createPacket input header;
     Some (hs @ [(header, packet)], input) }"

text \<open>
  One call of \<open>readData\<close> for every piece of the stream the socket delivers, as long as the connection
  stays usable.
\<close>

fun read_pieces ::
  "(data_buffer \<Rightarrow> packet_header \<Rightarrow> bool \<Rightarrow> (bool \<times> data_buffer \<times> packet_header \<times> bool) option) \<Rightarrow>
   ('h \<Rightarrow> data_buffer \<Rightarrow> packet_header \<Rightarrow> ('h \<times> data_buffer) option) \<Rightarrow>
   bytes list \<Rightarrow> 'h tcp_connection \<Rightarrow> 'h tcp_connection option"
where
  "read_pieces info handle [] c = Some c"
| "read_pieces info handle (xs # xss) c = do {
     (ok, c) \<leftarrow> readData info handle [Bytes xs] c;
     (if ok then read_pieces info handle xss c else None) }"

definition new_connection :: "'h \<Rightarrow> 'h tcp_connection" where
  "new_connection hs = \<lparr>inbuf = new_data_buffer, gotHeader = False,
     packetHeader = \<lparr>chid = 0, pcode = 0, dataLen = 0\<rparr>, handled = hs\<rparr>"

lemma pour_chunk_result:
  assumes "wf_buffer (inbuf c)" and "pfree (inbuf c) + length xs \<le> length (blk (inbuf c))"
  shows "\<exists>b. pour_chunk xs c = Some (c\<lparr>inbuf := b\<rparr>) \<and> wf_buffer b \<and> stored b = stored (inbuf c) @ xs
    \<and> length (blk b) = length (blk (inbuf c))"
proof -
  let ?b = "store_bytes xs (inbuf c)"
  have "pour_chunk xs c = Some (c\<lparr>inbuf := ?b\<rparr>)"
    using assms(2) by (simp add: pour_chunk_def fill_bytes_def pourData_def getFreeLen_def poke_def store_bytes_def)
  then show ?thesis
    using store_bytes_result(1,2) [OF assms] assms(2) by (auto simp: store_bytes_def poke_def)
qed

text \<open>The bytes a connection has received and not yet handled; its block stays short.\<close>

definition awaiting :: "32 word \<Rightarrow> 'h tcp_connection \<Rightarrow> bytes \<Rightarrow> bool" where
  "awaiting fl c x \<longleftrightarrow> wf_buffer (inbuf c) \<and> length (blk (inbuf c)) < 2 ^ 29
     \<and> (if gotHeader c then x = header_wire fl (packetHeader c) @ stored (inbuf c)
        else x = stored (inbuf c) \<and> dataLen (packetHeader c) = 0)"

context packet_codec
begin

lemma header_good: "valid (snd cp) \<Longrightarrow> good_header (frame_header code body cp)"
  and header_len: "valid (snd cp) \<Longrightarrow> sint (dataLen (frame_header code body cp)) = int (length (body (snd cp)))"
proof -
  assume "valid (snd cp)"
  then have "length (body (snd cp)) \<le> 0x4000000"
    by (rule body_limit)
  then have "sint (of_nat (length (body (snd cp))) :: 32 word) = int (length (body (snd cp)))"
    by (intro sint_of_nat_small) simp
  then show "good_header (frame_header code body cp)"
      and "sint (dataLen (frame_header code body cp)) = int (length (body (snd cp)))"
    using \<open>length (body (snd cp)) \<le> 0x4000000\<close> by (simp_all add: good_header_def frame_header_def)
qed

lemma encode_frame:
  assumes "valid p" and "writable b" and "length (stored b) + length (body p) + 16 \<le> 2 ^ 29"
    and "pcode h = code p"
  shows "\<exists>c. streamer_encode fl True enc h p b = Some (True, frame_header code body (chid h, p), c)
           \<and> writable c \<and> stored c = stored b @ frame fl code body (chid h, p)"
proof -
  obtain b1 where b1: "writeInt32 fl b = Some b1" "writable b1" "stored b1 = stored b @ bytes32 fl"
    using emitsD [OF emits_Int32 assms(2)] assms(3) by auto
  obtain b2 where b2: "writeInt32 (chid h) b1 = Some b2" "writable b2" "stored b2 = stored b1 @ bytes32 (chid h)"
    using emitsD [OF emits_Int32 b1(2)] b1(3) assms(3) by auto
  obtain b3 where b3: "writeInt32 (pcode h) b2 = Some b3" "writable b3" "stored b3 = stored b2 @ bytes32 (pcode h)"
    using emitsD [OF emits_Int32 b2(2)] b1(3) b2(3) assms(3) by auto
  obtain b4 where b4: "writeInt32 0 b3 = Some b4" "writable b4" "stored b4 = stored b3 @ bytes32 0"
    using emitsD [OF emits_Int32 b3(2)] b1(3) b2(3) b3(3) assms(3) by auto
  obtain b5 where b5: "enc p b4 = Some (True, b5)" "writable b5" "stored b5 = stored b4 @ body p"
    using encodes [OF assms(1) b4(2)] b1(3) b2(3) b3(3) b4(3) assms(3) by auto
  let ?xs = "stored b @ bytes32 fl @ bytes32 (chid h) @ bytes32 (pcode h)"
  have st: "stored b5 = ?xs @ bytes32 0 @ body p"
    using b1(3) b2(3) b3(3) b4(3) b5(3) by simp
  let ?n = "of_nat (length (body p)) :: 32 word"
  obtain c where c: "fill_bytes (pdata b5 + length ?xs) (bytes32 ?n) b5 = Some c" "writable c"
      "stored c = ?xs @ bytes32 ?n @ body p"
    using fill_stored [OF writable_wf [OF b5(2)] st, of "bytes32 ?n"] b5(2) by (auto simp: writable_def)
  have off: "getDataLen b3 = int (length ?xs)" and len: "getDataLen b5 - getDataLen b - 16 = int (length (body p))"
    using getDataLen_stored [OF writable_wf [OF b3(2)]] getDataLen_stored [OF writable_wf [OF b5(2)]] getDataLen_stored [OF writable_wf [OF assms(2)]]
      b1(3) b2(3) b3(3) st by (simp_all del: length_stored length_stored_writable)
  have "h\<lparr>dataLen := ?n\<rparr> = frame_header code body (chid h, p)"
    using assms(4) by (simp add: frame_header_def)
  then have "streamer_encode fl True enc h p b = Some (True, frame_header code body (chid h, p), c)"
    unfolding streamer_encode_def Let_def using b1(1) b2(1) b3(1) b4(1) b5(1) c(1)
    by (simp add: off len fillInt32_def del: length_append of_int_diff)
  then show ?thesis
    using c(2,3) assms(4) by (simp add: frame_def header_wire_def frame_header_def)
qed

abbreviation "info fl \<equiv> getPacketInfo fl True"
abbreviation "handler \<equiv> handlePacket_server create"
abbreviation "frames fl qs \<equiv> concat (map (frame fl code body) qs)"
abbreviation "events \<equiv> map (\<lambda>q. (frame_header code body q, Some (received (snd q))))"

lemma length_frame: "length (frame fl code body q) = 16 + length (body (snd q))"
  by (simp add: frame_def)

text \<open>A header that has been read: the loop goes on as if it had been there from the start.\<close>

lemma read_packets_header:
  assumes "\<not> gotHeader c" and "info fl (inbuf c) (packetHeader c) False = Some (True, b, h, False)"
  shows "read_packets (info fl) handle c =
         read_packets (info fl) handle (c\<lparr>inbuf := b, gotHeader := True, packetHeader := h\<rparr>)"
  by (subst (1 2) read_packets.simps) (simp add: assms)

lemma read_packets_no_header:
  assumes "\<not> gotHeader c" and "wf_buffer (inbuf c)" and "length (stored (inbuf c)) < 16"
  shows "read_packets (info fl) handle c = Some (False, c)"
proof -
  have "c\<lparr>inbuf := inbuf c, gotHeader := False, packetHeader := packetHeader c\<rparr> = c"
    using assms(1) by simp
  then show ?thesis
    using assms(1) getPacketInfo_short [OF assms(2,3), of fl "packetHeader c" False]
    by (subst read_packets.simps) simp
qed

text \<open>A header and its whole body: the packet is handled and the loop goes on behind it.\<close>

lemma read_packets_body:
  assumes "gotHeader c" and "packetHeader c = frame_header code body q" and "valid (snd q)"
    and "wf_buffer (inbuf c)" and "stored (inbuf c) = body (snd q) @ rest"
  shows "\<exists>b. wf_buffer b \<and> blk b = blk (inbuf c) \<and> stored b = rest \<and>
    read_packets (info fl) handler c = read_packets (info fl) handler
      (c\<lparr>handled := handled c @ events [q], inbuf := b, gotHeader := False,
         packetHeader := (packetHeader c)\<lparr>dataLen := 0\<rparr>\<rparr>)"
proof -
  obtain dec where dec: "create (code (snd q)) = Some dec"
      "accepts (dec (packetHeader c)) (body (snd q)) (Some (received (snd q)))"
    using decodes [OF assms(3), of "packetHeader c"] assms(2) by (auto simp: frame_header_def)
  obtain b where b: "dec (packetHeader c) (inbuf c) = Some (Some (received (snd q)), b)" "wf_buffer b" "stored b = rest" "blk b = blk (inbuf c)"
    using acceptsD [OF dec(2) assms(4,5)] by auto
  have "pcode (packetHeader c) = code (snd q)"
    using assms(2) by (simp add: frame_header_def)
  then have "handler (handled c) (inbuf c) (packetHeader c) = Some (handled c @ events [q], b)"
    using dec(1) b(1) assms(2) by (simp add: handlePacket_server_def streamer_decode_def)
  moreover have "getDataLen (inbuf c) \<ge> sint (dataLen (packetHeader c))"
    using getDataLen_front [OF assms(4,5)] header_len [OF assms(3)] assms(2) by simp
  ultimately show ?thesis
    using assms(1) b(2-4) by (intro exI [of _ b]) (subst (1) read_packets.simps, simp)
qed

lemma read_packets_no_body:
  assumes "gotHeader c" and "packetHeader c = frame_header code body q" and "valid (snd q)"
    and "wf_buffer (inbuf c)" and "length (stored (inbuf c)) < length (body (snd q))"
  shows "read_packets (info fl) handle c = Some (False, c)"
  using assms header_len [OF assms(3)] getDataLen_stored [OF assms(4)]
  by (subst read_packets.simps) (simp del: length_stored)

text \<open>The state after a run of the loop on a stream of frames of which \<open>y\<close> has not arrived yet.\<close>

definition progress ::
  "32 word \<Rightarrow> (packet_header \<times> 'p option) list tcp_connection \<Rightarrow> (32 word \<times> 'p) list \<Rightarrow> bytes \<Rightarrow>
   (packet_header \<times> 'p option) list tcp_connection \<Rightarrow> bool" where
  "progress fl c qs y d \<longleftrightarrow> (\<exists>n x. n \<le> length qs \<and> handled d = handled c @ events (take n qs)
     \<and> awaiting fl d x \<and> x @ y = frames fl (drop n qs) \<and> (y = [] \<longrightarrow> n = length qs)
     \<and> length (stored (inbuf d)) \<le> 0x4000000)"

lemma progress_stuck:
  assumes "awaiting fl c x" and "x @ y = frames fl qs" and "y = [] \<longrightarrow> qs = []"
    and "length (stored (inbuf c)) \<le> 0x4000000"
  shows "progress fl c qs y c"
  unfolding progress_def using assms by (intro exI [of _ 0] exI [of _ x]) auto

lemma progress_step:
  assumes "progress fl c' qs y d" and "handled c' = handled c @ events [q]"
  shows "progress fl c (q # qs) y d"
proof -
  obtain n x where "n \<le> length qs" "handled d = handled c' @ events (take n qs)" "awaiting fl d x"
      "x @ y = frames fl (drop n qs)" "y = [] \<longrightarrow> n = length qs" "length (stored (inbuf d)) \<le> 0x4000000"
    using assms(1) unfolding progress_def by blast
  then show ?thesis
    unfolding progress_def using assms(2) by (intro exI [of _ "Suc n"] exI [of _ x]) auto
qed

lemma append_split: "xs @ y = us @ vs \<Longrightarrow> length us \<le> length xs \<Longrightarrow> \<exists>ws. xs = us @ ws \<and> ws @ y = vs"
  by (metis append_assoc append_eq_append_conv_if append_eq_conv_conj append_take_drop_id)

lemma read_frames_header:
  assumes IH: "\<And>c x. awaiting fl c x \<Longrightarrow> x @ y = frames fl qs \<Longrightarrow>
      \<exists>d. read_packets (info fl) handler c = Some (False, d) \<and> progress fl c qs y d"
    and "valid (snd q)" and "gotHeader c" and "awaiting fl c x" and "x @ y = frames fl (q # qs)"
  shows "\<exists>d. read_packets (info fl) handler c = Some (False, d) \<and> progress fl c (q # qs) y d"
proof -
  have x: "x = header_wire fl (packetHeader c) @ stored (inbuf c)" and wf: "wf_buffer (inbuf c)" "length (blk (inbuf c)) < 2 ^ 29"
    using assms(3,4) by (auto simp: awaiting_def)
  have "header_wire fl (packetHeader c) @ stored (inbuf c) @ y
      = header_wire fl (frame_header code body q) @ body (snd q) @ frames fl qs"
    using assms(5) unfolding x by (simp add: frame_def)
  then have h: "packetHeader c = frame_header code body q" and st: "stored (inbuf c) @ y = body (snd q) @ frames fl qs"
    by (simp_all add: append_eq_append_conv header_wire_eq)
  show ?thesis
  proof (cases "length (body (snd q)) \<le> length (stored (inbuf c))")
    case True
    obtain rest where rest: "stored (inbuf c) = body (snd q) @ rest" "rest @ y = frames fl qs"
      using append_split [OF st True] by auto
    obtain b where b: "wf_buffer b" "stored b = rest" "blk b = blk (inbuf c)"
      "read_packets (info fl) handler c = read_packets (info fl) handler
        (c\<lparr>handled := handled c @ events [q], inbuf := b, gotHeader := False,
           packetHeader := (packetHeader c)\<lparr>dataLen := 0\<rparr>\<rparr>)"
      using read_packets_body [OF assms(3) h assms(2) wf(1) rest(1)] by blast
    let ?c = "c\<lparr>handled := handled c @ events [q], inbuf := b, gotHeader := False,
           packetHeader := (packetHeader c)\<lparr>dataLen := 0\<rparr>\<rparr>"
    have "awaiting fl ?c rest"
      using b(1-3) wf(2) by (simp add: awaiting_def)
    from IH [OF this rest(2)] obtain d where
        "read_packets (info fl) handler ?c = Some (False, d)" "progress fl ?c qs y d"
      by blast
    then show ?thesis
      using b(4) progress_step [of fl ?c qs y d c q] by auto
  next
    case False
    then have "read_packets (info fl) handler c = Some (False, c)"
      using read_packets_no_body [OF assms(3) h assms(2) wf(1)] by simp
    moreover have "y \<noteq> []"
    proof
      assume "y = []"
      then show False
        using st False by (auto dest: arg_cong [of _ _ length])
    qed
    ultimately show ?thesis
      using progress_stuck [OF assms(4,5)] False body_limit [OF assms(2)] by auto
  qed
qed

lemma read_frames:
  assumes "awaiting fl c x" and "x @ y = frames fl qs" and "\<forall>q\<in>set qs. valid (snd q)"
  shows "\<exists>d. read_packets (info fl) handler c = Some (False, d) \<and> progress fl c qs y d"
  using assms
proof (induction qs arbitrary: c x)
  case Nil
  then have "stored (inbuf c) = []" "\<not> gotHeader c" "wf_buffer (inbuf c)"
    by (auto simp: awaiting_def header_wire_def bytes32_def split: if_splits)
  then show ?case
    using read_packets_no_header [of c fl handler] progress_stuck [OF Nil(1,2)] by auto
next
  case (Cons q qs)
  have got: "\<exists>d. read_packets (info fl) handler c = Some (False, d) \<and> progress fl c (q # qs) y d"
    if "gotHeader c" "awaiting fl c x" "x @ y = frames fl (q # qs)" for c x
    using Cons.IH Cons.prems(3) that by (intro read_frames_header) auto
  show ?case
  proof (cases "gotHeader c \<or> length x < 16")
    case True
    show ?thesis
    proof (cases "gotHeader c")
      case True
      then show ?thesis
        using got [of c x] Cons.prems by auto
    next
      case False
      with True Cons.prems(1) have "x = stored (inbuf c)" "wf_buffer (inbuf c)" "length x < 16"
        by (auto simp: awaiting_def)
      moreover have "y \<noteq> []"
        using Cons.prems(2) \<open>length x < 16\<close> length_frame [of fl q] by (auto dest: arg_cong [of _ _ length])
      ultimately show ?thesis
        using False read_packets_no_header [of c fl handler] progress_stuck [OF Cons.prems(1,2)] by auto
    qed
  next
    case False
    then have x: "x = stored (inbuf c)" and wf: "wf_buffer (inbuf c)" "length (blk (inbuf c)) < 2 ^ 29"
      using Cons.prems(1) by (auto simp: awaiting_def)
    let ?h = "frame_header code body q"
    have "x @ y = header_wire fl ?h @ body (snd q) @ frames fl qs"
      using Cons.prems(2) by (simp add: frame_def [of fl code body q])
    then obtain ws where ws: "x = header_wire fl ?h @ ws"
      using append_split [of x y "header_wire fl ?h"] False by auto
    obtain b where b: "info fl (inbuf c) (packetHeader c) False = Some (True, b, ?h, False)"
        "wf_buffer b" "stored b = ws" "blk b = blk (inbuf c)"
      using accepts_getPacketInfo [OF wf(1) _ header_good, of fl q ws] x ws Cons.prems(3) by auto
    let ?c = "c\<lparr>inbuf := b, gotHeader := True, packetHeader := ?h\<rparr>"
    have "awaiting fl ?c x"
      using b(2-4) wf(2) ws by (simp add: awaiting_def)
    then obtain d where "read_packets (info fl) handler ?c = Some (False, d)" "progress fl ?c (q # qs) y d"
      using got [of ?c x] Cons.prems by auto
    then show ?thesis
      using read_packets_header [of c fl b ?h handler] b(1) False by (auto simp: progress_def)
  qed
qed

lemma progress_inbuf:
  assumes "progress fl c qs y d" and "wf_buffer b" and "stored b = stored (inbuf d)" and "length (blk b) < 2 ^ 29"
  shows "progress fl c qs y (d\<lparr>inbuf := b\<rparr>)"
  using assms by (fastforce simp: progress_def awaiting_def split: if_splits)

lemma next_room_limit:
  assumes "awaiting fl d x" and "x @ y = frames fl qs" and "\<forall>q\<in>set qs. valid (snd q)"
  shows "next_room d \<le> 0x4000000"
proof (cases "gotHeader d")
  case True
  have "qs \<noteq> []"
    using assms True by (auto simp: awaiting_def header_wire_def bytes32_def)
  then obtain q qs' where qs: "qs = q # qs'"
    by (cases qs) auto
  have "header_wire fl (packetHeader d) @ stored (inbuf d) @ y
      = header_wire fl (frame_header code body q) @ body (snd q) @ frames fl qs'"
    using assms(1,2) True unfolding qs by (simp add: awaiting_def frame_def [of fl code body q])
  then have "packetHeader d = frame_header code body q"
    by (simp add: append_eq_append_conv header_wire_eq)
  moreover have "0 \<le> getDataLen (inbuf d)"
    using assms(1) by (simp add: awaiting_def getDataLen_def wf_buffer_def)
  ultimately show ?thesis
    using header_len [of q] body_limit [of "snd q"] assms(3) qs
    by (auto simp: next_room_def Let_def READ_WRITE_SIZE_def)
next
  case False
  then show ?thesis
    using assms(1) by (simp add: awaiting_def next_room_def getDataLen_def wf_buffer_def READ_WRITE_SIZE_def)
qed

lemma progress_room:
  assumes "progress fl c qs y d" and "\<forall>q\<in>set qs. valid (snd q)"
  shows "\<exists>b. ensureFree (next_room d) (inbuf d) = Some b \<and> wf_buffer b \<and> stored b = stored (inbuf d) \<and> length (blk b) < 2 ^ 29"
proof -
  obtain n x where d: "awaiting fl d x" "x @ y = frames fl (drop n qs)" "length (stored (inbuf d)) \<le> 0x4000000"
    using assms(1) unfolding progress_def by blast
  have "next_room d \<le> 0x4000000"
    using next_room_limit [OF d(1,2)] assms(2) by (auto dest: in_set_dropD)
  then have small: "length (stored (inbuf d)) + next_room d \<le> 2 ^ 27"
    using d(3) by simp
  have wf: "wf_buffer (inbuf d)" "length (blk (inbuf d)) < 2 ^ 29"
    using d(1) by (simp_all add: awaiting_def)
  show ?thesis
    using expand_room [OF wf small] unfolding ensureFree_def by blast
qed

lemma readData_piece:
  assumes "awaiting fl c x" and "length (stored (inbuf c)) \<le> 0x4000000" and "length xs \<le> READ_WRITE_SIZE"
    and "(x @ xs) @ y = frames fl qs" and "\<forall>q\<in>set qs. valid (snd q)"
  shows "\<exists>d. readData (info fl) handler [Bytes xs] c = Some (True, d) \<and> progress fl c qs y d"
proof -
  have wf: "wf_buffer (inbuf c)" "length (blk (inbuf c)) < 2 ^ 29" "length (stored (inbuf c)) + READ_WRITE_SIZE \<le> 2 ^ 27"
    using assms(1,2) by (simp_all add: awaiting_def READ_WRITE_SIZE_def)
  obtain b where b: "ensureFree READ_WRITE_SIZE (inbuf c) = Some b" "wf_buffer b" "stored b = stored (inbuf c)"
      "length (blk b) < 2 ^ 29" "pfree b + READ_WRITE_SIZE \<le> length (blk b)"
    using expand_room [OF wf] unfolding ensureFree_def by blast
  obtain b' where b': "pour_chunk xs (c\<lparr>inbuf := b\<rparr>) = Some (c\<lparr>inbuf := b'\<rparr>)" "wf_buffer b'"
      "stored b' = stored (inbuf c) @ xs" "length (blk b') = length (blk b)"
    using pour_chunk_result [of "c\<lparr>inbuf := b\<rparr>" xs] b assms(3) by auto
  have "awaiting fl (c\<lparr>inbuf := b'\<rparr>) (x @ xs)"
    using assms(1) b'(2-4) b(4) by (simp add: awaiting_def)
  from read_frames [OF this assms(4,5)] obtain d where d:
      "read_packets (info fl) handler (c\<lparr>inbuf := b'\<rparr>) = Some (False, d)" "progress fl c qs y d"
    by (auto simp: progress_def)
  obtain e where e: "read_rounds (info fl) handler [Bytes xs] 0 (c\<lparr>inbuf := b\<rparr>) = Some (False, e)"
      "progress fl c qs y (snd e)" "fst e \<in> {Bytes xs, WouldBlock}"
  proof (cases "getFreeLen b' > 0")
    case True
    then show ?thesis
      using that [of "(Bytes xs, d)"] b'(1) d by simp
  next
    case False
    obtain f where f: "ensureFree (next_room d) (inbuf d) = Some f" "wf_buffer f" "stored f = stored (inbuf d)" "length (blk f) < 2 ^ 29"
      using progress_room [OF d(2) assms(5)] by blast
    show ?thesis
      using that [of "(WouldBlock, d\<lparr>inbuf := f\<rparr>)"] b'(1) d f(1) False progress_inbuf [OF d(2) f(2-4)] by simp
  qed
  have "wf_buffer (inbuf (snd e))" "length (blk (inbuf (snd e))) < 2 ^ 29"
    using e(2) by (auto simp: progress_def awaiting_def)
  then have "progress fl c qs y ((snd e)\<lparr>inbuf := shrink (inbuf (snd e))\<rparr>)"
    using progress_inbuf [OF e(2)] shrink_result shrink_short by blast
  moreover have "readData (info fl) handler [Bytes xs] c = Some (True, (snd e)\<lparr>inbuf := shrink (inbuf (snd e))\<rparr>)"
    using e(1,3) b(1) by (cases e) (auto simp: readData_def simp del: read_rounds.simps)
  ultimately show ?thesis
    by blast
qed

lemma read_pieces_frames:
  assumes "awaiting fl c x" and "length (stored (inbuf c)) \<le> 0x4000000" and "\<forall>xs\<in>set xss. length xs \<le> READ_WRITE_SIZE"
    and "x @ concat xss @ y = frames fl qs" and "\<forall>q\<in>set qs. valid (snd q)" and "y = []" and "xss = [] \<longrightarrow> qs = []"
  shows "\<exists>d. read_pieces (info fl) handler xss c = Some d \<and> handled d = handled c @ events qs
           \<and> stored (inbuf d) = [] \<and> \<not> gotHeader d"
  using assms
proof (induction xss arbitrary: c x qs)
  case Nil
  then show ?case
    by (auto simp: awaiting_def header_wire_def bytes32_def split: if_splits)
next
  case (Cons xs xss)
  obtain c' where c': "readData (info fl) handler [Bytes xs] c = Some (True, c')" "progress fl c qs (concat xss @ y) c'"
    using readData_piece [OF Cons.prems(1,2), of xs "concat xss @ y" qs] Cons.prems by auto
  obtain n x' where n: "n \<le> length qs" "handled c' = handled c @ events (take n qs)" "awaiting fl c' x'"
      "x' @ concat xss @ y = frames fl (drop n qs)" "concat xss @ y = [] \<longrightarrow> n = length qs"
      "length (stored (inbuf c')) \<le> 0x4000000"
    using c'(2) unfolding progress_def by blast
  have valid: "\<forall>q\<in>set (drop n qs). valid (snd q)" and none: "xss = [] \<longrightarrow> drop n qs = []"
    using Cons.prems(5,6) n(5) by (auto dest: in_set_dropD)
  obtain d where "read_pieces (info fl) handler xss c' = Some d"
      "handled d = handled c' @ events (drop n qs)" "stored (inbuf d) = []" "\<not> gotHeader d"
    using Cons.IH [OF n(3,6) _ n(4) valid Cons.prems(6) none] Cons.prems(3) by auto
  then show ?case
    using c'(1) n(2) by (auto simp flip: map_append)
qed

end

end
