(* ===== verification/Data_Entry.thy ===== *)
theory Data_Entry
  imports Wire
begin

text \<open>
  Keys and values (\<open>common/data_entry.hpp\<close>, \<open>common/item_data_info.hpp\<close>, \<open>common/hash.hpp\<close>): an
  owned block of bytes with the area it belongs to, a flag that says whether the area has been put
  in front of the bytes, a flag that says the same of the meta information, and the meta
  information. The theory models the operations on entries and their encoding in messages.
\<close>

section \<open>The hash function\<close>

text \<open>A 32-bit number of four bytes in the order of the machine, least significant byte first.\<close>

definition load32 :: "bytes \<Rightarrow> 32 word" where
  "load32 bs = join_bytes (rev bs)"

definition murmur_m :: "32 word" where
  "murmur_m = 0x5bd1e995"

fun murmur_blocks :: "bytes \<Rightarrow> 32 word \<Rightarrow> 32 word \<times> bytes" where
  "murmur_blocks (a # b # c # d # data) h =
     (let k = load32 [a, b, c, d];
          k = k * murmur_m;
          k = k XOR drop_bit 24 k;
          k = k * murmur_m;
          h = h * murmur_m;
          h = h XOR k
      in murmur_blocks data h)"
| "murmur_blocks data h = (h, data)"

text \<open>The last bytes are read as signed numbers.\<close>

definition murmur_tail :: "bytes \<Rightarrow> 32 word \<Rightarrow> 32 word" where
  "murmur_tail idata h =
     (let h = (if length idata = 3 then h XOR push_bit 16 (scast (idata ! 2)) else h);
          h = (if length idata \<ge> 2 then h XOR push_bit 8 (scast (idata ! 1)) else h)
      in if length idata \<ge> 1 then (h XOR scast (idata ! 0)) * murmur_m else h)"

definition mur_mur_hash2 :: "bytes \<Rightarrow> 32 word \<Rightarrow> 32 word" where
  "mur_mur_hash2 key seed =
     (let (h, idata) = murmur_blocks key (seed XOR of_nat (length key));
          h = murmur_tail idata h;
          h = h XOR drop_bit 13 h;
          h = h * murmur_m
      in h XOR drop_bit 15 h)"

definition mhash1 :: "bytes \<Rightarrow> 32 word" where
  "mhash1 key = mur_mur_hash2 key 134217689"

definition mhash2 :: "bytes \<Rightarrow> 32 word" where
  "mhash2 key = mur_mur_hash2 key 97"

section \<open>Meta information\<close>

record item_meta_info =
  magic :: "16 word"
  checksum :: "16 word"
  keysize :: "16 word"
  version :: "16 word"
  padsize :: "32 word"
  valsize :: "32 word"
  flag :: "8 word"
  cdate :: "32 word"
  mdate :: "32 word"
  edate :: "32 word"

definition zero_meta :: item_meta_info where
  "zero_meta = \<lparr>magic = 0, checksum = 0, keysize = 0, version = 0, padsize = 0, valsize = 0, flag = 0,
     cdate = 0, mdate = 0, edate = 0\<rparr>"

text \<open>The bit field \<open>valsize : 24\<close> keeps the low 24 bits of what is assigned to it.\<close>

definition wf_meta :: "item_meta_info \<Rightarrow> bool" where
  "wf_meta m \<longleftrightarrow> valsize m AND 0xFFFFFF = valsize m"

definition encode_meta :: "item_meta_info \<Rightarrow> data_buffer \<Rightarrow> data_buffer option" where
  "encode_meta m output = do {
     output \<leftarrow> writeInt16 (magic m) output;
     output \<leftarrow> writeInt16 (checksum m) output;
     output \<leftarrow> writeInt16 (keysize m) output;
     output \<leftarrow> writeInt16 (version m) output;
     output \<leftarrow> writeInt32 (padsize m) output;
     output \<leftarrow> writeInt32 (valsize m) output;
     output \<leftarrow> writeInt8 (flag m) output;
     output \<leftarrow> writeInt32 (cdate m) output;
     output \<leftarrow> writeInt32 (mdate m) output;
     writeInt32 (edate m) output }"

definition decode_meta_info :: "data_buffer \<Rightarrow> (item_meta_info \<times> data_buffer) option" where
  "decode_meta_info input = do {
     (m1, input) \<leftarrow> readInt16 input;
     (m2, input) \<leftarrow> readInt16 input;
     (m3, input) \<leftarrow> readInt16 input;
     (m4, input) \<leftarrow> readInt16 input;
     (m5, input) \<leftarrow> readInt32 input;
     (m6, input) \<leftarrow> readInt32 input;
     (m7, input) \<leftarrow> readInt8 input;
     (m8, input) \<leftarrow> readInt32 input;
     (m9, input) \<leftarrow> readInt32 input;
     (m10, input) \<leftarrow> readInt32 input;
     Some (\<lparr>magic = m1, checksum = m2, keysize = m3, version = m4, padsize = m5,
            valsize = m6 AND 0xFFFFFF, flag = m7, cdate = m8, mdate = m9, edate = m10\<rparr>, input) }"

definition meta_wire :: "item_meta_info \<Rightarrow> bytes" where
  "meta_wire m = bytes16 (magic m) @ bytes16 (checksum m) @ bytes16 (keysize m) @ bytes16 (version m)
     @ bytes32 (padsize m) @ bytes32 (valsize m) @ [flag m]
     @ bytes32 (cdate m) @ bytes32 (mdate m) @ bytes32 (edate m)"

lemma emits_meta [emits_rules]: "emits (encode_meta m) (meta_wire m)"
  unfolding encode_meta_def meta_wire_def by (intro emits_rules)

lemma accepts_meta [accepts_rules]: "wf_meta m \<Longrightarrow> accepts decode_meta_info (meta_wire m) m"
proof -
  assume "wf_meta m"
  then have m: "m = \<lparr>magic = magic m, checksum = checksum m, keysize = keysize m, version = version m,
      padsize = padsize m, valsize = valsize m AND 0xFFFFFF, flag = flag m, cdate = cdate m,
      mdate = mdate m, edate = edate m\<rparr>"
    by (simp add: wf_meta_def)
  show ?thesis
    unfolding decode_meta_info_def meta_wire_def by (intro accepts_field accepts_ends) (rule m)
qed

lemma length_meta_wire: "length (meta_wire m) = 29"
  by (simp add: meta_wire_def)

section \<open>Entries\<close>

text \<open>
  \<open>esize\<close> and \<open>edata\<close> are \<open>size\<close> and the bytes at \<open>data\<close> (\<open>None\<close> for the null pointer), \<open>ealloc\<close> says
  that the entry owns them.
\<close>

record data_entry =
  esize :: int
  edata :: "bytes option"
  ealloc :: bool
  hashcode :: "64 word"
  has_merged :: bool
  has_meta_merged :: bool
  area :: "32 word"
  server_flag :: "16 word"
  data_meta :: item_meta_info

definition init_entry :: data_entry where
  "init_entry = \<lparr>esize = 0, edata = None, ealloc = False, hashcode = 0, has_merged = False,
     has_meta_merged = False, area = 0, server_flag = 0, data_meta = zero_meta\<rparr>"

definition free_data :: "data_entry \<Rightarrow> data_entry" where
  "free_data e = e\<lparr>edata := None, ealloc := False, esize := 0, hashcode := 0, has_merged := False, area := 0\<rparr>"

definition set_data :: "bytes option \<Rightarrow> int \<Rightarrow> bool \<Rightarrow> data_entry \<Rightarrow> data_entry" where
  "set_data new_data new_size alloc e =
     (let e = free_data e
      in if alloc then
           (if new_size > 0
            then e\<lparr>edata := Some (case new_data of Some d \<Rightarrow> take (nat new_size) d
                                  | None \<Rightarrow> replicate (nat new_size) 0),
                   ealloc := True, esize := new_size\<rparr>
            else e)
         else e\<lparr>edata := new_data, esize := new_size\<rparr>)"

definition set_alloced_data :: "bytes \<Rightarrow> int \<Rightarrow> data_entry \<Rightarrow> data_entry" where
  "set_alloced_data d n e = (free_data e)\<lparr>edata := Some d, esize := n, ealloc := True\<rparr>"

definition entry_data :: "data_entry \<Rightarrow> bytes" where
  "entry_data e = (case edata e of None \<Rightarrow> [] | Some d \<Rightarrow> d)"

text \<open>Copies: \<open>src\<close> into \<open>e\<close>, by assignment with the ownership of the source, by \<open>clone\<close> with their own bytes.\<close>

definition copy_fields :: "data_entry \<Rightarrow> data_entry \<Rightarrow> data_entry" where
  "copy_fields src e = e\<lparr>has_merged := has_merged src, has_meta_merged := has_meta_merged src,
     area := area src, hashcode := 0, server_flag := server_flag src, data_meta := data_meta src\<rparr>"

definition assign_entry :: "data_entry \<Rightarrow> data_entry \<Rightarrow> data_entry" where
  "assign_entry src e = copy_fields src (set_data (edata src) (esize src) (ealloc src) e)"

definition clone_entry :: "data_entry \<Rightarrow> data_entry \<Rightarrow> data_entry" where
  "clone_entry src e = copy_fields src (set_data (edata src) (esize src) True e)"

definition new_entry :: "bytes \<Rightarrow> data_entry" where
  "new_entry d = set_data (Some d) (int (length d)) True init_entry"

fun memcmp :: "bytes \<Rightarrow> bytes \<Rightarrow> nat \<Rightarrow> int" where
  "memcmp (x # xs) (y # ys) (Suc n) = (if x < y then - 1 else if y < x then 1 else memcmp xs ys n)"
| "memcmp xs ys n = 0"

definition less_entry :: "data_entry \<Rightarrow> data_entry \<Rightarrow> bool" where
  "less_entry e f =
     (if esize e = 0 \<or> esize f = 0 \<or> edata e = None \<or> edata f = None then False
      else
        let min_size = (if esize e > esize f then esize f else esize e);
            r = memcmp (entry_data e) (entry_data f) (nat min_size)
        in if r < 0 then True else if r > 0 then False else esize e < esize f)"

definition equal_entry :: "data_entry \<Rightarrow> data_entry \<Rightarrow> bool" where
  "equal_entry e f =
     (if esize f \<noteq> esize e then False
      else if has_merged e \<noteq> has_merged f then False
      else if \<not> has_merged e \<and> area e \<noteq> area f then False
      else if edata e = edata f then True
      else if edata e = None \<or> edata f = None then False
      else memcmp (entry_data e) (entry_data f) (nat (esize e)) = 0)"

definition get_hashcode :: "data_entry \<Rightarrow> 64 word \<times> data_entry" where
  "get_hashcode e =
     (let e = (if hashcode e = 0 \<and> esize e > 0 \<and> edata e \<noteq> None
               then e\<lparr>hashcode := push_bit 32 (ucast (mhash1 (entry_data e))) OR ucast (mhash2 (entry_data e))\<rparr>
               else e)
      in (hashcode e, e))"

subsection \<open>The area and the meta information in front of the bytes\<close>

definition merge_area :: "32 word \<Rightarrow> data_entry \<Rightarrow> data_entry" where
  "merge_area a e =
     (if has_merged e then e
      else if esize e > 0 then
        let new_data = [ucast (a AND 0xFF), ucast (drop_bit 8 a AND 0xFF)] @ take (nat (esize e)) (entry_data e);
            e = set_data (Some new_data) (esize e + 2) True e
        in e\<lparr>area := a, has_merged := True\<rparr>
      else e)"

text \<open>The two bytes are \<open>char\<close>s and are extended with their sign.\<close>

definition decode_area :: "data_entry \<Rightarrow> (32 word \<times> data_entry) option" where
  "decode_area e =
     (if has_merged e then
        if esize e > 2 then
          let target_area = scast (entry_data e ! 1);
              target_area = push_bit 8 target_area;
              target_area = target_area OR scast (entry_data e ! 0);
              e = set_data (Some (drop 2 (entry_data e))) (esize e - 2) True e
          in Some (target_area, e\<lparr>area := target_area, has_merged := False\<rparr>)
        else None
      else Some (area e, e))"

text \<open>
  The meta information is copied as it lies in memory: the fields in their order, each least
  significant byte first, the bit fields \<open>valsize\<close> and \<open>flag\<close> in one 32-bit unit; 28 bytes in all.
\<close>

definition meta_mem :: "item_meta_info \<Rightarrow> bytes" where
  "meta_mem m = rev (bytes16 (magic m)) @ rev (bytes16 (checksum m)) @ rev (bytes16 (keysize m))
     @ rev (bytes16 (version m)) @ rev (bytes32 (padsize m))
     @ rev (bytes32 (take_bit 24 (valsize m) OR push_bit 24 (ucast (flag m))))
     @ rev (bytes32 (cdate m)) @ rev (bytes32 (mdate m)) @ rev (bytes32 (edate m))"

definition load_at :: "nat \<Rightarrow> nat \<Rightarrow> bytes \<Rightarrow> 'a::len word" where
  "load_at i k mem = join_bytes (rev (take k (drop i mem)))"

definition meta_of_mem :: "bytes \<Rightarrow> item_meta_info" where
  "meta_of_mem d = \<lparr>magic = load_at 0 2 d, checksum = load_at 2 2 d, keysize = load_at 4 2 d,
     version = load_at 6 2 d, padsize = load_at 8 4 d, valsize = take_bit 24 (load_at 12 4 d),
     flag = load_at 15 1 d, cdate = load_at 16 4 d, mdate = load_at 20 4 d, edate = load_at 24 4 d\<rparr>"

definition merge_meta :: "data_entry \<Rightarrow> data_entry" where
  "merge_meta e =
     (if has_meta_merged e then e
      else if esize e > 0 then
        (set_alloced_data (meta_mem (data_meta e) @ take (nat (esize e)) (entry_data e)) (esize e + 28) e)
          \<lparr>has_meta_merged := True\<rparr>
      else e)"

definition decode_meta :: "bool \<Rightarrow> data_entry \<Rightarrow> data_entry option" where
  "decode_meta force_decode e =
     (if has_meta_merged e \<or> force_decode then
        if esize e > 28 then
          let new_size = esize e - 28;
              meta = meta_of_mem (entry_data e)
          in Some ((set_alloced_data (drop 28 (entry_data e)) new_size e)
                     \<lparr>data_meta := meta, has_meta_merged := False\<rparr>)
        else None
      else Some e)"

subsection \<open>Encoding\<close>

definition encode_entry :: "data_entry \<Rightarrow> data_buffer \<Rightarrow> data_buffer option" where
  "encode_entry e output = do {
     output \<leftarrow> writeInt8 (if has_merged e then 1 else 0) output;
     output \<leftarrow> writeInt32 (area e) output;
     output \<leftarrow> writeInt16 (server_flag e) output;
     output \<leftarrow> encode_meta (data_meta e) output;
     output \<leftarrow> writeInt32 (of_int (esize e)) output;
     (if esize e > 0 then writeBytes (take (nat (esize e)) (entry_data e)) output else Some output) }"

text \<open>
  \<open>decode\<close> reads the area into a local variable of that name, which \<open>area = area\<close> assigns to
  itself: the member keeps the 0 that \<open>free_data\<close> gave it. The result of \<open>readBytes\<close> is not looked at.
\<close>

definition decode_entry :: "data_entry \<Rightarrow> data_buffer \<Rightarrow> (data_entry \<times> data_buffer) option" where
  "decode_entry e input =
     (let e = free_data e
      in do {
        (temp_merged, input) \<leftarrow> readInt8 input;
        (local_area, input) \<leftarrow> readInt32 input;
        (flag, input) \<leftarrow> readInt16 input;
        (meta, input) \<leftarrow> decode_meta_info input;
        (n, input) \<leftarrow> readInt32 input;
        (e, input) \<leftarrow>
          (if sint n > 0 then do {
             (got, input) \<leftarrow> readBytes (sint n) input;
             Some (case got of Some d \<Rightarrow> set_data (Some d) (sint n) True e
                             | None \<Rightarrow> set_data None (sint n) True e, input) }
           else Some (e, input));
        Some (e\<lparr>data_meta := meta, has_merged := temp_merged \<noteq> 0, server_flag := flag\<rparr>, input) })"

definition entry_wire :: "data_entry \<Rightarrow> bytes" where
  "entry_wire e = [if has_merged e then 1 else 0] @ bytes32 (area e) @ bytes16 (server_flag e)
     @ meta_wire (data_meta e) @ bytes32 (of_int (esize e)) @ take (nat (esize e)) (entry_data e)"

section \<open>Properties of entries\<close>

definition wf_entry :: "data_entry \<Rightarrow> bool" where
  "wf_entry e \<longleftrightarrow> 0 \<le> esize e \<and> esize e < 2 ^ 31 \<and> length (entry_data e) = nat (esize e) \<and> wf_meta (data_meta e)"

text \<open>What the receiver \<open>e0\<close> holds after it has decoded \<open>e\<close>.\<close>

definition received_entry :: "data_entry \<Rightarrow> data_entry \<Rightarrow> data_entry" where
  "received_entry e0 e = (set_data (Some (entry_data e)) (esize e) True e0)
     \<lparr>data_meta := data_meta e, has_merged := has_merged e, server_flag := server_flag e\<rparr>"

lemma sint_of_int_small: "0 \<le> n \<Longrightarrow> n < 2 ^ 31 \<Longrightarrow> sint (of_int n :: 32 word) = n"
  by (simp add: signed_of_int signed_take_bit_int_eq_self)

lemma set_data_le0: "n \<le> 0 \<Longrightarrow> set_data d n True e = free_data e"
  by (simp add: set_data_def)

lemma set_data_free [simp]: "set_data d n al (free_data e) = set_data d n al e"
  by (simp add: set_data_def free_data_def)

lemma entry_data_update [simp]:
  "entry_data (e\<lparr>data_meta := m\<rparr>) = entry_data e" "entry_data (e\<lparr>has_merged := f\<rparr>) = entry_data e"
  "entry_data (e\<lparr>server_flag := s\<rparr>) = entry_data e" "entry_data (e\<lparr>area := a\<rparr>) = entry_data e"
  "entry_data (e\<lparr>has_meta_merged := f\<rparr>) = entry_data e"
  by (simp_all add: entry_data_def)

lemma set_data_fields [simp]:
  "entry_data (set_data (Some d) n True e) = take (nat n) d"
  "esize (set_data x n True e) = max n 0"
  "area (set_data x n al e) = 0" "has_merged (set_data x n al e) = False"
  "server_flag (set_data x n al e) = server_flag e" "data_meta (set_data x n al e) = data_meta e"
  "has_meta_merged (set_data x n al e) = has_meta_merged e"
  by (simp_all add: set_data_def free_data_def Let_def entry_data_def)

lemma emits_entry [emits_rules]: "emits (encode_entry e) (entry_wire e)"
proof -
  let ?d = "take (nat (esize e)) (entry_data e)"
  have "emits (\<lambda>b. if esize e > 0 then writeBytes ?d b else Some b) (if esize e > 0 then ?d else [])"
    by (intro emits_if emits_rules)
  moreover have "(if esize e > 0 then ?d else []) = ?d"
    by simp
  ultimately have "emits (\<lambda>b. if esize e > 0 then writeBytes ?d b else Some b) ?d"
    by simp
  then show ?thesis
    unfolding encode_entry_def entry_wire_def by (intro emits_rules)
qed

lemma accepts_entry_bytes:
  assumes "wf_entry e"
  shows "accepts (\<lambda>input. if esize e > 0 then do {
             (got, input) \<leftarrow> readBytes (esize e) input;
             Some (case got of Some d \<Rightarrow> set_data (Some d) (esize e) True e0
                             | None \<Rightarrow> set_data None (esize e) True e0, input) }
           else Some (free_data e0, input))
         (entry_data e) (set_data (Some (entry_data e)) (esize e) True e0)"
proof (cases "esize e > 0")
  case True
  have "accepts (\<lambda>input. do { (got, input) \<leftarrow> readBytes (esize e) input;
             Some (case got of Some d \<Rightarrow> set_data (Some d) (esize e) True e0
                             | None \<Rightarrow> set_data None (esize e) True e0, input) })
         (entry_data e) (set_data (Some (entry_data e)) (esize e) True e0)"
    using assms by (intro accepts_end [OF accepts_Bytes]) (auto simp: wf_entry_def)
  then show ?thesis
    using True by simp
next
  case False
  then have "entry_data e = []" "set_data (Some []) (esize e) True e0 = free_data e0"
    using assms by (auto simp: wf_entry_def set_data_le0)
  then show ?thesis
    using False by (simp add: accepts_Some)
qed

lemma accepts_entry:
  assumes "wf_entry e"
  shows "accepts (decode_entry e0) (entry_wire e) (received_entry e0 e)"
proof -
  let ?n = "of_int (esize e) :: 32 word"
  have n: "sint ?n = esize e" and data: "take (nat (esize e)) (entry_data e) = entry_data e"
    using assms sint_of_int_small by (auto simp: wf_entry_def)
  have meta: "accepts decode_meta_info (meta_wire (data_meta e)) (data_meta e)"
    using assms by (intro accepts_rules) (simp add: wf_entry_def)
  show ?thesis
    unfolding decode_entry_def entry_wire_def data Let_def set_data_free
    by (intro accepts_field accepts_bind [OF meta], unfold n)
      (rule accepts_end [OF accepts_entry_bytes [OF assms, of e0]], simp add: received_entry_def)
qed

text \<open>
  C21. An entry written into a message and read from it comes back with its bytes, its flags and
  its meta information, and nothing is left unread; the area does not come back: the receiver
  always finds 0.
\<close>

theorem entry_round_trip:
  assumes "wf_entry e" and "writable b" and "stored b = []" and "esize e < 2 ^ 28"
  shows "\<exists>c d f. encode_entry e b = Some c \<and> decode_entry e0 c = Some (f, d) \<and> stored d = []
            \<and> entry_data f = entry_data e \<and> esize f = esize e \<and> has_merged f = has_merged e
            \<and> server_flag f = server_flag e \<and> data_meta f = data_meta e \<and> area f = 0"
proof -
  have "length (entry_wire e) \<le> 2 ^ 29"
    using assms(1,4) by (auto simp: entry_wire_def length_meta_wire wf_entry_def)
  then obtain c where c: "encode_entry e b = Some c" "writable c" "stored c = entry_wire e @ []"
    using emitsD [OF emits_entry [of e] assms(2)] assms(3) by auto
  obtain d where "decode_entry e0 c = Some (received_entry e0 e, d)" "stored d = []"
    using acceptsD [OF accepts_entry [OF assms(1)] writable_wf [OF c(2)] c(3)] by auto
  moreover have "entry_data (received_entry e0 e) = entry_data e \<and> esize (received_entry e0 e) = esize e
      \<and> area (received_entry e0 e) = 0"
    using assms(1) by (simp add: received_entry_def wf_entry_def)
  ultimately show ?thesis
    using c(1) by (auto simp: received_entry_def)
qed

definition ex_entry :: data_entry where
  "ex_entry = (new_entry [107, 101, 121])\<lparr>area := 5, server_flag := 2\<rparr>"

theorem entry_round_trip_witness:
  "\<exists>c d f. encode_entry ex_entry new_data_buffer = Some c \<and> decode_entry init_entry c = Some (f, d)
     \<and> stored d = [] \<and> entry_data f = [107, 101, 121] \<and> area ex_entry = 5 \<and> area f = 0"
proof -
  have "wf_entry ex_entry" "entry_data ex_entry = [107, 101, 121]" "area ex_entry = 5" "esize ex_entry = 3"
    by (simp_all add: wf_entry_def ex_entry_def new_entry_def set_data_def free_data_def init_entry_def
        entry_data_def wf_meta_def zero_meta_def)
  then show ?thesis
    using entry_round_trip [of ex_entry new_data_buffer init_entry] by auto
qed

lemma small_bits: "a < 0x10000 \<Longrightarrow> bit a k \<Longrightarrow> k < 16" for a :: "32 word"
proof (rule ccontr)
  assume a: "a < 0x10000" and b: "bit a k" "\<not> k < 16"
  have "take_bit 16 a = a"
    using a by (simp add: word_uint_eq_iff unsigned_take_bit_eq take_bit_int_eq_self word_less_def)
  then show False
    using b by (metis bit_take_bit_iff)
qed

definition signed_area :: "32 word \<Rightarrow> 32 word" where
  "signed_area a = push_bit 8 (scast (ucast (drop_bit 8 a AND 0xFF) :: 8 word)) OR scast (ucast (a AND 0xFF) :: 8 word)"

lemma bit_signed_area:
  assumes "k < 32"
  shows "bit (signed_area a) k \<longleftrightarrow>
    (if k < 8 then bit a k else bit a (min k 15) \<or> bit a 7)"
proof -
  have ff: "(0xFF :: 32 word) = mask 8"
    by (simp add: mask_eq_exp_minus_1)
  show ?thesis
    using assms unfolding signed_area_def ff
    by (cases "k = 7"; cases "k = 15") (auto simp: bit_simps min_def)
qed

lemma signed_area_iff:
  assumes "a < 0x10000"
  shows "signed_area a = a \<longleftrightarrow> \<not> bit a 7 \<and> \<not> bit a 15"
proof
  assume eq: "signed_area a = a"
  have "\<not> bit a 16"
    using small_bits [OF assms, of 16] by auto
  then have "\<not> bit (signed_area a) 16"
    using eq by simp
  then show "\<not> bit a 7 \<and> \<not> bit a 15"
    by (simp add: bit_signed_area)
next
  assume "\<not> bit a 7 \<and> \<not> bit a 15"
  moreover have "\<not> bit a k" if "\<not> k \<le> 15" for k
    using small_bits [OF assms, of k] that by auto
  ultimately show "signed_area a = a"
    by (intro bit_word_eqI) (auto simp: bit_signed_area min_def)
qed

text \<open>
  C22. Putting the area in front of the bytes and taking it out again gives back the bytes, but the
  area only when neither of its two bytes is 128 or more: the bytes are extended with their sign.
\<close>

theorem area_round_trip:
  assumes "wf_entry e" and "esize e > 0" and "\<not> has_merged e" and "a < 0x10000"
  shows "\<exists>f. decode_area (merge_area a e) = Some (signed_area a, f) \<and> entry_data f = entry_data e
           \<and> area f = signed_area a \<and> \<not> has_merged f
           \<and> (signed_area a = a \<longleftrightarrow> \<not> bit a 7 \<and> \<not> bit a 15)"
  using assms signed_area_iff [OF assms(4)]
  by (simp add: merge_area_def decode_area_def Let_def wf_entry_def signed_area_def nat_add_distrib)

theorem area_round_trip_witness:
  "(\<exists>f. decode_area (merge_area 5 (new_entry [107])) = Some (5, f) \<and> entry_data f = [107])
   \<and> (\<exists>f. decode_area (merge_area 200 (new_entry [107])) = Some (signed_area 200, f)) \<and> signed_area 200 \<noteq> 200"
proof -
  have e: "wf_entry (new_entry [107])" "esize (new_entry [107]) > 0" "\<not> has_merged (new_entry [107])"
      "entry_data (new_entry [107]) = [107]"
    by (simp_all add: wf_entry_def new_entry_def wf_meta_def init_entry_def zero_meta_def)
  show ?thesis
    using area_round_trip [OF e(1-3), of 5] area_round_trip [OF e(1-3), of 200] e(4)
    by auto
qed

lemma length_meta_mem: "length (meta_mem m) = 28"
  by (simp add: meta_mem_def)

lemma bit_field_bytes:
  fixes v :: "32 word" and f :: "8 word"
  shows "take_bit 24 (take_bit 24 v OR push_bit 24 (ucast f)) = take_bit 24 v"
    and "ucast (drop_bit 24 (take_bit 24 v OR push_bit 24 (ucast f)) :: 32 word) = f"
  by (rule bit_word_eqI, auto simp: bit_simps)+

lemma wf_meta_take: "wf_meta m \<longleftrightarrow> take_bit 24 (valsize m) = valsize m"
proof -
  have "(0xFFFFFF :: 32 word) = mask 24"
    by (simp add: mask_eq_exp_minus_1)
  then show ?thesis
    by (simp only: wf_meta_def take_bit_eq_mask)
qed

lemma meta_mem_round_trip:
  assumes "wf_meta m"
  shows "meta_of_mem (meta_mem m @ d) = m"
proof -
  have "take (Suc 0) (drop 3 (rev (bytes32 w))) = [ucast (drop_bit 24 w)]" for w
    by (simp add: bytes32_def)
  then have "load_at 15 1 (meta_mem m @ d) = flag m"
    using bit_field_bytes(2) [of "valsize m" "flag m"]
    by (simp add: load_at_def meta_mem_def join_bytes_def)
  moreover have "take_bit 24 (load_at 12 4 (meta_mem m @ d)) = valsize m"
    using bit_field_bytes(1) [of "valsize m" "flag m"] assms
    by (simp add: load_at_def meta_mem_def wf_meta_take)
  ultimately show ?thesis
    unfolding meta_of_mem_def by (simp add: load_at_def meta_mem_def)
qed

text \<open>
  C23. Putting the meta information in front of the bytes and taking it out again, as the file
  storage does on every write and read, gives back bytes and meta information. On the way the
  mark that the area is in front of the bytes is lost, and the area with it.
\<close>

theorem meta_round_trip:
  assumes "wf_entry e" and "esize e > 0" and "\<not> has_meta_merged e"
  shows "\<exists>f. decode_meta force (merge_meta e) = Some f \<and> entry_data f = entry_data e
           \<and> esize f = esize e \<and> data_meta f = data_meta e \<and> \<not> has_meta_merged f
           \<and> \<not> has_merged f \<and> area f = 0"
  using assms meta_mem_round_trip [of "data_meta e" "entry_data e"]
  by (simp add: merge_meta_def decode_meta_def set_alloced_data_def entry_data_def free_data_def
      wf_entry_def length_meta_mem)

theorem meta_round_trip_witness:
  "\<exists>f. decode_meta True (merge_meta (merge_area 5 (new_entry [107]))) = Some f
     \<and> entry_data f = [5, 0, 107] \<and> has_merged (merge_area 5 (new_entry [107])) \<and> \<not> has_merged f"
proof -
  let ?e = "merge_area 5 (new_entry [107])"
  have e: "wf_entry ?e" "esize ?e > 0" "\<not> has_meta_merged ?e" "entry_data ?e = [5, 0, 107]" "has_merged ?e"
    by (simp_all add: wf_entry_def merge_area_def new_entry_def wf_meta_def init_entry_def zero_meta_def Let_def)
  show ?thesis
    using meta_round_trip [OF e(1-3), of True] e(4,5) by auto
qed

text \<open>
  C36. An entry that is cut short in a message is not refused: \<open>decode\<close> does not look at the result
  of \<open>readBytes\<close>, so the receiver holds an entry of the announced size full of zero bytes, and the
  bytes that were there are left in the buffer for the next field.
\<close>

theorem truncated_entry_is_zero:
  assumes "wf_buffer b" and "wf_meta m" and "0 < n" and "n < 2 ^ 31" and "int (length short) < n"
    and "stored b = [mf] @ bytes32 a @ bytes16 sf @ meta_wire m @ bytes32 (of_int n) @ short"
  shows "\<exists>f c. decode_entry e0 b = Some (f, c) \<and> entry_data f = replicate (nat n) 0 \<and> esize f = n
           \<and> stored c = short"
proof -
  obtain b1 where b1: "readInt8 b = Some (mf, b1)" "wf_buffer b1"
      "stored b1 = bytes32 a @ bytes16 sf @ meta_wire m @ bytes32 (of_int n) @ short"
    using acceptsD [OF accepts_Int8 assms(1,6)] by auto
  obtain b2 where b2: "readInt32 b1 = Some (a, b2)" "wf_buffer b2"
      "stored b2 = bytes16 sf @ meta_wire m @ bytes32 (of_int n) @ short"
    using acceptsD [OF accepts_Int32 b1(2,3)] by auto
  obtain b3 where b3: "readInt16 b2 = Some (sf, b3)" "wf_buffer b3"
      "stored b3 = meta_wire m @ bytes32 (of_int n) @ short"
    using acceptsD [OF accepts_Int16 b2(2,3)] by auto
  obtain b4 where b4: "decode_meta_info b3 = Some (m, b4)" "wf_buffer b4" "stored b4 = bytes32 (of_int n) @ short"
    using acceptsD [OF accepts_meta [OF assms(2)] b3(2,3)] by auto
  obtain b5 where b5: "readInt32 b4 = Some (of_int n, b5)" "wf_buffer b5" "stored b5 = short"
    using acceptsD [OF accepts_Int32 b4(2,3)] by auto
  have "sint (of_int n :: 32 word) = n" "readBytes n b5 = Some (None, b5)"
    using sint_of_int_small readBytes_short [OF b5(2)] b5(3) assms(3-5) by auto
  then show ?thesis
    using b1(1) b2(1) b3(1) b4(1) b5(1,3) assms(3)
    by (auto simp: decode_entry_def Let_def set_data_def entry_data_def)
qed

theorem truncated_entry_is_zero_witness:
  "\<exists>f c. decode_entry init_entry (the (writeBytes
       ([0] @ bytes32 0 @ bytes16 0 @ meta_wire zero_meta @ bytes32 (of_int 3) @ [7]) new_data_buffer)) = Some (f, c)
     \<and> entry_data f = [0, 0, 0] \<and> stored c = [7]"
proof -
  let ?x = "[0] @ bytes32 0 @ bytes16 0 @ meta_wire zero_meta @ bytes32 (of_int 3) @ [7]"
  obtain b where b: "writeBytes ?x new_data_buffer = Some b" "writable b" "stored b = ?x"
    using emitsD [OF emits_Bytes, of new_data_buffer ?x] by (auto simp: length_meta_wire)
  have "wf_meta zero_meta" "replicate (nat 3) 0 = [0, 0, 0 :: 8 word]"
    by (simp_all add: wf_meta_def zero_meta_def numeral_3_eq_3)
  moreover have "\<exists>f c. decode_entry init_entry b = Some (f, c) \<and> entry_data f = replicate (nat 3) 0
      \<and> esize f = 3 \<and> stored c = [7]"
    by (rule truncated_entry_is_zero [OF writable_wf [OF b(2)] calculation(1) _ _ _ b(3)]) simp_all
  ultimately obtain f c where "decode_entry init_entry b = Some (f, c)" "entry_data f = [0, 0, 0]" "stored c = [7]"
    by metis
  then show ?thesis
    unfolding b(1) option.sel by blast
qed

lemma memcmp_lex:
  "(memcmp xs ys (min (length xs) (length ys)) < 0
    \<or> memcmp xs ys (min (length xs) (length ys)) = 0 \<and> length xs < length ys)
   \<longleftrightarrow> ord_class.lexordp xs ys"
proof (induction xs ys rule: list_induct2')
  case (4 x xs y ys)
  then show ?case
    by (cases "x < y"; cases "y < x") simp_all
qed simp_all

lemma less_entry_lex:
  assumes "wf_entry e" and "wf_entry f"
  shows "less_entry e f \<longleftrightarrow> esize e > 0 \<and> esize f > 0 \<and> ord_class.lexordp (entry_data e) (entry_data f)"
proof (cases "esize e > 0 \<and> esize f > 0")
  case True
  have len: "esize e = int (length (entry_data e))" "esize f = int (length (entry_data f))"
    using assms by (auto simp: wf_entry_def)
  have data: "edata e \<noteq> None" "edata f \<noteq> None"
    using len True by (auto simp: entry_data_def split: option.splits)
  have "nat (if esize e > esize f then esize f else esize e) = min (length (entry_data e)) (length (entry_data f))"
    using len by auto
  then show ?thesis
    using True data memcmp_lex [of "entry_data e" "entry_data f"] len
    unfolding less_entry_def Let_def by auto
next
  case False
  then show ?thesis
    using assms by (auto simp: less_entry_def wf_entry_def)
qed

text \<open>
  C24. The order of entries is the lexicographic order of their bytes as unsigned numbers, so on
  entries that are not empty it is a total order; an empty entry is neither smaller nor larger
  than any other, whatever the others are among themselves.
\<close>

theorem less_entry_lexicographic:
  assumes "wf_entry e" and "wf_entry f"
  shows "less_entry e f \<longleftrightarrow> esize e > 0 \<and> esize f > 0 \<and> ord_class.lexordp (entry_data e) (entry_data f)"
  using less_entry_lex [OF assms] .

theorem less_entry_lexicographic_witness:
  "less_entry (new_entry [97]) (new_entry [97, 98]) \<and> \<not> less_entry (new_entry []) (new_entry [97])"
proof -
  have wf: "wf_entry (new_entry [97])" "wf_entry (new_entry [97, 98])" "wf_entry (new_entry [])"
    by (simp_all add: wf_entry_def new_entry_def wf_meta_def init_entry_def zero_meta_def free_data_def
        set_data_le0 entry_data_def)
      (simp_all add: set_data_def Let_def free_data_def)
  have "entry_data (new_entry [97]) = [97]" "entry_data (new_entry [97, 98]) = [97, 98]"
      "esize (new_entry [97]) = 1" "esize (new_entry [97, 98]) = 2" "esize (new_entry []) = 0"
    by (simp_all add: new_entry_def)
  then show ?thesis
    using less_entry_lexicographic [OF wf(1,2)] less_entry_lexicographic [OF wf(3,1)] by simp
qed

end
