(* ===== verification/Packets.thy ===== *)
theory Packets
  imports Packet_Streamer Data_Entry
begin

text \<open>
  The requests and responses the servers exchange (\<open>packets/*.hpp\<close>): one record per packet class, its
  \<open>encode\<close> and \<open>decode\<close> statement by statement, and the macros of \<open>packets/base_packet.hpp\<close> they are
  written with. For every class the bytes of a packet are given once (\<open>wire_\<dots>\<close>), with a rule that
  \<open>encode\<close> appends them and a rule that \<open>decode\<close> takes them and gives back the packet.
\<close>

section \<open>Macros\<close>

text \<open>A macro that may \<open>return false\<close> takes what follows it as a continuation.\<close>

definition GETKEY_FROM_INT64 ::
  "data_buffer \<Rightarrow> (64 word \<Rightarrow> data_buffer \<Rightarrow> ('p option \<times> data_buffer) option) \<Rightarrow> ('p option \<times> data_buffer) option"
where
  "GETKEY_FROM_INT64 input k =
     (if getDataLen input < 8 then Some (None, input) else do { (n, input) \<leftarrow> readInt64 input; k n input })"

definition GETKEY_FROM_INT32 ::
  "data_buffer \<Rightarrow> (32 word \<Rightarrow> data_buffer \<Rightarrow> ('p option \<times> data_buffer) option) \<Rightarrow> ('p option \<times> data_buffer) option"
where
  "GETKEY_FROM_INT32 input k =
     (if getDataLen input < 4 then Some (None, input) else do { (n, input) \<leftarrow> readInt32 input; k n input })"

definition GETKEY_FROM_INT16 ::
  "data_buffer \<Rightarrow> (16 word \<Rightarrow> data_buffer \<Rightarrow> ('p option \<times> data_buffer) option) \<Rightarrow> ('p option \<times> data_buffer) option"
where
  "GETKEY_FROM_INT16 input k =
     (if getDataLen input < 2 then Some (None, input) else do { (n, input) \<leftarrow> readInt16 input; k n input })"

definition HEADER_VERIFY ::
  "packet_header \<Rightarrow> data_buffer \<Rightarrow> (8 word \<Rightarrow> 16 word \<Rightarrow> data_buffer \<Rightarrow> ('p option \<times> data_buffer) option) \<Rightarrow>
   ('p option \<times> data_buffer) option"
where
  "HEADER_VERIFY header input k =
     (if sint (dataLen header) < 3 then Some (None, input)
      else do {
        (sflag, input) \<leftarrow> readInt8 input;
        (ar, input) \<leftarrow> readInt16 input;
        k sflag ar input })"

definition CREATE_HEADER :: "8 word \<Rightarrow> 16 word \<Rightarrow> data_buffer \<Rightarrow> data_buffer option" where
  "CREATE_HEADER sflag ar output = do {
     output \<leftarrow> writeInt8 sflag output;
     writeInt16 ar output }"

text \<open>An entry as its length and its bytes only.\<close>

definition PUT_DATAENTRY_TO_BUFFER :: "data_entry \<Rightarrow> data_buffer \<Rightarrow> data_buffer option" where
  "PUT_DATAENTRY_TO_BUFFER key output = do {
     output \<leftarrow> writeInt32 (of_int (esize key)) output;
     writeBytes (take (nat (esize key)) (entry_data key)) output }"

definition GETKEY_FROM_DATAENTRY ::
  "data_entry \<Rightarrow> data_buffer \<Rightarrow> (data_entry \<Rightarrow> data_buffer \<Rightarrow> ('p option \<times> data_buffer) option) \<Rightarrow>
   ('p option \<times> data_buffer) option"
where
  "GETKEY_FROM_DATAENTRY key input k =
     (if getDataLen input < 4 then Some (None, input)
      else do {
        (n, input) \<leftarrow> readInt32 input;
        let len = sint n;
        (if len < 0 \<or> getDataLen input < len then Some (None, input)
         else do {
           (got, input) \<leftarrow> readBytes len input;
           (case got of
              None \<Rightarrow> Some (None, input)
            | Some d \<Rightarrow> k (set_data (Some d) len True key) input) }) })"

text \<open>
  A vector of entries. Reading leaves out the entries of length 0, and a negative length makes
  \<open>set_data\<close> allocate nothing and \<open>readBytes\<close> copy a negative number of bytes.
\<close>

definition PUT_DATAVECTOR_TO_BUFFER :: "data_entry list \<Rightarrow> data_buffer \<Rightarrow> data_buffer option" where
  "PUT_DATAVECTOR_TO_BUFFER vs output = do {
     output \<leftarrow> writeInt32 (of_nat (length vs)) output;
     write_each PUT_DATAENTRY_TO_BUFFER vs output }"

fun get_vector_loop ::
  "nat \<Rightarrow> data_entry list \<Rightarrow> data_buffer \<Rightarrow> (data_entry list \<Rightarrow> data_buffer \<Rightarrow> ('p option \<times> data_buffer) option) \<Rightarrow>
   ('p option \<times> data_buffer) option"
where
  "get_vector_loop 0 vs input k = k vs input"
| "get_vector_loop (Suc i) vs input k =
     (if getDataLen input < 4 then Some (None, input)
      else do {
        (n, input) \<leftarrow> readInt32 input;
        let dlen = sint n;
        (if dlen = 0 then get_vector_loop i vs input k
         else do {
           (got, input) \<leftarrow> readBytes dlen input;
           (case got of
              None \<Rightarrow> Some (None, input)
            | Some d \<Rightarrow> get_vector_loop i (vs @ [set_data (Some d) dlen True init_entry]) input k) }) })"

definition GETKEY_FROM_DATAVECTOR ::
  "data_entry list \<Rightarrow> data_buffer \<Rightarrow> (data_entry list \<Rightarrow> data_buffer \<Rightarrow> ('p option \<times> data_buffer) option) \<Rightarrow>
   ('p option \<times> data_buffer) option"
where
  "GETKEY_FROM_DATAVECTOR vs input k =
     (if getDataLen input < 4 then Some (None, input)
      else do {
        (n, input) \<leftarrow> readInt32 input;
        get_vector_loop (nat (sint n)) vs input k })"

subsection \<open>Rules\<close>

definition sends :: "(data_buffer \<Rightarrow> (bool \<times> data_buffer) option) \<Rightarrow> bytes \<Rightarrow> bool" where
  "sends f xs \<longleftrightarrow> (\<forall>b. writable b \<longrightarrow> length (stored b) + length xs \<le> 2 ^ 29 \<longrightarrow>
     (\<exists>c. f b = Some (True, c) \<and> writable c \<and> stored c = stored b @ xs))"

lemma sendsD:
  "sends f xs \<Longrightarrow> writable b \<Longrightarrow> length (stored b) + length xs \<le> 2 ^ 29 \<Longrightarrow>
     \<exists>c. f b = Some (True, c) \<and> writable c \<and> stored c = stored b @ xs"
  by (simp add: sends_def)

named_theorems sends_rules \<open>what the statements of an encode function append\<close>

lemma sends_bind:
  assumes "emits f xs" and "sends g ys"
  shows "sends (\<lambda>b. Option.bind (f b) g) (xs @ ys)"
  unfolding sends_def
proof (intro allI impI)
  fix b assume b: "writable b" "length (stored b) + length (xs @ ys) \<le> 2 ^ 29"
  obtain c where c: "f b = Some c" "writable c" "stored c = stored b @ xs"
    using emitsD [OF assms(1) b(1)] b(2) by auto
  with sendsD [OF assms(2) c(2)] b(2)
  show "\<exists>d. Option.bind (f b) g = Some (True, d) \<and> writable d \<and> stored d = stored b @ xs @ ys"
    by auto
qed

lemma sends_end:
  assumes "emits f xs"
  shows "sends (\<lambda>b. Option.bind (f b) (\<lambda>b. Some (True, b))) xs"
  unfolding sends_def using emitsD [OF assms] by fastforce

lemma emits_header [emits_rules]: "emits (CREATE_HEADER sflag ar) ([sflag] @ bytes16 ar)"
  unfolding CREATE_HEADER_def by (intro emits_rules)

definition plain_wire :: "data_entry \<Rightarrow> bytes" where
  "plain_wire e = bytes32 (of_int (esize e)) @ take (nat (esize e)) (entry_data e)"

lemma emits_plain [emits_rules]: "emits (PUT_DATAENTRY_TO_BUFFER e) (plain_wire e)"
  unfolding PUT_DATAENTRY_TO_BUFFER_def plain_wire_def by (intro emits_rules)

lemma emits_vector [emits_rules]:
  "emits (PUT_DATAVECTOR_TO_BUFFER vs) (bytes32 (of_nat (length vs)) @ concat (map plain_wire vs))"
  unfolding PUT_DATAVECTOR_TO_BUFFER_def by (intro emits_rules)

lemmas guard8 = accepts_guard [where k = 8, simplified of_nat_numeral]
lemmas guard4 = accepts_guard [where k = 4, simplified of_nat_numeral]
lemmas guard2 = accepts_guard [where k = 2, simplified of_nat_numeral]

lemma accepts_GETKEY_INT64 [accepts_rules]:
  "accepts (k n) ys w \<Longrightarrow> accepts (\<lambda>b. GETKEY_FROM_INT64 b k) (bytes64 n @ ys) w"
  unfolding GETKEY_FROM_INT64_def by (intro guard8 accepts_field) simp_all

lemma accepts_GETKEY_INT32 [accepts_rules]:
  "accepts (k n) ys w \<Longrightarrow> accepts (\<lambda>b. GETKEY_FROM_INT32 b k) (bytes32 n @ ys) w"
  unfolding GETKEY_FROM_INT32_def by (intro guard4 accepts_field) simp_all

lemma accepts_GETKEY_INT16 [accepts_rules]:
  "accepts (k n) ys w \<Longrightarrow> accepts (\<lambda>b. GETKEY_FROM_INT16 b k) (bytes16 n @ ys) w"
  unfolding GETKEY_FROM_INT16_def by (intro guard2 accepts_field) simp_all

text \<open>A decoder that needs the length in the header to be large enough.\<close>

lemma accepts_len_guard:
  assumes "\<not> sint (dataLen h) < n" and "accepts r xs v"
  shows "accepts (\<lambda>b. if sint (dataLen h) < n then f b else r b) xs v"
  using assms by simp

lemma accepts_HEADER [accepts_rules]:
  assumes "accepts (k sflag ar) ys w" and "\<not> sint (dataLen h) < 3"
  shows "accepts (\<lambda>b. HEADER_VERIFY h b k) ([sflag] @ bytes16 ar @ ys) w"
  unfolding HEADER_VERIFY_def by (intro accepts_len_guard accepts_field assms)

text \<open>What a receiver holds of an entry that is sent as its length and bytes only.\<close>

definition plain_received :: "data_entry \<Rightarrow> data_entry \<Rightarrow> data_entry" where
  "plain_received key e = set_data (Some (entry_data e)) (esize e) True key"

lemma wf_entry_sint: "wf_entry e \<Longrightarrow> sint (of_int (esize e) :: 32 word) = esize e"
  and wf_entry_take: "wf_entry e \<Longrightarrow> take (nat (esize e)) (entry_data e) = entry_data e"
  by (simp_all add: wf_entry_def sint_of_int_small)

lemma wf_entry_length: "wf_entry e \<Longrightarrow> int (length (entry_data e)) = esize e"
  by (simp add: wf_entry_def)

lemma accepts_bytes_then:
  assumes "wf_entry e" and "accepts (k (entry_data e)) ys w"
  shows "accepts (\<lambda>input. do { (got, input) \<leftarrow> readBytes (esize e) input;
             (case got of None \<Rightarrow> f input | Some d \<Rightarrow> k d input) }) (entry_data e @ ys) w"
proof -
  have "accepts (readBytes (esize e)) (entry_data e) (Some (entry_data e))"
    using wf_entry_length [OF assms(1)] by (intro accepts_Bytes) simp
  from accepts_bind [OF this, of "\<lambda>got input. case got of None \<Rightarrow> f input | Some d \<Rightarrow> k d input"] assms(2)
  show ?thesis
    by simp
qed

lemma accepts_GETKEY_DATAENTRY [accepts_rules]:
  assumes "accepts (k (plain_received key e)) ys w" and "wf_entry e"
  shows "accepts (\<lambda>b. GETKEY_FROM_DATAENTRY key b k) (plain_wire e @ ys) w"
proof -
  let ?r = "\<lambda>input. do { (got, input) \<leftarrow> readBytes (esize e) input;
           (case got of None \<Rightarrow> Some (None, input)
            | Some d \<Rightarrow> k (set_data (Some d) (esize e) True key) input) }"
  have data: "accepts ?r (entry_data e @ ys) w"
    using accepts_bytes_then [OF assms(2), of "\<lambda>d. k (set_data (Some d) (esize e) True key)"] assms(1)
    by (simp add: plain_received_def)
  have "0 \<le> esize e"
    using assms(2) by (simp add: wf_entry_def)
  then have "accepts (\<lambda>input. if esize e < 0 \<or> getDataLen input < esize e then Some (None, input) else ?r input)
      (entry_data e @ ys) w"
    using accepts_guard [OF data, of "nat (esize e)"] assms(2) by (simp add: wf_entry_def)
  then have "accepts (\<lambda>b. GETKEY_FROM_DATAENTRY key b k) (bytes32 (of_int (esize e)) @ entry_data e @ ys) w"
    unfolding GETKEY_FROM_DATAENTRY_def Let_def
    by (intro guard4 accepts_field, unfold wf_entry_sint [OF assms(2)]) simp_all
  then show ?thesis
    by (simp add: plain_wire_def wf_entry_take [OF assms(2)])
qed

lemma accepts_vector_loop:
  assumes "accepts (k (vs @ map (plain_received init_entry) (filter (\<lambda>e. esize e \<noteq> 0) es))) ys w"
    and "\<forall>e\<in>set es. wf_entry e"
  shows "accepts (\<lambda>b. get_vector_loop (length es) vs b k) (concat (map plain_wire es) @ ys) w"
  using assms
proof (induction es arbitrary: vs)
  case (Cons e es)
  have wf: "wf_entry e"
    using Cons.prems(2) by simp
  let ?rest = "concat (map plain_wire es) @ ys"
  let ?next = "\<lambda>vs input. get_vector_loop (length es) vs input k"
  have "accepts (\<lambda>input. if esize e = 0 then ?next vs input
      else do { (got, input) \<leftarrow> readBytes (esize e) input;
           (case got of None \<Rightarrow> Some (None, input)
            | Some d \<Rightarrow> ?next (vs @ [set_data (Some d) (esize e) True init_entry]) input) })
      (entry_data e @ ?rest) w"
  proof (cases "esize e = 0")
    case True
    then show ?thesis
      using Cons.IH [of vs] Cons.prems wf by (simp add: wf_entry_def)
  next
    case False
    have "accepts (?next (vs @ [set_data (Some (entry_data e)) (esize e) True init_entry])) ?rest w"
      using Cons.IH [of "vs @ [plain_received init_entry e]"] Cons.prems False by (simp add: plain_received_def)
    then show ?thesis
      using False accepts_bytes_then [OF wf, of "\<lambda>d. ?next (vs @ [set_data (Some d) (esize e) True init_entry])"]
      by simp
  qed
  then have "accepts (\<lambda>b. get_vector_loop (Suc (length es)) vs b k)
      (bytes32 (of_int (esize e)) @ entry_data e @ ?rest) w"
    unfolding get_vector_loop.simps Let_def
    by (intro guard4 accepts_field, unfold wf_entry_sint [OF wf]) simp_all
  then show ?case
    by (simp add: plain_wire_def [of e] wf_entry_take [OF wf])
qed simp

lemma accepts_GETKEY_DATAVECTOR [accepts_rules]:
  assumes "accepts (k (vs @ map (plain_received init_entry) (filter (\<lambda>e. esize e \<noteq> 0) es))) ys w"
    and "\<forall>e\<in>set es. wf_entry e" and "length es < 2 ^ 31"
  shows "accepts (\<lambda>b. GETKEY_FROM_DATAVECTOR vs b k)
    ((bytes32 (of_nat (length es)) @ concat (map plain_wire es)) @ ys) w"
proof -
  have "nat (sint (of_nat (length es) :: 32 word)) = length es"
    using assms(3) by (simp add: sint_of_nat_small)
  then show ?thesis
    unfolding GETKEY_FROM_DATAVECTOR_def append_assoc
    using accepts_vector_loop [of k vs es ys w] assms(1,2) by (intro guard4 accepts_field) simp_all
qed

section \<open>Requests between servers\<close>

text \<open>\<open>request_ping\<close> and the classes that inherit its functions.\<close>

record request_ping =
  ping_config_version :: "32 word"
  ping_value :: "32 word"

definition encode_ping :: "request_ping packet_encode" where
  "encode_ping p output = do {
     output \<leftarrow> writeInt32 (ping_config_version p) output;
     output \<leftarrow> writeInt32 (ping_value p) output;
     Some (True, output) }"

definition decode_ping :: "request_ping packet_decode" where
  "decode_ping header input =
     (if sint (dataLen header) < 8 then Some (None, input)
      else do {
        (v, input) \<leftarrow> readInt32 input;
        (x, input) \<leftarrow> readInt32 input;
        Some (Some \<lparr>ping_config_version = v, ping_value = x\<rparr>, input) })"

definition wire_ping :: "request_ping \<Rightarrow> bytes" where
  "wire_ping p = bytes32 (ping_config_version p) @ bytes32 (ping_value p)"

lemma sends_ping [sends_rules]: "sends (encode_ping p) (wire_ping p)"
  unfolding encode_ping_def wire_ping_def by (intro sends_bind sends_end emits_rules)

lemma accepts_ping: "sint (dataLen h) = int (length (wire_ping p)) \<Longrightarrow> accepts (decode_ping h) (wire_ping p) (Some p)"
  unfolding decode_ping_def wire_ping_def by (intro accepts_len_guard accepts_field accepts_ends) simp_all

record request_migrate_finish =
  mig_version :: "32 word"
  mig_server_id :: "64 word"
  mig_bucket_no :: "32 word"

definition encode_migrate_finish :: "request_migrate_finish packet_encode" where
  "encode_migrate_finish p output = do {
     output \<leftarrow> writeInt32 (mig_version p) output;
     output \<leftarrow> writeInt64 (mig_server_id p) output;
     output \<leftarrow> writeInt32 (mig_bucket_no p) output;
     Some (True, output) }"

definition decode_migrate_finish :: "request_migrate_finish packet_decode" where
  "decode_migrate_finish header input =
     (if sint (dataLen header) < 8 then Some (None, input)
      else do {
        (v, input) \<leftarrow> readInt32 input;
        (s, input) \<leftarrow> readInt64 input;
        (n, input) \<leftarrow> readInt32 input;
        Some (Some \<lparr>mig_version = v, mig_server_id = s, mig_bucket_no = n\<rparr>, input) })"

definition wire_migrate_finish :: "request_migrate_finish \<Rightarrow> bytes" where
  "wire_migrate_finish p = bytes32 (mig_version p) @ bytes64 (mig_server_id p) @ bytes32 (mig_bucket_no p)"

lemma sends_migrate_finish [sends_rules]: "sends (encode_migrate_finish p) (wire_migrate_finish p)"
  unfolding encode_migrate_finish_def wire_migrate_finish_def by (intro sends_bind sends_end emits_rules)

lemma accepts_migrate_finish:
  "sint (dataLen h) = int (length (wire_migrate_finish p)) \<Longrightarrow>
     accepts (decode_migrate_finish h) (wire_migrate_finish p) (Some p)"
  unfolding decode_migrate_finish_def wire_migrate_finish_def
  by (intro accepts_len_guard accepts_field accepts_ends) simp_all

record request_conf_heartbeart =
  chb_server_id :: "64 word"
  chb_loop_count :: "32 word"

definition encode_conf_heartbeart :: "request_conf_heartbeart packet_encode" where
  "encode_conf_heartbeart p output = do {
     output \<leftarrow> writeInt64 (chb_server_id p) output;
     output \<leftarrow> writeInt32 (chb_loop_count p) output;
     Some (True, output) }"

definition decode_conf_heartbeart :: "request_conf_heartbeart packet_decode" where
  "decode_conf_heartbeart header input =
     (if sint (dataLen header) < 12 then Some (None, input)
      else do {
        (s, input) \<leftarrow> readInt64 input;
        (n, input) \<leftarrow> readInt32 input;
        Some (Some \<lparr>chb_server_id = s, chb_loop_count = n\<rparr>, input) })"

definition wire_conf_heartbeart :: "request_conf_heartbeart \<Rightarrow> bytes" where
  "wire_conf_heartbeart p = bytes64 (chb_server_id p) @ bytes32 (chb_loop_count p)"

lemma sends_conf_heartbeart [sends_rules]: "sends (encode_conf_heartbeart p) (wire_conf_heartbeart p)"
  unfolding encode_conf_heartbeart_def wire_conf_heartbeart_def by (intro sends_bind sends_end emits_rules)

lemma accepts_conf_heartbeart:
  "sint (dataLen h) = int (length (wire_conf_heartbeart p)) \<Longrightarrow>
     accepts (decode_conf_heartbeart h) (wire_conf_heartbeart p) (Some p)"
  unfolding decode_conf_heartbeart_def wire_conf_heartbeart_def
  by (intro accepts_len_guard accepts_field accepts_ends) simp_all

text \<open>\<open>request_remove_area\<close>, and \<open>request_lazy_remove_area\<close> with the same functions.\<close>

record request_remove_area =
  ra_area :: "32 word"

definition encode_remove_area :: "request_remove_area packet_encode" where
  "encode_remove_area p output = do {
     output \<leftarrow> writeInt32 (ra_area p) output;
     Some (True, output) }"

definition decode_remove_area :: "request_remove_area packet_decode" where
  "decode_remove_area header input =
     (if sint (dataLen header) < 4 then Some (None, input)
      else do {
        (a, input) \<leftarrow> readInt32 input;
        Some (Some \<lparr>ra_area = a\<rparr>, input) })"

definition encode_lazy_remove_area :: "request_remove_area packet_encode" where
  "encode_lazy_remove_area p output = do {
     output \<leftarrow> writeInt32 (ra_area p) output;
     Some (True, output) }"

definition decode_lazy_remove_area :: "request_remove_area packet_decode" where
  "decode_lazy_remove_area header input =
     (if sint (dataLen header) < 4 then Some (None, input)
      else do {
        (a, input) \<leftarrow> readInt32 input;
        Some (Some \<lparr>ra_area = a\<rparr>, input) })"

definition wire_remove_area :: "request_remove_area \<Rightarrow> bytes" where
  "wire_remove_area p = bytes32 (ra_area p)"

lemma sends_remove_area [sends_rules]:
  "sends (encode_remove_area p) (wire_remove_area p)" "sends (encode_lazy_remove_area p) (wire_remove_area p)"
  unfolding encode_remove_area_def encode_lazy_remove_area_def wire_remove_area_def
  by (intro sends_bind sends_end emits_rules)+

lemma accepts_remove_area:
  assumes "sint (dataLen h) = int (length (wire_remove_area p))"
  shows "accepts (decode_remove_area h) (wire_remove_area p) (Some p)"
    and "accepts (decode_lazy_remove_area h) (wire_remove_area p) (Some p)"
  using assms unfolding decode_remove_area_def decode_lazy_remove_area_def wire_remove_area_def
  by (intro accepts_len_guard accepts_ends, simp_all)+

record request_get_migrate_machine =
  gmm_server_id :: "64 word"

definition encode_get_migrate_machine :: "request_get_migrate_machine packet_encode" where
  "encode_get_migrate_machine p output = do {
     output \<leftarrow> writeInt64 (gmm_server_id p) output;
     Some (True, output) }"

definition decode_get_migrate_machine :: "request_get_migrate_machine packet_decode" where
  "decode_get_migrate_machine header input =
     (if sint (dataLen header) < 8 then Some (None, input)
      else do {
        (s, input) \<leftarrow> readInt64 input;
        Some (Some \<lparr>gmm_server_id = s\<rparr>, input) })"

definition wire_get_migrate_machine :: "request_get_migrate_machine \<Rightarrow> bytes" where
  "wire_get_migrate_machine p = bytes64 (gmm_server_id p)"

lemma sends_get_migrate_machine [sends_rules]: "sends (encode_get_migrate_machine p) (wire_get_migrate_machine p)"
  unfolding encode_get_migrate_machine_def wire_get_migrate_machine_def by (intro sends_bind sends_end emits_rules)

lemma accepts_get_migrate_machine:
  "sint (dataLen h) = int (length (wire_get_migrate_machine p)) \<Longrightarrow>
     accepts (decode_get_migrate_machine h) (wire_get_migrate_machine p) (Some p)"
  unfolding decode_get_migrate_machine_def wire_get_migrate_machine_def
  by (intro accepts_len_guard accepts_ends) simp_all

record response_get_migrate_machine =
  vec_ms :: "(64 word \<times> 32 word) list"

definition write_ms :: "64 word \<times> 32 word \<Rightarrow> data_buffer \<Rightarrow> data_buffer option" where
  "write_ms ms output = do {
     output \<leftarrow> writeInt64 (fst ms) output;
     writeInt32 (snd ms) output }"

definition encode_resp_migrate_machine :: "response_get_migrate_machine packet_encode" where
  "encode_resp_migrate_machine p output = do {
     output \<leftarrow> writeInt32 (of_nat (length (vec_ms p))) output;
     output \<leftarrow> write_each write_ms (vec_ms p) output;
     Some (True, output) }"

definition read_ms :: "data_buffer \<Rightarrow> ((64 word \<times> 32 word) \<times> data_buffer) option" where
  "read_ms input = do {
     (s, input) \<leftarrow> readInt64 input;
     (n, input) \<leftarrow> readInt32 input;
     Some ((s, n), input) }"

definition decode_resp_migrate_machine :: "response_get_migrate_machine packet_decode" where
  "decode_resp_migrate_machine header input =
     (if sint (dataLen header) < 4 then Some (None, input)
      else do {
        (n, input) \<leftarrow> readInt32 input;
        (v, input) \<leftarrow> read_each read_ms (nat (sint n)) input;
        Some (Some \<lparr>vec_ms = v\<rparr>, input) })"

definition ms_wire :: "64 word \<times> 32 word \<Rightarrow> bytes" where
  "ms_wire ms = bytes64 (fst ms) @ bytes32 (snd ms)"

definition wire_resp_migrate_machine :: "response_get_migrate_machine \<Rightarrow> bytes" where
  "wire_resp_migrate_machine p = bytes32 (of_nat (length (vec_ms p))) @ concat (map ms_wire (vec_ms p))"

lemma accepts_each:
  assumes "\<And>x. x \<in> set xs \<Longrightarrow> accepts r (enc x) (g x)"
  shows "accepts (read_each r (length xs)) (concat (map enc xs)) (map g xs)"
  using assms
proof (induction xs)
  case (Cons x xs)
  have "accepts (\<lambda>b. Option.bind (r b) (\<lambda>(v, b). map_option (\<lambda>(ys, b). (v # ys, b)) (read_each r (length xs) b)))
      (enc x @ concat (map enc xs)) (g x # map g xs)"
  proof (rule accepts_bind)
    have "accepts (read_each r (length xs)) (concat (map enc xs)) (map g xs)"
      using Cons by simp
    then show "accepts (\<lambda>b. map_option (\<lambda>(ys, b). (g x # ys, b)) (read_each r (length xs) b))
        (concat (map enc xs)) (g x # map g xs)"
      by (fastforce simp: accepts_def)
  qed (use Cons in simp)
  then show ?case
    by (simp add: accepts_def)
qed (simp add: accepts_def)

lemma emits_ms [emits_rules]: "emits (write_ms ms) (ms_wire ms)"
  unfolding write_ms_def ms_wire_def by (intro emits_rules)

lemma accepts_ms: "accepts read_ms (ms_wire ms) ms"
  unfolding read_ms_def ms_wire_def by (intro accepts_field accepts_ends) simp

lemma sends_resp_migrate_machine [sends_rules]: "sends (encode_resp_migrate_machine p) (wire_resp_migrate_machine p)"
  unfolding encode_resp_migrate_machine_def wire_resp_migrate_machine_def by (intro sends_bind sends_end emits_rules)

lemma accepts_resp_migrate_machine:
  assumes "sint (dataLen h) = int (length (wire_resp_migrate_machine p))" and "length (vec_ms p) < 2 ^ 31"
  shows "accepts (decode_resp_migrate_machine h) (wire_resp_migrate_machine p) (Some p)"
proof -
  have "nat (sint (of_nat (length (vec_ms p)) :: 32 word)) = length (vec_ms p)"
    using assms(2) by (simp add: sint_of_nat_small)
  moreover have "accepts (read_each read_ms (length (vec_ms p))) (concat (map ms_wire (vec_ms p))) (vec_ms p)"
    using accepts_each [of "vec_ms p" read_ms ms_wire "\<lambda>ms. ms"] accepts_ms by simp
  ultimately show ?thesis
    using assms(1) unfolding decode_resp_migrate_machine_def wire_resp_migrate_machine_def
    by (intro accepts_len_guard accepts_field accepts_end) (simp_all, cases p, simp)
qed

section \<open>Strings\<close>

definition string_wire :: "bytes \<Rightarrow> bytes" where
  "string_wire s = (if s = [] then bytes32 0 else bytes32 (of_nat (length s + 1)) @ s @ [0])"

text \<open>The C string at the start of an array.\<close>

definition cstring :: "bytes \<Rightarrow> bytes" where
  "cstring mem = takeWhile (\<lambda>c. c \<noteq> 0) mem"

lemma cstring_no_zero: "0 \<notin> set (cstring mem)"
  unfolding cstring_def by (auto dest: set_takeWhileD)

lemma cstring_end:
  assumes "0 \<in> set mem"
  shows "\<exists>t. mem = cstring mem @ 0 # t"
proof -
  obtain x t where "dropWhile (\<lambda>c. c \<noteq> 0) mem = x # t"
    using assms by (cases "dropWhile (\<lambda>c. c \<noteq> 0) mem") (auto simp: dropWhile_eq_Nil_conv)
  moreover from this have "x = 0"
    using hd_dropWhile [of "\<lambda>c. c \<noteq> 0" mem] by auto
  ultimately show ?thesis
    unfolding cstring_def by (metis takeWhile_dropWhile_id)
qed

lemma emits_String:
  assumes "0 \<in> set mem"
  shows "emits (writeString (Some mem)) (string_wire (cstring mem))"
proof -
  obtain t where t: "mem = cstring mem @ 0 # t"
    using cstring_end [OF assms] by blast
  show ?thesis
  proof (cases "cstring mem = []")
    case True
    then have "strlen mem = 0"
      by (simp add: strlen_def cstring_def)
    then show ?thesis
      using True by (intro emitsI) (simp add: string_wire_def writeString_empty)
  next
    case False
    show ?thesis
    proof (rule emitsI)
      fix b assume b: "writable b" "length (stored b) + length (string_wire (cstring mem)) \<le> 2 ^ 29"
      show "\<exists>c. writeString (Some mem) b = Some c \<and> writable c \<and> stored c = stored b @ string_wire (cstring mem)"
        using writeString_result [OF b(1) cstring_no_zero False, of t] b(2) False
        unfolding t [symmetric] by (simp add: string_wire_def)
    qed
  qed
qed

text \<open>Reading a string that fits into the \<open>len\<close> bytes at the caller's pointer.\<close>

definition string_into :: "bytes \<Rightarrow> bytes \<Rightarrow> bytes" where
  "string_into s mem = (if s = [] then mem else poke 0 (s @ [0]) mem)"

lemma readString_into:
  assumes "wf_buffer b" and "stored b = string_wire s @ rest" and "int (length s) < len" and "length s < 2 ^ 30"
  shows "\<exists>c. readString (Some mem) len b = Some (True, Some (string_into s mem), c) \<and> wf_buffer c \<and> blk c = blk b \<and> stored c = rest"
proof (cases "s = []")
  case True
  then have st: "stored b = bytes32 0 @ rest"
    using assms(2) by (simp add: string_wire_def)
  show ?thesis
    using readString_empty [OF assms(1) st, of "Some mem" len] True by (simp add: string_into_def)
next
  case False
  let ?n = "of_nat (length s + 1) :: 32 word"
  have st: "stored b = bytes32 ?n @ (s @ [0]) @ rest"
    using assms(2) False by (simp add: string_wire_def)
  have n: "sint ?n = int (length s + 1)"
    using assms(4) by (intro sint_of_nat_small) simp
  obtain c where c: "readInt32 b = Some (?n, c)" "wf_buffer c" "stored c = (s @ [0]) @ rest" "blk c = blk b"
    using fc32.reads [OF assms(1) st] by auto
  note front = read_front [OF c(2,3)]
  have long: "\<not> getDataLen c < int (length s + 1)"
    using getDataLen_front [OF c(2,3)] by simp
  have cut: "cut_string (Suc (length s)) (drop (pdata c) (blk c)) = s @ [0]"
    using front(1) by (auto simp: peek_def cut_string_def split: if_splits)
  have start: "\<not> pfree b < pdata b + 4"
    using read_front(4) [OF assms(1) st] by simp
  have "len > 1 + int (length s) \<or> len = 1 + int (length s)"
    using assms(3) by arith
  then have "readString (Some mem) len b =
      Some (True, Some (string_into s mem), c\<lparr>pdata := pdata c + Suc (length s)\<rparr>)"
    unfolding readString_def using start c(1) n long cut front(4) False
    by (elim disjE) (simp_all add: Let_def assert_data_def nat_add_distrib string_into_def)
  then show ?thesis
    using front(2,3) c(4) by simp
qed

lemma accepts_String:
  assumes "accepts (k (string_into s mem)) ys w" and "int (length s) < len" and "length s < 2 ^ 30"
  shows "accepts (\<lambda>b. Option.bind (readString (Some mem) len b)
           (\<lambda>(ok, str, b). k (case str of None \<Rightarrow> [] | Some m \<Rightarrow> m) b)) (string_wire s @ ys) w"
proof (rule acceptsI)
  fix b rest assume b: "wf_buffer b" "stored b = (string_wire s @ ys) @ rest"
  obtain c where c: "readString (Some mem) len b = Some (True, Some (string_into s mem), c)" "wf_buffer c"
      "stored c = ys @ rest" "blk c = blk b"
    using readString_into [OF b(1) _ assms(2,3), of "ys @ rest" mem] b(2) by auto
  show "\<exists>d. Option.bind (readString (Some mem) len b)
      (\<lambda>(ok, str, b). k (case str of None \<Rightarrow> [] | Some m \<Rightarrow> m) b) = Some (w, d) \<and> wf_buffer d \<and> blk d = blk b \<and> stored d = rest"
    using acceptsD [OF assms(1) c(2,3)] c(1,4) by simp
qed

lemma cstring_into:
  assumes "0 \<notin> set s" and "s = [] \<longrightarrow> cstring mem = []"
  shows "cstring (string_into s mem) = s"
  using assms takeWhile_cstring [of s] by (auto simp: cstring_def string_into_def poke_def)

text \<open>The answer to most requests: a code and a message of at most 127 characters.\<close>

record response_return =
  rr_code :: "32 word"
  rr_msg :: bytes
  rr_config_version :: "32 word"

definition new_response_return :: response_return where
  "new_response_return = \<lparr>rr_code = 0, rr_msg = replicate 128 0, rr_config_version = 0\<rparr>"

definition encode_response_return :: "response_return packet_encode" where
  "encode_response_return p output = do {
     output \<leftarrow> writeInt32 (rr_config_version p) output;
     output \<leftarrow> writeInt32 (rr_code p) output;
     output \<leftarrow> writeString (Some (rr_msg p)) output;
     Some (True, output) }"

definition decode_response_return :: "response_return packet_decode" where
  "decode_response_return header input =
     (if sint (dataLen header) < 4 * 3 then Some (None, input)
      else do {
        (v, input) \<leftarrow> readInt32 input;
        (c, input) \<leftarrow> readInt32 input;
        (ok, str, input) \<leftarrow> readString (Some (rr_msg new_response_return)) 128 input;
        Some (Some \<lparr>rr_code = c, rr_msg = (case str of None \<Rightarrow> [] | Some m \<Rightarrow> m), rr_config_version = v\<rparr>, input) })"

definition wire_response_return :: "response_return \<Rightarrow> bytes" where
  "wire_response_return p = bytes32 (rr_config_version p) @ bytes32 (rr_code p) @ string_wire (cstring (rr_msg p))"

definition valid_response_return :: "response_return \<Rightarrow> bool" where
  "valid_response_return p \<longleftrightarrow> length (rr_msg p) = 128 \<and> 0 \<in> set (rr_msg p)"

definition received_response_return :: "response_return \<Rightarrow> response_return" where
  "received_response_return p = p\<lparr>rr_msg := string_into (cstring (rr_msg p)) (replicate 128 0)\<rparr>"

lemma sends_response_return:
  "valid_response_return p \<Longrightarrow> sends (encode_response_return p) (wire_response_return p)"
  unfolding encode_response_return_def wire_response_return_def valid_response_return_def
  by (intro sends_bind sends_end emits_String emits_rules) simp_all

lemma length_cstring:
  assumes "0 \<in> set mem"
  shows "length (cstring mem) < length mem"
proof -
  obtain t where "mem = cstring mem @ 0 # t"
    using cstring_end [OF assms] by blast
  then have "length mem = length (cstring mem) + length (0 # t)"
    by (metis length_append)
  then show ?thesis
    by simp
qed

lemma accepts_response_return:
  assumes "sint (dataLen h) = int (length (wire_response_return p))" and "valid_response_return p"
  shows "accepts (decode_response_return h) (wire_response_return p) (Some (received_response_return p))"
proof -
  have short: "length (cstring (rr_msg p)) < 128"
    using length_cstring assms(2) by (fastforce simp: valid_response_return_def)
  have "accepts (\<lambda>input. do {
        (ok, str, input) \<leftarrow> readString (Some (rr_msg new_response_return)) 128 input;
        Some (Some \<lparr>rr_code = rr_code p, rr_msg = (case str of None \<Rightarrow> [] | Some m \<Rightarrow> m),
                    rr_config_version = rr_config_version p\<rparr>, input) })
      (string_wire (cstring (rr_msg p)) @ []) (Some (received_response_return p))"
    using short by (intro accepts_String [where k = "\<lambda>m input. Some (Some \<lparr>rr_code = rr_code p, rr_msg = m,
          rr_config_version = rr_config_version p\<rparr>, input)"])
      (simp_all add: accepts_def received_response_return_def new_response_return_def)
  moreover have "\<not> sint (dataLen h) < 4 * 3"
    using assms(1) by (simp add: wire_response_return_def string_wire_def)
  ultimately show ?thesis
    unfolding decode_response_return_def wire_response_return_def
    by (intro accepts_len_guard accepts_field) simp_all
qed

end
