(* ===== verification/Data_Packets.thy ===== *)
theory Data_Packets
  imports Packets
begin

text \<open>
  The requests on data (\<open>put_packet.hpp\<close>, \<open>get_packet.hpp\<close>, \<open>remove_packet.hpp\<close>, \<open>inc_dec_packet.hpp\<close>)
  and the answer to a get. Keys of a request for several keys are kept in a set ordered by
  \<open>less_entry\<close>.
\<close>

section \<open>Put\<close>

definition HAS_HASH_CODE :: "8 word" where
  "HAS_HASH_CODE = 0x80"

record request_put =
  put_server_flag :: "8 word"
  put_hash_code :: "64 word"
  put_area :: "16 word"
  put_version :: "16 word"
  put_expired :: "32 word"
  put_key :: data_entry
  put_data :: data_entry

definition encode_put :: "request_put packet_encode" where
  "encode_put p output = do {
     output \<leftarrow> writeInt8 (put_server_flag p) output;
     output \<leftarrow> writeInt16 (put_area p) output;
     output \<leftarrow> writeInt16 (put_version p) output;
     output \<leftarrow> writeInt32 (put_expired p) output;
     output \<leftarrow> encode_entry (put_key p) output;
     output \<leftarrow> encode_entry (put_data p) output;
     Some (True, output) }"

definition decode_put :: "request_put packet_decode" where
  "decode_put header input =
     HEADER_VERIFY header input (\<lambda>sflag ar input.
     GETKEY_FROM_INT16 input (\<lambda>ver input.
     GETKEY_FROM_INT32 input (\<lambda>ex input. do {
       (key, input) \<leftarrow> decode_entry init_entry input;
       (data, input) \<leftarrow> decode_entry init_entry input;
       let key = key\<lparr>data_meta := (data_meta key)\<lparr>version := ver\<rparr>\<rparr>;
       let p = \<lparr>put_server_flag = sflag, put_hash_code = - 1, put_area = ar, put_version = ver,
                put_expired = ex, put_key = key, put_data = data\<rparr>;
       (if sflag AND HAS_HASH_CODE \<noteq> 0 then
          GETKEY_FROM_INT32 input (\<lambda>h input.
            Some (Some (p\<lparr>put_hash_code := ucast h, put_server_flag := sflag AND NOT HAS_HASH_CODE\<rparr>), input))
        else Some (Some p, input)) })))"

definition wire_put :: "request_put \<Rightarrow> bytes" where
  "wire_put p = [put_server_flag p] @ bytes16 (put_area p) @ bytes16 (put_version p) @ bytes32 (put_expired p)
     @ entry_wire (put_key p) @ entry_wire (put_data p)"

definition valid_put :: "request_put \<Rightarrow> bool" where
  "valid_put p \<longleftrightarrow> wf_entry (put_key p) \<and> wf_entry (put_data p) \<and> put_server_flag p AND HAS_HASH_CODE = 0
     \<and> put_hash_code p = - 1"

definition received_put :: "request_put \<Rightarrow> request_put" where
  "received_put p =
     (let key = received_entry init_entry (put_key p)
      in p\<lparr>put_key := key\<lparr>data_meta := (data_meta key)\<lparr>version := put_version p\<rparr>\<rparr>,
           put_data := received_entry init_entry (put_data p)\<rparr>)"

lemma sends_put [sends_rules]: "sends (encode_put p) (wire_put p)"
  unfolding encode_put_def wire_put_def by (intro sends_bind sends_end emits_rules)

lemma accepts_put:
  assumes "sint (dataLen h) = int (length (wire_put p))" and "valid_put p"
  shows "accepts (decode_put h) (wire_put p) (Some (received_put p))"
proof -
  have len: "\<not> sint (dataLen h) < 3"
    using assms(1) by (simp add: wire_put_def)
  have key: "accepts (decode_entry init_entry) (entry_wire (put_key p)) (received_entry init_entry (put_key p))"
    and data: "accepts (decode_entry init_entry) (entry_wire (put_data p)) (received_entry init_entry (put_data p))"
    using assms(2) by (auto intro: accepts_entry simp: valid_put_def)
  have flag: "(put_server_flag p AND HAS_HASH_CODE \<noteq> 0) = False"
    using assms(2) by (simp add: valid_put_def)
  show ?thesis
    unfolding decode_put_def wire_put_def Let_def
    by (intro accepts_HEADER [OF _ len] accepts_GETKEY_INT16 accepts_GETKEY_INT32 accepts_bind [OF key],
        unfold flag if_False, rule accepts_end [OF data])
      (use assms(2) in \<open>simp add: received_put_def valid_put_def Let_def\<close>)
qed

section \<open>Get and remove\<close>

text \<open>\<open>insert\<close> of a set of entries: the position is found with \<open>less_entry\<close>, an entry that is neither
  smaller nor larger than a present one is not inserted.\<close>

fun entry_set_insert :: "data_entry \<Rightarrow> data_entry list \<Rightarrow> data_entry list \<times> bool" where
  "entry_set_insert e [] = ([e], True)"
| "entry_set_insert e (f # fs) =
     (if less_entry e f then (e # f # fs, True)
      else if less_entry f e then (let (gs, ok) = entry_set_insert e fs in (f # gs, ok))
      else (f # fs, False))"

record request_get =
  get_server_flag :: "8 word"
  get_area :: "16 word"
  get_key_count :: "32 word"
  get_key :: "data_entry option"
  get_key_list :: "data_entry list option"

definition new_request_get :: request_get where
  "new_request_get = \<lparr>get_server_flag = 0, get_area = 0, get_key_count = 0, get_key = None, get_key_list = None\<rparr>"

text \<open>The constructor that takes a key: the count stays 0.\<close>

definition request_get_of :: "16 word \<Rightarrow> data_entry \<Rightarrow> request_get" where
  "request_get_of ar key =
     \<lparr>get_server_flag = 0, get_area = ar, get_key_count = 0, get_key = Some key, get_key_list = None\<rparr>"

definition add_key :: "bytes \<Rightarrow> request_get \<Rightarrow> request_get option" where
  "add_key str_key p =
     (if length str_key \<le> 2000 then
        Some (if get_key_count p = 0
              then p\<lparr>get_key := Some (new_entry str_key), get_key_count := get_key_count p + 1\<rparr>
              else
                let p = (case get_key_list p of
                           None \<Rightarrow> p\<lparr>get_key_list := Some (case get_key p of None \<Rightarrow> [] | Some k \<Rightarrow> [k]), get_key := None\<rparr>
                         | Some ks \<Rightarrow> p);
                    (ks, ok) = entry_set_insert (new_entry str_key) (case get_key_list p of None \<Rightarrow> [] | Some ks \<Rightarrow> ks)
                in if ok then p\<lparr>get_key_list := Some ks, get_key_count := get_key_count p + 1\<rparr> else p)
      else None)"

definition encode_get :: "request_get packet_encode" where
  "encode_get p output = do {
     output \<leftarrow> writeInt8 (get_server_flag p) output;
     output \<leftarrow> writeInt16 (get_area p) output;
     output \<leftarrow> writeInt32 (get_key_count p) output;
     output \<leftarrow> (case get_key_list p of
                  Some ks \<Rightarrow> write_each encode_entry ks output
                | None \<Rightarrow> (case get_key p of Some k \<Rightarrow> encode_entry k output | None \<Rightarrow> Some output));
     Some (True, output) }"

fun decode_keys :: "nat \<Rightarrow> data_entry list \<Rightarrow> data_buffer \<Rightarrow> (data_entry list \<times> data_buffer) option" where
  "decode_keys 0 ks input = Some (ks, input)"
| "decode_keys (Suc i) ks input = do {
     (k, input) \<leftarrow> decode_entry init_entry input;
     decode_keys i (fst (entry_set_insert k ks)) input }"

definition decode_get :: "request_get packet_decode" where
  "decode_get header input =
     (if sint (dataLen header) < 7 then Some (None, input)
      else do {
        (sflag, input) \<leftarrow> readInt8 input;
        (ar, input) \<leftarrow> readInt16 input;
        (n, input) \<leftarrow> readInt32 input;
        let p = \<lparr>get_server_flag = sflag, get_area = ar, get_key_count = n, get_key = None, get_key_list = None\<rparr>;
        (if n = 1 then do {
           (k, input) \<leftarrow> decode_entry init_entry input;
           Some (Some (p\<lparr>get_key := Some k\<rparr>), input) }
         else if n > 1 then do {
           (ks, input) \<leftarrow> decode_keys (unat n) [] input;
           Some (Some (p\<lparr>get_key_list := Some ks\<rparr>), input) }
         else Some (Some p, input)) })"

text \<open>\<open>request_remove\<close> inherits the functions; the copy for a duplicate carries two more numbers.\<close>

record request_remove_dup =
  rd_request :: request_get
  rd_packet_id :: "32 word"
  rd_bucket_id :: "32 word"

definition encode_remove :: "request_get packet_encode" where
  "encode_remove p output = encode_get p output"

definition encode_remove_dup :: "request_remove_dup packet_encode" where
  "encode_remove_dup p output = do {
     (ok, output) \<leftarrow> encode_remove (rd_request p) output;
     (if \<not> ok then Some (False, output)
      else do {
        output \<leftarrow> writeInt32 (rd_packet_id p) output;
        output \<leftarrow> writeInt32 (rd_bucket_id p) output;
        Some (True, output) }) }"

definition decode_remove_dup :: "request_remove_dup packet_decode" where
  "decode_remove_dup header input = do {
     (r, input) \<leftarrow> decode_get header input;
     (case r of
        None \<Rightarrow> Some (None, input)
      | Some q \<Rightarrow> do {
          (n, input) \<leftarrow> readInt32 input;
          (m, input) \<leftarrow> readInt32 input;
          Some (Some \<lparr>rd_request = q, rd_packet_id = n, rd_bucket_id = m\<rparr>, input) }) }"

section \<open>Increment\<close>

record request_inc_dec =
  inc_server_flag :: "8 word"
  inc_area :: "16 word"
  inc_add_count :: "32 word"
  inc_init_value :: "32 word"
  inc_expired :: "32 word"
  inc_key :: data_entry

definition encode_inc_dec :: "request_inc_dec packet_encode" where
  "encode_inc_dec p output = do {
     output \<leftarrow> writeInt8 (inc_server_flag p) output;
     output \<leftarrow> writeInt16 (inc_area p) output;
     output \<leftarrow> writeInt32 (inc_add_count p) output;
     output \<leftarrow> writeInt32 (inc_init_value p) output;
     output \<leftarrow> writeInt32 (inc_expired p) output;
     output \<leftarrow> encode_entry (inc_key p) output;
     Some (True, output) }"

definition decode_inc_dec :: "request_inc_dec packet_decode" where
  "decode_inc_dec header input =
     (if sint (dataLen header) < 13 then Some (None, input)
      else do {
        (sflag, input) \<leftarrow> readInt8 input;
        (ar, input) \<leftarrow> readInt16 input;
        (n, input) \<leftarrow> readInt32 input;
        (i, input) \<leftarrow> readInt32 input;
        (ex, input) \<leftarrow> readInt32 input;
        (key, input) \<leftarrow> decode_entry init_entry input;
        Some (Some \<lparr>inc_server_flag = sflag, inc_area = ar, inc_add_count = n, inc_init_value = i,
                    inc_expired = ex, inc_key = key\<rparr>, input) })"

definition wire_inc_dec :: "request_inc_dec \<Rightarrow> bytes" where
  "wire_inc_dec p = [inc_server_flag p] @ bytes16 (inc_area p) @ bytes32 (inc_add_count p)
     @ bytes32 (inc_init_value p) @ bytes32 (inc_expired p) @ entry_wire (inc_key p)"

definition received_inc_dec :: "request_inc_dec \<Rightarrow> request_inc_dec" where
  "received_inc_dec p = p\<lparr>inc_key := received_entry init_entry (inc_key p)\<rparr>"

lemma sends_inc_dec [sends_rules]: "sends (encode_inc_dec p) (wire_inc_dec p)"
  unfolding encode_inc_dec_def wire_inc_dec_def by (intro sends_bind sends_end emits_rules)

lemma accepts_inc_dec:
  assumes "sint (dataLen h) = int (length (wire_inc_dec p))" and "wf_entry (inc_key p)"
  shows "accepts (decode_inc_dec h) (wire_inc_dec p) (Some (received_inc_dec p))"
proof -
  have "\<not> sint (dataLen h) < 13"
    using assms(1) by (simp add: wire_inc_dec_def)
  then show ?thesis
    unfolding decode_inc_dec_def wire_inc_dec_def
    by (intro accepts_len_guard accepts_field accepts_end [OF accepts_entry [OF assms(2)]])
      (simp_all add: received_inc_dec_def)
qed

section \<open>Rules for get and remove\<close>

lemma wf_received: "wf_entry e \<Longrightarrow> wf_entry (received_entry e0 e)"
  and received_data: "wf_entry e \<Longrightarrow> entry_data (received_entry e0 e) = entry_data e"
  and received_size: "wf_entry e \<Longrightarrow> esize (received_entry e0 e) = esize e"
  by (simp_all add: wf_entry_def received_entry_def)

lemma less_received:
  "wf_entry e \<Longrightarrow> wf_entry f \<Longrightarrow> less_entry (received_entry e0 e) (received_entry f0 f) = less_entry e f"
  by (simp add: less_entry_lex wf_received received_data received_size)

lemma less_entry_asym: "wf_entry e \<Longrightarrow> wf_entry f \<Longrightarrow> less_entry e f \<Longrightarrow> \<not> less_entry f e"
  using lexordp_antisym by (auto simp: less_entry_lex)

lemma entry_set_insert_last:
  "\<forall>f\<in>set fs. less_entry f e \<and> \<not> less_entry e f \<Longrightarrow> entry_set_insert e fs = (fs @ [e], True)"
  by (induction fs) auto

lemma accepts_keys:
  assumes "\<forall>e\<in>set es. wf_entry e" and "\<forall>e\<in>set ks. wf_entry e" and "sorted_wrt less_entry (ks @ es)"
  shows "accepts (decode_keys (length es) (map (received_entry init_entry) ks)) (concat (map entry_wire es))
    (map (received_entry init_entry) (ks @ es))"
  using assms
proof (induction es arbitrary: ks)
  case Nil
  then show ?case
    by (simp add: accepts_def)
next
  case (Cons e es)
  let ?r = "received_entry init_entry"
  have wf: "wf_entry e" and before: "\<forall>f\<in>set ks. wf_entry f \<and> less_entry f e"
    using Cons.prems by (auto simp: sorted_wrt_append)
  then have "entry_set_insert (?r e) (map ?r ks) = (map ?r ks @ [?r e], True)"
    using less_entry_asym by (intro entry_set_insert_last) (auto simp: less_received)
  moreover have "accepts (decode_keys (length es) (map ?r (ks @ [e]))) (concat (map entry_wire es))
      (map ?r ((ks @ [e]) @ es))"
    using Cons.prems by (intro Cons.IH) auto
  ultimately have "accepts (decode_keys (length es) (fst (entry_set_insert (?r e) (map ?r ks))))
      (concat (map entry_wire es)) (map ?r (ks @ e # es))"
    by simp
  from accepts_bind [OF accepts_entry [OF wf], of "\<lambda>k. decode_keys (length es) (fst (entry_set_insert k (map ?r ks)))",
      OF this]
  show ?case
    by (simp add: accepts_def)
qed

definition wire_get :: "request_get \<Rightarrow> bytes" where
  "wire_get p = [get_server_flag p] @ bytes16 (get_area p) @ bytes32 (get_key_count p)
     @ (case get_key_list p of
          Some ks \<Rightarrow> concat (map entry_wire ks)
        | None \<Rightarrow> (case get_key p of Some k \<Rightarrow> entry_wire k | None \<Rightarrow> []))"

definition valid_get :: "request_get \<Rightarrow> bool" where
  "valid_get p \<longleftrightarrow>
     (case get_key_list p of
        Some ks \<Rightarrow> get_key p = None \<and> 1 < length ks \<and> length ks < 2 ^ 32 \<and> get_key_count p = of_nat (length ks)
          \<and> (\<forall>k\<in>set ks. wf_entry k) \<and> sorted_wrt less_entry ks
      | None \<Rightarrow> (case get_key p of Some k \<Rightarrow> wf_entry k \<and> get_key_count p = 1 | None \<Rightarrow> get_key_count p = 0))"

definition received_get :: "request_get \<Rightarrow> request_get" where
  "received_get p = p\<lparr>get_key := map_option (received_entry init_entry) (get_key p),
     get_key_list := map_option (map (received_entry init_entry)) (get_key_list p)\<rparr>"

lemma sends_get [sends_rules]: "sends (encode_get p) (wire_get p)"
proof -
  have "emits (\<lambda>output. case get_key_list p of
                  Some ks \<Rightarrow> write_each encode_entry ks output
                | None \<Rightarrow> (case get_key p of Some k \<Rightarrow> encode_entry k output | None \<Rightarrow> Some output))
      (case get_key_list p of
          Some ks \<Rightarrow> concat (map entry_wire ks)
        | None \<Rightarrow> (case get_key p of Some k \<Rightarrow> entry_wire k | None \<Rightarrow> []))"
    by (auto split: option.splits intro: emits_rules)
  then show ?thesis
    unfolding encode_get_def wire_get_def by (intro sends_bind sends_end emits_rules)
qed

lemma count_list:
  assumes "1 < n" and "n < 2 ^ 32"
  shows "unat (of_nat n :: 32 word) = n" and "(of_nat n :: 32 word) \<noteq> 1" and "(of_nat n :: 32 word) > 1"
proof -
  show n: "unat (of_nat n :: 32 word) = n"
    using assms(2) by (intro unat_of_nat_small) simp
  then show "(of_nat n :: 32 word) \<noteq> 1" and "(of_nat n :: 32 word) > 1"
    using assms(1) by (auto simp: word_less_nat_alt dest: arg_cong [of _ _ unat])
qed

lemma accepts_get:
  assumes "\<not> sint (dataLen h) < 7" and "valid_get p"
  shows "accepts (decode_get h) (wire_get p) (Some (received_get p))"
proof -
  let ?r = "received_entry init_entry"
  let ?tail = "case get_key_list p of
          Some ks \<Rightarrow> concat (map entry_wire ks)
        | None \<Rightarrow> (case get_key p of Some k \<Rightarrow> entry_wire k | None \<Rightarrow> [])"
  let ?p = "\<lparr>get_server_flag = get_server_flag p, get_area = get_area p, get_key_count = get_key_count p,
      get_key = None, get_key_list = None\<rparr>"
  have "accepts (\<lambda>input. if get_key_count p = 1 then do {
           (k, input) \<leftarrow> decode_entry init_entry input;
           Some (Some (?p\<lparr>get_key := Some k\<rparr>), input) }
         else if get_key_count p > 1 then do {
           (ks, input) \<leftarrow> decode_keys (unat (get_key_count p)) [] input;
           Some (Some (?p\<lparr>get_key_list := Some ks\<rparr>), input) }
         else Some (Some ?p, input)) ?tail (Some (received_get p))" (is "accepts ?d ?tail _")
  proof (cases "get_key_list p")
    case (Some ks)
    have keys: "accepts (decode_keys (length ks) []) (concat (map entry_wire ks)) (map ?r ks)"
      using accepts_keys [of ks "[]"] assms(2) Some by (simp add: valid_get_def)
    have "accepts (\<lambda>input. do { (ks, input) \<leftarrow> decode_keys (length ks) [] input;
           Some (Some (?p\<lparr>get_key_list := Some ks\<rparr>), input) }) (concat (map entry_wire ks)) (Some (received_get p))"
      using Some assms(2) by (intro accepts_end [OF keys]) (simp add: received_get_def valid_get_def)
    then show ?thesis
      using Some assms(2) count_list [of "length ks"] by (simp add: valid_get_def)
  next
    case None
    then show ?thesis
    proof (cases "get_key p")
      case (Some k)
      have "accepts (\<lambda>input. do { (k, input) \<leftarrow> decode_entry init_entry input;
           Some (Some (?p\<lparr>get_key := Some k\<rparr>), input) }) (entry_wire k) (Some (received_get p))"
        using None Some assms(2)
        by (intro accepts_end [OF accepts_entry]) (simp_all add: received_get_def valid_get_def)
      then show ?thesis
        using None Some assms(2) by (simp add: valid_get_def)
    next
      case N: None
      then have "get_key_count p = 0"
        using None assms(2) by (simp add: valid_get_def)
      moreover have "Some ?p = Some (received_get p)"
        using None N by (simp add: received_get_def)
      ultimately show ?thesis
        using None N accepts_Some [of "Some ?p"] by simp
    qed
  qed
  then show ?thesis
    unfolding decode_get_def wire_get_def Let_def by (intro accepts_len_guard [OF assms(1)] accepts_field)
qed

lemma sends_remove [sends_rules]: "sends (encode_remove p) (wire_get p)"
  unfolding encode_remove_def by (rule sends_get)

definition wire_remove_dup :: "request_remove_dup \<Rightarrow> bytes" where
  "wire_remove_dup p = wire_get (rd_request p) @ bytes32 (rd_packet_id p) @ bytes32 (rd_bucket_id p)"

definition received_remove_dup :: "request_remove_dup \<Rightarrow> request_remove_dup" where
  "received_remove_dup p = p\<lparr>rd_request := received_get (rd_request p)\<rparr>"

lemma sends_remove_dup [sends_rules]: "sends (encode_remove_dup p) (wire_remove_dup p)"
  unfolding sends_def
proof (intro allI impI)
  fix b assume b: "writable b" "length (stored b) + length (wire_remove_dup p) \<le> 2 ^ 29"
  obtain c where c: "encode_remove (rd_request p) b = Some (True, c)" "writable c"
      "stored c = stored b @ wire_get (rd_request p)"
    using sendsD [OF sends_remove b(1), of "rd_request p"] b(2) by (auto simp: wire_remove_dup_def)
  have "sends (\<lambda>output. do {
        output \<leftarrow> writeInt32 (rd_packet_id p) output;
        output \<leftarrow> writeInt32 (rd_bucket_id p) output;
        Some (True, output) }) (bytes32 (rd_packet_id p) @ bytes32 (rd_bucket_id p))"
    by (intro sends_bind sends_end emits_rules)
  from sendsD [OF this c(2)] show "\<exists>d. encode_remove_dup p b = Some (True, d) \<and> writable d
      \<and> stored d = stored b @ wire_remove_dup p"
    using c b(2) by (simp add: encode_remove_dup_def wire_remove_dup_def)
qed

lemma accepts_remove_dup:
  assumes "\<not> sint (dataLen h) < 7" and "valid_get (rd_request p)"
  shows "accepts (decode_remove_dup h) (wire_remove_dup p) (Some (received_remove_dup p))"
  unfolding decode_remove_dup_def wire_remove_dup_def
  by (rule accepts_bind [OF accepts_get [OF assms]])
    (simp only: option.case, intro accepts_field accepts_ends, simp add: received_remove_dup_def)

section \<open>The answer to a get\<close>

text \<open>
  The map from keys to values compares pointers, so every pair that is inserted stays; it is the
  list of its pairs in the order of iteration.
\<close>

record response_get =
  rg_config_version :: "32 word"
  rg_code :: "32 word"
  rg_key_count :: "32 word"
  rg_key :: "data_entry option"
  rg_data :: "data_entry option"
  rg_key_data_map :: "(data_entry \<times> data_entry) list option"
  rg_proxyed_key_list :: "data_entry list option"

definition encode_pair :: "data_entry \<times> data_entry \<Rightarrow> data_buffer \<Rightarrow> data_buffer option" where
  "encode_pair kd output = do {
     output \<leftarrow> encode_entry (fst kd) output;
     encode_entry (snd kd) output }"

text \<open>The size of the list of proxied keys is computed and thrown away: \<open>pkc\<close> stays 0.\<close>

definition encode_response_get :: "response_get packet_encode" where
  "encode_response_get p output = do {
     output \<leftarrow> writeInt32 (rg_config_version p) output;
     output \<leftarrow> writeInt32 (rg_code p) output;
     output \<leftarrow> writeInt32 (rg_key_count p) output;
     output \<leftarrow> (case rg_key_data_map p of
         Some kds \<Rightarrow> do {
           output \<leftarrow> write_each encode_pair kds output;
           let pkc = 0;
           output \<leftarrow> writeInt32 pkc output;
           (if sint pkc > 0
            then write_each encode_entry (case rg_proxyed_key_list p of Some ks \<Rightarrow> ks | None \<Rightarrow> []) output
            else Some output) }
       | None \<Rightarrow> (case (rg_key p, rg_data p) of
           (Some k, Some d) \<Rightarrow> encode_pair (k, d) output
         | _ \<Rightarrow> Some output));
     Some (True, output) }"

definition decode_pair :: "data_buffer \<Rightarrow> ((data_entry \<times> data_entry) \<times> data_buffer) option" where
  "decode_pair input = do {
     (k, input) \<leftarrow> decode_entry init_entry input;
     (d, input) \<leftarrow> decode_entry init_entry input;
     Some ((k, d), input) }"

definition decode_response_get :: "response_get packet_decode" where
  "decode_response_get header input =
     (if sint (dataLen header) < 8 then Some (None, input)
      else do {
        (v, input) \<leftarrow> readInt32 input;
        (c, input) \<leftarrow> readInt32 input;
        (n, input) \<leftarrow> readInt32 input;
        let p = \<lparr>rg_config_version = v, rg_code = c, rg_key_count = n, rg_key = None, rg_data = None,
                 rg_key_data_map = None, rg_proxyed_key_list = None\<rparr>;
        (if n > 1 then do {
           (kds, input) \<leftarrow> read_each decode_pair (unat n) input;
           (pkc, input) \<leftarrow> readInt32 input;
           let p = p\<lparr>rg_key_data_map := Some kds\<rparr>;
           (if sint pkc > 0 then do {
              (ks, input) \<leftarrow> decode_keys (nat (sint pkc)) [] input;
              Some (Some (p\<lparr>rg_proxyed_key_list := Some ks\<rparr>), input) }
            else Some (Some p, input)) }
         else if n = 1 then do {
           (k, input) \<leftarrow> decode_entry init_entry input;
           (d, input) \<leftarrow> decode_entry init_entry input;
           Some (Some (p\<lparr>rg_key := Some k, rg_data := Some d\<rparr>), input) }
         else Some (Some p, input)) })"

definition pair_wire :: "data_entry \<times> data_entry \<Rightarrow> bytes" where
  "pair_wire kd = entry_wire (fst kd) @ entry_wire (snd kd)"

definition wire_response_get :: "response_get \<Rightarrow> bytes" where
  "wire_response_get p = bytes32 (rg_config_version p) @ bytes32 (rg_code p) @ bytes32 (rg_key_count p)
     @ (case rg_key_data_map p of
          Some kds \<Rightarrow> concat (map pair_wire kds) @ bytes32 0
        | None \<Rightarrow> (case (rg_key p, rg_data p) of (Some k, Some d) \<Rightarrow> pair_wire (k, d) | _ \<Rightarrow> []))"

definition wf_pair :: "data_entry \<times> data_entry \<Rightarrow> bool" where
  "wf_pair kd \<longleftrightarrow> wf_entry (fst kd) \<and> wf_entry (snd kd)"

definition received_pair :: "data_entry \<times> data_entry \<Rightarrow> data_entry \<times> data_entry" where
  "received_pair kd = (received_entry init_entry (fst kd), received_entry init_entry (snd kd))"

definition valid_response_get :: "response_get \<Rightarrow> bool" where
  "valid_response_get p \<longleftrightarrow>
     (case rg_key_data_map p of
        Some kds \<Rightarrow> rg_key p = None \<and> rg_data p = None \<and> 1 < length kds \<and> length kds < 2 ^ 32
          \<and> rg_key_count p = of_nat (length kds) \<and> (\<forall>kd\<in>set kds. wf_pair kd)
      | None \<Rightarrow> (case (rg_key p, rg_data p) of
          (Some k, Some d) \<Rightarrow> wf_pair (k, d) \<and> rg_key_count p = 1
        | (None, None) \<Rightarrow> rg_key_count p = 0 | _ \<Rightarrow> False))"

definition received_response_get :: "response_get \<Rightarrow> response_get" where
  "received_response_get p = p\<lparr>rg_key := map_option (received_entry init_entry) (rg_key p),
     rg_data := map_option (received_entry init_entry) (rg_data p),
     rg_key_data_map := map_option (map received_pair) (rg_key_data_map p),
     rg_proxyed_key_list := None\<rparr>"

lemma emits_pair [emits_rules]: "emits (encode_pair kd) (pair_wire kd)"
  unfolding encode_pair_def pair_wire_def by (intro emits_rules)

lemma accepts_pair: "wf_pair kd \<Longrightarrow> accepts decode_pair (pair_wire kd) (received_pair kd)"
  unfolding decode_pair_def pair_wire_def wf_pair_def
  by (rule accepts_bind [OF accepts_entry accepts_end [OF accepts_entry]]) (simp_all add: received_pair_def)

lemma sends_response_get [sends_rules]: "sends (encode_response_get p) (wire_response_get p)"
proof -
  have "emits (\<lambda>output. do { output \<leftarrow> write_each encode_pair kds output; writeInt32 0 output })
      (concat (map pair_wire kds) @ bytes32 0)" for kds
    by (intro emits_rules)
  moreover have "do { b \<leftarrow> write_each encode_pair kds b; b \<leftarrow> writeInt32 0 b; Some b }
      = do { b \<leftarrow> write_each encode_pair kds b; writeInt32 0 b }" for kds b
    by (cases "write_each encode_pair kds b") auto
  ultimately have "emits (\<lambda>output. case rg_key_data_map p of
         Some kds \<Rightarrow> do {
           output \<leftarrow> write_each encode_pair kds output;
           output \<leftarrow> writeInt32 0 output;
           (if sint (0 :: 32 word) > 0
            then write_each encode_entry (case rg_proxyed_key_list p of Some ks \<Rightarrow> ks | None \<Rightarrow> []) output
            else Some output) }
       | None \<Rightarrow> (case (rg_key p, rg_data p) of
           (Some k, Some d) \<Rightarrow> encode_pair (k, d) output
         | _ \<Rightarrow> Some output))
      (case rg_key_data_map p of
          Some kds \<Rightarrow> concat (map pair_wire kds) @ bytes32 0
        | None \<Rightarrow> (case (rg_key p, rg_data p) of (Some k, Some d) \<Rightarrow> pair_wire (k, d) | _ \<Rightarrow> []))"
    by (auto split: option.splits intro: emits_rules)
  then show ?thesis
    unfolding encode_response_get_def wire_response_get_def Let_def by (intro sends_bind sends_end emits_rules)
qed

lemma accepts_response_get:
  assumes "\<not> sint (dataLen h) < 8" and "valid_response_get p"
  shows "accepts (decode_response_get h) (wire_response_get p) (Some (received_response_get p))"
proof -
  let ?p = "\<lparr>rg_config_version = rg_config_version p, rg_code = rg_code p, rg_key_count = rg_key_count p,
      rg_key = None, rg_data = None, rg_key_data_map = None, rg_proxyed_key_list = None\<rparr>"
  let ?tail = "case rg_key_data_map p of
          Some kds \<Rightarrow> concat (map pair_wire kds) @ bytes32 0
        | None \<Rightarrow> (case (rg_key p, rg_data p) of (Some k, Some d) \<Rightarrow> pair_wire (k, d) | _ \<Rightarrow> [])"
  let ?many = "\<lambda>n input. do {
           (kds, input) \<leftarrow> read_each decode_pair n input;
           (pkc, input) \<leftarrow> readInt32 input;
           (if sint pkc > 0 then do {
              (ks, input) \<leftarrow> decode_keys (nat (sint pkc)) [] input;
              Some (Some (?p\<lparr>rg_key_data_map := Some kds, rg_proxyed_key_list := Some ks\<rparr>), input) }
            else Some (Some (?p\<lparr>rg_key_data_map := Some kds\<rparr>), input)) }"
  let ?one = "\<lambda>input. do {
           (k, input) \<leftarrow> decode_entry init_entry input;
           (d, input) \<leftarrow> decode_entry init_entry input;
           Some (Some (?p\<lparr>rg_key := Some k, rg_data := Some d\<rparr>), input) }"
  have "accepts (\<lambda>input. if rg_key_count p > 1 then ?many (unat (rg_key_count p)) input
      else if rg_key_count p = 1 then ?one input else Some (Some ?p, input)) ?tail (Some (received_response_get p))"
  proof (cases "rg_key_data_map p")
    case (Some kds)
    have pairs: "accepts (read_each decode_pair (length kds)) (concat (map pair_wire kds)) (map received_pair kds)"
      using assms(2) Some by (intro accepts_each accepts_pair) (simp add: valid_response_get_def)
    have "accepts (?many (length kds)) (concat (map pair_wire kds) @ bytes32 0 @ []) (Some (received_response_get p))"
      by (intro accepts_bind [OF pairs] accepts_bind [OF accepts_Int32])
        (use Some assms(2) in \<open>simp add: accepts_def received_response_get_def valid_response_get_def\<close>)
    then show ?thesis
      using Some assms(2) count_list [of "length kds"] by (simp add: valid_response_get_def)
  next
    case None
    then consider k d where "rg_key p = Some k" "rg_data p = Some d" "wf_pair (k, d)" "rg_key_count p = 1"
      | "rg_key p = None" "rg_data p = None" "rg_key_count p = 0"
      using assms(2) by (auto simp: valid_response_get_def split: option.splits)
    then show ?thesis
    proof cases
      case 1
      have "accepts ?one (pair_wire (k, d)) (Some (received_response_get p))"
        unfolding pair_wire_def fst_conv snd_conv using 1 None
        by (intro accepts_bind [OF accepts_entry] accepts_end [OF accepts_entry])
          (simp_all add: wf_pair_def received_response_get_def)
      then show ?thesis
        using 1 None by simp
    next
      case 2
      then have "Some (received_response_get p) = Some ?p"
        using None by (simp add: received_response_get_def)
      then show ?thesis
        using 2 None accepts_Some [of "Some ?p"] by simp
    qed
  qed
  then show ?thesis
    unfolding decode_response_get_def wire_response_get_def Let_def
    by (intro accepts_len_guard [OF assms(1)] accepts_field) simp
qed

end
