(* ===== verification/Packet_Factory.thy ===== *)
theory Packet_Factory
  imports Data_Packets
begin

text \<open>
  The packets as one type, the factory (\<open>packets/packet_factory.cpp\<close>) that creates a packet of the class
  a code stands for, and what holds of a connection that carries them: every packet arrives, in
  order, however the stream is cut. The cases of the classes that are not modelled are a parameter.
\<close>

datatype tair_packet =
    Put request_put
  | Putnx request_put
  | Get request_get
  | Remove request_get
  | Remove_Dup request_remove_dup
  | Remove_Area request_remove_area
  | Lazy_Remove_Area request_remove_area
  | Ping request_ping
  | Inc_Dec request_inc_dec
  | Resp_Inc_Dec request_ping
  | Return response_return
  | Resp_Get response_get
  | Conf_Heartbeat request_conf_heartbeart
  | Group_Names request_ping
  | Migrate_Finish request_migrate_finish
  | Get_Migrate_Machine request_get_migrate_machine
  | Resp_Migrate_Machine response_get_migrate_machine

text \<open>The codes the constructors set (\<open>base_packet.hpp\<close>).\<close>

fun packet_code :: "tair_packet \<Rightarrow> 32 word" where
  "packet_code (Put _) = 1"
| "packet_code (Putnx _) = 2149"
| "packet_code (Get _) = 2"
| "packet_code (Remove _) = 3"
| "packet_code (Remove_Dup _) = 4002"
| "packet_code (Remove_Area _) = 4"
| "packet_code (Lazy_Remove_Area _) = 2152"
| "packet_code (Ping _) = 6"
| "packet_code (Inc_Dec _) = 11"
| "packet_code (Resp_Inc_Dec _) = 105"
| "packet_code (Return _) = 101"
| "packet_code (Resp_Get _) = 102"
| "packet_code (Conf_Heartbeat _) = 1004"
| "packet_code (Group_Names _) = 1006"
| "packet_code (Migrate_Finish _) = 1201"
| "packet_code (Get_Migrate_Machine _) = 1501"
| "packet_code (Resp_Migrate_Machine _) = 1302"

text \<open>The virtual functions.\<close>

fun packet_enc :: "tair_packet packet_encode" where
  "packet_enc (Put p) output = encode_put p output"
| "packet_enc (Putnx p) output = encode_put p output"
| "packet_enc (Get p) output = encode_get p output"
| "packet_enc (Remove p) output = encode_remove p output"
| "packet_enc (Remove_Dup p) output = encode_remove_dup p output"
| "packet_enc (Remove_Area p) output = encode_remove_area p output"
| "packet_enc (Lazy_Remove_Area p) output = encode_lazy_remove_area p output"
| "packet_enc (Ping p) output = encode_ping p output"
| "packet_enc (Inc_Dec p) output = encode_inc_dec p output"
| "packet_enc (Resp_Inc_Dec p) output = encode_ping p output"
| "packet_enc (Return p) output = encode_response_return p output"
| "packet_enc (Resp_Get p) output = encode_response_get p output"
| "packet_enc (Conf_Heartbeat p) output = encode_conf_heartbeart p output"
| "packet_enc (Group_Names p) output = encode_ping p output"
| "packet_enc (Migrate_Finish p) output = encode_migrate_finish p output"
| "packet_enc (Get_Migrate_Machine p) output = encode_get_migrate_machine p output"
| "packet_enc (Resp_Migrate_Machine p) output = encode_resp_migrate_machine p output"

definition as_packet :: "('a \<Rightarrow> 'p) \<Rightarrow> 'a packet_decode \<Rightarrow> 'p packet_decode" where
  "as_packet con dec header input = map_option (\<lambda>(p, b). (map_option con p, b)) (dec header input)"

definition createPacket ::
  "(32 word \<Rightarrow> tair_packet packet_decode option) \<Rightarrow> 32 word \<Rightarrow> tair_packet packet_decode option"
where
  "createPacket others pc =
     (if pc = 1 then Some (as_packet Put decode_put)
      else if pc = 2149 then Some (as_packet Putnx decode_put)
      else if pc = 2 then Some (as_packet Get decode_get)
      else if pc = 3 then Some (as_packet Remove decode_get)
      else if pc = 4 then Some (as_packet Remove_Area decode_remove_area)
      else if pc = 2152 then Some (as_packet Lazy_Remove_Area decode_lazy_remove_area)
      else if pc = 6 then Some (as_packet Ping decode_ping)
      else if pc = 11 then Some (as_packet Inc_Dec decode_inc_dec)
      else if pc = 101 then Some (as_packet Return decode_response_return)
      else if pc = 102 then Some (as_packet Resp_Get decode_response_get)
      else if pc = 105 then Some (as_packet Resp_Inc_Dec decode_ping)
      else if pc = 1004 then Some (as_packet Conf_Heartbeat decode_conf_heartbeart)
      else if pc = 1006 then Some (as_packet Group_Names decode_ping)
      else if pc = 1201 then Some (as_packet Migrate_Finish decode_migrate_finish)
      else if pc = 1501 then Some (as_packet Get_Migrate_Machine decode_get_migrate_machine)
      else if pc = 1302 then Some (as_packet Resp_Migrate_Machine decode_resp_migrate_machine)
      else if pc = 4002 then Some (as_packet Remove_Dup decode_remove_dup)
      else others pc)"

section \<open>The packets a connection carries\<close>

fun packet_body :: "tair_packet \<Rightarrow> bytes" where
  "packet_body (Put p) = wire_put p"
| "packet_body (Putnx p) = wire_put p"
| "packet_body (Get p) = wire_get p"
| "packet_body (Remove p) = wire_get p"
| "packet_body (Remove_Dup p) = wire_remove_dup p"
| "packet_body (Remove_Area p) = wire_remove_area p"
| "packet_body (Lazy_Remove_Area p) = wire_remove_area p"
| "packet_body (Ping p) = wire_ping p"
| "packet_body (Inc_Dec p) = wire_inc_dec p"
| "packet_body (Resp_Inc_Dec p) = wire_ping p"
| "packet_body (Return p) = wire_response_return p"
| "packet_body (Resp_Get p) = wire_response_get p"
| "packet_body (Conf_Heartbeat p) = wire_conf_heartbeart p"
| "packet_body (Group_Names p) = wire_ping p"
| "packet_body (Migrate_Finish p) = wire_migrate_finish p"
| "packet_body (Get_Migrate_Machine p) = wire_get_migrate_machine p"
| "packet_body (Resp_Migrate_Machine p) = wire_resp_migrate_machine p"

text \<open>What a sender must see to: well-formed entries, counts that agree with the lists, strings that end.\<close>

fun sound_packet :: "tair_packet \<Rightarrow> bool" where
  "sound_packet (Put p) = valid_put p"
| "sound_packet (Putnx p) = valid_put p"
| "sound_packet (Get p) = valid_get p"
| "sound_packet (Remove p) = valid_get p"
| "sound_packet (Remove_Dup p) = valid_get (rd_request p)"
| "sound_packet (Inc_Dec p) = wf_entry (inc_key p)"
| "sound_packet (Return p) = valid_response_return p"
| "sound_packet (Resp_Get p) = valid_response_get p"
| "sound_packet (Resp_Migrate_Machine p) = (length (vec_ms p) < 2 ^ 31)"
| "sound_packet _ = True"

definition valid_packet :: "tair_packet \<Rightarrow> bool" where
  "valid_packet p \<longleftrightarrow> sound_packet p \<and> length (packet_body p) \<le> 0x4000000"

fun received_packet :: "tair_packet \<Rightarrow> tair_packet" where
  "received_packet (Put p) = Put (received_put p)"
| "received_packet (Putnx p) = Putnx (received_put p)"
| "received_packet (Get p) = Get (received_get p)"
| "received_packet (Remove p) = Remove (received_get p)"
| "received_packet (Remove_Dup p) = Remove_Dup (received_remove_dup p)"
| "received_packet (Inc_Dec p) = Inc_Dec (received_inc_dec p)"
| "received_packet (Return p) = Return (received_response_return p)"
| "received_packet (Resp_Get p) = Resp_Get (received_response_get p)"
| "received_packet p = p"

lemma sends_packet: "sound_packet p \<Longrightarrow> sends (packet_enc p) (packet_body p)"
  by (cases p) (auto intro: sends_rules sends_response_return simp: packet_enc.simps [abs_def])

lemma accepts_as_packet: "accepts (dec h) xs (Some p) \<Longrightarrow> accepts (as_packet con dec h) xs (Some (con p))"
  unfolding accepts_def as_packet_def by fastforce

lemma wire_length:
  "\<not> length (wire_get p) < 7" "\<not> length (wire_remove_dup q) < 7" "\<not> length (wire_response_get r) < 8"
  by (simp_all add: wire_get_def wire_remove_dup_def wire_response_get_def)

lemma accepts_packet:
  assumes "sound_packet p" and "sint (dataLen h) = int (length (packet_body p))"
  shows "\<exists>dec. createPacket others (packet_code p) = Some dec
           \<and> accepts (dec h) (packet_body p) (Some (received_packet p))"
  using assms
  by (cases p)
    (auto simp: createPacket_def wire_length intro!: accepts_as_packet accepts_put accepts_get accepts_remove_dup accepts_inc_dec
      accepts_remove_area accepts_ping accepts_response_return accepts_response_get accepts_conf_heartbeart
      accepts_migrate_finish accepts_get_migrate_machine accepts_resp_migrate_machine)

interpretation tair: packet_codec packet_enc "createPacket others" packet_code valid_packet packet_body received_packet
  for others
proof unfold_locales
  fix p :: tair_packet and b :: data_buffer and h :: packet_header
  assume valid: "valid_packet p"
  then show limit: "length (packet_body p) \<le> 0x4000000"
    by (simp add: valid_packet_def)
  show "\<exists>c. packet_enc p b = Some (True, c) \<and> writable c \<and> stored c = stored b @ packet_body p"
    if "writable b" "length (stored b) + length (packet_body p) \<le> 2 ^ 29"
    using sendsD [OF sends_packet that] valid by (simp add: valid_packet_def)
  show "\<exists>dec. createPacket others (packet_code p) = Some dec \<and> accepts (dec h) (packet_body p) (Some (received_packet p))"
    if "dataLen h = of_nat (length (packet_body p))"
    using valid that limit sint_of_nat_small [of "length (packet_body p)"]
    by (intro accepts_packet) (simp_all add: valid_packet_def)
qed

section \<open>Properties\<close>

text \<open>
  The inner loop of \<open>writeData\<close>: the packets of the queue are encoded into the output buffer. One call stops
  when the output exceeds \<open>READ_WRITE_SIZE\<close> and the next one goes on; the stream they produce together is the
  one given here. Expiry times of channels and the release of the packets are left out.
\<close>

fun encode_queue :: "(packet_header \<times> tair_packet) list \<Rightarrow> data_buffer \<Rightarrow> data_buffer option" where
  "encode_queue [] output = Some output"
| "encode_queue ((header, packet) # queue) output = do {
     (ok, header, output) \<leftarrow> streamer_encode TAIR_PACKET_FLAG True packet_enc header packet output;
     encode_queue queue output }"

abbreviation "tair_frame \<equiv> frame TAIR_PACKET_FLAG packet_code packet_body"

lemma encode_queue_frames:
  assumes "\<forall>(h, p)\<in>set queue. valid_packet p \<and> pcode h = packet_code p" and "writable b"
    and "length (stored b) + length (concat (map (\<lambda>(h, p). tair_frame (chid h, p)) queue)) \<le> 2 ^ 29"
  shows "\<exists>c. encode_queue queue b = Some c \<and> writable c
           \<and> stored c = stored b @ concat (map (\<lambda>(h, p). tair_frame (chid h, p)) queue)"
  using assms
proof (induction queue arbitrary: b)
  case (Cons hp queue)
  obtain h p where hp: "hp = (h, p)"
    by (cases hp)
  have "length (tair_frame (chid h, p)) = 16 + length (packet_body p)"
    by (simp add: frame_def)
  then obtain c where c: "streamer_encode TAIR_PACKET_FLAG True packet_enc h p b
        = Some (True, frame_header packet_code packet_body (chid h, p), c)" "writable c"
      "stored c = stored b @ tair_frame (chid h, p)"
    using tair.encode_frame [of p b h TAIR_PACKET_FLAG] Cons.prems unfolding hp by auto
  obtain d where "encode_queue queue c = Some d" "writable d"
      "stored d = stored c @ concat (map (\<lambda>(h, p). tair_frame (chid h, p)) queue)"
    using Cons.IH [OF _ c(2)] Cons.prems(1,3) c(3) unfolding hp by auto
  then show ?case
    using c(1,3) unfolding hp by simp
qed simp

text \<open>
  C7. Packets put on a connection arrive: the bytes that encoding a queue of packets produces,
  delivered by the socket in any pieces of at most 8192 bytes, make the receiver hand over exactly
  these packets, in their order, each with its channel and code, and leave nothing behind. A
  received packet is the sent one except for what decoding an entry changes.
\<close>

theorem packets_delivered:
  assumes "\<forall>(h, p)\<in>set queue. valid_packet p \<and> pcode h = packet_code p"
    and "encode_queue queue new_data_buffer = Some c" and "concat pieces = stored c"
    and "\<forall>xs\<in>set pieces. length xs \<le> READ_WRITE_SIZE"
    and "length (concat (map (\<lambda>(h, p). tair_frame (chid h, p)) queue)) \<le> 2 ^ 29"
  shows "\<exists>d. read_pieces (getPacketInfo TAIR_PACKET_FLAG True) (handlePacket_server (createPacket others)) pieces
              (new_connection []) = Some d
           \<and> handled d = map (\<lambda>(h, p). (h\<lparr>dataLen := of_nat (length (packet_body p))\<rparr>, Some (received_packet p))) queue
           \<and> stored (inbuf d) = [] \<and> \<not> gotHeader d"
proof -
  let ?qs = "map (\<lambda>(h, p). (chid h, p)) queue"
  have new: "writable new_data_buffer" "stored new_data_buffer = []"
    by simp_all
  have frames: "concat (map (\<lambda>(h, p). tair_frame (chid h, p)) queue) = concat (map tair_frame ?qs)"
    by (simp add: comp_def case_prod_unfold)
  have st: "concat pieces = concat (map tair_frame ?qs)"
    using encode_queue_frames [OF assms(1) new(1)] assms(2,3,5) new(2) unfolding frames by auto
  have valid: "\<forall>q\<in>set ?qs. valid_packet (snd q)"
    using assms(1) by auto
  have none: "pieces = [] \<longrightarrow> ?qs = []"
    using st by (cases queue) (auto simp: frame_def header_wire_def bytes32_def split: prod.splits)
  have wait: "awaiting TAIR_PACKET_FLAG (new_connection []) []"
    by (simp add: awaiting_def new_connection_def) (simp add: new_data_buffer_def)
  have size: "length (stored (inbuf (new_connection []))) \<le> 0x4000000"
    using new(2) by (simp add: new_connection_def)
  have "[] @ concat pieces @ [] = concat (map tair_frame ?qs)"
    using st by simp
  from tair.read_pieces_frames [OF wait size assms(4) this valid refl none, of others]
  obtain d where d: "read_pieces (getPacketInfo TAIR_PACKET_FLAG True) (handlePacket_server (createPacket others)) pieces
        (new_connection []) = Some d" "stored (inbuf d) = []" "\<not> gotHeader d"
      "handled d = map (\<lambda>q. (frame_header packet_code packet_body q, Some (received_packet (snd q)))) ?qs"
    by (auto simp: new_connection_def)
  have "map (\<lambda>q. (frame_header packet_code packet_body q, Some (received_packet (snd q)))) ?qs
      = map (\<lambda>(h, p). (h\<lparr>dataLen := of_nat (length (packet_body p))\<rparr>, Some (received_packet p))) queue"
    using assms(1) by (auto simp: frame_header_def)
  then show ?thesis
    using d by auto
qed

definition ex_ping :: tair_packet where
  "ex_ping = Ping \<lparr>ping_config_version = 7, ping_value = 9\<rparr>"

definition ex_ping_header :: packet_header where
  "ex_ping_header = \<lparr>chid = 3, pcode = 6, dataLen = 0\<rparr>"

theorem packets_delivered_witness:
  "\<exists>c d. encode_queue [(ex_ping_header, ex_ping), (ex_ping_header, ex_ping)] new_data_buffer = Some c
     \<and> read_pieces (getPacketInfo TAIR_PACKET_FLAG True) (handlePacket_server (createPacket (\<lambda>_. None)))
         [take 5 (stored c), drop 5 (stored c)] (new_connection []) = Some d
     \<and> map snd (handled d) = [Some ex_ping, Some ex_ping]"
proof -
  let ?q = "[(ex_ping_header, ex_ping), (ex_ping_header, ex_ping)]"
  have valid: "\<forall>(h, p)\<in>set ?q. valid_packet p \<and> pcode h = packet_code p"
    by (simp add: ex_ping_def ex_ping_header_def valid_packet_def wire_ping_def)
  have len: "length (concat (map (\<lambda>(h, p). tair_frame (chid h, p)) ?q)) = 48"
    by (simp add: ex_ping_def frame_def wire_ping_def)
  have new: "writable new_data_buffer" "stored new_data_buffer = []"
    by simp_all
  obtain c where c: "encode_queue ?q new_data_buffer = Some c" "length (stored c) = 48"
    using encode_queue_frames [OF valid new(1)] new(2) len by force
  have pieces: "\<forall>xs\<in>set [take 5 (stored c), drop 5 (stored c)]. length xs \<le> READ_WRITE_SIZE"
    using c(2) by (auto simp: READ_WRITE_SIZE_def)
  obtain d where "read_pieces (getPacketInfo TAIR_PACKET_FLAG True) (handlePacket_server (createPacket (\<lambda>_. None)))
         [take 5 (stored c), drop 5 (stored c)] (new_connection []) = Some d"
      "map snd (handled d) = [Some ex_ping, Some ex_ping]"
    using packets_delivered [OF valid c(1) _ pieces, of "\<lambda>_. None"] len by (auto simp: ex_ping_def)
  with c(1) show ?thesis
    by (intro exI conjI)
qed

lemma advance_length:
  assumes "wf_buffer b" and "k \<le> length (stored b)"
  shows "wf_buffer (b\<lparr>pdata := pdata b + k\<rparr>)
       \<and> length (stored (b\<lparr>pdata := pdata b + k\<rparr>)) = length (stored b) - k \<and> pdata b + k \<le> pfree b"
  using advance_stored [OF assms] assms by (auto simp: wf_buffer_def)

lemma read_enough:
  assumes "wf_buffer b"
  shows "1 \<le> length (stored b) \<Longrightarrow> \<exists>v c. readInt8 b = Some (v, c) \<and> wf_buffer c \<and> length (stored c) = length (stored b) - 1"
    and "2 \<le> length (stored b) \<Longrightarrow> \<exists>v c. readInt16 b = Some (v, c) \<and> wf_buffer c \<and> length (stored c) = length (stored b) - 2"
    and "4 \<le> length (stored b) \<Longrightarrow> \<exists>v c. readInt32 b = Some (v, c) \<and> wf_buffer c \<and> length (stored c) = length (stored b) - 4"
  using peek_stored [OF assms, of 1] peek_stored [OF assms, of 2] peek_stored [OF assms, of 4]
    advance_length [OF assms, of 1] advance_length [OF assms, of 2] advance_length [OF assms, of 4]
  by (simp_all add: readInt8_def readInt16_def readInt32_def assert_data_def del: length_stored)

lemma readInt64_short:
  assumes "wf_buffer b" and "length (stored b) < 8"
  shows "readInt64 b = None"
  using assms by (auto simp: readInt64_def assert_data_def peek_def wf_buffer_def Option.bind_eq_None_conv)

lemma short_migrate_finish:
  assumes "wf_buffer b" and "8 \<le> sint (dataLen h)" and "8 \<le> length (stored b)" and "length (stored b) < 16"
  shows "decode_migrate_finish h b = None"
proof -
  have "4 \<le> length (stored b)"
    using assms(3) by linarith
  from read_enough(3) [OF assms(1) this]
  obtain v c where c: "readInt32 b = Some (v, c)" "wf_buffer c" "length (stored c) = length (stored b) - 4"
    by blast
  show ?thesis
  proof (cases "length (stored c) < 8")
    case True
    then show ?thesis
      using c readInt64_short [OF c(2)] assms(2) by (simp add: decode_migrate_finish_def)
  next
    case False
    then obtain s d where d: "readInt64 c = Some (s, d)" "wf_buffer d" "length (stored d) = length (stored c) - 8"
      using peek_stored [OF c(2), of 8] advance_length [OF c(2), of 8]
      by (simp add: readInt64_def assert_data_def del: length_stored)
    then have "readInt32 d = None"
      using c(3) assms(4) by (intro readInt32_short) (auto simp del: length_stored)
    then show ?thesis
      using c(1) d(1) assms(2) by (simp add: decode_migrate_finish_def)
  qed
qed

lemma short_response_get:
  assumes "wf_buffer b" and "8 \<le> sint (dataLen h)" and "8 \<le> length (stored b)" and "length (stored b) < 12"
  shows "decode_response_get h b = None"
proof -
  have "4 \<le> length (stored b)"
    using assms(3) by linarith
  from read_enough(3) [OF assms(1) this]
  obtain v c where c: "readInt32 b = Some (v, c)" "wf_buffer c" "length (stored c) = length (stored b) - 4"
    by blast
  have "4 \<le> length (stored c)"
    using c(3) assms(3) by linarith
  from read_enough(3) [OF c(2) this]
  obtain w d where d: "readInt32 c = Some (w, d)" "wf_buffer d" "length (stored d) = length (stored c) - 4"
    by blast
  have "readInt32 d = None"
    using c(3) d(2,3) assms(4) by (intro readInt32_short) (auto simp del: length_stored)
  then show ?thesis
    using c(1) d(1) assms(2) by (simp add: decode_response_get_def)
qed

lemma short_inc_dec:
  assumes "wf_buffer b" and "13 \<le> sint (dataLen h)" and "13 \<le> length (stored b)" and "length (stored b) < 15"
  shows "decode_inc_dec h b = None"
proof -
  have "1 \<le> length (stored b)"
    using assms(3) by linarith
  from read_enough(1) [OF assms(1) this]
  obtain v1 b1 where b1: "readInt8 b = Some (v1, b1)" "wf_buffer b1" "length (stored b1) = length (stored b) - 1"
    by blast
  have "2 \<le> length (stored b1)"
    using b1(3) assms(3) by linarith
  from read_enough(2) [OF b1(2) this]
  obtain v2 b2 where b2: "readInt16 b1 = Some (v2, b2)" "wf_buffer b2" "length (stored b2) = length (stored b1) - 2"
    by blast
  have "4 \<le> length (stored b2)"
    using b1(3) b2(3) assms(3) by linarith
  from read_enough(3) [OF b2(2) this]
  obtain v3 b3 where b3: "readInt32 b2 = Some (v3, b3)" "wf_buffer b3" "length (stored b3) = length (stored b2) - 4"
    by blast
  have "4 \<le> length (stored b3)"
    using b1(3) b2(3) b3(3) assms(3) by linarith
  from read_enough(3) [OF b3(2) this]
  obtain v4 b4 where b4: "readInt32 b3 = Some (v4, b4)" "wf_buffer b4" "length (stored b4) = length (stored b3) - 4"
    by blast
  have "readInt32 b4 = None"
    using b1(3) b2(3) b3(3) b4(2,3) assms(4) by (intro readInt32_short) (auto simp del: length_stored)
  then show ?thesis
    using b1(1) b2(1) b3(1) b4(1) assms(2) by (simp add: decode_inc_dec_def)
qed

text \<open>
  C37. Three decoders check for fewer bytes than they read. A finished-migration report of 8 to 15
  bytes, an answer to a get of 8 to 11 bytes and an increment request of 13 or 14 bytes, when they
  are the last bytes received, pass the check and end the receiving process in the assertion of
  \<open>readInt32\<close> or \<open>readInt64\<close>.
\<close>

theorem short_messages_abort:
  assumes "wf_buffer b" and "int (length (stored b)) = sint (dataLen h)"
  shows "(8 \<le> length (stored b) \<and> length (stored b) < 16 \<longrightarrow> decode_migrate_finish h b = None)
       \<and> (8 \<le> length (stored b) \<and> length (stored b) < 12 \<longrightarrow> decode_response_get h b = None)
       \<and> (13 \<le> length (stored b) \<and> length (stored b) < 15 \<longrightarrow> decode_inc_dec h b = None)"
  using short_migrate_finish [OF assms(1)] short_response_get [OF assms(1)] short_inc_dec [OF assms(1)] assms(2)
  by (auto simp del: length_stored)

theorem short_messages_abort_witness:
  "decode_migrate_finish \<lparr>chid = 1, pcode = 1201, dataLen = 8\<rparr> \<lparr>blk = [0, 0, 0, 1, 0, 0, 0, 2], pdata = 0, pfree = 8\<rparr> = None"
proof -
  let ?b = "\<lparr>blk = [0, 0, 0, 1, 0, 0, 0, 2], pdata = 0, pfree = 8\<rparr>"
  have "wf_buffer ?b" "length (stored ?b) = 8"
    by (simp_all add: wf_buffer_def stored_def)
  then show ?thesis
    using short_messages_abort [of ?b "\<lparr>chid = 1, pcode = 1201, dataLen = 8\<rparr>"] by simp
qed

text \<open>
  C38. The constructor of a get or remove request that takes a key does not count it. The server
  decodes such a request, which goes out with its key, as a request without keys, and finds the
  bytes of the key where it expects the header of the next packet.
\<close>

theorem get_of_key_unread:
  assumes "wf_entry key" and "wf_buffer b" and "stored b = wire_get (request_get_of ar key) @ rest"
    and "7 \<le> sint (dataLen h)"
  shows "\<exists>c. decode_get h b = Some (Some (new_request_get\<lparr>get_area := ar\<rparr>), c) \<and> stored c = entry_wire key @ rest"
proof -
  let ?p = "new_request_get\<lparr>get_area := ar\<rparr>"
  have "valid_get ?p" "received_get ?p = ?p"
    by (simp_all add: valid_get_def new_request_get_def received_get_def)
  moreover have "stored b = wire_get ?p @ entry_wire key @ rest"
    using assms(3) by (simp add: wire_get_def new_request_get_def request_get_of_def)
  ultimately show ?thesis
    using acceptsD [OF accepts_get assms(2), of h ?p] assms(4) by auto
qed

theorem get_of_key_unread_witness:
  "\<exists>b c. encode_get (request_get_of 5 ex_entry) new_data_buffer = Some (True, b)
     \<and> decode_get \<lparr>chid = 1, pcode = 2, dataLen = 50\<rparr> b = Some (Some (new_request_get\<lparr>get_area := 5\<rparr>), c)
     \<and> stored c = entry_wire ex_entry"
proof -
  have wf: "wf_entry ex_entry"
    by (simp add: wf_entry_def ex_entry_def new_entry_def init_entry_def wf_meta_def zero_meta_def)
  have new: "writable new_data_buffer" "stored new_data_buffer = []"
    by simp_all
  have "length (wire_get (request_get_of 5 ex_entry)) \<le> 2 ^ 29"
    by (simp add: wire_get_def request_get_of_def entry_wire_def length_meta_wire ex_entry_def new_entry_def)
  then obtain b where b: "encode_get (request_get_of 5 ex_entry) new_data_buffer = Some (True, b)" "writable b"
      "stored b = wire_get (request_get_of 5 ex_entry) @ []"
    using sendsD [OF sends_get new(1)] new(2) by fastforce
  then show ?thesis
    using get_of_key_unread [OF wf writable_wf [OF b(2)] b(3), of "\<lparr>chid = 1, pcode = 2, dataLen = 50\<rparr>"] by auto
qed

text \<open>
  C39. The keys a server reports as proxied never reach the client: the encoder of the answer to a
  get for several keys writes their number as 0, so the client reads the values and no proxied key,
  whatever the server had put into the list.
\<close>

theorem proxyed_keys_lost:
  assumes "valid_response_get p" and "rg_key_data_map p = Some kds" and "writable b" and "stored b = []"
    and "length (wire_response_get p) \<le> 2 ^ 29" and "8 \<le> sint (dataLen h)"
  shows "\<exists>c d q. encode_response_get p b = Some (True, c) \<and> decode_response_get h c = Some (Some q, d)
           \<and> rg_key_data_map q = Some (map received_pair kds) \<and> rg_proxyed_key_list q = None"
proof -
  obtain c where c: "encode_response_get p b = Some (True, c)" "writable c" "stored c = wire_response_get p @ []"
    using sendsD [OF sends_response_get assms(3)] assms(4,5) by fastforce
  then show ?thesis
    using acceptsD [OF accepts_response_get writable_wf [OF c(2)] c(3), of h] assms(1,2,6)
    by (fastforce simp: received_response_get_def)
qed

definition ex_response :: response_get where
  "ex_response = \<lparr>rg_config_version = 1, rg_code = 0, rg_key_count = 2, rg_key = None, rg_data = None,
     rg_key_data_map = Some [(new_entry [1], new_entry [2]), (new_entry [3], new_entry [4])],
     rg_proxyed_key_list = Some [new_entry [5]]\<rparr>"

theorem proxyed_keys_lost_witness:
  "\<exists>c d q. encode_response_get ex_response new_data_buffer = Some (True, c)
     \<and> decode_response_get \<lparr>chid = 1, pcode = 102, dataLen = 200\<rparr> c = Some (Some q, d)
     \<and> rg_proxyed_key_list ex_response = Some [new_entry [5]] \<and> rg_proxyed_key_list q = None"
proof -
  have wf: "wf_entry (new_entry [x])" for x
    by (simp add: wf_entry_def new_entry_def init_entry_def wf_meta_def zero_meta_def)
  have "valid_response_get ex_response"
    by (simp add: valid_response_get_def ex_response_def wf_pair_def wf)
  moreover have "length (wire_response_get ex_response) \<le> 2 ^ 29"
    by (simp add: wire_response_get_def ex_response_def pair_wire_def entry_wire_def length_meta_wire new_entry_def)
  moreover have "writable new_data_buffer" "stored new_data_buffer = []"
    by simp_all
  ultimately show ?thesis
    using proxyed_keys_lost [of ex_response _ new_data_buffer "\<lparr>chid = 1, pcode = 102, dataLen = 200\<rparr>"]
    by (fastforce simp: ex_response_def)
qed

end
