(* ===== verification/Linked.thy ===== *)
theory Linked
  imports Prelude
begin

text \<open>
  Linked lists in memory, shared by the components that chain their cells with \<open>next\<close> and \<open>prev\<close>
  pointers. The memory is seen through the functions that read the pointers of a cell; \<open>path\<close>
  relates a chain of cells to the list of their addresses, \<open>dlist\<close> a doubly linked list between a
  head and a tail pointer. The lemmas say what the pointer assignments of an append, a removal from
  the front or the middle, and the joining of two lists do to the list of addresses.
\<close>

fun path :: "('a \<Rightarrow> 'a option) \<Rightarrow> 'a option \<Rightarrow> 'a list \<Rightarrow> 'a option \<Rightarrow> bool" where
  "path nx p [] q \<longleftrightarrow> p = q"
| "path nx p (x # xs) q \<longleftrightarrow> p = Some x \<and> path nx (nx x) xs q"

definition dlist :: "('a \<Rightarrow> 'a option) \<Rightarrow> ('a \<Rightarrow> 'a option) \<Rightarrow> 'a option \<Rightarrow> 'a option \<Rightarrow> 'a list \<Rightarrow> bool" where
  "dlist nx pv h t xs \<longleftrightarrow> distinct xs \<and> path nx h xs None \<and> path pv t (rev xs) None"

lemma path_append: "path nx p (xs @ ys) q \<longleftrightarrow> (\<exists>r. path nx p xs r \<and> path nx r ys q)"
  by (induction xs arbitrary: p) auto

lemma path_update [simp]: "x \<notin> set xs \<Longrightarrow> path (nx(x := v)) p xs q = path nx p xs q"
  by (induction xs arbitrary: p) auto

lemma path_cong: "(\<And>x. x \<in> set xs \<Longrightarrow> nx x = ny x) \<Longrightarrow> path nx p xs q = path ny p xs q"
  by (induction xs arbitrary: p) auto

lemma path_snoc: "path nx p (xs @ [x]) q \<longleftrightarrow> path nx p xs (Some x) \<and> nx x = q"
  by (auto simp: path_append)

text \<open>Only the pointer behind the last cell matters for where a chain ends.\<close>

lemma path_redirect:
  assumes "path nx p (xs @ [x]) q" and "x \<notin> set xs"
  shows "path (nx(x := r)) p (xs @ [x]) r"
  using assms by (auto simp: path_append)

lemma path_start: "path nx p xs None \<Longrightarrow> p = None \<longleftrightarrow> xs = []"
  by (cases xs) auto

lemma path_start_Some: "path nx p (x # xs) q \<Longrightarrow> p = Some x"
  by simp

lemma path_rev_start: "path pv t (rev xs) None \<Longrightarrow> xs \<noteq> [] \<Longrightarrow> t = Some (last xs)"
  by (cases xs rule: rev_cases) auto

lemma dlist_cong:
  assumes "\<And>x. x \<in> set xs \<Longrightarrow> nx x = ny x \<and> pv x = py x"
  shows "dlist nx pv h t xs = dlist ny py h t xs"
  unfolding dlist_def using path_cong [of xs nx ny] path_cong [of "rev xs" pv py] assms by auto

lemma dlist_Nil [simp]: "dlist nx pv h t [] \<longleftrightarrow> h = None \<and> t = None"
  by (auto simp: dlist_def)

lemma dlist_distinct: "dlist nx pv h t xs \<Longrightarrow> distinct xs"
  by (simp add: dlist_def)

lemma dlist_head: "dlist nx pv h t xs \<Longrightarrow> h = (case xs of [] \<Rightarrow> None | x # _ \<Rightarrow> Some x)"
  by (cases xs) (auto simp: dlist_def)

lemma dlist_tail: "dlist nx pv h t xs \<Longrightarrow> t = (if xs = [] then None else Some (last xs))"
  using path_rev_start [of pv t xs] by (auto simp: dlist_def)

lemma dlist_tail_mem: "dlist nx pv h (Some x) xs \<Longrightarrow> x \<in> set xs"
  using dlist_tail [of nx pv h "Some x" xs] by (auto split: if_splits)

lemma dlist_head_mem: "dlist nx pv (Some x) t xs \<Longrightarrow> x \<in> set xs"
  using dlist_head [of nx pv "Some x" t xs] by (auto split: list.splits)

text \<open>Append a cell: \<open>x->prev = tail; x->next = NULL; (tail ? tail->next : head) = x; tail = x\<close>.\<close>

lemma dlist_push_back:
  assumes "dlist nx pv h t xs" and "x \<notin> set xs"
  shows "dlist (case t of None \<Rightarrow> nx(x := None) | Some l \<Rightarrow> nx(x := None, l := Some x)) (pv(x := t))
           (if t = None then Some x else h) (Some x) (xs @ [x])"
proof (cases xs rule: rev_cases)
  case Nil
  then show ?thesis
    using assms by (simp add: dlist_def)
next
  case (snoc ys l)
  then have t: "t = Some l" and l: "l \<notin> set ys" "l \<noteq> x" "x \<notin> set ys"
    using assms dlist_tail [OF assms(1)] by (auto simp: dlist_def)
  have "path nx h (ys @ [l]) None"
    using assms(1) snoc by (simp add: dlist_def)
  then have "path (nx(x := None, l := Some x)) h (ys @ [l]) (Some x)"
    using l by (auto simp: path_append)
  then show ?thesis
    using assms snoc t l by (simp add: dlist_def path_snoc del: append_assoc)
qed

text \<open>Remove the first cell: \<open>head = head->next; (head ? head->prev : tail) = NULL\<close>.\<close>

lemma dlist_pop_front:
  assumes "dlist nx pv h t (x # xs)"
  shows "dlist nx (case nx x of None \<Rightarrow> pv | Some y \<Rightarrow> pv(y := None)) (nx x) (if nx x = None then None else t) xs"
proof (cases xs)
  case Nil
  then show ?thesis
    using assms by (simp add: dlist_def)
next
  case (Cons y ys)
  have y: "nx x = Some y" "path nx (Some y) (y # ys) None" "distinct (y # ys)"
    using assms Cons by (auto simp: dlist_def)
  have "path pv t (rev ys @ [y]) (Some x)"
    using assms Cons by (auto simp: dlist_def path_append)
  then have "path (pv(y := None)) t (rev ys @ [y]) None"
    using path_redirect [of pv t "rev ys" y "Some x" None] y(3) by simp
  then show ?thesis
    using y Cons by (simp add: dlist_def)
qed

text \<open>Unlink a cell anywhere: its neighbours, or the head and the tail, are joined.\<close>

lemma dlist_remove:
  assumes "dlist nx pv h t (xs @ x # ys)"
  shows "dlist (case pv x of None \<Rightarrow> nx | Some p \<Rightarrow> nx(p := nx x))
               (case nx x of None \<Rightarrow> pv | Some n \<Rightarrow> pv(n := pv x))
               (if h = Some x then nx x else h) (if t = Some x then pv x else t) (xs @ ys)"
proof -
  have dist: "distinct (xs @ x # ys)" and fwd: "path nx h xs (Some x)" "path nx (nx x) ys None"
    and bwd: "path pv t (rev ys) (Some x)" "path pv (pv x) (rev xs) None"
    using assms by (auto simp: dlist_def path_append)
  have h: "h = Some x \<longleftrightarrow> xs = []" and t: "t = Some x \<longleftrightarrow> ys = []"
    using fwd(1) bwd(1) dist by (cases xs, auto) (cases ys rule: rev_cases, auto)
  have nx: "nx x = (case ys of [] \<Rightarrow> None | y # _ \<Rightarrow> Some y)"
    using fwd(2) by (cases ys) auto
  have pv: "pv x = (if xs = [] then None else Some (last xs))"
    using bwd(2) by (cases xs rule: rev_cases) auto
  have forward: "path (case pv x of None \<Rightarrow> nx | Some p \<Rightarrow> nx(p := nx x)) (if h = Some x then nx x else h) (xs @ ys) None"
  proof (cases xs rule: rev_cases)
    case Nil
    then show ?thesis
      using fwd h pv by simp
  next
    case (snoc zs p)
    then have "path (nx(p := nx x)) h (zs @ [p]) (nx x)" "p \<notin> set ys"
      using fwd(1) dist by (auto simp: path_append)
    then show ?thesis
      using snoc fwd(2) h pv by (auto simp: path_append)
  qed
  have backward: "path (case nx x of None \<Rightarrow> pv | Some n \<Rightarrow> pv(n := pv x)) (if t = Some x then pv x else t) (rev ys @ rev xs) None"
  proof (cases ys)
    case Nil
    then show ?thesis
      using bwd t nx by simp
  next
    case (Cons n zs)
    then have "path (pv(n := pv x)) t (rev zs @ [n]) (pv x)" "n \<notin> set (rev xs)"
      using bwd(1) dist by (auto simp: path_append)
    then show ?thesis
      using Cons bwd(2) t nx by (auto simp: path_append)
  qed
  show ?thesis
    using dist forward backward by (auto simp: dlist_def)
qed

text \<open>Join two lists: \<open>head2->prev = tail1; tail1->next = head2\<close>.\<close>

lemma dlist_join:
  assumes "dlist nx pv h t xs" and "dlist nx pv (Some y) u (y # ys)" and "set xs \<inter> set (y # ys) = {}"
  shows "dlist (case t of None \<Rightarrow> nx | Some l \<Rightarrow> nx(l := Some y)) (pv(y := t))
           (if t = None then Some y else h) u (xs @ y # ys)"
proof (cases xs rule: rev_cases)
  case Nil
  then have "pv(y := None) = pv"
    using assms by (auto simp: dlist_def path_append)
  then show ?thesis
    using assms Nil by simp
next
  case (snoc zs l)
  then have t: "t = Some l" and l: "l \<notin> set zs" "l \<notin> set (y # ys)"
    using assms dlist_tail [OF assms(1)] by (auto simp: dlist_def)
  have "path (nx(l := Some y)) h (zs @ [l]) (Some y)"
    using assms(1) snoc l(1) by (auto simp: dlist_def path_append)
  moreover have "path (nx(l := Some y)) (Some y) (y # ys) None"
    using assms(2) l(2) by (auto simp: dlist_def)
  moreover have "path (pv(y := t)) u (rev ys @ [y]) t"
    using assms(2) by (intro path_redirect) (auto simp: dlist_def)
  moreover have "path (pv(y := t)) t (rev xs) None"
    using assms(1,3) by (simp add: dlist_def)
  ultimately show ?thesis
    using assms snoc t by (auto simp: dlist_def path_append)
qed

text \<open>Read backwards, a doubly linked list is one again; so a cell can be put in front.\<close>

lemma dlist_rev: "dlist pv nx t h (rev xs) = dlist nx pv h t xs"
  by (auto simp: dlist_def)

lemma dlist_push_front:
  assumes "dlist nx pv h t xs" and "x \<notin> set xs"
  shows "dlist (nx(x := h)) (case h of None \<Rightarrow> pv(x := None) | Some f \<Rightarrow> pv(x := None, f := Some x))
           (Some x) (if h = None then Some x else t) (x # xs)"
  using dlist_push_back [of pv nx t h "rev xs" x] assms dlist_rev [of _ _ _ _ "x # xs"]
  by (simp add: dlist_rev)

end
