(* ===== verification/Packet_Queue.thy ===== *)
theory Packet_Queue
  imports Linked "HOL-Library.Monad_Syntax"
begin

text \<open>
  The queue of packets waiting on a connection (\<open>tbnet/src/packetqueue.cpp\<close>): packets chained by
  their own \<open>_next\<close> pointers between a head and a tail pointer, with a count. The memory of the
  packets is explicit, since a packet that is popped keeps its pointer and a list of timed out
  packets is cut out of the chain.
\<close>

section \<open>Model\<close>

record packet_mem =
  p_next :: "nat \<Rightarrow> nat option"
  p_expire :: "nat \<Rightarrow> int"

record packet_queue =
  q_head :: "nat option"
  q_tail :: "nat option"
  q_size :: int

definition new_queue :: packet_queue where
  "new_queue = \<lparr>q_head = None, q_tail = None, q_size = 0\<rparr>"

definition pop :: "packet_mem \<times> packet_queue \<Rightarrow> nat option \<times> packet_mem \<times> packet_queue" where
  "pop mq = (case mq of (m, q) \<Rightarrow>
     (case q_head q of
        None \<Rightarrow> (None, m, q)
      | Some packet \<Rightarrow>
          let q = q\<lparr>q_head := p_next m packet\<rparr>;
              q = (if q_head q = None then q\<lparr>q_tail := None\<rparr> else q)
          in (Some packet, m, q\<lparr>q_size := q_size q - 1\<rparr>)))"

definition push :: "nat option \<Rightarrow> packet_mem \<times> packet_queue \<Rightarrow> packet_mem \<times> packet_queue" where
  "push p mq = (case mq of (m, q) \<Rightarrow>
     (case p of
        None \<Rightarrow> (m, q)
      | Some packet \<Rightarrow>
          let m = m\<lparr>p_next := (p_next m)(packet := None)\<rparr>
          in case q_tail q of
               None \<Rightarrow> (m, q\<lparr>q_head := Some packet, q_tail := Some packet, q_size := q_size q + 1\<rparr>)
             | Some l \<Rightarrow> (m\<lparr>p_next := (p_next m)(l := Some packet)\<rparr>, q\<lparr>q_tail := Some packet, q_size := q_size q + 1\<rparr>)))"

definition size_queue :: "packet_queue \<Rightarrow> int" where
  "size_queue q = q_size q"

definition empty_queue :: "packet_queue \<Rightarrow> bool" where
  "empty_queue q \<longleftrightarrow> q_size q = 0"

text \<open>\<open>clear\<close> frees the packets of the chain one after the other and returns them here.\<close>

partial_function (option) clear_loop :: "packet_mem \<Rightarrow> nat option \<Rightarrow> nat list option" where
  "clear_loop m h =
     (case h of
        None \<Rightarrow> Some []
      | Some packet \<Rightarrow> Option.bind (clear_loop m (p_next m packet)) (\<lambda>freed. Some (packet # freed)))"

declare clear_loop.simps [code]

definition clear_queue :: "packet_mem \<times> packet_queue \<Rightarrow> (nat list \<times> packet_mem \<times> packet_queue) option" where
  "clear_queue mq = (case mq of (m, q) \<Rightarrow>
     (if q_head q = None then Some ([], m, q)
      else do {
        freed \<leftarrow> clear_loop m (q_head q);
        Some (freed, m, \<lparr>q_head = None, q_tail = None, q_size = 0\<rparr>) }))"

definition moveTo ::
  "packet_mem \<Rightarrow> packet_queue \<Rightarrow> packet_queue \<Rightarrow> packet_mem \<times> packet_queue \<times> packet_queue" where
  "moveTo m q dest =
     (if q_head q = None then (m, q, dest)
      else
        let (m, dest) = (case q_tail dest of
               None \<Rightarrow> (m, dest\<lparr>q_head := q_head q\<rparr>)
             | Some l \<Rightarrow> (m\<lparr>p_next := (p_next m)(l := q_head q)\<rparr>, dest))
        in (m, \<lparr>q_head = None, q_tail = None, q_size = 0\<rparr>,
            dest\<lparr>q_tail := q_tail q, q_size := q_size dest + q_size q\<rparr>))"

text \<open>The packets at the front whose time has passed are cut off; the list of them is returned.\<close>

partial_function (option) timeout_loop ::
  "int \<Rightarrow> packet_mem \<Rightarrow> packet_queue \<Rightarrow> nat option \<Rightarrow> nat option \<Rightarrow>
   (packet_mem \<times> packet_queue \<times> nat option \<times> nat option) option"
where
  "timeout_loop now m q lst lt =
     (case q_head q of
        None \<Rightarrow> Some (m, q, lst, lt)
      | Some h \<Rightarrow>
          (if p_expire m h = 0 \<or> p_expire m h \<ge> now then Some (m, q, lst, lt)
           else
             let (m, lst) = (case lt of
                   None \<Rightarrow> (m, Some h)
                 | Some l \<Rightarrow> (m\<lparr>p_next := (p_next m)(l := Some h)\<rparr>, lst));
                 q = q\<lparr>q_head := p_next m h\<rparr>;
                 q = (if q_head q = None then q\<lparr>q_tail := None\<rparr> else q)
             in timeout_loop now m (q\<lparr>q_size := q_size q - 1\<rparr>) lst (Some h)))"

declare timeout_loop.simps [code]

definition getTimeoutList ::
  "int \<Rightarrow> packet_mem \<times> packet_queue \<Rightarrow> (nat option \<times> packet_mem \<times> packet_queue) option" where
  "getTimeoutList now mq = (case mq of (m, q) \<Rightarrow> do {
     (m, q, lst, lt) \<leftarrow> timeout_loop now m q None None;
     Some (lst, case lt of None \<Rightarrow> m | Some l \<Rightarrow> m\<lparr>p_next := (p_next m)(l := None)\<rparr>, q) })"

section \<open>The queue as a list\<close>

definition queue_rep :: "packet_mem \<times> packet_queue \<Rightarrow> nat list \<Rightarrow> bool" where
  "queue_rep mq xs \<longleftrightarrow> distinct xs \<and> path (p_next (fst mq)) (q_head (snd mq)) xs None
     \<and> q_tail (snd mq) = (if xs = [] then None else Some (last xs)) \<and> q_size (snd mq) = int (length xs)"

text \<open>What a first-in-first-out queue promises to the connection that uses it.\<close>

locale fifo =
  fixes enq :: "'a \<Rightarrow> 's \<Rightarrow> 's" and deq :: "'s \<Rightarrow> 'a option \<times> 's" and rep :: "'s \<Rightarrow> 'a list \<Rightarrow> bool"
  assumes enq: "rep s xs \<Longrightarrow> x \<notin> set xs \<Longrightarrow> rep (enq x s) (xs @ [x])"
    and deq_empty: "rep s [] \<Longrightarrow> deq s = (None, s)"
    and deq: "rep s (x # xs) \<Longrightarrow> fst (deq s) = Some x \<and> rep (snd (deq s)) xs"
begin

lemma enq_all: "rep s xs \<Longrightarrow> distinct (xs @ ys) \<Longrightarrow> rep (fold enq ys s) (xs @ ys)"
proof (induction ys arbitrary: s xs)
  case (Cons y ys)
  then show ?case
    using enq [of s xs y] Cons.IH [of "enq y s" "xs @ [y]"] by simp
qed simp

fun deq_many :: "nat \<Rightarrow> 's \<Rightarrow> 'a option list \<times> 's" where
  "deq_many 0 s = ([], s)"
| "deq_many (Suc n) s = (let (x, s) = deq s; (xs, s) = deq_many n s in (x # xs, s))"

lemma deq_all: "rep s xs \<Longrightarrow> fst (deq_many (length xs) s) = map Some xs \<and> rep (snd (deq_many (length xs) s)) []"
proof (induction xs arbitrary: s)
  case (Cons x xs)
  then show ?case
    using deq [of s x xs] Cons.IH [of "snd (deq s)"] by (auto simp: case_prod_unfold Let_def)
qed simp

end

lemma queue_push:
  assumes "queue_rep mq xs" and "x \<notin> set xs"
  shows "queue_rep (push (Some x) mq) (xs @ [x])"
proof (cases mq)
  case (Pair m q)
  have rep: "distinct xs" "path (p_next m) (q_head q) xs None"
      "q_tail q = (if xs = [] then None else Some (last xs))" "q_size q = int (length xs)"
    using assms(1) Pair by (auto simp: queue_rep_def)
  show ?thesis
  proof (cases xs rule: rev_cases)
    case Nil
    then show ?thesis
      using rep Pair by (simp add: push_def queue_rep_def)
  next
    case (snoc ys l)
    then have "path ((p_next m)(x := None, l := Some x)) (q_head q) (ys @ [l]) (Some x)"
      using rep(1,2) assms(2) by (auto simp: path_append)
    then show ?thesis
      using rep Pair snoc assms(2) by (auto simp: push_def queue_rep_def path_append Let_def)
  qed
qed

lemma queue_pop:
  assumes "queue_rep mq (x # xs)"
  shows "fst (pop mq) = Some x \<and> queue_rep (snd (pop mq)) xs"
proof (cases mq)
  case (Pair m q)
  have "path (p_next m) (p_next m x) xs None" "q_head q = Some x"
    using assms Pair by (auto simp: queue_rep_def)
  then show ?thesis
    using assms Pair path_start [of "p_next m" "p_next m x" xs] by (auto simp: pop_def queue_rep_def Let_def)
qed

interpretation pq: fifo "\<lambda>x. push (Some x)" pop queue_rep
proof unfold_locales
  show "pop s = (None, s)" if "queue_rep s []" for s
    using that by (cases s) (auto simp: pop_def queue_rep_def)
qed (use queue_push queue_pop in auto)

section \<open>Moving, clearing and timing out\<close>

lemma clear_loop_path: "path (p_next m) h xs None \<Longrightarrow> clear_loop m h = Some xs"
proof (induction xs arbitrary: h)
  case Nil
  then show ?case
    by (subst clear_loop.simps) simp
next
  case (Cons x xs)
  then show ?case
    by (subst clear_loop.simps) simp
qed

lemma clear_queue_rep:
  assumes "queue_rep (m, q) xs"
  shows "clear_queue (m, q) = Some (xs, m, new_queue)"
proof (cases xs)
  case Nil
  then show ?thesis
    using assms by (cases q) (auto simp: clear_queue_def queue_rep_def new_queue_def)
next
  case (Cons x ys)
  then have "q_head q \<noteq> None" "clear_loop m (q_head q) = Some xs"
    using assms clear_loop_path by (auto simp: queue_rep_def)
  then show ?thesis
    by (auto simp: clear_queue_def new_queue_def)
qed

lemma moveTo_rep:
  assumes "queue_rep (m, q) xs" and "queue_rep (m, dest) ys" and "set xs \<inter> set ys = {}"
  shows "case moveTo m q dest of (m', q', dest') \<Rightarrow> queue_rep (m', q') [] \<and> queue_rep (m', dest') (ys @ xs)"
proof (cases "xs = []")
  case True
  then show ?thesis
    using assms by (auto simp: moveTo_def queue_rep_def)
next
  case False
  then have h: "q_head q \<noteq> None" "path (p_next m) (q_head q) xs None" "q_tail q = Some (last xs)"
    using assms(1) path_start [of "p_next m" "q_head q" xs] by (auto simp: queue_rep_def)
  show ?thesis
  proof (cases ys rule: rev_cases)
    case Nil
    then show ?thesis
      using assms h False by (auto simp: moveTo_def queue_rep_def)
  next
    case (snoc zs l)
    then have "path ((p_next m)(l := q_head q)) (q_head dest) (zs @ [l]) (q_head q)" "l \<notin> set xs"
      using assms(2,3) by (auto simp: queue_rep_def path_append)
    then show ?thesis
      using assms h False snoc by (auto simp: moveTo_def queue_rep_def path_append)
  qed
qed

definition timed_out :: "int \<Rightarrow> packet_mem \<Rightarrow> nat \<Rightarrow> bool" where
  "timed_out now m x \<longleftrightarrow> p_expire m x \<noteq> 0 \<and> p_expire m x < now"

text \<open>The part of the chain that has been cut off so far: it still points to the head of the queue.\<close>

definition cut_off :: "packet_mem \<Rightarrow> packet_queue \<Rightarrow> nat option \<Rightarrow> nat option \<Rightarrow> nat list \<Rightarrow> bool" where
  "cut_off m q lst lt ys \<longleftrightarrow> lt = (if ys = [] then None else Some (last ys))
     \<and> (if ys = [] then lst = None else path (p_next m) lst ys (q_head q))"

lemma timeout_loop_rep:
  assumes "cut_off m q lst lt ys" and "queue_rep (m, q) zs" and "distinct (ys @ zs)"
  shows "\<exists>q' lst' lt'. timeout_loop now m q lst lt = Some (m, q', lst', lt')
           \<and> cut_off m q' lst' lt' (ys @ takeWhile (timed_out now m) zs)
           \<and> queue_rep (m, q') (dropWhile (timed_out now m) zs)"
  using assms
proof (induction zs arbitrary: q lst lt ys)
  case Nil
  then have "timeout_loop now m q lst lt = Some (m, q, lst, lt)"
    by (subst timeout_loop.simps) (simp add: queue_rep_def)
  then show ?case
    using Nil by simp
next
  case (Cons z zs)
  have z: "q_head q = Some z" "path (p_next m) (p_next m z) zs None"
    using Cons.prems(2) by (auto simp: queue_rep_def)
  show ?case
  proof (cases "timed_out now m z")
    case False
    then have "timeout_loop now m q lst lt = Some (m, q, lst, lt)"
      using z by (subst timeout_loop.simps) (auto simp: timed_out_def)
    then show ?thesis
      using Cons.prems False by simp
  next
    case True
    let ?q = "(if p_next m z = None then q\<lparr>q_head := p_next m z, q_tail := None\<rparr> else q\<lparr>q_head := p_next m z\<rparr>)
        \<lparr>q_size := q_size q - 1\<rparr>"
    let ?lst = "if lt = None then Some z else lst"
    have same: "m\<lparr>p_next := (p_next m)(last ys := Some z)\<rparr> = m" if "ys \<noteq> []"
    proof -
      have "path (p_next m) lst (butlast ys @ [last ys]) (Some z)"
        using Cons.prems(1) z(1) that by (simp add: cut_off_def)
      then have "p_next m (last ys) = Some z"
        by (simp only: path_snoc)
      then have "(p_next m)(last ys := Some z) = p_next m"
        by (simp only: fun_upd_idem)
      then show ?thesis
        by simp
    qed
    have step: "timeout_loop now m q lst lt = timeout_loop now m ?q ?lst (Some z)"
      using True z(1) Cons.prems(1) same
      by (subst (1) timeout_loop.simps) (auto simp: timed_out_def cut_off_def)
    have "queue_rep (m, ?q) zs"
      using Cons.prems(2) z path_start [of "p_next m" "p_next m z" zs] by (auto simp: queue_rep_def)
    moreover have "cut_off m ?q ?lst (Some z) (ys @ [z])"
      using Cons.prems(1) z(1) by (auto simp: cut_off_def path_append)
    ultimately show ?thesis
      using Cons.IH [of ?q ?lst "Some z" "ys @ [z]"] Cons.prems(3) step True by simp
  qed
qed

lemma getTimeoutList_rep:
  assumes "queue_rep (m, q) xs"
  shows "\<exists>lst m' q'. getTimeoutList now (m, q) = Some (lst, m', q')
           \<and> path (p_next m') lst (takeWhile (timed_out now m) xs) None
           \<and> queue_rep (m', q') (dropWhile (timed_out now m) xs)"
proof -
  let ?ys = "takeWhile (timed_out now m) xs" and ?zs = "dropWhile (timed_out now m) xs"
  have dist: "distinct (?ys @ ?zs)"
    using assms by (simp add: queue_rep_def)
  obtain q' lst lt where r: "timeout_loop now m q None None = Some (m, q', lst, lt)" "cut_off m q' lst lt ?ys"
      "queue_rep (m, q') ?zs"
    using timeout_loop_rep [of m q None None "[]" xs now] assms by (auto simp: cut_off_def queue_rep_def)
  show ?thesis
  proof (cases ?ys rule: rev_cases)
    case Nil
    then show ?thesis
      using r by (simp add: getTimeoutList_def cut_off_def)
  next
    case (snoc us l)
    then have l: "lt = Some l" "path (p_next m) lst (us @ [l]) (q_head q')" "l \<notin> set us" "l \<notin> set ?zs"
      using r(2) dist by (auto simp: cut_off_def)
    have "path ((p_next m)(l := None)) lst (us @ [l]) None"
      using path_redirect [OF l(2,3)] .
    moreover have "queue_rep (m\<lparr>p_next := (p_next m)(l := None)\<rparr>, q') ?zs"
      using r(3) l(4) by (simp add: queue_rep_def)
    ultimately show ?thesis
      using r(1) l(1) snoc by (simp add: getTimeoutList_def)
  qed
qed

text \<open>
  C16. The queue of packets is a list: pushing appends, popping takes the first, moving a queue
  appends its packets to the other and leaves it empty, clearing frees every packet once, and the
  timed out packets are exactly the longest run of expired packets at the front, returned as a
  chain of their own.
\<close>

theorem packet_queue_refines_list:
  assumes "queue_rep (m, q) xs" and "queue_rep (m, dest) ys" and "set xs \<inter> set ys = {}" and "x \<notin> set xs"
  shows "queue_rep (push (Some x) (m, q)) (xs @ [x])
    \<and> fst (pop (m, q)) = (case xs of [] \<Rightarrow> None | y # _ \<Rightarrow> Some y)
    \<and> queue_rep (snd (pop (m, q))) (drop 1 xs)
    \<and> (case moveTo m q dest of (m', q', dest') \<Rightarrow> queue_rep (m', q') [] \<and> queue_rep (m', dest') (ys @ xs))
    \<and> clear_queue (m, q) = Some (xs, m, new_queue)
    \<and> (\<exists>lst m' q'. getTimeoutList now (m, q) = Some (lst, m', q')
          \<and> path (p_next m') lst (takeWhile (timed_out now m) xs) None
          \<and> queue_rep (m', q') (dropWhile (timed_out now m) xs))"
proof (intro conjI)
  show "fst (pop (m, q)) = (case xs of [] \<Rightarrow> None | y # _ \<Rightarrow> Some y)" and "queue_rep (snd (pop (m, q))) (drop 1 xs)"
    using pq.deq [of "(m, q)"] pq.deq_empty [of "(m, q)"] assms(1) by (cases xs; auto)+
qed (use assms pq.enq moveTo_rep clear_queue_rep getTimeoutList_rep in auto)

definition ex_packets :: "packet_mem \<times> packet_queue" where
  "ex_packets = fold (\<lambda>x. push (Some x)) [5, 3] (\<lparr>p_next = \<lambda>_. None, p_expire = \<lambda>x. if x = 5 then 10 else 90\<rparr>, new_queue)"

theorem packet_queue_refines_list_witness:
  "\<exists>lst m q. getTimeoutList 50 ex_packets = Some (lst, m, q) \<and> path (p_next m) lst [5] None \<and> queue_rep (m, q) [3]"
proof -
  have empty: "queue_rep (\<lparr>p_next = \<lambda>_. None, p_expire = \<lambda>x. if x = 5 then 10 else 90\<rparr>, new_queue) []"
    by (simp add: queue_rep_def new_queue_def)
  have rep: "queue_rep (fst ex_packets, snd ex_packets) [5, 3]"
    using pq.enq_all [OF empty, of "[5, 3]"] by (simp add: ex_packets_def)
  have none: "queue_rep (fst ex_packets, new_queue) []"
    by (simp add: queue_rep_def new_queue_def)
  have exp: "p_expire (fst ex_packets) = (\<lambda>x. if x = 5 then 10 else 90)"
    by (simp add: ex_packets_def push_def new_queue_def Let_def)
  have "takeWhile (timed_out 50 (fst ex_packets)) [5, 3] = [5]" "dropWhile (timed_out 50 (fst ex_packets)) [5, 3] = [3]"
    by (simp_all add: timed_out_def exp)
  then show ?thesis
    using packet_queue_refines_list [OF rep none, of 7 50] by auto
qed

end
