(* ===== verification/Channel_Pool.thy ===== *)
theory Channel_Pool
  imports Linked "HOL-Library.Monad_Syntax" "HOL-Library.Word"
begin

unbundle bit_operations_syntax

text \<open>
  The channels of a client connection (\<open>tbnet/src/channelpool.cpp\<close>, \<open>channel.h\<close>): a request that waits
  for its answer holds a channel, whose id travels in the packet header. Channels lie in a list of
  free ones and a list of used ones, doubly linked through their own pointers, and the used ones in
  a map from ids. A channel is an address; the memory of the channels is part of the pool. The
  constructor of a channel leaves id, handler and argument unset, 0 and absent here: nothing reads
  them before the allocation sets them.
\<close>

section \<open>Model\<close>

record channel =
  c_id :: "32 word"
  c_args :: "nat option"
  c_handler :: "nat option"
  c_expire :: int
  c_prev :: "nat option"
  c_next :: "nat option"

record channel_pool =
  chan :: "nat \<Rightarrow> channel"
  created :: nat
  useMap :: "(32 word, nat) smap"
  freeHead :: "nat option"
  freeTail :: "nat option"
  useHead :: "nat option"
  useTail :: "nat option"
  maxUseCount :: int
  globalChannelId :: "32 word"

definition CHANNEL_CLUSTER_SIZE :: nat where
  "CHANNEL_CLUSTER_SIZE = 25"

definition TBNET_MAX_TIME :: int where
  "TBNET_MAX_TIME = 2 ^ 62"

definition new_channel :: channel where
  "new_channel = \<lparr>c_id = 0, c_args = None, c_handler = None, c_expire = 0, c_prev = None, c_next = None\<rparr>"

definition new_pool :: channel_pool where
  "new_pool = \<lparr>chan = \<lambda>_. new_channel, created = 0, useMap = [], freeHead = None, freeTail = None,
     useHead = None, useTail = None, maxUseCount = 0, globalChannelId = 1\<rparr>"

definition upd_chan :: "nat \<Rightarrow> (channel \<Rightarrow> channel) \<Rightarrow> channel_pool \<Rightarrow> channel_pool" where
  "upd_chan a f p = p\<lparr>chan := (chan p)(a := f (chan p a))\<rparr>"

definition smap_erase :: "'k \<Rightarrow> ('k, 'v) smap \<Rightarrow> ('k, 'v) smap" where
  "smap_erase k m = filter (\<lambda>(i, _). i \<noteq> k) m"

text \<open>The cells of a new cluster but the first are chained into the free list.\<close>

definition chain_step :: "nat \<Rightarrow> nat \<Rightarrow> channel_pool \<Rightarrow> channel_pool" where
  "chain_step base i p =
     (case freeTail p of
        None \<Rightarrow> p
      | Some t \<Rightarrow>
          let p = upd_chan t (c_next_update (\<lambda>_. Some (base + i))) p;
              p = upd_chan (base + i) (c_prev_update (\<lambda>_. Some t)) p
          in p\<lparr>freeTail := Some (base + i)\<rparr>)"

definition new_cluster :: "channel_pool \<Rightarrow> nat \<times> channel_pool" where
  "new_cluster p =
     (let base = created p;
          p = p\<lparr>chan := (\<lambda>a. if base \<le> a \<and> a < base + CHANNEL_CLUSTER_SIZE then new_channel else chan p a),
                created := base + CHANNEL_CLUSTER_SIZE\<rparr>;
          p = p\<lparr>freeHead := Some (base + 1), freeTail := Some (base + 1)\<rparr>;
          p = fold (chain_step base) [2..<CHANNEL_CLUSTER_SIZE] p;
          p = upd_chan (base + 1) (c_prev_update (\<lambda>_. None)) p
      in (base, case freeTail p of None \<Rightarrow> p | Some t \<Rightarrow> upd_chan t (c_next_update (\<lambda>_. None)) p))"

definition take_free :: "channel_pool \<Rightarrow> nat \<times> channel_pool" where
  "take_free p =
     (case freeHead p of
        None \<Rightarrow> new_cluster p
      | Some c \<Rightarrow>
          let p = p\<lparr>freeHead := c_next (chan p c)\<rparr>
          in (c, case freeHead p of
                   Some h \<Rightarrow> upd_chan h (c_prev_update (\<lambda>_. None)) p
                 | None \<Rightarrow> p\<lparr>freeTail := None\<rparr>))"

text \<open>A channel is put at the end of the used list and of the free list with the same assignments.\<close>

definition append_use :: "nat \<Rightarrow> channel_pool \<Rightarrow> channel_pool" where
  "append_use c p =
     (let p = upd_chan c (\<lambda>ch. ch\<lparr>c_prev := useTail p, c_next := None, c_expire := TBNET_MAX_TIME + 1\<rparr>) p;
          p = (case useTail p of
                 None \<Rightarrow> p\<lparr>useHead := Some c\<rparr>
               | Some t \<Rightarrow> upd_chan t (c_next_update (\<lambda>_. Some c)) p)
      in p\<lparr>useTail := Some c\<rparr>)"

definition append_free :: "nat \<Rightarrow> channel_pool \<Rightarrow> channel_pool" where
  "append_free c p =
     (let p = upd_chan c (\<lambda>ch. ch\<lparr>c_prev := freeTail p, c_next := None\<rparr>) p;
          p = (case freeTail p of
                 None \<Rightarrow> p\<lparr>freeHead := Some c\<rparr>
               | Some t \<Rightarrow> upd_chan t (c_next_update (\<lambda>_. Some c)) p);
          p = p\<lparr>freeTail := Some c\<rparr>
      in upd_chan c (\<lambda>ch. ch\<lparr>c_id := 0, c_handler := None, c_args := None\<rparr>) p)"

text \<open>The ids run from 1 to \<open>0x0FFFFFFF\<close> and start again.\<close>

definition next_id :: "32 word \<Rightarrow> 32 word \<times> 32 word" where
  "next_id g =
     (let g = g + 1; i = g AND 0x0FFFFFFF
      in if i = 0 then (1, 1) else (i, g))"

definition allocChannel :: "channel_pool \<Rightarrow> nat \<times> channel_pool" where
  "allocChannel p =
     (let (c, p) = take_free p;
          p = append_use c p;
          (i, g) = next_id (globalChannelId p);
          p = p\<lparr>globalChannelId := g\<rparr>;
          p = upd_chan c (\<lambda>ch. ch\<lparr>c_id := i, c_handler := None, c_args := None\<rparr>) p;
          p = p\<lparr>useMap := smap_upd i c (useMap p)\<rparr>;
          p = (if maxUseCount p < int (length (useMap p)) then p\<lparr>maxUseCount := int (length (useMap p))\<rparr> else p)
      in (c, p))"

text \<open>Taking a channel out of the used list.\<close>

definition unlink_use :: "nat \<Rightarrow> channel_pool \<Rightarrow> channel_pool" where
  "unlink_use c p =
     (let p = (if useHead p = Some c then p\<lparr>useHead := c_next (chan p c)\<rparr> else p);
          p = (if useTail p = Some c then p\<lparr>useTail := c_prev (chan p c)\<rparr> else p);
          p = (case c_prev (chan p c) of
                 None \<Rightarrow> p
               | Some l \<Rightarrow> upd_chan l (c_next_update (\<lambda>_. c_next (chan p c))) p)
      in case c_next (chan p c) of
           None \<Rightarrow> p
         | Some r \<Rightarrow> upd_chan r (c_prev_update (\<lambda>_. c_prev (chan p c))) p)"

definition freeChannel :: "nat \<Rightarrow> channel_pool \<Rightarrow> bool \<times> channel_pool" where
  "freeChannel c p =
     (case map_of (useMap p) (c_id (chan p c)) of
        None \<Rightarrow> (False, p)
      | Some _ \<Rightarrow>
          let p = p\<lparr>useMap := smap_erase (c_id (chan p c)) (useMap p)\<rparr>
          in (True, append_free c (unlink_use c p)))"

definition appendChannel :: "nat \<Rightarrow> channel_pool \<Rightarrow> channel_pool" where
  "appendChannel c p = append_free c p"

definition offerChannel :: "32 word \<Rightarrow> channel_pool \<Rightarrow> nat option \<times> channel_pool" where
  "offerChannel i p =
     (case map_of (useMap p) i of
        None \<Rightarrow> (None, p)
      | Some c \<Rightarrow>
          let p = p\<lparr>useMap := smap_erase i (useMap p)\<rparr>;
              p = unlink_use c p
          in (Some c, upd_chan c (\<lambda>ch. ch\<lparr>c_prev := None, c_next := None\<rparr>) p))"

partial_function (option) expired_loop ::
  "int \<Rightarrow> nat option \<Rightarrow> channel_pool \<Rightarrow> (nat option \<times> channel_pool) option" where
  "expired_loop now c p =
     (case c of
        None \<Rightarrow> Some (None, p)
      | Some a \<Rightarrow>
          (if c_expire (chan p a) \<ge> now then Some (Some a, p)
           else expired_loop now (c_next (chan p a)) (p\<lparr>useMap := smap_erase (c_id (chan p a)) (useMap p)\<rparr>)))"

declare expired_loop.simps [code]

definition getTimeoutChannels :: "int \<Rightarrow> channel_pool \<Rightarrow> (nat option \<times> channel_pool) option" where
  "getTimeoutChannels now p =
     (if useHead p = None then Some (None, p)
      else do {
        (c, p) \<leftarrow> expired_loop now (useHead p) p;
        Some (if c \<noteq> useHead p
              then (useHead p,
                    case c of
                      None \<Rightarrow> p\<lparr>useHead := None, useTail := None\<rparr>
                    | Some a \<Rightarrow>
                        let p = (case c_prev (chan p a) of
                                   None \<Rightarrow> p
                                 | Some l \<Rightarrow> upd_chan l (c_next_update (\<lambda>_. None)) p);
                            p = upd_chan a (c_prev_update (\<lambda>_. None)) p
                        in p\<lparr>useHead := Some a\<rparr>)
              else (None, p)) })"

definition clear_channel :: "nat \<Rightarrow> channel_pool \<Rightarrow> channel_pool" where
  "clear_channel c p = upd_chan c (\<lambda>ch. ch\<lparr>c_id := 0, c_handler := None, c_args := None\<rparr>) p"

partial_function (option) find_tail :: "nat \<Rightarrow> channel_pool \<Rightarrow> (nat \<times> channel_pool) option" where
  "find_tail t p =
     (case c_next (chan p t) of
        None \<Rightarrow> Some (t, clear_channel t p)
      | Some u \<Rightarrow> find_tail u (clear_channel t p))"

declare find_tail.simps [code]

definition appendFreeList :: "nat option \<Rightarrow> channel_pool \<Rightarrow> channel_pool option" where
  "appendFreeList addList p =
     (case addList of
        None \<Rightarrow> Some p
      | Some a \<Rightarrow> do {
          (t, p) \<leftarrow> find_tail a p;
          let p = upd_chan a (c_prev_update (\<lambda>_. freeTail p)) p;
          let p = (case freeTail p of
                     None \<Rightarrow> p\<lparr>freeHead := Some a\<rparr>
                   | Some l \<Rightarrow> upd_chan l (c_next_update (\<lambda>_. Some a)) p);
          Some (p\<lparr>freeTail := Some t\<rparr>) })"

definition setExpireTime :: "nat option \<Rightarrow> int \<Rightarrow> channel_pool \<Rightarrow> channel_pool" where
  "setExpireTime c now p = (case c of None \<Rightarrow> p | Some a \<Rightarrow> upd_chan a (c_expire_update (\<lambda>_. now)) p)"

section \<open>The pool as two lists\<close>

text \<open>The pointers and ids of all channels as functions of the address.\<close>

definition nexts :: "channel_pool \<Rightarrow> nat \<Rightarrow> nat option" where
  "nexts p a = c_next (chan p a)"

definition prevs :: "channel_pool \<Rightarrow> nat \<Rightarrow> nat option" where
  "prevs p a = c_prev (chan p a)"

definition ids :: "channel_pool \<Rightarrow> nat \<Rightarrow> 32 word" where
  "ids p a = c_id (chan p a)"

definition expires :: "channel_pool \<Rightarrow> nat \<Rightarrow> int" where
  "expires p a = c_expire (chan p a)"

lemmas view_defs = nexts_def prevs_def ids_def expires_def

lemma views_of_pool [simp]:
  "nexts (p\<lparr>created := n\<rparr>) = nexts p" "nexts (p\<lparr>useMap := m\<rparr>) = nexts p" "nexts (p\<lparr>freeHead := h\<rparr>) = nexts p"
  "nexts (p\<lparr>freeTail := h\<rparr>) = nexts p" "nexts (p\<lparr>useHead := h\<rparr>) = nexts p" "nexts (p\<lparr>useTail := h\<rparr>) = nexts p"
  "nexts (p\<lparr>maxUseCount := x\<rparr>) = nexts p" "nexts (p\<lparr>globalChannelId := g\<rparr>) = nexts p"
  "prevs (p\<lparr>created := n\<rparr>) = prevs p" "prevs (p\<lparr>useMap := m\<rparr>) = prevs p" "prevs (p\<lparr>freeHead := h\<rparr>) = prevs p"
  "prevs (p\<lparr>freeTail := h\<rparr>) = prevs p" "prevs (p\<lparr>useHead := h\<rparr>) = prevs p" "prevs (p\<lparr>useTail := h\<rparr>) = prevs p"
  "prevs (p\<lparr>maxUseCount := x\<rparr>) = prevs p" "prevs (p\<lparr>globalChannelId := g\<rparr>) = prevs p"
  "ids (p\<lparr>created := n\<rparr>) = ids p" "ids (p\<lparr>useMap := m\<rparr>) = ids p" "ids (p\<lparr>freeHead := h\<rparr>) = ids p"
  "ids (p\<lparr>freeTail := h\<rparr>) = ids p" "ids (p\<lparr>useHead := h\<rparr>) = ids p" "ids (p\<lparr>useTail := h\<rparr>) = ids p"
  "ids (p\<lparr>maxUseCount := x\<rparr>) = ids p" "ids (p\<lparr>globalChannelId := g\<rparr>) = ids p"
  by (simp_all add: fun_eq_iff view_defs)

lemma views_of_channel [simp]:
  "nexts (upd_chan c f p) = (nexts p)(c := c_next (f (chan p c)))"
  "prevs (upd_chan c f p) = (prevs p)(c := c_prev (f (chan p c)))"
  "ids (upd_chan c f p) = (ids p)(c := c_id (f (chan p c)))"
  by (simp_all add: fun_eq_iff view_defs upd_chan_def)

lemma upd_chan_fields [simp]:
  "chan (upd_chan c f p) = (chan p)(c := f (chan p c))" "created (upd_chan c f p) = created p"
  "useMap (upd_chan c f p) = useMap p" "freeHead (upd_chan c f p) = freeHead p"
  "freeTail (upd_chan c f p) = freeTail p" "useHead (upd_chan c f p) = useHead p"
  "useTail (upd_chan c f p) = useTail p" "maxUseCount (upd_chan c f p) = maxUseCount p"
  "globalChannelId (upd_chan c f p) = globalChannelId p"
  by (simp_all add: upd_chan_def)

lemma fun_upd_other [simp]: "c \<noteq> t \<Longrightarrow> f(t := v, c := f c) = f(t := v)"
  by (auto simp: fun_eq_iff)

lemmas chan_views = nexts_def [symmetric] prevs_def [symmetric] ids_def [symmetric] expires_def [symmetric]

text \<open>Free channels \<open>fs\<close>, used channels \<open>us\<close> found through their ids, and channels \<open>hs\<close> in the hands of the caller.\<close>

definition lists_rep :: "channel_pool \<Rightarrow> nat list \<Rightarrow> nat list \<Rightarrow> nat list \<Rightarrow> bool" where
  "lists_rep p fs us hs \<longleftrightarrow> dlist (nexts p) (prevs p) (freeHead p) (freeTail p) fs
     \<and> dlist (nexts p) (prevs p) (useHead p) (useTail p) us
     \<and> distinct (fs @ us @ hs) \<and> set (fs @ us @ hs) = {..<created p}"

definition index_rep :: "channel_pool \<Rightarrow> nat list \<Rightarrow> bool" where
  "index_rep p us \<longleftrightarrow> smap_wf (useMap p) \<and> set (useMap p) = (\<lambda>a. (ids p a, a)) ` set us"

definition pool_rep :: "channel_pool \<Rightarrow> nat list \<Rightarrow> nat list \<Rightarrow> nat list \<Rightarrow> bool" where
  "pool_rep p fs us hs \<longleftrightarrow> lists_rep p fs us hs \<and> index_rep p us"

lemma fun_upd_None: "f x = None \<Longrightarrow> f(x := None) = f"
  by (simp add: fun_upd_idem)

lemma chain_step_rep:
  assumes "dlist (nexts p) (prevs p) (Some h) (freeTail p) xs" and "base + i \<notin> set xs" and "xs \<noteq> []"
    and "nexts p (base + i) = None"
  shows "dlist (nexts (chain_step base i p)) (prevs (chain_step base i p)) (Some h) (freeTail (chain_step base i p))
           (xs @ [base + i])"
proof -
  obtain t where t: "freeTail p = Some t" "t \<in> set xs"
    using dlist_tail [OF assms(1)] assms(3) by auto
  then have "t \<noteq> base + i"
    using assms(2) by auto
  moreover from this have "(nexts p)(t \<mapsto> base + i, base + i := None) = (nexts p)(t \<mapsto> base + i)"
    using assms(4) by (auto simp: fun_eq_iff)
  ultimately show ?thesis
    using dlist_push_back [OF assms(1,2)] t fun_upd_None [of "nexts p" "base + i"] assms(4)
    by (simp add: chain_step_def Let_def chan_views)
qed

lemma chain_steps:
  assumes "dlist (nexts p) (prevs p) (Some (base + 1)) (freeTail p) [base + 1..<base + n]" and "2 \<le> n"
    and "\<forall>a\<ge>base + n. a < base + n + k \<longrightarrow> nexts p a = None"
  shows "dlist (nexts (fold (chain_step base) [n..<n + k] p)) (prevs (fold (chain_step base) [n..<n + k] p))
      (Some (base + 1)) (freeTail (fold (chain_step base) [n..<n + k] p)) [base + 1..<base + (n + k)]
    \<and> (\<forall>a. a < base + 1 \<or> base + (n + k) \<le> a \<longrightarrow> chan (fold (chain_step base) [n..<n + k] p) a = chan p a)
    \<and> ids (fold (chain_step base) [n..<n + k] p) = ids p"
  using assms(3)
proof (induction k)
  case 0
  then show ?case
    using assms(1) by simp
next
  case (Suc k)
  let ?q = "fold (chain_step base) [n..<n + k] p"
  have IH: "dlist (nexts ?q) (prevs ?q) (Some (base + 1)) (freeTail ?q) [base + 1..<base + (n + k)]"
      "\<forall>a. a < base + 1 \<or> base + (n + k) \<le> a \<longrightarrow> chan ?q a = chan p a" "ids ?q = ids p"
    using Suc by auto
  have "nexts ?q (base + (n + k)) = None"
    using IH(2) Suc.prems by (simp add: nexts_def)
  then have "dlist (nexts (chain_step base (n + k) ?q)) (prevs (chain_step base (n + k) ?q)) (Some (base + 1))
      (freeTail (chain_step base (n + k) ?q)) ([base + 1..<base + (n + k)] @ [base + (n + k)])"
    using assms(2) by (intro chain_step_rep [OF IH(1)]) auto
  moreover obtain t where "freeTail ?q = Some t" "base + 1 \<le> t" "t < base + (n + k)"
    using dlist_tail [OF IH(1)] assms(2) by (auto split: if_splits simp: last_upt)
  then have "\<forall>a. a < base + 1 \<or> base + (n + Suc k) \<le> a \<longrightarrow> chan (chain_step base (n + k) ?q) a = chan p a"
      "ids (chain_step base (n + k) ?q) = ids p"
    using IH(2,3) by (auto simp: chain_step_def Let_def view_defs fun_eq_iff)
  moreover have "fold (chain_step base) [n..<n + Suc k] p = chain_step base (n + k) ?q"
    by simp
  moreover have "[base + 1..<base + (n + Suc k)] = [base + 1..<base + (n + k)] @ [base + (n + k)]"
    using assms(2) by simp
  ultimately show ?case
    by metis
qed

text \<open>What an operation on the lists leaves alone.\<close>

definition keeps :: "channel_pool \<Rightarrow> channel_pool \<Rightarrow> nat list \<Rightarrow> bool" where
  "keeps p q us \<longleftrightarrow> (\<forall>a\<in>set us. ids q a = ids p a) \<and> useMap q = useMap p \<and> globalChannelId q = globalChannelId p"

lemma dlist_ends:
  assumes "dlist nx pv h t xs" and "xs \<noteq> []"
  shows "pv (hd xs) = None" and "nx (last xs) = None" and "h = Some (hd xs)" and "t = Some (last xs)"
proof -
  obtain x ys where x: "xs = x # ys"
    using assms(2) by (cases xs) auto
  obtain zs y where y: "xs = zs @ [y]"
    using assms(2) by (cases xs rule: rev_cases) auto
  show "pv (hd xs) = None" "h = Some (hd xs)"
    using assms(1) x by (auto simp: dlist_def path_append)
  show "nx (last xs) = None" "t = Some (last xs)"
    using assms(1) y by (auto simp: dlist_def path_append)
qed

lemma chain_steps_frame:
  "useMap (fold (chain_step base) is p) = useMap p \<and> created (fold (chain_step base) is p) = created p
   \<and> freeHead (fold (chain_step base) is p) = freeHead p \<and> useHead (fold (chain_step base) is p) = useHead p
   \<and> useTail (fold (chain_step base) is p) = useTail p
   \<and> globalChannelId (fold (chain_step base) is p) = globalChannelId p"
proof (induction "is" arbitrary: p)
  case (Cons i "is")
  have "useMap (chain_step base i p) = useMap p \<and> created (chain_step base i p) = created p
   \<and> freeHead (chain_step base i p) = freeHead p \<and> useHead (chain_step base i p) = useHead p
   \<and> useTail (chain_step base i p) = useTail p \<and> globalChannelId (chain_step base i p) = globalChannelId p"
    by (auto simp: chain_step_def Let_def split: option.splits)
  then show ?case
    using Cons by simp
qed simp

lemma new_cluster_rep:
  assumes "lists_rep p [] us hs"
  shows "\<exists>q. new_cluster p = (created p, q) \<and> lists_rep q [created p + 1..<created p + 25] us (created p # hs) \<and> keeps p q us"
proof -
  let ?b = "created p"
  define r where "r = p\<lparr>chan := (\<lambda>a. if ?b \<le> a \<and> a < ?b + CHANNEL_CLUSTER_SIZE then new_channel else chan p a),
      created := ?b + CHANNEL_CLUSTER_SIZE, freeHead := Some (?b + 1), freeTail := Some (?b + 1)\<rparr>"
  define q where "q = fold (chain_step ?b) [2..<CHANNEL_CLUSTER_SIZE] r"
  have old: "set (us @ hs) = {..<?b}" "distinct (us @ hs)"
    using assms by (auto simp: lists_rep_def)
  have "nexts r (?b + 1) = None" "prevs r (?b + 1) = None"
    by (simp_all add: r_def view_defs CHANNEL_CLUSTER_SIZE_def new_channel_def)
  then have start: "dlist (nexts r) (prevs r) (Some (?b + 1)) (freeTail r) [?b + 1..<?b + 2]"
    by (simp add: dlist_def r_def upt_rec [of "Suc ?b"])
  have free: "\<forall>a\<ge>?b + 2. a < ?b + 2 + 23 \<longrightarrow> nexts r a = None"
    by (simp add: r_def nexts_def CHANNEL_CLUSTER_SIZE_def new_channel_def)
  have size: "CHANNEL_CLUSTER_SIZE = 2 + 23"
    by (simp add: CHANNEL_CLUSTER_SIZE_def)
  note steps = chain_steps [OF start order_refl free, folded size, folded q_def]
  have chain: "dlist (nexts q) (prevs q) (Some (?b + 1)) (freeTail q) [?b + 1..<?b + 25]"
      "\<forall>a<?b + 1. chan q a = chan r a"
    using steps by (auto simp: CHANNEL_CLUSTER_SIZE_def)
  have fields: "useMap q = useMap p" "created q = ?b + 25" "freeHead q = Some (?b + 1)" "useHead q = useHead p"
      "useTail q = useTail p" "globalChannelId q = globalChannelId p"
    using chain_steps_frame [of ?b "[2..<CHANNEL_CLUSTER_SIZE]" r]
    by (auto simp: q_def r_def CHANNEL_CLUSTER_SIZE_def)
  have same: "nexts q a = nexts p a \<and> prevs q a = prevs p a \<and> ids q a = ids p a" if "a \<in> set us" for a
  proof -
    have "a < ?b"
      using old(1) that by auto
    then have "chan q a = chan p a"
      using chain(2) by (simp add: r_def)
    then show ?thesis
      by (simp add: view_defs)
  qed
  note ends = dlist_ends [OF chain(1)]
  have "nexts q (?b + 24) = None" "prevs q (?b + 1) = None" "freeTail q = Some (?b + 24)"
    using ends by (simp_all add: add.commute)
  then have "nexts (upd_chan (?b + 24) (c_next_update (\<lambda>_. None)) (upd_chan (?b + 1) (c_prev_update (\<lambda>_. None)) q)) = nexts q"
      "prevs (upd_chan (?b + 24) (c_next_update (\<lambda>_. None)) (upd_chan (?b + 1) (c_prev_update (\<lambda>_. None)) q)) = prevs q"
    by (auto simp: fun_eq_iff view_defs)
  moreover have "new_cluster p =
      (?b, upd_chan (?b + 24) (c_next_update (\<lambda>_. None)) (upd_chan (?b + 1) (c_prev_update (\<lambda>_. None)) q))"
    using \<open>freeTail q = Some (?b + 24)\<close> by (simp add: new_cluster_def Let_def q_def r_def)
  moreover have "dlist (nexts q) (prevs q) (useHead p) (useTail p) us"
    using assms same dlist_cong [of us "nexts p" "nexts q" "prevs p" "prevs q"] by (auto simp: lists_rep_def)
  moreover have "distinct ([?b + 1..<?b + 25] @ us @ ?b # hs)" "set ([?b + 1..<?b + 25] @ us @ ?b # hs) = {..<?b + 25}"
    using old by auto
  ultimately show ?thesis
    using chain(1) fields same by (simp add: lists_rep_def keeps_def chan_views)
qed

lemma lists_repI:
  assumes "dlist (nexts p) (prevs p) (freeHead p) (freeTail p) fs" and "dlist (nexts p) (prevs p) (useHead p) (useTail p) us"
    and "distinct (fs @ us @ hs)" and "set (fs @ us @ hs) = {..<created p}"
  shows "lists_rep p fs us hs"
  using assms by (simp add: lists_rep_def)

lemma dlist_frame:
  assumes "dlist nx pv h t xs" and "\<And>x. x \<in> set xs \<Longrightarrow> ny x = nx x \<and> py x = pv x"
  shows "dlist ny py h t xs"
  using assms dlist_cong [of xs ny nx py pv h t] by simp

lemma lists_rep_frame:
  assumes "lists_rep p fs us hs" and "\<forall>a\<in>set fs \<union> set us. nexts q a = nexts p a \<and> prevs q a = prevs p a"
    and "freeHead q = freeHead p" "freeTail q = freeTail p" "useHead q = useHead p" "useTail q = useTail p" "created q = created p"
  shows "lists_rep q fs us hs"
proof (rule lists_repI)
  show "dlist (nexts q) (prevs q) (freeHead q) (freeTail q) fs"
    by (rule dlist_frame [of "nexts p" "prevs p"]) (use assms in \<open>simp_all add: lists_rep_def\<close>)
  show "dlist (nexts q) (prevs q) (useHead q) (useTail q) us"
    by (rule dlist_frame [of "nexts p" "prevs p"]) (use assms in \<open>simp_all add: lists_rep_def\<close>)
qed (use assms in \<open>simp_all add: lists_rep_def\<close>)

lemma take_free_rep:
  assumes "lists_rep p fs us hs"
  shows "\<exists>c q fs'. take_free p = (c, q) \<and> lists_rep q fs' us (c # hs) \<and> keeps p q us"
proof (cases fs)
  case Nil
  then have "take_free p = new_cluster p"
    using assms by (simp add: take_free_def lists_rep_def)
  then show ?thesis
    using new_cluster_rep [of p us hs] assms Nil by auto
next
  case (Cons c fs')
  have rep: "dlist (nexts p) (prevs p) (freeHead p) (freeTail p) (c # fs')"
      "dlist (nexts p) (prevs p) (useHead p) (useTail p) us" "distinct (fs' @ us @ c # hs)"
      "set (fs' @ us @ c # hs) = {..<created p}"
    using assms Cons by (auto simp: lists_rep_def)
  have c: "freeHead p = Some c"
    using rep(1) by (simp add: dlist_def)
  note front = dlist_pop_front [OF rep(1)]
  show ?thesis
  proof (cases "nexts p c")
    case None
    have "take_free p = (c, p\<lparr>freeHead := None, freeTail := None\<rparr>)"
      using c None by (simp add: take_free_def Let_def chan_views)
    moreover have "lists_rep (p\<lparr>freeHead := None, freeTail := None\<rparr>) fs' us (c # hs)"
      using front rep(2-4) None by (intro lists_repI) simp_all
    ultimately show ?thesis
      by (auto simp: keeps_def)
  next
    case (Some h)
    let ?q = "upd_chan h (c_prev_update (\<lambda>_. None)) (p\<lparr>freeHead := Some h\<rparr>)"
    have "h \<in> set fs'"
      using rep(1) Some by (cases fs') (auto simp: dlist_def)
    then have "h \<notin> set us"
      using rep(3) by auto
    then have "dlist (nexts ?q) (prevs ?q) (useHead p) (useTail p) us"
      by (intro dlist_frame [OF rep(2)]) (auto simp: chan_views)
    moreover have "dlist (nexts ?q) (prevs ?q) (Some h) (freeTail p) fs'"
      using front Some by (simp add: chan_views)
    ultimately have "lists_rep ?q fs' us (c # hs)"
      using rep(3,4) by (intro lists_repI) simp_all
    moreover have "take_free p = (c, ?q)"
      using c Some by (simp add: take_free_def Let_def chan_views)
    ultimately show ?thesis
      by (auto simp: keeps_def chan_views)
  qed
qed

lemma append_use_rep:
  assumes "lists_rep p fs us (c # hs)"
  shows "lists_rep (append_use c p) fs (us @ [c]) hs" and "ids (append_use c p) = ids p"
    and "useMap (append_use c p) = useMap p" and "globalChannelId (append_use c p) = globalChannelId p"
proof -
  have rep: "dlist (nexts p) (prevs p) (freeHead p) (freeTail p) fs"
      "dlist (nexts p) (prevs p) (useHead p) (useTail p) us" "distinct (fs @ (us @ [c]) @ hs)"
      "set (fs @ (us @ [c]) @ hs) = {..<created p}"
    using assms by (auto simp: lists_rep_def)
  have "c \<notin> set us"
    using rep(3) by auto
  note pushed = dlist_push_back [OF rep(2) this]
  have t: "t \<notin> set fs" if "useTail p = Some t" for t
    using dlist_tail_mem [of "nexts p" "prevs p" "useHead p" t us] rep(2,3) that by auto
  have new: "dlist (nexts (append_use c p)) (prevs (append_use c p)) (useHead (append_use c p)) (useTail (append_use c p)) (us @ [c])"
    using pushed dlist_tail [OF rep(2)] \<open>c \<notin> set us\<close>
    by (cases "useTail p") (auto simp: append_use_def Let_def chan_views split: if_splits)
  moreover have "dlist (nexts (append_use c p)) (prevs (append_use c p)) (freeHead (append_use c p)) (freeTail (append_use c p)) fs"
    using rep(3) t by (cases "useTail p")
      (auto simp: append_use_def Let_def chan_views intro!: dlist_frame [OF rep(1)])
  moreover have "created (append_use c p) = created p"
    by (simp add: append_use_def Let_def split: option.splits)
  ultimately show "lists_rep (append_use c p) fs (us @ [c]) hs"
    using rep(3,4) by (intro lists_repI) simp_all
  show "ids (append_use c p) = ids p" "useMap (append_use c p) = useMap p"
      "globalChannelId (append_use c p) = globalChannelId p"
    by (auto simp: append_use_def Let_def chan_views split: option.splits)
qed

lemma append_free_rep:
  assumes "lists_rep p fs us (c # hs)"
  shows "lists_rep (append_free c p) (fs @ [c]) us hs" and "keeps p (append_free c p) us"
proof -
  have rep: "dlist (nexts p) (prevs p) (freeHead p) (freeTail p) fs"
      "dlist (nexts p) (prevs p) (useHead p) (useTail p) us" "distinct ((fs @ [c]) @ us @ hs)"
      "set ((fs @ [c]) @ us @ hs) = {..<created p}"
    using assms by (auto simp: lists_rep_def)
  have "c \<notin> set fs"
    using rep(3) by auto
  note pushed = dlist_push_back [OF rep(1) this]
  have t: "t \<notin> set us \<and> t \<noteq> c" if "freeTail p = Some t" for t
    using dlist_tail_mem [of "nexts p" "prevs p" "freeHead p" t fs] rep(1,3) that by auto
  have new: "dlist (nexts (append_free c p)) (prevs (append_free c p)) (freeHead (append_free c p)) (freeTail (append_free c p)) (fs @ [c])"
    using pushed t by (cases "freeTail p") (auto simp: append_free_def Let_def chan_views fun_upd_twist)
  moreover have "dlist (nexts (append_free c p)) (prevs (append_free c p)) (useHead (append_free c p)) (useTail (append_free c p)) us"
    using rep(3) t by (cases "freeTail p")
      (auto simp: append_free_def Let_def chan_views intro!: dlist_frame [OF rep(2)])
  moreover have "created (append_free c p) = created p"
    by (simp add: append_free_def Let_def split: option.splits)
  ultimately show "lists_rep (append_free c p) (fs @ [c]) us hs"
    using rep(3,4) by (intro lists_repI) simp_all
  show "keeps p (append_free c p) us"
    using rep(3) by (auto simp: keeps_def append_free_def Let_def chan_views split: option.splits)
qed

lemma unlink_use_fields [simp]:
  "created (unlink_use c p) = created p" "useMap (unlink_use c p) = useMap p" "freeHead (unlink_use c p) = freeHead p"
  "freeTail (unlink_use c p) = freeTail p" "globalChannelId (unlink_use c p) = globalChannelId p"
  "ids (unlink_use c p) = ids p"
  by (auto simp: unlink_use_def Let_def chan_views split: option.splits)

lemma unlink_use_views:
  assumes "prevs p c \<noteq> Some c" and "nexts p c \<noteq> Some c"
  shows "nexts (unlink_use c p) = (case prevs p c of None \<Rightarrow> nexts p | Some l \<Rightarrow> (nexts p)(l := nexts p c))"
    and "prevs (unlink_use c p) = (case nexts p c of None \<Rightarrow> prevs p | Some r \<Rightarrow> (prevs p)(r := prevs p c))"
    and "useHead (unlink_use c p) = (if useHead p = Some c then nexts p c else useHead p)"
    and "useTail (unlink_use c p) = (if useTail p = Some c then prevs p c else useTail p)"
  using assms
  by (cases "prevs p c"; cases "nexts p c"; force simp: unlink_use_def Let_def chan_views)+

lemma dlist_neighbours:
  assumes "dlist nx pv h t (xs @ c # ys)"
  shows "nx c = (case ys of [] \<Rightarrow> None | y # _ \<Rightarrow> Some y)" and "pv c = (if xs = [] then None else Some (last xs))"
proof -
  have "path nx (nx c) ys None" "path pv (pv c) (rev xs) None"
    using assms by (auto simp: dlist_def path_append)
  then show "nx c = (case ys of [] \<Rightarrow> None | y # _ \<Rightarrow> Some y)" "pv c = (if xs = [] then None else Some (last xs))"
    using path_rev_start [of pv "pv c" xs] by (cases ys; auto)+
qed

lemma unlink_use_rep:
  assumes "lists_rep p fs (xs @ c # ys) hs"
  shows "lists_rep (unlink_use c p) fs (xs @ ys) (c # hs)"
proof -
  have rep: "dlist (nexts p) (prevs p) (freeHead p) (freeTail p) fs"
      "dlist (nexts p) (prevs p) (useHead p) (useTail p) (xs @ c # ys)" "distinct (fs @ (xs @ ys) @ c # hs)"
      "set (fs @ (xs @ ys) @ c # hs) = {..<created p}"
    using assms by (auto simp: lists_rep_def)
  note near = dlist_neighbours [OF rep(2)]
  have "prevs p c \<noteq> Some c" "nexts p c \<noteq> Some c"
    using near rep(3) by (auto split: list.splits if_splits)
  note views = unlink_use_views [OF this]
  have l: "l \<notin> set fs" if "prevs p c = Some l" for l
    using near(2) that rep(3) by (auto split: if_splits dest: last_in_set)
  have r: "r \<notin> set fs" if "nexts p c = Some r" for r
    using near(1) that rep(3) by (auto split: list.splits)
  have "dlist (nexts (unlink_use c p)) (prevs (unlink_use c p)) (freeHead p) (freeTail p) fs"
    using l r by (intro dlist_frame [OF rep(1)]) (auto simp: views(1,2) split: option.splits)
  moreover have "dlist (nexts (unlink_use c p)) (prevs (unlink_use c p)) (useHead (unlink_use c p)) (useTail (unlink_use c p)) (xs @ ys)"
    using dlist_remove [OF rep(2)] unfolding views .
  ultimately show ?thesis
    using rep(3,4) by (intro lists_repI) simp_all
qed

subsection \<open>The index\<close>

lemma index_lookup:
  assumes "index_rep p us"
  shows "map_of (useMap p) i = Some a \<longleftrightarrow> a \<in> set us \<and> ids p a = i"
proof -
  have "distinct (map fst (useMap p))"
    using assms by (simp add: index_rep_def smap_wf_def strict_sorted_iff)
  then have "map_of (useMap p) i = Some a \<longleftrightarrow> (i, a) \<in> set (useMap p)"
    by simp
  then show ?thesis
    using assms by (auto simp: index_rep_def)
qed

lemma smap_wf_erase: "smap_wf m \<Longrightarrow> smap_wf (smap_erase k m)"
  by (induction m) (auto simp: smap_wf_def smap_erase_def)

lemma index_erase:
  assumes "index_rep p (xs @ c # ys)" and "distinct (xs @ c # ys)"
  shows "smap_wf (smap_erase (ids p c) (useMap p))
    \<and> set (smap_erase (ids p c) (useMap p)) = (\<lambda>a. (ids p a, a)) ` set (xs @ ys)"
proof -
  have "ids p a \<noteq> ids p c" if "a \<in> set (xs @ ys)" for a
  proof
    assume "ids p a = ids p c"
    then have "map_of (useMap p) (ids p c) = Some a" "map_of (useMap p) (ids p c) = Some c"
      using index_lookup [OF assms(1)] that by auto
    then show False
      using that assms(2) by auto
  qed
  then show ?thesis
    using assms(1) smap_wf_erase by (auto simp: index_rep_def smap_erase_def)
qed

lemma index_insert:
  assumes "index_rep p us" and "c \<notin> set us" and "i \<notin> fst ` set (useMap p)"
    and "\<forall>a\<in>set us. ids q a = ids p a" and "ids q c = i" and "useMap q = smap_upd i c (useMap p)"
  shows "index_rep q (us @ [c])"
proof -
  have wf: "smap_wf (smap_upd i c (useMap p))"
    using assms(1) smap_wf_upd by (auto simp: index_rep_def)
  have "(j, b) \<in> set (smap_upd i c (useMap p)) \<longleftrightarrow> (j, b) = (i, c) \<or> (j, b) \<in> set (useMap p)" for j b
  proof -
    have "distinct (map fst (smap_upd i c (useMap p)))" "distinct (map fst (useMap p))"
      using wf assms(1) by (auto simp: index_rep_def smap_wf_def strict_sorted_iff)
    moreover have "map_of (smap_upd i c (useMap p)) j = Some b \<longleftrightarrow> (j, b) = (i, c) \<or> map_of (useMap p) j = Some b"
      using assms(3) by (auto simp: map_of_smap_upd map_of_eq_None_iff [symmetric])
    ultimately show ?thesis
      by simp
  qed
  then have "set (smap_upd i c (useMap p)) = insert (i, c) (set (useMap p))"
    by auto
  then show ?thesis
    using wf assms by (auto simp: index_rep_def)
qed

lemma index_keeps: "index_rep p us \<Longrightarrow> keeps p q us \<Longrightarrow> index_rep q us"
  by (auto simp: index_rep_def keeps_def)

subsection \<open>The operations\<close>

lemma alloc_lists:
  assumes "lists_rep p fs us hs" and "next_id (globalChannelId p) = (i, g)"
  shows "\<exists>c q fs'. allocChannel p = (c, q) \<and> lists_rep q fs' (us @ [c]) hs \<and> (\<forall>a\<in>set us. ids q a = ids p a)
           \<and> ids q c = i \<and> useMap q = smap_upd i c (useMap p) \<and> globalChannelId q = g"
proof -
  obtain c q1 fs' where q1: "take_free p = (c, q1)" "lists_rep q1 fs' us (c # hs)" "keeps p q1 us"
    using take_free_rep [OF assms(1)] by blast
  define q2 where "q2 = append_use c q1"
  note use = append_use_rep [OF q1(2), folded q2_def]
  define q3 where "q3 = (upd_chan c (\<lambda>ch. ch\<lparr>c_id := i, c_handler := None, c_args := None\<rparr>)
      (q2\<lparr>globalChannelId := g\<rparr>))\<lparr>useMap := smap_upd i c (useMap q2)\<rparr>"
  define q where "q = (if maxUseCount q3 < int (length (useMap q3)) then q3\<lparr>maxUseCount := int (length (useMap q3))\<rparr> else q3)"
  have glob: "globalChannelId q2 = globalChannelId p" "useMap q2 = useMap p"
    using use(3,4) q1(3) by (auto simp: keeps_def)
  have views: "nexts q = nexts q2" "prevs q = prevs q2" "ids q = (ids q2)(c := i)" "useMap q = smap_upd i c (useMap q2)"
      "globalChannelId q = g" "created q = created q2" "freeHead q = freeHead q2" "freeTail q = freeTail q2"
      "useHead q = useHead q2" "useTail q = useTail q2"
    by (auto simp: q_def q3_def chan_views)
  have "allocChannel p = (c, q)"
    unfolding allocChannel_def Let_def q1(1) case_prod_conv q2_def [symmetric] glob(1) assms(2)
    by (simp add: q_def q3_def Let_def)
  moreover have "lists_rep q fs' (us @ [c]) hs"
    using use(1) by (simp add: lists_rep_def views)
  moreover have "c \<notin> set us"
    using q1(2) by (auto simp: lists_rep_def)
  ultimately show ?thesis
    using views(3-5) glob use(2) q1(3) by (auto simp: keeps_def)
qed

lemma alloc_rep:
  assumes "pool_rep p fs us hs" and "fst (next_id (globalChannelId p)) \<notin> fst ` set (useMap p)"
  shows "\<exists>c q fs'. allocChannel p = (c, q) \<and> pool_rep q fs' (us @ [c]) hs \<and> c \<notin> set us
           \<and> ids q c = fst (next_id (globalChannelId p)) \<and> (\<forall>a\<in>set us. ids q a = ids p a)"
proof -
  obtain i g where ig: "next_id (globalChannelId p) = (i, g)"
    by (cases "next_id (globalChannelId p)")
  obtain c q fs' where q: "allocChannel p = (c, q)" "lists_rep q fs' (us @ [c]) hs" "\<forall>a\<in>set us. ids q a = ids p a"
      "ids q c = i" "useMap q = smap_upd i c (useMap p)"
    using alloc_lists [of p fs us hs i g] ig assms(1) unfolding pool_rep_def by blast
  have fresh: "c \<notin> set us"
    using q(2) by (auto simp: lists_rep_def)
  have "index_rep q (us @ [c])"
    using index_insert [OF _ fresh, of p i q] assms q(3-5) ig by (simp add: pool_rep_def)
  then show ?thesis
    using q ig fresh by (auto simp: pool_rep_def)
qed

lemma dlist_cut:
  assumes "dlist nx pv h t (xs @ y # ys)" and "xs \<noteq> []"
  shows "dlist (nx(last xs := None)) pv h (Some (last xs)) xs" and "dlist nx (pv(y := None)) (Some y) t (y # ys)"
proof -
  have dist: "distinct (xs @ y # ys)" and fwd: "path nx h xs (Some y)" "path nx (Some y) (y # ys) None"
    and bwd: "path pv t (rev ys @ [y]) (pv y)" "path pv (pv y) (rev xs) None"
    using assms by (auto simp: dlist_def path_append)
  obtain zs l where xs: "xs = zs @ [l]"
    using assms(2) by (cases xs rule: rev_cases) auto
  have "path (nx(l := None)) h (zs @ [l]) None"
    using fwd(1) dist xs by (intro path_redirect [of _ _ _ _ "Some y"]) auto
  then show "dlist (nx(last xs := None)) pv h (Some (last xs)) xs"
    using bwd(2) dist xs by (simp add: dlist_def)
  have "path (pv(y := None)) t (rev ys @ [y]) None"
    using bwd(1) dist by (intro path_redirect) auto
  then show "dlist nx (pv(y := None)) (Some y) t (y # ys)"
    using fwd(2) dist by (simp add: dlist_def)
qed

lemma offer_rep:
  assumes "pool_rep p fs us hs" and "map_of (useMap p) i = Some c"
  shows "\<exists>q xs ys. offerChannel i p = (Some c, q) \<and> us = xs @ c # ys \<and> pool_rep q fs (xs @ ys) (c # hs)
           \<and> ids q = ids p \<and> globalChannelId q = globalChannelId p"
proof -
  have lists: "lists_rep p fs us hs" and idx: "index_rep p us"
    using assms(1) by (auto simp: pool_rep_def)
  have c: "c \<in> set us" "ids p c = i"
    using index_lookup [OF idx] assms(2) by auto
  then obtain xs ys where us: "us = xs @ c # ys"
    by (auto simp: in_set_conv_decomp)
  define r where "r = p\<lparr>useMap := smap_erase i (useMap p)\<rparr>"
  define q where "q = upd_chan c (\<lambda>ch. ch\<lparr>c_prev := None, c_next := None\<rparr>) (unlink_use c r)"
  have "lists_rep r fs (xs @ c # ys) hs"
    using lists us by (simp add: lists_rep_def r_def)
  then have l: "lists_rep (unlink_use c r) fs (xs @ ys) (c # hs)"
    by (rule unlink_use_rep)
  then have "c \<notin> set fs" "c \<notin> set (xs @ ys)"
    by (auto simp: lists_rep_def)
  then have "lists_rep q fs (xs @ ys) (c # hs)"
    using l lists_rep_frame [of "unlink_use c r" fs "xs @ ys" "c # hs" q] by (simp add: q_def)
  moreover have same: "ids q = ids p" "globalChannelId q = globalChannelId p" "useMap q = smap_erase i (useMap p)"
    by (auto simp: q_def r_def chan_views fun_eq_iff)
  moreover have "distinct (xs @ c # ys)"
    using lists us unfolding lists_rep_def by (metis dlist_distinct)
  then have "index_rep q (xs @ ys)"
    using index_erase [of p xs c ys] idx us c(2) by (simp add: index_rep_def same)
  moreover have "offerChannel i p = (Some c, q)"
    using assms(2) by (simp add: offerChannel_def Let_def q_def r_def)
  ultimately show ?thesis
    using us unfolding pool_rep_def by blast
qed

lemma append_rep:
  assumes "pool_rep p fs us (c # hs)"
  shows "pool_rep (appendChannel c p) (fs @ [c]) us hs \<and> keeps p (appendChannel c p) us"
  using assms append_free_rep [of p fs us c hs] index_keeps
  by (auto simp: pool_rep_def appendChannel_def)

lemma free_rep:
  assumes "pool_rep p fs (xs @ c # ys) hs"
  shows "\<exists>q. freeChannel c p = (True, q) \<and> pool_rep q (fs @ [c]) (xs @ ys) hs
           \<and> (\<forall>a\<in>set (xs @ ys). ids q a = ids p a) \<and> globalChannelId q = globalChannelId p"
proof -
  have lists: "lists_rep p fs (xs @ c # ys) hs" and idx: "index_rep p (xs @ c # ys)"
    using assms by (auto simp: pool_rep_def)
  define r where "r = p\<lparr>useMap := smap_erase (ids p c) (useMap p)\<rparr>"
  have "lists_rep r fs (xs @ c # ys) hs"
    using lists by (simp add: lists_rep_def r_def)
  then have l: "lists_rep (unlink_use c r) fs (xs @ ys) (c # hs)"
    by (rule unlink_use_rep)
  have "distinct (xs @ c # ys)"
    using lists unfolding lists_rep_def by (metis dlist_distinct)
  then have i: "index_rep (unlink_use c r) (xs @ ys)"
    using index_erase [of p xs c ys] idx by (simp add: index_rep_def r_def)
  note freed = append_free_rep [OF l]
  have "freeChannel c p = (True, append_free c (unlink_use c r))"
    using index_lookup [OF idx, of "ids p c" c] by (simp add: freeChannel_def Let_def r_def chan_views)
  moreover have "pool_rep (append_free c (unlink_use c r)) (fs @ [c]) (xs @ ys) hs"
    using freed index_keeps [OF i] by (simp add: pool_rep_def)
  ultimately show ?thesis
    using freed(2) by (auto simp: keeps_def r_def)
qed

text \<open>The expired channels are those at the front of the used list up to the first that is still in time.\<close>

definition drop_ids :: "nat list \<Rightarrow> channel_pool \<Rightarrow> channel_pool" where
  "drop_ids as p = p\<lparr>useMap := fold (\<lambda>a. smap_erase (ids p a)) as (useMap p)\<rparr>"

lemma drop_ids_fields [simp]:
  "nexts (drop_ids as p) = nexts p" "prevs (drop_ids as p) = prevs p" "ids (drop_ids as p) = ids p"
  "freeHead (drop_ids as p) = freeHead p" "freeTail (drop_ids as p) = freeTail p" "useHead (drop_ids as p) = useHead p"
  "useTail (drop_ids as p) = useTail p" "created (drop_ids as p) = created p" "chan (drop_ids as p) = chan p"
  "globalChannelId (drop_ids as p) = globalChannelId p"
  by (simp_all add: drop_ids_def)

lemma drop_ids_Cons:
  "drop_ids (a # as) p = drop_ids as (p\<lparr>useMap := smap_erase (ids p a) (useMap p)\<rparr>)"
  by (simp add: drop_ids_def)

lemma drop_ids_index: "index_rep p (as @ us) \<Longrightarrow> distinct (as @ us) \<Longrightarrow> index_rep (drop_ids as p) us"
proof (induction as arbitrary: p)
  case Nil
  then show ?case
    by (simp add: drop_ids_def)
next
  case (Cons a as)
  let ?q = "p\<lparr>useMap := smap_erase (ids p a) (useMap p)\<rparr>"
  have "index_rep ?q (as @ us)"
    using index_erase [of p "[]" a "as @ us"] Cons.prems by (simp add: index_rep_def)
  then show ?case
    using Cons.IH [of ?q] Cons.prems(2) by (simp add: drop_ids_Cons)
qed

lemma expired_loop_returns:
  assumes "path (nexts p) c us None"
  shows "expired_loop now c p =
    Some (case dropWhile (\<lambda>a. expires p a < now) us of [] \<Rightarrow> None | a # _ \<Rightarrow> Some a,
          drop_ids (takeWhile (\<lambda>a. expires p a < now) us) p)"
  using assms
proof (induction us arbitrary: c p)
  case Nil
  then show ?case
    by (simp add: expired_loop.simps [of now None] drop_ids_def)
next
  case (Cons a us)
  then have c: "c = Some a" and rest: "path (nexts p) (nexts p a) us None"
    by auto
  let ?q = "p\<lparr>useMap := smap_erase (ids p a) (useMap p)\<rparr>"
  have "expires ?q = expires p"
    by (simp add: expires_def fun_eq_iff)
  then show ?case
    using Cons.IH [of ?q "nexts p a"] rest
    by (auto simp: c expired_loop.simps [of now "Some a"] chan_views drop_ids_Cons) (simp add: drop_ids_def)
qed

lemma timeout_rep:
  assumes "pool_rep p fs us hs"
  shows "\<exists>q l t. getTimeoutChannels now p = Some (l, q)
    \<and> pool_rep q fs (dropWhile (\<lambda>a. expires p a < now) us) (takeWhile (\<lambda>a. expires p a < now) us @ hs)
    \<and> dlist (nexts q) (prevs q) l t (takeWhile (\<lambda>a. expires p a < now) us) \<and> ids q = ids p
    \<and> globalChannelId q = globalChannelId p"
proof -
  define ds where "ds = takeWhile (\<lambda>a. expires p a < now) us"
  define rs where "rs = dropWhile (\<lambda>a. expires p a < now) us"
  have us: "us = ds @ rs"
    by (simp add: ds_def rs_def)
  have rep: "lists_rep p fs (ds @ rs) hs" and idx: "index_rep p (ds @ rs)"
    using assms us by (simp_all add: pool_rep_def)
  note dlists = rep [unfolded lists_rep_def, THEN conjunct1] rep [unfolded lists_rep_def, THEN conjunct2, THEN conjunct1]
  have "distinct (fs @ (ds @ rs) @ hs)" "set (fs @ (ds @ rs) @ hs) = {..<created p}"
    using rep unfolding lists_rep_def by blast+
  moreover have "distinct (fs @ rs @ ds @ hs) = distinct (fs @ (ds @ rs) @ hs)"
      "set (fs @ rs @ ds @ hs) = set (fs @ (ds @ rs) @ hs)"
    by auto
  ultimately have sets: "distinct (fs @ rs @ ds @ hs)" "set (fs @ rs @ ds @ hs) = {..<created p}"
    by metis+
  note lists = dlists sets
  have idx': "index_rep (drop_ids ds p) rs"
    using drop_ids_index [OF idx dlist_distinct [OF lists(2)]] .
  have loop: "expired_loop now (useHead p) p = Some (case rs of [] \<Rightarrow> None | a # _ \<Rightarrow> Some a, drop_ids ds p)"
    using expired_loop_returns [of p "useHead p" us now, folded ds_def rs_def] lists(2) unfolding us dlist_def by blast
  consider "ds = []" | "ds \<noteq> []" "rs = []" | y ys where "ds \<noteq> []" "rs = y # ys"
    by (cases rs) auto
  then have "\<exists>q l t. getTimeoutChannels now p = Some (l, q) \<and> pool_rep q fs rs (ds @ hs)
      \<and> dlist (nexts q) (prevs q) l t ds \<and> ids q = ids p \<and> globalChannelId q = globalChannelId p" (is ?goal)
  proof cases
    case 1
    have "getTimeoutChannels now p = Some (None, p)"
      using loop 1 dlist_head [OF lists(2)] by (simp add: getTimeoutChannels_def drop_ids_def split: list.splits)
    then show ?goal
      using rep idx 1 by (auto simp: pool_rep_def)
  next
    case 2
    let ?q = "(drop_ids ds p)\<lparr>useHead := None, useTail := None\<rparr>"
    have "getTimeoutChannels now p = Some (useHead p, ?q)"
      using loop 2 dlist_head [OF lists(2)] by (auto simp: getTimeoutChannels_def split: list.splits)
    moreover have "pool_rep ?q fs rs (ds @ hs)"
      using lists 2 idx' by (auto simp: pool_rep_def lists_rep_def index_rep_def)
    ultimately show ?goal
      using lists(2) 2 by (intro exI [of _ ?q] exI [of _ "useHead p"] exI [of _ "useTail p"]) simp
  next
    case 3
    let ?q = "(upd_chan y (c_prev_update (\<lambda>_. None))
        (upd_chan (last ds) (c_next_update (\<lambda>_. None)) (drop_ids ds p)))\<lparr>useHead := Some y\<rparr>"
    have prev: "prevs p y = Some (last ds)"
      using dlist_neighbours(2) [of "nexts p" "prevs p" "useHead p" "useTail p" ds y ys] lists(2) 3 by simp
    have head: "useHead p = Some (hd ds)" "hd ds \<noteq> y" "last ds \<noteq> y" "last ds \<notin> set rs" "last ds \<notin> set fs"
        "y \<notin> set fs" "y \<notin> set ds"
      using dlist_head [OF lists(2)] lists(3) 3 by (cases ds; auto dest: last_in_set)+
    have "getTimeoutChannels now p = Some (useHead p, ?q)"
      using loop 3 head(1,2) prev by (simp add: getTimeoutChannels_def Let_def chan_views)
    moreover have views: "nexts ?q = (nexts p)(last ds := None)" "prevs ?q = (prevs p)(y := None)" "ids ?q = ids p"
      using head(3) by (auto simp: fun_eq_iff view_defs)
    note cut = dlist_cut [of "nexts p" "prevs p" "useHead p" "useTail p" ds y ys]
    have "dlist (nexts ?q) (prevs ?q) (useHead p) (Some (last ds)) ds"
      by (rule dlist_frame [OF cut(1)]) (use lists(2) 3 head(3,7) in \<open>auto simp: chan_views\<close>)
    moreover have "dlist (nexts ?q) (prevs ?q) (Some y) (useTail p) rs"
      unfolding 3(2) by (rule dlist_frame [OF cut(2)]) (use lists(2) 3 head(3,4) in \<open>auto simp: chan_views\<close>)
    moreover have "dlist (nexts ?q) (prevs ?q) (freeHead p) (freeTail p) fs"
      by (rule dlist_frame [OF lists(1)]) (use head(5,6) in \<open>auto simp: chan_views\<close>)
    moreover have "index_rep ?q rs"
      using idx' views(3) by (simp add: index_rep_def)
    ultimately show ?goal
      using lists(3,4) views(3) by (intro exI [of _ ?q] exI [of _ "useHead p"] exI [of _ "Some (last ds)"])
        (simp add: pool_rep_def lists_rep_def)
  qed
  then show ?thesis
    by (simp only: ds_def rs_def)
qed

lemma clear_channel_views [simp]:
  "nexts (clear_channel a p) = nexts p" "prevs (clear_channel a p) = prevs p" "ids (clear_channel a p) = (ids p)(a := 0)"
  "useMap (clear_channel a p) = useMap p" "freeHead (clear_channel a p) = freeHead p" "freeTail (clear_channel a p) = freeTail p"
  "useHead (clear_channel a p) = useHead p" "useTail (clear_channel a p) = useTail p" "created (clear_channel a p) = created p"
  "globalChannelId (clear_channel a p) = globalChannelId p"
  by (simp_all add: clear_channel_def chan_views)

lemma clear_channels [simp]:
  "nexts (fold clear_channel as p) = nexts p" "prevs (fold clear_channel as p) = prevs p"
  "useMap (fold clear_channel as p) = useMap p" "freeHead (fold clear_channel as p) = freeHead p"
  "freeTail (fold clear_channel as p) = freeTail p" "useHead (fold clear_channel as p) = useHead p"
  "useTail (fold clear_channel as p) = useTail p" "created (fold clear_channel as p) = created p"
  "globalChannelId (fold clear_channel as p) = globalChannelId p"
  by (induction as arbitrary: p) simp_all

lemma clear_channels_ids: "b \<notin> set as \<Longrightarrow> ids (fold clear_channel as p) b = ids p b"
  by (induction as arbitrary: p) simp_all

lemma find_tail_returns:
  "path (nexts p) (nexts p a) as None \<Longrightarrow> find_tail a p = Some (last (a # as), fold clear_channel (a # as) p)"
proof (induction as arbitrary: a p)
  case Nil
  then show ?case
    by (simp add: find_tail.simps [of a] chan_views)
next
  case (Cons b as)
  then show ?case
    using Cons.IH [of "clear_channel a p" b] by (simp add: find_tail.simps [of a] chan_views)
qed

lemma append_list_rep:
  assumes "pool_rep p fs us (as @ hs)" and "dlist (nexts p) (prevs p) l t as"
  shows "\<exists>q. appendFreeList l p = Some q \<and> pool_rep q (fs @ as) us hs \<and> keeps p q us"
proof (cases as)
  case Nil
  then have "appendFreeList l p = Some p"
    using assms(2) by (simp add: appendFreeList_def)
  then show ?thesis
    using assms(1) Nil by (auto simp: keeps_def)
next
  case (Cons a bs)
  have l: "l = Some a" "path (nexts p) (nexts p a) bs None" "t = Some (last as)"
    using assms(2) Cons dlist_tail [OF assms(2)] by (auto simp: dlist_def)
  have rep: "dlist (nexts p) (prevs p) (freeHead p) (freeTail p) fs" "dlist (nexts p) (prevs p) (useHead p) (useTail p) us"
      "distinct (fs @ us @ as @ hs)" "set (fs @ us @ as @ hs) = {..<created p}" "index_rep p us"
    using assms(1) unfolding pool_rep_def lists_rep_def by blast+
  define r where "r = fold clear_channel as p"
  define q where "q = (case freeTail p of
        None \<Rightarrow> (upd_chan a (c_prev_update (\<lambda>_. freeTail p)) r)\<lparr>freeHead := Some a\<rparr>
      | Some e \<Rightarrow> upd_chan e (c_next_update (\<lambda>_. Some a)) (upd_chan a (c_prev_update (\<lambda>_. freeTail p)) r))\<lparr>freeTail := t\<rparr>"
  have r: "nexts r = nexts p" "prevs r = prevs p" "useMap r = useMap p" "\<forall>b\<in>set us. ids r b = ids p b"
      "freeHead r = freeHead p" "freeTail r = freeTail p" "useHead r = useHead p" "useTail r = useTail p" "created r = created p"
      "globalChannelId r = globalChannelId p"
    using rep(3) clear_channels_ids [of _ as p] by (auto simp: r_def)
  have "appendFreeList l p = Some q"
    unfolding appendFreeList_def l(1) option.case Let_def find_tail_returns [OF l(2)] Cons [symmetric] r_def [symmetric]
    by (simp add: q_def r(6) l(3) split: option.split)
  have e: "e \<in> set fs" "e \<noteq> a" "e \<notin> set us" if "freeTail p = Some e" for e
    using dlist_tail_mem [of "nexts p" "prevs p" "freeHead p" e fs] rep(1,3) that Cons by auto
  have views: "nexts q = (case freeTail p of None \<Rightarrow> nexts p | Some e \<Rightarrow> (nexts p)(e := Some a))"
      "prevs q = (prevs p)(a := freeTail p)" "ids q = ids r" "useMap q = useMap p" "useHead q = useHead p" "useTail q = useTail p"
      "created q = created p" "globalChannelId q = globalChannelId p"
      "freeHead q = (if freeTail p = None then Some a else freeHead p)" "freeTail q = t"
    using e(2) by (auto simp: q_def r chan_views split: option.splits)
  have "dlist (nexts q) (prevs q) (freeHead q) (freeTail q) (fs @ as)"
    unfolding views Cons using assms(2) l(1) Cons rep(3) by (intro dlist_join [OF rep(1)]) auto
  moreover have "dlist (nexts q) (prevs q) (useHead q) (useTail q) us"
    unfolding views by (rule dlist_frame [OF rep(2)]) (use e(3) rep(3) Cons in \<open>auto split: option.splits\<close>)
  ultimately have "lists_rep q (fs @ as) us hs"
    using rep(3,4) views(7) by (intro lists_repI) auto
  moreover have "keeps p q us"
    using r(4) by (simp add: keeps_def views)
  ultimately show ?thesis
    using \<open>appendFreeList l p = Some q\<close> index_keeps [OF rep(5)] by (auto simp: pool_rep_def)
qed

section \<open>Every use of the pool\<close>

text \<open>
  The connection takes a channel for a request it posts, gives the channel of an answer back after
  the handler has run, gives the channel of a dropped request back, sets when a sent request expires
  and collects the expired ones. The counter of the ids is shared by all pools of the process: the
  others advance it in between. A request is posted while its id is not that of a waiting request.
\<close>

inductive pool_step :: "channel_pool \<times> nat list \<Rightarrow> channel_pool \<times> nat list \<Rightarrow> bool" where
  post: "fst (next_id (globalChannelId p)) \<notin> fst ` set (useMap p) \<Longrightarrow> allocChannel p = (c, q) \<Longrightarrow>
    pool_step (p, hs) (q, hs)"
| answer: "offerChannel i p = (Some c, q) \<Longrightarrow> pool_step (p, hs) (q, c # hs)"
| handled: "pool_step (p, c # hs) (appendChannel c p, hs)"
| dropped: "freeChannel c p = (True, q) \<Longrightarrow> map_of (useMap p) (ids p c) = Some c \<Longrightarrow> pool_step (p, hs) (q, hs)"
| sent: "pool_step (p, hs) (setExpireTime c t p, hs)"
| timeouts: "getTimeoutChannels now p = Some (l, q) \<Longrightarrow> appendFreeList l q = Some r \<Longrightarrow> pool_step (p, hs) (r, hs)"
| other_pool: "pool_step (p, hs) (p\<lparr>globalChannelId := snd (next_id (globalChannelId p))\<rparr>, hs)"

lemma pool_rep_frame:
  assumes "pool_rep p fs us hs" and "nexts q = nexts p" "prevs q = prevs p" "ids q = ids p" "useMap q = useMap p"
    "freeHead q = freeHead p" "freeTail q = freeTail p" "useHead q = useHead p" "useTail q = useTail p" "created q = created p"
  shows "pool_rep q fs us hs"
  using assms by (simp add: pool_rep_def lists_rep_def index_rep_def)

lemma new_pool_rep: "pool_rep new_pool [] [] []"
  by (simp add: pool_rep_def lists_rep_def index_rep_def new_pool_def)

lemma pool_step_rep:
  assumes "pool_step s s'" and "\<exists>fs us. pool_rep (fst s) fs us (snd s)"
  shows "\<exists>fs us. pool_rep (fst s') fs us (snd s')"
  using assms
proof cases
  case (post p c q hs)
  then show ?thesis
    using assms(2) alloc_rep by fastforce
next
  case (answer i p c q hs)
  then have "map_of (useMap p) i = Some c"
    by (auto simp: offerChannel_def Let_def split: option.splits)
  then show ?thesis
    using assms(2) answer offer_rep by fastforce
next
  case (handled p c hs)
  then show ?thesis
    using assms(2) append_rep by fastforce
next
  case (dropped c p q hs)
  then obtain fs us where rep: "pool_rep p fs us hs"
    using assms(2) by auto
  then have "c \<in> set us"
    using index_lookup [of p us "ids p c" c] dropped by (auto simp: pool_rep_def)
  then obtain xs ys where "us = xs @ c # ys"
    by (auto simp: in_set_conv_decomp)
  then show ?thesis
    using free_rep [of p fs xs c ys hs] rep dropped by auto
next
  case (sent p hs c t)
  then obtain fs us where "pool_rep p fs us hs"
    using assms(2) by auto
  then have "pool_rep (setExpireTime c t p) fs us hs"
    by (rule pool_rep_frame) (simp_all add: setExpireTime_def chan_views split: option.split)
  then show ?thesis
    using sent by auto
next
  case (timeouts now p l q r hs)
  then obtain fs us where rep: "pool_rep p fs us hs"
    using assms(2) by auto
  then show ?thesis
    using timeout_rep [OF rep, of now] append_list_rep timeouts by fastforce
next
  case (other_pool p hs)
  then obtain fs us where "pool_rep p fs us hs"
    using assms(2) by auto
  then have "pool_rep (p\<lparr>globalChannelId := snd (next_id (globalChannelId p))\<rparr>) fs us hs"
    by (rule pool_rep_frame) simp_all
  then show ?thesis
    using other_pool by auto
qed

lemma pool_steps_rep: "pool_step\<^sup>*\<^sup>* (new_pool, []) s \<Longrightarrow> \<exists>fs us. pool_rep (fst s) fs us (snd s)"
proof (induction rule: rtranclp_induct)
  case base
  then show ?case
    using new_pool_rep by auto
next
  case (step s s')
  then show ?case
    using pool_step_rep by blast
qed

lemma one_posted: "pool_step\<^sup>*\<^sup>* (new_pool, []) (snd (allocChannel new_pool), [])"
  using post [of new_pool "fst (allocChannel new_pool)" "snd (allocChannel new_pool)" "[]"]
  by (simp add: new_pool_def r_into_rtranclp)

subsection \<open>The ids\<close>

lemma masked_id:
  fixes g :: "32 word"
  assumes "unat g < 2 ^ 28"
  shows "unat ((g + 1) AND 0x0FFFFFFF) = (if unat g = 2 ^ 28 - 1 then 0 else unat g + 1)"
proof -
  have "unat (g + 1) = unat g + 1"
    using assms by (simp add: unat_word_ariths)
  moreover have "(g + 1) AND 0x0FFFFFFF = take_bit 28 (g + 1)"
    by (simp add: take_bit_eq_mask mask_eq_exp_minus_1)
  ultimately have "unat ((g + 1) AND 0x0FFFFFFF) = (unat g + 1) mod 2 ^ 28"
    by (simp only: unsigned_take_bit_eq take_bit_eq_mod [of 28 "unat g + 1"])
  then show ?thesis
    using assms by (auto simp: mod_if)
qed

lemma next_id_cycle:
  assumes "0 < unat g" and "unat g < 2 ^ 28"
  shows "unat (snd (next_id g)) = unat g mod (2 ^ 28 - 1) + 1" and "fst (next_id g) = snd (next_id g)"
proof -
  have plus: "unat (g + 1) = unat g + 1"
    using assms(2) by (simp add: unat_word_ariths)
  have *: "(g + 1) AND 0x0FFFFFFF = (if unat g = 2 ^ 28 - 1 then 0 else g + 1)"
    using masked_id [OF assms(2)] plus by (intro word_unat_eq_iff [THEN iffD2]) simp
  have pos: "g + 1 \<noteq> 0"
    using plus by (metis add_is_0 unat_0 zero_neq_one)
  have "next_id g = (if unat g = 2 ^ 28 - 1 then (1, 1) else (g + 1, g + 1))"
    using pos unfolding next_id_def Let_def * by simp
  then show "unat (snd (next_id g)) = unat g mod (2 ^ 28 - 1) + 1" "fst (next_id g) = snd (next_id g)"
    using plus assms by simp_all
qed

lemma ids_run: "unat (((snd \<circ> next_id) ^^ n) 1) = n mod (2 ^ 28 - 1) + 1"
proof (induction n)
  case (Suc n)
  let ?g = "((snd \<circ> next_id) ^^ n) 1"
  have "n mod (2 ^ 28 - 1) < 2 ^ 28 - 1"
    by simp
  then have "unat (snd (next_id ?g)) = unat ?g mod (2 ^ 28 - 1) + 1"
    using Suc by (intro next_id_cycle(1)) linarith+
  then show ?case
    using Suc by (simp add: mod_Suc_eq comp_def)
qed simp

text \<open>
  C11. Whatever a connection does with its pool, as long as it posts no request while the next id is still
  in use by one that waits, the free and the used list stay intact and no
  channel is lost or in two places: each one ever created is free, in use or held by the caller. An
  answer finds the channel whose id it carries if that one waits, and no channel otherwise.
\<close>

theorem channels_accounted:
  assumes "pool_step\<^sup>*\<^sup>* (new_pool, []) (p, hs)"
  shows "\<exists>fs us. dlist (nexts p) (prevs p) (freeHead p) (freeTail p) fs
    \<and> dlist (nexts p) (prevs p) (useHead p) (useTail p) us
    \<and> distinct (fs @ us @ hs) \<and> set (fs @ us @ hs) = {..<created p}
    \<and> (\<forall>c\<in>set us. fst (offerChannel (ids p c) p) = Some c)
    \<and> (\<forall>i. i \<notin> ids p ` set us \<longrightarrow> offerChannel i p = (None, p))"
proof -
  obtain fs us where rep: "pool_rep p fs us hs"
    using pool_steps_rep [OF assms] by auto
  have look: "map_of (useMap p) i = Some a \<longleftrightarrow> a \<in> set us \<and> ids p a = i" for i a
    using index_lookup rep by (auto simp: pool_rep_def)
  have "fst (offerChannel (ids p c) p) = Some c" if "c \<in> set us" for c
    using look [of "ids p c" c] that by (simp add: offerChannel_def Let_def)
  moreover have "offerChannel i p = (None, p)" if "i \<notin> ids p ` set us" for i
  proof -
    have "map_of (useMap p) i = None"
      using look that by (metis image_eqI not_Some_eq)
    then show ?thesis
      by (simp add: offerChannel_def)
  qed
  ultimately show ?thesis
    using rep unfolding pool_rep_def lists_rep_def by blast
qed

theorem channels_accounted_witness:
  "\<exists>fs us. dlist (nexts (snd (allocChannel new_pool))) (prevs (snd (allocChannel new_pool)))
      (freeHead (snd (allocChannel new_pool))) (freeTail (snd (allocChannel new_pool))) fs
    \<and> dlist (nexts (snd (allocChannel new_pool))) (prevs (snd (allocChannel new_pool)))
      (useHead (snd (allocChannel new_pool))) (useTail (snd (allocChannel new_pool))) us
    \<and> distinct (fs @ us) \<and> set (fs @ us) = {..<created (snd (allocChannel new_pool))}"
  using channels_accounted [OF one_posted] by auto

text \<open>
  C28. The ids run round: request number \<open>n\<close> of the process, counted from 0, gets the id
  \<open>(n + 1) mod (2 ^ 28 - 1) + 1\<close>. So an id is never 0, fits the 28 bits that the header keeps for it,
  and comes back only after \<open>2 ^ 28 - 1\<close> requests.
\<close>

theorem channel_ids_run_round:
  "unat (fst (next_id (((snd \<circ> next_id) ^^ n) (globalChannelId new_pool)))) = (n + 1) mod (2 ^ 28 - 1) + 1"
proof -
  let ?g = "((snd \<circ> next_id) ^^ n) (globalChannelId new_pool)"
  have g: "unat ?g = n mod (2 ^ 28 - 1) + 1"
    using ids_run [of n] by (simp add: new_pool_def)
  moreover have "n mod (2 ^ 28 - 1) < 2 ^ 28 - 1"
    by simp
  ultimately have "0 < unat ?g" "unat ?g < 2 ^ 28"
    by linarith+
  from next_id_cycle [OF this] show ?thesis
    using g by (simp add: mod_Suc_eq)
qed

text \<open>
  C18. Collecting the expired requests always ends. It takes the channels from the front of the used
  list up to the first that has not expired, and all of them come back at the end of the free list
  in that order, findable by no id; the requests behind keep waiting in their order.
\<close>

theorem timeouts_are_recycled:
  assumes "pool_step\<^sup>*\<^sup>* (new_pool, []) (p, hs)"
  shows "\<exists>fs us l q r. lists_rep p fs us hs \<and> getTimeoutChannels now p = Some (l, q) \<and> appendFreeList l q = Some r
    \<and> lists_rep r (fs @ takeWhile (\<lambda>a. expires p a < now) us) (dropWhile (\<lambda>a. expires p a < now) us) hs
    \<and> (\<forall>c\<in>set (dropWhile (\<lambda>a. expires p a < now) us). fst (offerChannel (ids p c) r) = Some c)
    \<and> (\<forall>c\<in>set (takeWhile (\<lambda>a. expires p a < now) us). \<forall>i. fst (offerChannel i r) \<noteq> Some c)"
proof -
  let ?ds = "takeWhile (\<lambda>a. expires p a < now)" and ?rs = "dropWhile (\<lambda>a. expires p a < now)"
  obtain fs us where rep: "pool_rep p fs us hs"
    using pool_steps_rep [OF assms] by auto
  obtain q l t where q: "getTimeoutChannels now p = Some (l, q)" "pool_rep q fs (?rs us) (?ds us @ hs)"
      "dlist (nexts q) (prevs q) l t (?ds us)" "ids q = ids p"
    using timeout_rep [OF rep, of now] by blast
  obtain r where r: "appendFreeList l q = Some r" "pool_rep r (fs @ ?ds us) (?rs us) hs" "keeps q r (?rs us)"
    using append_list_rep [OF q(2,3)] by blast
  have look: "map_of (useMap r) i = Some a \<longleftrightarrow> a \<in> set (?rs us) \<and> ids r a = i" for i a
    using index_lookup r(2) by (auto simp: pool_rep_def)
  have offer: "fst (offerChannel i r) = map_of (useMap r) i" for i
    by (simp add: offerChannel_def Let_def split: option.split)
  have "fst (offerChannel (ids p c) r) = Some c" if "c \<in> set (?rs us)" for c
    using look that r(3) q(4) by (simp add: offer keeps_def)
  moreover have "fst (offerChannel i r) \<noteq> Some c" if "c \<in> set (?ds us)" for c i
  proof -
    have "distinct (?ds us @ ?rs us)"
      using rep unfolding pool_rep_def lists_rep_def takeWhile_dropWhile_id by (metis dlist_distinct)
    then have "set (?ds us) \<inter> set (?rs us) = {}"
      unfolding distinct_append by blast
    then show ?thesis
      using that look unfolding offer by blast
  qed
  ultimately show ?thesis
    using rep q(1) r(1,2) unfolding pool_rep_def by blast
qed

theorem timeouts_are_recycled_witness:
  "\<exists>fs us l q r. getTimeoutChannels (2 ^ 62 + 2) (snd (allocChannel new_pool)) = Some (l, q) \<and> appendFreeList l q = Some r
    \<and> lists_rep r (fs @ takeWhile (\<lambda>a. expires (snd (allocChannel new_pool)) a < 2 ^ 62 + 2) us)
         (dropWhile (\<lambda>a. expires (snd (allocChannel new_pool)) a < 2 ^ 62 + 2) us) []"
  using timeouts_are_recycled [OF one_posted, of "2 ^ 62 + 2"] by blast

text \<open>
  C40. The allocation does not look whether the id it is about to give is still in use. When it is,
  the waiting request loses its entry: it stays in the used list, but no answer finds its channel.
\<close>

theorem reused_id_hides_request:
  assumes "pool_step\<^sup>*\<^sup>* (new_pool, []) (p, hs)" and "map_of (useMap p) (fst (next_id (globalChannelId p))) = Some c"
  shows "\<exists>d q fs us. allocChannel p = (d, q) \<and> lists_rep q fs us hs \<and> c \<in> set us \<and> d \<noteq> c
    \<and> ids q c = ids q d \<and> fst (offerChannel (ids q c) q) = Some d \<and> (\<forall>i. fst (offerChannel i q) \<noteq> Some c)"
proof -
  obtain i g where ig: "next_id (globalChannelId p) = (i, g)"
    by (cases "next_id (globalChannelId p)")
  obtain fs us where rep: "pool_rep p fs us hs"
    using pool_steps_rep [OF assms(1)] by auto
  have look: "map_of (useMap p) j = Some a \<longleftrightarrow> a \<in> set us \<and> ids p a = j" for j a
    using index_lookup rep by (auto simp: pool_rep_def)
  then have c: "c \<in> set us" "ids p c = i"
    using assms(2) ig by auto
  obtain d q fs' where q: "allocChannel p = (d, q)" "lists_rep q fs' (us @ [d]) hs" "\<forall>a\<in>set us. ids q a = ids p a"
      "ids q d = i" "useMap q = smap_upd i d (useMap p)"
    using alloc_lists [of p fs us hs i g] ig rep unfolding pool_rep_def by blast
  have d: "d \<noteq> c"
    using q(2) c(1) by (auto simp: lists_rep_def)
  have offer: "fst (offerChannel j q) = (if j = i then Some d else map_of (useMap p) j)" for j
    by (simp add: offerChannel_def Let_def q(5) map_of_smap_upd split: option.split)
  have "fst (offerChannel j q) \<noteq> Some c" for j
    using d look [of j c] c(2) by (simp add: offer)
  moreover have "ids q c = i"
    using q(3) c by simp
  ultimately show ?thesis
    using q(1,2,4) d c offer by (intro exI [of _ d] exI [of _ q] exI [of _ fs'] exI [of _ "us @ [d]"]) simp
qed

lemma other_pools: "pool_step\<^sup>*\<^sup>* (p, hs) (p\<lparr>globalChannelId := ((snd \<circ> next_id) ^^ n) (globalChannelId p)\<rparr>, hs)"
proof (induction n)
  case (Suc n)
  then show ?case
    using other_pool [of "p\<lparr>globalChannelId := ((snd \<circ> next_id) ^^ n) (globalChannelId p)\<rparr>" hs]
    by (simp add: rtranclp.rtrancl_into_rtrancl comp_def)
qed simp

lemma ids_come_back: "\<exists>n. ((snd \<circ> next_id) ^^ n) 2 = 1"
proof -
  define m :: nat where "m = 2 ^ 28 - 2"
  have "Suc m = 2 ^ 28 - 1"
    by (simp add: m_def)
  then have "unat (((snd \<circ> next_id) ^^ Suc m) 1) = 1"
    using ids_run [of "Suc m"] by simp
  then have "((snd \<circ> next_id) ^^ Suc m) 1 = 1"
    by (metis unat_1 word_unat_eq_iff)
  moreover have "(snd \<circ> next_id) 1 = 2"
    by (simp add: next_id_def)
  ultimately show ?thesis
    unfolding funpow_Suc_right comp_apply by metis
qed

theorem reused_id_hides_request_witness:
  "\<exists>p d q fs us. map_of (useMap p) 2 = Some 0 \<and> allocChannel p = (d, q) \<and> lists_rep q fs us [] \<and> 0 \<in> set us \<and> d \<noteq> 0
    \<and> (\<forall>i. fst (offerChannel i q) \<noteq> Some 0)"
proof -
  let ?p = "(snd (allocChannel new_pool))\<lparr>globalChannelId := 1\<rparr>"
  have first: "useMap (snd (allocChannel new_pool)) = [(2, 0)]" "globalChannelId (snd (allocChannel new_pool)) = 2"
    by code_simp+
  have "pool_step\<^sup>*\<^sup>* (new_pool, []) (?p, [])"
    using ids_come_back other_pools [of "snd (allocChannel new_pool)" "[]"] rtranclp_trans [OF one_posted]
    unfolding first(2) by metis
  moreover have "map_of (useMap ?p) (fst (next_id (globalChannelId ?p))) = Some 0"
    using first(1) by (simp add: next_id_def)
  ultimately have "\<exists>d q fs us. allocChannel ?p = (d, q) \<and> lists_rep q fs us [] \<and> 0 \<in> set us \<and> d \<noteq> 0
      \<and> ids q 0 = ids q d \<and> fst (offerChannel (ids q 0) q) = Some d \<and> (\<forall>i. fst (offerChannel i q) \<noteq> Some 0)"
    by (rule reused_id_hides_request)
  moreover have "map_of (useMap ?p) 2 = Some 0"
    using first(1) by simp
  ultimately show ?thesis
    by blast
qed

end
