(* ===== verification/Mem_Pool.thy ===== *)
theory Mem_Pool
  imports Prelude "HOL-Library.Monad_Syntax" "HOL-Library.Word"
begin

unbundle bit_operations_syntax

text \<open>
  The pool of pages of the memory storage engine (\<open>storage/mdb/mem_pool.cpp\<close>): a bitmap says which
  pages of the shared memory are in use, the first pages hold the meta data of the engine. Addresses
  are offsets from the start of the pool. \<open>None\<close> is a failed assertion or an access outside the bitmap.
\<close>

section \<open>Model\<close>

definition MAX_PAGES_NO :: nat where
  "MAX_PAGES_NO = 65536"

definition BITMAP_SIZE :: nat where
  "BITMAP_SIZE = (MAX_PAGES_NO + 7) div 8"

record mem_pool =
  mp_inited :: int
  mp_page_size :: nat
  mp_total_pages :: nat
  mp_free_pages :: nat
  mp_current_page :: nat
  mp_page_bitmap :: "nat \<Rightarrow> 8 word"

definition TEST_BIT :: "(nat \<Rightarrow> 8 word) \<Rightarrow> nat \<Rightarrow> bool" where
  "TEST_BIT bitmap x \<longleftrightarrow> drop_bit (x mod 8) (bitmap (x div 8)) AND 1 \<noteq> 0"

definition SET_BIT :: "(nat \<Rightarrow> 8 word) \<Rightarrow> nat \<Rightarrow> nat \<Rightarrow> 8 word" where
  "SET_BIT bitmap x = bitmap(x div 8 := bitmap (x div 8) OR push_bit (x mod 8) 1)"

definition CLEAR_BIT :: "(nat \<Rightarrow> 8 word) \<Rightarrow> nat \<Rightarrow> nat \<Rightarrow> 8 word" where
  "CLEAR_BIT bitmap x = bitmap(x div 8 := bitmap (x div 8) AND NOT (push_bit (x mod 8) 1))"

text \<open>A pool found in shared memory is kept as it is; a new one has its meta pages marked.\<close>

definition initialize_pool :: "nat \<Rightarrow> nat \<Rightarrow> nat \<Rightarrow> mem_pool \<Rightarrow> mem_pool option" where
  "initialize_pool this_page_size this_total_pages meta_len p =
     (if this_page_size < 2 ^ 20 \<or> this_total_pages = 0 then None
      else if mp_inited p = 1 then Some p
      else
        let meta_pages = (meta_len + this_page_size - 1) div this_page_size
        in if meta_pages > MAX_PAGES_NO \<or> this_total_pages \<le> meta_pages then None
           else Some \<lparr>mp_inited = 1, mp_page_size = this_page_size, mp_total_pages = this_total_pages,
                      mp_free_pages = this_total_pages - meta_pages, mp_current_page = meta_pages,
                      mp_page_bitmap = fold (\<lambda>i bm. SET_BIT bm i) [0..<meta_pages] (\<lambda>_. 0)\<rparr>)"

definition index_to_page :: "mem_pool \<Rightarrow> nat \<Rightarrow> nat option" where
  "index_to_page p index = (if 0 < index \<and> index < mp_total_pages p then Some (index * mp_page_size p) else None)"

definition page_to_index :: "mem_pool \<Rightarrow> nat \<Rightarrow> nat" where
  "page_to_index p page = page div mp_page_size p"

text \<open>The endless loop over the bitmap, from the page after the last one found.\<close>

partial_function (option) find_free_page :: "(nat \<Rightarrow> 8 word) \<Rightarrow> nat \<Rightarrow> nat \<Rightarrow> nat option" where
  "find_free_page bitmap total_pages current_page =
     (let current_page = (if current_page = total_pages then 0 else current_page)
      in if current_page div 8 \<ge> BITMAP_SIZE then None
         else if \<not> TEST_BIT bitmap current_page then Some current_page
         else find_free_page bitmap total_pages (current_page + 1))"

declare find_free_page.simps [code]

definition alloc_page :: "mem_pool \<Rightarrow> (nat option \<times> mem_pool) option" where
  "alloc_page p =
     (if mp_inited p \<noteq> 1 then None
      else if mp_free_pages p = 0 then Some (None, p)
      else do {
        index \<leftarrow> find_free_page (mp_page_bitmap p) (mp_total_pages p) (mp_current_page p);
        let p = p\<lparr>mp_current_page := index + 1, mp_free_pages := mp_free_pages p - 1,
                  mp_page_bitmap := SET_BIT (mp_page_bitmap p) index\<rparr>;
        page \<leftarrow> index_to_page p index;
        Some (Some index, p) })"

definition free_page :: "nat \<Rightarrow> mem_pool \<Rightarrow> mem_pool option" where
  "free_page index p =
     (if \<not> (0 < index \<and> index < mp_total_pages p) \<or> index div 8 \<ge> BITMAP_SIZE then None
      else if \<not> TEST_BIT (mp_page_bitmap p) index then Some p
      else Some (p\<lparr>mp_page_bitmap := CLEAR_BIT (mp_page_bitmap p) index, mp_free_pages := mp_free_pages p + 1\<rparr>))"

definition free_page_at :: "nat \<Rightarrow> mem_pool \<Rightarrow> mem_pool option" where
  "free_page_at page p = free_page (page_to_index p page) p"

section \<open>The pool as a set of pages\<close>

definition pages_in_use :: "mem_pool \<Rightarrow> nat set" where
  "pages_in_use p = {i. i < mp_total_pages p \<and> TEST_BIT (mp_page_bitmap p) i}"

text \<open>Page 0 holds meta data, and the number of free pages is that of the clear bits.\<close>

definition mem_pool_wf :: "mem_pool \<Rightarrow> bool" where
  "mem_pool_wf p \<longleftrightarrow> mp_inited p = 1 \<and> 2 ^ 20 \<le> mp_page_size p \<and> mp_total_pages p \<le> MAX_PAGES_NO
     \<and> mp_current_page p \<le> mp_total_pages p
     \<and> 0 \<in> pages_in_use p \<and> mp_free_pages p + card (pages_in_use p) = mp_total_pages p"

lemma TEST_BIT_iff: "TEST_BIT bm x \<longleftrightarrow> bit (bm (x div 8)) (x mod 8)"
proof -
  have "TEST_BIT bm x \<longleftrightarrow> odd (drop_bit (x mod 8) (bm (x div 8)))"
    by (simp add: TEST_BIT_def and_one_eq odd_iff_mod_2_eq_one)
  then show ?thesis
    by (simp add: bit_iff_odd_drop_bit)
qed

lemma same_bit: "y = x \<longleftrightarrow> y div 8 = x div 8 \<and> y mod 8 = x mod (8::nat)"
  by (metis div_mult_mod_eq)

lemma bit_of_byte: "bit (push_bit (x mod 8) 1 :: 8 word) (y mod 8) \<longleftrightarrow> y mod 8 = x mod 8" for x y :: nat
proof -
  have "y mod 8 < 8"
    by simp
  then show ?thesis
    by (auto simp: bit_exp_iff)
qed

lemma TEST_SET_BIT [simp]: "TEST_BIT (SET_BIT bm x) y \<longleftrightarrow> y = x \<or> TEST_BIT bm y"
  unfolding TEST_BIT_iff SET_BIT_def same_bit [of y x]
  by (cases "y div 8 = x div 8") (simp_all add: bit_or_iff bit_of_byte del: push_bit_of_1, blast)

lemma TEST_CLEAR_BIT [simp]: "TEST_BIT (CLEAR_BIT bm x) y \<longleftrightarrow> y \<noteq> x \<and> TEST_BIT bm y"
  unfolding TEST_BIT_iff CLEAR_BIT_def same_bit [of y x]
  by (cases "y div 8 = x div 8") (simp_all add: bit_and_iff bit_not_iff bit_of_byte del: push_bit_of_1, blast)

lemma find_free_page_ahead:
  assumes "cur \<le> i" "i < tot" "tot \<le> MAX_PAGES_NO" "\<not> TEST_BIT bm i"
  shows "\<exists>j. find_free_page bm tot cur = Some j \<and> j < tot \<and> \<not> TEST_BIT bm j"
  using assms(1)
proof (induction "i - cur" arbitrary: cur)
  case 0
  then have "cur = i"
    using assms by simp
  then show ?case
    using assms by (subst find_free_page.simps) (auto simp: BITMAP_SIZE_def MAX_PAGES_NO_def)
next
  case (Suc n)
  then have cur: "cur < tot" "\<not> cur div 8 \<ge> BITMAP_SIZE"
    using assms by (auto simp: BITMAP_SIZE_def MAX_PAGES_NO_def)
  show ?case
  proof (cases "TEST_BIT bm cur")
    case True
    then have "find_free_page bm tot cur = find_free_page bm tot (cur + 1)"
      using cur by (subst find_free_page.simps) simp
    then show ?thesis
      using Suc.hyps(1) [of "cur + 1"] Suc.hyps(2) by simp
  next
    case False
    then show ?thesis
      using cur by (subst find_free_page.simps) simp
  qed
qed

lemma find_free_page_wraps:
  assumes "cur \<le> tot" "0 < tot" "tot \<le> MAX_PAGES_NO" "\<forall>i. cur \<le> i \<and> i < tot \<longrightarrow> TEST_BIT bm i"
  shows "find_free_page bm tot cur = find_free_page bm tot 0"
  using assms(1,4)
proof (induction "tot - cur" arbitrary: cur)
  case 0
  then show ?case
    using assms(2) by (subst (1 2) find_free_page.simps) simp
next
  case (Suc n)
  then have "cur < tot" "\<not> cur div 8 \<ge> BITMAP_SIZE" "TEST_BIT bm cur"
    using assms(3) by (auto simp: BITMAP_SIZE_def MAX_PAGES_NO_def)
  then have "find_free_page bm tot cur = find_free_page bm tot (cur + 1)"
    by (subst find_free_page.simps) simp
  then show ?case
    using Suc by simp
qed

lemma find_free_page_finds:
  assumes "cur \<le> tot" "i < tot" "tot \<le> MAX_PAGES_NO" "\<not> TEST_BIT bm i"
  shows "\<exists>j. find_free_page bm tot cur = Some j \<and> j < tot \<and> \<not> TEST_BIT bm j"
proof (cases "\<exists>i. cur \<le> i \<and> i < tot \<and> \<not> TEST_BIT bm i")
  case True
  then show ?thesis
    using find_free_page_ahead assms(3) by blast
next
  case False
  then have "find_free_page bm tot cur = find_free_page bm tot 0"
    using assms by (intro find_free_page_wraps) auto
  then show ?thesis
    using find_free_page_ahead [of 0 i tot bm] assms by simp
qed

lemma finite_pages [simp]: "finite (pages_in_use p)"
  by (simp add: pages_in_use_def)

lemma free_page_exists:
  assumes "mem_pool_wf p" and "mp_free_pages p \<noteq> 0"
  shows "\<exists>i<mp_total_pages p. \<not> TEST_BIT (mp_page_bitmap p) i"
proof (rule ccontr)
  assume "\<not> ?thesis"
  then have "pages_in_use p = {..<mp_total_pages p}"
    by (auto simp: pages_in_use_def)
  then show False
    using assms by (simp add: mem_pool_wf_def)
qed

lemma alloc_page_wf:
  assumes "mem_pool_wf p" and "mp_free_pages p \<noteq> 0"
  shows "\<exists>i q. alloc_page p = Some (Some i, q) \<and> 0 < i \<and> i < mp_total_pages p \<and> i \<notin> pages_in_use p
    \<and> pages_in_use q = insert i (pages_in_use p) \<and> mem_pool_wf q
    \<and> mp_total_pages q = mp_total_pages p \<and> mp_page_size q = mp_page_size p
    \<and> mp_free_pages q = mp_free_pages p - 1"
proof -
  obtain i where i: "find_free_page (mp_page_bitmap p) (mp_total_pages p) (mp_current_page p) = Some i"
      "i < mp_total_pages p" "\<not> TEST_BIT (mp_page_bitmap p) i"
    using free_page_exists [OF assms] find_free_page_finds assms(1) unfolding mem_pool_wf_def by blast
  define q where "q = p\<lparr>mp_current_page := i + 1, mp_free_pages := mp_free_pages p - 1,
      mp_page_bitmap := SET_BIT (mp_page_bitmap p) i\<rparr>"
  have pos: "0 < i"
    using assms(1) i(3) by (cases i) (auto simp: mem_pool_wf_def pages_in_use_def)
  have use: "pages_in_use q = insert i (pages_in_use p)" "i \<notin> pages_in_use p"
    using i by (auto simp: pages_in_use_def q_def)
  then have "mem_pool_wf q"
    using assms i(2) by (auto simp: mem_pool_wf_def q_def)
  moreover have "alloc_page p = Some (Some i, q)"
    using assms i pos by (simp add: alloc_page_def Let_def mem_pool_wf_def index_to_page_def q_def)
  ultimately show ?thesis
    using i(2) pos use by (simp add: q_def)
qed

lemma free_page_wf:
  assumes "mem_pool_wf p" and "0 < i" and "i < mp_total_pages p"
  shows "\<exists>q. free_page i p = Some q \<and> pages_in_use q = pages_in_use p - {i} \<and> mem_pool_wf q
    \<and> mp_total_pages q = mp_total_pages p \<and> mp_page_size q = mp_page_size p
    \<and> mp_free_pages q = (if i \<in> pages_in_use p then mp_free_pages p + 1 else mp_free_pages p)"
proof -
  have range: "\<not> i div 8 \<ge> BITMAP_SIZE"
    using assms by (auto simp: mem_pool_wf_def BITMAP_SIZE_def MAX_PAGES_NO_def)
  show ?thesis
  proof (cases "i \<in> pages_in_use p")
    case True
    define q where "q = p\<lparr>mp_page_bitmap := CLEAR_BIT (mp_page_bitmap p) i, mp_free_pages := mp_free_pages p + 1\<rparr>"
    have use: "pages_in_use q = pages_in_use p - {i}"
      by (auto simp: pages_in_use_def q_def)
    have "card (pages_in_use p) = Suc (card (pages_in_use q))"
      using card_Suc_Diff1 [of "pages_in_use p" i] True use by simp
    then have "mem_pool_wf q"
      using assms use by (auto simp: mem_pool_wf_def q_def)
    moreover have "free_page i p = Some q"
      using assms range True by (simp add: free_page_def q_def pages_in_use_def)
    ultimately show ?thesis
      using use True by (simp add: q_def)
  next
    case False
    then have "free_page i p = Some p"
      using assms range by (simp add: free_page_def pages_in_use_def)
    then show ?thesis
      using False assms by simp
  qed
qed

lemma TEST_BIT_fold: "TEST_BIT (fold (\<lambda>i bm. SET_BIT bm i) xs bm) y \<longleftrightarrow> y \<in> set xs \<or> TEST_BIT bm y"
  by (induction xs arbitrary: bm) auto

lemma TEST_BIT_zero [simp]: "\<not> TEST_BIT (\<lambda>_. 0) y"
  by (simp add: TEST_BIT_iff)

lemma initialize_pool_wf:
  assumes "initialize_pool ps n meta_len p = Some q" and "mp_inited p \<noteq> 1" and "0 < meta_len" and "n \<le> MAX_PAGES_NO"
  shows "mem_pool_wf q \<and> pages_in_use q = {..<(meta_len + ps - 1) div ps} \<and> mp_total_pages q = n \<and> mp_page_size q = ps"
proof -
  let ?m = "(meta_len + ps - 1) div ps"
  have ps: "2 ^ 20 \<le> ps" "?m < n" and q: "mp_total_pages q = n" "mp_page_size q = ps" "mp_inited q = 1"
      "mp_free_pages q = n - ?m" "mp_current_page q = ?m" "mp_page_bitmap q = fold (\<lambda>i bm. SET_BIT bm i) [0..<?m] (\<lambda>_. 0)"
    using assms(1,2) by (auto simp: initialize_pool_def Let_def split: if_splits)
  have use: "pages_in_use q = {..<?m}"
    using ps(2) by (auto simp: pages_in_use_def q TEST_BIT_fold)
  have "ps div ps \<le> ?m"
    using assms(3) by (intro div_le_mono) simp
  then have "0 < ?m"
    using ps(1) by (cases "ps = 0") auto
  then show ?thesis
    using use ps assms(4) by (simp add: mem_pool_wf_def q)
qed

text \<open>
  C17. The pool implements a set of pages: an allocation always ends, and returns a page that was
  not in use and is not the page of the meta data, or none exactly when every page is in use; a page
  that is given back leaves the set, once or twice alike. The number of free pages stays exact.
\<close>

theorem mem_pool_refines_set:
  assumes "mem_pool_wf p" and "0 < i" and "i < mp_total_pages p"
  shows "(case alloc_page p of
            None \<Rightarrow> False
          | Some (None, q) \<Rightarrow> q = p \<and> pages_in_use p = {..<mp_total_pages p}
          | Some (Some j, q) \<Rightarrow> 0 < j \<and> j < mp_total_pages p \<and> j \<notin> pages_in_use p
              \<and> pages_in_use q = insert j (pages_in_use p) \<and> mem_pool_wf q)
    \<and> (\<exists>q. free_page i p = Some q \<and> pages_in_use q = pages_in_use p - {i} \<and> mem_pool_wf q \<and> free_page i q = Some q)"
proof -
  have "pages_in_use p = {..<mp_total_pages p}" if "mp_free_pages p = 0"
  proof (rule card_subset_eq)
    show "card (pages_in_use p) = card {..<mp_total_pages p}"
      using assms(1) that by (simp add: mem_pool_wf_def)
  qed (auto simp: pages_in_use_def)
  moreover have "alloc_page p = Some (None, p)" if "mp_free_pages p = 0"
    using assms(1) that by (simp add: alloc_page_def mem_pool_wf_def)
  moreover obtain q where q: "free_page i p = Some q" "pages_in_use q = pages_in_use p - {i}" "mem_pool_wf q"
      "mp_total_pages q = mp_total_pages p"
    using free_page_wf [OF assms] by blast
  moreover have "free_page i q = Some q"
  proof -
    have "i div 8 < BITMAP_SIZE"
      using assms by (auto simp: mem_pool_wf_def BITMAP_SIZE_def MAX_PAGES_NO_def)
    moreover have "\<not> TEST_BIT (mp_page_bitmap q) i"
      using q(2,4) assms(3) unfolding pages_in_use_def by auto
    ultimately show ?thesis
      using q(4) assms(2,3) by (simp add: free_page_def)
  qed
  moreover have "\<exists>j r. alloc_page p = Some (Some j, r) \<and> 0 < j \<and> j < mp_total_pages p \<and> j \<notin> pages_in_use p
      \<and> pages_in_use r = insert j (pages_in_use p) \<and> mem_pool_wf r" if "mp_free_pages p \<noteq> 0"
    using alloc_page_wf [OF assms(1) that] by blast
  ultimately show ?thesis
    by (cases "mp_free_pages p = 0") fastforce+
qed

definition ex_mem_pool :: mem_pool where
  "ex_mem_pool = the (initialize_pool (2 ^ 20) 5 (2 ^ 20 + 7)
     \<lparr>mp_inited = 0, mp_page_size = 0, mp_total_pages = 0, mp_free_pages = 0, mp_current_page = 0, mp_page_bitmap = \<lambda>_. 0\<rparr>)"

lemma ex_mem_pool_wf: "mem_pool_wf ex_mem_pool \<and> mp_total_pages ex_mem_pool = 5"
proof -
  let ?p = "\<lparr>mp_inited = 0, mp_page_size = 0, mp_total_pages = 0, mp_free_pages = 0, mp_current_page = 0,
      mp_page_bitmap = \<lambda>_. 0\<rparr> :: mem_pool"
  have "initialize_pool (2 ^ 20) 5 (2 ^ 20 + 7) ?p = Some ex_mem_pool"
    by (simp add: ex_mem_pool_def initialize_pool_def Let_def MAX_PAGES_NO_def)
  from initialize_pool_wf [OF this] show ?thesis
    by (simp add: MAX_PAGES_NO_def)
qed

theorem mem_pool_refines_set_witness:
  "\<exists>q. free_page 3 ex_mem_pool = Some q \<and> pages_in_use q = pages_in_use ex_mem_pool - {3} \<and> mem_pool_wf q"
  using mem_pool_refines_set [of ex_mem_pool 3] ex_mem_pool_wf by auto

end
