(* ===== verification/Mdb_Item.thy ===== *)
theory Mdb_Item
  imports Mem_Pool
begin

unbundle bit_operations_syntax

text \<open>
  The items of the memory storage engine (\<open>storage/mdb/mem_cache.hpp\<close>): their packed 64-bit ids, the
  address an id stands for, and the memory of the engine as the items and page headers that lie in it.
  A page starts with its header, then come the slots of its slab.
\<close>

section \<open>Model\<close>

definition SLAB_SIZE :: "64 word \<Rightarrow> nat" where
  "SLAB_SIZE x = unat (x AND (2 ^ 20 - 1))"

definition PAGE_OFFSET :: "64 word \<Rightarrow> nat" where
  "PAGE_OFFSET x = unat (drop_bit 20 x AND (2 ^ 16 - 1))"

definition PAGE_ID :: "64 word \<Rightarrow> nat" where
  "PAGE_ID x = unat (drop_bit 36 x AND (2 ^ 16 - 1))"

definition SLAB_ID :: "64 word \<Rightarrow> nat" where
  "SLAB_ID x = unat (drop_bit 52 x AND (2 ^ 8 - 1))"

definition CLEAR_FLAGS :: "64 word \<Rightarrow> 64 word" where
  "CLEAR_FLAGS x = x AND NOT (push_bit 60 0xF)"

definition ITEM_FLAGS :: "64 word \<Rightarrow> 64 word" where
  "ITEM_FLAGS x = drop_bit 60 x AND 0xF"

definition SET_ITEM_FLAGS :: "64 word \<Rightarrow> 64 word \<Rightarrow> 64 word" where
  "SET_ITEM_FLAGS x v = x OR push_bit 60 (v AND 0xF)"

definition ITEM_ID :: "nat \<Rightarrow> nat \<Rightarrow> nat \<Rightarrow> nat \<Rightarrow> 64 word" where
  "ITEM_ID slab_size offset page_id slab_id =
     push_bit 52 (of_nat slab_id AND (2 ^ 8 - 1)) OR push_bit 36 (of_nat page_id AND (2 ^ 16 - 1))
     OR push_bit 20 (of_nat offset AND (2 ^ 16 - 1)) OR (of_nat slab_size AND (2 ^ 20 - 1))"

text \<open>\<open>sizeof(page_info)\<close> and \<open>sizeof(mdb_item)\<close>, the latter packed.\<close>

definition sizeof_page_info :: nat where
  "sizeof_page_info = 24"

definition sizeof_mdb_item :: nat where
  "sizeof_mdb_item = 46"

definition ITEM_ADDR :: "nat \<Rightarrow> 64 word \<Rightarrow> nat option" where
  "ITEM_ADDR page_size item_id =
     (if item_id = 0 then None
      else Some (PAGE_ID item_id * page_size + SLAB_SIZE item_id * PAGE_OFFSET item_id + sizeof_page_info))"

definition itemid_equal :: "64 word \<Rightarrow> 64 word \<Rightarrow> bool" where
  "itemid_equal l r \<longleftrightarrow> SLAB_ID l = SLAB_ID r \<and> PAGE_ID l = PAGE_ID r \<and> PAGE_OFFSET l = PAGE_OFFSET r \<and> SLAB_SIZE l = SLAB_SIZE r"

text \<open>The bit fields \<open>key_len\<close> and \<open>data_len\<close> have 12 and 20 bits; \<open>idata\<close> is the rest of the slot.\<close>

record mdb_item =
  h_next :: "64 word"
  i_prev :: "64 word"
  i_next :: "64 word"
  exptime :: "32 word"
  key_len :: "12 word"
  data_len :: "20 word"
  i_version :: "16 word"
  update_time :: "32 word"
  item_id :: "64 word"
  idata :: "8 word list"

record page_info =
  pg_id :: nat
  free_nr :: nat
  pg_next :: nat
  pg_prev :: nat
  free_head :: "64 word"

record mdb_mem =
  pool :: mem_pool
  items :: "nat \<Rightarrow> mdb_item"
  pages :: "nat \<Rightarrow> page_info"

definition ITEM_AREA :: "mdb_item \<Rightarrow> nat" where
  "ITEM_AREA it = unat (idata it ! 0) + 256 * unat (idata it ! 1)"

definition KEY_AREA :: "8 word list \<Rightarrow> nat" where
  "KEY_AREA key = unat (key ! 0) + 256 * unat (key ! 1)"

definition ITEM_KEY :: "mdb_item \<Rightarrow> 8 word list" where
  "ITEM_KEY it = take (unat (key_len it)) (idata it)"

definition ITEM_DATA :: "mdb_item \<Rightarrow> 8 word list" where
  "ITEM_DATA it = take (unat (data_len it)) (drop (unat (key_len it)) (idata it))"

definition id_to_item :: "mdb_mem \<Rightarrow> 64 word \<Rightarrow> nat option" where
  "id_to_item m i = ITEM_ADDR (mp_page_size (pool m)) i"

definition upd_item :: "nat \<Rightarrow> (mdb_item \<Rightarrow> mdb_item) \<Rightarrow> mdb_mem \<Rightarrow> mdb_mem" where
  "upd_item a f m = m\<lparr>items := (items m)(a := f (items m a))\<rparr>"

definition upd_page :: "nat \<Rightarrow> (page_info \<Rightarrow> page_info) \<Rightarrow> mdb_mem \<Rightarrow> mdb_mem" where
  "upd_page p f m = m\<lparr>pages := (pages m)(p := f (pages m p))\<rparr>"

section \<open>Ids\<close>

lemma low_mask: "x AND (2 ^ n - 1) = take_bit n x" for x :: "'a::len word"
  by (simp add: take_bit_eq_mask mask_eq_exp_minus_1)

lemmas id_field_defs = SLAB_SIZE_def PAGE_OFFSET_def PAGE_ID_def SLAB_ID_def

lemma unat_take_bit_of_nat:
  assumes "n < 2 ^ k" and "k \<le> 64"
  shows "unat (take_bit k (of_nat n :: 64 word)) = n"
proof -
  have "n < 2 ^ 64"
    using assms less_le_trans power_increasing [of k 64 "2::nat"] by force
  then show ?thesis
    using assms(1) by (simp add: unsigned_take_bit_eq unat_of_nat take_bit_nat_eq_self)
qed

lemma ITEM_ID_fields:
  assumes "s < 2 ^ 20" "o' < 2 ^ 16" "p < 2 ^ 16" "d < 2 ^ 8"
  shows "SLAB_SIZE (ITEM_ID s o' p d) = s" and "PAGE_OFFSET (ITEM_ID s o' p d) = o'"
    and "PAGE_ID (ITEM_ID s o' p d) = p" and "SLAB_ID (ITEM_ID s o' p d) = d"
proof -
  let ?i = "push_bit 52 (take_bit 8 (of_nat d)) OR push_bit 36 (take_bit 16 (of_nat p))
     OR push_bit 20 (take_bit 16 (of_nat o')) OR take_bit 20 (of_nat s) :: 64 word"
  have i: "ITEM_ID s o' p d = ?i"
    unfolding ITEM_ID_def low_mask ..
  have "take_bit 20 ?i = take_bit 20 (of_nat s)" "take_bit 16 (drop_bit 20 ?i) = take_bit 16 (of_nat o')"
      "take_bit 16 (drop_bit 36 ?i) = take_bit 16 (of_nat p)" "take_bit 8 (drop_bit 52 ?i) = take_bit 8 (of_nat d)"
    by (rule bit_word_eqI, auto simp: bit_simps)+
  then show "SLAB_SIZE (ITEM_ID s o' p d) = s" "PAGE_OFFSET (ITEM_ID s o' p d) = o'"
      "PAGE_ID (ITEM_ID s o' p d) = p" "SLAB_ID (ITEM_ID s o' p d) = d"
    using assms unat_take_bit_of_nat unfolding i id_field_defs low_mask by simp_all
qed

text \<open>The flags of an id do not matter for the slot it stands for.\<close>

lemma flags_fields:
  "SLAB_SIZE (CLEAR_FLAGS x) = SLAB_SIZE x" "PAGE_OFFSET (CLEAR_FLAGS x) = PAGE_OFFSET x"
  "PAGE_ID (CLEAR_FLAGS x) = PAGE_ID x" "SLAB_ID (CLEAR_FLAGS x) = SLAB_ID x"
  "SLAB_SIZE (SET_ITEM_FLAGS x v) = SLAB_SIZE x" "PAGE_OFFSET (SET_ITEM_FLAGS x v) = PAGE_OFFSET x"
  "PAGE_ID (SET_ITEM_FLAGS x v) = PAGE_ID x" "SLAB_ID (SET_ITEM_FLAGS x v) = SLAB_ID x"
proof -
  have "take_bit 20 (x AND NOT (push_bit 60 0xF)) = take_bit 20 x"
      "take_bit 16 (drop_bit 20 (x AND NOT (push_bit 60 0xF))) = take_bit 16 (drop_bit 20 x)"
      "take_bit 16 (drop_bit 36 (x AND NOT (push_bit 60 0xF))) = take_bit 16 (drop_bit 36 x)"
      "take_bit 8 (drop_bit 52 (x AND NOT (push_bit 60 0xF))) = take_bit 8 (drop_bit 52 x)"
    by (rule bit_word_eqI, auto simp: bit_simps simp del: push_bit_numeral)+
  then show "SLAB_SIZE (CLEAR_FLAGS x) = SLAB_SIZE x" "PAGE_OFFSET (CLEAR_FLAGS x) = PAGE_OFFSET x"
      "PAGE_ID (CLEAR_FLAGS x) = PAGE_ID x" "SLAB_ID (CLEAR_FLAGS x) = SLAB_ID x"
    unfolding id_field_defs low_mask CLEAR_FLAGS_def by (simp_all only:)
  have "take_bit 20 (x OR push_bit 60 w) = take_bit 20 x"
      "take_bit 16 (drop_bit 20 (x OR push_bit 60 w)) = take_bit 16 (drop_bit 20 x)"
      "take_bit 16 (drop_bit 36 (x OR push_bit 60 w)) = take_bit 16 (drop_bit 36 x)"
      "take_bit 8 (drop_bit 52 (x OR push_bit 60 w)) = take_bit 8 (drop_bit 52 x)" for w
    by (rule bit_word_eqI, auto simp: bit_simps)+
  then show "SLAB_SIZE (SET_ITEM_FLAGS x v) = SLAB_SIZE x" "PAGE_OFFSET (SET_ITEM_FLAGS x v) = PAGE_OFFSET x"
      "PAGE_ID (SET_ITEM_FLAGS x v) = PAGE_ID x" "SLAB_ID (SET_ITEM_FLAGS x v) = SLAB_ID x"
    unfolding id_field_defs low_mask SET_ITEM_FLAGS_def by (simp_all only:)
qed

lemma ITEM_ID_flags: "ITEM_FLAGS (ITEM_ID s o' p d) = 0"
proof -
  have "take_bit 4 (drop_bit 60 (push_bit 52 (take_bit 8 a) OR push_bit 36 (take_bit 16 b) OR push_bit 20 (take_bit 16 c)
      OR take_bit 20 e)) = 0" for a b c e :: "64 word"
    by (rule bit_word_eqI) (auto simp: bit_simps)
  moreover have "(0xF :: 64 word) = 2 ^ 4 - 1"
    by simp
  ultimately show ?thesis
    unfolding ITEM_FLAGS_def ITEM_ID_def low_mask by (simp only: low_mask)
qed

lemma CLEAR_FLAGS_flags: "ITEM_FLAGS (CLEAR_FLAGS x) = 0"
proof -
  have "take_bit 4 (drop_bit 60 (x AND NOT (push_bit 60 (mask 4)))) = 0"
    by (rule bit_word_eqI) (auto simp: bit_simps)
  moreover have "(0xF :: 64 word) = 2 ^ 4 - 1" "(0xF :: 64 word) = mask 4"
    by (simp_all add: mask_eq_exp_minus_1)
  ultimately show ?thesis
    unfolding ITEM_FLAGS_def CLEAR_FLAGS_def by (simp only: low_mask)
qed

lemma SET_ITEM_FLAGS_flags: "ITEM_FLAGS x = 0 \<Longrightarrow> ITEM_FLAGS (SET_ITEM_FLAGS x v) = v AND 0xF"
proof -
  assume zero: "ITEM_FLAGS x = 0"
  have "take_bit 4 (drop_bit 60 (x OR push_bit 60 (take_bit 4 v))) = take_bit 4 (drop_bit 60 x) OR take_bit 4 v"
    by (rule bit_word_eqI) (auto simp: bit_simps)
  moreover have f: "(0xF :: 64 word) = 2 ^ 4 - 1"
    by simp
  ultimately show ?thesis
    using zero unfolding ITEM_FLAGS_def SET_ITEM_FLAGS_def f low_mask by simp
qed

end
