(* ===== verification/Slab_Manager.thy ===== *)
theory Slab_Manager
  imports Mdb_Item Linked
begin

text \<open>
  The slabs of the memory storage engine (\<open>mem_cache::slab_manager\<close> in \<open>storage/mdb/mem_cache.cpp\<close>).
  A slab cuts its pages into slots of one size. A page is free, partly used or full and lies in the
  doubly linked list of such pages; partly used pages are spread over buckets by their number of free
  slots. The free slots of a page are chained through \<open>h_next\<close>; the used items of an area form a
  doubly linked list, the most recently used one first. An item is an address, a page its index; the
  counters are kept at their width, the numbers of pages as integers. \<open>None\<close> is a failed assertion.
\<close>

section \<open>Model\<close>

definition TAIR_MAX_AREA_COUNT :: nat where
  "TAIR_MAX_AREA_COUNT = 1024"

definition PARTIAL_PAGE_BUCKET :: nat where
  "PARTIAL_PAGE_BUCKET = 10"

datatype alloc_type = ALLOC_NEW | ALLOC_EXPIRED | ALLOC_EVICT_SELF | ALLOC_EVICT_ANY

record slab_manager =
  slab_id :: nat
  slab_size :: nat
  per_slab :: nat
  item_head :: "nat \<Rightarrow> 64 word"
  item_tail :: "nat \<Rightarrow> 64 word"
  item_count :: "nat \<Rightarrow> 64 word"
  evict_count :: "nat \<Rightarrow> 64 word"
  item_total_count :: "64 word"
  evict_total_count :: "64 word"
  full_pages_no :: int
  partial_pages_no :: int
  free_pages_no :: int
  evict_index :: nat
  free_pages :: nat
  full_pages :: nat
  partial_pages :: "nat \<Rightarrow> nat"

definition partial_pages_bucket_no :: "slab_manager \<Rightarrow> nat" where
  "partial_pages_bucket_no s = (per_slab s + PARTIAL_PAGE_BUCKET - 1) div PARTIAL_PAGE_BUCKET"

definition first_page :: "slab_manager \<Rightarrow> nat list \<Rightarrow> nat" where
  "first_page s bs = (case List.find (\<lambda>i. partial_pages s i \<noteq> 0) bs of None \<Rightarrow> 0 | Some i \<Rightarrow> partial_pages s i)"

definition get_partial_page_id :: "slab_manager \<Rightarrow> nat" where
  "get_partial_page_id s = first_page s [0..<partial_pages_bucket_no s]"

definition get_the_most_free_items_of_partial_page_id :: "slab_manager \<Rightarrow> nat" where
  "get_the_most_free_items_of_partial_page_id s = first_page s (rev [0..<partial_pages_bucket_no s])"

subsection \<open>Lists of pages\<close>

text \<open>The head of the list is passed by reference: it is returned here.\<close>

definition link_page :: "nat \<Rightarrow> nat \<Rightarrow> mdb_mem \<Rightarrow> (nat \<times> mdb_mem) option" where
  "link_page info page_head m =
     (let m = upd_page info (\<lambda>i. i\<lparr>pg_prev := 0, pg_next := page_head\<rparr>) m
      in if page_head \<noteq> 0
         then do {
           _ \<leftarrow> index_to_page (pool m) page_head;
           Some (pg_id (pages m info), upd_page page_head (pg_prev_update (\<lambda>_. pg_id (pages m info))) m) }
         else Some (pg_id (pages m info), m))"

definition unlink_page :: "nat \<Rightarrow> nat \<Rightarrow> mdb_mem \<Rightarrow> (nat \<times> mdb_mem) option" where
  "unlink_page info page_head m =
     (let page_head = (if pg_id (pages m info) = page_head then pg_next (pages m info) else page_head)
      in do {
        m \<leftarrow> (if pg_next (pages m info) \<noteq> 0
              then do {
                _ \<leftarrow> index_to_page (pool m) (pg_next (pages m info));
                Some (upd_page (pg_next (pages m info)) (pg_prev_update (\<lambda>_. pg_prev (pages m info))) m) }
              else Some m);
        m \<leftarrow> (if pg_prev (pages m info) \<noteq> 0
              then do {
                _ \<leftarrow> index_to_page (pool m) (pg_prev (pages m info));
                Some (upd_page (pg_prev (pages m info)) (pg_next_update (\<lambda>_. pg_next (pages m info))) m) }
              else Some m);
        Some (page_head, upd_page info (\<lambda>i. i\<lparr>pg_prev := 0, pg_next := 0\<rparr>) m) })"

subsection \<open>Lists of items\<close>

definition link_item :: "nat \<Rightarrow> nat \<Rightarrow> slab_manager \<times> mdb_mem \<Rightarrow> (slab_manager \<times> mdb_mem) option" where
  "link_item item area sm = (case sm of (s, m) \<Rightarrow>
     (if item_id (items m item) = 0 \<or> area \<ge> TAIR_MAX_AREA_COUNT then None
      else
        let m = upd_item item (\<lambda>it. it\<lparr>i_next := item_head s area, i_prev := 0\<rparr>) m;
            m = (case id_to_item m (i_next (items m item)) of
                   None \<Rightarrow> m
                 | Some old_head \<Rightarrow> upd_item old_head (i_prev_update (\<lambda>_. item_id (items m item))) m);
            s = s\<lparr>item_head := (item_head s)(area := item_id (items m item))\<rparr>;
            s = (if item_tail s area = 0
                 then s\<lparr>item_tail := (item_tail s)(area := item_id (items m item))\<rparr> else s)
        in Some (s, m)))"

definition unlink_item :: "nat \<Rightarrow> slab_manager \<times> mdb_mem \<Rightarrow> (slab_manager \<times> mdb_mem) option" where
  "unlink_item item sm = (case sm of (s, m) \<Rightarrow>
     (let it = items m item; area = ITEM_AREA it
      in if item_id it = 0 \<or> area \<ge> TAIR_MAX_AREA_COUNT then None
         else
           let s = (if itemid_equal (item_id it) (item_head s area)
                    then s\<lparr>item_head := (item_head s)(area := i_next it)\<rparr> else s);
               s = (if itemid_equal (item_id it) (item_tail s area)
                    then s\<lparr>item_tail := (item_tail s)(area := i_prev it)\<rparr> else s);
               m = (case id_to_item m (i_prev it) of
                      None \<Rightarrow> m
                    | Some l \<Rightarrow> upd_item l (i_next_update (\<lambda>_. i_next (items m item))) m);
               m = (case id_to_item m (i_next (items m item)) of
                      None \<Rightarrow> m
                    | Some r \<Rightarrow> upd_item r (i_prev_update (\<lambda>_. i_prev (items m item))) m)
           in Some (s, m)))"

definition update_item :: "nat \<Rightarrow> nat \<Rightarrow> slab_manager \<times> mdb_mem \<Rightarrow> (slab_manager \<times> mdb_mem) option" where
  "update_item item area sm = Option.bind (unlink_item item sm) (link_item item area)"

subsection \<open>Pages\<close>

definition slot_addr :: "slab_manager \<Rightarrow> mdb_mem \<Rightarrow> nat \<Rightarrow> nat \<Rightarrow> nat" where
  "slot_addr s m p k = p * mp_page_size (pool m) + sizeof_page_info + k * slab_size s"

definition zero_item :: "slab_manager \<Rightarrow> mdb_item" where
  "zero_item s = \<lparr>h_next = 0, i_prev = 0, i_next = 0, exptime = 0, key_len = 0, data_len = 0, i_version = 0,
     update_time = 0, item_id = 0, idata = replicate (slab_size s - sizeof_mdb_item) 0\<rparr>"

definition init_slot :: "slab_manager \<Rightarrow> nat \<Rightarrow> nat \<Rightarrow> mdb_mem \<Rightarrow> mdb_mem" where
  "init_slot s index i m =
     upd_item (slot_addr s m index i)
       (\<lambda>_. (zero_item s)\<lparr>item_id := ITEM_ID (slab_size s) i index (slab_id s),
                          h_next := ITEM_ID (slab_size s) (i + 1) index (slab_id s)\<rparr>) m"

definition init_page :: "nat \<Rightarrow> slab_manager \<Rightarrow> mdb_mem \<Rightarrow> mdb_mem option" where
  "init_page index s m =
     (if per_slab s = 0 then None
      else
        let m = upd_page index (\<lambda>_. \<lparr>pg_id = index, free_nr = per_slab s, pg_next = 0, pg_prev = 0,
                  free_head = ITEM_ID (slab_size s) 0 index (slab_id s)\<rparr>) m;
            m = fold (init_slot s index) [0..<per_slab s] m
        in Some (upd_item (slot_addr s m index (per_slab s - 1)) (h_next_update (\<lambda>_. 0)) m))"

definition pre_alloc_page :: "slab_manager \<times> mdb_mem \<Rightarrow> (bool \<times> slab_manager \<times> mdb_mem) option" where
  "pre_alloc_page sm = (case sm of (s, m) \<Rightarrow> do {
     (page, p) \<leftarrow> alloc_page (pool m);
     case page of
       None \<Rightarrow> Some (False, s, m\<lparr>pool := p\<rparr>)
     | Some index \<Rightarrow> do {
         let s = s\<lparr>free_pages_no := free_pages_no s + 1\<rparr>;
         m \<leftarrow> init_page index s (m\<lparr>pool := p\<rparr>);
         (h, m) \<leftarrow> link_page index (free_pages s) m;
         Some (True, s\<lparr>free_pages := h\<rparr>, m) } })"

primrec pre_alloc :: "nat \<Rightarrow> slab_manager \<times> mdb_mem \<Rightarrow> (nat \<times> slab_manager \<times> mdb_mem) option" where
  "pre_alloc 0 sm = Some (0, sm)"
| "pre_alloc (Suc n) sm = do {
     (got, sm) \<leftarrow> pre_alloc_page sm;
     if got then do { (allocated, sm) \<leftarrow> pre_alloc n sm; Some (allocated + 1, sm) } else Some (0, sm) }"

subsection \<open>A new item\<close>

text \<open>The head of the bucket of partly used pages for a number of free slots, inside the array.\<close>

definition partial_bucket :: "nat \<Rightarrow> slab_manager \<Rightarrow> nat option" where
  "partial_bucket n s =
     (if n div PARTIAL_PAGE_BUCKET < partial_pages_bucket_no s then Some (n div PARTIAL_PAGE_BUCKET) else None)"

text \<open>A page with a free slot, taken out of its list, and the id of the slot.\<close>

definition take_page :: "slab_manager \<times> mdb_mem \<Rightarrow> ((nat \<times> 64 word) option \<times> slab_manager \<times> mdb_mem) option" where
  "take_page sm = (case sm of (s, m) \<Rightarrow>
     (if partial_pages_no s > 0 then
        let info = get_partial_page_id s
        in do {
          _ \<leftarrow> index_to_page (pool m) info;
          if free_nr (pages m info) = 0 \<or> free_head (pages m info) = 0 \<or> free_nr (pages m info) > per_slab s then None
          else do {
            b \<leftarrow> partial_bucket (free_nr (pages m info)) s;
            (h, m') \<leftarrow> unlink_page info (partial_pages s b) m;
            Some (Some (info, free_head (pages m info)), s\<lparr>partial_pages := (partial_pages s)(b := h)\<rparr>, m') } }
      else if free_pages_no s > 0 then
        let info = free_pages s
        in do {
          _ \<leftarrow> index_to_page (pool m) info;
          if free_nr (pages m info) \<noteq> per_slab s \<or> free_head (pages m info) = 0 then None
          else do {
            (h, m') \<leftarrow> unlink_page info (free_pages s) m;
            Some (Some (info, free_head (pages m info)),
                  s\<lparr>free_pages := h, free_pages_no := free_pages_no s - 1, partial_pages_no := partial_pages_no s + 1\<rparr>, m') } }
      else do {
        (page, p) \<leftarrow> alloc_page (pool m);
        case page of
          None \<Rightarrow> Some (None, s, m\<lparr>pool := p\<rparr>)
        | Some index \<Rightarrow> do {
            m \<leftarrow> init_page index s (m\<lparr>pool := p\<rparr>);
            Some (Some (index, free_head (pages m index)), s\<lparr>partial_pages_no := partial_pages_no s + 1\<rparr>, m) } }))"

text \<open>The page goes back to the list for one free slot less.\<close>

definition put_back_page :: "nat \<Rightarrow> slab_manager \<times> mdb_mem \<Rightarrow> (slab_manager \<times> mdb_mem) option" where
  "put_back_page info sm = (case sm of (s, m) \<Rightarrow>
     (let m = upd_page info (\<lambda>i. i\<lparr>free_nr := free_nr i - 1\<rparr>) m
      in if free_nr (pages m info) = 0
         then do {
           (h, m) \<leftarrow> link_page info (full_pages s) m;
           Some (s\<lparr>full_pages := h, full_pages_no := full_pages_no s + 1, partial_pages_no := partial_pages_no s - 1\<rparr>,
                 upd_page info (free_head_update (\<lambda>_. 0)) m) }
         else do {
           b \<leftarrow> partial_bucket (free_nr (pages m info)) s;
           (h, m) \<leftarrow> link_page info (partial_pages s b) m;
           Some (s\<lparr>partial_pages := (partial_pages s)(b := h)\<rparr>, m) }))"

definition alloc_new_item :: "nat \<Rightarrow> slab_manager \<times> mdb_mem \<Rightarrow> (nat option \<times> slab_manager \<times> mdb_mem) option" where
  "alloc_new_item area sm = do {
     (taken, sm) \<leftarrow> take_page sm;
     case taken of
       None \<Rightarrow> Some (None, sm)
     | Some (info, new_id) \<Rightarrow> do {
         (s, m) \<leftarrow> put_back_page info sm;
         item \<leftarrow> id_to_item m new_id;
         let s = s\<lparr>item_total_count := item_total_count s + 1\<rparr>;
         let m = upd_page info (free_head_update (\<lambda>_. h_next (items m item))) m;
         (s, m) \<leftarrow> link_item item area (s, m);
         if item_id (items m item) \<noteq> new_id then None
         else if (free_nr (pages m info) \<noteq> 0) = (free_head (pages m info) = 0) then None
         else Some (Some item, s, m) } }"

subsection \<open>Giving an item back\<close>

definition detach_page :: "nat \<Rightarrow> slab_manager \<times> mdb_mem \<Rightarrow> (slab_manager \<times> mdb_mem) option" where
  "detach_page info sm = (case sm of (s, m) \<Rightarrow>
     (if free_nr (pages m info) = 0
      then do {
        (h, m) \<leftarrow> unlink_page info (full_pages s) m;
        Some (s\<lparr>full_pages := h, full_pages_no := full_pages_no s - 1, partial_pages_no := partial_pages_no s + 1\<rparr>, m) }
      else if free_head (pages m info) = 0 then None
      else do {
        b \<leftarrow> partial_bucket (free_nr (pages m info)) s;
        (h, m) \<leftarrow> unlink_page info (partial_pages s b) m;
        Some (s\<lparr>partial_pages := (partial_pages s)(b := h)\<rparr>, m) }))"

definition attach_page :: "nat \<Rightarrow> slab_manager \<times> mdb_mem \<Rightarrow> (slab_manager \<times> mdb_mem) option" where
  "attach_page info sm = (case sm of (s, m) \<Rightarrow>
     (let m = upd_page info (\<lambda>i. i\<lparr>free_nr := free_nr i + 1\<rparr>) m
      in if free_nr (pages m info) = per_slab s
         then
           let s = s\<lparr>partial_pages_no := partial_pages_no s - 1\<rparr>
           in if free_pages_no s + full_pages_no s + partial_pages_no s \<le> 1
              then do {
                (h, m) \<leftarrow> link_page info (free_pages s) m;
                Some (s\<lparr>free_pages := h, free_pages_no := free_pages_no s + 1\<rparr>, m) }
              else do {
                p \<leftarrow> free_page (pg_id (pages m info)) (pool m);
                Some (s, m\<lparr>pool := p\<rparr>) }
         else do {
           b \<leftarrow> partial_bucket (free_nr (pages m info)) s;
           (h, m) \<leftarrow> link_page info (partial_pages s b) m;
           Some (s\<lparr>partial_pages := (partial_pages s)(b := h)\<rparr>, m) }))"

definition free_item :: "nat \<Rightarrow> slab_manager \<times> mdb_mem \<Rightarrow> (slab_manager \<times> mdb_mem) option" where
  "free_item item sm = (case sm of (s, m) \<Rightarrow>
     (if item_id (items m item) = 0 then None
      else do {
        (s, m) \<leftarrow> unlink_item item (s\<lparr>item_total_count := item_total_count s - 1\<rparr>, m);
        let info = PAGE_ID (item_id (items m item));
        _ \<leftarrow> index_to_page (pool m) info;
        (s, m) \<leftarrow> detach_page info (s, m);
        let m = upd_item item (\<lambda>it. it\<lparr>i_prev := 0, i_next := 0, h_next := free_head (pages m info)\<rparr>) m;
        let m = upd_page info (free_head_update (\<lambda>_. item_id (items m item))) m;
        attach_page info (s, m) }))"

subsection \<open>Eviction\<close>

text \<open>\<open>now\<close> is the time of the call. At most 50 items from the end of the list are looked at.\<close>

definition is_expired :: "32 word \<Rightarrow> mdb_item \<Rightarrow> bool" where
  "is_expired now it \<longleftrightarrow> exptime it > 0 \<and> exptime it < now"

primrec find_expired :: "nat \<Rightarrow> 32 word \<Rightarrow> 64 word \<Rightarrow> mdb_mem \<Rightarrow> nat option" where
  "find_expired 0 now pos m = None"
| "find_expired (Suc n) now pos m =
     (case id_to_item m pos of
        None \<Rightarrow> None
      | Some item \<Rightarrow> if is_expired now (items m item) then Some item
                     else find_expired n now (i_prev (items m item)) m)"

definition evict_self ::
  "32 word \<Rightarrow> nat \<Rightarrow> slab_manager \<times> mdb_mem \<Rightarrow> ((nat \<times> alloc_type) option \<times> slab_manager \<times> mdb_mem) option" where
  "evict_self now area sm = (case sm of (s, m) \<Rightarrow>
     (case id_to_item m (item_tail s area) of
        None \<Rightarrow> Some (None, s, m)
      | Some tail_item \<Rightarrow> do {
          (item, type) \<leftarrow>
            (case find_expired 50 now (item_tail s area) m of
               Some item \<Rightarrow> Some (item, ALLOC_EXPIRED)
             | None \<Rightarrow> if ITEM_AREA (items m tail_item) \<noteq> area then None else Some (tail_item, ALLOC_EVICT_SELF));
          let m = upd_item item (item_id_update CLEAR_FLAGS) m;
          (s, m) \<leftarrow> update_item item (ITEM_AREA (items m item)) (s, m);
          Some (Some (item, type), s, m) }))"

text \<open>The search for an area with an item goes round once; \<open>n\<close> counts the areas it may still pass.\<close>

fun find_victim :: "slab_manager \<Rightarrow> nat \<Rightarrow> nat \<Rightarrow> nat option" where
  "find_victim s idx n =
     (if item_tail s idx \<noteq> 0 then Some idx
      else case n of
             0 \<Rightarrow> None
           | Suc n \<Rightarrow> find_victim s (if idx + 1 \<ge> TAIR_MAX_AREA_COUNT then 0 else idx + 1) n)"

declare find_victim.simps [simp del]

definition evict_any ::
  "32 word \<Rightarrow> nat \<Rightarrow> slab_manager \<times> mdb_mem \<Rightarrow> ((nat \<times> alloc_type) \<times> slab_manager \<times> mdb_mem) option" where
  "evict_any now area sm = (case sm of (s, m) \<Rightarrow>
     (if area \<ge> TAIR_MAX_AREA_COUNT then None
      else do {
        idx \<leftarrow> find_victim s (if evict_index s \<ge> TAIR_MAX_AREA_COUNT then 0 else evict_index s) TAIR_MAX_AREA_COUNT;
        item \<leftarrow> id_to_item m (item_tail s idx);
        let type = (if is_expired now (items m item) then ALLOC_EXPIRED else ALLOC_EVICT_ANY);
        let m = upd_item item (item_id_update CLEAR_FLAGS) m;
        (s, m) \<leftarrow> update_item item area (s\<lparr>evict_index := idx\<rparr>, m);
        Some ((item, type), s, m) }))"

subsection \<open>Allocation\<close>

text \<open>The three labels of \<open>alloc_item\<close>; \<open>exceed\<close> says that the area has used up its quota.\<close>

definition alloc_any ::
  "32 word \<Rightarrow> nat \<Rightarrow> slab_manager \<times> mdb_mem \<Rightarrow> ((nat \<times> alloc_type) \<times> slab_manager \<times> mdb_mem) option" where
  "alloc_any now area sm = do {
     ((it, type), s, m) \<leftarrow> evict_any now area sm;
     let old = ITEM_AREA (items m it);
     let s = (if type = ALLOC_EVICT_ANY
              then s\<lparr>evict_total_count := evict_total_count s + 1, evict_count := (evict_count s)(old := evict_count s old + 1)\<rparr>
              else s);
     let s = s\<lparr>item_count := (item_count s)(old := item_count s old - 1)\<rparr>;
     let s = s\<lparr>item_count := (item_count s)(area := item_count s area + 1)\<rparr>;
     Some ((it, type), s, m) }"

definition count_new :: "nat \<Rightarrow> slab_manager \<Rightarrow> slab_manager" where
  "count_new area s = s\<lparr>item_count := (item_count s)(area := item_count s area + 1)\<rparr>"

definition count_self :: "nat \<Rightarrow> bool \<Rightarrow> alloc_type \<Rightarrow> slab_manager \<Rightarrow> slab_manager" where
  "count_self area exceed type s =
     (if type = ALLOC_EVICT_SELF \<and> \<not> exceed
      then s\<lparr>evict_total_count := evict_total_count s + 1, evict_count := (evict_count s)(area := evict_count s area + 1)\<rparr>
      else s)"

definition alloc_item ::
  "32 word \<Rightarrow> bool \<Rightarrow> nat \<Rightarrow> slab_manager \<times> mdb_mem \<Rightarrow> ((nat \<times> alloc_type) \<times> slab_manager \<times> mdb_mem) option" where
  "alloc_item now exceed area sm =
     (if area \<ge> TAIR_MAX_AREA_COUNT then None
      else if \<not> exceed then do {
        (it, s, m) \<leftarrow> alloc_new_item area sm;
        case it of
          Some a \<Rightarrow> Some ((a, ALLOC_NEW), count_new area s, m)
        | None \<Rightarrow> do {
            (it, s, m) \<leftarrow> evict_self now area (s, m);
            case it of
              Some (a, type) \<Rightarrow> Some ((a, type), count_self area exceed type s, m)
            | None \<Rightarrow> alloc_any now area (s, m) } }
      else do {
        (it, s, m) \<leftarrow> evict_self now area sm;
        case it of
          Some (a, type) \<Rightarrow> Some ((a, type), count_self area exceed type s, m)
        | None \<Rightarrow> do {
            (it, s, m) \<leftarrow> alloc_new_item area (s, m);
            case it of
              Some a \<Rightarrow> Some ((a, ALLOC_NEW), count_new area s, m)
            | None \<Rightarrow> alloc_any now area (s, m) } })"

end
