(* ===== verification/Slab_Pages.thy ===== *)
theory Slab_Pages
  imports Slab_Manager
begin

text \<open>
  The lists of pages of a slab. The free pages, the full pages and each bucket of partly used pages
  form a class; \<open>plists\<close> says that every class is a doubly linked list of the pages whose number of
  free slots belongs to it, and the lemmas say what linking and unlinking a page do to the classes.
\<close>

section \<open>Classes of pages\<close>

definition classes :: "slab_manager \<Rightarrow> nat" where
  "classes s = partial_pages_bucket_no s + 2"

definition head_of :: "slab_manager \<Rightarrow> nat \<Rightarrow> nat" where
  "head_of s c = (case c of 0 \<Rightarrow> free_pages s | Suc 0 \<Rightarrow> full_pages s | Suc (Suc b) \<Rightarrow> partial_pages s b)"

definition set_head :: "nat \<Rightarrow> nat \<Rightarrow> slab_manager \<Rightarrow> slab_manager" where
  "set_head c h s = (case c of
     0 \<Rightarrow> s\<lparr>free_pages := h\<rparr> | Suc 0 \<Rightarrow> s\<lparr>full_pages := h\<rparr>
   | Suc (Suc b) \<Rightarrow> s\<lparr>partial_pages := (partial_pages s)(b := h)\<rparr>)"

definition class_of :: "slab_manager \<Rightarrow> nat \<Rightarrow> nat" where
  "class_of s n = (if n = per_slab s then 0 else if n = 0 then 1 else n div PARTIAL_PAGE_BUCKET + 2)"

lemma class_of_less: "n \<le> per_slab s \<Longrightarrow> class_of s n < classes s"
  by (auto simp: class_of_def classes_def partial_pages_bucket_no_def PARTIAL_PAGE_BUCKET_def)

lemma partial_bucket_class:
  "0 < n \<Longrightarrow> n < per_slab s \<Longrightarrow> partial_bucket n s = Some (n div PARTIAL_PAGE_BUCKET) \<and> class_of s n = Suc (Suc (n div PARTIAL_PAGE_BUCKET))"
  using class_of_less [of n s] by (auto simp: class_of_def partial_bucket_def classes_def)

lemma head_of_set_head [simp]: "head_of (set_head c h s) d = (if d = c then h else head_of s d)"
  by (auto simp: head_of_def set_head_def split: nat.splits)

lemma set_head_fields [simp]:
  "slab_id (set_head c h s) = slab_id s" "slab_size (set_head c h s) = slab_size s" "per_slab (set_head c h s) = per_slab s"
  "item_head (set_head c h s) = item_head s" "item_tail (set_head c h s) = item_tail s"
  "free_pages_no (set_head c h s) = free_pages_no s" "full_pages_no (set_head c h s) = full_pages_no s"
  "partial_pages_no (set_head c h s) = partial_pages_no s" "evict_index (set_head c h s) = evict_index s"
  by (simp_all add: set_head_def split: nat.splits)

lemma classes_cong: "per_slab s' = per_slab s \<Longrightarrow> classes s' = classes s"
  by (simp add: classes_def partial_pages_bucket_no_def)

lemma class_of_cong: "per_slab s' = per_slab s \<Longrightarrow> class_of s' = class_of s"
  by (simp add: class_of_def fun_eq_iff)

section \<open>The lists\<close>

definition nz :: "nat \<Rightarrow> nat option" where
  "nz n = (if n = 0 then None else Some n)"

definition page_nx :: "mdb_mem \<Rightarrow> nat \<Rightarrow> nat option" where
  "page_nx m p = nz (pg_next (pages m p))"

definition page_pv :: "mdb_mem \<Rightarrow> nat \<Rightarrow> nat option" where
  "page_pv m p = nz (pg_prev (pages m p))"

definition plist :: "mdb_mem \<Rightarrow> nat \<Rightarrow> nat list \<Rightarrow> bool" where
  "plist m h xs \<longleftrightarrow> (\<exists>t. dlist (page_nx m) (page_pv m) (nz h) t xs)"

definition page_at :: "slab_manager \<Rightarrow> mdb_mem \<Rightarrow> nat \<Rightarrow> bool" where
  "page_at s m p \<longleftrightarrow> 0 < p \<and> p < mp_total_pages (pool m) \<and> pg_id (pages m p) = p"

definition plists :: "slab_manager \<Rightarrow> mdb_mem \<Rightarrow> (nat \<Rightarrow> nat list) \<Rightarrow> bool" where
  "plists s m L \<longleftrightarrow> (\<forall>c<classes s. plist m (head_of s c) (L c)
     \<and> (\<forall>p\<in>set (L c). page_at s m p \<and> class_of s (free_nr (pages m p)) = c))"

definition listed :: "slab_manager \<Rightarrow> (nat \<Rightarrow> nat list) \<Rightarrow> nat set" where
  "listed s L = (\<Union>c<classes s. set (L c))"

text \<open>Only the links of pages change.\<close>

definition same_pages :: "mdb_mem \<Rightarrow> mdb_mem \<Rightarrow> bool" where
  "same_pages m m' \<longleftrightarrow> pool m' = pool m \<and> items m' = items m
     \<and> (\<forall>p. pg_id (pages m' p) = pg_id (pages m p) \<and> free_nr (pages m' p) = free_nr (pages m p)
          \<and> free_head (pages m' p) = free_head (pages m p))"

lemma upd_page_fields [simp]:
  "pages (upd_page p f m) = (pages m)(p := f (pages m p))" "pool (upd_page p f m) = pool m" "items (upd_page p f m) = items m"
  by (simp_all add: upd_page_def)

lemma upd_item_fields [simp]:
  "items (upd_item a f m) = (items m)(a := f (items m a))" "pool (upd_item a f m) = pool m" "pages (upd_item a f m) = pages m"
  by (simp_all add: upd_item_def)

lemma page_views:
  "page_nx (upd_page p f m) = (page_nx m)(p := nz (pg_next (f (pages m p))))"
  "page_pv (upd_page p f m) = (page_pv m)(p := nz (pg_prev (f (pages m p))))"
  by (auto simp: page_nx_def page_pv_def fun_eq_iff)

lemma page_views_of [simp]:
  "page_nx (upd_item a g m) = page_nx m" "page_pv (upd_item a g m) = page_pv m"
  "page_nx (m\<lparr>pool := q\<rparr>) = page_nx m" "page_pv (m\<lparr>pool := q\<rparr>) = page_pv m"
  "page_nx (m\<lparr>items := i\<rparr>) = page_nx m" "page_pv (m\<lparr>items := i\<rparr>) = page_pv m"
  by (simp_all add: page_nx_def page_pv_def fun_eq_iff)

lemma nz_simps [simp]: "nz 0 = None" "0 < n \<Longrightarrow> nz n = Some n" "nz n = None \<longleftrightarrow> n = 0" "nz n = Some k \<longleftrightarrow> n = k \<and> 0 < k"
  by (auto simp: nz_def)

lemma plists_page: "plists s m L \<Longrightarrow> c < classes s \<Longrightarrow> p \<in> set (L c) \<Longrightarrow> page_at s m p \<and> class_of s (free_nr (pages m p)) = c"
  by (auto simp: plists_def)

lemma plists_disjoint:
  "plists s m L \<Longrightarrow> c < classes s \<Longrightarrow> d < classes s \<Longrightarrow> p \<in> set (L c) \<Longrightarrow> p \<in> set (L d) \<Longrightarrow> c = d"
  using plists_page by blast

lemma plists_distinct: "plists s m L \<Longrightarrow> c < classes s \<Longrightarrow> distinct (L c)"
  by (auto simp: plists_def plist_def dest: dlist_distinct)

lemma plist_frame:
  assumes "plist m h xs" and "\<And>p. p \<in> set xs \<Longrightarrow> page_nx m' p = page_nx m p \<and> page_pv m' p = page_pv m p"
  shows "plist m' h xs"
proof -
  obtain t where "dlist (page_nx m) (page_pv m) (nz h) t xs"
    using assms(1) by (auto simp: plist_def)
  moreover have "dlist (page_nx m') (page_pv m') (nz h) t xs = dlist (page_nx m) (page_pv m) (nz h) t xs"
    by (rule dlist_cong) (rule assms(2))
  ultimately show ?thesis
    unfolding plist_def by blast
qed

text \<open>The invariant looks at nothing but the listed pages.\<close>

lemma plists_frame:
  assumes "plists s m L" and "\<And>p. p \<in> listed s L \<Longrightarrow> pages m' p = pages m p"
    and "mp_total_pages (pool m') = mp_total_pages (pool m)"
    and "per_slab s' = per_slab s" "free_pages s' = free_pages s" "full_pages s' = full_pages s" "partial_pages s' = partial_pages s"
  shows "plists s' m' L"
proof -
  have same: "classes s' = classes s" "class_of s' = class_of s" "head_of s' = head_of s"
    using classes_cong [OF assms(4)] class_of_cong [OF assms(4)] assms(5-7)
    by (auto simp: head_of_def fun_eq_iff split: nat.splits)
  have same_page: "pages m' p = pages m p" if "c < classes s" "p \<in> set (L c)" for c p
    using assms(2) [of p] that by (auto simp: listed_def)
  have "plist m' (head_of s c) (L c)" if "c < classes s" for c
    by (rule plist_frame [of m]) (use assms(1) same_page [OF that] that in \<open>simp_all add: plists_def page_nx_def page_pv_def\<close>)
  moreover have "page_at s' m' p \<and> class_of s (free_nr (pages m' p)) = c" if "c < classes s" "p \<in> set (L c)" for c p
    using plists_page [OF assms(1) that] same_page [OF that] assms(3) by (simp add: page_at_def)
  ultimately show ?thesis
    unfolding plists_def same by blast
qed

lemma plists_cong:
  assumes "plists s m L" and "per_slab s' = per_slab s" "free_pages s' = free_pages s" "full_pages s' = full_pages s"
    "partial_pages s' = partial_pages s"
  shows "plists s' m L"
  using plists_frame [OF assms(1) refl refl assms(2-5)] .

text \<open>Linking a page into the class of its free slots.\<close>

lemma link_page_plists:
  assumes "plists s m L" and "page_at s m p" and "p \<notin> listed s L" and "class_of s (free_nr (pages m p)) = c" and "c < classes s"
  shows "\<exists>m'. link_page p (head_of s c) m = Some (p, m') \<and> plists (set_head c p s) m' (L(c := p # L c)) \<and> same_pages m m'
    \<and> (\<forall>q. q \<noteq> p \<and> q \<notin> listed s L \<longrightarrow> pages m' q = pages m q)"
proof -
  let ?h = "head_of s c"
  obtain t where d: "dlist (page_nx m) (page_pv m) (nz ?h) t (L c)"
    using assms(1,5) by (auto simp: plists_def plist_def)
  have p: "0 < p" "pg_id (pages m p) = p" "p \<notin> set (L c)"
    using assms(2,3,5) by (auto simp: page_at_def listed_def)
  have h: "?h \<in> set (L c)" "?h \<noteq> p" "0 < ?h \<and> ?h < mp_total_pages (pool m)" if "?h \<noteq> 0"
    using dlist_head_mem [of "page_nx m" "page_pv m" ?h t "L c"] d that assms(1,5) p by (auto simp: plists_def page_at_def)
  define m' where "m' = (if ?h \<noteq> 0 then upd_page ?h (pg_prev_update (\<lambda>_. p)) (upd_page p (\<lambda>i. i\<lparr>pg_prev := 0, pg_next := ?h\<rparr>) m)
      else upd_page p (\<lambda>i. i\<lparr>pg_prev := 0, pg_next := ?h\<rparr>) m)"
  have "link_page p ?h m = Some (p, m')"
    using p h by (auto simp: link_page_def Let_def m'_def index_to_page_def)
  moreover have same: "same_pages m m'"
    using p(2) h(2) by (auto simp: m'_def same_pages_def)
  moreover have "pages m' q = pages m q" if "q \<noteq> p" "q \<notin> listed s L" for q
    using that h(1) assms(5) by (auto simp: m'_def listed_def)
  moreover have "plists (set_head c p s) m' (L(c := p # L c))"
    unfolding plists_def classes_cong [OF set_head_fields(3)] class_of_cong [OF set_head_fields(3)]
  proof (intro allI impI conjI ballI)
    fix d' assume d': "d' < classes s"
    show "plist m' (head_of (set_head c p s) d') ((L(c := p # L c)) d')"
    proof (cases "d' = c")
      case True
      have "page_nx m' = (page_nx m)(p := nz ?h)"
          "page_pv m' = (case nz ?h of None \<Rightarrow> (page_pv m)(p := None) | Some f \<Rightarrow> (page_pv m)(p := None, f := Some p))"
        using h(2) p(1) by (auto simp: m'_def page_views) (auto simp: page_nx_def page_pv_def nz_def fun_eq_iff)
      then show ?thesis
        using dlist_push_front [OF d p(3)] True p(1) unfolding plist_def by auto
    next
      case False
      have "page_nx m' q = page_nx m q \<and> page_pv m' q = page_pv m q" if "q \<in> set (L d')" for q
      proof -
        have "q \<noteq> p" "q \<noteq> ?h \<or> ?h = 0"
          using that d' assms(3) h(1) plists_disjoint [OF assms(1) d' assms(5)] False by (auto simp: listed_def)
        then show ?thesis
          by (auto simp: m'_def page_nx_def page_pv_def)
      qed
      moreover have "plist m (head_of s d') (L d')"
        using assms(1) d' by (simp add: plists_def)
      ultimately show ?thesis
        using plist_frame [of m "head_of s d'" "L d'" m'] False by simp
    qed
    fix q assume "q \<in> set ((L(c := p # L c)) d')"
    then have "page_at s m q" "class_of s (free_nr (pages m q)) = d'"
      using assms plists_page [OF assms(1) d'] by (auto split: if_splits)
    then show "page_at (set_head c p s) m' q" "class_of s (free_nr (pages m' q)) = d'"
      using same by (auto simp: page_at_def same_pages_def)
  qed
  ultimately show ?thesis
    by blast
qed

text \<open>Taking a page out of its class.\<close>

lemma unlink_page_views:
  assumes "page_at s m p" and "pg_next (pages m p) \<noteq> p" and "pg_prev (pages m p) \<noteq> p"
    and "pg_next (pages m p) < mp_total_pages (pool m)" and "pg_prev (pages m p) < mp_total_pages (pool m)"
  shows "\<exists>m'. unlink_page p h m = Some (if p = h then pg_next (pages m p) else h, m') \<and> same_pages m m'
    \<and> page_nx m' = (case page_pv m p of None \<Rightarrow> page_nx m | Some l \<Rightarrow> (page_nx m)(l := page_nx m p))(p := None)
    \<and> page_pv m' = (case page_nx m p of None \<Rightarrow> page_pv m | Some r \<Rightarrow> (page_pv m)(r := page_pv m p))(p := None)
    \<and> (\<forall>q. q \<noteq> p \<and> page_nx m p \<noteq> Some q \<and> page_pv m p \<noteq> Some q \<longrightarrow> pages m' q = pages m q)"
proof -
  let ?n = "pg_next (pages m p)" and ?l = "pg_prev (pages m p)"
  define m1 where "m1 = (if ?n \<noteq> 0 then upd_page ?n (pg_prev_update (\<lambda>_. ?l)) m else m)"
  define m2 where "m2 = (if ?l \<noteq> 0 then upd_page ?l (pg_next_update (\<lambda>_. ?n)) m1 else m1)"
  define m' where "m' = upd_page p (\<lambda>i. i\<lparr>pg_prev := 0, pg_next := 0\<rparr>) m2"
  have "unlink_page p h m = Some (if p = h then ?n else h, m')"
    using assms(1,2,4,5) by (auto simp: unlink_page_def Let_def m'_def m2_def index_to_page_def page_at_def m1_def)
  moreover have "same_pages m m'"
    by (auto simp: same_pages_def m'_def m2_def m1_def)
  moreover have "page_nx m' = (case page_pv m p of None \<Rightarrow> page_nx m | Some l \<Rightarrow> (page_nx m)(l := page_nx m p))(p := None)"
      "page_pv m' = (case page_nx m p of None \<Rightarrow> page_pv m | Some r \<Rightarrow> (page_pv m)(r := page_pv m p))(p := None)"
    using assms(2,3) by (auto simp: m'_def m2_def m1_def page_nx_def page_pv_def fun_eq_iff nz_def)
  moreover have "pages m' q = pages m q" if "q \<noteq> p" "page_nx m p \<noteq> Some q" "page_pv m p \<noteq> Some q" for q
    using that by (auto simp: m'_def m2_def m1_def page_nx_def page_pv_def)
  ultimately show ?thesis
    by blast
qed

lemma dlist_split_at:
  assumes "dlist nx pv h t xs" and "x \<in> set xs"
  obtains ys zs where "xs = ys @ x # zs" "nx x = (case zs of [] \<Rightarrow> None | z # _ \<Rightarrow> Some z)"
    "pv x = (if ys = [] then None else Some (last ys))" "x \<notin> set (ys @ zs)"
proof -
  obtain ys zs where xs: "xs = ys @ x # zs"
    using assms(2) by (auto simp: in_set_conv_decomp)
  have "path nx (nx x) zs None" "path pv (pv x) (rev ys) None" "distinct (ys @ x # zs)"
    using assms(1) xs by (auto simp: dlist_def path_append)
  then have "nx x = (case zs of [] \<Rightarrow> None | z # _ \<Rightarrow> Some z)" "pv x = (if ys = [] then None else Some (last ys))"
      "x \<notin> set (ys @ zs)"
    using path_rev_start [of pv "pv x" ys] by (cases zs; auto)+
  then show ?thesis
    using that xs by blast
qed

lemma unlink_page_plists:
  assumes "plists s m L" and "c < classes s" and "p \<in> set (L c)"
  shows "\<exists>h m'. unlink_page p (head_of s c) m = Some (h, m') \<and> plists (set_head c h s) m' (L(c := remove1 p (L c)))
           \<and> same_pages m m' \<and> listed s (L(c := remove1 p (L c))) = listed s L - {p}
           \<and> (\<forall>q. q \<notin> listed s L \<longrightarrow> pages m' q = pages m q)"
proof -
  let ?h = "head_of s c" and ?L = "L(c := remove1 p (L c))"
  obtain t where d: "dlist (page_nx m) (page_pv m) (nz ?h) t (L c)"
    using assms(1,2) by (auto simp: plists_def plist_def)
  obtain ys zs where split: "L c = ys @ p # zs" "page_nx m p = (case zs of [] \<Rightarrow> None | z # _ \<Rightarrow> Some z)"
      "page_pv m p = (if ys = [] then None else Some (last ys))" "p \<notin> set (ys @ zs)"
    using dlist_split_at [OF d assms(3)] .
  have at: "page_at s m q" if "q \<in> set (L c)" for q
    using plists_page [OF assms(1,2) that] by simp
  have near: "pg_next (pages m p) \<noteq> 0 \<Longrightarrow> pg_next (pages m p) \<in> set zs" "pg_prev (pages m p) \<noteq> 0 \<Longrightarrow> pg_prev (pages m p) \<in> set ys"
    using split(2,3) by (auto simp: page_nx_def page_pv_def nz_def split: list.splits if_splits)
  have p: "page_at s m p" "0 < p" "p < mp_total_pages (pool m)"
    using at assms(3) by (auto simp: page_at_def)
  have n: "pg_next (pages m p) \<noteq> p" "pg_next (pages m p) < mp_total_pages (pool m)"
    using near(1) split(1,4) at [of "pg_next (pages m p)"] p by (cases "pg_next (pages m p) = 0"; auto simp: page_at_def)+
  have l: "pg_prev (pages m p) \<noteq> p" "pg_prev (pages m p) < mp_total_pages (pool m)"
    using near(2) split(1,4) at [of "pg_prev (pages m p)"] p by (cases "pg_prev (pages m p) = 0"; auto simp: page_at_def)+
  obtain m' where m': "unlink_page p ?h m = Some (if p = ?h then pg_next (pages m p) else ?h, m')" "same_pages m m'"
      "page_nx m' = (case page_pv m p of None \<Rightarrow> page_nx m | Some l \<Rightarrow> (page_nx m)(l := page_nx m p))(p := None)"
      "page_pv m' = (case page_nx m p of None \<Rightarrow> page_pv m | Some r \<Rightarrow> (page_pv m)(r := page_pv m p))(p := None)"
      "\<forall>q. q \<noteq> p \<and> page_nx m p \<noteq> Some q \<and> page_pv m p \<noteq> Some q \<longrightarrow> pages m' q = pages m q"
    using unlink_page_views [OF p(1) n(1) l(1) n(2) l(2)] by blast
  let ?h' = "if p = ?h then pg_next (pages m p) else ?h"
  have removed: "remove1 p (L c) = ys @ zs"
    using split(1,4) by (simp add: remove1_append)
  have new: "plist m' ?h' (ys @ zs)"
  proof -
    let ?N = "case page_pv m p of None \<Rightarrow> page_nx m | Some l \<Rightarrow> (page_nx m)(l := page_nx m p)"
    let ?P = "case page_nx m p of None \<Rightarrow> page_pv m | Some r \<Rightarrow> (page_pv m)(r := page_pv m p)"
    have head: "(if nz ?h = Some p then page_nx m p else nz ?h) = nz ?h'"
      using p(2) by (auto simp: page_nx_def)
    have "dlist ?N ?P (nz ?h') (if t = Some p then page_pv m p else t) (ys @ zs)"
      using dlist_remove [OF d [unfolded split(1)]] unfolding head .
    moreover have "dlist (page_nx m') (page_pv m') a b (ys @ zs) = dlist ?N ?P a b (ys @ zs)" for a b
      by (rule dlist_cong) (use split(4) in \<open>auto simp: m'(3,4)\<close>)
    ultimately show ?thesis
      unfolding plist_def by blast
  qed
  have "plist m' (head_of s d') (L d')" if "d' < classes s" "d' \<noteq> c" for d'
  proof -
    have apart: "q \<notin> set (L c)" if "q \<in> set (L d')" for q
      using plists_disjoint [OF assms(1)] \<open>d' < classes s\<close> assms(2) that \<open>d' \<noteq> c\<close> by blast
    have "page_nx m' q = page_nx m q \<and> page_pv m' q = page_pv m q" if "q \<in> set (L d')" for q
    proof -
      have "q \<noteq> p" "page_pv m p \<noteq> Some q" "page_nx m p \<noteq> Some q"
        using apart [OF that] split by (auto split: list.splits if_splits)
      then show ?thesis
        by (auto simp: m'(3,4) split: option.splits)
    qed
    moreover have "plist m (head_of s d') (L d')"
      using assms(1) that(1) by (simp add: plists_def)
    ultimately show ?thesis
      by (rule plist_frame [rotated])
  qed
  then have lists: "plist m' (head_of (set_head c ?h' s) d') (?L d')" if "d' < classes s" for d'
    using new that by (simp add: removed)
  have "page_at (set_head c ?h' s) m' q \<and> class_of s (free_nr (pages m' q)) = d'" if "d' < classes s" "q \<in> set (?L d')" for d' q
  proof -
    have "q \<in> set (L d')"
      using that(2) set_remove1_subset [of p "L c"] by (auto split: if_splits)
    then show ?thesis
      using plists_page [OF assms(1) that(1)] m'(2) by (simp add: page_at_def same_pages_def)
  qed
  then have "plists (set_head c ?h' s) m' ?L"
    unfolding plists_def classes_cong [OF set_head_fields(3)] class_of_cong [OF set_head_fields(3)]
    using lists by blast
  moreover have "listed s ?L = listed s L - {p}"
  proof -
    have "set (?L d') = set (L d') - {p}" if "d' < classes s" for d'
    proof (cases "d' = c")
      case True
      then show ?thesis
        using split(4) removed split(1) by auto
    next
      case False
      then have "p \<notin> set (L d')"
        using plists_disjoint [OF assms(1) that assms(2) _ assms(3)] by blast
      then show ?thesis
        using False by simp
    qed
    then show ?thesis
      unfolding listed_def by blast
  qed
  moreover have "pages m' q = pages m q" if "q \<notin> listed s L" for q
  proof -
    have "q \<notin> set (ys @ p # zs)"
      using that assms(2) unfolding listed_def split(1) [symmetric] by blast
    then show ?thesis
      using m'(5) split(2,3) by (auto split: list.splits if_splits)
  qed
  ultimately show ?thesis
    using m'(1,2) by blast
qed

end
