(* ===== verification/Slab_Items.thy ===== *)
theory Slab_Items
  imports Slab_Pages
begin

text \<open>
  The lists of used items of a slab, one for each area. An id names a slot of the slab if its fields
  are those of the slot, whatever its flags; \<open>lru\<close> says that the items of every area form a doubly
  linked list through ids that name slots.
\<close>

section \<open>Slots\<close>

definition shape :: "slab_manager \<Rightarrow> mdb_mem \<Rightarrow> bool" where
  "shape s m \<longleftrightarrow> 0 < per_slab s \<and> per_slab s \<le> 2 ^ 16 \<and> sizeof_mdb_item + 16 \<le> slab_size s \<and> slab_size s < 2 ^ 20
     \<and> slab_id s < 2 ^ 8 \<and> sizeof_page_info + per_slab s * slab_size s \<le> mp_page_size (pool m)
     \<and> mp_total_pages (pool m) \<le> 2 ^ 16"

definition names :: "slab_manager \<Rightarrow> 64 word \<Rightarrow> nat \<Rightarrow> nat \<Rightarrow> bool" where
  "names s w p k \<longleftrightarrow> SLAB_SIZE w = slab_size s \<and> SLAB_ID w = slab_id s \<and> PAGE_ID w = p \<and> PAGE_OFFSET w = k"

definition good :: "slab_manager \<Rightarrow> 64 word \<Rightarrow> bool" where
  "good s w \<longleftrightarrow> w = 0 \<or> 0 < PAGE_ID w \<and> PAGE_OFFSET w < per_slab s \<and> SLAB_SIZE w = slab_size s \<and> SLAB_ID w = slab_id s"

lemma shape_cong:
  assumes "shape s m" and "per_slab s' = per_slab s" "slab_size s' = slab_size s" "slab_id s' = slab_id s"
    "mp_page_size (pool m') = mp_page_size (pool m)" "mp_total_pages (pool m') = mp_total_pages (pool m)"
  shows "shape s' m'"
  using assms by (simp add: shape_def)

lemma names_cong: "slab_size s' = slab_size s \<Longrightarrow> slab_id s' = slab_id s \<Longrightarrow> names s' = names s"
  by (simp add: names_def fun_eq_iff)

lemma good_cong: "per_slab s' = per_slab s \<Longrightarrow> slab_size s' = slab_size s \<Longrightarrow> slab_id s' = slab_id s \<Longrightarrow> good s' = good s"
  by (simp add: good_def fun_eq_iff)

lemma names_good: "names s w p k \<Longrightarrow> 0 < p \<Longrightarrow> k < per_slab s \<Longrightarrow> good s w \<and> w \<noteq> 0"
  by (auto simp: names_def good_def PAGE_ID_def)

lemma good_0 [simp]: "good s 0"
  by (simp add: good_def)

lemma names_ITEM_ID:
  assumes "shape s m" and "k < per_slab s" and "p < mp_total_pages (pool m)"
  shows "names s (ITEM_ID (slab_size s) k p (slab_id s)) p k"
  using assms ITEM_ID_fields [of "slab_size s" k p "slab_id s"] by (simp add: names_def shape_def)

lemma names_addr: "names s w p k \<Longrightarrow> 0 < p \<Longrightarrow> id_to_item m w = Some (slot_addr s m p k)"
  by (auto simp: names_def id_to_item_def ITEM_ADDR_def slot_addr_def PAGE_ID_def)

lemma slot_inj:
  assumes "shape s m" and "k < per_slab s" and "k' < per_slab s" and "slot_addr s m p k = slot_addr s m p' k'"
  shows "p = p' \<and> k = k'"
proof -
  let ?n = "mp_page_size (pool m)"
  have room: "sizeof_page_info + j * slab_size s < ?n" if "j < per_slab s" for j
  proof -
    have "j * slab_size s + slab_size s \<le> per_slab s * slab_size s"
      using that by (metis Suc_leI add.commute mult_Suc mult_le_mono1)
    then show ?thesis
      using assms(1) by (simp add: shape_def sizeof_mdb_item_def)
  qed
  have "slot_addr s m q j div ?n = q" "slot_addr s m q j mod ?n = sizeof_page_info + j * slab_size s" if "j < per_slab s" for q j
    using room [OF that] by (simp_all add: slot_addr_def add.assoc)
  then have "p = p'" "sizeof_page_info + k * slab_size s = sizeof_page_info + k' * slab_size s"
    using assms(2-4) by metis+
  moreover have "slab_size s \<noteq> 0"
    using assms(1) by (simp add: shape_def sizeof_mdb_item_def)
  ultimately show ?thesis
    by simp
qed

text \<open>Two ids of slots are equal up to flags exactly when they have one address.\<close>

lemma good_equal:
  assumes "shape s m" and "good s v" and "good s w" and "v \<noteq> 0"
  shows "itemid_equal v w \<longleftrightarrow> id_to_item m w = id_to_item m v"
proof (cases "w = 0")
  case True
  then show ?thesis
    using assms(2,4) by (auto simp: itemid_equal_def good_def id_to_item_def ITEM_ADDR_def PAGE_ID_def)
next
  case False
  then have n: "names s v (PAGE_ID v) (PAGE_OFFSET v)" "names s w (PAGE_ID w) (PAGE_OFFSET w)"
      "0 < PAGE_ID v" "0 < PAGE_ID w" "PAGE_OFFSET v < per_slab s" "PAGE_OFFSET w < per_slab s"
    using assms(2-4) by (auto simp: good_def names_def)
  have "id_to_item m w = id_to_item m v \<longleftrightarrow>
      slot_addr s m (PAGE_ID v) (PAGE_OFFSET v) = slot_addr s m (PAGE_ID w) (PAGE_OFFSET w)"
    using names_addr [OF n(1,3), of m] names_addr [OF n(2,4), of m] by auto
  also have "\<dots> \<longleftrightarrow> PAGE_ID v = PAGE_ID w \<and> PAGE_OFFSET v = PAGE_OFFSET w"
    using slot_inj [OF assms(1) n(5,6)] by metis
  finally show ?thesis
    using n(1,2) unfolding itemid_equal_def names_def by metis
qed

lemma good_None: "good s w \<Longrightarrow> id_to_item m w = None \<longleftrightarrow> w = 0"
  by (auto simp: id_to_item_def ITEM_ADDR_def)

section \<open>The lists of an area\<close>

definition item_nx :: "mdb_mem \<Rightarrow> nat \<Rightarrow> nat option" where
  "item_nx m a = id_to_item m (i_next (items m a))"

definition item_pv :: "mdb_mem \<Rightarrow> nat \<Rightarrow> nat option" where
  "item_pv m a = id_to_item m (i_prev (items m a))"

definition named :: "slab_manager \<Rightarrow> mdb_mem \<Rightarrow> nat \<Rightarrow> bool" where
  "named s m a \<longleftrightarrow> good s (item_id (items m a)) \<and> id_to_item m (item_id (items m a)) = Some a"

definition lru_list :: "slab_manager \<Rightarrow> mdb_mem \<Rightarrow> nat \<Rightarrow> nat list \<Rightarrow> bool" where
  "lru_list s m area as \<longleftrightarrow>
     dlist (item_nx m) (item_pv m) (id_to_item m (item_head s area)) (id_to_item m (item_tail s area)) as
     \<and> good s (item_head s area) \<and> good s (item_tail s area)
     \<and> (\<forall>a\<in>set as. named s m a \<and> good s (i_next (items m a)) \<and> good s (i_prev (items m a)))"

definition lru :: "slab_manager \<Rightarrow> mdb_mem \<Rightarrow> (nat \<Rightarrow> nat list) \<Rightarrow> bool" where
  "lru s m U \<longleftrightarrow> (\<forall>x<TAIR_MAX_AREA_COUNT. lru_list s m x (U x))
     \<and> (\<forall>x<TAIR_MAX_AREA_COUNT. \<forall>y<TAIR_MAX_AREA_COUNT. x \<noteq> y \<longrightarrow> set (U x) \<inter> set (U y) = {})"

definition used :: "(nat \<Rightarrow> nat list) \<Rightarrow> nat set" where
  "used U = (\<Union>x<TAIR_MAX_AREA_COUNT. set (U x))"

text \<open>Only the links of items change.\<close>

definition unlinked :: "mdb_item \<Rightarrow> mdb_item" where
  "unlinked it = it\<lparr>i_prev := 0, i_next := 0\<rparr>"

definition same_items :: "mdb_mem \<Rightarrow> mdb_mem \<Rightarrow> bool" where
  "same_items m m' \<longleftrightarrow> pool m' = pool m \<and> pages m' = pages m \<and> (\<forall>a. unlinked (items m' a) = unlinked (items m a))"

lemma unlinked_fields:
  assumes "unlinked it = unlinked it'"
  shows "h_next it = h_next it'" "exptime it = exptime it'" "key_len it = key_len it'" "data_len it = data_len it'"
    "i_version it = i_version it'" "update_time it = update_time it'" "item_id it = item_id it'" "idata it = idata it'"
  using assms by (simp_all add: unlinked_def, (cases it, cases it', simp)+)

lemma same_items_refl [simp]: "same_items m m"
  by (simp add: same_items_def)

lemma same_items_trans: "same_items m m' \<Longrightarrow> same_items m' m'' \<Longrightarrow> same_items m m''"
  by (simp add: same_items_def)

lemma id_to_item_cong: "pool m' = pool m \<Longrightarrow> id_to_item m' = id_to_item m"
  by (simp add: id_to_item_def fun_eq_iff)

lemma lru_list_frame:
  assumes "lru_list s m x as" and "\<And>a. a \<in> set as \<Longrightarrow> i_next (items m' a) = i_next (items m a) \<and> i_prev (items m' a) = i_prev (items m a)
      \<and> item_id (items m' a) = item_id (items m a)"
    and "mp_page_size (pool m') = mp_page_size (pool m)" and "item_head s' x = item_head s x" "item_tail s' x = item_tail s x"
    and "per_slab s' = per_slab s" "slab_size s' = slab_size s" "slab_id s' = slab_id s"
  shows "lru_list s' m' x as"
proof -
  have id: "id_to_item m' = id_to_item m"
    using assms(3) by (simp add: id_to_item_def fun_eq_iff)
  have good: "good s' = good s"
    by (rule good_cong) (use assms(6-8) in simp_all)
  have "dlist (item_nx m') (item_pv m') h t as = dlist (item_nx m) (item_pv m) h t as" for h t
    by (rule dlist_cong) (use assms(2) in \<open>simp add: item_nx_def item_pv_def id\<close>)
  then show ?thesis
    using assms(1,2,4,5) unfolding lru_list_def id good by (simp add: named_def id good)
qed

lemma item_views:
  "item_nx (upd_item a f m) = (item_nx m)(a := id_to_item m (i_next (f (items m a))))"
  "item_pv (upd_item a f m) = (item_pv m)(a := id_to_item m (i_prev (f (items m a))))"
  by (auto simp: item_nx_def item_pv_def fun_eq_iff id_to_item_def)

lemma id_to_item_upd [simp]: "id_to_item (upd_item a f m) = id_to_item m" "id_to_item (upd_page p g m) = id_to_item m"
  by (simp_all add: id_to_item_def fun_eq_iff)

lemma id_to_item_0 [simp]: "id_to_item m 0 = None"
  by (simp add: id_to_item_def ITEM_ADDR_def)

lemma named_nonzero: "named s m a \<Longrightarrow> item_id (items m a) \<noteq> 0"
  by (auto simp: named_def)

lemma lru_listI:
  assumes "dlist (item_nx m) (item_pv m) (id_to_item m (item_head s x)) (id_to_item m (item_tail s x)) as"
    and "good s (item_head s x)" "good s (item_tail s x)"
    and "\<And>a. a \<in> set as \<Longrightarrow> named s m a \<and> good s (i_next (items m a)) \<and> good s (i_prev (items m a))"
  shows "lru_list s m x as"
  using assms by (simp add: lru_list_def)

text \<open>An item is put in front of the list of an area.\<close>

lemma link_item_list:
  assumes "lru_list s m x as" and "x < TAIR_MAX_AREA_COUNT" and "a \<notin> set as" and "named s m a"
  shows "\<exists>h t m'. link_item a x (s, m) = Some (s\<lparr>item_head := h, item_tail := t\<rparr>, m')
    \<and> lru_list (s\<lparr>item_head := h, item_tail := t\<rparr>) m' x (a # as) \<and> same_items m m'
    \<and> (\<forall>b. b \<notin> set (a # as) \<longrightarrow> items m' b = items m b) \<and> (\<forall>y. y \<noteq> x \<longrightarrow> h y = item_head s y \<and> t y = item_tail s y)"
proof -
  let ?i = "item_id (items m a)" and ?w = "item_head s x"
  have d: "dlist (item_nx m) (item_pv m) (id_to_item m ?w) (id_to_item m (item_tail s x)) as"
    and good: "good s ?w" "good s (item_tail s x)"
    using assms(1) by (auto simp: lru_list_def)
  have i: "?i \<noteq> 0" "id_to_item m ?i = Some a" "good s ?i"
    using assms(4) named_nonzero by (auto simp: named_def)
  have old: "f \<in> set as" "f \<noteq> a" if "id_to_item m ?w = Some f" for f
    using dlist_head_mem [of "item_nx m" "item_pv m" f "id_to_item m (item_tail s x)" as] d that assms(3) by auto
  define m1 where "m1 = upd_item a (\<lambda>it. it\<lparr>i_next := ?w, i_prev := 0\<rparr>) m"
  define m' where "m' = (case id_to_item m ?w of None \<Rightarrow> m1 | Some f \<Rightarrow> upd_item f (i_prev_update (\<lambda>_. ?i)) m1)"
  define h where "h = (item_head s)(x := ?i)"
  define t where "t = (if item_tail s x = 0 then (item_tail s)(x := ?i) else item_tail s)"
  have ids: "item_id (items m' b) = item_id (items m b)" for b
    by (auto simp: m'_def m1_def split: option.splits)
  have id: "id_to_item m' = id_to_item m"
    by (auto simp: m'_def m1_def split: option.splits)
  have "link_item a x (s, m) = Some (s\<lparr>item_head := h, item_tail := t\<rparr>, m')"
    using i(1) assms(2) old(2)
    by (auto simp: link_item_def Let_def h_def t_def m'_def m1_def split: option.splits)
  moreover have same: "same_items m m'"
    using old(2) by (auto simp: same_items_def m'_def m1_def unlinked_def split: option.splits)
  moreover have "items m' b = items m b" if "b \<notin> set (a # as)" for b
    using old(1) that by (auto simp: m'_def m1_def split: option.splits)
  moreover have "lru_list (s\<lparr>item_head := h, item_tail := t\<rparr>) m' x (a # as)"
  proof (rule lru_listI)
    have nx: "item_nx m' = (item_nx m)(a := id_to_item m ?w)"
        "item_pv m' = (case id_to_item m ?w of None \<Rightarrow> (item_pv m)(a := None) | Some f \<Rightarrow> (item_pv m)(a := None, f := Some a))"
      using old(2) i(2) by (auto simp: m'_def m1_def item_views item_nx_def fun_eq_iff split: option.splits)
    have "id_to_item m ?w = None \<longleftrightarrow> item_tail s x = 0"
      using dlist_head [OF d] dlist_tail [OF d] good_None [OF good(2), of m] by (auto split: list.splits if_splits)
    then have "id_to_item m (t x) = (if id_to_item m ?w = None then Some a else id_to_item m (item_tail s x))"
      using i(2) by (simp add: t_def)
    then show "dlist (item_nx m') (item_pv m') (id_to_item m' (item_head (s\<lparr>item_head := h, item_tail := t\<rparr>) x))
        (id_to_item m' (item_tail (s\<lparr>item_head := h, item_tail := t\<rparr>) x)) (a # as)"
      using dlist_push_front [OF d assms(3)] i(2) by (simp add: nx id h_def)
    have [simp]: "good (s\<lparr>item_head := h, item_tail := t\<rparr>) = good s" for h t
      by (simp add: good_def fun_eq_iff)
    show "good (s\<lparr>item_head := h, item_tail := t\<rparr>) (item_head (s\<lparr>item_head := h, item_tail := t\<rparr>) x)"
        "good (s\<lparr>item_head := h, item_tail := t\<rparr>) (item_tail (s\<lparr>item_head := h, item_tail := t\<rparr>) x)"
      using i(3) good by (auto simp: h_def t_def)
    fix b assume "b \<in> set (a # as)"
    then show "named (s\<lparr>item_head := h, item_tail := t\<rparr>) m' b \<and> good (s\<lparr>item_head := h, item_tail := t\<rparr>) (i_next (items m' b))
        \<and> good (s\<lparr>item_head := h, item_tail := t\<rparr>) (i_prev (items m' b))"
      using assms(1,4) i(3) good(1) old(2) by (auto simp: named_def ids id lru_list_def m'_def m1_def split: option.splits)
  qed
  ultimately show ?thesis
    by (intro exI [of _ h] exI [of _ t] exI [of _ m']) (simp add: h_def t_def)
qed

text \<open>An item is taken out of the list of its area.\<close>

lemma unlink_item_list:
  assumes "shape s m" and "lru_list s m x as" and "x < TAIR_MAX_AREA_COUNT" and "a \<in> set as" and "ITEM_AREA (items m a) = x"
  shows "\<exists>h t m'. unlink_item a (s, m) = Some (s\<lparr>item_head := h, item_tail := t\<rparr>, m')
    \<and> lru_list (s\<lparr>item_head := h, item_tail := t\<rparr>) m' x (remove1 a as) \<and> same_items m m'
    \<and> (\<forall>b. b \<notin> set (remove1 a as) \<longrightarrow> items m' b = items m b) \<and> (\<forall>y. y \<noteq> x \<longrightarrow> h y = item_head s y \<and> t y = item_tail s y)"
proof -
  let ?it = "items m a"
  have d: "dlist (item_nx m) (item_pv m) (id_to_item m (item_head s x)) (id_to_item m (item_tail s x)) as"
    and good: "good s (item_head s x)" "good s (item_tail s x)"
    and a: "named s m a" "good s (i_next ?it)" "good s (i_prev ?it)"
    using assms(2,4) by (auto simp: lru_list_def)
  have i: "item_id ?it \<noteq> 0" "id_to_item m (item_id ?it) = Some a" "good s (item_id ?it)"
    using a(1) named_nonzero by (auto simp: named_def)
  obtain ys zs where split: "as = ys @ a # zs" "item_nx m a = (case zs of [] \<Rightarrow> None | z # _ \<Rightarrow> Some z)"
      "item_pv m a = (if ys = [] then None else Some (last ys))" "a \<notin> set (ys @ zs)"
    using dlist_split_at [OF d assms(4)] .
  have near: "b \<in> set (ys @ zs)" "b \<noteq> a" if "item_nx m a = Some b \<or> item_pv m a = Some b" for b
    using that split(2-4) by (auto split: list.splits if_splits)
  have removed: "remove1 a as = ys @ zs"
    using split(1,4) by (simp add: remove1_append)
  define m1 where "m1 = (case item_pv m a of None \<Rightarrow> m | Some l \<Rightarrow> upd_item l (i_next_update (\<lambda>_. i_next ?it)) m)"
  define m' where "m' = (case item_nx m a of None \<Rightarrow> m1 | Some r \<Rightarrow> upd_item r (i_prev_update (\<lambda>_. i_prev ?it)) m1)"
  define h where "h = (if id_to_item m (item_head s x) = Some a then (item_head s)(x := i_next ?it) else item_head s)"
  define t where "t = (if id_to_item m (item_tail s x) = Some a then (item_tail s)(x := i_prev ?it) else item_tail s)"
  have m1: "items m1 a = ?it" "id_to_item m1 = id_to_item m"
    using near(2) by (auto simp: m1_def split: option.splits)
  then have m1_nx: "item_nx m1 a = item_nx m a"
    by (simp add: item_nx_def)
  have ids: "item_id (items m' b) = item_id (items m b)" for b
    by (auto simp: m'_def m1_def split: option.splits)
  have id: "id_to_item m' = id_to_item m"
    by (auto simp: m'_def m1_def split: option.splits)
  have eq: "itemid_equal (item_id ?it) (item_head s x) \<longleftrightarrow> id_to_item m (item_head s x) = Some a"
      "itemid_equal (item_id ?it) (item_tail s x) \<longleftrightarrow> id_to_item m (item_tail s x) = Some a"
    using good_equal [OF assms(1) i(3) _ i(1)] good i(2) by simp_all
  have "unlink_item a (s, m) = Some (s\<lparr>item_head := h, item_tail := t\<rparr>, m')"
    unfolding unlink_item_def Let_def case_prod_conv assms(5) eq item_pv_def [symmetric] m1_def [symmetric] m1
      item_nx_def [symmetric] m'_def [symmetric]
    using i(1) assms(3) by (simp add: h_def t_def eq m1_nx m'_def)
  moreover have same: "same_items m m'"
    by (auto simp: same_items_def m'_def m1_def unlinked_def split: option.splits)
  moreover have "items m' b = items m b" if "b \<notin> set (remove1 a as)" for b
    using near(1) that removed by (auto simp: m'_def m1_def split: option.splits)
  moreover have "lru_list (s\<lparr>item_head := h, item_tail := t\<rparr>) m' x (remove1 a as)"
  proof (rule lru_listI)
    have "item_nx m' = (case item_pv m a of None \<Rightarrow> item_nx m | Some l \<Rightarrow> (item_nx m)(l := item_nx m a))"
        "item_pv m' = (case item_nx m a of None \<Rightarrow> item_pv m | Some r \<Rightarrow> (item_pv m)(r := item_pv m a))"
      unfolding m'_def m1_def
      by (auto simp: item_views fun_eq_iff split: option.splits) (auto simp: item_nx_def item_pv_def)
    moreover have "id_to_item m (h x) = (if id_to_item m (item_head s x) = Some a then item_nx m a else id_to_item m (item_head s x))"
        "id_to_item m (t x) = (if id_to_item m (item_tail s x) = Some a then item_pv m a else id_to_item m (item_tail s x))"
      by (auto simp: h_def t_def item_nx_def item_pv_def)
    ultimately show "dlist (item_nx m') (item_pv m') (id_to_item m' (item_head (s\<lparr>item_head := h, item_tail := t\<rparr>) x))
        (id_to_item m' (item_tail (s\<lparr>item_head := h, item_tail := t\<rparr>) x)) (remove1 a as)"
      using dlist_remove [OF d [unfolded split(1)]] removed id by simp
    have [simp]: "good (s\<lparr>item_head := h, item_tail := t\<rparr>) = good s" for h t
      by (simp add: good_def fun_eq_iff)
    show "good (s\<lparr>item_head := h, item_tail := t\<rparr>) (item_head (s\<lparr>item_head := h, item_tail := t\<rparr>) x)"
        "good (s\<lparr>item_head := h, item_tail := t\<rparr>) (item_tail (s\<lparr>item_head := h, item_tail := t\<rparr>) x)"
      using a good by (auto simp: h_def t_def)
    fix b assume "b \<in> set (remove1 a as)"
    then have "b \<in> set as"
      by (rule set_remove1_subset [THEN subsetD])
    then show "named (s\<lparr>item_head := h, item_tail := t\<rparr>) m' b \<and> good (s\<lparr>item_head := h, item_tail := t\<rparr>) (i_next (items m' b))
        \<and> good (s\<lparr>item_head := h, item_tail := t\<rparr>) (i_prev (items m' b))"
      using assms(2) a(2,3) by (auto simp: named_def ids id lru_list_def m'_def m1_def split: option.splits)
  qed
  ultimately show ?thesis
    by (intro exI [of _ h] exI [of _ t] exI [of _ m']) (simp add: h_def t_def)
qed

section \<open>All areas\<close>

lemma lruI:
  assumes "\<And>x. x < TAIR_MAX_AREA_COUNT \<Longrightarrow> lru_list s m x (U x)"
    and "\<And>x y. x < TAIR_MAX_AREA_COUNT \<Longrightarrow> y < TAIR_MAX_AREA_COUNT \<Longrightarrow> x \<noteq> y \<Longrightarrow> set (U x) \<inter> set (U y) = {}"
  shows "lru s m U"
  using assms by (simp add: lru_def)

lemma lru_listD: "lru s m U \<Longrightarrow> x < TAIR_MAX_AREA_COUNT \<Longrightarrow> lru_list s m x (U x)"
  by (simp add: lru_def)

lemma lru_disjoint: "lru s m U \<Longrightarrow> x < TAIR_MAX_AREA_COUNT \<Longrightarrow> y < TAIR_MAX_AREA_COUNT \<Longrightarrow> x \<noteq> y \<Longrightarrow> set (U x) \<inter> set (U y) = {}"
  by (simp add: lru_def)

lemma lru_distinct: "lru s m U \<Longrightarrow> x < TAIR_MAX_AREA_COUNT \<Longrightarrow> distinct (U x)"
  by (auto simp: lru_def lru_list_def dest: dlist_distinct)

lemma usedI: "x < TAIR_MAX_AREA_COUNT \<Longrightarrow> a \<in> set (U x) \<Longrightarrow> a \<in> used U"
  by (auto simp: used_def)

text \<open>Changes outside the lists do not matter.\<close>

lemma lru_frame:
  assumes "lru s m U" and "\<And>a. a \<in> used U \<Longrightarrow> i_next (items m' a) = i_next (items m a) \<and> i_prev (items m' a) = i_prev (items m a)
      \<and> item_id (items m' a) = item_id (items m a)"
    and "mp_page_size (pool m') = mp_page_size (pool m)" and "item_head s' = item_head s" "item_tail s' = item_tail s"
    and "per_slab s' = per_slab s" "slab_size s' = slab_size s" "slab_id s' = slab_id s"
  shows "lru s' m' U"
proof (rule lruI)
  fix x assume x: "x < TAIR_MAX_AREA_COUNT"
  show "lru_list s' m' x (U x)"
    by (rule lru_list_frame [OF lru_listD [OF assms(1) x]]) (use assms usedI [OF x] in simp_all)
qed (rule lru_disjoint [OF assms(1)])

lemma link_item_lru:
  assumes "lru s m U" and "x < TAIR_MAX_AREA_COUNT" and "a \<notin> used U" and "named s m a"
  shows "\<exists>h t m'. link_item a x (s, m) = Some (s\<lparr>item_head := h, item_tail := t\<rparr>, m')
    \<and> lru (s\<lparr>item_head := h, item_tail := t\<rparr>) m' (U(x := a # U x)) \<and> same_items m m'
    \<and> (\<forall>b. b \<noteq> a \<and> b \<notin> used U \<longrightarrow> items m' b = items m b)"
proof -
  have a: "a \<notin> set (U y)" if "y < TAIR_MAX_AREA_COUNT" for y
    using assms(3) usedI [OF that] by blast
  obtain h t m' where l: "link_item a x (s, m) = Some (s\<lparr>item_head := h, item_tail := t\<rparr>, m')"
      "lru_list (s\<lparr>item_head := h, item_tail := t\<rparr>) m' x (a # U x)" "same_items m m'"
      "\<forall>b. b \<notin> set (a # U x) \<longrightarrow> items m' b = items m b" "\<forall>y. y \<noteq> x \<longrightarrow> h y = item_head s y \<and> t y = item_tail s y"
    using link_item_list [OF lru_listD [OF assms(1,2)] assms(2) a [OF assms(2)] assms(4)] by blast
  have "lru (s\<lparr>item_head := h, item_tail := t\<rparr>) m' (U(x := a # U x))"
  proof (rule lruI)
    fix y assume y: "y < TAIR_MAX_AREA_COUNT"
    show "lru_list (s\<lparr>item_head := h, item_tail := t\<rparr>) m' y ((U(x := a # U x)) y)"
    proof (cases "y = x")
      case False
      have "items m' b = items m b" if "b \<in> set (U y)" for b
        using l(4) that a [OF y] lru_disjoint [OF assms(1) y assms(2) False] by auto
      then have "lru_list (s\<lparr>item_head := h, item_tail := t\<rparr>) m' y (U y)"
        using l(3,5) False by (intro lru_list_frame [OF lru_listD [OF assms(1) y]]) (simp_all add: same_items_def)
      then show ?thesis
        using False by simp
    qed (use l(2) in simp)
    fix z assume z: "z < TAIR_MAX_AREA_COUNT" "y \<noteq> z"
    then show "set ((U(x := a # U x)) y) \<inter> set ((U(x := a # U x)) z) = {}"
      using lru_disjoint [OF assms(1) y z] a [OF y] a [OF z(1)] by auto
  qed
  moreover have "\<forall>b. b \<noteq> a \<and> b \<notin> used U \<longrightarrow> items m' b = items m b"
    using l(4) usedI [OF assms(2), of _ U] by auto
  ultimately show ?thesis
    using l(1,3) by blast
qed

lemma used_link: "x < TAIR_MAX_AREA_COUNT \<Longrightarrow> used (U(x := a # U x)) = insert a (used U)"
  by (auto simp: used_def split: if_splits)

lemma unlink_item_lru:
  assumes "shape s m" and "lru s m U" and "x < TAIR_MAX_AREA_COUNT" and "a \<in> set (U x)" and "ITEM_AREA (items m a) = x"
  shows "\<exists>h t m'. unlink_item a (s, m) = Some (s\<lparr>item_head := h, item_tail := t\<rparr>, m')
    \<and> lru (s\<lparr>item_head := h, item_tail := t\<rparr>) m' (U(x := remove1 a (U x))) \<and> same_items m m'
    \<and> used (U(x := remove1 a (U x))) = used U - {a} \<and> items m' a = items m a
    \<and> (\<forall>b. b \<notin> used U \<longrightarrow> items m' b = items m b)"
proof -
  obtain h t m' where l: "unlink_item a (s, m) = Some (s\<lparr>item_head := h, item_tail := t\<rparr>, m')"
      "lru_list (s\<lparr>item_head := h, item_tail := t\<rparr>) m' x (remove1 a (U x))" "same_items m m'"
      "\<forall>b. b \<notin> set (remove1 a (U x)) \<longrightarrow> items m' b = items m b" "\<forall>y. y \<noteq> x \<longrightarrow> h y = item_head s y \<and> t y = item_tail s y"
    using unlink_item_list [OF assms(1) lru_listD [OF assms(2,3)] assms(3-5)] by blast
  have sub: "set (remove1 a (U x)) = set (U x) - {a}"
    using lru_distinct [OF assms(2,3)] by simp
  have "lru (s\<lparr>item_head := h, item_tail := t\<rparr>) m' (U(x := remove1 a (U x)))"
  proof (rule lruI)
    fix y assume y: "y < TAIR_MAX_AREA_COUNT"
    show "lru_list (s\<lparr>item_head := h, item_tail := t\<rparr>) m' y ((U(x := remove1 a (U x))) y)"
    proof (cases "y = x")
      case False
      have "items m' b = items m b" if "b \<in> set (U y)" for b
        using l(4) that sub lru_disjoint [OF assms(2) y assms(3) False] by auto
      then have "lru_list (s\<lparr>item_head := h, item_tail := t\<rparr>) m' y (U y)"
        using l(3,5) False by (intro lru_list_frame [OF lru_listD [OF assms(2) y]]) (simp_all add: same_items_def)
      then show ?thesis
        using False by simp
    qed (use l(2) in simp)
    fix z assume z: "z < TAIR_MAX_AREA_COUNT" "y \<noteq> z"
    then show "set ((U(x := remove1 a (U x))) y) \<inter> set ((U(x := remove1 a (U x))) z) = {}"
      using lru_disjoint [OF assms(2) y z] sub by auto
  qed
  moreover have "used (U(x := remove1 a (U x))) = used U - {a}"
  proof -
    have "set ((U(x := remove1 a (U x))) y) = set (U y) - {a}" if "y < TAIR_MAX_AREA_COUNT" for y
      using sub lru_disjoint [OF assms(2) that assms(3)] assms(4) by (cases "y = x") auto
    then show ?thesis
      unfolding used_def by blast
  qed
  moreover have "items m' a = items m a" "\<forall>b. b \<notin> used U \<longrightarrow> items m' b = items m b"
    using l(4) sub usedI [OF assms(3), of _ U] by auto
  ultimately show ?thesis
    using l(1,3) by blast
qed

end
