(* ===== verification/Slab_Invariant.thy ===== *)
theory Slab_Invariant
  imports Slab_Items
begin

text \<open>
  The invariant of a slab: its pages lie in the lists of their classes, the free slots of a page are
  chained from its header, and the used slots are in the list of exactly one area. Inside an operation
  some pages \<open>D\<close> are out of the lists and some slots \<open>X\<close> neither free nor in a list; the lemmas take
  the invariant through the single steps that the operations are made of.
\<close>

section \<open>The invariant\<close>

fun free_chain :: "slab_manager \<Rightarrow> mdb_mem \<Rightarrow> nat \<Rightarrow> 64 word \<Rightarrow> nat list \<Rightarrow> bool" where
  "free_chain s m p w [] \<longleftrightarrow> w = 0"
| "free_chain s m p w (k # ks) \<longleftrightarrow> w \<noteq> 0 \<and> names s w p k \<and> item_id (items m (slot_addr s m p k)) = w
     \<and> free_chain s m p (h_next (items m (slot_addr s m p k))) ks"

definition page_free :: "slab_manager \<Rightarrow> mdb_mem \<Rightarrow> (nat \<Rightarrow> nat list) \<Rightarrow> nat \<Rightarrow> bool" where
  "page_free s m F p \<longleftrightarrow> distinct (F p) \<and> set (F p) \<subseteq> {..<per_slab s} \<and> free_nr (pages m p) = length (F p)
     \<and> free_chain s m p (free_head (pages m p)) (F p)"

definition slot_ok :: "slab_manager \<Rightarrow> mdb_mem \<Rightarrow> nat \<Rightarrow> nat \<Rightarrow> bool" where
  "slot_ok s m p k \<longleftrightarrow> names s (item_id (items m (slot_addr s m p k))) p k
     \<and> length (idata (items m (slot_addr s m p k))) = slab_size s - sizeof_mdb_item"

definition page_ok :: "slab_manager \<Rightarrow> mdb_mem \<Rightarrow> (nat \<Rightarrow> nat list) \<Rightarrow> nat \<Rightarrow> bool" where
  "page_ok s m F p \<longleftrightarrow> p \<in> pages_in_use (pool m) \<and> page_free s m F p \<and> (\<forall>k<per_slab s. slot_ok s m p k)"

definition slots :: "slab_manager \<Rightarrow> mdb_mem \<Rightarrow> (nat \<Rightarrow> nat list) \<Rightarrow> nat set \<Rightarrow> nat set" where
  "slots s m F P = {slot_addr s m p k | p k. p \<in> P \<and> k < per_slab s \<and> k \<notin> set (F p)}"

definition slab_core ::
  "slab_manager \<Rightarrow> mdb_mem \<Rightarrow> (nat \<Rightarrow> nat list) \<Rightarrow> (nat \<Rightarrow> nat list) \<Rightarrow> (nat \<Rightarrow> nat list) \<Rightarrow> nat set \<Rightarrow> nat set \<Rightarrow> bool" where
  "slab_core s m L F U D X \<longleftrightarrow> shape s m \<and> mem_pool_wf (pool m) \<and> plists s m L
     \<and> (\<forall>p\<in>D. page_at s m p \<and> p \<notin> listed s L)
     \<and> (\<forall>p\<in>listed s L \<union> D. page_ok s m F p)
     \<and> lru s m U \<and> used U \<union> X = slots s m F (listed s L \<union> D) \<and> used U \<inter> X = {}"

definition counts :: "slab_manager \<Rightarrow> (nat \<Rightarrow> nat list) \<Rightarrow> nat \<Rightarrow> bool" where
  "counts s L n \<longleftrightarrow> free_pages_no s = int (length (L 0)) \<and> full_pages_no s = int (length (L 1))
     \<and> partial_pages_no s = int (\<Sum>c\<in>{2..<classes s}. length (L c)) + int n"

definition slab_inv :: "slab_manager \<Rightarrow> mdb_mem \<Rightarrow> (nat \<Rightarrow> nat list) \<Rightarrow> (nat \<Rightarrow> nat list) \<Rightarrow> (nat \<Rightarrow> nat list) \<Rightarrow> bool" where
  "slab_inv s m L F U \<longleftrightarrow> slab_core s m L F U {} {} \<and> counts s L 0"

text \<open>What an operation leaves alone: everything outside the pages \<open>P\<close>.\<close>

definition confined :: "nat set \<Rightarrow> mdb_mem \<Rightarrow> mdb_mem \<Rightarrow> bool" where
  "confined P m m' \<longleftrightarrow> mp_page_size (pool m') = mp_page_size (pool m) \<and> mp_total_pages (pool m') = mp_total_pages (pool m)
     \<and> (\<forall>q. q \<notin> P \<longrightarrow> pages m' q = pages m q) \<and> (\<forall>b. b div mp_page_size (pool m) \<notin> P \<longrightarrow> items m' b = items m b)"

lemma confined_refl [simp]: "confined P m m"
  by (simp add: confined_def)

lemma confined_trans: "confined P m m' \<Longrightarrow> confined Q m' m'' \<Longrightarrow> P \<subseteq> R \<Longrightarrow> Q \<subseteq> R \<Longrightarrow> confined R m m''"
  unfolding confined_def by (metis subsetD)

lemma confined_mono: "confined P m m' \<Longrightarrow> P \<subseteq> R \<Longrightarrow> confined R m m'"
  by (auto simp: confined_def)

section \<open>Frames\<close>

lemma slot_page:
  assumes "shape s m" and "k < per_slab s"
  shows "slot_addr s m p k div mp_page_size (pool m) = p"
proof -
  have "k * slab_size s + slab_size s \<le> per_slab s * slab_size s"
    using assms(2) by (metis Suc_leI add.commute mult_Suc mult_le_mono1)
  then have "sizeof_page_info + k * slab_size s < mp_page_size (pool m)"
    using assms(1) by (simp add: shape_def sizeof_mdb_item_def)
  then show ?thesis
    by (simp add: slot_addr_def add.assoc)
qed

lemma slot_addr_cong: "mp_page_size (pool m') = mp_page_size (pool m) \<Longrightarrow> slab_size s' = slab_size s \<Longrightarrow> slot_addr s' m' = slot_addr s m"
  by (simp add: slot_addr_def fun_eq_iff)

lemma free_chain_cong:
  assumes "slot_addr s' m' = slot_addr s m" and "names s' = names s"
    and "\<forall>k\<in>set ks. item_id (items m' (slot_addr s m p k)) = item_id (items m (slot_addr s m p k))
           \<and> h_next (items m' (slot_addr s m p k)) = h_next (items m (slot_addr s m p k))"
  shows "free_chain s' m' p w ks = free_chain s m p w ks"
  using assms(3) by (induction ks arbitrary: w) (simp_all add: assms(1,2))

text \<open>A page keeps its place when its header, its slots and its mark in the pool are kept.\<close>

definition same_slot :: "mdb_item \<Rightarrow> mdb_item \<Rightarrow> bool" where
  "same_slot it it' \<longleftrightarrow> item_id it' = item_id it \<and> h_next it' = h_next it \<and> length (idata it') = length (idata it)"

lemma page_ok_frame:
  assumes "page_ok s m F p" and "F' p = F p" and "p \<in> pages_in_use (pool m')"
    and "free_nr (pages m' p) = free_nr (pages m p)" "free_head (pages m' p) = free_head (pages m p)"
    and "\<And>k. k < per_slab s \<Longrightarrow> same_slot (items m (slot_addr s m p k)) (items m' (slot_addr s m p k))"
    and "mp_page_size (pool m') = mp_page_size (pool m)"
    and "per_slab s' = per_slab s" "slab_size s' = slab_size s" "slab_id s' = slab_id s"
  shows "page_ok s' m' F' p"
proof -
  have addr: "slot_addr s' m' = slot_addr s m" and names: "names s' = names s"
    using slot_addr_cong [of m' m s' s] names_cong [of s' s] assms(7,9,10) by simp_all
  have "set (F p) \<subseteq> {..<per_slab s}"
    using assms(1) by (simp add: page_ok_def page_free_def)
  then have "free_chain s' m' p w (F p) = free_chain s m p w (F p)" for w
    using assms(6) by (intro free_chain_cong [OF addr names]) (auto simp: same_slot_def)
  then have "page_free s' m' F' p"
    using assms(1,2,4,5,8) by (simp add: page_ok_def page_free_def)
  moreover have "slot_ok s' m' p k" if "k < per_slab s" for k
    using assms(1,9) assms(6) [OF that] that by (simp add: page_ok_def slot_ok_def addr names same_slot_def)
  ultimately show ?thesis
    using assms(3,8) by (simp add: page_ok_def)
qed

lemma page_ok_in_use: "page_ok s m F p \<Longrightarrow> p \<in> pages_in_use (pool m)"
  by (simp add: page_ok_def)

lemma same_slot_refl [simp]: "same_slot it it"
  by (simp add: same_slot_def)

lemma same_items_slot: "same_items m m' \<Longrightarrow> same_slot (items m a) (items m' a)"
  using unlinked_fields [of "items m' a" "items m a"] by (simp add: same_items_def same_slot_def)

lemma slots_cong: "slot_addr s' m' = slot_addr s m \<Longrightarrow> per_slab s' = per_slab s \<Longrightarrow> slots s' m' F P = slots s m F P"
  by (simp add: slots_def)

lemma slab_core_page: "slab_core s m L F U D X \<Longrightarrow> p \<in> listed s L \<union> D \<Longrightarrow> page_at s m p \<and> page_ok s m F p"
  by (auto simp: slab_core_def listed_def dest: plists_page)

lemma slab_core_slot:
  assumes "slab_core s m L F U D X" and "a \<in> used U \<union> X"
  obtains p k where "p \<in> listed s L \<union> D" "k < per_slab s" "k \<notin> set (F p)" "a = slot_addr s m p k" "named s m a" "0 < p"
proof -
  obtain p k where pk: "p \<in> listed s L \<union> D" "k < per_slab s" "k \<notin> set (F p)" "a = slot_addr s m p k"
    using assms by (auto simp: slab_core_def slots_def)
  have "0 < p" "names s (item_id (items m a)) p k"
    using slab_core_page [OF assms(1) pk(1)] pk(2,4) by (auto simp: page_at_def page_ok_def slot_ok_def)
  moreover from this have "named s m a"
    using names_good [of s _ p k] names_addr [of s _ p k m] pk(2,4) by (simp add: named_def)
  ultimately show ?thesis
    using that pk by blast
qed

lemma slab_coreI:
  assumes "shape s m" "mem_pool_wf (pool m)" "plists s m L" "\<And>p. p \<in> D \<Longrightarrow> page_at s m p \<and> p \<notin> listed s L"
    "\<And>p. p \<in> listed s L \<union> D \<Longrightarrow> page_ok s m F p" "lru s m U" "used U \<union> X = slots s m F (listed s L \<union> D)" "used U \<inter> X = {}"
  shows "slab_core s m L F U D X"
  using assms by (simp add: slab_core_def)

lemma slab_coreD:
  assumes "slab_core s m L F U D X"
  shows "shape s m" "mem_pool_wf (pool m)" "plists s m L" "lru s m U" "used U \<union> X = slots s m F (listed s L \<union> D)" "used U \<inter> X = {}"
    "\<And>p. p \<in> D \<Longrightarrow> page_at s m p \<and> p \<notin> listed s L" "\<And>p. p \<in> listed s L \<union> D \<Longrightarrow> page_ok s m F p"
  using assms by (simp_all add: slab_core_def)

lemma listed_cong: "per_slab s' = per_slab s \<Longrightarrow> listed s' = listed s"
  using classes_cong [of s' s] by (simp add: listed_def fun_eq_iff)

text \<open>The counters and the eviction index of a slab do not matter for it.\<close>

lemma slab_core_cong:
  assumes "slab_core s m L F U D X" and "per_slab s' = per_slab s" "slab_size s' = slab_size s" "slab_id s' = slab_id s"
    "free_pages s' = free_pages s" "full_pages s' = full_pages s" "partial_pages s' = partial_pages s"
    "item_head s' = item_head s" "item_tail s' = item_tail s"
  shows "slab_core s' m L F U D X"
proof -
  note D = slab_coreD [OF assms(1)]
  have l: "listed s' L = listed s L"
    using listed_cong [OF assms(2)] by simp
  have addr: "slot_addr s' m = slot_addr s m"
    using slot_addr_cong [OF refl assms(3)] .
  show ?thesis
  proof (rule slab_coreI)
    show "shape s' m"
      using D(1) assms(2-4) by (simp add: shape_def)
    show "plists s' m L"
      by (rule plists_cong [OF D(3)]) (use assms in simp_all)
    show "lru s' m U"
      by (rule lru_frame [OF D(4)]) (use assms in simp_all)
    show "used U \<union> X = slots s' m F (listed s' L \<union> D)"
      using D(5) slots_cong [OF addr assms(2)] l by simp
    show "page_at s' m p \<and> p \<notin> listed s' L" if "p \<in> D" for p
      using D(7) [OF that] l by (simp add: page_at_def)
    show "page_ok s' m F p" if "p \<in> listed s' L \<union> D" for p
    proof -
      have ok: "page_ok s m F p"
        using D(8) that l by simp
      show ?thesis
        by (rule page_ok_frame [OF ok]) (use assms page_ok_in_use [OF ok] in simp_all)
    qed
  qed (use D in simp_all)
qed

text \<open>A slab does not notice what happens outside its pages.\<close>

lemma slab_core_outside:
  assumes "slab_core s m L F U D X" and "confined P m m'" and "P \<inter> (listed s L \<union> D) = {}"
    and "mem_pool_wf (pool m')" and "listed s L \<union> D \<subseteq> pages_in_use (pool m')"
  shows "slab_core s m' L F U D X"
proof -
  note D = slab_coreD [OF assms(1)]
  have same: "mp_page_size (pool m') = mp_page_size (pool m)" "mp_total_pages (pool m') = mp_total_pages (pool m)"
      "\<And>p. p \<in> listed s L \<union> D \<Longrightarrow> pages m' p = pages m p"
    using assms(2,3) by (auto simp: confined_def)
  have slot: "items m' (slot_addr s m p k) = items m (slot_addr s m p k)" if "p \<in> listed s L \<union> D" "k < per_slab s" for p k
    using assms(2,3) slot_page [OF D(1) that(2)] that(1) by (auto simp: confined_def)
  have used: "items m' a = items m a" if "a \<in> used U" for a
    using slab_core_slot [OF assms(1)] slot that by (metis UnI1)
  have addr: "slot_addr s m' = slot_addr s m"
    using slot_addr_cong [OF same(1) refl] .
  show ?thesis
  proof (rule slab_coreI)
    show "shape s m'"
      by (rule shape_cong [OF D(1)]) (simp_all add: same)
    show "plists s m' L"
      by (rule plists_frame [OF D(3)]) (simp_all add: same)
    show "lru s m' U"
      by (rule lru_frame [OF D(4)]) (simp_all add: used same)
    show "used U \<union> X = slots s m' F (listed s L \<union> D)"
      using D(5) slots_cong [OF addr refl] by simp
    show "page_at s m' p \<and> p \<notin> listed s L" if "p \<in> D" for p
      using D(7) [OF that] same that by (simp add: page_at_def)
    show "page_ok s m' F p" if "p \<in> listed s L \<union> D" for p
      using D(8) [OF that] by (rule page_ok_frame) (use assms(5) that same slot in auto)
  qed (use D assms(4) in simp_all)
qed

section \<open>Steps on items\<close>

text \<open>Changes of links, with the lists described by \<open>U'\<close> afterwards.\<close>

lemma slab_core_items:
  assumes "slab_core s m L F U D X" and "same_items m m'" and "lru (s\<lparr>item_head := h, item_tail := t\<rparr>) m' U'"
    and "used U' \<union> X' = used U \<union> X" and "used U' \<inter> X' = {}"
  shows "slab_core (s\<lparr>item_head := h, item_tail := t\<rparr>) m' L F U' D X'"
proof -
  let ?s = "s\<lparr>item_head := h, item_tail := t\<rparr>"
  note D = slab_coreD [OF assms(1)]
  have same: "pool m' = pool m" "pages m' = pages m"
    using assms(2) by (simp_all add: same_items_def)
  have l: "listed ?s L = listed s L"
    using listed_cong [of ?s s] by simp
  have addr: "slot_addr ?s m' = slot_addr s m"
    by (rule slot_addr_cong) (simp_all add: same)
  show ?thesis
  proof (rule slab_coreI)
    show "shape ?s m'"
      by (rule shape_cong [OF D(1)]) (simp_all add: same)
    show "plists ?s m' L"
      by (rule plists_frame [OF D(3)]) (simp_all add: same)
    show "used U' \<union> X' = slots ?s m' F (listed ?s L \<union> D)"
      using D(5) assms(4) slots_cong [OF addr, of F] l by simp
    show "page_at ?s m' p \<and> p \<notin> listed ?s L" if "p \<in> D" for p
      using D(7) [OF that] same l by (simp add: page_at_def)
    show "page_ok ?s m' F p" if "p \<in> listed ?s L \<union> D" for p
    proof -
      have ok: "page_ok s m F p"
        using D(8) that l by simp
      show ?thesis
        by (rule page_ok_frame [OF ok]) (use same same_items_slot [OF assms(2)] page_ok_in_use [OF ok] in simp_all)
    qed
  qed (use D same assms in simp_all)
qed

lemma link_item_core:
  assumes "slab_core s m L F U D X" and "x < TAIR_MAX_AREA_COUNT" and "a \<in> X"
  shows "\<exists>h t m'. link_item a x (s, m) = Some (s\<lparr>item_head := h, item_tail := t\<rparr>, m')
    \<and> slab_core (s\<lparr>item_head := h, item_tail := t\<rparr>) m' L F (U(x := a # U x)) D (X - {a}) \<and> same_items m m'
    \<and> (\<forall>b. b \<noteq> a \<and> b \<notin> used U \<longrightarrow> items m' b = items m b)"
proof -
  note D = slab_coreD [OF assms(1)]
  have "a \<notin> used U"
    using D(6) assms(3) by auto
  moreover have "named s m a"
    using slab_core_slot [OF assms(1), of a] assms(3) by blast
  ultimately obtain h t m' where l: "link_item a x (s, m) = Some (s\<lparr>item_head := h, item_tail := t\<rparr>, m')"
      "lru (s\<lparr>item_head := h, item_tail := t\<rparr>) m' (U(x := a # U x))" "same_items m m'"
      "\<forall>b. b \<noteq> a \<and> b \<notin> used U \<longrightarrow> items m' b = items m b"
    using link_item_lru [OF D(4) assms(2)] by blast
  have "slab_core (s\<lparr>item_head := h, item_tail := t\<rparr>) m' L F (U(x := a # U x)) D (X - {a})"
    by (rule slab_core_items [OF assms(1) l(3,2)]) (use used_link [OF assms(2)] assms(3) D(6) in auto)
  then show ?thesis
    using l by blast
qed

lemma unlink_item_core:
  assumes "slab_core s m L F U D X" and "x < TAIR_MAX_AREA_COUNT" and "a \<in> set (U x)" and "ITEM_AREA (items m a) = x"
  shows "\<exists>h t m'. unlink_item a (s, m) = Some (s\<lparr>item_head := h, item_tail := t\<rparr>, m')
    \<and> slab_core (s\<lparr>item_head := h, item_tail := t\<rparr>) m' L F (U(x := remove1 a (U x))) D (insert a X) \<and> same_items m m'
    \<and> used (U(x := remove1 a (U x))) = used U - {a} \<and> items m' a = items m a
    \<and> (\<forall>b. b \<notin> used U \<longrightarrow> items m' b = items m b)"
proof -
  note D = slab_coreD [OF assms(1)]
  obtain h t m' where l: "unlink_item a (s, m) = Some (s\<lparr>item_head := h, item_tail := t\<rparr>, m')"
      "lru (s\<lparr>item_head := h, item_tail := t\<rparr>) m' (U(x := remove1 a (U x)))" "same_items m m'"
      "used (U(x := remove1 a (U x))) = used U - {a}" "items m' a = items m a" "\<forall>b. b \<notin> used U \<longrightarrow> items m' b = items m b"
    using unlink_item_lru [OF D(1,4) assms(2-4)] by blast
  have "slab_core (s\<lparr>item_head := h, item_tail := t\<rparr>) m' L F (U(x := remove1 a (U x))) D (insert a X)"
    by (rule slab_core_items [OF assms(1) l(3,2)]) (use l(4) usedI [of x a U] assms(2,3) D(6) in auto)
  then show ?thesis
    using l by blast
qed

section \<open>Steps on pages\<close>

lemma head_fields:
  "free_pages (set_head c h s) = (if c = 0 then h else free_pages s)" "full_pages (set_head c h s) = (if c = 1 then h else full_pages s)"
  "partial_pages (set_head (Suc (Suc b)) h s) = (partial_pages s)(b := h)"
  by (auto simp: set_head_def split: nat.splits)

text \<open>Changes of the lists of pages.\<close>

lemma slab_core_lists:
  assumes "slab_core s m L F U D X" and "same_pages m m'" and "plists (set_head c h s) m' L'"
    and "listed s L' \<union> D' = listed s L \<union> D" and "\<And>p. p \<in> D' \<Longrightarrow> p \<notin> listed s L'"
  shows "slab_core (set_head c h s) m' L' F U D' X"
proof -
  let ?s = "set_head c h s"
  note D = slab_coreD [OF assms(1)]
  have same: "pool m' = pool m" "items m' = items m" "\<And>p. pg_id (pages m' p) = pg_id (pages m p)"
      "\<And>p. free_nr (pages m' p) = free_nr (pages m p)" "\<And>p. free_head (pages m' p) = free_head (pages m p)"
    using assms(2) by (simp_all add: same_pages_def)
  have l: "listed ?s L' = listed s L'"
    using listed_cong [of ?s s] by simp
  have addr: "slot_addr ?s m' = slot_addr s m"
    by (rule slot_addr_cong) (simp_all add: same)
  show ?thesis
  proof (rule slab_coreI)
    show "shape ?s m'"
      by (rule shape_cong [OF D(1)]) (simp_all add: same)
    show "lru ?s m' U"
      by (rule lru_frame [OF D(4)]) (simp_all add: same)
    show "used U \<union> X = slots ?s m' F (listed ?s L' \<union> D')"
      using D(5) assms(4) slots_cong [OF addr, of F] l by simp
    show "page_at ?s m' p \<and> p \<notin> listed ?s L'" if "p \<in> D'" for p
    proof -
      have "p \<in> listed s L \<union> D"
        using that assms(4) by blast
      then show ?thesis
        using slab_core_page [OF assms(1)] assms(5) [OF that] l same by (simp add: page_at_def)
    qed
    show "page_ok ?s m' F p" if "p \<in> listed ?s L' \<union> D'" for p
    proof -
      have ok: "page_ok s m F p"
        using D(8) that l assms(4) by simp
      show ?thesis
        by (rule page_ok_frame [OF ok]) (use same page_ok_in_use [OF ok] in simp_all)
    qed
  qed (use D same assms in simp_all)
qed

lemma unlink_page_core:
  assumes "slab_core s m L F U D X" and "c < classes s" and "p \<in> set (L c)"
  shows "\<exists>h m'. unlink_page p (head_of s c) m = Some (h, m')
    \<and> slab_core (set_head c h s) m' (L(c := remove1 p (L c))) F U (insert p D) X \<and> same_pages m m'
    \<and> (\<forall>q. q \<notin> listed s L \<longrightarrow> pages m' q = pages m q) \<and> listed s (L(c := remove1 p (L c))) = listed s L - {p}"
proof -
  note D = slab_coreD [OF assms(1)]
  obtain h m' where u: "unlink_page p (head_of s c) m = Some (h, m')" "plists (set_head c h s) m' (L(c := remove1 p (L c)))"
      "same_pages m m'" "listed s (L(c := remove1 p (L c))) = listed s L - {p}" "\<forall>q. q \<notin> listed s L \<longrightarrow> pages m' q = pages m q"
    using unlink_page_plists [OF D(3) assms(2,3)] by blast
  have "p \<in> listed s L"
    using assms(2,3) unfolding listed_def by blast
  then have "slab_core (set_head c h s) m' (L(c := remove1 p (L c))) F U (insert p D) X"
    by (intro slab_core_lists [OF assms(1) u(3,2)]) (use u(4) D(7) in auto)
  then show ?thesis
    using u by blast
qed

lemma listed_link: "c < classes s \<Longrightarrow> listed s (L(c := p # L c)) = insert p (listed s L)"
  by (auto simp: listed_def split: if_splits)

lemma link_page_core:
  assumes "slab_core s m L F U (insert p D) X" and "p \<notin> D" and "class_of s (free_nr (pages m p)) = c" and "free_nr (pages m p) \<le> per_slab s"
  shows "\<exists>m'. link_page p (head_of s c) m = Some (p, m') \<and> slab_core (set_head c p s) m' (L(c := p # L c)) F U D X
    \<and> same_pages m m' \<and> (\<forall>q. q \<noteq> p \<and> q \<notin> listed s L \<longrightarrow> pages m' q = pages m q)"
proof -
  note D = slab_coreD [OF assms(1)]
  have c: "c < classes s"
    using class_of_less [OF assms(4)] assms(3) by simp
  obtain m' where l: "link_page p (head_of s c) m = Some (p, m')" "plists (set_head c p s) m' (L(c := p # L c))" "same_pages m m'"
      "\<forall>q. q \<noteq> p \<and> q \<notin> listed s L \<longrightarrow> pages m' q = pages m q"
    using link_page_plists [OF D(3) _ _ assms(3) c] D(7) [of p] by blast
  have "slab_core (set_head c p s) m' (L(c := p # L c)) F U D X"
    by (rule slab_core_lists [OF assms(1) l(3,2)]) (use listed_link [OF c, of L p] D(7) assms(2) in auto)
  then show ?thesis
    using l by blast
qed

end
