(* ===== verification/Slab_Steps.thy ===== *)
theory Slab_Steps
  imports Slab_Invariant
begin

text \<open>
  The steps that change what a page holds: a free slot is taken or given back, a page fresh from the
  pool is cut into slots, an empty page goes back to the pool.
\<close>

section \<open>Slots\<close>

lemma slot_in_slots:
  assumes "shape s m" and "k < per_slab s"
  shows "slot_addr s m p k \<in> slots s m F P \<longleftrightarrow> p \<in> P \<and> k \<notin> set (F p)"
  using slot_inj [OF assms] assms(2) unfolding slots_def by blast

lemma slot_eq:
  assumes "shape s m" and "k < per_slab s" and "j < per_slab s"
  shows "slot_addr s m p k = slot_addr s m q j \<longleftrightarrow> p = q \<and> k = j"
  using slot_inj [OF assms] by blast

lemma slots_eqI:
  assumes "A \<subseteq> {slot_addr s m p k | p k. k < per_slab s}" and "B \<subseteq> {slot_addr s m p k | p k. k < per_slab s}"
    and "\<And>p k. k < per_slab s \<Longrightarrow> slot_addr s m p k \<in> A \<longleftrightarrow> slot_addr s m p k \<in> B"
  shows "A = B"
  using assms by blast

lemma slots_subset: "slots s m F P \<subseteq> {slot_addr s m p k | p k. k < per_slab s}"
  unfolding slots_def by blast

lemma slots_add:
  assumes "shape s m" and "p \<in> P" and "k < per_slab s" and "F p = k # ks" and "k \<notin> set ks"
  shows "slots s m (F(p := ks)) P = insert (slot_addr s m p k) (slots s m F P)"
proof (rule slots_eqI)
  fix q j assume "j < per_slab s"
  then show "slot_addr s m q j \<in> slots s m (F(p := ks)) P \<longleftrightarrow> slot_addr s m q j \<in> insert (slot_addr s m p k) (slots s m F P)"
    using assms slot_in_slots [OF assms(1)] slot_eq [OF assms(1)] by (cases "q = p") auto
qed (use slots_subset [of s m] assms(3) in auto)

lemma slots_remove:
  assumes "shape s m" and "k < per_slab s"
  shows "slots s m (F(p := k # F p)) P = slots s m F P - {slot_addr s m p k}"
proof (rule slots_eqI)
  fix q j assume "j < per_slab s"
  then show "slot_addr s m q j \<in> slots s m (F(p := k # F p)) P \<longleftrightarrow> slot_addr s m q j \<in> slots s m F P - {slot_addr s m p k}"
    using assms slot_in_slots [OF assms(1)] slot_eq [OF assms(1)] by (cases "q = p") auto
qed (use slots_subset [of s m] in blast)+

lemma take_slot_core:
  assumes "slab_core s m L F U D X" and "p \<in> D" and "F p = k # ks"
    and "m' = upd_page p (\<lambda>i. i\<lparr>free_nr := free_nr i - 1, free_head := h_next (items m (slot_addr s m p k))\<rparr>) m"
  shows "slab_core s m' L (F(p := ks)) U D (insert (slot_addr s m p k) X) \<and> slot_addr s m p k \<notin> used U \<union> X"
proof -
  note D = slab_coreD [OF assms(1)]
  have ok: "page_ok s m F p" and at: "page_at s m p" "p \<notin> listed s L"
    using D(7,8) assms(2) by auto
  have chain: "distinct (k # ks)" "set (k # ks) \<subseteq> {..<per_slab s}" "free_nr (pages m p) = Suc (length ks)"
      "free_chain s m p (h_next (items m (slot_addr s m p k))) ks"
    using ok assms(3) by (auto simp: page_ok_def page_free_def)
  have same: "pool m' = pool m" "items m' = items m" "\<And>q. q \<noteq> p \<Longrightarrow> pages m' q = pages m q"
    "pg_id (pages m' p) = pg_id (pages m p)" "free_nr (pages m' p) = length ks"
    "free_head (pages m' p) = h_next (items m (slot_addr s m p k))"
    using chain(3) by (simp_all add: assms(4))
  have kept: "pages m' q = pages m q" if "q \<in> listed s L" for q
    using same(3) at(2) that by metis
  have addr: "slot_addr s m' = slot_addr s m"
    by (rule slot_addr_cong) (simp_all add: same)
  have chain': "free_chain s m' p w xs = free_chain s m p w xs" for w xs
    by (rule free_chain_cong [OF addr refl]) (simp add: same)
  have k: "k < per_slab s"
    using chain(2) by simp
  have new: "slot_addr s m p k \<notin> slots s m F (listed s L \<union> D)"
    using slot_in_slots [OF D(1) k] assms(3) by simp
  have grow: "slots s m (F(p := ks)) (listed s L \<union> D) = insert (slot_addr s m p k) (slots s m F (listed s L \<union> D))"
    by (rule slots_add) (use D(1) k assms(2,3) chain(1) in auto)
  have "slab_core s m' L (F(p := ks)) U D (insert (slot_addr s m p k) X)"
  proof (rule slab_coreI)
    show "plists s m' L"
      by (rule plists_frame [OF D(3)]) (simp_all add: kept same)
    show "shape s m'"
      by (rule shape_cong [OF D(1)]) (simp_all add: same)
    show "lru s m' U"
      by (rule lru_frame [OF D(4)]) (simp_all add: same)
    show "used U \<union> insert (slot_addr s m p k) X = slots s m' (F(p := ks)) (listed s L \<union> D)"
      using D(5) grow slots_cong [OF addr refl] by auto
    show "used U \<inter> insert (slot_addr s m p k) X = {}"
      using D(5,6) new by auto
    show "page_at s m' q \<and> q \<notin> listed s L" if "q \<in> D" for q
      using D(7) [OF that] same by (cases "q = p") (simp_all add: page_at_def)
    show "page_ok s m' (F(p := ks)) q" if "q \<in> listed s L \<union> D" for q
    proof (cases "q = p")
      case True
      then show ?thesis
        using ok chain same by (simp add: page_ok_def page_free_def chain' slot_ok_def addr)
    next
      case False
      have okq: "page_ok s m F q"
        using D(8) [OF that] .
      show ?thesis
        by (rule page_ok_frame [OF okq]) (use same False page_ok_in_use [OF okq] in simp_all)
    qed
  qed (use D same in simp_all)
  then show ?thesis
    using D(5) new by auto
qed

lemma give_slot_core:
  assumes "slab_core s m L F U D X" and "p \<in> D" and "k < per_slab s" and "slot_addr s m p k \<in> X"
    and "m1 = upd_item (slot_addr s m p k) (\<lambda>it. it\<lparr>i_prev := 0, i_next := 0, h_next := free_head (pages m p)\<rparr>) m"
    and "m' = upd_page p (\<lambda>i. i\<lparr>free_head := item_id (items m (slot_addr s m p k)), free_nr := free_nr i + 1\<rparr>) m1"
  shows "slab_core s m' L (F(p := k # F p)) U D (X - {slot_addr s m p k}) \<and> free_nr (pages m' p) \<le> per_slab s"
proof -
  let ?a = "slot_addr s m p k"
  note D = slab_coreD [OF assms(1)]
  have ok: "page_ok s m F p" and at: "page_at s m p" "p \<notin> listed s L"
    using D(7,8) assms(2) by auto
  have free: "k \<notin> set (F p)"
    using slab_core_slot [OF assms(1), of ?a] slot_inj [OF D(1) assms(3)] assms(4) by blast
  have chain: "distinct (F p)" "set (F p) \<subseteq> {..<per_slab s}" "free_nr (pages m p) = length (F p)"
      "free_chain s m p (free_head (pages m p)) (F p)"
    using ok by (auto simp: page_ok_def page_free_def)
  have name: "names s (item_id (items m ?a)) p k" "item_id (items m ?a) \<noteq> 0"
    using ok assms(3) names_good [of s _ p k] at(1) by (auto simp: page_ok_def slot_ok_def page_at_def)
  have same: "pool m' = pool m" "\<And>b. b \<noteq> ?a \<Longrightarrow> items m' b = items m b" "\<And>q. q \<noteq> p \<Longrightarrow> pages m' q = pages m q"
      "item_id (items m' ?a) = item_id (items m ?a)" "idata (items m' ?a) = idata (items m ?a)"
      "h_next (items m' ?a) = free_head (pages m p)" "pg_id (pages m' p) = pg_id (pages m p)"
      "free_nr (pages m' p) = Suc (length (F p))" "free_head (pages m' p) = item_id (items m ?a)"
    using chain(3) by (simp_all add: assms(5,6))
  have kept: "pages m' q = pages m q" if "q \<in> listed s L" for q
    using same(3) at(2) that by metis
  have addr: "slot_addr s m' = slot_addr s m"
    by (rule slot_addr_cong) (simp_all add: same)
  have apart: "slot_addr s m q j \<noteq> ?a" if "j < per_slab s" "q \<noteq> p \<or> j \<noteq> k" for q j
    using slot_inj [OF D(1) that(1) assms(3)] that(2) by blast
  have "items m' (slot_addr s m p j) = items m (slot_addr s m p j)" if "j \<in> set (F p)" for j
    using same(2) [OF apart [of j p]] chain(2) free that by auto
  then have chain': "free_chain s m' p w (F p) = free_chain s m p w (F p)" for w
    by (intro free_chain_cong [OF addr refl]) simp
  have other: "a \<noteq> ?a" if "a \<in> used U" for a
    using D(6) assms(4) that by auto
  have shrink: "slots s m (F(p := k # F p)) (listed s L \<union> D) = slots s m F (listed s L \<union> D) - {?a}"
    using slots_remove [OF D(1) assms(3)] .
  have "slab_core s m' L (F(p := k # F p)) U D (X - {?a})"
  proof (rule slab_coreI)
    show "plists s m' L"
      by (rule plists_frame [OF D(3)]) (simp_all add: kept same)
    show "shape s m'"
      by (rule shape_cong [OF D(1)]) (simp_all add: same)
    show "lru s m' U"
      by (rule lru_frame [OF D(4)]) (use same other in simp_all)
    show "used U \<union> (X - {?a}) = slots s m' (F(p := k # F p)) (listed s L \<union> D)"
      using D(5,6) shrink slots_cong [OF addr refl] assms(4) by auto
    show "page_at s m' q \<and> q \<notin> listed s L" if "q \<in> D" for q
      using D(7) [OF that] same by (cases "q = p") (simp_all add: page_at_def)
    show "page_ok s m' (F(p := k # F p)) q" if "q \<in> listed s L \<union> D" for q
    proof (cases "q = p")
      case True
      have "slot_ok s m' p j" if "j < per_slab s" for j
        using ok that same(2) [OF apart, OF that] same(4,5) by (cases "j = k") (auto simp: page_ok_def slot_ok_def addr)
      then show ?thesis
        using True page_ok_in_use [OF ok] chain name free assms(3) same by (simp add: page_ok_def page_free_def chain' addr)
    next
      case False
      have okq: "page_ok s m F q"
        using D(8) [OF that] .
      show ?thesis
        by (rule page_ok_frame [OF okq]) (use same apart False page_ok_in_use [OF okq] in simp_all)
    qed
  qed (use D same in auto)
  moreover have "Suc (length (F p)) \<le> per_slab s"
  proof -
    have "card (insert k (set (F p))) \<le> per_slab s"
      using chain(2) assms(3) card_mono [of "{..<per_slab s}" "insert k (set (F p))"] by auto
    then show ?thesis
      using chain(1) free distinct_card by fastforce
  qed
  ultimately show ?thesis
    using same(8) by simp
qed

section \<open>A fresh page\<close>

text \<open>What is true of a slot that has never been used, or has been cleared.\<close>

definition clean_item :: "mdb_item \<Rightarrow> bool" where
  "clean_item it \<longleftrightarrow> exptime it = 0 \<and> ITEM_FLAGS (item_id it) = 0"

definition fresh_item :: "slab_manager \<Rightarrow> nat \<Rightarrow> nat \<Rightarrow> mdb_item" where
  "fresh_item s p k = (zero_item s)\<lparr>item_id := ITEM_ID (slab_size s) k p (slab_id s),
     h_next := ITEM_ID (slab_size s) (k + 1) p (slab_id s)\<rparr>"

lemma init_slot_fields [simp]:
  "pool (init_slot s p k m) = pool m" "pages (init_slot s p k m) = pages m" "slot_addr s (init_slot s p k m) = slot_addr s m"
  by (simp_all add: init_slot_def slot_addr_def fun_eq_iff)

lemma init_slots_fields [simp]:
  "pool (fold (init_slot s p) ks m) = pool m" "pages (fold (init_slot s p) ks m) = pages m"
  "slot_addr s (fold (init_slot s p) ks m) = slot_addr s m"
  by (induction ks arbitrary: m) simp_all

lemma init_slots_items:
  assumes "shape s m" and "n \<le> per_slab s"
  shows "(\<forall>k<n. items (fold (init_slot s p) [0..<n] m) (slot_addr s m p k) = fresh_item s p k)
    \<and> (\<forall>b. (\<forall>k<n. b \<noteq> slot_addr s m p k) \<longrightarrow> items (fold (init_slot s p) [0..<n] m) b = items m b)"
  using assms(2)
proof (induction n)
  case (Suc n)
  have apart: "slot_addr s m p k \<noteq> slot_addr s m p n" if "k < n" for k
    using slot_eq [OF assms(1), of k n p p] that Suc.prems by simp
  have last: "items (init_slot s p n m') = (items m')(slot_addr s m p n := fresh_item s p n)"
    if "slot_addr s m' = slot_addr s m" for m'
    using that by (simp add: init_slot_def fresh_item_def)
  show ?case
    using Suc.IH Suc.prems apart by (auto simp: last less_Suc_eq)
qed simp

lemma init_page_result:
  assumes "shape s m"
  shows "\<exists>m'. init_page p s m = Some m' \<and> pool m' = pool m
    \<and> pages m' = (pages m)(p := \<lparr>pg_id = p, free_nr = per_slab s, pg_next = 0, pg_prev = 0,
          free_head = ITEM_ID (slab_size s) 0 p (slab_id s)\<rparr>)
    \<and> (\<forall>k<per_slab s. items m' (slot_addr s m p k) =
          (if Suc k = per_slab s then (fresh_item s p k)\<lparr>h_next := 0\<rparr> else fresh_item s p k))
    \<and> (\<forall>b. b div mp_page_size (pool m) \<noteq> p \<longrightarrow> items m' b = items m b)"
proof -
  define i where "i = \<lparr>pg_id = p, free_nr = per_slab s, pg_next = 0, pg_prev = 0,
      free_head = ITEM_ID (slab_size s) 0 p (slab_id s)\<rparr>"
  define m1 where "m1 = upd_page p (\<lambda>_. i) m"
  define m2 where "m2 = fold (init_slot s p) [0..<per_slab s] m1"
  define m' where "m' = upd_item (slot_addr s m2 p (per_slab s - 1)) (h_next_update (\<lambda>_. 0)) m2"
  have n: "0 < per_slab s"
    using assms by (simp add: shape_def)
  have addr: "slot_addr s m1 = slot_addr s m" "slot_addr s m2 = slot_addr s m"
    by (simp_all add: m2_def m1_def slot_addr_def fun_eq_iff)
  have shape1: "shape s m1"
    by (rule shape_cong [OF assms]) (simp_all add: m1_def)
  have new: "items m2 (slot_addr s m p k) = fresh_item s p k" if "k < per_slab s" for k
    using init_slots_items [OF shape1 order_refl, of p] that by (simp add: m2_def addr)
  have old: "items m2 b = items m b" if "b div mp_page_size (pool m) \<noteq> p" for b
  proof -
    have "\<forall>k<per_slab s. b \<noteq> slot_addr s m p k"
      using slot_page [OF assms] that by blast
    then show ?thesis
      using init_slots_items [OF shape1 order_refl, of p] by (simp add: m2_def addr) (simp add: m1_def)
  qed
  have "init_page p s m = Some m'"
    using n by (simp add: init_page_def Let_def m'_def m2_def m1_def i_def)
  moreover have "pool m' = pool m" "pages m' = (pages m)(p := i)"
    by (simp_all add: m'_def m2_def m1_def)
  moreover have "items m' (slot_addr s m p k) = (if Suc k = per_slab s then (fresh_item s p k)\<lparr>h_next := 0\<rparr> else fresh_item s p k)"
    if "k < per_slab s" for k
  proof (cases "Suc k = per_slab s")
    case True
    then have "k = per_slab s - 1"
      by simp
    then show ?thesis
      using new [OF that] True by (simp add: m'_def addr)
  next
    case False
    then have "slot_addr s m p k \<noteq> slot_addr s m p (per_slab s - 1)"
      using slot_eq [OF assms that, of "per_slab s - 1" p p] that by auto
    then show ?thesis
      using new [OF that] False by (simp add: m'_def addr)
  qed
  moreover have "items m' b = items m b" if "b div mp_page_size (pool m) \<noteq> p" for b
    using old [OF that] slot_page [OF assms, of "per_slab s - 1" p] n that by (auto simp: m'_def addr)
  ultimately show ?thesis
    unfolding i_def by blast
qed

lemma fresh_chain:
  assumes "shape s m" and "p < mp_total_pages (pool m)" and "0 < p"
    and "\<forall>k<per_slab s. items m (slot_addr s m p k) = (if Suc k = per_slab s then (fresh_item s p k)\<lparr>h_next := 0\<rparr> else fresh_item s p k)"
    and "j < per_slab s"
  shows "free_chain s m p (ITEM_ID (slab_size s) j p (slab_id s)) [j..<per_slab s]"
  using assms(5)
proof (induction "per_slab s - j" arbitrary: j)
  case (Suc n)
  have j: "names s (ITEM_ID (slab_size s) j p (slab_id s)) p j"
    using names_ITEM_ID [OF assms(1) Suc.prems assms(2)] .
  have item: "items m (slot_addr s m p j) = (if Suc j = per_slab s then (fresh_item s p j)\<lparr>h_next := 0\<rparr> else fresh_item s p j)"
    using assms(4) Suc.prems by blast
  have start: "[j..<per_slab s] = j # [Suc j..<per_slab s]"
    using Suc.prems by (simp add: upt_conv_Cons)
  have "free_chain s m p (h_next (items m (slot_addr s m p j))) [Suc j..<per_slab s]"
    using Suc.hyps(1) [of "Suc j"] Suc.hyps(2) Suc.prems by (cases "Suc j = per_slab s") (simp_all add: item fresh_item_def)
  then show ?case
    using j names_good [OF j assms(3) Suc.prems] by (simp add: start item fresh_item_def)
qed simp

lemma slab_core_in_use: "slab_core s m L F U D X \<Longrightarrow> listed s L \<union> D \<subseteq> pages_in_use (pool m)"
  using slab_coreD(8) page_ok_in_use by blast

lemma new_page_core:
  assumes "slab_core s m L F U D X" and "mem_pool_wf q" and "0 < i" "i < mp_total_pages (pool m)" "i \<notin> pages_in_use (pool m)"
    and "pages_in_use q = insert i (pages_in_use (pool m))"
    and "mp_total_pages q = mp_total_pages (pool m)" "mp_page_size q = mp_page_size (pool m)"
  shows "\<exists>m'. init_page i s (m\<lparr>pool := q\<rparr>) = Some m' \<and> slab_core s m' L (F(i := [0..<per_slab s])) U (insert i D) X
    \<and> free_nr (pages m' i) = per_slab s \<and> confined {i} m m' \<and> pool m' = q \<and> i \<notin> listed s L \<union> D
    \<and> (\<forall>k<per_slab s. clean_item (items m' (slot_addr s m' i k)))"
proof -
  let ?m = "m\<lparr>pool := q\<rparr>"
  note D = slab_coreD [OF assms(1)]
  have i: "i \<notin> listed s L \<union> D"
    using slab_core_in_use [OF assms(1)] assms(5) by blast
  have old: "slab_core s ?m L F U D X"
    by (rule slab_core_outside [OF assms(1), of "{}"])
      (use slab_core_in_use [OF assms(1)] assms(2,6-8) in \<open>auto simp: confined_def\<close>)
  note O = slab_coreD [OF old]
  obtain m' where m': "init_page i s ?m = Some m'" "pool m' = pool ?m"
      "pages m' = (pages ?m)(i := \<lparr>pg_id = i, free_nr = per_slab s, pg_next = 0, pg_prev = 0,
          free_head = ITEM_ID (slab_size s) 0 i (slab_id s)\<rparr>)"
      "\<forall>k<per_slab s. items m' (slot_addr s ?m i k) =
          (if Suc k = per_slab s then (fresh_item s i k)\<lparr>h_next := 0\<rparr> else fresh_item s i k)"
      "\<forall>b. b div mp_page_size (pool ?m) \<noteq> i \<longrightarrow> items m' b = items ?m b"
    using init_page_result [OF O(1), of i] by blast
  have addr: "slot_addr s ?m = slot_addr s m'"
    by (rule slot_addr_cong) (simp_all add: m'(2))
  have conf: "confined {i} ?m m'"
    using m' by (simp add: confined_def)
  have base: "slab_core s m' L F U D X"
    by (rule slab_core_outside [OF old conf]) (use i O(2) m'(2) slab_core_in_use [OF old] in auto)
  note B = slab_coreD [OF base]
  have fresh: "page_ok s m' (F(i := [0..<per_slab s])) i"
  proof -
    have n: "0 < per_slab s" "i < mp_total_pages (pool m')"
      using B(1) assms(4,7) m'(2) by (simp_all add: shape_def)
    have "free_chain s m' i (ITEM_ID (slab_size s) 0 i (slab_id s)) [0..<per_slab s]"
      using fresh_chain [OF B(1) n(2) assms(3) m'(4) [unfolded addr] n(1)] .
    moreover have "slot_ok s m' i k" if "k < per_slab s" for k
      using m'(4) that names_ITEM_ID [OF B(1) that n(2)] by (simp add: addr slot_ok_def fresh_item_def zero_item_def)
    ultimately show ?thesis
      using assms(6) m'(2,3) by (auto simp: page_ok_def page_free_def)
  qed
  have "slab_core s m' L (F(i := [0..<per_slab s])) U (insert i D) X"
  proof (rule slab_coreI)
    have "slots s m' (F(i := [0..<per_slab s])) (listed s L \<union> insert i D) = slots s m' F (listed s L \<union> D)"
    proof (rule slots_eqI)
      fix p k assume "k < per_slab s"
      then show "slot_addr s m' p k \<in> slots s m' (F(i := [0..<per_slab s])) (listed s L \<union> insert i D) \<longleftrightarrow>
          slot_addr s m' p k \<in> slots s m' F (listed s L \<union> D)"
        using i by (simp add: slot_in_slots [OF B(1)])
    qed (use slots_subset in blast)+
    then show "used U \<union> X = slots s m' (F(i := [0..<per_slab s])) (listed s L \<union> insert i D)"
      using B(5) by simp
    show "page_at s m' p \<and> p \<notin> listed s L" if "p \<in> insert i D" for p
      using that B(7) [of p] i assms(3,4,7) m'(2,3) by (auto simp: page_at_def)
    show "page_ok s m' (F(i := [0..<per_slab s])) p" if "p \<in> listed s L \<union> insert i D" for p
    proof (cases "p = i")
      case False
      then have ok: "page_ok s m' F p"
        using B(8) that by simp
      show ?thesis
        by (rule page_ok_frame [OF ok]) (use False page_ok_in_use [OF ok] in simp_all)
    qed (simp add: fresh)
  qed (use B in simp_all)
  moreover have "confined {i} m m'"
    using conf assms(7,8) by (simp add: confined_def)
  moreover have "clean_item (items m' (slot_addr s m' i k))" if "k < per_slab s" for k
    using m'(4) that by (simp add: addr clean_item_def fresh_item_def zero_item_def ITEM_ID_flags)
  ultimately show ?thesis
    using m'(1-3) i by simp
qed

lemma release_page_core:
  assumes "slab_core s m L F U (insert p D) X" and "p \<notin> D" and "free_nr (pages m p) = per_slab s"
    and "mem_pool_wf q" and "pages_in_use q = pages_in_use (pool m) - {p}"
    and "mp_total_pages q = mp_total_pages (pool m)" "mp_page_size q = mp_page_size (pool m)"
  shows "slab_core s (m\<lparr>pool := q\<rparr>) L F U D X"
proof -
  note D = slab_coreD [OF assms(1)]
  have p: "p \<notin> listed s L" "page_ok s m F p"
    using D(7,8) by auto
  have "set (F p) = {..<per_slab s}"
    using p(2) assms(3) card_subset_eq [of "{..<per_slab s}" "set (F p)"] distinct_card [of "F p"]
    by (auto simp: page_ok_def page_free_def)
  then have "slots s m F (listed s L \<union> insert p D) = slots s m F (listed s L \<union> D)"
    by (auto simp: slots_def)
  then have "slab_core s m L F U D X"
    using D by (intro slab_coreI) auto
  then show ?thesis
    by (rule slab_core_outside [of _ _ _ _ _ _ _ "{}"])
      (use slab_core_in_use [OF assms(1)] p(1) assms(2,4-7) in \<open>auto simp: confined_def\<close>)
qed

end
