(* ===== verification/Slab_Alloc.thy ===== *)
theory Slab_Alloc
  imports Slab_Steps
begin

text \<open>
  A new item from a slab: the allocation never fails an assertion, keeps the invariant, and comes
  back without an item only when every slot of the slab is used and the pool has no page left.
\<close>

section \<open>Counting pages\<close>

lemma sum_length_upd:
  assumes "c \<in> {2..<n::nat}"
  shows "(\<Sum>d\<in>{2..<n}. length ((L(c := xs)) d)) + length (L c) = (\<Sum>d\<in>{2..<n}. length (L d)) + length xs"
proof -
  have "(\<Sum>d\<in>{2..<n}. length (f d)) = length (f c) + (\<Sum>d\<in>{2..<n} - {c}. length (f d))" for f
    using assms by (simp add: sum.remove)
  from this [of L] this [of "L(c := xs)"] show ?thesis
    by simp
qed

lemma sum_length_other: "c \<notin> {2..<n} \<Longrightarrow> (\<Sum>d\<in>{2..<n}. length ((L(c := xs)) d)) = (\<Sum>d\<in>{2..<n::nat}. length (L d))"
  by (intro sum.cong) auto

lemma plist_head: "plist m h xs \<Longrightarrow> (h = 0 \<longleftrightarrow> xs = []) \<and> (xs \<noteq> [] \<longrightarrow> h = hd xs)"
  by (cases xs) (auto simp: plist_def dest!: dlist_head)

lemma head_in_list: "plists s m L \<Longrightarrow> c < classes s \<Longrightarrow> (head_of s c = 0 \<longleftrightarrow> L c = []) \<and> (L c \<noteq> [] \<longrightarrow> head_of s c \<in> set (L c))"
  using plist_head [of m "head_of s c" "L c"] by (auto simp: plists_def)

lemma first_page_found:
  assumes "\<exists>b\<in>set bs. partial_pages s b \<noteq> 0"
  shows "\<exists>b\<in>set bs. partial_pages s b \<noteq> 0 \<and> first_page s bs = partial_pages s b"
  using assms by (induction bs) (auto simp: first_page_def)

lemma partial_page_found:
  assumes "slab_core s m L F U {} {}" and "counts s L 0" and "partial_pages_no s > 0" and "set bs = {..<partial_pages_bucket_no s}"
  shows "\<exists>b. first_page s bs \<in> set (L (Suc (Suc b))) \<and> Suc (Suc b) < classes s
    \<and> 0 < free_nr (pages m (first_page s bs)) \<and> free_nr (pages m (first_page s bs)) < per_slab s
    \<and> free_nr (pages m (first_page s bs)) div PARTIAL_PAGE_BUCKET = b"
proof -
  note D = slab_coreD [OF assms(1)]
  have "int (\<Sum>c\<in>{2..<classes s}. length (L c)) > 0"
    using assms(2,3) unfolding counts_def by linarith
  then have "(\<Sum>c\<in>{2..<classes s}. length (L c)) \<noteq> 0"
    by linarith
  then obtain c where c: "c \<in> {2..<classes s}" "L c \<noteq> []"
    by (metis length_greater_0_conv not_gr_zero sum.neutral)
  then have "partial_pages s (c - 2) \<noteq> 0" "c - 2 < partial_pages_bucket_no s"
    using head_in_list [OF D(3), of c] by (auto simp: head_of_def classes_def split: nat.splits)
  then obtain b where b: "b < partial_pages_bucket_no s" "partial_pages s b \<noteq> 0" "first_page s bs = partial_pages s b"
    using first_page_found [of bs s] assms(4) by auto
  let ?p = "first_page s bs"
  have cl: "Suc (Suc b) < classes s" "head_of s (Suc (Suc b)) = ?p"
    using b by (simp_all add: classes_def head_of_def)
  then have "?p \<in> set (L (Suc (Suc b)))"
    using head_in_list [OF D(3) cl(1)] b(2,3) by auto
  moreover from this have "class_of s (free_nr (pages m ?p)) = Suc (Suc b)" "page_ok s m F ?p"
    using plists_page [OF D(3) cl(1)] D(8) cl(1) unfolding listed_def by blast+
  moreover from this have "free_nr (pages m ?p) \<le> per_slab s"
    using card_mono [of "{..<per_slab s}" "set (F ?p)"] distinct_card [of "F ?p"] by (auto simp: page_ok_def page_free_def)
  ultimately show ?thesis
    using cl(1) by (auto simp: class_of_def split: if_splits)
qed

section \<open>Taking a page\<close>

definition same_slab :: "slab_manager \<Rightarrow> slab_manager \<Rightarrow> bool" where
  "same_slab s s' \<longleftrightarrow> slab_id s' = slab_id s \<and> slab_size s' = slab_size s \<and> per_slab s' = per_slab s"

lemma same_slab_refl [simp]: "same_slab s s"
  by (simp add: same_slab_def)

lemma same_slab_trans: "same_slab s s' \<Longrightarrow> same_slab s' s'' \<Longrightarrow> same_slab s s''"
  by (simp add: same_slab_def)

lemma same_slab_listed: "same_slab s s' \<Longrightarrow> listed s' = listed s"
  by (rule listed_cong) (simp add: same_slab_def)

lemma page_free_le: "page_ok s m F p \<Longrightarrow> free_nr (pages m p) \<le> per_slab s"
  using card_mono [of "{..<per_slab s}" "set (F p)"] distinct_card [of "F p"] by (auto simp: page_ok_def page_free_def)

lemma chain_head: "page_ok s m F p \<Longrightarrow> free_head (pages m p) = 0 \<longleftrightarrow> free_nr (pages m p) = 0"
  by (cases "F p") (auto simp: page_ok_def page_free_def)

lemma same_pages_confined:
  "same_pages m m' \<Longrightarrow> \<forall>q. q \<notin> P \<longrightarrow> pages m' q = pages m q \<Longrightarrow> confined P m m'"
  by (simp add: same_pages_def confined_def)

text \<open>A listed page with a free slot comes out of its class.\<close>

lemma take_listed:
  assumes "slab_core s m L F U {} {}" and "c < classes s" and "p \<in> set (L c)" and "0 < free_nr (pages m p)"
  shows "\<exists>h m'. unlink_page p (head_of s c) m = Some (h, m') \<and> index_to_page (pool m) p \<noteq> None
    \<and> slab_core (set_head c h s) m' (L(c := remove1 p (L c))) F U {p} {} \<and> F p \<noteq> []
    \<and> pool m' = pool m \<and> items m' = items m \<and> free_head (pages m' p) = free_head (pages m p) \<and> free_head (pages m p) \<noteq> 0
    \<and> confined (listed s L) m m' \<and> insert p (listed s (L(c := remove1 p (L c)))) = listed s L"
proof -
  note D = slab_coreD [OF assms(1)]
  obtain h m' where u: "unlink_page p (head_of s c) m = Some (h, m')"
      "slab_core (set_head c h s) m' (L(c := remove1 p (L c))) F U {p} {}" "same_pages m m'"
      "\<forall>q. q \<notin> listed s L \<longrightarrow> pages m' q = pages m q" "listed s (L(c := remove1 p (L c))) = listed s L - {p}"
    using unlink_page_core [OF assms(1-3)] by blast
  have p: "p \<in> listed s L"
    using assms(2,3) unfolding listed_def by blast
  then have ok: "page_at s m p" "page_ok s m F p"
    using slab_core_page [OF assms(1)] by auto
  have "F p \<noteq> []" "free_head (pages m p) \<noteq> 0"
    using ok(2) assms(4) chain_head [OF ok(2)] by (auto simp: page_ok_def page_free_def)
  then show ?thesis
    using u same_pages_confined [OF u(3,4)] p ok(1) by (auto simp: same_pages_def page_at_def index_to_page_def)
qed

definition clean_pages :: "slab_manager \<Rightarrow> mdb_mem \<Rightarrow> (nat \<Rightarrow> nat list) \<Rightarrow> nat set \<Rightarrow> bool" where
  "clean_pages s m F P \<longleftrightarrow> (\<forall>p\<in>P. \<forall>k\<in>set (F p). clean_item (items m (slot_addr s m p k)))"

definition page_taken ::
  "slab_manager \<Rightarrow> mdb_mem \<Rightarrow> (nat \<Rightarrow> nat list) \<Rightarrow> (nat \<Rightarrow> nat list) \<Rightarrow> (nat \<Rightarrow> nat list) \<Rightarrow> nat \<Rightarrow> 64 word \<Rightarrow>
    slab_manager \<Rightarrow> mdb_mem \<Rightarrow> (nat \<Rightarrow> nat list) \<Rightarrow> (nat \<Rightarrow> nat list) \<Rightarrow> bool" where
  "page_taken s m L F U info w s' m' L' F' \<longleftrightarrow> slab_core s' m' L' F' U {info} {} \<and> counts s' L' 1 \<and> F' info \<noteq> []
     \<and> w = free_head (pages m' info) \<and> same_slab s s' \<and> confined (insert info (listed s L)) m m'
     \<and> insert info (listed s L') = insert info (listed s L)
     \<and> pages_in_use (pool m') = insert info (pages_in_use (pool m))
     \<and> (info \<in> listed s L \<or> info \<notin> pages_in_use (pool m))
     \<and> (\<forall>b. b div mp_page_size (pool m) \<noteq> info \<or> info \<in> listed s L \<longrightarrow> items m' b = items m b)
     \<and> (clean_pages s m F (listed s L) \<longrightarrow> clean_pages s' m' F' (insert info (listed s L)))"

lemma counts_remove:
  assumes "counts s L 0" and "Suc (Suc b) < classes s" and "p \<in> set (L (Suc (Suc b)))"
  shows "counts (set_head (Suc (Suc b)) h s) (L(Suc (Suc b) := remove1 p (L (Suc (Suc b))))) 1"
proof -
  let ?c = "Suc (Suc b)"
  have "(\<Sum>d\<in>{2..<classes s}. length ((L(?c := remove1 p (L ?c))) d)) + length (L ?c)
      = (\<Sum>d\<in>{2..<classes s}. length (L d)) + length (remove1 p (L ?c))"
    using assms(2) by (intro sum_length_upd) simp
  moreover have "0 < length (L ?c)" "length (remove1 p (L ?c)) = length (L ?c) - 1"
    using assms(3) by (auto simp: length_remove1 length_pos_if_in_set)
  ultimately have "(\<Sum>d\<in>{2..<classes s}. length (L d)) = Suc (\<Sum>d\<in>{2..<classes s}. length ((L(?c := remove1 p (L ?c))) d))"
    by linarith
  then show ?thesis
    using assms(1) classes_cong [OF set_head_fields(3), of ?c h s] unfolding counts_def by simp
qed

lemma take_partial:
  assumes "slab_inv s m L F U" and "partial_pages_no s > 0"
  shows "\<exists>info w s' m' L' F'. take_page (s, m) = Some (Some (info, w), s', m') \<and> page_taken s m L F U info w s' m' L' F'"
proof -
  have core: "slab_core s m L F U {} {}" and n: "counts s L 0"
    using assms(1) by (simp_all add: slab_inv_def)
  let ?p = "get_partial_page_id s"
  obtain b where b: "?p \<in> set (L (Suc (Suc b)))" "Suc (Suc b) < classes s" "0 < free_nr (pages m ?p)"
      "free_nr (pages m ?p) < per_slab s" "free_nr (pages m ?p) div PARTIAL_PAGE_BUCKET = b"
    using partial_page_found [OF core n assms(2), of "[0..<partial_pages_bucket_no s]"]
    by (auto simp: get_partial_page_id_def atLeast0LessThan)
  have p: "?p \<in> listed s L"
    using b(1,2) unfolding listed_def by blast
  obtain h m' where t: "unlink_page ?p (head_of s (Suc (Suc b))) m = Some (h, m')" "index_to_page (pool m) ?p \<noteq> None"
      "slab_core (set_head (Suc (Suc b)) h s) m' (L(Suc (Suc b) := remove1 ?p (L (Suc (Suc b))))) F U {?p} {}" "F ?p \<noteq> []"
      "pool m' = pool m" "items m' = items m" "free_head (pages m' ?p) = free_head (pages m ?p)" "free_head (pages m ?p) \<noteq> 0"
      "confined (listed s L) m m'" "insert ?p (listed s (L(Suc (Suc b) := remove1 ?p (L (Suc (Suc b)))))) = listed s L"
    using take_listed [OF core b(2,1,3)] by blast
  have "take_page (s, m) = Some (Some (?p, free_head (pages m ?p)), set_head (Suc (Suc b)) h s, m')"
    using assms(2) t(1,2,8) b partial_bucket_class [OF b(3,4)]
    by (auto simp: take_page_def Let_def set_head_def head_of_def)
  moreover have "page_taken s m L F U ?p (free_head (pages m ?p)) (set_head (Suc (Suc b)) h s) m'
      (L(Suc (Suc b) := remove1 ?p (L (Suc (Suc b))))) F"
    using t p counts_remove [OF n b(2,1)] confined_mono [OF t(9) subset_insertI] slab_core_in_use [OF core]
    by (auto simp: page_taken_def same_slab_def clean_pages_def slot_addr_def)
  ultimately show ?thesis
    by blast
qed

lemma take_free_page:
  assumes "slab_inv s m L F U" and "\<not> partial_pages_no s > 0" and "free_pages_no s > 0"
  shows "\<exists>info w s' m' L' F'. take_page (s, m) = Some (Some (info, w), s', m') \<and> page_taken s m L F U info w s' m' L' F'"
proof -
  have core: "slab_core s m L F U {} {}" and n: "counts s L 0"
    using assms(1) by (simp_all add: slab_inv_def)
  note D = slab_coreD [OF core]
  let ?p = "free_pages s"
  have p: "?p \<in> set (L 0)" "0 < classes s" "head_of s 0 = ?p" "L 0 \<noteq> []"
    using head_in_list [OF D(3), of 0] n assms(3) by (auto simp: classes_def counts_def head_of_def)
  have full: "free_nr (pages m ?p) = per_slab s" "0 < per_slab s"
    using plists_page [OF D(3) p(2,1)] D(1) by (auto simp: class_of_def shape_def split: if_splits)
  have pl: "?p \<in> listed s L"
    using p(1,2) unfolding listed_def by blast
  obtain h m' where t: "unlink_page ?p (head_of s 0) m = Some (h, m')" "index_to_page (pool m) ?p \<noteq> None"
      "slab_core (set_head 0 h s) m' (L(0 := remove1 ?p (L 0))) F U {?p} {}" "F ?p \<noteq> []"
      "pool m' = pool m" "items m' = items m" "free_head (pages m' ?p) = free_head (pages m ?p)" "free_head (pages m ?p) \<noteq> 0"
      "confined (listed s L) m m'" "insert ?p (listed s (L(0 := remove1 ?p (L 0)))) = listed s L"
    using take_listed [OF core p(2,1)] full by auto
  let ?s = "s\<lparr>free_pages := h, free_pages_no := free_pages_no s - 1, partial_pages_no := partial_pages_no s + 1\<rparr>"
  have "slab_core ?s m' (L(0 := remove1 ?p (L 0))) F U {?p} {}"
    by (rule slab_core_cong [OF t(3)]) (simp_all add: set_head_def)
  moreover have "counts ?s (L(0 := remove1 ?p (L 0))) 1"
    using n p(1,4) classes_cong [of ?s s] sum_length_other [of 0 "classes s" L "remove1 ?p (L 0)"]
    by (simp add: counts_def length_remove1 of_nat_diff Suc_leI)
  moreover have "take_page (s, m) = Some (Some (?p, free_head (pages m ?p)), ?s, m')"
    using assms(2,3) t(1,2,8) full p(3) by (auto simp: take_page_def Let_def)
  ultimately show ?thesis
    using t pl confined_mono [OF t(9) subset_insertI] slab_core_in_use [OF core]
    by (intro exI [of _ ?p] exI [of _ "free_head (pages m ?p)"] exI [of _ ?s] exI [of _ m'] exI [of _ "L(0 := remove1 ?p (L 0))"] exI [of _ F])
      (auto simp: page_taken_def same_slab_def clean_pages_def slot_addr_def)
qed

lemma take_new_page:
  assumes "slab_inv s m L F U" and "\<not> partial_pages_no s > 0" and "\<not> free_pages_no s > 0" and "mp_free_pages (pool m) \<noteq> 0"
  shows "\<exists>info w s' m' L' F'. take_page (s, m) = Some (Some (info, w), s', m') \<and> page_taken s m L F U info w s' m' L' F'"
proof -
  have core: "slab_core s m L F U {} {}" and n: "counts s L 0"
    using assms(1) by (simp_all add: slab_inv_def)
  note D = slab_coreD [OF core]
  obtain i q where q: "alloc_page (pool m) = Some (Some i, q)" "0 < i" "i < mp_total_pages (pool m)" "i \<notin> pages_in_use (pool m)"
      "pages_in_use q = insert i (pages_in_use (pool m))" "mem_pool_wf q" "mp_total_pages q = mp_total_pages (pool m)"
      "mp_page_size q = mp_page_size (pool m)"
    using alloc_page_wf [OF D(2) assms(4)] by blast
  obtain m' where m': "init_page i s (m\<lparr>pool := q\<rparr>) = Some m'" "slab_core s m' L (F(i := [0..<per_slab s])) U (insert i {}) {}"
      "free_nr (pages m' i) = per_slab s" "confined {i} m m'" "pool m' = q" "i \<notin> listed s L \<union> {}"
      "\<forall>k<per_slab s. clean_item (items m' (slot_addr s m' i k))"
    using new_page_core [OF core q(6,2-5,7,8)] by blast
  let ?s = "s\<lparr>partial_pages_no := partial_pages_no s + 1\<rparr>"
  have "slab_core ?s m' L (F(i := [0..<per_slab s])) U {i} {}"
    by (rule slab_core_cong [OF m'(2)]) simp_all
  moreover have "counts ?s L 1"
    using n classes_cong [of ?s s] by (simp add: counts_def)
  moreover have "take_page (s, m) = Some (Some (i, free_head (pages m' i)), ?s, m')"
    using assms(2,3) q(1) m'(1) by (simp add: take_page_def)
  moreover have "items m' b = items m b" if "b div mp_page_size (pool m) \<noteq> i" for b
    using m'(4) that by (simp add: confined_def)
  moreover have "clean_pages ?s m' (F(i := [0..<per_slab s])) (insert i (listed s L))" if "clean_pages s m F (listed s L)"
    unfolding clean_pages_def
  proof (intro ballI)
    fix p k assume p: "p \<in> insert i (listed s L)" and k: "k \<in> set ((F(i := [0..<per_slab s])) p)"
    have addr: "slot_addr ?s m' = slot_addr s m" "slot_addr s m' = slot_addr s m"
      by (rule slot_addr_cong; use m'(5) q(8) in simp)+
    show "clean_item (items m' (slot_addr ?s m' p k))"
    proof (cases "p = i")
      case True
      then show ?thesis
        using m'(7) k by (simp add: addr)
    next
      case False
      then have "p \<in> listed s L" "k \<in> set (F p)"
        using p k by auto
      moreover from this have "k < per_slab s"
        using slab_core_page [OF core, of p] by (auto simp: page_ok_def page_free_def)
      then have "items m' (slot_addr s m p k) = items m (slot_addr s m p k)"
        using slot_page [OF D(1)] False m'(4) by (simp add: confined_def)
      ultimately show ?thesis
        using that by (simp add: addr clean_pages_def)
    qed
  qed
  ultimately show ?thesis
    using m'(4-7) q(4,5) D(1) confined_mono [OF m'(4), of "insert i (listed s L)"]
    by (intro exI [of _ i] exI [of _ "free_head (pages m' i)"] exI [of _ ?s] exI [of _ m'] exI [of _ L] exI [of _ "F(i := [0..<per_slab s])"])
      (auto simp: page_taken_def same_slab_def shape_def)
qed

lemma no_page_left:
  assumes "slab_inv s m L F U" and "\<not> partial_pages_no s > 0" and "\<not> free_pages_no s > 0" and "p \<in> listed s L"
  shows "F p = []"
proof -
  have core: "slab_core s m L F U {} {}" and n: "counts s L 0"
    using assms(1) by (simp_all add: slab_inv_def)
  note D = slab_coreD [OF core]
  obtain c where c: "c < classes s" "p \<in> set (L c)"
    using assms(4) unfolding listed_def by blast
  have "length (L d) = 0" if "d \<in> {2..<classes s}" for d
  proof -
    have "int (\<Sum>c\<in>{2..<classes s}. length (L c)) \<le> 0"
      using n assms(2) unfolding counts_def by linarith
    then have "(\<Sum>c\<in>{2..<classes s}. length (L c)) = 0"
      by linarith
    then show ?thesis
      using that by (simp add: sum_eq_0_iff)
  qed
  then have "\<not> 2 \<le> c"
    using c by auto
  moreover have "c \<noteq> 0"
    using n assms(3) c(2) by (cases c) (auto simp: counts_def)
  ultimately have "c = 1"
    by linarith
  then have "class_of s (free_nr (pages m p)) = 1"
    using plists_page [OF D(3) c] by simp
  then have "free_nr (pages m p) = 0"
    unfolding class_of_def by (simp split: if_splits)
  then show ?thesis
    using slab_core_page [OF core, of p] assms(4) by (simp add: page_ok_def page_free_def)
qed

lemma take_page_spec:
  assumes "slab_inv s m L F U"
  shows "(\<exists>info w s' m' L' F'. take_page (s, m) = Some (Some (info, w), s', m') \<and> page_taken s m L F U info w s' m' L' F')
    \<or> take_page (s, m) = Some (None, s, m) \<and> mp_free_pages (pool m) = 0 \<and> (\<forall>p\<in>listed s L. F p = [])"
proof -
  consider "partial_pages_no s > 0" | "\<not> partial_pages_no s > 0" "free_pages_no s > 0"
    | "\<not> partial_pages_no s > 0" "\<not> free_pages_no s > 0" "mp_free_pages (pool m) \<noteq> 0"
    | "\<not> partial_pages_no s > 0" "\<not> free_pages_no s > 0" "mp_free_pages (pool m) = 0"
    by blast
  then show ?thesis
  proof cases
    case 1
    then show ?thesis
      by (intro disjI1 take_partial [OF assms])
  next
    case 2
    then show ?thesis
      by (intro disjI1 take_free_page [OF assms])
  next
    case 3
    then show ?thesis
      by (intro disjI1 take_new_page [OF assms])
  next
    case 4
    have "mem_pool_wf (pool m)"
      using assms unfolding slab_inv_def by (blast dest: slab_coreD(2))
    then have "take_page (s, m) = Some (None, s, m)"
      using 4 by (simp add: take_page_def alloc_page_def mem_pool_wf_def)
    then show ?thesis
      using 4 no_page_left [OF assms 4(1,2)] by simp
  qed
qed

section \<open>The new item\<close>

lemma page_updates_commute:
  "i\<lparr>free_head := w, pg_prev := a, pg_next := b\<rparr> = i\<lparr>pg_prev := a, pg_next := b, free_head := w\<rparr>" for i :: page_info
  by (cases i) simp

lemma link_page_free_head:
  assumes "link_page p h m = Some (i, m')" and "h \<noteq> p"
  shows "link_page p h (upd_page p (free_head_update (\<lambda>_. w)) m) = Some (i, upd_page p (free_head_update (\<lambda>_. w)) m')"
  using assms
  by (auto simp: link_page_def Let_def upd_page_def fun_upd_twist page_updates_commute split: if_splits Option.bind_splits)

lemma counts_add:
  assumes "counts s L 1" and "Suc (Suc b) < classes s"
  shows "counts (set_head (Suc (Suc b)) h s) (L(Suc (Suc b) := p # L (Suc (Suc b)))) 0"
proof -
  let ?c = "Suc (Suc b)"
  have "(\<Sum>d\<in>{2..<classes s}. length ((L(?c := p # L ?c)) d)) + length (L ?c)
      = (\<Sum>d\<in>{2..<classes s}. length (L d)) + length (p # L ?c)"
    using assms(2) by (intro sum_length_upd) simp
  then have "(\<Sum>d\<in>{2..<classes s}. length ((L(?c := p # L ?c)) d)) = Suc (\<Sum>d\<in>{2..<classes s}. length (L d))"
    by simp
  then show ?thesis
    using assms(1) classes_cong [OF set_head_fields(3), of ?c h s] unfolding counts_def by simp
qed

text \<open>Putting the page back with one slot less, together with the new head of its chain.\<close>

lemma put_back_core:
  assumes "slab_core s m L F U {p} {}" and "counts s L 1" and "F p = k # ks"
  shows "\<exists>s' m1 m'. put_back_page p (s, m) = Some (s', m1)
    \<and> upd_page p (free_head_update (\<lambda>_. h_next (items m (slot_addr s m p k)))) m1 = m' \<and> items m1 = items m \<and> pool m1 = pool m
    \<and> slab_core s' m' (L(class_of s (length ks) := p # L (class_of s (length ks)))) (F(p := ks)) U {} {slot_addr s m p k}
    \<and> counts s' (L(class_of s (length ks) := p # L (class_of s (length ks)))) 0 \<and> same_slab s s'
    \<and> slot_addr s m p k \<notin> used U \<and> confined (insert p (listed s L)) m m'"
proof -
  note D = slab_coreD [OF assms(1)]
  let ?a = "slot_addr s m p k" and ?c = "class_of s (length ks)"
  let ?f = "free_head_update (\<lambda>_. h_next (items m ?a)) :: page_info \<Rightarrow> page_info"
  have ok: "page_ok s m F p" "page_at s m p" "p \<notin> listed s L"
    using D(7,8) by auto
  have free: "free_nr (pages m p) = Suc (length ks)" "Suc (length ks) \<le> per_slab s"
    using ok(1) page_free_le [OF ok(1)] assms(3) by (auto simp: page_ok_def page_free_def)
  define mA where "mA = upd_page p (\<lambda>i. i\<lparr>free_nr := free_nr i - 1\<rparr>) m"
  define mG where "mG = upd_page p (\<lambda>i. i\<lparr>free_nr := free_nr i - 1, free_head := h_next (items m ?a)\<rparr>) m"
  have G: "slab_core s mG L (F(p := ks)) U (insert p {}) {?a}" "?a \<notin> used U"
    using take_slot_core [OF assms(1) _ assms(3), of mG] by (auto simp: mG_def)
  have mG: "mG = upd_page p ?f mA" "free_nr (pages mG p) = length ks" "free_nr (pages mA p) = length ks"
    using free by (simp_all add: mG_def mA_def upd_page_def)
  obtain m' where m': "link_page p (head_of s ?c) mG = Some (p, m')" "slab_core (set_head ?c p s) m' (L(?c := p # L ?c)) (F(p := ks)) U {} {?a}"
      "same_pages mG m'" "\<forall>q. q \<noteq> p \<and> q \<notin> listed s L \<longrightarrow> pages m' q = pages mG q"
    using link_page_core [OF G(1), of ?c] mG(2) free(2) by auto
  have c: "?c < classes s"
    using class_of_less [of "length ks" s] free(2) by simp
  have h: "head_of s ?c \<noteq> p"
  proof
    assume "head_of s ?c = p"
    then have "p \<in> set (L ?c)"
      using head_in_list [OF D(3) c] ok(2) by (auto simp: page_at_def)
    then show False
      using ok(3) c unfolding listed_def by blast
  qed
  have "pool mG = pool mA" "pages mA p = (pages mG p)\<lparr>free_head := free_head (pages m p)\<rparr>"
    by (simp_all add: mG_def mA_def)
  have "mA = upd_page p (free_head_update (\<lambda>_. free_head (pages m p))) mG"
    by (simp add: mG_def mA_def upd_page_def)
  then obtain mB where mB: "link_page p (head_of s ?c) mA = Some (p, mB)" "mB = upd_page p (free_head_update (\<lambda>_. free_head (pages m p))) m'"
    using link_page_free_head [OF m'(1) h] by blast
  have restored: "upd_page p ?f mB = m'" "upd_page p ?f (upd_page p (free_head_update (\<lambda>_. 0)) mB) = m'"
  proof -
    have "free_head (pages m' p) = h_next (items m ?a)"
      using m'(3) by (simp add: same_pages_def mG_def)
    then have "(pages m' p)\<lparr>free_head := h_next (items m ?a)\<rparr> = pages m' p"
      by simp
    then show "upd_page p ?f mB = m'" "upd_page p ?f (upd_page p (free_head_update (\<lambda>_. 0)) mB) = m'"
      by (simp_all add: mB(2) upd_page_def)
  qed
  have rest: "items mB = items m" "pool mB = pool m" "confined (insert p (listed s L)) m m'"
    using m'(3,4) by (auto simp: mB(2) same_pages_def mG_def confined_def)
  show ?thesis
  proof (cases "ks = []")
    case True
    let ?s = "s\<lparr>full_pages := p, full_pages_no := full_pages_no s + 1, partial_pages_no := partial_pages_no s - 1\<rparr>"
    have c1: "?c = 1"
      using True free(2) by (simp add: class_of_def)
    have "put_back_page p (s, m) = Some (?s, upd_page p (free_head_update (\<lambda>_. 0)) mB)"
      unfolding put_back_page_def Let_def case_prod_conv mA_def [symmetric]
      using mB(1) mG(3) True c1 by (simp add: head_of_def)
    moreover have "slab_core ?s m' (L(?c := p # L ?c)) (F(p := ks)) U {} {?a}"
      by (rule slab_core_cong [OF m'(2)]) (simp_all add: set_head_def c1)
    moreover have "counts ?s (L(?c := p # L ?c)) 0"
      using assms(2) classes_cong [of ?s s] sum_length_other [of 1 "classes s" L "p # L 1"] by (simp add: counts_def c1)
    ultimately show ?thesis
      using rest restored(2) G(2) by (intro exI [of _ ?s] exI [of _ "upd_page p (free_head_update (\<lambda>_. 0)) mB"] exI [of _ m']) (simp add: same_slab_def)
  next
    case False
    then have b: "partial_bucket (length ks) s = Some (length ks div PARTIAL_PAGE_BUCKET)" "?c = Suc (Suc (length ks div PARTIAL_PAGE_BUCKET))"
      using partial_bucket_class [of "length ks" s] free(2) by auto
    have "put_back_page p (s, m) = Some (set_head ?c p s, mB)"
      unfolding put_back_page_def Let_def case_prod_conv mA_def [symmetric]
      using mB(1) mG(3) False b by (simp add: head_of_def set_head_def)
    moreover have "counts (set_head ?c p s) (L(?c := p # L ?c)) 0"
      using counts_add [OF assms(2)] c b(2) by simp
    ultimately show ?thesis
      using rest restored(1) G(2) m'(2) by (intro exI [of _ "set_head ?c p s"] exI [of _ mB] exI [of _ m']) (simp add: same_slab_def)
  qed
qed

text \<open>
  The effect of an allocation: the item comes from a free slot into the list of the area, the slab may
  have got a page from the pool, and nothing else changes but the links of items of the slab.
\<close>

definition item_added ::
  "slab_manager \<Rightarrow> mdb_mem \<Rightarrow> (nat \<Rightarrow> nat list) \<Rightarrow> (nat \<Rightarrow> nat list) \<Rightarrow> (nat \<Rightarrow> nat list) \<Rightarrow> nat \<Rightarrow> nat \<Rightarrow>
    slab_manager \<Rightarrow> mdb_mem \<Rightarrow> (nat \<Rightarrow> nat list) \<Rightarrow> (nat \<Rightarrow> nat list) \<Rightarrow> bool" where
  "item_added s m L F U area a s' m' L' F' \<longleftrightarrow> slab_inv s' m' L' F' (U(area := a # U area)) \<and> a \<notin> used U \<and> same_slab s s'
     \<and> confined (listed s L') m m' \<and> listed s L \<subseteq> listed s L'
     \<and> pages_in_use (pool m') = pages_in_use (pool m) \<union> listed s L'
     \<and> (listed s L' - listed s L) \<inter> pages_in_use (pool m) = {}
     \<and> (\<forall>b. b div mp_page_size (pool m) \<in> listed s L \<longrightarrow> unlinked (items m' b) = unlinked (items m b))
     \<and> (clean_pages s m F (listed s L) \<longrightarrow> clean_pages s' m' F' (listed s L') \<and> clean_item (items m' a))"

lemma free_head_slot:
  assumes "slab_core s m L F U D X" and "p \<in> listed s L \<union> D" and "F p = k # ks"
  shows "id_to_item m (free_head (pages m p)) = Some (slot_addr s m p k)"
    "item_id (items m (slot_addr s m p k)) = free_head (pages m p)" "k < per_slab s"
  using slab_core_page [OF assms(1,2)] names_addr [of s "free_head (pages m p)" p k m] assms(3)
  by (auto simp: page_at_def page_ok_def page_free_def)

lemma clean_item_unlinked: "unlinked it = unlinked it' \<Longrightarrow> clean_item it = clean_item it'"
  using unlinked_fields [of it it'] by (simp add: clean_item_def)

lemma clean_pages_cong:
  assumes "clean_pages s m F P" and "slot_addr s' m' = slot_addr s m" and "\<And>p. p \<in> P \<Longrightarrow> set (F' p) \<subseteq> set (F p)"
    and "\<And>a. unlinked (items m' a) = unlinked (items m a)"
  shows "clean_pages s' m' F' P"
  using assms(1,3) clean_item_unlinked [OF assms(4)] unfolding clean_pages_def assms(2) by blast

lemma same_items_confined:
  assumes "same_items m m'" and "\<And>b. b div mp_page_size (pool m) \<notin> P \<Longrightarrow> items m' b = items m b"
  shows "confined P m m'"
  using assms by (simp add: same_items_def confined_def)

lemma slab_core_pages:
  assumes "slab_core s m L F U D X" and "a \<in> used U \<union> X"
  shows "a div mp_page_size (pool m) \<in> listed s L \<union> D"
  using slab_core_slot [OF assms] slot_page [OF slab_coreD(1) [OF assms(1)]] by metis

lemma page_taken_added:
  assumes "page_taken s m L F U info w s1 m1 L1 F1" and "F1 info = k # ks" and "a = slot_addr s1 m1 info k" and "a \<notin> used U"
    and m3: "items m3 = items m1" "pool m3 = pool m1" "confined (insert info (listed s1 L1)) m1 m3"
    and inv: "slab_inv s' m' L' (F1(info := ks)) (U(area := a # U area))" and "same_slab s s'"
    and m': "same_items m3 m'" "\<forall>b. b \<noteq> a \<and> b \<notin> used U \<longrightarrow> items m' b = items m3 b"
    and L': "listed s L' = insert info (listed s L)"
  shows "item_added s m L F U area a s' m' L' (F1(info := ks))"
proof -
  have T: "slab_core s1 m1 L1 F1 U {info} {}" "same_slab s s1" "confined (insert info (listed s L)) m m1"
      "insert info (listed s L1) = insert info (listed s L)" "pages_in_use (pool m1) = insert info (pages_in_use (pool m))"
      "info \<in> listed s L \<or> info \<notin> pages_in_use (pool m)"
      "\<forall>b. b div mp_page_size (pool m) \<noteq> info \<or> info \<in> listed s L \<longrightarrow> items m1 b = items m b"
      "clean_pages s m F (listed s L) \<longrightarrow> clean_pages s1 m1 F1 (insert info (listed s L))"
    using assms(1) by (simp_all add: page_taken_def)
  have same: "pool m' = pool m1" "\<And>b. unlinked (items m' b) = unlinked (items m1 b)"
    using m' m3 by (simp_all add: same_items_def)
  have size: "mp_page_size (pool m1) = mp_page_size (pool m)"
    using T(3) by (simp add: confined_def)
  have k: "k < per_slab s1"
    using free_head_slot(3) [OF T(1) _ assms(2)] by simp
  have listed: "listed s1 = listed s"
    by (rule same_slab_listed [OF T(2)])
  have old: "listed s L \<subseteq> pages_in_use (pool m1)"
    using slab_core_page [OF T(1)] T(4) listed by (auto simp: page_ok_def)
  have kept: "items m1 b = items m b" if "b div mp_page_size (pool m) \<in> listed s L" for b
    using T(7) that by metis
  have touched: "b div mp_page_size (pool m) \<in> insert info (listed s L)" if "b = a \<or> b \<in> used U" for b
    using that slot_page [OF slab_coreD(1) [OF T(1)] k, of info] slab_core_pages [OF T(1), of b] T(4) listed size assms(3) by auto
  have "confined (insert info (listed s L)) m3 m'"
    by (rule same_items_confined [OF m'(1)]) (use touched m'(2) size m3(2) in metis)
  then have "confined (listed s L') m m'"
    unfolding L' using confined_trans [OF confined_trans [OF T(3) m3(3) order_refl]] T(4) listed by (metis order_refl)
  moreover have "clean_pages s' m' (F1(info := ks)) (listed s L') \<and> clean_item (items m' a)" if "clean_pages s m F (listed s L)"
  proof
    have c: "clean_pages s1 m1 F1 (listed s L')"
      using T(8) that L' by simp
    show "clean_pages s' m' (F1(info := ks)) (listed s L')"
      by (rule clean_pages_cong [OF c slot_addr_cong _ same(2)]) (use same(1) T(2) assms(2,9) in \<open>auto simp: same_slab_def\<close>)
    show "clean_item (items m' a)"
      using c L' assms(2) clean_item_unlinked [OF same(2)] unfolding clean_pages_def assms(3) by simp
  qed
  ultimately show ?thesis
    unfolding item_added_def using inv assms(4,9) T(5,6) L' same old kept by auto
qed

lemma alloc_new_item_spec:
  assumes "slab_inv s m L F U" and "area < TAIR_MAX_AREA_COUNT"
  shows "(\<exists>a s' m' L' F'. alloc_new_item area (s, m) = Some (Some a, s', m') \<and> item_added s m L F U area a s' m' L' F')
    \<or> alloc_new_item area (s, m) = Some (None, s, m) \<and> mp_free_pages (pool m) = 0 \<and> (\<forall>p\<in>listed s L. F p = [])"
  using take_page_spec [OF assms(1)]
proof (elim disjE exE conjE)
  fix info w s1 m1 L1 F1
  assume take: "take_page (s, m) = Some (Some (info, w), s1, m1)" and taken: "page_taken s m L F U info w s1 m1 L1 F1"
  have T: "slab_core s1 m1 L1 F1 U {info} {}" "counts s1 L1 1" "F1 info \<noteq> []" "w = free_head (pages m1 info)" "same_slab s s1"
      "confined (insert info (listed s L)) m m1" "insert info (listed s L1) = insert info (listed s L)"
      "pages_in_use (pool m1) = insert info (pages_in_use (pool m))" "info \<in> listed s L \<or> info \<notin> pages_in_use (pool m)"
      "\<forall>b. b div mp_page_size (pool m) \<noteq> info \<or> info \<in> listed s L \<longrightarrow> items m1 b = items m b"
      "clean_pages s m F (listed s L) \<longrightarrow> clean_pages s1 m1 F1 (insert info (listed s L))"
    using taken by (simp_all add: page_taken_def)
  obtain k ks where ks: "F1 info = k # ks"
    using T(3) by (cases "F1 info") auto
  let ?a = "slot_addr s1 m1 info k"
  let ?L = "L1(class_of s1 (length ks) := info # L1 (class_of s1 (length ks)))"
  obtain s2 m2 m3 where P: "put_back_page info (s1, m1) = Some (s2, m2)"
      "upd_page info (free_head_update (\<lambda>_. h_next (items m1 ?a))) m2 = m3" "items m2 = items m1" "pool m2 = pool m1"
      "slab_core s2 m3 ?L (F1(info := ks)) U {} {?a}" "counts s2 ?L 0" "same_slab s1 s2" "?a \<notin> used U" "confined (insert info (listed s1 L1)) m1 m3"
    using put_back_core [OF T(1,2) ks] by blast
  let ?s = "s2\<lparr>item_total_count := item_total_count s2 + 1\<rparr>"
  have core: "slab_core ?s m3 ?L (F1(info := ks)) U {} {?a}"
    by (rule slab_core_cong [OF P(5)]) simp_all
  obtain h t m' where l: "link_item ?a area (?s, m3) = Some (?s\<lparr>item_head := h, item_tail := t\<rparr>, m')"
      "slab_core (?s\<lparr>item_head := h, item_tail := t\<rparr>) m' ?L (F1(info := ks)) (U(area := ?a # U area)) {} ({?a} - {?a})"
      "same_items m3 m'" "\<forall>b. b \<noteq> ?a \<and> b \<notin> used U \<longrightarrow> items m' b = items m3 b"
    using link_item_core [OF core assms(2), of ?a] by blast
  note head = free_head_slot [OF T(1) _ ks, simplified]
  have m3: "items m3 = items m1" "pool m3 = pool m1"
    using P(2,3,4) by (auto simp: upd_page_def)
  have sizes: "same_slab s s2"
    using same_slab_trans [OF T(5) P(7)] .
  have nr: "length ks < per_slab s1"
    using page_free_le [of s1 m1 F1 info] slab_core_page [OF T(1), of info] ks by (auto simp: page_ok_def page_free_def)
  have L': "listed s ?L = insert info (listed s L)"
    using listed_link [OF class_of_less [of "length ks" s1]] nr T(7) same_slab_listed [OF T(5)] by (metis less_imp_le)
  have inv: "slab_inv (?s\<lparr>item_head := h, item_tail := t\<rparr>) m' ?L (F1(info := ks)) (U(area := ?a # U area))"
    using l(2) P(6) by (simp add: slab_inv_def counts_def classes_def partial_pages_bucket_no_def)
  have "page_ok (?s\<lparr>item_head := h, item_tail := t\<rparr>) m' (F1(info := ks)) info"
    using slab_core_page [OF l(2), of info] L' listed_cong [of "?s\<lparr>item_head := h, item_tail := t\<rparr>" s] sizes by (simp add: same_slab_def)
  then have page: "free_head (pages m' info) = 0 \<longleftrightarrow> free_nr (pages m' info) = 0"
    by (rule chain_head)
  have id: "id_to_item m2 w = Some ?a" "item_id (items m' ?a) = w"
    using head l(3) m3 P(4) T(4) unlinked_fields(7) [of "items m' ?a" "items m3 ?a"] by (simp_all add: id_to_item_def same_items_def)
  have "alloc_new_item area (s, m) = Some (Some ?a, ?s\<lparr>item_head := h, item_tail := t\<rparr>, m')"
    unfolding alloc_new_item_def using take P(1,3) P(2) [folded P(3)] l(1) id page by (simp add: Let_def)
  moreover have "item_added s m L F U area ?a (?s\<lparr>item_head := h, item_tail := t\<rparr>) m' ?L (F1(info := ks))"
    by (rule page_taken_added [OF taken ks refl P(8) m3 P(9) inv _ l(3,4) L']) (use sizes in \<open>simp add: same_slab_def\<close>)
  ultimately show ?thesis
    by blast
next
  assume "take_page (s, m) = Some (None, s, m)" "mp_free_pages (pool m) = 0" "\<forall>p\<in>listed s L. F p = []"
  then show ?thesis
    by (simp add: alloc_new_item_def)
qed

end
