(* ===== verification/Slab_Free.thy ===== *)
theory Slab_Free
  imports Slab_Alloc
begin

text \<open>
  What giving an item back does to a slab: \<open>free_item\<close> takes the item out of the list of its area
  and its page out of the class of pages it is in, puts the slot at the head of the page's chain, and
  puts the page into the class of its new number of free slots, or gives it back to the pool when it
  is empty and more than one other page is left.
\<close>

definition not_full :: "slab_manager \<Rightarrow> mdb_mem \<Rightarrow> nat \<Rightarrow> bool" where
  "not_full s m p \<longleftrightarrow> free_nr (pages m p) < per_slab s"

lemma int_length_remove1: "x \<in> set xs \<Longrightarrow> int (length (remove1 x xs)) = int (length xs) - 1"
  using length_pos_if_in_set [of x xs] by (simp add: length_remove1 of_nat_diff Suc_leI)

text \<open>A page with a used slot comes out of its class and counts as a partial one meanwhile.\<close>

lemma detach_page_core:
  assumes "slab_core s m L F U {} X" and "counts s L 0" and "p \<in> listed s L" and "not_full s m p"
  shows "\<exists>s' m' L'. detach_page p (s, m) = Some (s', m') \<and> slab_core s' m' L' F U {p} X \<and> counts s' L' 1 \<and> same_slab s s'
    \<and> same_pages m m' \<and> (\<forall>q. q \<notin> listed s L \<longrightarrow> pages m' q = pages m q) \<and> listed s L' = listed s L - {p}"
proof -
  note D = slab_coreD [OF assms(1)]
  obtain c where c: "c < classes s" "p \<in> set (L c)"
    using assms(3) unfolding listed_def by blast
  have cls: "class_of s (free_nr (pages m p)) = c"
    using plists_page [OF D(3) c] by blast
  have ok: "page_ok s m F p"
    using D(8) assms(3) by blast
  obtain h m' where u: "unlink_page p (head_of s c) m = Some (h, m')"
      "slab_core (set_head c h s) m' (L(c := remove1 p (L c))) F U {p} X" "same_pages m m'"
      "\<forall>q. q \<notin> listed s L \<longrightarrow> pages m' q = pages m q" "listed s (L(c := remove1 p (L c))) = listed s L - {p}"
    using unlink_page_core [OF assms(1) c] by blast
  show ?thesis
  proof (cases "free_nr (pages m p) = 0")
    case True
    let ?s = "s\<lparr>full_pages := h, full_pages_no := full_pages_no s - 1, partial_pages_no := partial_pages_no s + 1\<rparr>"
    have c1: "c = 1"
      using cls True assms(4) by (simp add: class_of_def not_full_def)
    have "detach_page p (s, m) = Some (?s, m')"
      using u(1) True by (simp add: detach_page_def head_of_def c1)
    moreover have "slab_core ?s m' (L(c := remove1 p (L c))) F U {p} X"
      by (rule slab_core_cong [OF u(2)]) (simp_all add: set_head_def c1)
    moreover have "counts ?s (L(c := remove1 p (L c))) 1"
      using assms(2) classes_cong [of ?s s] sum_length_other [of 1 "classes s" L "remove1 p (L 1)"] 
        int_length_remove1 [of p "L 1"] c(2)
      by (simp add: counts_def c1)
    ultimately show ?thesis
      using u(3-5) by (intro exI [of _ ?s] exI [of _ m'] exI [of _ "L(c := remove1 p (L c))"]) (simp add: same_slab_def)
  next
    case False
    then have b: "partial_bucket (free_nr (pages m p)) s = Some (free_nr (pages m p) div PARTIAL_PAGE_BUCKET)"
        "c = Suc (Suc (free_nr (pages m p) div PARTIAL_PAGE_BUCKET))"
      using partial_bucket_class [of "free_nr (pages m p)" s] assms(4) cls by (auto simp: not_full_def)
    have "detach_page p (s, m) = Some (set_head c h s, m')"
      using u(1) b False chain_head [OF ok] by (simp add: detach_page_def head_of_def set_head_def)
    moreover have "counts (set_head c h s) (L(c := remove1 p (L c))) 1"
      using counts_remove [OF assms(2)] c b(2) by simp
    ultimately show ?thesis
      using u(2-5) by (intro exI [of _ "set_head c h s"] exI [of _ m'] exI [of _ "L(c := remove1 p (L c))"]) (simp add: same_slab_def)
  qed
qed

lemma counts_listed:
  assumes "counts s L 0" and "0 < free_pages_no s + full_pages_no s + partial_pages_no s"
  shows "listed s L \<noteq> {}"
proof
  assume none: "listed s L = {}"
  have "L c = []" if "c < classes s" for c
    using none that by (auto simp: listed_def)
  then show False
    using assms by (simp add: counts_def classes_def)
qed

text \<open>
  A page goes back into a class, or to the pool; \<open>m\<close> is the memory before the number of free slots
  is raised.
\<close>

lemma attach_page_core:
  assumes "m1 = upd_page p (\<lambda>i. i\<lparr>free_nr := free_nr i + 1\<rparr>) m" and "slab_core s m1 L F U {p} {}" and "counts s L 1"
    and "free_nr (pages m1 p) \<le> per_slab s" "0 < free_nr (pages m1 p)"
  shows "\<exists>s' m' L'. attach_page p (s, m) = Some (s', m') \<and> slab_inv s' m' L' F U \<and> same_slab s s' \<and> items m' = items m
    \<and> confined (insert p (listed s L)) m1 m' \<and> listed s L \<subseteq> listed s L' \<and> listed s L' \<subseteq> insert p (listed s L)
    \<and> pages_in_use (pool m') = (if p \<in> listed s L' then pages_in_use (pool m) else pages_in_use (pool m) - {p}) \<and> listed s L' \<noteq> {}"
proof -
  note D = slab_coreD [OF assms(2)]
  have at: "page_at s m1 p" "p \<notin> listed s L"
    using D(7) by auto
  have m1: "pool m1 = pool m" "items m1 = items m"
    by (simp_all add: assms(1))
  let ?c = "class_of s (free_nr (pages m1 p))"
  have c: "?c < classes s"
    using class_of_less assms(4) .
  obtain m' where l: "link_page p (head_of s ?c) m1 = Some (p, m')" "slab_core (set_head ?c p s) m' (L(?c := p # L ?c)) F U {} {}"
      "same_pages m1 m'" "\<forall>q. q \<noteq> p \<and> q \<notin> listed s L \<longrightarrow> pages m' q = pages m1 q"
    using link_page_core [OF assms(2) _ refl assms(4)] by auto
  have kept: "confined (insert p (listed s L)) m1 m'" "pool m' = pool m" "items m' = items m"
    using l(3,4) m1 by (auto simp: same_pages_def confined_def)
  have L': "listed s (L(?c := p # L ?c)) = insert p (listed s L)"
    by (rule listed_link [OF c])
  consider (partial) "free_nr (pages m1 p) < per_slab s" | (empty) "free_nr (pages m1 p) = per_slab s"
    using assms(4) by linarith
  then show ?thesis
  proof cases
    case partial
    then have b: "partial_bucket (free_nr (pages m1 p)) s = Some (free_nr (pages m1 p) div PARTIAL_PAGE_BUCKET)"
        "?c = Suc (Suc (free_nr (pages m1 p) div PARTIAL_PAGE_BUCKET))"
      using partial_bucket_class [of "free_nr (pages m1 p)" s] assms(5) by auto
    have "attach_page p (s, m) = Some (set_head ?c p s, m')"
      unfolding attach_page_def Let_def case_prod_conv assms(1) [symmetric]
      using l(1) b partial by (simp add: head_of_def set_head_def)
    moreover have "slab_inv (set_head ?c p s) m' (L(?c := p # L ?c)) F U"
      using l(2) counts_add [OF assms(3)] c b(2) by (simp add: slab_inv_def)
    ultimately show ?thesis
      using kept L' by (intro exI [of _ "set_head ?c p s"] exI [of _ m'] exI [of _ "L(?c := p # L ?c)"]) (auto simp: same_slab_def)
  next
    case empty
    let ?s = "s\<lparr>partial_pages_no := partial_pages_no s - 1\<rparr>"
    have c0: "?c = 0"
      using empty by (simp add: class_of_def)
    show ?thesis
    proof (cases "free_pages_no ?s + full_pages_no ?s + partial_pages_no ?s \<le> 1")
      case True
      let ?t = "?s\<lparr>free_pages := p, free_pages_no := free_pages_no ?s + 1\<rparr>"
      have "attach_page p (s, m) = Some (?t, m')"
        unfolding attach_page_def Let_def case_prod_conv assms(1) [symmetric]
        using l(1) empty True c0 by (simp add: head_of_def)
      moreover have "slab_core ?t m' (L(?c := p # L ?c)) F U {} {}"
        by (rule slab_core_cong [OF l(2)]) (simp_all add: set_head_def c0)
      moreover have "counts ?t (L(?c := p # L ?c)) 0"
        using assms(3) classes_cong [of ?t s] sum_length_other [of 0 "classes s" L "p # L 0"] by (simp add: counts_def c0)
      ultimately show ?thesis
        using kept L' by (intro exI [of _ ?t] exI [of _ m'] exI [of _ "L(?c := p # L ?c)"]) (auto simp: same_slab_def slab_inv_def)
    next
      case False
      obtain q where q: "free_page p (pool m1) = Some q" "pages_in_use q = pages_in_use (pool m1) - {p}" "mem_pool_wf q"
          "mp_total_pages q = mp_total_pages (pool m1)" "mp_page_size q = mp_page_size (pool m1)"
        using free_page_wf [OF D(2), of p] at(1) by (auto simp: page_at_def)
      have "attach_page p (s, m) = Some (?s, m1\<lparr>pool := q\<rparr>)"
        unfolding attach_page_def Let_def case_prod_conv assms(1) [symmetric]
        using q(1) empty False at(1) by (simp add: page_at_def)
      moreover have "slab_core s (m1\<lparr>pool := q\<rparr>) L F U {} {}"
        by (rule release_page_core [OF assms(2) _ empty q(3,2,4,5)]) simp
      then have "slab_core ?s (m1\<lparr>pool := q\<rparr>) L F U {} {}"
        by (rule slab_core_cong) simp_all
      moreover have n: "counts ?s L 0"
        using assms(3) classes_cong [of ?s s] by (simp add: counts_def)
      moreover have "listed s L \<noteq> {}"
        using counts_listed [OF n] False listed_cong [of ?s s] by simp
      ultimately show ?thesis
        using at(2) q(2,4,5) m1 by (intro exI [of _ ?s] exI [of _ "m1\<lparr>pool := q\<rparr>"] exI [of _ L])
          (auto simp: same_slab_def slab_inv_def confined_def)
    qed
  qed
qed

text \<open>
  The effect of giving an item back: it leaves the list of its area, its slot is free again, its page
  may go to the pool, and of everything else only links of items of the slab change.
\<close>

definition item_removed ::
  "slab_manager \<Rightarrow> mdb_mem \<Rightarrow> (nat \<Rightarrow> nat list) \<Rightarrow> (nat \<Rightarrow> nat list) \<Rightarrow> (nat \<Rightarrow> nat list) \<Rightarrow> nat \<Rightarrow> nat \<Rightarrow>
    slab_manager \<Rightarrow> mdb_mem \<Rightarrow> (nat \<Rightarrow> nat list) \<Rightarrow> (nat \<Rightarrow> nat list) \<Rightarrow> bool" where
  "item_removed s m L F U x a s' m' L' F' \<longleftrightarrow> slab_inv s' m' L' F' (U(x := remove1 a (U x))) \<and> same_slab s s'
     \<and> used (U(x := remove1 a (U x))) = used U - {a}
     \<and> confined (listed s L) m m' \<and> listed s L' \<subseteq> listed s L \<and> listed s L' \<noteq> {}
     \<and> pages_in_use (pool m') = pages_in_use (pool m) - (listed s L - listed s L')
     \<and> (\<forall>b. b \<noteq> a \<longrightarrow> unlinked (items m' b) = unlinked (items m b)) \<and> item_id (items m' a) = item_id (items m a)
     \<and> (\<exists>p k. p \<in> listed s L \<and> k < per_slab s \<and> a = slot_addr s m p k \<and> F' = F(p := k # F p))"

lemma free_slot_less:
  assumes "page_ok s m F p" and "k < per_slab s" and "k \<notin> set (F p)"
  shows "free_nr (pages m p) < per_slab s"
proof -
  have "card (insert k (set (F p))) \<le> card {..<per_slab s}"
    by (rule card_mono) (use assms in \<open>auto simp: page_ok_def page_free_def\<close>)
  then show ?thesis
    using assms distinct_card [of "F p"] by (simp add: page_ok_def page_free_def)
qed

lemma return_slot:
  assumes "slab_core s m L F U {p} {a}" and "counts s L 1" and "k < per_slab s" and "a = slot_addr s m p k"
    and "m1 = upd_item a (\<lambda>it. it\<lparr>i_prev := 0, i_next := 0, h_next := free_head (pages m p)\<rparr>) m"
    and "m2 = upd_page p (free_head_update (\<lambda>_. item_id (items m1 a))) m1"
  shows "\<exists>s' m' L'. attach_page p (s, m2) = Some (s', m') \<and> slab_inv s' m' L' (F(p := k # F p)) U \<and> same_slab s s'
    \<and> confined (insert p (listed s L)) m m' \<and> listed s L \<subseteq> listed s L' \<and> listed s L' \<subseteq> insert p (listed s L)
    \<and> pages_in_use (pool m') = (if p \<in> listed s L' then pages_in_use (pool m) else pages_in_use (pool m) - {p})
    \<and> listed s L' \<noteq> {} \<and> (\<forall>b. b \<noteq> a \<longrightarrow> items m' b = items m b) \<and> item_id (items m' a) = item_id (items m a)"
proof -
  let ?m3 = "upd_page p (\<lambda>i. i\<lparr>free_nr := free_nr i + 1\<rparr>) m2"
  have m3: "?m3 = upd_page p (\<lambda>i. i\<lparr>free_head := item_id (items m a), free_nr := free_nr i + 1\<rparr>) m1"
    by (simp add: assms(5,6) upd_page_def)
  have m1: "m1 = upd_item (slot_addr s m p k) (\<lambda>it. it\<lparr>i_prev := 0, i_next := 0, h_next := free_head (pages m p)\<rparr>) m"
    using assms(4,5) by simp
  have "slab_core s ?m3 L (F(p := k # F p)) U {p} ({a} - {a}) \<and> free_nr (pages ?m3 p) \<le> per_slab s"
    using give_slot_core [OF assms(1) _ assms(3) _ m1, of ?m3] m3 assms(4) by simp
  then have core: "slab_core s ?m3 L (F(p := k # F p)) U {p} {}" and le: "free_nr (pages ?m3 p) \<le> per_slab s"
    by simp_all
  obtain s' m' L' where a: "attach_page p (s, m2) = Some (s', m')" "slab_inv s' m' L' (F(p := k # F p)) U" "same_slab s s'"
      "items m' = items m2" "confined (insert p (listed s L)) ?m3 m'" "listed s L \<subseteq> listed s L'" "listed s L' \<subseteq> insert p (listed s L)"
      "pages_in_use (pool m') = (if p \<in> listed s L' then pages_in_use (pool m2) else pages_in_use (pool m2) - {p})" "listed s L' \<noteq> {}"
    using attach_page_core [OF refl core assms(2) le] by auto
  have "slot_addr s m p k div mp_page_size (pool m) = p"
    using slot_page [OF slab_coreD(1) [OF assms(1)] assms(3)] .
  then have "confined (insert p (listed s L)) m ?m3"
    by (auto simp: confined_def assms(4-6))
  then have "confined (insert p (listed s L)) m m'"
    using confined_trans [OF _ a(5)] by blast
  then show ?thesis
    using a by (intro exI [of _ s'] exI [of _ m'] exI [of _ L']) (simp add: assms(5,6))
qed

lemma free_item_spec:
  assumes "slab_inv s m L F U" and "x < TAIR_MAX_AREA_COUNT" and "a \<in> set (U x)" and "ITEM_AREA (items m a) = x"
  shows "\<exists>s' m' L' F'. free_item a (s, m) = Some (s', m') \<and> item_removed s m L F U x a s' m' L' F'"
proof -
  let ?s = "s\<lparr>item_total_count := item_total_count s - 1\<rparr>"
  have core0: "slab_core s m L F U {} {}" and n: "counts s L 0"
    using assms(1) by (simp_all add: slab_inv_def)
  have core: "slab_core ?s m L F U {} {}"
    by (rule slab_core_cong [OF core0]) simp_all
  obtain h t m1 where u: "unlink_item a (?s, m) = Some (?s\<lparr>item_head := h, item_tail := t\<rparr>, m1)"
      "slab_core (?s\<lparr>item_head := h, item_tail := t\<rparr>) m1 L F (U(x := remove1 a (U x))) {} {a}" "same_items m m1"
      "used (U(x := remove1 a (U x))) = used U - {a}" "items m1 a = items m a" "\<forall>b. b \<notin> used U \<longrightarrow> items m1 b = items m b"
    using unlink_item_core [OF core assms(2-4)] by blast
  let ?s1 = "?s\<lparr>item_head := h, item_tail := t\<rparr>" and ?U = "U(x := remove1 a (U x))"
  have same1: "same_slab s ?s1"
    by (simp add: same_slab_def)
  have a: "a \<in> used U \<union> {}"
    using assms(2,3) by (auto simp: used_def)
  obtain p k where pk: "p \<in> listed s L" "k < per_slab s" "k \<notin> set (F p)" "a = slot_addr s m p k" "0 < p"
    using slab_core_slot [OF core0 a] by blast
  have listed1: "listed ?s1 = listed s"
    by (rule same_slab_listed [OF same1])
  have addr1: "slot_addr ?s1 m1 p k = a"
    using u(3) pk(4) by (simp add: slot_addr_def same_items_def)
  note P = slab_core_page [OF u(2), of p, unfolded listed1]
  have name: "names ?s1 (item_id (items m1 a)) p k"
    using P pk addr1 by (auto simp: page_ok_def slot_ok_def)
  have id: "PAGE_ID (item_id (items m1 a)) = p" "item_id (items m1 a) \<noteq> 0" "index_to_page (pool m1) p \<noteq> None"
    using name names_good [OF name] P pk by (auto simp: names_def index_to_page_def page_at_def)
  have nf: "not_full ?s1 m1 p"
    using free_slot_less [of ?s1 m1 F p k] P pk by (simp add: not_full_def)
  have n1: "counts ?s1 L 0"
    using n classes_cong [of ?s1 s] by (simp add: counts_def)
  obtain s2 m2 L2 where d: "detach_page p (?s1, m1) = Some (s2, m2)" "slab_core s2 m2 L2 F ?U {p} {a}" "counts s2 L2 1"
      "same_slab ?s1 s2" "same_pages m1 m2" "\<forall>q. q \<notin> listed ?s1 L \<longrightarrow> pages m2 q = pages m1 q" "listed ?s1 L2 = listed ?s1 L - {p}"
    using detach_page_core [OF u(2) n1 _ nf] pk(1) listed1 by auto
  have sz: "same_slab s s2" "pool m2 = pool m" "items m2 = items m1"
    using same_slab_trans [OF same1 d(4)] d(5) u(3) by (simp_all add: same_pages_def same_items_def)
  have L2: "listed s2 = listed s" "listed s L2 = listed s L - {p}"
    using same_slab_listed [OF sz(1)] d(7) listed1 by simp_all
  have a2: "a = slot_addr s2 m2 p k"
    using pk(4) sz by (simp add: slot_addr_def same_slab_def)
  obtain s' m' L' where r: "attach_page p (s2, upd_page p (free_head_update (\<lambda>_. item_id (items (upd_item a (\<lambda>it. it\<lparr>i_prev := 0, i_next := 0, h_next := free_head (pages m2 p)\<rparr>) m2) a)))
        (upd_item a (\<lambda>it. it\<lparr>i_prev := 0, i_next := 0, h_next := free_head (pages m2 p)\<rparr>) m2)) = Some (s', m')"
      "slab_inv s' m' L' (F(p := k # F p)) ?U" "same_slab s2 s'" "confined (insert p (listed s2 L2)) m2 m'"
      "listed s2 L2 \<subseteq> listed s2 L'" "listed s2 L' \<subseteq> insert p (listed s2 L2)"
      "pages_in_use (pool m') = (if p \<in> listed s2 L' then pages_in_use (pool m2) else pages_in_use (pool m2) - {p})"
      "\<forall>b. b \<noteq> a \<longrightarrow> items m' b = items m2 b" "item_id (items m' a) = item_id (items m2 a)"
      "listed s2 L' \<noteq> {}"
    using return_slot [OF d(2,3) _ a2 refl refl] pk(2) sz(1) by (auto simp: same_slab_def)
  have "free_item a (s, m) = Some (s', m')"
    unfolding free_item_def using u(1,5) id d(1) r(1) by (auto simp: Let_def)
  moreover have "item_removed s m L F U x a s' m' L' (F(p := k # F p))"
  proof -
    have p: "insert p (listed s L2) = listed s L"
      using L2(2) pk(1) by blast
    have "confined (listed s L) m m1"
      by (rule same_items_confined [OF u(3)]) (use u(6) slab_core_pages [OF core0] in blast)
    moreover have "confined (listed s L) m1 m2"
      by (rule same_pages_confined [OF d(5) d(6) [unfolded listed1]])
    ultimately have "confined (listed s L) m m2"
      by (rule confined_trans) (rule order_refl)+
    then have "confined (listed s L) m m'"
      using r(4) unfolding p L2(1) by (rule confined_trans) (rule order_refl)+
    moreover have "\<forall>b. b \<noteq> a \<longrightarrow> unlinked (items m' b) = unlinked (items m b)"
      using r(8) sz(3) u(3) by (simp add: same_items_def)
    moreover have "pages_in_use (pool m') = pages_in_use (pool m) - (listed s L - listed s L')" "listed s L' \<subseteq> listed s L"
      using r(5-7) L2 p sz(2) by (auto split: if_splits)
    moreover have "item_id (items m' a) = item_id (items m a)"
      using r(9) sz(3) u(5) by simp
    moreover have "\<exists>q j. q \<in> listed s L \<and> j < per_slab s \<and> a = slot_addr s m q j \<and> F(p := k # F p) = F(q := j # F q)"
      using pk by blast
    ultimately show ?thesis
      unfolding item_removed_def using r(2,10) u(4) same_slab_trans [OF sz(1) r(3)] L2(1) by simp
  qed
  ultimately show ?thesis
    by blast
qed

end
