(* ===== verification/Slab_Evict.thy ===== *)
theory Slab_Evict
  imports Slab_Free
begin

text \<open>
  What happens to items in use: writing to an item keeps the structure of a slab as long as the item
  keeps its place, its links and its size; eviction hands out an item in use again, at the head of the
  list of an area; and an allocation in a slab that has a page always yields an item.
\<close>

section \<open>Writing to items\<close>

definition same_place :: "64 word \<Rightarrow> 64 word \<Rightarrow> bool" where
  "same_place v w \<longleftrightarrow> SLAB_SIZE w = SLAB_SIZE v \<and> PAGE_OFFSET w = PAGE_OFFSET v \<and> PAGE_ID w = PAGE_ID v \<and> SLAB_ID w = SLAB_ID v"

definition rewritten :: "mdb_item \<Rightarrow> mdb_item \<Rightarrow> bool" where
  "rewritten it it' \<longleftrightarrow> same_place (item_id it) (item_id it') \<and> i_prev it' = i_prev it \<and> i_next it' = i_next it
     \<and> length (idata it') = length (idata it)"

lemma rewritten_refl [simp]: "rewritten it it"
  by (simp add: rewritten_def same_place_def)

lemma rewritten_trans: "rewritten it it' \<Longrightarrow> rewritten it' it'' \<Longrightarrow> rewritten it it''"
  by (simp add: rewritten_def same_place_def)

lemma same_place_flags [simp]: "same_place w (CLEAR_FLAGS w)" "same_place w (SET_ITEM_FLAGS w v)" "same_place w w"
  by (simp_all add: same_place_def flags_fields)

lemma same_place_names: "same_place v w \<Longrightarrow> names s w p k = names s v p k"
  by (simp add: same_place_def names_def)

lemma same_place_id:
  assumes "same_place v w" and "good s v" and "v \<noteq> 0"
  shows "good s w" "w \<noteq> 0" "id_to_item m w = id_to_item m v"
proof -
  have p: "0 < PAGE_ID w"
    using assms by (simp add: same_place_def good_def)
  then show w: "w \<noteq> 0"
    by (auto simp: PAGE_ID_def)
  show "good s w"
    using assms p by (simp add: same_place_def good_def)
  show "id_to_item m w = id_to_item m v"
    using assms w by (simp add: id_to_item_def ITEM_ADDR_def same_place_def)
qed

lemma named_rewritten:
  assumes "named s m a" and "rewritten (items m a) (items m' a)" and "pool m' = pool m"
  shows "named s m' a"
proof -
  have "item_id (items m a) \<noteq> 0"
    using assms(1) by (auto simp: named_def id_to_item_def ITEM_ADDR_def)
  then show ?thesis
    using assms(1,2) same_place_id [of "item_id (items m a)" "item_id (items m' a)" s] id_to_item_cong [OF assms(3)]
    by (simp add: named_def rewritten_def)
qed

lemma lru_rewritten:
  assumes "lru s m U" and "\<And>b. rewritten (items m b) (items m' b)" and "pool m' = pool m"
  shows "lru s m' U"
proof (rule lruI)
  fix x assume x: "x < TAIR_MAX_AREA_COUNT"
  have "item_nx m' = item_nx m" "item_pv m' = item_pv m"
    using assms(2) id_to_item_cong [OF assms(3)] by (simp_all add: fun_eq_iff item_nx_def item_pv_def rewritten_def)
  then show "lru_list s m' x (U x)"
    using lru_listD [OF assms(1) x] named_rewritten [OF _ assms(2,3)] id_to_item_cong [OF assms(3)] assms(2)
    by (simp add: lru_list_def rewritten_def)
qed (rule lru_disjoint [OF assms(1)])

definition same_chain :: "mdb_item \<Rightarrow> mdb_item \<Rightarrow> bool" where
  "same_chain it it' \<longleftrightarrow> item_id it' = item_id it \<and> h_next it' = h_next it"

lemma slab_core_rewritten:
  assumes "slab_core s m L F U D X" and "\<And>b. rewritten (items m b) (items m' b)" and "pool m' = pool m" "pages m' = pages m"
    and "\<And>p k. p \<in> listed s L \<union> D \<Longrightarrow> k \<in> set (F p) \<Longrightarrow> same_chain (items m (slot_addr s m p k)) (items m' (slot_addr s m p k))"
  shows "slab_core s m' L F U D X"
proof (rule slab_coreI)
  note D = slab_coreD [OF assms(1)]
  have addr: "slot_addr s m' = slot_addr s m"
    by (rule slot_addr_cong) (simp_all add: assms(3))
  show "shape s m'"
    by (rule shape_cong [OF D(1)]) (simp_all add: assms(3))
  show "plists s m' L"
    by (rule plists_frame [OF D(3)]) (simp_all add: assms(3,4))
  show "lru s m' U"
    by (rule lru_rewritten [OF D(4) assms(2,3)])
  show "used U \<union> X = slots s m' F (listed s L \<union> D)"
    using D(5) slots_cong [OF addr refl] by simp
  show "page_at s m' p \<and> p \<notin> listed s L" if "p \<in> D" for p
    using D(7) [OF that] assms(3,4) by (simp add: page_at_def)
  show "page_ok s m' F p" if "p \<in> listed s L \<union> D" for p
  proof -
    have "free_chain s m' p w (F p) = free_chain s m p w (F p)" for w
      by (rule free_chain_cong [OF addr refl]) (use assms(5) [OF that] in \<open>simp add: same_chain_def\<close>)
    moreover have "names s (item_id (items m' b)) q k = names s (item_id (items m b)) q k" "length (idata (items m' b)) = length (idata (items m b))" for b q k
      using same_place_names assms(2) by (auto simp: rewritten_def)
    ultimately show ?thesis
      using D(8) [OF that] unfolding page_ok_def page_free_def slot_ok_def addr assms(3,4) by simp
  qed
qed (use slab_coreD [OF assms(1)] assms(3) in auto)

section \<open>Moving an item to the head of a list\<close>

definition moved :: "(nat \<Rightarrow> nat list) \<Rightarrow> nat \<Rightarrow> nat \<Rightarrow> nat \<Rightarrow> nat \<Rightarrow> nat list" where
  "moved U x y a = (let V = U(x := remove1 a (U x)) in V(y := a # V y))"

lemma update_item_spec:
  assumes "slab_inv s m L F U" and "x < TAIR_MAX_AREA_COUNT" and "y < TAIR_MAX_AREA_COUNT"
    and "a \<in> set (U x)" and "ITEM_AREA (items m a) = x"
  shows "\<exists>s' m'. update_item a y (s, m) = Some (s', m') \<and> slab_inv s' m' L F (moved U x y a) \<and> same_slab s s' \<and> same_items m m'
    \<and> confined (listed s L) m m' \<and> used (moved U x y a) = used U"
proof -
  have core: "slab_core s m L F U {} {}" and n: "counts s L 0"
    using assms(1) by (simp_all add: slab_inv_def)
  let ?U = "U(x := remove1 a (U x))"
  obtain h t m1 where u: "unlink_item a (s, m) = Some (s\<lparr>item_head := h, item_tail := t\<rparr>, m1)"
      "slab_core (s\<lparr>item_head := h, item_tail := t\<rparr>) m1 L F ?U {} {a}" "same_items m m1"
      "used ?U = used U - {a}" "\<forall>b. b \<notin> used U \<longrightarrow> items m1 b = items m b"
    using unlink_item_core [OF core assms(2,4,5)] by blast
  obtain h' t' m' where l: "link_item a y (s\<lparr>item_head := h, item_tail := t\<rparr>, m1) = Some (s\<lparr>item_head := h', item_tail := t'\<rparr>, m')"
      "slab_core (s\<lparr>item_head := h', item_tail := t'\<rparr>) m' L F (?U(y := a # ?U y)) {} {}" "same_items m1 m'"
      "\<forall>b. b \<noteq> a \<and> b \<notin> used ?U \<longrightarrow> items m' b = items m1 b"
    using link_item_core [OF u(2) assms(3), of a] by auto
  have a: "a \<in> used U"
    using usedI [of x a U] assms(2,4) by blast
  have same: "same_items m m'"
    by (rule same_items_trans [OF u(3) l(3)])
  moreover have "confined (listed s L) m m'"
    by (rule same_items_confined [OF same]) (use u(4,5) l(4) a slab_core_pages [OF core] in force)
  moreover have "slab_inv (s\<lparr>item_head := h', item_tail := t'\<rparr>) m' L F (moved U x y a)"
    using l(2) n classes_cong [of "s\<lparr>item_head := h', item_tail := t'\<rparr>" s] by (simp add: slab_inv_def counts_def moved_def)
  moreover have "used (moved U x y a) = used U"
    using used_link [OF assms(3), of ?U a] u(4) a by (auto simp: moved_def)
  ultimately show ?thesis
    using u(1) l(1) by (intro exI [of _ "s\<lparr>item_head := h', item_tail := t'\<rparr>"] exI [of _ m']) (simp add: update_item_def same_slab_def)
qed

text \<open>
  The effect of handing out an item in use: it has lost its flags and is at the head of the list of
  area \<open>y\<close>; of everything else only links of items of the slab change.
\<close>

definition item_reused ::
  "slab_manager \<Rightarrow> mdb_mem \<Rightarrow> (nat \<Rightarrow> nat list) \<Rightarrow> (nat \<Rightarrow> nat list) \<Rightarrow> (nat \<Rightarrow> nat list) \<Rightarrow> nat \<Rightarrow> nat \<Rightarrow> nat \<Rightarrow>
    slab_manager \<Rightarrow> mdb_mem \<Rightarrow> bool" where
  "item_reused s m L F U x y a s' m' \<longleftrightarrow> slab_inv s' m' L F (moved U x y a) \<and> used (moved U x y a) = used U
     \<and> a \<in> set (U x) \<and> x < TAIR_MAX_AREA_COUNT \<and> same_slab s s' \<and> confined (listed s L) m m' \<and> pool m' = pool m
     \<and> (\<forall>b. b \<noteq> a \<longrightarrow> unlinked (items m' b) = unlinked (items m b))
     \<and> unlinked (items m' a) = unlinked (items m a)\<lparr>item_id := CLEAR_FLAGS (item_id (items m a))\<rparr>"

lemma reuse_item:
  assumes "slab_inv s m L F U" and "x < TAIR_MAX_AREA_COUNT" and "y < TAIR_MAX_AREA_COUNT"
    and "a \<in> set (U x)" and "ITEM_AREA (items m a) = x"
  shows "\<exists>s' m'. update_item a y (s, upd_item a (item_id_update CLEAR_FLAGS) m) = Some (s', m') \<and> item_reused s m L F U x y a s' m'"
proof -
  let ?m = "upd_item a (item_id_update CLEAR_FLAGS) m"
  have core: "slab_core s m L F U {} {}" and n: "counts s L 0"
    using assms(1) by (simp_all add: slab_inv_def)
  note D = slab_coreD [OF core]
  have a: "a \<in> used U"
    using usedI [of x a U] assms(2,4) by blast
  have "slab_core s ?m L F U {} {}"
  proof (rule slab_core_rewritten [OF core])
    fix p k assume p: "p \<in> listed s L \<union> {}" "k \<in> set (F p)"
    then have "k < per_slab s"
      using D(8) [OF p(1)] by (auto simp: page_ok_def page_free_def)
    then have "slot_addr s m p k \<noteq> a"
      using slot_in_slots [OF D(1), of k p F "listed s L"] D(5) a p by auto
    then show "same_chain (items m (slot_addr s m p k)) (items ?m (slot_addr s m p k))"
      by (simp add: same_chain_def)
  qed (simp_all add: rewritten_def)
  then have inv: "slab_inv s ?m L F U"
    using n by (simp add: slab_inv_def)
  obtain s' m' where u: "update_item a y (s, ?m) = Some (s', m')" "slab_inv s' m' L F (moved U x y a)" "same_slab s s'"
      "same_items ?m m'" "confined (listed s L) ?m m'" "used (moved U x y a) = used U"
    using update_item_spec [OF inv assms(2,3,4)] assms(5) by (auto simp: ITEM_AREA_def)
  have "confined (listed s L) m ?m"
    using slab_core_pages [OF core, of a] a by (auto simp: confined_def)
  then have "confined (listed s L) m m'"
    using u(5) by (rule confined_trans) (rule order_refl)+
  then show ?thesis
    using u assms(2,4) by (intro exI [of _ s'] exI [of _ m']) (auto simp: item_reused_def same_items_def unlinked_def)
qed

section \<open>Eviction\<close>

text \<open>Between operations an item is in the list of the area its key starts with.\<close>

definition areas_ok :: "mdb_mem \<Rightarrow> (nat \<Rightarrow> nat list) \<Rightarrow> bool" where
  "areas_ok m U \<longleftrightarrow> (\<forall>x<TAIR_MAX_AREA_COUNT. \<forall>a\<in>set (U x). ITEM_AREA (items m a) = x)"

lemma find_Some_mem: "find P xs = Some x \<Longrightarrow> x \<in> set xs \<and> P x"
  by (induction xs) (auto split: if_splits)

lemma find_expired_spec:
  assumes "path (item_pv m) (id_to_item m w) xs None"
  shows "find_expired n now w m = find (\<lambda>a. is_expired now (items m a)) (take n xs)"
  using assms
proof (induction n arbitrary: w xs)
  case (Suc n)
  show ?case
  proof (cases xs)
    case Nil
    then show ?thesis
      using Suc.prems by simp
  next
    case (Cons a ys)
    then have "id_to_item m w = Some a" "path (item_pv m) (id_to_item m (i_prev (items m a))) ys None"
      using Suc.prems item_pv_def [of m a] by simp_all
    then show ?thesis
      using Suc.IH Cons by simp
  qed
qed simp

lemma lru_tail:
  assumes "slab_inv s m L F U" and "x < TAIR_MAX_AREA_COUNT"
  shows "id_to_item m (item_tail s x) = (if U x = [] then None else Some (last (U x)))" "item_tail s x = 0 \<longleftrightarrow> U x = []"
    "path (item_pv m) (id_to_item m (item_tail s x)) (rev (U x)) None"
proof -
  have l: "lru_list s m x (U x)"
    using assms by (simp add: slab_inv_def slab_core_def lru_def)
  then show t: "id_to_item m (item_tail s x) = (if U x = [] then None else Some (last (U x)))"
    unfolding lru_list_def using dlist_tail by blast
  show "item_tail s x = 0 \<longleftrightarrow> U x = []"
    using t good_None [of s "item_tail s x" m] l by (auto simp: lru_list_def split: if_splits)
  show "path (item_pv m) (id_to_item m (item_tail s x)) (rev (U x)) None"
    using l by (simp add: lru_list_def dlist_def)
qed

definition evicted :: "32 word \<Rightarrow> mdb_mem \<Rightarrow> (nat \<Rightarrow> nat list) \<Rightarrow> nat \<Rightarrow> nat \<Rightarrow> nat \<Rightarrow> alloc_type \<Rightarrow> bool" where
  "evicted now m U x y a ty \<longleftrightarrow> (case ty of
       ALLOC_NEW \<Rightarrow> False
     | ALLOC_EXPIRED \<Rightarrow> is_expired now (items m a) \<and> (x \<noteq> y \<longrightarrow> U y = [])
     | ALLOC_EVICT_SELF \<Rightarrow> x = y \<and> a = last (U y) \<and> (\<forall>b\<in>set (take 50 (rev (U y))). \<not> is_expired now (items m b))
     | ALLOC_EVICT_ANY \<Rightarrow> U y = [] \<and> a = last (U x) \<and> \<not> is_expired now (items m a))"

lemma evict_self_spec:
  assumes "slab_inv s m L F U" and "areas_ok m U" and "y < TAIR_MAX_AREA_COUNT"
  shows "if U y = [] then evict_self now y (s, m) = Some (None, s, m)
    else \<exists>a ty s' m'. evict_self now y (s, m) = Some (Some (a, ty), s', m') \<and> item_reused s m L F U y y a s' m' \<and> evicted now m U y y a ty"
proof (cases "U y = []")
  case True
  then show ?thesis
    using lru_tail(1) [OF assms(1,3)] by (simp add: evict_self_def)
next
  case False
  let ?found = "find (\<lambda>a. is_expired now (items m a)) (take 50 (rev (U y)))"
  have area: "ITEM_AREA (items m b) = y" if "b \<in> set (U y)" for b
    using assms(2,3) that by (simp add: areas_ok_def)
  have f: "find_expired 50 now (item_tail s y) m = ?found"
    by (rule find_expired_spec [OF lru_tail(3) [OF assms(1,3)]])
  define a where "a = (case ?found of Some a \<Rightarrow> a | None \<Rightarrow> last (U y))"
  define ty where "ty = (case ?found of Some a \<Rightarrow> ALLOC_EXPIRED | None \<Rightarrow> ALLOC_EVICT_SELF)"
  have a: "a \<in> set (U y)"
  proof (cases ?found)
    case (Some b)
    then have "b \<in> set (take 50 (rev (U y)))"
      using find_Some_mem by fast
    then show ?thesis
      using Some by (simp add: a_def) (metis in_set_takeD set_rev)
  qed (use False in \<open>simp add: a_def\<close>)
  have ev: "evicted now m U y y a ty"
    by (auto simp: a_def ty_def evicted_def find_None_iff split: option.splits dest: find_Some_mem)
  obtain s' m' where u: "update_item a y (s, upd_item a (item_id_update CLEAR_FLAGS) m) = Some (s', m')" "item_reused s m L F U y y a s' m'"
    using reuse_item [OF assms(1,3,3) a area [OF a]] by blast
  have "ITEM_AREA (items (upd_item a (item_id_update CLEAR_FLAGS) m) a) = y"
    using area [OF a] by (simp add: ITEM_AREA_def)
  then have "evict_self now y (s, m) = Some (Some (a, ty), s', m')"
    using u(1) lru_tail(1) [OF assms(1,3)] False area [of "last (U y)"] f
    by (cases ?found) (simp_all add: evict_self_def a_def ty_def Let_def)
  then show ?thesis
    using u(2) ev False by auto
qed

lemma find_victim_found:
  assumes "idx < TAIR_MAX_AREA_COUNT" and "d \<le> n" and "item_tail s ((idx + d) mod TAIR_MAX_AREA_COUNT) \<noteq> 0"
  shows "\<exists>j<TAIR_MAX_AREA_COUNT. find_victim s idx n = Some j \<and> item_tail s j \<noteq> 0"
  using assms
proof (induction n arbitrary: idx d)
  case 0
  then show ?case
    by (simp add: find_victim.simps)
next
  case (Suc n)
  show ?case
  proof (cases "item_tail s idx = 0")
    case True
    let ?i = "if idx + 1 \<ge> TAIR_MAX_AREA_COUNT then 0 else idx + 1"
    obtain e where d: "d = Suc e"
      using True Suc.prems by (cases d) auto
    have "?i = Suc idx mod TAIR_MAX_AREA_COUNT"
      using Suc.prems(1) by (auto simp: TAIR_MAX_AREA_COUNT_def mod_Suc)
    then have "(?i + e) mod TAIR_MAX_AREA_COUNT = (idx + d) mod TAIR_MAX_AREA_COUNT"
      by (simp add: d mod_add_left_eq del: One_nat_def)
    moreover have "?i < TAIR_MAX_AREA_COUNT"
      by (auto simp: TAIR_MAX_AREA_COUNT_def)
    ultimately have "\<exists>j<TAIR_MAX_AREA_COUNT. find_victim s ?i n = Some j \<and> item_tail s j \<noteq> 0"
      using Suc.IH [of ?i e] Suc.prems(2,3) d by simp
    then show ?thesis
      using True by (simp add: find_victim.simps [of s idx])
  qed (use Suc.prems in \<open>simp add: find_victim.simps [of s idx]\<close>)
qed

lemma find_victim_round:
  assumes "idx < TAIR_MAX_AREA_COUNT" and "y < TAIR_MAX_AREA_COUNT" and "item_tail s y \<noteq> 0"
  shows "\<exists>j<TAIR_MAX_AREA_COUNT. find_victim s idx TAIR_MAX_AREA_COUNT = Some j \<and> item_tail s j \<noteq> 0"
proof -
  let ?d = "if idx \<le> y then y - idx else y + TAIR_MAX_AREA_COUNT - idx"
  have "(idx + ?d) mod TAIR_MAX_AREA_COUNT = y" "?d \<le> TAIR_MAX_AREA_COUNT"
    using assms(1,2) by auto
  then show ?thesis
    using find_victim_found [OF assms(1), of ?d] assms(3) by simp
qed

lemma evict_any_spec:
  assumes "slab_inv s m L F U" and "areas_ok m U" and "y < TAIR_MAX_AREA_COUNT" and "used U \<noteq> {}" and "U y = []"
  shows "\<exists>x a ty s' m'. evict_any now y (s, m) = Some ((a, ty), s', m') \<and> item_reused s m L F U x y a s' m' \<and> evicted now m U x y a ty"
proof -
  let ?idx = "if evict_index s \<ge> TAIR_MAX_AREA_COUNT then 0 else evict_index s"
  obtain z where z: "z < TAIR_MAX_AREA_COUNT" "item_tail s z \<noteq> 0"
    using assms(4) lru_tail(2) [OF assms(1)] by (auto simp: used_def)
  have "?idx < TAIR_MAX_AREA_COUNT"
    by (simp add: TAIR_MAX_AREA_COUNT_def)
  then obtain x where x: "x < TAIR_MAX_AREA_COUNT" "find_victim s ?idx TAIR_MAX_AREA_COUNT = Some x" "item_tail s x \<noteq> 0"
    using find_victim_round [OF _ z] by blast
  have ne: "U x \<noteq> []"
    using lru_tail(2) [OF assms(1) x(1)] x(3) by simp
  let ?a = "last (U x)" and ?s = "s\<lparr>evict_index := x\<rparr>"
  let ?ty = "if is_expired now (items m ?a) then ALLOC_EXPIRED else ALLOC_EVICT_ANY"
  have a: "?a \<in> set (U x)" "ITEM_AREA (items m ?a) = x"
    using ne assms(2) x(1) by (simp_all add: areas_ok_def)
  have "slab_core ?s m L F U {} {}"
    by (rule slab_core_cong [of s]) (use assms(1) in \<open>simp_all add: slab_inv_def\<close>)
  then have inv: "slab_inv ?s m L F U"
    using assms(1) classes_cong [of ?s s] by (simp add: slab_inv_def counts_def)
  obtain s' m' where u: "update_item ?a y (?s, upd_item ?a (item_id_update CLEAR_FLAGS) m) = Some (s', m')" "item_reused ?s m L F U x y ?a s' m'"
    using reuse_item [OF inv x(1) assms(3) a] by blast
  have "evict_any now y (s, m) = Some ((?a, ?ty), s', m')"
    unfolding evict_any_def using x(2) assms(3) lru_tail(1) [OF assms(1) x(1)] ne u(1) by (simp add: Let_def)
  moreover have "item_reused s m L F U x y ?a s' m'"
    using u(2) listed_cong [of ?s s] by (simp add: item_reused_def same_slab_def)
  moreover have "evicted now m U x y ?a ?ty"
    using assms(5) by (simp add: evicted_def)
  ultimately show ?thesis
    by blast
qed

section \<open>Allocation\<close>

lemma slab_inv_cong:
  assumes "slab_inv s m L F U" and "per_slab s' = per_slab s" "slab_size s' = slab_size s" "slab_id s' = slab_id s"
    "free_pages s' = free_pages s" "full_pages s' = full_pages s" "partial_pages s' = partial_pages s"
    "item_head s' = item_head s" "item_tail s' = item_tail s"
    "free_pages_no s' = free_pages_no s" "full_pages_no s' = full_pages_no s" "partial_pages_no s' = partial_pages_no s"
  shows "slab_inv s' m L F U"
  using slab_core_cong [of s m L F U "{}" "{}" s'] classes_cong [of s' s] assms by (simp add: slab_inv_def counts_def)

definition same_lists :: "slab_manager \<Rightarrow> slab_manager \<Rightarrow> bool" where
  "same_lists s s' \<longleftrightarrow> per_slab s' = per_slab s \<and> slab_size s' = slab_size s \<and> slab_id s' = slab_id s
     \<and> free_pages s' = free_pages s \<and> full_pages s' = full_pages s \<and> partial_pages s' = partial_pages s
     \<and> item_head s' = item_head s \<and> item_tail s' = item_tail s
     \<and> free_pages_no s' = free_pages_no s \<and> full_pages_no s' = full_pages_no s \<and> partial_pages_no s' = partial_pages_no s"

lemma same_lists_inv: "slab_inv s m L F U \<Longrightarrow> same_lists s s' \<Longrightarrow> slab_inv s' m L F U"
  unfolding same_lists_def by (rule slab_inv_cong) simp_all

lemma clean_pages_size: "slab_size s' = slab_size s \<Longrightarrow> clean_pages s' m F P = clean_pages s m F P"
  by (simp add: clean_pages_def slot_addr_def)

lemma item_added_counters: "item_added s m L F U y a s' m' L' F' \<Longrightarrow> same_lists s' s'' \<Longrightarrow> item_added s m L F U y a s'' m' L' F'"
  using same_lists_inv [of s' m' L' F' _ s''] clean_pages_size [of s'' s'] unfolding item_added_def
  by (simp add: same_lists_def same_slab_def)

lemma item_reused_counters: "item_reused s m L F U x y a s' m' \<Longrightarrow> same_lists s' s'' \<Longrightarrow> item_reused s m L F U x y a s'' m'"
  using same_lists_inv [of s' m' L F _ s''] unfolding item_reused_def by (simp add: same_lists_def same_slab_def)

definition no_room :: "slab_manager \<Rightarrow> mdb_mem \<Rightarrow> (nat \<Rightarrow> nat list) \<Rightarrow> (nat \<Rightarrow> nat list) \<Rightarrow> bool" where
  "no_room s m L F \<longleftrightarrow> mp_free_pages (pool m) = 0 \<and> (\<forall>p\<in>listed s L. F p = [])"

text \<open>
  The outcome of an allocation: a free slot, or an item taken from the end of a list, which happens to
  an area within its quota only when neither the slab nor the pool has room.
\<close>

definition allocated ::
  "32 word \<Rightarrow> bool \<Rightarrow> slab_manager \<Rightarrow> mdb_mem \<Rightarrow> (nat \<Rightarrow> nat list) \<Rightarrow> (nat \<Rightarrow> nat list) \<Rightarrow> (nat \<Rightarrow> nat list) \<Rightarrow> nat \<Rightarrow> nat \<Rightarrow> alloc_type \<Rightarrow>
    slab_manager \<Rightarrow> mdb_mem \<Rightarrow> (nat \<Rightarrow> nat list) \<Rightarrow> (nat \<Rightarrow> nat list) \<Rightarrow> (nat \<Rightarrow> nat list) \<Rightarrow> bool" where
  "allocated now exceed s m L F U y a ty s' m' L' F' U' \<longleftrightarrow>
     (ty = ALLOC_NEW \<and> item_added s m L F U y a s' m' L' F' \<and> U' = U(y := a # U y)) \<or>
     (\<exists>x. item_reused s m L F U x y a s' m' \<and> evicted now m U x y a ty \<and> L' = L \<and> F' = F \<and> U' = moved U x y a
        \<and> (exceed \<and> x = y \<or> no_room s m L F))"

lemma no_room_used:
  assumes "slab_inv s m L F U" and "no_room s m L F" and "listed s L \<noteq> {}"
  shows "used U \<noteq> {}"
proof -
  have core: "slab_core s m L F U {} {}"
    using assms(1) by (simp add: slab_inv_def)
  obtain p where p: "p \<in> listed s L" "F p = []"
    using assms(2,3) by (auto simp: no_room_def)
  have "0 < per_slab s"
    using slab_coreD(1) [OF core] by (simp add: shape_def)
  then have "slot_addr s m p 0 \<in> slots s m F (listed s L \<union> {})"
    using p slot_in_slots [OF slab_coreD(1) [OF core], of 0 p F] by simp
  then show ?thesis
    using slab_coreD(5) [OF core] by auto
qed

lemma alloc_any_spec:
  assumes "slab_inv s m L F U" and "areas_ok m U" and "y < TAIR_MAX_AREA_COUNT" and "listed s L \<noteq> {}" and "U y = []" and "no_room s m L F"
  shows "\<exists>a ty s' m' U'. alloc_any now y (s, m) = Some ((a, ty), s', m') \<and> allocated now exceed s m L F U y a ty s' m' L F U'"
proof -
  have "used U \<noteq> {}"
    by (rule no_room_used [OF assms(1,6,4)])
  then obtain x a ty s' m' where e: "evict_any now y (s, m) = Some ((a, ty), s', m')" "item_reused s m L F U x y a s' m'" "evicted now m U x y a ty"
    using evict_any_spec [OF assms(1-3) _ assms(5)] by blast
  then obtain s'' where a: "alloc_any now y (s, m) = Some ((a, ty), s'', m')" "same_lists s' s''"
    by (auto simp: alloc_any_def Let_def same_lists_def)
  have "item_reused s m L F U x y a s'' m'"
    using item_reused_counters [OF e(2) a(2)] .
  then have "allocated now exceed s m L F U y a ty s'' m' L F (moved U x y a)"
    using e(3) assms(6) by (auto simp: allocated_def)
  then show ?thesis
    using a(1) by blast
qed

lemma count_same_lists [simp]: "same_lists s (count_new y s)" "same_lists s (count_self y e ty s)"
  by (simp_all add: count_new_def count_self_def same_lists_def)

lemma alloc_item_spec:
  assumes "slab_inv s m L F U" and "areas_ok m U" and "y < TAIR_MAX_AREA_COUNT" and "listed s L \<noteq> {}"
  shows "\<exists>a ty s' m' L' F' U'. alloc_item now exceed y (s, m) = Some ((a, ty), s', m')
    \<and> allocated now exceed s m L F U y a ty s' m' L' F' U'"
proof -
  consider (room) a s' m' L' F' where "alloc_new_item y (s, m) = Some (Some a, s', m')" "item_added s m L F U y a s' m' L' F'"
    | (full) "alloc_new_item y (s, m) = Some (None, s, m)" "no_room s m L F"
    using alloc_new_item_spec [OF assms(1,3)] unfolding no_room_def by blast
  then have new: "(\<exists>a s' m' L' F'. alloc_new_item y (s, m) = Some (Some a, s', m') \<and> item_added s m L F U y a (count_new y s') m' L' F')
      \<or> alloc_new_item y (s, m) = Some (None, s, m) \<and> no_room s m L F"
    by cases (use item_added_counters [OF _ count_same_lists(1)] in blast)+
  have self: "U y = [] \<and> evict_self now y (s, m) = Some (None, s, m) \<or> (\<exists>a ty s' m'. evict_self now y (s, m) = Some (Some (a, ty), s', m')
      \<and> item_reused s m L F U y y a (count_self y exceed ty s') m' \<and> evicted now m U y y a ty)"
    using evict_self_spec [OF assms(1-3), of now] item_reused_counters [OF _ count_same_lists(2)] by (cases "U y = []") (simp, fastforce)
  note any = alloc_any_spec [OF assms(1-4), of now exceed]
  show ?thesis
  proof (cases exceed)
    case False
    show ?thesis
      using new
    proof (elim disjE exE conjE)
      fix a s' m' L' F' assume "alloc_new_item y (s, m) = Some (Some a, s', m')" "item_added s m L F U y a (count_new y s') m' L' F'"
      then show ?thesis
        using False assms(3) unfolding alloc_item_def allocated_def by force
    next
      assume n: "alloc_new_item y (s, m) = Some (None, s, m)" "no_room s m L F"
      show ?thesis
        using self
      proof (elim disjE exE conjE)
        assume "U y = []" "evict_self now y (s, m) = Some (None, s, m)"
        then have "alloc_item now exceed y (s, m) = alloc_any now y (s, m)"
          using n(1) False assms(3) by (simp add: alloc_item_def)
        then show ?thesis
          using any [OF \<open>U y = []\<close> n(2)] by (simp, blast)
      next
        fix a ty s' m' assume "evict_self now y (s, m) = Some (Some (a, ty), s', m')" "item_reused s m L F U y y a (count_self y exceed ty s') m'" "evicted now m U y y a ty"
        then show ?thesis
          using n False assms(3) unfolding alloc_item_def allocated_def by force
      qed
    qed
  next
    case True
    show ?thesis
      using self
    proof (elim disjE exE conjE)
      assume e: "U y = []" "evict_self now y (s, m) = Some (None, s, m)"
      show ?thesis
        using new
      proof (elim disjE exE conjE)
        fix a s' m' L' F' assume "alloc_new_item y (s, m) = Some (Some a, s', m')" "item_added s m L F U y a (count_new y s') m' L' F'"
        then show ?thesis
          using True e assms(3) unfolding alloc_item_def allocated_def by force
      next
        assume n: "alloc_new_item y (s, m) = Some (None, s, m)" "no_room s m L F"
        then have "alloc_item now exceed y (s, m) = alloc_any now y (s, m)"
          using True e assms(3) by (simp add: alloc_item_def)
        then show ?thesis
          using any [OF e(1) n(2)] by (simp, blast)
      qed
    next
      fix a ty s' m' assume "evict_self now y (s, m) = Some (Some (a, ty), s', m')" "item_reused s m L F U y y a (count_self y exceed ty s') m'" "evicted now m U y y a ty"
      then show ?thesis
        using True assms(3) unfolding alloc_item_def allocated_def by force
    qed
  qed
qed

end
