(* ===== verification/Mem_Cache.thy ===== *)
theory Mem_Cache
  imports Slab_Evict
begin

text \<open>
  The slabs of the memory storage engine together (\<open>storage/mdb/mem_cache.cpp\<close>): the choice of a slab
  for a size, and allocation, use and release of items in the slab an item belongs to. The slabs share
  the memory and the pool; the lemmas say that an operation on one slab keeps the others intact.
\<close>

section \<open>Model\<close>

fun get_slabmng :: "nat \<Rightarrow> slab_manager list \<Rightarrow> nat option" where
  "get_slabmng sz [] = None"
| "get_slabmng sz (s # ss) = (if slab_size s \<ge> sz then Some 0 else map_option Suc (get_slabmng sz ss))"

definition cache_alloc_item ::
  "32 word \<Rightarrow> bool \<Rightarrow> nat \<Rightarrow> nat \<Rightarrow> slab_manager list \<times> mdb_mem \<Rightarrow> ((nat \<times> alloc_type) option \<times> slab_manager list \<times> mdb_mem) option" where
  "cache_alloc_item now exceed sz area cm = (case cm of (ss, m) \<Rightarrow>
     (case get_slabmng sz ss of
        None \<Rightarrow> Some (None, ss, m)
      | Some i \<Rightarrow> do {
          ((item, type), s, m) \<leftarrow> alloc_item now exceed area (ss ! i, m);
          Some (Some (item, type), ss[i := s], m) }))"

definition cache_update_item :: "nat \<Rightarrow> slab_manager list \<times> mdb_mem \<Rightarrow> (slab_manager list \<times> mdb_mem) option" where
  "cache_update_item item cm = (case cm of (ss, m) \<Rightarrow>
     (let i = SLAB_ID (item_id (items m item))
      in if i < length ss then do {
           (s, m) \<leftarrow> update_item item (ITEM_AREA (items m item)) (ss ! i, m);
           Some (ss[i := s], m) }
         else None))"

definition cache_free_item :: "nat \<Rightarrow> slab_manager list \<times> mdb_mem \<Rightarrow> (slab_manager list \<times> mdb_mem) option" where
  "cache_free_item item cm = (case cm of (ss, m) \<Rightarrow>
     (let i = SLAB_ID (item_id (items m item))
      in if i < length ss then do {
           (s, m) \<leftarrow> free_item item (ss ! i, m);
           Some (ss[i := s], m) }
         else None))"

definition balance_slab_done :: "slab_manager list \<Rightarrow> slab_manager list" where
  "balance_slab_done ss = map (\<lambda>s. s\<lparr>evict_total_count := 0\<rparr>) ss"

definition get_item_head :: "nat \<Rightarrow> nat \<Rightarrow> slab_manager list \<Rightarrow> 64 word option" where
  "get_item_head i area ss = (if i < length ss \<and> area < TAIR_MAX_AREA_COUNT then Some (item_head (ss ! i) area) else None)"

section \<open>The slabs side by side\<close>

type_synonym ghost = "nat \<Rightarrow> nat \<Rightarrow> nat list"

abbreviation own_pages :: "slab_manager list \<Rightarrow> ghost \<Rightarrow> nat \<Rightarrow> nat set" where
  "own_pages ss Ls i \<equiv> listed (ss ! i) (Ls i)"

definition cache_inv :: "slab_manager list \<Rightarrow> mdb_mem \<Rightarrow> ghost \<Rightarrow> ghost \<Rightarrow> ghost \<Rightarrow> bool" where
  "cache_inv ss m Ls Fs Us \<longleftrightarrow>
     (\<forall>i<length ss. slab_inv (ss ! i) m (Ls i) (Fs i) (Us i) \<and> slab_id (ss ! i) = i \<and> own_pages ss Ls i \<noteq> {})
     \<and> (\<forall>i<length ss. \<forall>j<length ss. i \<noteq> j \<longrightarrow> own_pages ss Ls i \<inter> own_pages ss Ls j = {})"

definition all_used :: "slab_manager list \<Rightarrow> ghost \<Rightarrow> nat set" where
  "all_used ss Us = (\<Union>i<length ss. used (Us i))"

lemma cache_invD:
  assumes "cache_inv ss m Ls Fs Us" and "i < length ss"
  shows "slab_inv (ss ! i) m (Ls i) (Fs i) (Us i)" "slab_id (ss ! i) = i" "own_pages ss Ls i \<noteq> {}"
    "\<And>j. j < length ss \<Longrightarrow> i \<noteq> j \<Longrightarrow> own_pages ss Ls i \<inter> own_pages ss Ls j = {}"
  using assms by (auto simp: cache_inv_def)

lemma cache_pages_in_use: "cache_inv ss m Ls Fs Us \<Longrightarrow> i < length ss \<Longrightarrow> own_pages ss Ls i \<subseteq> pages_in_use (pool m)"
  using slab_core_in_use [of "ss ! i" m "Ls i" "Fs i" "Us i" "{}" "{}"] cache_invD(1) [of ss m Ls Fs Us i]
  by (simp add: slab_inv_def)

lemma slab_inv_outside:
  assumes "slab_inv s m L F U" and "confined P m m'" and "P \<inter> listed s L = {}"
    and "mem_pool_wf (pool m')" and "listed s L \<subseteq> pages_in_use (pool m')"
  shows "slab_inv s m' L F U"
  using assms slab_core_outside [of s m L F U "{}" "{}" P m'] by (simp add: slab_inv_def)

text \<open>A slab changes within its pages and pages that were in the pool.\<close>

lemma cache_inv_step:
  assumes "cache_inv ss m Ls Fs Us" and "i < length ss" and "slab_inv s' m' L' F' U'" and "same_slab (ss ! i) s'"
    and "confined (own_pages ss Ls i \<union> listed (ss ! i) L') m m'" and "listed (ss ! i) L' \<noteq> {}"
    and "(listed (ss ! i) L' - own_pages ss Ls i) \<inter> pages_in_use (pool m) = {}"
    and "pages_in_use (pool m) - own_pages ss Ls i \<subseteq> pages_in_use (pool m')"
  shows "cache_inv (ss[i := s']) m' (Ls(i := L')) (Fs(i := F')) (Us(i := U'))"
proof -
  note I = cache_invD [OF assms(1,2)]
  have wf: "mem_pool_wf (pool m')"
    using assms(3) by (simp add: slab_inv_def slab_core_def)
  have l: "listed s' = listed (ss ! i)"
    by (rule same_slab_listed [OF assms(4)])
  have apart: "(own_pages ss Ls i \<union> listed (ss ! i) L') \<inter> own_pages ss Ls j = {}" if "j < length ss" "i \<noteq> j" for j
    using I(4) [OF that] cache_pages_in_use [OF assms(1) that(1)] assms(7) by blast
  have other: "slab_inv (ss ! j) m' (Ls j) (Fs j) (Us j)" if "j < length ss" "i \<noteq> j" for j
  proof (rule slab_inv_outside [OF cache_invD(1) [OF assms(1) that(1)] assms(5) apart [OF that] wf])
    show "own_pages ss Ls j \<subseteq> pages_in_use (pool m')"
      using cache_pages_in_use [OF assms(1) that(1)] I(4) [OF that] assms(8) by blast
  qed
  have pages: "own_pages (ss[i := s']) (Ls(i := L')) j = (if j = i then listed (ss ! i) L' else own_pages ss Ls j)" if "j < length ss" for j
    using assms(2) l by simp
  have "slab_id s' = i"
    using I(2) assms(4) by (simp add: same_slab_def)
  then have "slab_inv (ss[i := s'] ! j) m' ((Ls(i := L')) j) ((Fs(i := F')) j) ((Us(i := U')) j) \<and> slab_id (ss[i := s'] ! j) = j
      \<and> own_pages (ss[i := s']) (Ls(i := L')) j \<noteq> {}" if "j < length ss" for j
    using other [OF that] cache_invD(2,3) [OF assms(1) that] assms(2,3,6) l by (cases "j = i") simp_all
  moreover have "own_pages (ss[i := s']) (Ls(i := L')) j \<inter> own_pages (ss[i := s']) (Ls(i := L')) k = {}"
    if "j < length ss" "k < length ss" "j \<noteq> k" for j k
    unfolding pages [OF that(1)] pages [OF that(2)]
    using apart [OF that(1)] apart [OF that(2)] cache_invD(4) [OF assms(1) that(1,2)] that(3) by auto
  ultimately show ?thesis
    by (simp add: cache_inv_def)
qed

lemma all_used_step: "i < length ss \<Longrightarrow> all_used (ss[i := s']) (Us(i := U')) = used U' \<union> (\<Union>j\<in>{..<length ss} - {i}. used (Us j))"
  by (auto simp: all_used_def split: if_splits)

text \<open>Items of different slabs lie on different pages.\<close>

lemma used_page:
  assumes "cache_inv ss m Ls Fs Us" and "i < length ss" and "a \<in> used (Us i)"
  shows "a div mp_page_size (pool m) \<in> own_pages ss Ls i"
  using slab_core_pages [of "ss ! i" m "Ls i" "Fs i" "Us i" "{}" "{}" a] cache_invD(1) [OF assms(1,2)] assms(3)
  by (simp add: slab_inv_def)

lemma used_disjoint:
  assumes "cache_inv ss m Ls Fs Us" and "i < length ss" and "j < length ss" and "i \<noteq> j"
  shows "used (Us i) \<inter> used (Us j) = {}"
  using used_page [OF assms(1,2)] used_page [OF assms(1,3)] cache_invD(4) [OF assms(1,2,3,4)] by blast

lemma used_slab_id:
  assumes "cache_inv ss m Ls Fs Us" and "i < length ss" and "a \<in> used (Us i)"
  shows "SLAB_ID (item_id (items m a)) = i" "id_to_item m (item_id (items m a)) = Some a"
proof -
  have core: "slab_core (ss ! i) m (Ls i) (Fs i) (Us i) {} {}"
    using cache_invD(1) [OF assms(1,2)] by (simp add: slab_inv_def)
  obtain p k where "named (ss ! i) m a"
    using slab_core_slot [OF core, of a] assms(3) by blast
  then show "SLAB_ID (item_id (items m a)) = i" "id_to_item m (item_id (items m a)) = Some a"
    using cache_invD(2) [OF assms(1,2)] by (auto simp: named_def good_def id_to_item_def ITEM_ADDR_def)
qed

definition free_slots :: "slab_manager list \<Rightarrow> mdb_mem \<Rightarrow> ghost \<Rightarrow> ghost \<Rightarrow> nat set" where
  "free_slots ss m Ls Fs = {slot_addr (ss ! i) m p k | i p k. i < length ss \<and> p \<in> own_pages ss Ls i \<and> k \<in> set (Fs i p)}"

definition cache_clean :: "slab_manager list \<Rightarrow> mdb_mem \<Rightarrow> ghost \<Rightarrow> ghost \<Rightarrow> bool" where
  "cache_clean ss m Ls Fs \<longleftrightarrow> (\<forall>b\<in>free_slots ss m Ls Fs. clean_item (items m b))"

lemma free_slots_cong: "mp_page_size (pool m') = mp_page_size (pool m) \<Longrightarrow> free_slots ss m' Ls Fs = free_slots ss m Ls Fs"
  by (simp add: free_slots_def slot_addr_def)

lemma free_slots_same:
  assumes "length ss' = length ss" and "\<forall>j<length ss. same_slab (ss ! j) (ss' ! j)" and "mp_page_size (pool m') = mp_page_size (pool m)"
  shows "free_slots ss' m' Ls Fs = free_slots ss m Ls Fs"
proof -
  have "slot_addr (ss' ! j) m' = slot_addr (ss ! j) m" "listed (ss' ! j) = listed (ss ! j)" if "j < length ss" for j
    using slot_addr_cong [OF assms(3), of "ss' ! j" "ss ! j"] same_slab_listed [of "ss ! j" "ss' ! j"] assms(2) that
    by (simp_all add: same_slab_def)
  then show ?thesis
    unfolding free_slots_def assms(1) by (intro Collect_cong ex_cong1) (auto simp: conj_commute)
qed

definition cache_areas :: "slab_manager list \<Rightarrow> mdb_mem \<Rightarrow> ghost \<Rightarrow> bool" where
  "cache_areas ss m Us \<longleftrightarrow> (\<forall>i<length ss. areas_ok m (Us i))"

lemma free_slot_unused:
  assumes "cache_inv ss m Ls Fs Us" and "i < length ss" and "p \<in> own_pages ss Ls i" and "k \<in> set (Fs i p)"
  shows "slot_addr (ss ! i) m p k \<notin> all_used ss Us" "k < per_slab (ss ! i)"
proof -
  have core: "slab_core (ss ! i) m (Ls i) (Fs i) (Us i) {} {}"
    using cache_invD(1) [OF assms(1,2)] by (simp add: slab_inv_def)
  note D = slab_coreD [OF core]
  show k: "k < per_slab (ss ! i)"
    using D(8) assms(3,4) by (auto simp: page_ok_def page_free_def)
  have page: "slot_addr (ss ! i) m p k div mp_page_size (pool m) = p"
    by (rule slot_page [OF D(1) k])
  have "slot_addr (ss ! i) m p k \<notin> used (Us i)"
    using slot_in_slots [OF D(1) k, of p "Fs i" "own_pages ss Ls i"] D(5) assms(4) by auto
  moreover have "slot_addr (ss ! i) m p k \<notin> used (Us j)" if "j < length ss" "i \<noteq> j" for j
    using used_page [OF assms(1) that(1), of "slot_addr (ss ! i) m p k"] page cache_invD(4) [OF assms(1,2) that] assms(3) by auto
  ultimately show "slot_addr (ss ! i) m p k \<notin> all_used ss Us"
    by (auto simp: all_used_def)
qed

lemma free_slots_unused: "cache_inv ss m Ls Fs Us \<Longrightarrow> b \<in> free_slots ss m Ls Fs \<Longrightarrow> b \<notin> all_used ss Us"
  using free_slot_unused(1) by (auto simp: free_slots_def)

lemma cache_inv_rewritten:
  assumes "cache_inv ss m Ls Fs Us" and "\<And>b. rewritten (items m b) (items m' b)" and "pool m' = pool m" "pages m' = pages m"
    and "\<And>b. b \<notin> all_used ss Us \<Longrightarrow> same_chain (items m b) (items m' b)"
  shows "cache_inv ss m' Ls Fs Us"
proof -
  have "slab_inv (ss ! i) m' (Ls i) (Fs i) (Us i)" if "i < length ss" for i
  proof -
    have "slab_core (ss ! i) m (Ls i) (Fs i) (Us i) {} {}" "counts (ss ! i) (Ls i) 0"
      using cache_invD(1) [OF assms(1) that] by (simp_all add: slab_inv_def)
    moreover from this(1) have "slab_core (ss ! i) m' (Ls i) (Fs i) (Us i) {} {}"
      by (rule slab_core_rewritten [OF _ assms(2-4)]) (use free_slot_unused(1) [OF assms(1) that] assms(5) in auto)
    ultimately show ?thesis
      by (simp add: slab_inv_def)
  qed
  then show ?thesis
    using assms(1) by (simp add: cache_inv_def)
qed

lemma cache_clean_cong:
  assumes "cache_inv ss m Ls Fs Us" and "cache_clean ss m Ls Fs" and "mp_page_size (pool m') = mp_page_size (pool m)"
    and "\<And>b. b \<notin> all_used ss Us \<Longrightarrow> exptime (items m' b) = exptime (items m b) \<and> item_id (items m' b) = item_id (items m b)"
  shows "cache_clean ss m' Ls Fs"
  using assms(2,4) free_slots_unused [OF assms(1)] free_slots_cong [OF assms(3)] by (simp add: cache_clean_def clean_item_def)

section \<open>The operations\<close>

text \<open>An item in use, with its slab and its area.\<close>

definition at_place :: "slab_manager list \<Rightarrow> ghost \<Rightarrow> nat \<Rightarrow> nat \<Rightarrow> nat \<Rightarrow> bool" where
  "at_place ss Us i x a \<longleftrightarrow> i < length ss \<and> x < TAIR_MAX_AREA_COUNT \<and> a \<in> set (Us i x)"

lemma at_placeE:
  assumes "a \<in> all_used ss Us"
  obtains i x where "at_place ss Us i x a"
  using assms by (auto simp: all_used_def used_def at_place_def)

lemma at_place_used: "at_place ss Us i x a \<Longrightarrow> a \<in> used (Us i) \<and> a \<in> all_used ss Us"
  by (auto simp: all_used_def used_def at_place_def)

lemma at_place_area: "cache_areas ss m Us \<Longrightarrow> at_place ss Us i x a \<Longrightarrow> ITEM_AREA (items m a) = x"
  unfolding cache_areas_def areas_ok_def at_place_def by blast

lemma used_moved: "used V = used (Us i) \<Longrightarrow> i < length ss \<Longrightarrow> all_used (ss[i := s']) (Us(i := V)) = all_used ss Us"
  unfolding all_used_step by (auto simp: all_used_def)

lemma cache_update_item_spec:
  assumes "cache_inv ss m Ls Fs Us" and "cache_areas ss m Us" and "at_place ss Us i x a"
  shows "\<exists>ss' m'. cache_update_item a (ss, m) = Some (ss', m') \<and> length ss' = length ss \<and> same_items m m'
    \<and> cache_inv ss' m' Ls Fs (Us(i := moved (Us i) x x a)) \<and> all_used ss' (Us(i := moved (Us i) x x a)) = all_used ss Us
    \<and> (\<forall>j<length ss. same_slab (ss ! j) (ss' ! j))"
proof -
  have i: "i < length ss" "x < TAIR_MAX_AREA_COUNT" "a \<in> set (Us i x)"
    using assms(3) by (simp_all add: at_place_def)
  have ar: "ITEM_AREA (items m a) = x"
    by (rule at_place_area [OF assms(2,3)])
  note I = cache_invD [OF assms(1) i(1)]
  obtain s' m' where u: "update_item a x (ss ! i, m) = Some (s', m')" "slab_inv s' m' (Ls i) (Fs i) (moved (Us i) x x a)"
      "same_slab (ss ! i) s'" "same_items m m'" "confined (own_pages ss Ls i) m m'" "used (moved (Us i) x x a) = used (Us i)"
    using update_item_spec [OF I(1) i(2,2,3) ar] by blast
  have "SLAB_ID (item_id (items m a)) = i"
    using used_slab_id(1) [OF assms(1) i(1)] at_place_used [OF assms(3)] by blast
  then have "cache_update_item a (ss, m) = Some (ss[i := s'], m')"
    using u(1) i(1) ar by (simp add: cache_update_item_def)
  moreover have "cache_inv (ss[i := s']) m' (Ls(i := Ls i)) (Fs(i := Fs i)) (Us(i := moved (Us i) x x a))"
    by (rule cache_inv_step [OF assms(1) i(1) u(2,3)]) (use u(4,5) I(3) in \<open>auto simp: same_items_def\<close>)
  moreover have "all_used (ss[i := s']) (Us(i := moved (Us i) x x a)) = all_used ss Us"
    using used_moved [of "moved (Us i) x x a" Us i ss] u(6) i(1) by simp
  ultimately show ?thesis
    using u(3,4) i(1) by (intro exI [of _ "ss[i := s']"] exI [of _ m']) (auto simp: nth_list_update)
qed

lemma cache_free_item_spec:
  assumes "cache_inv ss m Ls Fs Us" and "at_place ss Us i x a" and "ITEM_AREA (items m a) = x" and "U' = (Us i)(x := remove1 a (Us i x))"
  shows "\<exists>ss' m' Ls' Fs'. cache_free_item a (ss, m) = Some (ss', m') \<and> length ss' = length ss
    \<and> cache_inv ss' m' Ls' Fs' (Us(i := U')) \<and> all_used ss' (Us(i := U')) = all_used ss Us - {a}
    \<and> (\<forall>b. b \<noteq> a \<longrightarrow> unlinked (items m' b) = unlinked (items m b)) \<and> item_id (items m' a) = item_id (items m a)
    \<and> mp_page_size (pool m') = mp_page_size (pool m) \<and> (\<forall>j<length ss. same_slab (ss ! j) (ss' ! j))
    \<and> free_slots ss' m' Ls' Fs' \<subseteq> insert a (free_slots ss m Ls Fs)"
proof -
  have i: "i < length ss" "x < TAIR_MAX_AREA_COUNT" "a \<in> set (Us i x)"
    using assms(2) by (simp_all add: at_place_def)
  note I = cache_invD [OF assms(1) i(1)]
  obtain s' m' L' F' where f: "free_item a (ss ! i, m) = Some (s', m')"
      "item_removed (ss ! i) m (Ls i) (Fs i) (Us i) x a s' m' L' F'"
    using free_item_spec [OF I(1) i(2,3) assms(3)] by blast
  have r: "slab_inv s' m' L' F' U'" "same_slab (ss ! i) s'" "used U' = used (Us i) - {a}" "confined (own_pages ss Ls i) m m'"
      "listed (ss ! i) L' \<subseteq> own_pages ss Ls i" "listed (ss ! i) L' \<noteq> {}"
      "pages_in_use (pool m') = pages_in_use (pool m) - (own_pages ss Ls i - listed (ss ! i) L')"
      "\<forall>b. b \<noteq> a \<longrightarrow> unlinked (items m' b) = unlinked (items m b)" "item_id (items m' a) = item_id (items m a)"
    using f(2) by (simp_all add: item_removed_def assms(4))
  obtain p k where pk: "p \<in> own_pages ss Ls i" "k < per_slab (ss ! i)" "a = slot_addr (ss ! i) m p k" "F' = (Fs i)(p := k # Fs i p)"
    using f(2) by (auto simp: item_removed_def)
  have a: "a \<in> used (Us i)"
    using at_place_used [OF assms(2)] by blast
  have "SLAB_ID (item_id (items m a)) = i"
    using used_slab_id(1) [OF assms(1) i(1) a] .
  then have res: "cache_free_item a (ss, m) = Some (ss[i := s'], m')"
    using f(1) i(1) by (simp add: cache_free_item_def)
  have inv: "cache_inv (ss[i := s']) m' (Ls(i := L')) (Fs(i := F')) (Us(i := U'))"
    by (rule cache_inv_step [OF assms(1) i(1) r(1,2) _ r(6)]) (use r(4,5,7) in \<open>auto simp: sup_absorb1\<close>)
  have "a \<notin> used (Us j)" if "j < length ss" "j \<noteq> i" for j
    using used_disjoint [OF assms(1) i(1) that(1)] that(2) a by auto
  then have used: "all_used (ss[i := s']) (Us(i := U')) = all_used ss Us - {a}"
    unfolding all_used_step [OF i(1)] r(3) using i(1) by (auto simp: all_used_def)
  have sz: "mp_page_size (pool m') = mp_page_size (pool m)"
    using r(4) by (simp add: confined_def)
  have "free_slots (ss[i := s']) m' (Ls(i := L')) (Fs(i := F')) \<subseteq> insert a (free_slots ss m Ls Fs)"
  proof
    fix b assume "b \<in> free_slots (ss[i := s']) m' (Ls(i := L')) (Fs(i := F'))"
    then obtain j q l where j: "j < length ss" "q \<in> own_pages (ss[i := s']) (Ls(i := L')) j" "l \<in> set ((Fs(i := F')) j q)"
        "b = slot_addr (ss[i := s'] ! j) m' q l"
      by (auto simp: free_slots_def)
    have l: "listed s' = listed (ss ! i)" and addr: "b = slot_addr (ss ! j) m q l"
      using same_slab_listed [OF r(2)] r(2) sz i(1) j(4) by (auto simp: same_slab_def slot_addr_def nth_list_update)
    then have "q \<in> own_pages ss Ls j" "b = a \<or> l \<in> set (Fs j q)"
      using j i(1) r(5) pk(3,4) by (auto simp: nth_list_update split: if_splits)
    then show "b \<in> insert a (free_slots ss m Ls Fs)"
      using addr j(1) unfolding free_slots_def by blast
  qed
  then show ?thesis
    using res inv used r(2,8,9) sz i(1) by (intro exI [of _ "ss[i := s']"] exI [of _ m'] exI [of _ "Ls(i := L')"] exI [of _ "Fs(i := F')"])
      (auto simp: nth_list_update)
qed

text \<open>The outcome of an allocation in slab \<open>i\<close>, seen from all slabs.\<close>

definition fresh_alloc ::
  "slab_manager list \<Rightarrow> mdb_mem \<Rightarrow> ghost \<Rightarrow> ghost \<Rightarrow> ghost \<Rightarrow> nat \<Rightarrow> nat \<Rightarrow> nat \<Rightarrow>
    slab_manager list \<Rightarrow> mdb_mem \<Rightarrow> ghost \<Rightarrow> ghost \<Rightarrow> ghost \<Rightarrow> bool" where
  "fresh_alloc ss m Ls Fs Us i y a ss' m' Ls' Fs' Us' \<longleftrightarrow>
     Us' = Us(i := (Us i)(y := a # Us i y)) \<and> a \<notin> all_used ss Us \<and> all_used ss' Us' = insert a (all_used ss Us)
     \<and> (\<forall>b\<in>all_used ss Us. unlinked (items m' b) = unlinked (items m b))
     \<and> (cache_clean ss m Ls Fs \<longrightarrow> cache_clean ss' m' Ls' Fs' \<and> clean_item (items m' a))"

definition reuse_alloc ::
  "32 word \<Rightarrow> bool \<Rightarrow> slab_manager list \<Rightarrow> mdb_mem \<Rightarrow> ghost \<Rightarrow> ghost \<Rightarrow> ghost \<Rightarrow> nat \<Rightarrow> nat \<Rightarrow> nat \<Rightarrow> nat \<Rightarrow> alloc_type \<Rightarrow>
    slab_manager list \<Rightarrow> mdb_mem \<Rightarrow> ghost \<Rightarrow> ghost \<Rightarrow> ghost \<Rightarrow> bool" where
  "reuse_alloc now exceed ss m Ls Fs Us i x y a ty ss' m' Ls' Fs' Us' \<longleftrightarrow>
     Us' = Us(i := moved (Us i) x y a) \<and> Ls' = Ls \<and> Fs' = Fs \<and> at_place ss Us i x a \<and> evicted now m (Us i) x y a ty
     \<and> all_used ss' Us' = all_used ss Us \<and> (\<forall>b. b \<noteq> a \<longrightarrow> unlinked (items m' b) = unlinked (items m b))
     \<and> unlinked (items m' a) = unlinked (items m a)\<lparr>item_id := CLEAR_FLAGS (item_id (items m a))\<rparr>
     \<and> (exceed \<and> x = y \<or> no_room (ss ! i) m (Ls i) (Fs i))"

lemma cache_clean_step:
  assumes "cache_inv ss m Ls Fs Us" and "i < length ss" and "cache_clean ss m Ls Fs" and "clean_pages s' m' F' (listed (ss ! i) L')"
    and "same_slab (ss ! i) s'" and "confined P m m'" and "\<And>j. j < length ss \<Longrightarrow> j \<noteq> i \<Longrightarrow> P \<inter> own_pages ss Ls j = {}"
  shows "cache_clean (ss[i := s']) m' (Ls(i := L')) (Fs(i := F'))"
  unfolding cache_clean_def
proof
  fix b assume "b \<in> free_slots (ss[i := s']) m' (Ls(i := L')) (Fs(i := F'))"
  then obtain j p k where j: "j < length ss" "p \<in> own_pages (ss[i := s']) (Ls(i := L')) j" "k \<in> set ((Fs(i := F')) j p)"
      "b = slot_addr (ss[i := s'] ! j) m' p k"
    by (auto simp: free_slots_def)
  show "clean_item (items m' b)"
  proof (cases "j = i")
    case True
    then show ?thesis
      using assms(4) j assms(2) same_slab_listed [OF assms(5)] by (simp add: clean_pages_def)
  next
    case False
    then have b: "p \<in> own_pages ss Ls j" "k \<in> set (Fs j p)" "b = slot_addr (ss ! j) m p k"
      using j assms(6) by (simp_all add: slot_addr_def confined_def)
    have "shape (ss ! j) m"
      using cache_invD(1) [OF assms(1) j(1)] by (simp add: slab_inv_def slab_core_def)
    then have "b div mp_page_size (pool m) = p"
      using slot_page free_slot_unused(2) [OF assms(1) j(1) b(1,2)] b(3) by simp
    then have "items m' b = items m b"
      using assms(7) [OF j(1) False] assms(6) b(1) by (auto simp: confined_def)
    moreover have "b \<in> free_slots ss m Ls Fs"
      using b j(1) unfolding free_slots_def by blast
    ultimately show ?thesis
      using assms(3) by (simp add: cache_clean_def)
  qed
qed

lemma fresh_step:
  assumes "cache_inv ss m Ls Fs Us" and "i < length ss" and "y < TAIR_MAX_AREA_COUNT"
    and "item_added (ss ! i) m (Ls i) (Fs i) (Us i) y a s' m' L' F'" and "Us' = Us(i := (Us i)(y := a # Us i y))"
  shows "cache_inv (ss[i := s']) m' (Ls(i := L')) (Fs(i := F')) Us' \<and> mp_page_size (pool m') = mp_page_size (pool m)
    \<and> same_slab (ss ! i) s' \<and> fresh_alloc ss m Ls Fs Us i y a (ss[i := s']) m' (Ls(i := L')) (Fs(i := F')) Us'"
proof -
  note I = cache_invD [OF assms(1,2)]
  let ?P = "listed (ss ! i) L'" and ?O = "own_pages ss Ls i"
  have r: "slab_inv s' m' L' F' ((Us i)(y := a # Us i y))" "a \<notin> used (Us i)" "same_slab (ss ! i) s'" "confined ?P m m'" "?O \<subseteq> ?P"
      "pages_in_use (pool m') = pages_in_use (pool m) \<union> ?P" "(?P - ?O) \<inter> pages_in_use (pool m) = {}"
      "\<forall>b. b div mp_page_size (pool m) \<in> ?O \<longrightarrow> unlinked (items m' b) = unlinked (items m b)"
      "clean_pages (ss ! i) m (Fs i) ?O \<longrightarrow> clean_pages s' m' F' ?P \<and> clean_item (items m' a)"
    using assms(4) by (simp_all add: item_added_def)
  have inv: "cache_inv (ss[i := s']) m' (Ls(i := L')) (Fs(i := F')) Us'"
    unfolding assms(5) by (rule cache_inv_step [OF assms(1,2) r(1,3)]) (use r(4-7) I(3) in \<open>auto simp: sup_absorb2\<close>)
  have sz: "mp_page_size (pool m') = mp_page_size (pool m)"
    using r(4) by (simp add: confined_def)
  have l: "listed s' = listed (ss ! i)"
    by (rule same_slab_listed [OF r(3)])
  have apart: "?P \<inter> own_pages ss Ls j = {}" if "j < length ss" "j \<noteq> i" for j
    using I(4) [OF that(1)] that cache_pages_in_use [OF assms(1) that(1)] r(7) by blast
  have other: "items m' b = items m b" if "j < length ss" "j \<noteq> i" "b div mp_page_size (pool m) \<in> own_pages ss Ls j" for j b
    using apart [OF that(1,2)] that(3) r(4) by (auto simp: confined_def)
  have kept: "unlinked (items m' b) = unlinked (items m b)" if b: "b \<in> all_used ss Us" for b
  proof -
    obtain j where j: "j < length ss" "b \<in> used (Us j)"
      using b by (auto simp: all_used_def)
    then show ?thesis
      using used_page [OF assms(1) j] other [of j b] r(8) by (cases "j = i") auto
  qed
  have a: "a div mp_page_size (pool m) \<in> ?P"
  proof -
    have "a \<in> used ((Us i)(y := a # Us i y))"
      using assms(3) by (auto simp: used_def)
    then show ?thesis
      using used_page [OF inv, of i a] assms(2,5) l sz by simp
  qed
  have new: "a \<notin> all_used ss Us"
  proof
    assume "a \<in> all_used ss Us"
    then obtain j where j: "j < length ss" "a \<in> used (Us j)"
      by (auto simp: all_used_def)
    then show False
      using r(2) used_page [OF assms(1) j] apart [OF j(1)] a by (cases "j = i") auto
  qed
  have used: "all_used (ss[i := s']) Us' = insert a (all_used ss Us)"
    unfolding assms(5) all_used_step [OF assms(2)] used_link [OF assms(3)] using assms(2) by (auto simp: all_used_def)
  have "cache_clean (ss[i := s']) m' (Ls(i := L')) (Fs(i := F')) \<and> clean_item (items m' a)" if c: "cache_clean ss m Ls Fs"
  proof
    have "clean_pages (ss ! i) m (Fs i) ?O"
      using c assms(2) by (auto simp: cache_clean_def clean_pages_def free_slots_def)
    then show "clean_item (items m' a)"
      using r(9) by blast
    show "cache_clean (ss[i := s']) m' (Ls(i := L')) (Fs(i := F'))"
      by (rule cache_clean_step [OF assms(1,2) c _ r(3,4) apart]) (use \<open>clean_pages (ss ! i) m (Fs i) ?O\<close> r(9) in blast)
  qed
  then show ?thesis
    using inv sz r(3) new used kept assms(5) by (simp add: fresh_alloc_def)
qed

lemma reuse_step:
  assumes "cache_inv ss m Ls Fs Us" and "i < length ss" and "item_reused (ss ! i) m (Ls i) (Fs i) (Us i) x y a s' m'"
    and "evicted now m (Us i) x y a ty" and "exceed \<and> x = y \<or> no_room (ss ! i) m (Ls i) (Fs i)" and "Us' = Us(i := moved (Us i) x y a)"
  shows "cache_inv (ss[i := s']) m' Ls Fs Us' \<and> mp_page_size (pool m') = mp_page_size (pool m)
    \<and> same_slab (ss ! i) s' \<and> reuse_alloc now exceed ss m Ls Fs Us i x y a ty (ss[i := s']) m' Ls Fs Us'"
proof -
  note I = cache_invD [OF assms(1,2)]
  have r: "slab_inv s' m' (Ls i) (Fs i) (moved (Us i) x y a)" "used (moved (Us i) x y a) = used (Us i)" "a \<in> set (Us i x)"
      "x < TAIR_MAX_AREA_COUNT" "same_slab (ss ! i) s'" "confined (own_pages ss Ls i) m m'" "pool m' = pool m"
      "\<forall>b. b \<noteq> a \<longrightarrow> unlinked (items m' b) = unlinked (items m b)"
      "unlinked (items m' a) = unlinked (items m a)\<lparr>item_id := CLEAR_FLAGS (item_id (items m a))\<rparr>"
    using assms(3) by (simp_all add: item_reused_def)
  have "cache_inv (ss[i := s']) m' (Ls(i := Ls i)) (Fs(i := Fs i)) Us'"
    unfolding assms(6) by (rule cache_inv_step [OF assms(1,2) r(1,5)]) (use r(6,7) I(3) in auto)
  moreover have "all_used (ss[i := s']) Us' = all_used ss Us"
    using used_moved [of "moved (Us i) x y a" Us i ss] r(2) assms(2,6) by simp
  ultimately show ?thesis
    using r assms(2,4-6) by (simp add: reuse_alloc_def at_place_def)
qed

text \<open>All items but the one handed out stay where they are.\<close>

lemma alloc_places:
  assumes "Us' = Us(i := (Us i)(y := a # Us i y)) \<or> Us' = Us(i := moved (Us i) x y a)" and "length ss' = length ss"
    and "at_place ss' Us' j z b" and "b \<noteq> a"
  shows "at_place ss Us j z b"
  using assms by (auto simp: at_place_def moved_def Let_def split: if_splits dest: notin_set_remove1 in_set_remove1 set_remove1_subset [THEN subsetD])

lemma get_slabmng_Some: "get_slabmng sz ss = Some i \<Longrightarrow> i < length ss \<and> sz \<le> slab_size (ss ! i)"
  by (induction ss arbitrary: i) (auto split: if_splits)

lemma cache_alloc_item_spec:
  assumes "cache_inv ss m Ls Fs Us" and "cache_areas ss m Us" and "get_slabmng sz ss = Some i" and "y < TAIR_MAX_AREA_COUNT"
  shows "\<exists>a ty ss' m' Ls' Fs' Us'. cache_alloc_item now exceed sz y (ss, m) = Some (Some (a, ty), ss', m') \<and> length ss' = length ss
    \<and> (\<forall>j<length ss. same_slab (ss ! j) (ss' ! j)) \<and> cache_inv ss' m' Ls' Fs' Us' \<and> mp_page_size (pool m') = mp_page_size (pool m)
    \<and> at_place ss' Us' i y a \<and> (\<forall>j z b. at_place ss' Us' j z b \<longrightarrow> b \<noteq> a \<longrightarrow> at_place ss Us j z b)
    \<and> (ty = ALLOC_NEW \<and> fresh_alloc ss m Ls Fs Us i y a ss' m' Ls' Fs' Us'
       \<or> (\<exists>x. reuse_alloc now exceed ss m Ls Fs Us i x y a ty ss' m' Ls' Fs' Us'))"
proof -
  have i: "i < length ss"
    using get_slabmng_Some [OF assms(3)] by blast
  note I = cache_invD [OF assms(1) i]
  have areas: "areas_ok m (Us i)"
    using assms(2) i by (simp add: cache_areas_def)
  obtain a ty s' m' L' F' U' where al: "alloc_item now exceed y (ss ! i, m) = Some ((a, ty), s', m')"
      "allocated now exceed (ss ! i) m (Ls i) (Fs i) (Us i) y a ty s' m' L' F' U'"
    using alloc_item_spec [OF I(1) areas assms(4) I(3), of now exceed] by blast
  have res: "cache_alloc_item now exceed sz y (ss, m) = Some (Some (a, ty), ss[i := s'], m')"
    using al(1) assms(3) by (simp add: cache_alloc_item_def)
  have place: "at_place (ss[i := s']) Us' i y a" if "Us' = Us(i := (Us i)(y := a # Us i y)) \<or> Us' = Us(i := moved (Us i) x y a)" for Us' x
    using that i assms(4) by (auto simp: at_place_def moved_def Let_def)
  have same: "\<forall>j<length ss. same_slab (ss ! j) (ss[i := s'] ! j)" if "same_slab (ss ! i) s'"
    using that i by (auto simp: nth_list_update)
  consider (new) "ty = ALLOC_NEW" "item_added (ss ! i) m (Ls i) (Fs i) (Us i) y a s' m' L' F'"
    | (old) x where "item_reused (ss ! i) m (Ls i) (Fs i) (Us i) x y a s' m'" "evicted now m (Us i) x y a ty"
        "exceed \<and> x = y \<or> no_room (ss ! i) m (Ls i) (Fs i)"
    using al(2) by (auto simp: allocated_def)
  then show ?thesis
  proof cases
    case new
    let ?U = "Us(i := (Us i)(y := a # Us i y))"
    note f = fresh_step [OF assms(1) i assms(4) new(2) refl]
    have "\<forall>j z b. at_place (ss[i := s']) ?U j z b \<longrightarrow> b \<noteq> a \<longrightarrow> at_place ss Us j z b"
      by (intro allI impI) (rule alloc_places [OF disjI1 [OF refl] length_list_update])
    then show ?thesis
      using res f place [OF disjI1 [OF refl]] same [OF f [THEN conjunct2, THEN conjunct2, THEN conjunct1]] new(1) length_list_update [of ss i s']
      by (intro exI [of _ a] exI [of _ ty] exI [of _ "ss[i := s']"] exI [of _ m'] exI [of _ "Ls(i := L')"] exI [of _ "Fs(i := F')"] exI [of _ ?U]) blast
  next
    case (old x)
    let ?U = "Us(i := moved (Us i) x y a)"
    have f: "cache_inv (ss[i := s']) m' Ls Fs ?U" "mp_page_size (pool m') = mp_page_size (pool m)"
        "same_slab (ss ! i) s'" "reuse_alloc now exceed ss m Ls Fs Us i x y a ty (ss[i := s']) m' Ls Fs ?U"
      using reuse_step [OF assms(1) i old refl] by simp_all
    have p: "at_place (ss[i := s']) ?U i y a"
      by (rule place [OF disjI2 [OF refl]])
    have "\<forall>j z b. at_place (ss[i := s']) ?U j z b \<longrightarrow> b \<noteq> a \<longrightarrow> at_place ss Us j z b"
      by (intro allI impI) (rule alloc_places [OF disjI2 [OF refl] length_list_update])
    then show ?thesis
      using res f p same [OF f(3)] length_list_update [of ss i s']
      by (intro exI [of _ a] exI [of _ ty] exI [of _ "ss[i := s']"] exI [of _ m'] exI [of _ Ls] exI [of _ Fs] exI [of _ ?U]) blast
  qed
qed

end
