(* ===== verification/Cache_Hashmap.thy ===== *)
theory Cache_Hashmap
  imports Mdb_Item Linked Data_Entry
begin

unbundle bit_operations_syntax

text \<open>
  The hash table of the memory storage engine (\<open>storage/mdb/cache_hashmap.hpp\<close>, \<open>.cpp\<close>): buckets of
  items chained through \<open>h_next\<close>, the hash function, and the operations \<open>find\<close>, \<open>insert\<close> and \<open>remove\<close>.
  The lemmas relate the chains to lists of items: on a table whose chains are well-formed the search
  ends and finds the item with the key, \<open>insert\<close> adds an item and \<open>remove\<close> takes out the item with the
  key of its argument, and they keep the table well-formed.
\<close>

section \<open>Model\<close>

text \<open>The fields of \<open>hash_manager\<close> and the table itself, which lies in pages of the pool.\<close>

record cache_hash_map =
  bucket_size :: nat
  hash_item_count :: int
  start_page :: nat
  hashtable :: "nat \<Rightarrow> 64 word"

text \<open>The pages of the table are the first ones taken from the pool; an assertion fails when there are too few.\<close>

primrec alloc_pages :: "nat \<Rightarrow> mem_pool \<Rightarrow> mem_pool option" where
  "alloc_pages 0 p = Some p"
| "alloc_pages (Suc n) p = do {
     (page, p) \<leftarrow> alloc_page p;
     _ \<leftarrow> page;
     alloc_pages n p }"

definition new_hash_map :: "nat \<Rightarrow> mem_pool \<Rightarrow> (cache_hash_map \<times> mem_pool) option" where
  "new_hash_map bucket_shift p =
     (let size = 2 ^ bucket_shift;
          hash_table_pages = (size * 8 + mp_page_size p - 1) div mp_page_size p
      in do {
        (first, p) \<leftarrow> alloc_page p;
        start \<leftarrow> first;
        p \<leftarrow> alloc_pages (hash_table_pages - 1) p;
        Some (\<lparr>bucket_size = size, hash_item_count = 0, start_page = start, hashtable = \<lambda>_. 0\<rparr>, p) })"

text \<open>The last bytes are read as unsigned numbers, other than in \<open>mur_mur_hash2\<close>.\<close>

definition hash_tail :: "bytes \<Rightarrow> 32 word \<Rightarrow> 32 word" where
  "hash_tail rest h =
     (let h = (if length rest = 3 then h XOR push_bit 16 (ucast (rest ! 2)) else h);
          h = (if length rest \<ge> 2 then h XOR push_bit 8 (ucast (rest ! 1)) else h)
      in if length rest \<ge> 1 then (h XOR ucast (rest ! 0)) * murmur_m else h)"

definition cache_hash :: "bytes \<Rightarrow> 32 word" where
  "cache_hash key =
     (let (h, rest) = murmur_blocks key (97 XOR of_nat (length key));
          h = hash_tail rest h;
          h = h XOR drop_bit 13 h;
          h = h * murmur_m
      in h XOR drop_bit 15 h)"

definition get_bucket_index :: "cache_hash_map \<Rightarrow> bytes \<Rightarrow> nat" where
  "get_bucket_index t key = unat (cache_hash key AND (of_nat (bucket_size t) - 1))"

text \<open>The search in a chain yields the item, if any, and the item in front of it.\<close>

partial_function (option) find_in_chain ::
  "mdb_mem \<Rightarrow> bytes \<Rightarrow> 64 word \<Rightarrow> nat option \<Rightarrow> (nat option \<times> nat option) option" where
  "find_in_chain m key pos pprev =
     (if pos = 0 then Some (None, pprev)
      else do {
        prev \<leftarrow> id_to_item m pos;
        (if unat (key_len (items m prev)) = length key \<and> ITEM_KEY (items m prev) = key
         then Some (Some prev, pprev)
         else find_in_chain m key (h_next (items m prev)) (Some prev)) })"

declare find_in_chain.simps [code]

definition hash_find :: "bytes \<Rightarrow> cache_hash_map \<Rightarrow> mdb_mem \<Rightarrow> nat option option" where
  "hash_find key t m =
     (if key = [] then None
      else map_option fst (find_in_chain m key (hashtable t (get_bucket_index t key)) None))"

definition hash_insert :: "nat \<Rightarrow> cache_hash_map \<times> mdb_mem \<Rightarrow> cache_hash_map \<times> mdb_mem" where
  "hash_insert item tm = (case tm of (t, m) \<Rightarrow>
     (let idx = get_bucket_index t (ITEM_KEY (items m item));
          m = upd_item item (h_next_update (\<lambda>_. hashtable t idx)) m
      in (t\<lparr>hashtable := (hashtable t)(idx := item_id (items m item)), hash_item_count := hash_item_count t + 1\<rparr>, m)))"

definition hash_remove :: "nat \<Rightarrow> cache_hash_map \<times> mdb_mem \<Rightarrow> (bool \<times> cache_hash_map \<times> mdb_mem) option" where
  "hash_remove item tm = (case tm of (t, m) \<Rightarrow>
     (let idx = get_bucket_index t (ITEM_KEY (items m item))
      in do {
        (found, pprev) \<leftarrow> find_in_chain m (ITEM_KEY (items m item)) (hashtable t idx) None;
        case found of
          None \<Rightarrow> Some (False, t, m)
        | Some prev \<Rightarrow>
            let t = t\<lparr>hash_item_count := hash_item_count t - 1\<rparr>;
                (t, m) = (case pprev of
                   Some pp \<Rightarrow> (t, upd_item pp (h_next_update (\<lambda>_. h_next (items m prev))) m)
                 | None \<Rightarrow> (t\<lparr>hashtable := (hashtable t)(idx := h_next (items m prev))\<rparr>, m))
            in Some (True, t, upd_item prev (h_next_update (\<lambda>_. 0)) m) }))"

section \<open>Chains\<close>

definition hash_nx :: "mdb_mem \<Rightarrow> nat \<Rightarrow> nat option" where
  "hash_nx m a = id_to_item m (h_next (items m a))"

definition hash_chain :: "mdb_mem \<Rightarrow> 64 word \<Rightarrow> nat list \<Rightarrow> bool" where
  "hash_chain m w xs \<longleftrightarrow> path (hash_nx m) (id_to_item m w) xs None"

abbreviation key_of :: "mdb_mem \<Rightarrow> nat \<Rightarrow> bytes" where
  "key_of m a \<equiv> ITEM_KEY (items m a)"

definition sound_key :: "mdb_item \<Rightarrow> bool" where
  "sound_key it \<longleftrightarrow> 0 < key_len it \<and> unat (key_len it) \<le> length (idata it)"

lemma sound_key_length: "sound_key it \<Longrightarrow> length (ITEM_KEY it) = unat (key_len it)"
  by (simp add: sound_key_def ITEM_KEY_def)

lemma id_to_item_None: "id_to_item m w = None \<longleftrightarrow> w = 0"
  by (simp add: id_to_item_def ITEM_ADDR_def)

text \<open>The search walks the chain to the first item with the key.\<close>

lemma find_in_chain_absent:
  assumes "hash_chain m w xs" and "\<And>a. a \<in> set xs \<Longrightarrow> sound_key (items m a)" and "\<And>a. a \<in> set xs \<Longrightarrow> key_of m a \<noteq> key"
  shows "\<exists>q. find_in_chain m key w pp = Some (None, q)"
  using assms
proof (induction xs arbitrary: w pp)
  case Nil
  then show ?case
    by (simp add: hash_chain_def id_to_item_None find_in_chain.simps)
next
  case (Cons a xs)
  have a: "id_to_item m w = Some a" "w \<noteq> 0" "hash_chain m (h_next (items m a)) xs"
    using Cons.prems(1) id_to_item_None [of m w] by (auto simp: hash_chain_def hash_nx_def)
  then show ?case
    using Cons.IH [OF a(3), of "Some a"] Cons.prems(2,3) by (simp add: find_in_chain.simps [of m key w])
qed

lemma find_in_chain_present:
  assumes "hash_chain m w (xs @ a # ys)" and "\<And>b. b \<in> set (xs @ [a]) \<Longrightarrow> sound_key (items m b)" and "\<And>b. b \<in> set xs \<Longrightarrow> key_of m b \<noteq> key_of m a"
  shows "find_in_chain m (key_of m a) w pp = Some (Some a, if xs = [] then pp else Some (last xs))"
  using assms
proof (induction xs arbitrary: w pp)
  case Nil
  then have "id_to_item m w = Some a" "w \<noteq> 0"
    using id_to_item_None [of m w] by (auto simp: hash_chain_def)
  then show ?case
    using Nil sound_key_length by (simp add: find_in_chain.simps)
next
  case (Cons b xs)
  have b: "id_to_item m w = Some b" "w \<noteq> 0" "hash_chain m (h_next (items m b)) (xs @ a # ys)"
    using Cons.prems(1) id_to_item_None [of m w] by (auto simp: hash_chain_def hash_nx_def)
  then show ?case
    using Cons.IH [OF b(3), of "Some b"] Cons.prems(2,3) by (simp add: find_in_chain.simps [of m _ w])
qed

section \<open>The table\<close>

definition members :: "cache_hash_map \<Rightarrow> (nat \<Rightarrow> nat list) \<Rightarrow> nat set" where
  "members t C = (\<Union>b<bucket_size t. set (C b))"

definition table_inv :: "cache_hash_map \<Rightarrow> mdb_mem \<Rightarrow> (nat \<Rightarrow> nat list) \<Rightarrow> bool" where
  "table_inv t m C \<longleftrightarrow> (\<exists>k<32. bucket_size t = 2 ^ k)
     \<and> (\<forall>b<bucket_size t. hash_chain m (hashtable t b) (C b) \<and> distinct (C b)
          \<and> (\<forall>a\<in>set (C b). sound_key (items m a) \<and> get_bucket_index t (key_of m a) = b))
     \<and> inj_on (key_of m) (members t C) \<and> hash_item_count t = int (\<Sum>b<bucket_size t. length (C b))"

lemma unat_mask_less:
  fixes x :: "32 word"
  assumes "k < 32"
  shows "unat (x AND (of_nat (2 ^ k) - 1)) < 2 ^ k"
proof -
  have "x AND (of_nat (2 ^ k) - 1) = take_bit k x"
    by (simp add: take_bit_eq_mask mask_eq_exp_minus_1)
  then show ?thesis
    by (simp add: unsigned_take_bit_eq)
qed

lemma bucket_less: "table_inv t m C \<Longrightarrow> get_bucket_index t key < bucket_size t"
  using unat_mask_less unfolding table_inv_def get_bucket_index_def by metis

lemma bucket_cong: "bucket_size t' = bucket_size t \<Longrightarrow> get_bucket_index t' = get_bucket_index t"
  by (simp add: get_bucket_index_def fun_eq_iff)

lemma tableD:
  assumes "table_inv t m C" and "b < bucket_size t"
  shows "hash_chain m (hashtable t b) (C b)" "distinct (C b)" "\<And>a. a \<in> set (C b) \<Longrightarrow> sound_key (items m a)"
    "\<And>a. a \<in> set (C b) \<Longrightarrow> get_bucket_index t (key_of m a) = b" "\<And>a. a \<in> set (C b) \<Longrightarrow> a \<in> members t C"
  using assms by (auto simp: table_inv_def members_def)

lemma table_key: "table_inv t m C \<Longrightarrow> a \<in> members t C \<Longrightarrow> b \<in> members t C \<Longrightarrow> key_of m a = key_of m b \<Longrightarrow> a = b"
  by (auto simp: table_inv_def inj_on_def)

lemma member_bucket:
  assumes "table_inv t m C" and "a \<in> members t C"
  shows "a \<in> set (C (get_bucket_index t (key_of m a)))"
  using assms by (auto simp: members_def table_inv_def)

lemma hash_find_present:
  assumes "table_inv t m C" and "a \<in> members t C" and "key_of m a = key"
  shows "hash_find key t m = Some (Some a)"
proof -
  let ?b = "get_bucket_index t key"
  have b: "?b < bucket_size t"
    by (rule bucket_less [OF assms(1)])
  note T = tableD [OF assms(1) b]
  have a: "a \<in> set (C ?b)"
    using member_bucket [OF assms(1,2)] assms(3) by simp
  then obtain xs ys where xs: "C ?b = xs @ a # ys"
    by (auto dest: split_list)
  have "find_in_chain m (key_of m a) (hashtable t ?b) None = Some (Some a, if xs = [] then None else Some (last xs))"
  proof (rule find_in_chain_present)
    show "hash_chain m (hashtable t ?b) (xs @ a # ys)"
      using T(1) xs by simp
    show "key_of m c \<noteq> key_of m a" if "c \<in> set xs" for c
      using table_key [OF assms(1) T(5) assms(2), of c] that xs T(2) by auto
  qed (use T(3) xs in auto)
  moreover have "key \<noteq> []"
    using sound_key_length [OF T(3) [OF a]] T(3) [OF a] assms(3) by (auto simp: sound_key_def word_less_nat_alt)
  ultimately show ?thesis
    using assms(3) by (simp add: hash_find_def)
qed

lemma hash_find_absent:
  assumes "table_inv t m C" and "\<And>a. a \<in> members t C \<Longrightarrow> key_of m a \<noteq> key" and "key \<noteq> []"
  shows "hash_find key t m = Some None"
proof -
  let ?b = "get_bucket_index t key"
  note T = tableD [OF assms(1) bucket_less [OF assms(1), of key]]
  have "\<exists>q. find_in_chain m key (hashtable t ?b) None = Some (None, q)"
    by (rule find_in_chain_absent [OF T(1)]) (use T(3,5) assms(2) in blast)+
  then show ?thesis
    using assms(3) by (auto simp: hash_find_def)
qed

lemma hash_find_spec:
  assumes "table_inv t m C" and "key \<noteq> []"
  obtains a where "a \<in> members t C" "key_of m a = key" "hash_find key t m = Some (Some a)"
  | "\<And>a. a \<in> members t C \<Longrightarrow> key_of m a \<noteq> key" "hash_find key t m = Some None"
  using hash_find_present [OF assms(1)] hash_find_absent [OF assms(1) _ assms(2)] by blast

text \<open>The table depends on the chain pointers and the keys of its items only.\<close>

definition same_entry :: "mdb_item \<Rightarrow> mdb_item \<Rightarrow> bool" where
  "same_entry it it' \<longleftrightarrow> h_next it' = h_next it \<and> key_len it' = key_len it \<and> idata it' = idata it"

lemma same_entry_key: "same_entry it it' \<Longrightarrow> ITEM_KEY it' = ITEM_KEY it \<and> sound_key it' = sound_key it"
  by (simp add: same_entry_def ITEM_KEY_def sound_key_def)

lemma hash_chain_cong:
  assumes "\<And>a. a \<in> set xs \<Longrightarrow> h_next (items m' a) = h_next (items m a)" and "mp_page_size (pool m') = mp_page_size (pool m)"
  shows "hash_chain m' w xs = hash_chain m w xs"
proof -
  have "id_to_item m' = id_to_item m"
    using assms(2) by (simp add: id_to_item_def fun_eq_iff)
  then show ?thesis
    using path_cong [of xs "hash_nx m'" "hash_nx m"] assms(1) by (simp add: hash_chain_def hash_nx_def)
qed

lemma table_frame:
  assumes "table_inv t m C" and "\<And>a. a \<in> members t C \<Longrightarrow> same_entry (items m a) (items m' a)" and "mp_page_size (pool m') = mp_page_size (pool m)"
  shows "table_inv t m' C"
proof -
  have key: "key_of m' a = key_of m a" "sound_key (items m' a) = sound_key (items m a)" if "a \<in> members t C" for a
    using same_entry_key [OF assms(2) [OF that]] by simp_all
  have "hash_chain m' (hashtable t b) (C b)" if "b < bucket_size t" for b
    using tableD(1) [OF assms(1) that] hash_chain_cong [of "C b" m' m] assms(2,3) tableD(5) [OF assms(1) that] by (simp add: same_entry_def)
  moreover have "inj_on (key_of m') (members t C)"
    using assms(1) key(1) inj_on_cong [of "members t C" "key_of m'" "key_of m"] by (simp add: table_inv_def)
  ultimately show ?thesis
    using assms(1) key tableD(5) [OF assms(1)] by (simp add: table_inv_def)
qed

lemma table_disjoint:
  assumes "table_inv t m C" and "b < bucket_size t" and "c < bucket_size t" and "b \<noteq> c"
  shows "set (C b) \<inter> set (C c) = {}"
  using tableD(4) [OF assms(1,2)] tableD(4) [OF assms(1,3)] assms(4) by blast

text \<open>A change of one bucket, when only chain pointers are written and none of an item of another bucket.\<close>

lemma table_bucket:
  assumes "table_inv t m C" and "i < bucket_size t" and "bucket_size t' = bucket_size t"
    and "hash_chain m' (hashtable t' i) xs" "distinct xs" "\<And>a. a \<in> set xs \<Longrightarrow> sound_key (items m a) \<and> get_bucket_index t (key_of m a) = i"
    and "\<And>b. b < bucket_size t \<Longrightarrow> b \<noteq> i \<Longrightarrow> hashtable t' b = hashtable t b"
    and "\<And>a. \<exists>w. items m' a = (items m a)\<lparr>h_next := w\<rparr>" "mp_page_size (pool m') = mp_page_size (pool m)"
    and "\<And>b a. b < bucket_size t \<Longrightarrow> b \<noteq> i \<Longrightarrow> a \<in> set (C b) \<Longrightarrow> h_next (items m' a) = h_next (items m a)"
    and "inj_on (key_of m) (members t (C(i := xs)))"
    and "hash_item_count t' = int (\<Sum>b<bucket_size t. length ((C(i := xs)) b))"
  shows "table_inv t' m' (C(i := xs))"
proof -
  have key: "key_of m' a = key_of m a" "sound_key (items m' a) = sound_key (items m a)" for a
    using assms(8) [of a] by (auto simp: ITEM_KEY_def sound_key_def)
  have mem: "members t' = members t" and idx: "get_bucket_index t' = get_bucket_index t"
    using assms(3) bucket_cong [OF assms(3)] by (simp_all add: members_def fun_eq_iff)
  have "hash_chain m' (hashtable t' b) ((C(i := xs)) b)" if "b < bucket_size t" for b
  proof (cases "b = i")
    case False
    then show ?thesis
      using hash_chain_cong [of "C b" m' m] assms(7,9,10) that tableD(1) [OF assms(1) that] by simp
  qed (use assms(4) in simp)
  moreover have "(\<lambda>a. key_of m' a) = key_of m"
    by (simp add: key)
  ultimately show ?thesis
    using assms(1,3,5,6,11,12) by (auto simp: table_inv_def key mem idx)
qed

lemma sum_length_bucket:
  fixes n :: nat
  assumes "i < n"
  shows "(\<Sum>b<n. length ((C(i := xs)) b)) + length (C i) = (\<Sum>b<n. length (C b)) + length (xs :: 'a list)"
proof -
  have "(\<Sum>b\<in>{..<n} - {i}. length ((C(i := xs)) b)) = (\<Sum>b\<in>{..<n} - {i}. length (C b))"
    by (rule sum.cong) auto
  then show ?thesis
    using assms sum.remove [of "{..<n}" i "\<lambda>b. length (C b)"] sum.remove [of "{..<n}" i "\<lambda>b. length ((C(i := xs)) b)"] by simp
qed

lemma hash_insert_spec:
  assumes "table_inv t m C" and "a \<notin> members t C" and "sound_key (items m a)"
    and "\<And>b. b \<in> members t C \<Longrightarrow> key_of m b \<noteq> key_of m a" and "id_to_item m (item_id (items m a)) = Some a"
    and "i = get_bucket_index t (key_of m a)" and "hash_insert a (t, m) = (t', m')"
  shows "table_inv t' m' (C(i := a # C i))" "members t' (C(i := a # C i)) = insert a (members t C)"
    "m' = upd_item a (h_next_update (\<lambda>_. hashtable t i)) m"
proof -
  have i: "i < bucket_size t"
    using bucket_less [OF assms(1)] assms(6) by simp
  note T = tableD [OF assms(1) i]
  show m': "m' = upd_item a (h_next_update (\<lambda>_. hashtable t i)) m"
    using assms(6,7) by (simp add: hash_insert_def Let_def)
  have t': "t' = t\<lparr>hashtable := (hashtable t)(i := item_id (items m a)), hash_item_count := hash_item_count t + 1\<rparr>"
    using assms(6,7) by (simp add: hash_insert_def Let_def upd_item_def)
  show mem: "members t' (C(i := a # C i)) = insert a (members t C)"
    using i by (auto simp: members_def t' split: if_splits)
  have out: "a \<notin> set (C b)" if "b < bucket_size t" for b
    using assms(2) that by (auto simp: members_def)
  have "hash_nx m' = (hash_nx m)(a := id_to_item m (hashtable t i))"
    by (simp add: m' fun_eq_iff hash_nx_def upd_item_def id_to_item_def)
  then have chain: "hash_chain m' (hashtable t' i) (a # C i)"
    using T(1) out [OF i] assms(5) by (simp add: hash_chain_def t' m' id_to_item_def upd_item_def)
  show "table_inv t' m' (C(i := a # C i))"
  proof (rule table_bucket [OF assms(1) i _ chain])
    show "\<exists>w. items m' c = (items m c)\<lparr>h_next := w\<rparr>" for c
      by (cases "c = a") (auto simp: m' upd_item_def intro: exI [of _ "h_next (items m c)"])
    show "inj_on (key_of m) (members t (C(i := a # C i)))"
    proof -
      have "members t (C(i := a # C i)) = insert a (members t C)"
        using mem by (simp add: members_def t')
      moreover have "inj_on (key_of m) (members t C)" "key_of m a \<notin> key_of m ` (members t C)"
        using assms(1,4) by (auto simp: table_inv_def) (metis assms(4))
      ultimately show ?thesis
        by auto
    qed
    show "hash_item_count t' = int (\<Sum>b<bucket_size t. length ((C(i := a # C i)) b))"
      using sum_length_bucket [OF i, of C "a # C i"] assms(1) by (simp add: t' table_inv_def)
    show "sound_key (items m c) \<and> get_bucket_index t (key_of m c) = i" if "c \<in> set (a # C i)" for c
      using that T(3,4) assms(3,6) by auto
    show "h_next (items m' c) = h_next (items m c)" if "b < bucket_size t" "c \<in> set (C b)" for b c
      using out [OF that(1)] that(2) by (auto simp: m' upd_item_def)
    show "distinct (a # C i)"
      using T(2) out [OF i] by simp
  qed (simp_all add: t' m' upd_item_def)
qed

text \<open>Taking a cell out of a singly linked chain.\<close>

lemma path_remove:
  assumes "path nx p (zs @ q # a # ys) None" and "distinct (zs @ q # a # ys)"
  shows "path (nx(q := nx a, a := v)) p (zs @ q # ys) None"
  using assms by (auto simp: path_append)

lemma insert_eq_Diff: "a \<notin> A \<Longrightarrow> insert a A = insert a B \<Longrightarrow> A = B - {a}"
  by auto

lemma hash_remove_spec:
  assumes "table_inv t m C" and "a \<in> members t C" and "i = get_bucket_index t (key_of m a)"
  shows "\<exists>t' m'. hash_remove a (t, m) = Some (True, t', m') \<and> table_inv t' m' (C(i := remove1 a (C i)))
    \<and> members t' (C(i := remove1 a (C i))) = members t C - {a} \<and> bucket_size t' = bucket_size t
    \<and> pool m' = pool m \<and> pages m' = pages m \<and> (\<forall>b. \<exists>w. items m' b = (items m b)\<lparr>h_next := w\<rparr>)
    \<and> (\<forall>b. b \<notin> members t C \<longrightarrow> items m' b = items m b)"
proof -
  have i: "i < bucket_size t"
    using bucket_less [OF assms(1)] assms(3) by simp
  note T = tableD [OF assms(1) i]
  obtain xs ys where xs: "C i = xs @ a # ys"
    using member_bucket [OF assms(1,2)] assms(3) by (auto dest: split_list)
  have "find_in_chain m (key_of m a) (hashtable t i) None = Some (Some a, if xs = [] then None else Some (last xs))"
  proof (rule find_in_chain_present)
    show "hash_chain m (hashtable t i) (xs @ a # ys)"
      using T(1) xs by simp
    show "key_of m c \<noteq> key_of m a" if "c \<in> set xs" for c
      using table_key [OF assms(1) T(5) assms(2), of c] that xs T(2) by auto
  qed (use T(3) xs in auto)
  note found = this
  define t' where "t' = (if xs = [] then t\<lparr>hash_item_count := hash_item_count t - 1, hashtable := (hashtable t)(i := h_next (items m a))\<rparr>
    else t\<lparr>hash_item_count := hash_item_count t - 1\<rparr>)"
  define m1 where "m1 = (if xs = [] then m else upd_item (last xs) (h_next_update (\<lambda>_. h_next (items m a))) m)"
  define m' where "m' = upd_item a (h_next_update (\<lambda>_. 0)) m1"
  have res: "hash_remove a (t, m) = Some (True, t', m')"
    using found assms(3) by (simp add: hash_remove_def Let_def t'_def m1_def m'_def)
  have rest: "remove1 a (C i) = xs @ ys" "a \<notin> set (xs @ ys)"
    using xs T(2) by (auto simp: remove1_append)
  have same: "pool m' = pool m" "pages m' = pages m" "bucket_size t' = bucket_size t"
    by (simp_all add: m'_def m1_def t'_def upd_item_def)
  have touched: "items m' b = items m b" if "b \<noteq> a" "xs = [] \<or> b \<noteq> last xs" for b
    using that by (auto simp: m'_def m1_def upd_item_def)
  have links: "\<exists>w. items m' b = (items m b)\<lparr>h_next := w\<rparr>" for b
    by (rule exI [of _ "h_next (items m' b)"]) (auto simp: m'_def m1_def upd_item_def)
  have id: "id_to_item m' = id_to_item m"
    by (simp add: same(1) id_to_item_def fun_eq_iff)
  have chain: "hash_chain m' (hashtable t' i) (xs @ ys)"
  proof (cases xs rule: rev_cases)
    case Nil
    have "hash_nx m' = (hash_nx m)(a := None)"
      by (simp add: fun_eq_iff hash_nx_def id) (simp add: m'_def m1_def Nil upd_item_def id_to_item_None)
    then show ?thesis
      using T(1) xs Nil rest(2) by (simp add: hash_chain_def id t'_def hash_nx_def)
  next
    case (snoc zs q)
    have "q \<noteq> a"
      using rest(2) snoc by auto
    then have "hash_nx m' = (hash_nx m)(q := hash_nx m a, a := None)"
      by (simp add: fun_eq_iff hash_nx_def id) (simp add: m'_def m1_def snoc upd_item_def id_to_item_None)
    then show ?thesis
      using path_remove [of "hash_nx m" "id_to_item m (hashtable t i)" zs q a ys None] T(1,2) xs snoc
      unfolding hash_chain_def id t'_def by simp
  qed
  have mem: "members t' (C(i := xs @ ys)) = members t C - {a}"
  proof -
    have "a \<notin> set ((C(i := xs @ ys)) b)" if "b < bucket_size t" for b
      using rest(2) table_disjoint [OF assms(1) i that] xs by auto
    moreover have "insert a (set ((C(i := xs @ ys)) b)) = insert a (set (C b))" for b
      using xs by auto
    ultimately have "set ((C(i := xs @ ys)) b) = set (C b) - {a}" if "b < bucket_size t" for b
      using that by (intro insert_eq_Diff)
    then have "(\<Union>b<bucket_size t. set ((C(i := xs @ ys)) b)) = (\<Union>b<bucket_size t. set (C b) - {a})"
      by (intro SUP_cong refl) simp
    then show ?thesis
      unfolding members_def same(3) by blast
  qed
  have other: "items m' b = items m b" if "b \<notin> set (C i)" for b
    using touched [of b] that xs by (metis in_set_conv_decomp last_in_set Un_iff set_append)
  have "table_inv t' m' (C(i := xs @ ys))"
  proof (rule table_bucket [OF assms(1) i same(3) chain])
    show "inj_on (key_of m) (members t (C(i := xs @ ys)))"
      using mem assms(1) same(3) by (auto simp: members_def table_inv_def intro: inj_on_diff)
    show "hash_item_count t' = int (\<Sum>b<bucket_size t. length ((C(i := xs @ ys)) b))"
    proof -
      have "(\<Sum>b<bucket_size t. length (C b)) = Suc (\<Sum>b<bucket_size t. length ((C(i := xs @ ys)) b))"
        using sum_length_bucket [OF i, of C "xs @ ys"] xs by simp
      moreover have "hash_item_count t' = int (\<Sum>b<bucket_size t. length (C b)) - 1"
        using assms(1) unfolding table_inv_def t'_def by simp
      ultimately show ?thesis
        by linarith
    qed
    show "h_next (items m' c) = h_next (items m c)" if "b < bucket_size t" "b \<noteq> i" "c \<in> set (C b)" for b c
    proof -
      have "c \<notin> set (C i)"
        using table_disjoint [OF assms(1) i that(1)] that by blast
      then show ?thesis
        by (simp add: other)
    qed
    show "sound_key (items m c) \<and> get_bucket_index t (key_of m c) = i" if "c \<in> set (xs @ ys)" for c
      using that T(3,4) xs by auto
    show "distinct (xs @ ys)"
      using T(2) xs by simp
  qed (use links same in \<open>auto simp: t'_def\<close>)
  moreover have "\<forall>b. b \<notin> members t C \<longrightarrow> items m' b = items m b"
    using other T(5) by metis
  ultimately show ?thesis
    unfolding rest(1) using res mem same links by blast
qed

end
