(* ===== verification/Mdb_Manager.thy ===== *)
theory Mdb_Manager
  imports Mem_Cache Cache_Hashmap
begin

unbundle bit_operations_syntax

text \<open>
  The memory storage engine (\<open>storage/mdb/mdb_manager.cpp\<close>): an engine is the memory with its pool, the
  hash table, the slabs and the statistics of the areas. The theory models storing, reading and
  removing an entry; the passes over the whole table are in \<open>Mdb_Sweep\<close>.
\<close>

section \<open>Model\<close>

record mdb_area_stat =
  quota :: "64 word"
  data_size :: "64 word"
  space_usage :: "64 word"
  st_item_count :: "64 word"
  hit_count :: "64 word"
  get_count :: "64 word"
  put_count :: "64 word"
  remove_count :: "64 word"
  st_evict_count :: "64 word"

record mdb_manager =
  memory :: mdb_mem
  hashmap :: cache_hash_map
  slab_managers :: "slab_manager list"
  area_stat :: "nat \<Rightarrow> mdb_area_stat"

definition TAIR_RETURN_DATA_NOT_EXIST :: int where
  "TAIR_RETURN_DATA_NOT_EXIST = - 3998"

definition TAIR_RETURN_VERSION_ERROR :: int where
  "TAIR_RETURN_VERSION_ERROR = - 3997"

definition TAIR_RETURN_DATA_EXPIRED :: int where
  "TAIR_RETURN_DATA_EXPIRED = - 3988"

definition TAIR_ITEM_FLAG_DELETED :: "8 word" where
  "TAIR_ITEM_FLAG_DELETED = 2"

definition upd_stat :: "nat \<Rightarrow> (mdb_area_stat \<Rightarrow> mdb_area_stat) \<Rightarrow> mdb_manager \<Rightarrow> mdb_manager option" where
  "upd_stat ar f M = (if ar < TAIR_MAX_AREA_COUNT then Some (M\<lparr>area_stat := (area_stat M)(ar := f (area_stat M ar))\<rparr>) else None)"

definition upd_mem :: "(mdb_mem \<Rightarrow> mdb_mem) \<Rightarrow> mdb_manager \<Rightarrow> mdb_manager" where
  "upd_mem f M = M\<lparr>memory := f (memory M)\<rparr>"

definition set_area_quota :: "nat \<Rightarrow> 64 word \<Rightarrow> mdb_manager \<Rightarrow> mdb_manager option" where
  "set_area_quota ar q M = upd_stat ar (quota_update (\<lambda>_. q)) M"

text \<open>The overload for several areas, given the entries of its map in their order.\<close>

primrec set_area_quotas :: "(nat \<times> 64 word) list \<Rightarrow> mdb_manager \<Rightarrow> mdb_manager option" where
  "set_area_quotas [] M = Some M"
| "set_area_quotas (it # quota_map) M = do { M \<leftarrow> set_area_quota (fst it) (snd it) M; set_area_quotas quota_map M }"

definition is_quota_exceed :: "nat \<Rightarrow> mdb_manager \<Rightarrow> bool" where
  "is_quota_exceed ar M \<longleftrightarrow> quota (area_stat M ar) \<le> data_size (area_stat M ar)"

text \<open>The bytes and the slot an item counts for.\<close>

definition item_bytes :: "mdb_item \<Rightarrow> 64 word" where
  "item_bytes it = ucast (key_len it) + ucast (data_len it)"

definition item_space :: "mdb_item \<Rightarrow> 64 word" where
  "item_space it = of_nat (SLAB_SIZE (item_id it))"

subsection \<open>Removing an item\<close>

definition remove_stat :: "mdb_item \<Rightarrow> mdb_area_stat \<Rightarrow> mdb_area_stat" where
  "remove_stat it st =
     (let st = st\<lparr>data_size := data_size st - item_bytes it, space_usage := space_usage st - item_space it\<rparr>;
          st = (if data_size st < 0 then st\<lparr>data_size := 0, space_usage := 0\<rparr> else st)
      in st\<lparr>st_item_count := st_item_count st - 1\<rparr>)"

definition clear_item :: "mdb_item \<Rightarrow> mdb_item" where
  "clear_item it = it\<lparr>exptime := 0, data_len := 0, key_len := 0, i_version := 0, update_time := 0\<rparr>"

definition remove_item :: "nat \<Rightarrow> mdb_manager \<Rightarrow> mdb_manager option" where
  "remove_item a M = do {
     let it = items (memory M) a;
     M \<leftarrow> upd_stat (ITEM_AREA it) (remove_stat it) M;
     (removed, t, m) \<leftarrow> hash_remove a (hashmap M, memory M);
     let m = upd_item a (item_id_update CLEAR_FLAGS) m;
     (ss, m) \<leftarrow> cache_free_item a (slab_managers M, m);
     Some (M\<lparr>memory := upd_item a clear_item m, hashmap := t, slab_managers := ss\<rparr>) }"

definition item_expired :: "32 word \<Rightarrow> mdb_item \<Rightarrow> bool" where
  "item_expired now it \<longleftrightarrow> exptime it \<noteq> 0 \<and> exptime it < now"

definition remove_if_exists :: "bytes \<Rightarrow> mdb_manager \<Rightarrow> (bool \<times> mdb_manager) option" where
  "remove_if_exists key M = do {
     found \<leftarrow> hash_find key (hashmap M) (memory M);
     case found of
       None \<Rightarrow> Some (False, M)
     | Some a \<Rightarrow> do { M \<leftarrow> remove_item a M; Some (True, M) } }"

definition remove_if_expired :: "32 word \<Rightarrow> bytes \<Rightarrow> mdb_manager \<Rightarrow> (bool \<times> nat option \<times> mdb_manager) option" where
  "remove_if_expired now key M = do {
     found \<leftarrow> hash_find key (hashmap M) (memory M);
     case found of
       None \<Rightarrow> Some (False, None, M)
     | Some a \<Rightarrow>
         if item_expired now (items (memory M) a) then do { M \<leftarrow> remove_item a M; Some (True, None, M) }
         else Some (False, Some a, M) }"

subsection \<open>Storing an entry\<close>

text \<open>
  What becomes of an item with the key: the engine without it, the flag and the version to go on with,
  or \<open>Inl\<close> for a version the caller did not expect.
\<close>

definition IS_DELETED :: "64 word \<Rightarrow> bool" where
  "IS_DELETED w \<longleftrightarrow> w AND ucast TAIR_ITEM_FLAG_DELETED \<noteq> 0"

definition replace_item ::
  "32 word \<Rightarrow> bytes \<Rightarrow> 16 word \<Rightarrow> bool \<Rightarrow> mdb_manager \<Rightarrow> (int + (8 word \<times> 16 word \<times> mdb_manager)) option" where
  "replace_item now key kv version_care M = do {
     found \<leftarrow> hash_find key (hashmap M) (memory M);
     case found of
       None \<Rightarrow> Some (Inr (0, 0, M))
     | Some a \<Rightarrow>
         let it = items (memory M) a;
             old_flag = (if IS_DELETED (item_id it) then TAIR_ITEM_FLAG_DELETED else 0)
         in if item_expired now it then do { M \<leftarrow> remove_item a M; Some (Inr (old_flag, 0, M)) }
            else if version_care \<and> kv \<noteq> 0 \<and> i_version it \<noteq> kv then Some (Inl TAIR_RETURN_VERSION_ERROR)
            else do { M \<leftarrow> remove_item a M; Some (Inr (old_flag, if version_care then i_version it else kv, M)) } }"

text \<open>An item taken from its owner leaves the statistics and the table.\<close>

definition evict_stat :: "alloc_type \<Rightarrow> mdb_item \<Rightarrow> mdb_area_stat \<Rightarrow> mdb_area_stat" where
  "evict_stat type it st =
     (let st = st\<lparr>data_size := data_size st - item_bytes it, space_usage := space_usage st - item_space it,
                 st_item_count := st_item_count st - 1\<rparr>
      in if type = ALLOC_EVICT_ANY \<or> type = ALLOC_EVICT_SELF then st\<lparr>st_evict_count := st_evict_count st + 1\<rparr> else st)"

definition drop_evicted :: "nat \<Rightarrow> alloc_type \<Rightarrow> mdb_manager \<Rightarrow> mdb_manager option" where
  "drop_evicted a type M =
     (if type = ALLOC_NEW then Some M
      else do {
        let it = items (memory M) a;
        M \<leftarrow> upd_stat (ITEM_AREA it) (evict_stat type it) M;
        (removed, t, m) \<leftarrow> hash_remove a (hashmap M, memory M);
        Some (M\<lparr>memory := m, hashmap := t\<rparr>) })"

definition expire_at :: "32 word \<Rightarrow> int \<Rightarrow> 32 word" where
  "expire_at now expired = (if of_int expired > now then of_int expired else now + of_int expired)"

definition write_item :: "32 word \<Rightarrow> data_entry \<Rightarrow> data_entry \<Rightarrow> 16 word \<Rightarrow> 8 word \<Rightarrow> int \<Rightarrow> mdb_item \<Rightarrow> mdb_item" where
  "write_item now key value ver old_flag expired it =
     (let it = it\<lparr>key_len := of_int (esize key), data_len := of_int (esize value), update_time := now, i_version := ver\<rparr>;
          it = (if expired > 0 then it\<lparr>exptime := expire_at now expired\<rparr> else it);
          it = it\<lparr>item_id := SET_ITEM_FLAGS (item_id it) (ucast (flag (data_meta value) OR old_flag))\<rparr>;
          kl = unat (key_len it);
          dl = unat (data_len it);
          it = it\<lparr>idata := take kl (entry_data key) @ drop kl (idata it)\<rparr>
      in it\<lparr>idata := take kl (idata it) @ take dl (entry_data value) @ drop (kl + dl) (idata it)\<rparr>)"

text \<open>What the key brings back to the caller.\<close>

definition set_back :: "mdb_item \<Rightarrow> data_entry \<Rightarrow> data_entry" where
  "set_back it key = key\<lparr>data_meta := (data_meta key)\<lparr>version := i_version it, edate := exptime it,
     keysize := ucast (key_len it), valsize := ucast (data_len it), flag := ucast (ITEM_FLAGS (item_id it))\<rparr>\<rparr>"

definition put_stat :: "mdb_item \<Rightarrow> mdb_area_stat \<Rightarrow> mdb_area_stat" where
  "put_stat it st = st\<lparr>data_size := data_size st + item_bytes it, space_usage := space_usage st + item_space it,
     st_item_count := st_item_count st + 1, put_count := put_count st + 1\<rparr>"

definition do_put ::
  "32 word \<Rightarrow> data_entry \<Rightarrow> data_entry \<Rightarrow> bool \<Rightarrow> int \<Rightarrow> mdb_manager \<Rightarrow> (int \<times> data_entry \<times> mdb_manager) option" where
  "do_put now key value version_care expired M =
     (let expired = (if expired < 0 then 0 else expired);
          total_size = nat (esize key + esize value + int sizeof_mdb_item);
          kb = entry_data key
      in if length kb < 2 then None
         else do {
           let key = key\<lparr>area := of_nat (KEY_AREA kb)\<rparr>;
           checked \<leftarrow> replace_item now kb (version (data_meta key)) version_care M;
           case checked of
             Inl e \<Rightarrow> Some (e, key, M)
           | Inr (old_flag, ver, M) \<Rightarrow> do {
               (got, ss, m) \<leftarrow> cache_alloc_item now (is_quota_exceed (KEY_AREA kb) M) total_size (KEY_AREA kb) (slab_managers M, memory M);
               (a, type) \<leftarrow> got;
               M \<leftarrow> drop_evicted a type (M\<lparr>slab_managers := ss, memory := m\<rparr>);
               let new_ver = (if version_care then ver + 1 else version (data_meta key));
               let m = upd_item a (write_item now key value new_ver old_flag expired) (memory M);
               let key = set_back (items m a) key;
               let (t, m) = hash_insert a (hashmap M, m);
               M \<leftarrow> upd_stat (ITEM_AREA (items m a)) (put_stat (items m a)) (M\<lparr>hashmap := t, memory := m\<rparr>);
               Some (0, key, M) } })"

subsection \<open>Reading and removing an entry\<close>

definition read_value :: "mdb_item \<Rightarrow> data_entry \<Rightarrow> data_entry" where
  "read_value it value = set_back it (set_data (Some (ITEM_DATA it)) (int (unat (data_len it))) True value)"

definition read_key :: "mdb_item \<Rightarrow> data_entry \<Rightarrow> data_entry" where
  "read_key it key = (set_back it key)\<lparr>data_meta := (data_meta (set_back it key))\<lparr>mdate := update_time it\<rparr>\<rparr>"

definition do_get ::
  "32 word \<Rightarrow> data_entry \<Rightarrow> data_entry \<Rightarrow> mdb_manager \<Rightarrow> (int \<times> data_entry \<times> data_entry \<times> mdb_manager) option" where
  "do_get now key value M = do {
     (expired, found, M) \<leftarrow> remove_if_expired now (entry_data key) M;
     (ret, key, value, M) \<leftarrow>
       (case found of
          Some a \<Rightarrow>
            let it = items (memory M) a
            in if unat (area key) \<noteq> ITEM_AREA it then None
               else do {
                 (ss, m) \<leftarrow> cache_update_item a (slab_managers M, memory M);
                 M \<leftarrow> upd_stat (unat (area key)) (\<lambda>st. st\<lparr>hit_count := hit_count st + 1\<rparr>) (M\<lparr>slab_managers := ss, memory := m\<rparr>);
                 Some (0, read_key it key, read_value it value, M) }
        | None \<Rightarrow> Some (if expired then TAIR_RETURN_DATA_EXPIRED else TAIR_RETURN_DATA_NOT_EXIST, key, value, M));
     M \<leftarrow> upd_stat (unat (area key)) (\<lambda>st. st\<lparr>get_count := get_count st + 1\<rparr>) M;
     Some (ret, key, value, M) }"

definition do_remove :: "data_entry \<Rightarrow> mdb_manager \<Rightarrow> (int \<times> data_entry \<times> mdb_manager) option" where
  "do_remove key M = do {
     let key = key\<lparr>data_meta := (data_meta key)\<lparr>keysize := of_int (esize key)\<rparr>\<rparr>;
     (removed, M) \<leftarrow> remove_if_exists (entry_data key) M;
     M \<leftarrow> upd_stat (unat (area key)) (\<lambda>st. st\<lparr>remove_count := remove_count st + 1\<rparr>) M;
     Some (if removed then 0 else TAIR_RETURN_DATA_NOT_EXIST, key, M) }"

end
