(* ===== verification/Mdb_Content.thy ===== *)
theory Mdb_Content
  imports Mdb_Manager
begin

text \<open>
  The storage engine as a map: the invariant that ties the slabs and the hash table together, the map
  from keys to stored values that an engine holds, and what removing an item does to both.
\<close>

section \<open>The invariant of the engine\<close>

definition item_ok :: "mdb_item \<Rightarrow> bool" where
  "item_ok it \<longleftrightarrow> 2 \<le> unat (key_len it) \<and> unat (key_len it) + unat (data_len it) \<le> length (idata it)"

text \<open>The same items are in use and in the table; an item is in the list of the area of its key.\<close>

definition engine_inv :: "mdb_manager \<Rightarrow> ghost \<Rightarrow> ghost \<Rightarrow> ghost \<Rightarrow> (nat \<Rightarrow> nat list) \<Rightarrow> bool" where
  "engine_inv M Ls Fs Us C \<longleftrightarrow> cache_inv (slab_managers M) (memory M) Ls Fs Us
     \<and> cache_areas (slab_managers M) (memory M) Us \<and> cache_clean (slab_managers M) (memory M) Ls Fs
     \<and> table_inv (hashmap M) (memory M) C \<and> members (hashmap M) C = all_used (slab_managers M) Us
     \<and> (\<forall>a\<in>all_used (slab_managers M) Us. item_ok (items (memory M) a))"

definition engine_ok :: "mdb_manager \<Rightarrow> bool" where
  "engine_ok M \<longleftrightarrow> (\<exists>Ls Fs Us C. engine_inv M Ls Fs Us C)"

lemma engine_invD:
  assumes "engine_inv M Ls Fs Us C"
  shows "cache_inv (slab_managers M) (memory M) Ls Fs Us" "cache_areas (slab_managers M) (memory M) Us"
    "cache_clean (slab_managers M) (memory M) Ls Fs" "table_inv (hashmap M) (memory M) C"
    "members (hashmap M) C = all_used (slab_managers M) Us" "\<And>a. a \<in> all_used (slab_managers M) Us \<Longrightarrow> item_ok (items (memory M) a)"
  using assms by (simp_all add: engine_inv_def)

text \<open>What an item holds apart from its place in lists.\<close>

definition bare :: "mdb_item \<Rightarrow> mdb_item" where
  "bare it = it\<lparr>i_prev := 0, i_next := 0, h_next := 0\<rparr>"

lemma bare_fields:
  assumes "bare it = bare it'"
  shows "exptime it = exptime it'" "key_len it = key_len it'" "data_len it = data_len it'"
    "i_version it = i_version it'" "update_time it = update_time it'" "item_id it = item_id it'" "idata it = idata it'"
  using assms by (simp_all add: bare_def, (cases it, cases it', simp)+)

lemma bare_unlinked: "unlinked it = unlinked it' \<Longrightarrow> bare it = bare it'"
  using unlinked_fields [of it it'] by (simp add: bare_def)

lemma bare_h_next [simp]: "bare (it\<lparr>h_next := w\<rparr>) = bare it"
  by (simp add: bare_def)

section \<open>The content\<close>

record stored =
  s_data :: bytes
  s_version :: "16 word"
  s_exptime :: "32 word"
  s_flags :: "64 word"
  s_time :: "32 word"

definition stored_in :: "mdb_item \<Rightarrow> stored" where
  "stored_in it = \<lparr>s_data = ITEM_DATA it, s_version = i_version it, s_exptime = exptime it,
     s_flags = ITEM_FLAGS (item_id it), s_time = update_time it\<rparr>"

definition content :: "mdb_manager \<Rightarrow> bytes \<Rightarrow> stored option" where
  "content M key = (case hash_find key (hashmap M) (memory M) of
     Some (Some a) \<Rightarrow> Some (stored_in (items (memory M) a))
   | _ \<Rightarrow> None)"

lemma bare_stored:
  assumes "bare it = bare it'"
  shows "stored_in it = stored_in it'" "ITEM_KEY it = ITEM_KEY it'" "ITEM_AREA it = ITEM_AREA it'" "item_ok it = item_ok it'"
  using bare_fields [OF assms] by (simp_all add: stored_in_def ITEM_KEY_def ITEM_DATA_def ITEM_AREA_def item_ok_def)

lemma content_iff:
  assumes "engine_inv M Ls Fs Us C"
  shows "content M key = Some v \<longleftrightarrow>
    (\<exists>a\<in>all_used (slab_managers M) Us. key_of (memory M) a = key \<and> stored_in (items (memory M) a) = v)"
proof (cases "key = []")
  case True
  have "key_of (memory M) a \<noteq> []" if "a \<in> all_used (slab_managers M) Us" for a
    using engine_invD(6) [OF assms that] by (auto simp: item_ok_def ITEM_KEY_def)
  then show ?thesis
    using True by (auto simp: content_def hash_find_def)
next
  case False
  note E = engine_invD [OF assms]
  show ?thesis
    using E(4) False
  proof (cases rule: hash_find_spec)
    case (1 a)
    then show ?thesis
      using table_key [OF E(4)] E(5) by (auto simp: content_def)
  next
    case 2
    then show ?thesis
      using E(5) by (auto simp: content_def)
  qed
qed

lemma map_SomeI: "(\<And>k v. f k = Some v \<longleftrightarrow> g k = Some v) \<Longrightarrow> f = g"
  by (rule ext) (metis option.exhaust)

lemma content_used:
  assumes "engine_inv M Ls Fs Us C" and "a \<in> all_used (slab_managers M) Us"
  shows "content M (key_of (memory M) a) = Some (stored_in (items (memory M) a))"
  using content_iff [OF assms(1)] assms(2) by blast

text \<open>The content without an item, and with an item more.\<close>

lemma content_removed:
  assumes "engine_inv M Ls Fs Us C" and "engine_inv M' Ls' Fs' Us' C'" and "a \<in> all_used (slab_managers M) Us"
    and "all_used (slab_managers M') Us' = all_used (slab_managers M) Us - {a}"
    and "\<And>b. b \<in> all_used (slab_managers M') Us' \<Longrightarrow> bare (items (memory M') b) = bare (items (memory M) b)"
  shows "content M' = (content M)(key_of (memory M) a := None)"
proof (rule map_SomeI)
  fix k v
  have same: "stored_in (items (memory M') b) = stored_in (items (memory M) b)" "key_of (memory M') b = key_of (memory M) b"
    if "b \<in> all_used (slab_managers M) Us - {a}" for b
    using bare_stored [OF assms(5)] that assms(4) by simp_all
  have key: "key_of (memory M) b \<noteq> key_of (memory M) a" if "b \<in> all_used (slab_managers M) Us - {a}" for b
    using table_key [OF engine_invD(4) [OF assms(1)]] engine_invD(5) [OF assms(1)] assms(3) that by auto
  have "content M' k = Some v \<longleftrightarrow> (\<exists>b\<in>all_used (slab_managers M) Us - {a}. key_of (memory M) b = k \<and> stored_in (items (memory M) b) = v)"
    unfolding content_iff [OF assms(2)] assms(4) using same by auto
  also have "\<dots> \<longleftrightarrow> ((content M)(key_of (memory M) a := None)) k = Some v"
    using content_iff [OF assms(1), of k v] key by auto
  finally show "content M' k = Some v \<longleftrightarrow> ((content M)(key_of (memory M) a := None)) k = Some v" .
qed

lemma content_added:
  assumes "engine_inv M' Ls' Fs' Us' C'" and "all_used (slab_managers M') Us' = insert a B" and "a \<notin> B"
    and "\<And>k v. f k = Some v \<longleftrightarrow> (\<exists>b\<in>B. key_of m b = k \<and> stored_in (items m b) = v)"
    and "\<And>b. b \<in> B \<Longrightarrow> bare (items (memory M') b) = bare (items m b)"
  shows "content M' = f(key_of (memory M') a \<mapsto> stored_in (items (memory M') a))"
proof (rule map_SomeI)
  fix k v
  have same: "stored_in (items (memory M') b) = stored_in (items m b)" "key_of (memory M') b = key_of m b" if "b \<in> B" for b
    using bare_stored [OF assms(5) [OF that]] by simp_all
  have key: "key_of (memory M') b \<noteq> key_of (memory M') a" if "b \<in> B" for b
    using table_key [OF engine_invD(4) [OF assms(1)]] engine_invD(5) [OF assms(1)] assms(2,3) that by auto
  have "content M' k = Some v \<longleftrightarrow> key_of (memory M') a = k \<and> stored_in (items (memory M') a) = v
      \<or> (\<exists>b\<in>B. key_of m b = k \<and> stored_in (items m b) = v)"
    unfolding content_iff [OF assms(1)] assms(2) using same by auto
  then show "content M' k = Some v \<longleftrightarrow> (f(key_of (memory M') a \<mapsto> stored_in (items (memory M') a))) k = Some v"
    using assms(4) [of k v] key same by auto
qed

section \<open>Removing an item\<close>

definition same_slabs :: "mdb_manager \<Rightarrow> mdb_manager \<Rightarrow> bool" where
  "same_slabs M M' \<longleftrightarrow> length (slab_managers M') = length (slab_managers M)
     \<and> (\<forall>j<length (slab_managers M). same_slab (slab_managers M ! j) (slab_managers M' ! j))"

lemma same_slabs_refl [simp]: "same_slabs M M"
  by (simp add: same_slabs_def)

lemma same_slabs_trans: "same_slabs M M' \<Longrightarrow> same_slabs M' M'' \<Longrightarrow> same_slabs M M''"
  unfolding same_slabs_def using same_slab_trans by metis

lemma cache_areas_iff: "cache_areas ss m Us \<longleftrightarrow> (\<forall>j z b. at_place ss Us j z b \<longrightarrow> ITEM_AREA (items m b) = z)"
  by (auto simp: cache_areas_def areas_ok_def at_place_def)

text \<open>The chain pointers of items in use, and all but the id of free slots, may be written.\<close>

lemma cache_inv_h_next:
  assumes "cache_inv ss m Ls Fs Us" and "\<And>b. \<exists>w. items m' b = (items m b)\<lparr>h_next := w\<rparr>" and "pool m' = pool m" "pages m' = pages m"
    and "\<And>b. b \<notin> all_used ss Us \<Longrightarrow> items m' b = items m b"
  shows "cache_inv ss m' Ls Fs Us"
proof (rule cache_inv_rewritten [OF assms(1)])
  show "rewritten (items m b) (items m' b)" for b
    using assms(2) [of b] by (auto simp: rewritten_def)
qed (use assms(3-5) in \<open>auto simp: same_chain_def\<close>)

lemma cache_inv_upd_item:
  assumes "cache_inv ss m Ls Fs Us" and "rewritten (items m a) (f (items m a))" and "a \<in> all_used ss Us \<or> same_chain (items m a) (f (items m a))"
  shows "cache_inv ss (upd_item a f m) Ls Fs Us"
  by (rule cache_inv_rewritten [OF assms(1)]) (use assms(2,3) in \<open>auto simp: upd_item_def same_chain_def\<close>)

definition item_gone :: "mdb_manager \<Rightarrow> ghost \<Rightarrow> nat \<Rightarrow> mdb_manager \<Rightarrow> ghost \<Rightarrow> bool" where
  "item_gone M Us a M' Us' \<longleftrightarrow> all_used (slab_managers M') Us' = all_used (slab_managers M) Us - {a}
     \<and> (\<forall>b. b \<noteq> a \<longrightarrow> bare (items (memory M') b) = bare (items (memory M) b)) \<and> same_slabs M M'
     \<and> (\<forall>j z b. at_place (slab_managers M') Us' j z b \<longleftrightarrow> at_place (slab_managers M) Us j z b \<and> b \<noteq> a)
     \<and> area_stat M' = (area_stat M)(ITEM_AREA (items (memory M) a) :=
          remove_stat (items (memory M) a) (area_stat M (ITEM_AREA (items (memory M) a))))"

text \<open>What becomes of the lists: the item leaves its chain and the list of its slab and area.\<close>

definition without_item :: "mdb_manager \<Rightarrow> nat \<Rightarrow> (nat \<Rightarrow> nat list) \<Rightarrow> nat \<Rightarrow> nat list" where
  "without_item M a C = (let j = get_bucket_index (hashmap M) (key_of (memory M) a) in C(j := remove1 a (C j)))"

definition links_gone :: "mdb_manager \<Rightarrow> ghost \<Rightarrow> (nat \<Rightarrow> nat list) \<Rightarrow> nat \<Rightarrow> mdb_manager \<Rightarrow> ghost \<Rightarrow> (nat \<Rightarrow> nat list) \<Rightarrow> bool" where
  "links_gone M Us C a M' Us' C' \<longleftrightarrow> C' = without_item M a C
     \<and> (\<exists>i x. at_place (slab_managers M) Us i x a \<and> Us' = Us(i := (Us i)(x := remove1 a (Us i x))))
     \<and> bucket_size (hashmap M') = bucket_size (hashmap M)
     \<and> mp_page_size (pool (memory M')) = mp_page_size (pool (memory M))"

lemma at_place_unique:
  assumes "cache_inv ss m Ls Fs Us" and "at_place ss Us i x a" and "at_place ss Us j z a"
  shows "i = j \<and> x = z"
proof -
  have i: "i < length ss" "x < TAIR_MAX_AREA_COUNT" "z < TAIR_MAX_AREA_COUNT" "j < length ss" "a \<in> set (Us i x)" "a \<in> set (Us j z)"
    using assms(2,3) by (simp_all add: at_place_def)
  have ij: "i = j"
    using used_disjoint [OF assms(1) i(1,4)] at_place_used [OF assms(2)] at_place_used [OF assms(3)] by blast
  have "lru (ss ! i) m (Us i)"
    using cache_invD(1) [OF assms(1) i(1)] by (simp add: slab_inv_def slab_core_def)
  then show ?thesis
    using lru_disjoint [of "ss ! i" m "Us i" x z] i ij by blast
qed

lemma removed_places:
  assumes "cache_inv ss m Ls Fs Us" and "at_place ss Us i x a" and "length ss' = length ss"
  shows "at_place ss' (Us(i := (Us i)(x := remove1 a (Us i x)))) j z b \<longleftrightarrow> at_place ss Us j z b \<and> b \<noteq> a"
proof (cases "j = i \<and> z = x")
  case True
  have "lru (ss ! i) m (Us i)"
    using cache_invD(1) [OF assms(1), of i] assms(2) by (simp add: slab_inv_def slab_core_def at_place_def)
  then have "distinct (Us i x)"
    using lru_distinct assms(2) by (simp add: at_place_def)
  then show ?thesis
    using True assms(3) by (auto simp: at_place_def)
next
  case False
  then have "b \<noteq> a" if "at_place ss Us j z b"
    using at_place_unique [OF assms(1,2), of j z] that by blast
  then show ?thesis
    using False assms(3) by (auto simp: at_place_def)
qed

text \<open>The memory part of a removal: out of the table, then back to the slab.\<close>

lemma engine_inv_removed:
  assumes "engine_inv M Ls Fs Us C" and "table_inv t m C'" and "members t C' = all_used (slab_managers M) Us - {a}"
    and "cache_inv ss m' Ls' Fs' Us'" and "all_used ss Us' = all_used (slab_managers M) Us - {a}"
    and kept: "\<And>b. b \<noteq> a \<Longrightarrow> bare (items m' b) = bare (items (memory M) b)" "\<And>b. b \<noteq> a \<Longrightarrow> h_next (items m' b) = h_next (items m b)"
      "\<And>b. bare (items m b) = bare (items (memory M) b)"
    and sz: "mp_page_size (pool m') = mp_page_size (pool m)" "mp_page_size (pool m) = mp_page_size (pool (memory M))"
    and "free_slots ss m' Ls' Fs' \<subseteq> insert a (free_slots (slab_managers M) (memory M) Ls Fs)" and "ITEM_FLAGS (item_id (items m' a)) = 0"
    and places: "\<And>k z b. at_place ss Us' k z b \<longleftrightarrow> at_place (slab_managers M) Us k z b \<and> b \<noteq> a"
  shows "engine_inv (M\<lparr>memory := upd_item a clear_item m', hashmap := t, slab_managers := ss\<rparr>) Ls' Fs' Us' C'"
proof -
  let ?m = "upd_item a clear_item m'"
  note E = engine_invD [OF assms(1)]
  have bare: "bare (items ?m b) = bare (items (memory M) b)" if "b \<noteq> a" for b
    using kept(1) [OF that] that by (simp add: upd_item_def)
  have entry: "same_entry (items m b) (items ?m b)" if "b \<noteq> a" for b
    using bare_fields [OF kept(1) [OF that]] bare_fields [OF kept(3) [of b]] kept(2) [OF that] that by (simp add: upd_item_def same_entry_def)
  have "cache_inv ss ?m Ls' Fs' Us'"
    by (rule cache_inv_upd_item [OF assms(4)]) (simp_all add: clear_item_def rewritten_def same_chain_def)
  moreover have "cache_areas ss ?m Us'"
    unfolding cache_areas_iff using places at_place_area [OF E(2)] bare_stored(3) [OF bare] by metis
  moreover have "cache_clean ss ?m Ls' Fs'"
    unfolding cache_clean_def
  proof
    fix b assume "b \<in> free_slots ss ?m Ls' Fs'"
    then have "b = a \<or> b \<in> free_slots (slab_managers M) (memory M) Ls Fs"
      using assms(11) free_slots_cong [of ?m m' ss Ls' Fs'] by (auto simp: upd_item_def)
    moreover have "clean_item (items ?m a)"
      using assms(12) by (simp add: upd_item_def clear_item_def clean_item_def)
    ultimately show "clean_item (items ?m b)"
      using E(3) bare_fields(1,6) [OF bare [of b]] by (cases "b = a") (auto simp: cache_clean_def clean_item_def)
  qed
  moreover have "table_inv t ?m C'"
    by (rule table_frame [OF assms(2)]) (use entry assms(3) sz in \<open>auto simp: upd_item_def\<close>)
  moreover have "item_ok (items ?m b)" if "b \<in> all_used ss Us'" for b
    using E(6) bare_stored(4) [OF bare [of b]] that assms(5) by auto
  ultimately show ?thesis
    using assms(3,5) by (simp add: engine_inv_def)
qed

lemma remove_from_memory:
  assumes "engine_inv M Ls Fs Us C" and "at_place (slab_managers M) Us i x a"
  shows "\<exists>t m ss m' Ls' Fs' Us' C'. hash_remove a (hashmap M, memory M) = Some (True, t, m)
    \<and> cache_free_item a (slab_managers M, upd_item a (item_id_update CLEAR_FLAGS) m) = Some (ss, m')
    \<and> engine_inv (M\<lparr>memory := upd_item a clear_item m', hashmap := t, slab_managers := ss\<rparr>) Ls' Fs' Us' C'
    \<and> all_used ss Us' = all_used (slab_managers M) Us - {a} \<and> length ss = length (slab_managers M)
    \<and> (\<forall>j<length ss. same_slab (slab_managers M ! j) (ss ! j))
    \<and> (\<forall>b. b \<noteq> a \<longrightarrow> bare (items m' b) = bare (items (memory M) b))
    \<and> (\<forall>j z b. at_place ss Us' j z b \<longleftrightarrow> at_place (slab_managers M) Us j z b \<and> b \<noteq> a)
    \<and> Us' = Us(i := (Us i)(x := remove1 a (Us i x))) \<and> C' = without_item M a C
    \<and> bucket_size t = bucket_size (hashmap M) \<and> mp_page_size (pool m') = mp_page_size (pool (memory M))"
proof -
  let ?ss = "slab_managers M" and ?m = "memory M"
  note E = engine_invD [OF assms(1)]
  have a: "a \<in> all_used ?ss Us"
    using at_place_used [OF assms(2)] by blast
  define j where "j = get_bucket_index (hashmap M) (key_of ?m a)"
  obtain t m where h: "hash_remove a (hashmap M, ?m) = Some (True, t, m)" "table_inv t m (C(j := remove1 a (C j)))"
      "members t (C(j := remove1 a (C j))) = members (hashmap M) C - {a}" "pool m = pool ?m" "pages m = pages ?m"
      "\<forall>b. \<exists>w. items m b = (items ?m b)\<lparr>h_next := w\<rparr>" "\<forall>b. b \<notin> members (hashmap M) C \<longrightarrow> items m b = items ?m b"
      "bucket_size t = bucket_size (hashmap M)"
    using hash_remove_spec [OF E(4) _ j_def] a E(5) by auto
  let ?m2 = "upd_item a (item_id_update CLEAR_FLAGS) m"
  have "cache_inv ?ss m Ls Fs Us"
    by (rule cache_inv_h_next [OF E(1)]) (use h(4-7) E(5) in auto)
  then have inv2: "cache_inv ?ss ?m2 Ls Fs Us"
    by (rule cache_inv_upd_item) (use a in \<open>auto simp: rewritten_def\<close>)
  have bare: "bare (items m b) = bare (items ?m b)" for b
    using h(6) by (metis bare_h_next)
  have area: "ITEM_AREA (items ?m2 a) = x"
    using bare_stored(3) [OF bare [of a]] at_place_area [OF E(2) assms(2)] by (simp add: upd_item_def ITEM_AREA_def)
  define Us' where "Us' = Us(i := (Us i)(x := remove1 a (Us i x)))"
  obtain ss m' Ls' Fs' where f: "cache_free_item a (?ss, ?m2) = Some (ss, m')" "length ss = length ?ss" "cache_inv ss m' Ls' Fs' Us'"
      "all_used ss Us' = all_used ?ss Us - {a}" "\<forall>b. b \<noteq> a \<longrightarrow> unlinked (items m' b) = unlinked (items ?m2 b)"
      "item_id (items m' a) = item_id (items ?m2 a)" "mp_page_size (pool m') = mp_page_size (pool ?m2)"
      "\<forall>j<length ?ss. same_slab (?ss ! j) (ss ! j)" "free_slots ss m' Ls' Fs' \<subseteq> insert a (free_slots ?ss ?m2 Ls Fs)"
    using cache_free_item_spec [OF inv2 assms(2) area refl] unfolding Us'_def by auto
  have kept: "bare (items m' b) = bare (items ?m b)" "h_next (items m' b) = h_next (items m b)" if "b \<noteq> a" for b
    using bare_unlinked [of "items m' b" "items ?m2 b"] unlinked_fields(1) [of "items m' b" "items ?m2 b"] f(5) that bare [of b] by (simp_all add: upd_item_def)
  let ?m4 = "upd_item a clear_item m'" and ?C = "C(j := remove1 a (C j))"
  have places: "at_place ss Us' k z b \<longleftrightarrow> at_place ?ss Us k z b \<and> b \<noteq> a" for k z b
    unfolding Us'_def by (rule removed_places [OF E(1) assms(2) f(2)])
  have inv: "engine_inv (M\<lparr>memory := ?m4, hashmap := t, slab_managers := ss\<rparr>) Ls' Fs' Us' ?C"
    by (rule engine_inv_removed [OF assms(1) h(2) _ f(3,4) kept bare])
      (use h(3,4) E(5) f(6,7,9) places free_slots_cong [of ?m2 ?m ?ss Ls Fs] CLEAR_FLAGS_flags in \<open>simp_all add: upd_item_def\<close>)
  show ?thesis
    by (rule exI [of _ t], rule exI [of _ m], rule exI [of _ ss], rule exI [of _ m'], rule exI [of _ Ls'],
      rule exI [of _ Fs'], rule exI [of _ Us'], rule exI [of _ ?C]) (use h(1,4,8) f(1,2,4,7,8) inv kept(1) places in \<open>simp add: Us'_def j_def without_item_def Let_def\<close>)
qed

lemma remove_item_links:
  assumes "engine_inv M Ls Fs Us C" and "a \<in> all_used (slab_managers M) Us"
  shows "\<exists>M' Ls' Fs' Us' C'. remove_item a M = Some M' \<and> engine_inv M' Ls' Fs' Us' C' \<and> item_gone M Us a M' Us'
    \<and> links_gone M Us C a M' Us' C' \<and> content M' = (content M)(key_of (memory M) a := None)"
proof -
  obtain i x where p: "at_place (slab_managers M) Us i x a"
    using at_placeE [OF assms(2)] .
  have x: "ITEM_AREA (items (memory M) a) = x" "x < TAIR_MAX_AREA_COUNT"
    using at_place_area [OF engine_invD(2) [OF assms(1)] p] p unfolding at_place_def by blast+
  obtain t m ss m' Ls' Fs' Us' C' where r: "hash_remove a (hashmap M, memory M) = Some (True, t, m)"
      "cache_free_item a (slab_managers M, upd_item a (item_id_update CLEAR_FLAGS) m) = Some (ss, m')"
      "engine_inv (M\<lparr>memory := upd_item a clear_item m', hashmap := t, slab_managers := ss\<rparr>) Ls' Fs' Us' C'"
      "all_used ss Us' = all_used (slab_managers M) Us - {a}" "length ss = length (slab_managers M)"
      "\<forall>j<length ss. same_slab (slab_managers M ! j) (ss ! j)" "\<forall>b. b \<noteq> a \<longrightarrow> bare (items m' b) = bare (items (memory M) b)"
      "\<forall>j z b. at_place ss Us' j z b \<longleftrightarrow> at_place (slab_managers M) Us j z b \<and> b \<noteq> a"
      "Us' = Us(i := (Us i)(x := remove1 a (Us i x)))" "C' = without_item M a C"
      "bucket_size t = bucket_size (hashmap M)" "mp_page_size (pool m') = mp_page_size (pool (memory M))"
    using remove_from_memory [OF assms(1) p] by (elim exE conjE) (rule that)
  let ?st = "(area_stat M)(x := remove_stat (items (memory M) a) (area_stat M x))"
  let ?M = "M\<lparr>area_stat := ?st, memory := upd_item a clear_item m', hashmap := t, slab_managers := ss\<rparr>"
  have "remove_item a M = Some ?M"
    using r(1,2) x by (simp add: remove_item_def upd_stat_def)
  moreover have inv: "engine_inv ?M Ls' Fs' Us' C'"
    using r(3) by (simp add: engine_inv_def)
  moreover have gone: "item_gone M Us a ?M Us'"
    using r(4-8) x by (simp add: item_gone_def same_slabs_def upd_item_def)
  moreover have "content ?M = (content M)(key_of (memory M) a := None)"
    by (rule content_removed [OF assms(1) inv assms(2)]) (use gone in \<open>auto simp: item_gone_def\<close>)
  moreover have "links_gone M Us C a ?M Us' C'"
    using r(9-12) p by (auto simp: links_gone_def upd_item_def)
  ultimately show ?thesis
    by blast
qed

lemma remove_item_spec:
  assumes "engine_inv M Ls Fs Us C" and "a \<in> all_used (slab_managers M) Us"
  shows "\<exists>M' Ls' Fs' Us' C'. remove_item a M = Some M' \<and> engine_inv M' Ls' Fs' Us' C' \<and> item_gone M Us a M' Us'
    \<and> content M' = (content M)(key_of (memory M) a := None)"
  using remove_item_links [OF assms] by blast

end
