(* ===== verification/Mdb_Operations.thy ===== *)
theory Mdb_Operations
  imports Mdb_Content
begin

unbundle bit_operations_syntax

text \<open>
  What storing, reading and removing an entry do to the content of the storage engine. All three
  succeed on an engine whose invariant holds and keep the invariant.
\<close>

section \<open>Reading and removing\<close>

lemma engine_inv_stat [simp]: "engine_inv (M\<lparr>area_stat := st\<rparr>) = engine_inv M"
  by (simp add: engine_inv_def fun_eq_iff)

lemma content_stat [simp]: "content (M\<lparr>area_stat := st\<rparr>) = content M"
  by (auto simp: content_def fun_eq_iff split: option.splits)

lemma same_slabs_stat [simp]: "same_slabs (M\<lparr>area_stat := st\<rparr>) M' = same_slabs M M'" "same_slabs M (M'\<lparr>area_stat := st\<rparr>) = same_slabs M M'"
  by (simp_all add: same_slabs_def)

lemma set_area_quotas_stat: "set_area_quotas qs M = Some M' \<Longrightarrow> \<exists>st. M' = M\<lparr>area_stat := st\<rparr>"
proof (induction qs arbitrary: M)
  case Nil
  then show ?case
    by (intro exI [of _ "area_stat M"]) simp
next
  case (Cons q qs)
  then obtain st where "set_area_quotas qs (M\<lparr>area_stat := st\<rparr>) = Some M'"
    by (auto simp: set_area_quota_def upd_stat_def split: if_splits)
  then show ?case
    using Cons.IH by fastforce
qed

lemma upd_stat_Some: "ar < TAIR_MAX_AREA_COUNT \<Longrightarrow> \<exists>st. upd_stat ar f M = Some (M\<lparr>area_stat := st\<rparr>)"
  by (auto simp: upd_stat_def)

text \<open>An item of the table, or none, behind an entry of the content.\<close>

lemma engine_find:
  assumes "engine_inv M Ls Fs Us C" and "key \<noteq> []"
  obtains a where "a \<in> all_used (slab_managers M) Us" "key_of (memory M) a = key" "hash_find key (hashmap M) (memory M) = Some (Some a)"
    "content M key = Some (stored_in (items (memory M) a))"
  | "hash_find key (hashmap M) (memory M) = Some None" "content M key = None" "\<And>a. a \<in> all_used (slab_managers M) Us \<Longrightarrow> key_of (memory M) a \<noteq> key"
  using engine_invD(4) [OF assms(1)] assms(2)
proof (cases rule: hash_find_spec)
  case (1 a)
  then show ?thesis
    using that(1) [of a] engine_invD(5) [OF assms(1)] by (simp add: content_def)
next
  case 2
  then show ?thesis
    using that(2) engine_invD(5) [OF assms(1)] by (simp add: content_def)
qed

definition s_expired :: "32 word \<Rightarrow> stored \<Rightarrow> bool" where
  "s_expired now v \<longleftrightarrow> s_exptime v \<noteq> 0 \<and> s_exptime v < now"

lemma s_expired_item [simp]: "s_expired now (stored_in it) = item_expired now it"
  by (simp add: s_expired_def stored_in_def item_expired_def)

lemma remove_spec:
  assumes "engine_ok M" and "entry_data key \<noteq> []" and "unat (area key) < TAIR_MAX_AREA_COUNT"
  shows "\<exists>key' M'. do_remove key M = Some (if content M (entry_data key) = None then TAIR_RETURN_DATA_NOT_EXIST else 0, key', M')
    \<and> engine_ok M' \<and> same_slabs M M' \<and> content M' = (content M)(entry_data key := None)"
proof -
  let ?k = "entry_data key"
  obtain Ls Fs Us C where inv: "engine_inv M Ls Fs Us C"
    using assms(1) by (auto simp: engine_ok_def)
  obtain M1 where r: "remove_if_exists ?k M = Some (content M ?k \<noteq> None, M1)" "engine_ok M1" "same_slabs M M1" "content M1 = (content M)(?k := None)"
    using inv assms(2)
  proof (cases rule: engine_find)
    case (1 a)
    obtain M' Ls' Fs' Us' C' where "remove_item a M = Some M'" "engine_inv M' Ls' Fs' Us' C'" "item_gone M Us a M' Us'" "content M' = (content M)(?k := None)"
      using remove_item_spec [OF inv 1(1)] unfolding 1(2) by blast
    then show ?thesis
      using that [of M'] 1(3,4) by (auto simp: remove_if_exists_def engine_ok_def item_gone_def)
  next
    case 2
    then show ?thesis
      using that [of M] assms(1) by (simp add: remove_if_exists_def fun_upd_idem)
  qed
  obtain st where "upd_stat (unat (area key)) (\<lambda>st. st\<lparr>remove_count := remove_count st + 1\<rparr>) M1 = Some (M1\<lparr>area_stat := st\<rparr>)"
    using upd_stat_Some [OF assms(3)] by blast
  then show ?thesis
    using r by (auto simp: do_remove_def engine_ok_def entry_data_def)
qed

lemma key_area:
  assumes "item_ok it"
  shows "ITEM_AREA it = KEY_AREA (ITEM_KEY it)" "2 \<le> length (ITEM_KEY it)"
  using assms by (auto simp: item_ok_def ITEM_AREA_def KEY_AREA_def ITEM_KEY_def)

text \<open>What a successful read returns.\<close>

definition returned :: "stored \<Rightarrow> data_entry \<Rightarrow> bool" where
  "returned v e \<longleftrightarrow> entry_data e = s_data v \<and> esize e = int (length (s_data v)) \<and> version (data_meta e) = s_version v
     \<and> edate (data_meta e) = s_exptime v \<and> flag (data_meta e) = ucast (s_flags v)"

definition answered :: "stored option \<Rightarrow> data_entry \<Rightarrow> data_entry \<Rightarrow> data_entry \<Rightarrow> data_entry \<Rightarrow> bool" where
  "answered found key v key' v' \<longleftrightarrow> (case found of
     None \<Rightarrow> key' = key \<and> v' = v
   | Some w \<Rightarrow> returned w v' \<and> version (data_meta key') = s_version w \<and> flag (data_meta key') = ucast (s_flags w))"

lemma set_data_bytes:
  "entry_data (set_data (Some d) (int (length d)) True e) = d" "esize (set_data (Some d) (int (length d)) True e) = int (length d)"
  by (cases d; simp add: set_data_def free_data_def entry_data_def)+

lemma returned_read_value:
  assumes "item_ok it"
  shows "returned (stored_in it) (read_value it e)"
proof -
  have len: "unat (data_len it) = length (ITEM_DATA it)"
    using assms by (auto simp: ITEM_DATA_def item_ok_def)
  show ?thesis
    using set_data_bytes [of "ITEM_DATA it" e]
    unfolding returned_def read_value_def len by (simp add: set_back_def stored_in_def entry_data_def)
qed

lemma answered_item:
  assumes "item_ok it"
  shows "answered (Some (stored_in it)) key v (read_key it key) (read_value it v)"
  using returned_read_value [OF assms] by (simp add: answered_def read_key_def set_back_def stored_in_def)

text \<open>A read moves the item to the head of its list; the content stays.\<close>

lemma touch_item:
  assumes "engine_inv M Ls Fs Us C" and "a \<in> all_used (slab_managers M) Us"
  shows "\<exists>ss m Us'. cache_update_item a (slab_managers M, memory M) = Some (ss, m)
    \<and> engine_inv (M\<lparr>slab_managers := ss, memory := m\<rparr>) Ls Fs Us' C \<and> same_slabs M (M\<lparr>slab_managers := ss, memory := m\<rparr>)
    \<and> content (M\<lparr>slab_managers := ss, memory := m\<rparr>) = content M"
proof -
  note E = engine_invD [OF assms(1)]
  obtain i x where p: "at_place (slab_managers M) Us i x a"
    using at_placeE [OF assms(2)] .
  define Us' where "Us' = Us(i := moved (Us i) x x a)"
  obtain ss m where u: "cache_update_item a (slab_managers M, memory M) = Some (ss, m)" "length ss = length (slab_managers M)"
      "same_items (memory M) m" "cache_inv ss m Ls Fs Us'" "all_used ss Us' = all_used (slab_managers M) Us"
      "\<forall>j<length (slab_managers M). same_slab (slab_managers M ! j) (ss ! j)"
    using cache_update_item_spec [OF E(1,2) p] unfolding Us'_def by blast
  let ?M = "M\<lparr>slab_managers := ss, memory := m\<rparr>"
  have un: "unlinked (items m b) = unlinked (items (memory M) b)" for b
    using u(3) by (simp add: same_items_def)
  have bare: "bare (items m b) = bare (items (memory M) b)" for b
    by (rule bare_unlinked [OF un])
  have sz: "mp_page_size (pool m) = mp_page_size (pool (memory M))"
    using u(3) by (simp add: same_items_def)
  have "at_place (slab_managers M) Us j z b" if "at_place ss Us' j z b" for j z b
    using that u(2) p set_remove1_subset [of a "Us i x"]
    by (cases "j = i"; cases "z = x") (auto simp: Us'_def at_place_def moved_def Let_def)
  then have "cache_areas ss m Us'"
    unfolding cache_areas_iff using at_place_area [OF E(2)] bare_stored(3) [OF bare] by metis
  moreover have "free_slots ss m Ls Fs = free_slots (slab_managers M) (memory M) Ls Fs"
    by (rule free_slots_same [OF u(2,6) sz])
  then have "cache_clean ss m Ls Fs"
    using E(3) bare_fields(1,6) [OF bare] by (simp add: cache_clean_def clean_item_def)
  moreover have "table_inv (hashmap M) m C"
    by (rule table_frame [OF E(4) _ sz]) (use unlinked_fields(1,3,8) [OF un] in \<open>simp add: same_entry_def\<close>)
  ultimately have inv: "engine_inv ?M Ls Fs Us' C"
    using u(4,5) E(5,6) bare_stored(4) [OF bare] by (simp add: engine_inv_def)
  have "content ?M = content M"
    by (rule map_SomeI) (use content_iff [OF inv] content_iff [OF assms(1)] u(5) bare_stored(1,2) [OF bare] in simp)
  then show ?thesis
    using u(1,2,6) inv by (auto simp: same_slabs_def)
qed

definition get_result :: "32 word \<Rightarrow> stored option \<Rightarrow> int" where
  "get_result now found = (case found of
     None \<Rightarrow> TAIR_RETURN_DATA_NOT_EXIST
   | Some v \<Rightarrow> if s_expired now v then TAIR_RETURN_DATA_EXPIRED else 0)"

definition live :: "32 word \<Rightarrow> stored option \<Rightarrow> stored option" where
  "live now found = (case found of None \<Rightarrow> None | Some v \<Rightarrow> if s_expired now v then None else Some v)"

lemma get_spec:
  assumes "engine_ok M" and "2 \<le> length (entry_data key)" and "unat (area key) = KEY_AREA (entry_data key)" and "unat (area key) < TAIR_MAX_AREA_COUNT"
  shows "\<exists>key' value' M'. do_get now key value M = Some (get_result now (content M (entry_data key)), key', value', M')
    \<and> engine_ok M' \<and> same_slabs M M' \<and> content M' = (content M)(entry_data key := live now (content M (entry_data key)))
    \<and> answered (live now (content M (entry_data key))) key value key' value'"
proof -
  let ?k = "entry_data key"
  obtain Ls Fs Us C where inv: "engine_inv M Ls Fs Us C"
    using assms(1) by (auto simp: engine_ok_def)
  have k: "?k \<noteq> []"
    using assms(2) by auto
  have stat: "\<exists>st. upd_stat (unat (area key)) f M1 = Some (M1\<lparr>area_stat := st\<rparr>)" for f M1
    by (rule upd_stat_Some [OF assms(4)])
  show ?thesis
    using inv k
  proof (cases rule: engine_find)
    case (1 a)
    let ?it = "items (memory M) a"
    have ok: "item_ok ?it"
      using engine_invD(6) [OF inv 1(1)] .
    show ?thesis
    proof (cases "item_expired now ?it")
      case True
      obtain M' Ls' Fs' Us' C' where r: "remove_item a M = Some M'" "engine_inv M' Ls' Fs' Us' C'" "item_gone M Us a M' Us'" "content M' = (content M)(?k := None)"
        using remove_item_spec [OF inv 1(1)] unfolding 1(2) by blast
      obtain st where "upd_stat (unat (area key)) (\<lambda>st. st\<lparr>get_count := get_count st + 1\<rparr>) M' = Some (M'\<lparr>area_stat := st\<rparr>)"
        using stat by blast
      then have "do_get now key value M = Some (TAIR_RETURN_DATA_EXPIRED, key, value, M'\<lparr>area_stat := st\<rparr>)"
        using 1(3) r(1) True by (simp add: do_get_def remove_if_expired_def)
      then show ?thesis
        using r(2-4) 1(4) True by (auto simp: get_result_def live_def engine_ok_def item_gone_def answered_def)
    next
      case False
      obtain ss m Us' where u: "cache_update_item a (slab_managers M, memory M) = Some (ss, m)"
          "engine_inv (M\<lparr>slab_managers := ss, memory := m\<rparr>) Ls Fs Us' C" "same_slabs M (M\<lparr>slab_managers := ss, memory := m\<rparr>)"
          "content (M\<lparr>slab_managers := ss, memory := m\<rparr>) = content M"
        using touch_item [OF inv 1(1)] by blast
      let ?M = "M\<lparr>slab_managers := ss, memory := m\<rparr>"
      obtain st where st: "upd_stat (unat (area key)) (\<lambda>st. st\<lparr>hit_count := hit_count st + 1\<rparr>) ?M = Some (?M\<lparr>area_stat := st\<rparr>)"
        using stat by blast
      obtain st' where st': "upd_stat (unat (area key)) (\<lambda>st. st\<lparr>get_count := get_count st + 1\<rparr>) (?M\<lparr>area_stat := st\<rparr>) = Some (?M\<lparr>area_stat := st\<rparr>\<lparr>area_stat := st'\<rparr>)"
        using stat by blast
      have "unat (area key) = ITEM_AREA ?it"
        using key_area(1) [OF ok] 1(2) assms(3) by simp
      moreover have "area (read_key ?it key) = area key"
        by (simp add: read_key_def set_back_def)
      ultimately have "do_get now key value M = Some (0, read_key ?it key, read_value ?it value, ?M\<lparr>area_stat := st\<rparr>\<lparr>area_stat := st'\<rparr>)"
        using 1(3) u(1) False st st' by (simp add: do_get_def remove_if_expired_def Let_def)
      then show ?thesis
        using u(2-4) 1(4) False answered_item [OF ok]
        by (auto simp: get_result_def live_def engine_ok_def fun_upd_idem)
    qed
  next
    case 2
    obtain st where "upd_stat (unat (area key)) (\<lambda>st. st\<lparr>get_count := get_count st + 1\<rparr>) M = Some (M\<lparr>area_stat := st\<rparr>)"
      using stat by blast
    then have "do_get now key value M = Some (TAIR_RETURN_DATA_NOT_EXIST, key, value, M\<lparr>area_stat := st\<rparr>)"
      using 2(1) by (simp add: do_get_def remove_if_expired_def)
    then show ?thesis
      using 2(2) assms(1) by (auto simp: get_result_def live_def engine_ok_def fun_upd_idem answered_def)
  qed
qed

end
