(* ===== verification/Mdb_Put.thy ===== *)
theory Mdb_Put
  imports Mdb_Operations
begin

unbundle bit_operations_syntax

text \<open>
  What storing an entry does to the content of the storage engine: an old entry of the key goes, an
  item is allocated, an evicted item takes its entry with it, and the new entry is written and put
  into the table.
\<close>

section \<open>The old entry\<close>

definition conflict :: "32 word \<Rightarrow> bool \<Rightarrow> 16 word \<Rightarrow> stored option \<Rightarrow> bool" where
  "conflict now version_care kv found \<longleftrightarrow> version_care \<and> kv \<noteq> 0
     \<and> (case live now found of None \<Rightarrow> False | Some v \<Rightarrow> s_version v \<noteq> kv)"

text \<open>The version of the new entry.\<close>

definition put_version :: "32 word \<Rightarrow> bool \<Rightarrow> 16 word \<Rightarrow> stored option \<Rightarrow> 16 word" where
  "put_version now version_care kv found =
     (if version_care then (case live now found of None \<Rightarrow> 0 | Some v \<Rightarrow> s_version v) + 1 else kv)"

lemma replace_item_spec:
  assumes "engine_ok M" and "key \<noteq> []"
  shows "if conflict now vc kv (content M key) then replace_item now key kv vc M = Some (Inl TAIR_RETURN_VERSION_ERROR)
    else \<exists>old ver M'. replace_item now key kv vc M = Some (Inr (old, ver, M')) \<and> engine_ok M' \<and> same_slabs M M'
      \<and> content M' = (content M)(key := None) \<and> (if vc then ver + 1 else kv) = put_version now vc kv (content M key)
      \<and> (old = 0 \<or> old = TAIR_ITEM_FLAG_DELETED \<and> content M key \<noteq> None)"
proof -
  obtain Ls Fs Us C where inv: "engine_inv M Ls Fs Us C"
    using assms(1) by (auto simp: engine_ok_def)
  show ?thesis
    using inv assms(2)
  proof (cases rule: engine_find)
    case (1 a)
    let ?it = "items (memory M) a"
    obtain M' Ls' Fs' Us' C' where r: "remove_item a M = Some M'" "engine_inv M' Ls' Fs' Us' C'" "item_gone M Us a M' Us'" "content M' = (content M)(key := None)"
      using remove_item_spec [OF inv 1(1)] unfolding 1(2) by blast
    have M': "engine_ok M'" "same_slabs M M'"
      using r(2,3) by (auto simp: engine_ok_def item_gone_def)
    have "s_version (stored_in ?it) = i_version ?it"
      by (simp add: stored_in_def)
    then show ?thesis
      using 1(3,4) r(1,4) M' by (cases "item_expired now ?it") (simp_all add: replace_item_def conflict_def live_def put_version_def Let_def)
  next
    case 2
    then show ?thesis
      using assms(1) by (simp add: replace_item_def conflict_def live_def put_version_def fun_upd_idem)
  qed
qed

section \<open>An item for the new entry\<close>

text \<open>
  The engine with an item \<open>a\<close> in hand: it is in the list of area \<open>y\<close> but not in the table, and of
  the items that were in use before only \<open>a\<close> itself may be missing there.
\<close>

definition in_hand :: "mdb_manager \<Rightarrow> ghost \<Rightarrow> nat \<Rightarrow> nat \<Rightarrow> mdb_manager \<Rightarrow> ghost \<Rightarrow> ghost \<Rightarrow> ghost \<Rightarrow> (nat \<Rightarrow> nat list) \<Rightarrow> bool" where
  "in_hand M Us y a M' Ls' Fs' Us' C' \<longleftrightarrow> cache_inv (slab_managers M') (memory M') Ls' Fs' Us'
     \<and> cache_clean (slab_managers M') (memory M') Ls' Fs' \<and> table_inv (hashmap M') (memory M') C'
     \<and> members (hashmap M') C' = all_used (slab_managers M) Us - {a}
     \<and> all_used (slab_managers M') Us' = insert a (all_used (slab_managers M) Us - {a})
     \<and> (\<forall>b\<in>all_used (slab_managers M) Us - {a}. bare (items (memory M') b) = bare (items (memory M) b))
     \<and> (\<exists>i. at_place (slab_managers M') Us' i y a)
     \<and> (\<forall>j z b. at_place (slab_managers M') Us' j z b \<longrightarrow> b \<noteq> a \<longrightarrow> at_place (slab_managers M) Us j z b)
     \<and> ITEM_FLAGS (item_id (items (memory M') a)) = 0 \<and> same_slabs M M'"

text \<open>A free slot never had an expiry time set; an evicted item keeps the one it had.\<close>

definition old_expiry :: "mdb_manager \<Rightarrow> ghost \<Rightarrow> nat \<Rightarrow> mdb_manager \<Rightarrow> bool" where
  "old_expiry M Us a M' \<longleftrightarrow> exptime (items (memory M') a) = (if a \<in> all_used (slab_managers M) Us then exptime (items (memory M) a) else 0)"

lemma new_item_in_hand:
  assumes "engine_inv M Ls Fs Us C" and "fresh_alloc (slab_managers M) (memory M) Ls Fs Us i y a ss m Ls' Fs' Us'"
    and "cache_inv ss m Ls' Fs' Us'" and "mp_page_size (pool m) = mp_page_size (pool (memory M))" and "at_place ss Us' i y a"
    and "\<forall>j z b. at_place ss Us' j z b \<longrightarrow> b \<noteq> a \<longrightarrow> at_place (slab_managers M) Us j z b"
    and "same_slabs M (M\<lparr>slab_managers := ss, memory := m\<rparr>)"
  shows "in_hand M Us y a (M\<lparr>slab_managers := ss, memory := m\<rparr>) Ls' Fs' Us' C \<and> old_expiry M Us a (M\<lparr>slab_managers := ss, memory := m\<rparr>)"
proof -
  note E = engine_invD [OF assms(1)]
  have f: "a \<notin> all_used (slab_managers M) Us" "all_used ss Us' = insert a (all_used (slab_managers M) Us)"
      "\<And>b. b \<in> all_used (slab_managers M) Us \<Longrightarrow> unlinked (items m b) = unlinked (items (memory M) b)"
      "cache_clean ss m Ls' Fs'" "clean_item (items m a)"
    using assms(2) E(3) unfolding fresh_alloc_def by blast+
  have "table_inv (hashmap M) m C"
    by (rule table_frame [OF E(4) _ assms(4)]) (use unlinked_fields(1,3,8) [OF f(3)] E(5) in \<open>simp add: same_entry_def\<close>)
  then show ?thesis
    unfolding in_hand_def old_expiry_def using f assms(3,5-7) E(5) bare_unlinked [OF f(3)] by (auto simp: clean_item_def)
qed

lemma old_item_in_hand:
  assumes "engine_inv M Ls Fs Us C" and "reuse_alloc now exceed (slab_managers M) (memory M) Ls Fs Us i x y a ty ss m Ls' Fs' Us'"
    and "cache_inv ss m Ls' Fs' Us'" and "mp_page_size (pool m) = mp_page_size (pool (memory M))" and "at_place ss Us' i y a"
    and "\<forall>j z b. at_place ss Us' j z b \<longrightarrow> b \<noteq> a \<longrightarrow> at_place (slab_managers M) Us j z b"
    and "same_slabs M (M\<lparr>slab_managers := ss, memory := m\<rparr>)"
  shows "\<exists>t m' C'. hash_remove a (hashmap M, m) = Some (True, t, m')
    \<and> in_hand M Us y a (M\<lparr>slab_managers := ss, memory := m', hashmap := t\<rparr>) Ls' Fs' Us' C'
    \<and> old_expiry M Us a (M\<lparr>slab_managers := ss, memory := m', hashmap := t\<rparr>)"
proof -
  let ?A = "all_used (slab_managers M) Us"
  note E = engine_invD [OF assms(1)]
  have r: "Ls' = Ls" "Fs' = Fs" "at_place (slab_managers M) Us i x a" "all_used ss Us' = ?A"
      "\<And>b. b \<noteq> a \<Longrightarrow> unlinked (items m b) = unlinked (items (memory M) b)"
      "unlinked (items m a) = unlinked (items (memory M) a)\<lparr>item_id := CLEAR_FLAGS (item_id (items (memory M) a))\<rparr>"
    using assms(2) unfolding reuse_alloc_def by blast+
  have a: "a \<in> ?A"
    using at_place_used [OF r(3)] by blast
  have it: "unlinked (items m a) = unlinked ((items (memory M) a)\<lparr>item_id := CLEAR_FLAGS (item_id (items (memory M) a))\<rparr>)"
    using r(6) by (simp add: unlinked_def)
  have entry: "same_entry (items (memory M) b) (items m b)" for b
  proof (cases "b = a")
    case True
    then show ?thesis
      using unlinked_fields(1,3,8) [OF it] by (simp add: same_entry_def)
  next
    case False
    then show ?thesis
      using unlinked_fields(1,3,8) [OF r(5) [OF False]] by (simp add: same_entry_def)
  qed
  have "table_inv (hashmap M) m C"
    by (rule table_frame [OF E(4) entry assms(4)])
  note removed = hash_remove_spec [OF this _ refl, of a, unfolded E(5), OF a]
  obtain t m' C' where h: "hash_remove a (hashmap M, m) = Some (True, t, m')" "table_inv t m' C'" "members t C' = ?A - {a}"
      "pool m' = pool m" "pages m' = pages m" "\<forall>b. \<exists>w. items m' b = (items m b)\<lparr>h_next := w\<rparr>"
      "\<forall>b. b \<notin> ?A \<longrightarrow> items m' b = items m b"
    using removed by (elim exE conjE) (rule that)
  have bare: "bare (items m' b) = bare (items m b)" for b
    using h(6) by (metis bare_h_next)
  have "cache_inv ss m' Ls' Fs' Us'"
    by (rule cache_inv_h_next [OF assms(3)]) (use h(4-7) r(4) in auto)
  moreover have "cache_clean ss m' Ls' Fs'"
  proof -
    have "free_slots ss m' Ls Fs = free_slots (slab_managers M) (memory M) Ls Fs"
      by (rule free_slots_same) (use assms(4,7) h(4) in \<open>simp_all add: same_slabs_def\<close>)
    moreover have "clean_item (items m' b) = clean_item (items (memory M) b)" if "b \<notin> ?A" for b
    proof -
      have "b \<noteq> a"
        using that a by blast
      then show ?thesis
        using h(7) that clean_item_unlinked [OF r(5)] by simp
    qed
    ultimately show ?thesis
      using E(3) free_slots_unused [OF E(1)] unfolding cache_clean_def r(1,2) by blast
  qed
  moreover have "bare (items m' b) = bare (items (memory M) b)" if "b \<noteq> a" for b
    using bare bare_unlinked [OF r(5) [OF that]] by simp
  moreover have "ITEM_FLAGS (item_id (items m' a)) = 0" "exptime (items m' a) = exptime (items (memory M) a)"
    using bare_fields(1,6) [OF bare [of a]] unlinked_fields(2,7) [OF it] CLEAR_FLAGS_flags by simp_all
  ultimately show ?thesis
    unfolding in_hand_def old_expiry_def using h(1-3) a r(4) assms(5-7)
    by (intro exI [of _ t] exI [of _ m'] exI [of _ C']) (auto simp: same_slabs_def insert_absorb)
qed

lemma used_idata:
  assumes "cache_inv ss m Ls Fs Us" and "at_place ss Us i x a"
  shows "length (idata (items m a)) = slab_size (ss ! i) - sizeof_mdb_item"
proof -
  have i: "i < length ss"
    using assms(2) by (simp add: at_place_def)
  have core: "slab_core (ss ! i) m (Ls i) (Fs i) (Us i) {} {}"
    using cache_invD(1) [OF assms(1) i] by (simp add: slab_inv_def)
  have "a \<in> used (Us i) \<union> {}"
    using at_place_used [OF assms(2)] by simp
  then obtain p k where "p \<in> own_pages ss Ls i" "k < per_slab (ss ! i)" "a = slot_addr (ss ! i) m p k"
    using slab_core_slot [OF core] by blast
  then show ?thesis
    using slab_core_page [OF core, of p] by (simp add: page_ok_def slot_ok_def)
qed

lemma take_item:
  assumes "engine_inv M Ls Fs Us C" and "get_slabmng sz (slab_managers M) = Some i" and "y < TAIR_MAX_AREA_COUNT"
  shows "\<exists>a ty ss m M' Ls' Fs' Us' C'. cache_alloc_item now exceed sz y (slab_managers M, memory M) = Some (Some (a, ty), ss, m)
    \<and> drop_evicted a ty (M\<lparr>slab_managers := ss, memory := m\<rparr>) = Some M' \<and> in_hand M Us y a M' Ls' Fs' Us' C'
    \<and> old_expiry M Us a M' \<and> sz \<le> sizeof_mdb_item + length (idata (items (memory M') a))"
proof -
  note E = engine_invD [OF assms(1)]
  obtain a ty ss m Ls' Fs' Us' where al: "cache_alloc_item now exceed sz y (slab_managers M, memory M) = Some (Some (a, ty), ss, m)"
      "length ss = length (slab_managers M)" "\<forall>j<length (slab_managers M). same_slab (slab_managers M ! j) (ss ! j)"
      "cache_inv ss m Ls' Fs' Us'" "mp_page_size (pool m) = mp_page_size (pool (memory M))" "at_place ss Us' i y a"
      "\<forall>j z b. at_place ss Us' j z b \<longrightarrow> b \<noteq> a \<longrightarrow> at_place (slab_managers M) Us j z b"
      "ty = ALLOC_NEW \<and> fresh_alloc (slab_managers M) (memory M) Ls Fs Us i y a ss m Ls' Fs' Us'
       \<or> (\<exists>x. reuse_alloc now exceed (slab_managers M) (memory M) Ls Fs Us i x y a ty ss m Ls' Fs' Us')"
    using cache_alloc_item_spec [OF E(1,2) assms(2,3), of now exceed] by (elim exE conjE) (rule that)
  let ?M = "M\<lparr>slab_managers := ss, memory := m\<rparr>"
  have same: "same_slabs M ?M"
    using al(2,3) by (simp add: same_slabs_def)
  have "sz \<le> slab_size (ss ! i)" "i < length ss"
    using get_slabmng_Some [OF assms(2)] al(2,3) by (simp_all add: same_slab_def)
  then have fits: "sz \<le> sizeof_mdb_item + length (idata (items m' a))" if "cache_inv ss m' Ls' Fs' Us'" for m'
    using used_idata [OF that al(6)] by simp
  from al(8) show ?thesis
  proof (elim disjE conjE exE)
    assume new: "ty = ALLOC_NEW" "fresh_alloc (slab_managers M) (memory M) Ls Fs Us i y a ss m Ls' Fs' Us'"
    have "in_hand M Us y a ?M Ls' Fs' Us' C" "old_expiry M Us a ?M"
      using new_item_in_hand [OF assms(1) new(2) al(4-7) same] by simp_all
    then show ?thesis
      using al(1) fits [OF al(4)] new(1)
      by (intro exI [of _ a] exI [of _ ty] exI [of _ ss] exI [of _ m] exI [of _ ?M] exI [of _ Ls'] exI [of _ Fs'] exI [of _ Us'] exI [of _ C])
        (simp add: drop_evicted_def)
  next
    fix x assume old: "reuse_alloc now exceed (slab_managers M) (memory M) Ls Fs Us i x y a ty ss m Ls' Fs' Us'"
    obtain t m' C' where h: "hash_remove a (hashmap M, m) = Some (True, t, m')"
        "in_hand M Us y a (M\<lparr>slab_managers := ss, memory := m', hashmap := t\<rparr>) Ls' Fs' Us' C'"
        "old_expiry M Us a (M\<lparr>slab_managers := ss, memory := m', hashmap := t\<rparr>)"
      using old_item_in_hand [OF assms(1) old al(4-7) same] by (elim exE conjE) (rule that)
    have ty: "ty \<noteq> ALLOC_NEW" and place: "at_place (slab_managers M) Us i x a"
        and it: "unlinked (items m a) = unlinked ((items (memory M) a)\<lparr>item_id := CLEAR_FLAGS (item_id (items (memory M) a))\<rparr>)"
      using old by (auto simp: reuse_alloc_def evicted_def unlinked_def)
    have "ITEM_AREA (items m a) = x" "x < TAIR_MAX_AREA_COUNT"
      using at_place_area [OF E(2) place] unlinked_fields(8) [OF it] place by (simp_all add: ITEM_AREA_def at_place_def)
    then obtain st where st: "upd_stat (ITEM_AREA (items m a)) (evict_stat ty (items m a)) ?M = Some (?M\<lparr>area_stat := st\<rparr>)"
      using upd_stat_Some by blast
    let ?M' = "M\<lparr>slab_managers := ss, memory := m', hashmap := t, area_stat := st\<rparr>"
    have "drop_evicted a ty ?M = Some ?M'"
      using ty st h(1) by (simp add: drop_evicted_def)
    moreover have "in_hand M Us y a ?M' Ls' Fs' Us' C'" "old_expiry M Us a ?M'"
      using h(2,3) by (simp_all add: in_hand_def old_expiry_def same_slabs_def)
    moreover have "sz \<le> sizeof_mdb_item + length (idata (items m' a))"
      using fits [of m'] h(2) by (simp add: in_hand_def)
    ultimately show ?thesis
      using al(1)
      by (intro exI [of _ a] exI [of _ ty] exI [of _ ss] exI [of _ m] exI [of _ ?M'] exI [of _ Ls'] exI [of _ Fs'] exI [of _ Us'] exI [of _ C']) simp
  qed
qed

section \<open>Writing the new entry\<close>

text \<open>An entry the engine can hold: a key with an area, of less than 4096 bytes, and less than \<open>2 ^ 20\<close> bytes of data.\<close>

definition storable :: "data_entry \<Rightarrow> data_entry \<Rightarrow> bool" where
  "storable key d \<longleftrightarrow> esize key = int (length (entry_data key)) \<and> esize d = int (length (entry_data d))
     \<and> 2 \<le> length (entry_data key) \<and> length (entry_data key) < 2 ^ 12 \<and> length (entry_data d) < 2 ^ 20
     \<and> KEY_AREA (entry_data key) < TAIR_MAX_AREA_COUNT"

lemma storable_key: "storable key d \<Longrightarrow> 2 \<le> length (entry_data key)"
  by (simp add: storable_def)

lemma write_item_spec:
  assumes "storable key d" and "length (entry_data key) + length (entry_data d) \<le> length (idata it)" and "ITEM_FLAGS (item_id it) = 0"
    and "it' = write_item now key d ver old ex it"
  shows "rewritten it it'" "item_ok it'" "ITEM_KEY it' = entry_data key" "h_next it' = h_next it"
    "stored_in it' = \<lparr>s_data = entry_data d, s_version = ver, s_exptime = (if ex > 0 then expire_at now ex else exptime it),
       s_flags = ucast (flag (data_meta d) OR old) AND 0xF, s_time = now\<rparr>"
proof -
  let ?k = "entry_data key" and ?d = "entry_data d"
  have kl: "unat (of_int (esize key) :: 12 word) = length ?k" and dl: "unat (of_int (esize d) :: 20 word) = length ?d"
    using assms(1) by (simp_all add: storable_def unsigned_of_nat take_bit_nat_eq_self)
  have data: "take (length ?k) (?k @ drop (length ?k) (idata it)) @ ?d @ drop (length ?k + length ?d) (?k @ drop (length ?k) (idata it))
      = ?k @ ?d @ drop (length ?k + length ?d) (idata it)"
    by (simp add: add.commute)
  have it': "it' = it\<lparr>key_len := of_int (esize key), data_len := of_int (esize d), update_time := now, i_version := ver,
      exptime := (if ex > 0 then expire_at now ex else exptime it),
      item_id := SET_ITEM_FLAGS (item_id it) (ucast (flag (data_meta d) OR old)),
      idata := ?k @ ?d @ drop (length ?k + length ?d) (idata it)\<rparr>"
    unfolding assms(4) write_item_def using data by (simp add: Let_def kl dl)
  show "rewritten it it'" "h_next it' = h_next it"
    using assms(2) by (simp_all add: it' rewritten_def)
  show "ITEM_KEY it' = ?k"
    by (simp add: it' ITEM_KEY_def kl)
  show "item_ok it'"
    using assms(2) storable_key [OF assms(1)] by (simp add: it' item_ok_def kl dl)
  show "stored_in it' = \<lparr>s_data = ?d, s_version = ver, s_exptime = (if ex > 0 then expire_at now ex else exptime it),
       s_flags = ucast (flag (data_meta d) OR old) AND 0xF, s_time = now\<rparr>"
    by (simp add: stored_in_def it' ITEM_DATA_def kl dl SET_ITEM_FLAGS_flags [OF assms(3)])
qed

definition content_without :: "mdb_manager \<Rightarrow> ghost \<Rightarrow> nat \<Rightarrow> bytes \<Rightarrow> stored option" where
  "content_without M Us a = (if a \<in> all_used (slab_managers M) Us then (content M)(key_of (memory M) a := None) else content M)"

lemma content_without_iff:
  assumes "engine_inv M Ls Fs Us C"
  shows "content_without M Us a k = Some v \<longleftrightarrow>
    (\<exists>b\<in>all_used (slab_managers M) Us - {a}. key_of (memory M) b = k \<and> stored_in (items (memory M) b) = v)"
proof (cases "a \<in> all_used (slab_managers M) Us")
  case True
  have "key_of (memory M) b \<noteq> key_of (memory M) a" if "b \<in> all_used (slab_managers M) Us - {a}" for b
    using table_key [OF engine_invD(4) [OF assms]] engine_invD(5) [OF assms] True that by auto
  then show ?thesis
    using True content_iff [OF assms, of k v] by (auto simp: content_without_def)
next
  case False
  then show ?thesis
    using content_iff [OF assms, of k v] by (auto simp: content_without_def)
qed

lemma insert_written:
  assumes "engine_inv M Ls Fs Us C" and "in_hand M Us y a M' Ls' Fs' Us' C'" and "content_without M Us a k = None"
    and it: "rewritten (items (memory M') a) it" "item_ok it" "ITEM_KEY it = k" "KEY_AREA k = y"
    and "hash_insert a (hashmap M', upd_item a (\<lambda>_. it) (memory M')) = (t, m)"
  shows "\<exists>C''. engine_inv (M'\<lparr>hashmap := t, memory := m\<rparr>) Ls' Fs' Us' C'' \<and> bare (items m a) = bare it
    \<and> content (M'\<lparr>hashmap := t, memory := m\<rparr>) = (content_without M Us a)(k \<mapsto> stored_in it)"
proof -
  let ?A = "all_used (slab_managers M) Us - {a}" and ?m = "upd_item a (\<lambda>_. it) (memory M')" and ?ss = "slab_managers M'"
  have H: "cache_inv ?ss (memory M') Ls' Fs' Us'" "cache_clean ?ss (memory M') Ls' Fs'" "table_inv (hashmap M') (memory M') C'"
      "members (hashmap M') C' = ?A" "all_used ?ss Us' = insert a ?A"
      "\<And>b. b \<in> ?A \<Longrightarrow> bare (items (memory M') b) = bare (items (memory M) b)"
      "\<And>j z b. at_place ?ss Us' j z b \<Longrightarrow> b \<noteq> a \<Longrightarrow> at_place (slab_managers M) Us j z b"
    using assms(2) unfolding in_hand_def by blast+
  obtain i where i: "at_place ?ss Us' i y a"
    using assms(2) unfolding in_hand_def by blast
  note E = engine_invD [OF assms(1)]
  have m: "items ?m a = it" "\<And>b. b \<noteq> a \<Longrightarrow> items ?m b = items (memory M') b" "pool ?m = pool (memory M')"
    by (simp_all add: upd_item_def)
  have inv: "cache_inv ?ss ?m Ls' Fs' Us'"
    by (rule cache_inv_upd_item [OF H(1)]) (use it(1) H(5) in auto)
  have tab: "table_inv (hashmap M') ?m C'"
    by (rule table_frame [OF H(3)]) (use m H(4) in \<open>auto simp: same_entry_def\<close>)
  have keys: "key_of ?m b = key_of (memory M) b" if "b \<in> ?A" for b
    using bare_stored(2) [OF H(6) [OF that]] that m(2) by simp
  have new: "key_of ?m b \<noteq> key_of ?m a" if "b \<in> members (hashmap M') C'" for b
    using content_without_iff [OF assms(1), of a k] assms(3) keys that H(4) m(1) it(3) by auto
  have id: "id_to_item ?m (item_id (items ?m a)) = Some a"
    using used_slab_id(2) [OF inv, of i a] i at_place_used [OF i] by (simp add: at_place_def)
  have sound: "sound_key (items ?m a)"
    using it(2) m(1) by (auto simp: sound_key_def item_ok_def word_less_nat_alt)
  define j where "j = get_bucket_index (hashmap M') (key_of ?m a)"
  have out: "a \<notin> members (hashmap M') C'"
    using H(4) by simp
  note ins = hash_insert_spec [OF tab out sound new id j_def assms(8)]
  have bare_a: "bare (items m a) = bare it" and bare_b: "\<And>b. b \<noteq> a \<Longrightarrow> items m b = items (memory M') b"
    using ins(3) m by (simp_all add: upd_item_def)
  have same: "mp_page_size (pool m) = mp_page_size (pool (memory M'))"
    using ins(3) by (simp add: upd_item_def)
  let ?M = "M'\<lparr>hashmap := t, memory := m\<rparr>"
  have inv': "engine_inv ?M Ls' Fs' Us' (C'(j := a # C' j))"
    unfolding engine_inv_def
  proof (intro conjI)
    show "cache_inv (slab_managers ?M) (memory ?M) Ls' Fs' Us'"
      using cache_inv_upd_item [OF inv, of a] H(5) ins(3) by (simp add: rewritten_def)
    show "cache_clean (slab_managers ?M) (memory ?M) Ls' Fs'"
      using cache_clean_cong [OF H(1,2), of m] same bare_b H(5) by auto
    show "cache_areas (slab_managers ?M) (memory ?M) Us'"
      unfolding cache_areas_iff
    proof (intro allI impI)
      fix l z b assume b: "at_place (slab_managers ?M) Us' l z b"
      show "ITEM_AREA (items (memory ?M) b) = z"
      proof (cases "b = a")
        case True
        then have "z = y"
          using at_place_unique [OF H(1), of l z a i y] b i by simp
        then show ?thesis
          using True key_area(1) [OF it(2)] it(3,4) bare_stored(3) [OF bare_a] by simp
      next
        case False
        then have old: "at_place (slab_managers M) Us l z b" "b \<in> ?A"
          using H(5,7) at_place_used b by auto
        then show ?thesis
          using at_place_area [OF E(2) old(1)] bare_stored(3) [OF H(6) [OF old(2)]] bare_b [OF False] by simp
      qed
    qed
    show "table_inv (hashmap ?M) (memory ?M) (C'(j := a # C' j))"
      using ins(1) by simp
    show "members (hashmap ?M) (C'(j := a # C' j)) = all_used (slab_managers ?M) Us'"
      using ins(2) H(4,5) by simp
    show "\<forall>b\<in>all_used (slab_managers ?M) Us'. item_ok (items (memory ?M) b)"
    proof
      fix b assume "b \<in> all_used (slab_managers ?M) Us'"
      then show "item_ok (items (memory ?M) b)"
        using H(5) it(2) bare_stored(4) [OF bare_a] E(6) [of b] bare_stored(4) [OF H(6), of b] bare_b [of b] by (cases "b = a") auto
    qed
  qed
  have "content ?M = (content_without M Us a)(key_of (memory ?M) a \<mapsto> stored_in (items (memory ?M) a))"
    by (rule content_added [OF inv' _ _ content_without_iff [OF assms(1)]]) (use H(5,6) bare_b in auto)
  then show ?thesis
    using inv' bare_a bare_stored(1,2) [OF bare_a] it(3) by auto
qed

section \<open>Storing an entry\<close>

text \<open>The new entry; \<open>old\<close> is the flag an old entry of the key leaves behind.\<close>

definition put_entry :: "32 word \<Rightarrow> data_entry \<Rightarrow> data_entry \<Rightarrow> bool \<Rightarrow> int \<Rightarrow> stored option \<Rightarrow> 8 word \<Rightarrow> 32 word \<Rightarrow> stored" where
  "put_entry now key d vc ex found old et = \<lparr>s_data = entry_data d, s_version = put_version now vc (version (data_meta key)) found,
     s_exptime = (if ex > 0 then expire_at now ex else et), s_flags = ucast (flag (data_meta d) OR old) AND 0xF, s_time = now\<rparr>"

text \<open>Either nothing else goes, or one evicted entry does, whose expiry time the new entry inherits.\<close>

definition put_effect :: "mdb_manager \<Rightarrow> bytes \<Rightarrow> (32 word \<Rightarrow> stored) \<Rightarrow> mdb_manager \<Rightarrow> bool" where
  "put_effect M k v M' \<longleftrightarrow> content M' = (content M)(k \<mapsto> v 0)
     \<or> (\<exists>k1 w. k1 \<noteq> k \<and> content M k1 = Some w \<and> content M' = (content M)(k1 := None, k \<mapsto> v (s_exptime w)))"

lemma get_slabmng_sizes: "map slab_size ss' = map slab_size ss \<Longrightarrow> get_slabmng sz ss' = get_slabmng sz ss"
proof (induction ss arbitrary: ss')
  case (Cons s ss)
  then obtain u us where "ss' = u # us" "slab_size u = slab_size s" "map slab_size us = map slab_size ss"
    by (cases ss') auto
  moreover from this(3) have "get_slabmng sz us = get_slabmng sz ss"
    by (rule Cons.IH)
  ultimately show ?case
    by simp
qed simp

lemma same_slabs_slabmng: "same_slabs M M' \<Longrightarrow> get_slabmng sz (slab_managers M') = get_slabmng sz (slab_managers M)"
  by (rule get_slabmng_sizes) (simp add: list_eq_iff_nth_eq same_slabs_def same_slab_def)

lemma store_entry:
  assumes "engine_inv M Ls Fs Us C" and "storable key d" and "content M (entry_data key) = None"
    and "in_hand M Us (KEY_AREA (entry_data key)) a M2 Ls' Fs' Us' C'" and "old_expiry M Us a M2"
    and "length (entry_data key) + length (entry_data d) \<le> length (idata (items (memory M2) a))"
    and "it = write_item now key d ver old ex (items (memory M2) a)"
    and "hash_insert a (hashmap M2, upd_item a (write_item now key d ver old ex) (memory M2)) = (t, m)"
    and "v = (\<lambda>et. \<lparr>s_data = entry_data d, s_version = ver, s_exptime = (if ex > 0 then expire_at now ex else et),
       s_flags = ucast (flag (data_meta d) OR old) AND 0xF, s_time = now\<rparr>)"
  shows "\<exists>M'. upd_stat (ITEM_AREA (items m a)) (put_stat (items m a)) (M2\<lparr>hashmap := t, memory := m\<rparr>) = Some M' \<and> engine_ok M'
    \<and> same_slabs M M' \<and> put_effect M (entry_data key) v M'"
proof -
  let ?k = "entry_data key" and ?M = "M2\<lparr>hashmap := t, memory := m\<rparr>"
  have flags: "ITEM_FLAGS (item_id (items (memory M2) a)) = 0"
    using assms(4) by (simp add: in_hand_def)
  note w = write_item_spec [OF assms(2,6) flags assms(7)]
  have free: "content_without M Us a ?k = None"
    using assms(3) by (simp add: content_without_def)
  have ins: "hash_insert a (hashmap M2, upd_item a (\<lambda>_. it) (memory M2)) = (t, m)"
    using assms(7,8) by (simp add: upd_item_def)
  obtain C'' where r: "engine_inv ?M Ls' Fs' Us' C''" "bare (items m a) = bare it" "content ?M = (content_without M Us a)(?k \<mapsto> stored_in it)"
    using insert_written [OF assms(1,4) free w(1-3) refl ins] by blast
  have "ITEM_AREA (items m a) < TAIR_MAX_AREA_COUNT"
    using bare_stored(3) [OF r(2)] key_area(1) [OF w(2)] w(3) assms(2) by (simp add: storable_def)
  then obtain st where st: "upd_stat (ITEM_AREA (items m a)) (put_stat (items m a)) ?M = Some (?M\<lparr>area_stat := st\<rparr>)"
    using upd_stat_Some by blast
  have "put_effect M ?k v (?M\<lparr>area_stat := st\<rparr>)"
  proof (cases "a \<in> all_used (slab_managers M) Us")
    case True
    let ?k1 = "key_of (memory M) a"
    have k1: "content M ?k1 = Some (stored_in (items (memory M) a))"
      by (rule content_used [OF assms(1) True])
    moreover have "stored_in it = v (s_exptime (stored_in (items (memory M) a)))"
      using w(5) assms(5,9) True by (simp add: old_expiry_def stored_in_def)
    moreover have "?k1 \<noteq> ?k"
      using k1 assms(3) by auto
    ultimately show ?thesis
      unfolding put_effect_def content_stat using r(3) True
      by (intro disjI2 exI [of _ ?k1] exI [of _ "stored_in (items (memory M) a)"]) (simp add: content_without_def)
  next
    case False
    then show ?thesis
      using r(3) w(5) assms(5,9) by (simp add: put_effect_def content_without_def old_expiry_def)
  qed
  moreover have "same_slabs M ?M"
    using assms(4) by (simp add: in_hand_def same_slabs_def)
  ultimately show ?thesis
    using st r(1) by (auto simp: engine_ok_def)
qed

lemma put_spec:
  assumes "engine_ok M" and "storable key d"
    and "get_slabmng (length (entry_data key) + length (entry_data d) + sizeof_mdb_item) (slab_managers M) = Some i"
  shows "if conflict now vc (version (data_meta key)) (content M (entry_data key))
    then \<exists>key'. do_put now key d vc ex M = Some (TAIR_RETURN_VERSION_ERROR, key', M)
    else \<exists>key' M' old. do_put now key d vc ex M = Some (0, key', M') \<and> engine_ok M' \<and> same_slabs M M'
      \<and> (old = 0 \<or> old = TAIR_ITEM_FLAG_DELETED \<and> content M (entry_data key) \<noteq> None)
      \<and> put_effect M (entry_data key) (put_entry now key d vc ex (content M (entry_data key)) old) M'"
proof -
  let ?k = "entry_data key" and ?kv = "version (data_meta key)" and ?ex = "if ex < 0 then 0 else ex"
  let ?key = "key\<lparr>area := of_nat (KEY_AREA ?k)\<rparr>"
  have k: "?k \<noteq> []" "\<not> length ?k < 2" "KEY_AREA ?k < TAIR_MAX_AREA_COUNT"
    using assms(2) by (auto simp: storable_def)
  have sz: "nat (esize key + esize d + int sizeof_mdb_item) = length ?k + length (entry_data d) + sizeof_mdb_item"
    using assms(2) by (simp add: storable_def)
  note replaced = replace_item_spec [OF assms(1) k(1), of now vc ?kv]
  show ?thesis
  proof (cases "conflict now vc ?kv (content M ?k)")
    case True
    then have "replace_item now ?k ?kv vc M = Some (Inl TAIR_RETURN_VERSION_ERROR)"
      using replaced by simp
    then have "do_put now key d vc ex M = Some (TAIR_RETURN_VERSION_ERROR, ?key, M)"
      using k(2) by (simp add: do_put_def Let_def)
    then show ?thesis
      using True by simp
  next
    case False
    then obtain old ver M1 where r: "replace_item now ?k ?kv vc M = Some (Inr (old, ver, M1))" "engine_ok M1" "same_slabs M M1"
        "content M1 = (content M)(?k := None)" "(if vc then ver + 1 else ?kv) = put_version now vc ?kv (content M ?k)"
        "old = 0 \<or> old = TAIR_ITEM_FLAG_DELETED \<and> content M ?k \<noteq> None"
      using replaced by auto
    obtain Ls Fs Us C where inv: "engine_inv M1 Ls Fs Us C"
      using r(2) by (auto simp: engine_ok_def)
    have g: "get_slabmng (length ?k + length (entry_data d) + sizeof_mdb_item) (slab_managers M1) = Some i"
      using assms(3) same_slabs_slabmng [OF r(3)] by simp
    let ?v = "put_entry now key d vc ex (content M ?k) old"
    obtain a ty ss m M2 Ls' Fs' Us' C' where t: "cache_alloc_item now (is_quota_exceed (KEY_AREA ?k) M1)
          (length ?k + length (entry_data d) + sizeof_mdb_item) (KEY_AREA ?k) (slab_managers M1, memory M1) = Some (Some (a, ty), ss, m)"
        "drop_evicted a ty (M1\<lparr>slab_managers := ss, memory := m\<rparr>) = Some M2" "in_hand M1 Us (KEY_AREA ?k) a M2 Ls' Fs' Us' C'"
        "old_expiry M1 Us a M2" "length ?k + length (entry_data d) + sizeof_mdb_item \<le> sizeof_mdb_item + length (idata (items (memory M2) a))"
      using take_item [OF inv g k(3), of now "is_quota_exceed (KEY_AREA ?k) M1"] by (elim exE conjE) (rule that)
    let ?it = "write_item now ?key d (if vc then ver + 1 else ?kv) old ?ex (items (memory M2) a)"
    obtain u m' where ins: "hash_insert a (hashmap M2, upd_item a (write_item now ?key d (if vc then ver + 1 else ?kv) old ?ex) (memory M2)) = (u, m')"
      by fastforce
    have area: "entry_data ?key = ?k" "storable ?key d" "version (data_meta ?key) = ?kv"
      using assms(2) by (simp_all add: storable_def entry_data_def)
    have c: "content M1 (entry_data ?key) = None"
      using r(4) area(1) by simp
    have fits: "length (entry_data ?key) + length (entry_data d) \<le> length (idata (items (memory M2) a))"
      using t(5) area(1) by simp
    have ex: "(\<lambda>et. \<lparr>s_data = entry_data d, s_version = (if vc then ver + 1 else ?kv), s_exptime = (if ?ex > 0 then expire_at now ?ex else et),
        s_flags = ucast (flag (data_meta d) OR old) AND 0xF, s_time = now\<rparr>) = ?v"
      using r(5) by (auto simp: put_entry_def fun_eq_iff)
    obtain M' where f: "upd_stat (ITEM_AREA (items m' a)) (put_stat (items m' a)) (M2\<lparr>hashmap := u, memory := m'\<rparr>) = Some M'" "engine_ok M'"
        "same_slabs M1 M'" "put_effect M1 ?k ?v M'"
      using store_entry [OF inv area(2) c _ t(4) fits refl ins refl, unfolded area(1) ex, OF t(3)] by (elim exE conjE) (rule that)
    have "\<exists>key'. do_put now key d vc ex M = Some (0, key', M')"
      unfolding do_put_def Let_def sz area(3) using k(2) r(1) t(1,2) ins f(1) by (simp split del: if_split)
    moreover have "put_effect M ?k ?v M'"
      using f(4) r(4) unfolding put_effect_def by (auto simp: fun_upd_twist)
    ultimately show ?thesis
      using False r(6) f(2) same_slabs_trans [OF r(3) f(3)] by auto
  qed
qed

end
