(* ===== verification/Mdb_Init.thy ===== *)
theory Mdb_Init
  imports Mdb_Put
begin

unbundle bit_operations_syntax

text \<open>
  The start of the storage engine on fresh memory (\<open>mdb_manager::initialize\<close>,
  \<open>mem_cache::initialize\<close> and \<open>slab_initialize\<close>): the pool, the hash table and one slab per size. The
  growth of the slab sizes, a multiplication by a floating-point factor, is the parameter \<open>enlarge\<close>. The
  lemmas show that an engine that has started satisfies the invariant and is empty.
\<close>

section \<open>Model\<close>

definition ALIGN :: "nat \<Rightarrow> nat" where
  "ALIGN x = (x + 7) div 8 * 8"

definition new_slab :: "nat \<Rightarrow> nat \<Rightarrow> nat \<Rightarrow> slab_manager" where
  "new_slab i start page_size = \<lparr>slab_id = i, slab_size = start, per_slab = (page_size - sizeof_page_info) div start,
     item_head = \<lambda>_. 0, item_tail = \<lambda>_. 0, item_count = \<lambda>_. 0, evict_count = \<lambda>_. 0, item_total_count = 0, evict_total_count = 0,
     full_pages_no = 0, partial_pages_no = 0, free_pages_no = 0, evict_index = 0, free_pages = 0, full_pages = 0,
     partial_pages = \<lambda>_. 0\<rparr>"

text \<open>The loop over the slabs; the first argument counts the slabs that may still come.\<close>

primrec slab_loop :: "nat \<Rightarrow> (nat \<Rightarrow> nat) \<Rightarrow> nat \<Rightarrow> nat \<Rightarrow> slab_manager list \<times> mdb_mem \<Rightarrow> (slab_manager list \<times> mdb_mem) option" where
  "slab_loop 0 enlarge i start cm = Some cm"
| "slab_loop (Suc n) enlarge i start cm = (case cm of (ss, m) \<Rightarrow>
     (let last_size = mp_page_size (pool m) - sizeof_page_info
      in if start \<le> last_size then
           let start = (if start > last_size div 2 then last_size else start)
           in do {
             (got, s, m) \<leftarrow> pre_alloc 1 (new_slab i start (mp_page_size (pool m)), m);
             slab_loop n enlarge (i + 1) (ALIGN (enlarge start)) (ss @ [s], m) }
         else Some (ss, m)))"

text \<open>The headers of the slabs, laid out for 64-bit pointers, must fit into the area reserved for them.\<close>

definition TAIR_SLAB_LARGEST :: nat where
  "TAIR_SLAB_LARGEST = 100"

definition sizeof_slab_manager :: nat where
  "sizeof_slab_manager = 2 * 8 + 4 * 4 + TAIR_MAX_AREA_COUNT * (16 + 8 + 8) + 2 * 8 + 4 * 4 + 2 * 4 + 8"

definition MEMCACHE_META_LEN :: nat where
  "MEMCACHE_META_LEN = sizeof_slab_manager * TAIR_SLAB_LARGEST"

definition slab_headers :: "slab_manager list \<Rightarrow> nat" where
  "slab_headers ss = sum_list (map (\<lambda>s. sizeof_slab_manager + partial_pages_bucket_no s * 4) ss)"

definition slab_initialize :: "(nat \<Rightarrow> nat) \<Rightarrow> nat \<Rightarrow> nat \<Rightarrow> mdb_mem \<Rightarrow> (slab_manager list \<times> mdb_mem) option" where
  "slab_initialize enlarge max_slab_id base_size m =
     (let base_size = (if base_size < sizeof_mdb_item + 16 then ALIGN (sizeof_mdb_item + 16) else base_size)
      in if base_size < mp_page_size (pool m) then do {
           (ss, m) \<leftarrow> slab_loop max_slab_id enlarge 0 base_size ([], m);
           (if slab_headers ss < MEMCACHE_META_LEN then Some (ss, m) else None) }
         else None)"

definition zero_pool :: mem_pool where
  "zero_pool = \<lparr>mp_inited = 0, mp_page_size = 0, mp_total_pages = 0, mp_free_pages = 0, mp_current_page = 0, mp_page_bitmap = \<lambda>_. 0\<rparr>"

definition zero_stat :: mdb_area_stat where
  "zero_stat = \<lparr>quota = 0, data_size = 0, space_usage = 0, st_item_count = 0, hit_count = 0, get_count = 0, put_count = 0,
     remove_count = 0, st_evict_count = 0\<rparr>"

definition zero_memory :: "mem_pool \<Rightarrow> mdb_mem" where
  "zero_memory p = \<lparr>pool = p,
     items = \<lambda>_. \<lparr>h_next = 0, i_prev = 0, i_next = 0, exptime = 0, key_len = 0, data_len = 0, i_version = 0, update_time = 0,
       item_id = 0, idata = []\<rparr>,
     pages = \<lambda>_. \<lparr>pg_id = 0, free_nr = 0, pg_next = 0, pg_prev = 0, free_head = 0\<rparr>\<rparr>"

text \<open>The length of the meta data in front of the pages.\<close>

definition meta_len :: nat where
  "meta_len = 2 ^ 20 + MEMCACHE_META_LEN"

definition mdb_initialize :: "(nat \<Rightarrow> nat) \<Rightarrow> nat \<Rightarrow> nat \<Rightarrow> nat \<Rightarrow> nat \<Rightarrow> mdb_manager option" where
  "mdb_initialize enlarge page_size total_pages hash_shift slab_base_size = do {
     p \<leftarrow> initialize_pool page_size total_pages meta_len zero_pool;
     (t, p) \<leftarrow> new_hash_map hash_shift p;
     let slab_base_size = (if slab_base_size = 0 then sizeof_mdb_item + 16 else slab_base_size);
     (ss, m) \<leftarrow> slab_initialize enlarge TAIR_SLAB_LARGEST slab_base_size (zero_memory p);
     Some \<lparr>memory = m, hashmap = t, slab_managers = ss, area_stat = \<lambda>_. zero_stat\<rparr> }"

section \<open>A slab with its first page\<close>

lemma new_slab_inv:
  assumes "mem_pool_wf (pool m)" and "mp_page_size (pool m) = 2 ^ 20" and "i < 2 ^ 8"
    and "sizeof_mdb_item + 16 \<le> start" and "start \<le> 2 ^ 20 - sizeof_page_info"
  shows "slab_inv (new_slab i start (2 ^ 20)) m (\<lambda>_. []) (\<lambda>_. []) (\<lambda>_. [])"
proof -
  let ?s = "new_slab i start (2 ^ 20)"
  have n: "(2 ^ 20 - sizeof_page_info) div start * start \<le> 2 ^ 20 - sizeof_page_info"
    by simp
  have "(2 ^ 20 - sizeof_page_info) div start \<le> (2 ^ 20 - sizeof_page_info) div (sizeof_mdb_item + 16)"
    using assms(4) by (intro div_le_mono2) (simp_all add: sizeof_mdb_item_def)
  then have per: "(2 ^ 20 - sizeof_page_info) div start \<le> 2 ^ 16"
    by (simp add: sizeof_mdb_item_def sizeof_page_info_def)
  have pos: "0 < (2 ^ 20 - sizeof_page_info) div start"
    using assms(4,5) by (simp add: div_greater_zero_iff sizeof_mdb_item_def)
  have "shape ?s m"
    using assms n per pos by (simp add: shape_def new_slab_def mem_pool_wf_def MAX_PAGES_NO_def sizeof_page_info_def sizeof_mdb_item_def)
  moreover have "plists ?s m (\<lambda>_. [])"
    by (simp add: plists_def plist_def head_of_def new_slab_def nz_def split: nat.splits)
  moreover have "lru ?s m (\<lambda>_. [])"
    by (simp add: lru_def lru_list_def new_slab_def id_to_item_def ITEM_ADDR_def)
  ultimately show ?thesis
    using assms(1) by (simp add: slab_inv_def slab_core_def listed_def slots_def used_def counts_def new_slab_def)
qed

lemma pre_alloc_spec:
  assumes "slab_inv s m L F U" and "mp_free_pages (pool m) \<noteq> 0"
  shows "\<exists>p s' m'. pre_alloc 1 (s, m) = Some (1, s', m') \<and> slab_inv s' m' (L(0 := p # L 0)) (F(p := [0..<per_slab s])) U
    \<and> same_slab s s' \<and> p \<notin> pages_in_use (pool m) \<and> pages_in_use (pool m') = insert p (pages_in_use (pool m))
    \<and> confined (insert p (listed s L)) m m' \<and> mp_free_pages (pool m') = mp_free_pages (pool m) - 1
    \<and> listed s (L(0 := p # L 0)) = insert p (listed s L)
    \<and> (\<forall>k<per_slab s. clean_item (items m' (slot_addr s m' p k)))"
proof -
  let ?s = "s\<lparr>free_pages_no := free_pages_no s + 1\<rparr>"
  have core0: "slab_core s m L F U {} {}" and n: "counts s L 0"
    using assms(1) by (simp_all add: slab_inv_def)
  have core: "slab_core ?s m L F U {} {}"
    by (rule slab_core_cong [OF core0]) simp_all
  note D = slab_coreD [OF core]
  obtain p q where q: "alloc_page (pool m) = Some (Some p, q)" "0 < p" "p < mp_total_pages (pool m)" "p \<notin> pages_in_use (pool m)"
      "pages_in_use q = insert p (pages_in_use (pool m))" "mem_pool_wf q" "mp_total_pages q = mp_total_pages (pool m)"
      "mp_page_size q = mp_page_size (pool m)" "mp_free_pages q = mp_free_pages (pool m) - 1"
    using alloc_page_wf [OF D(2) assms(2)] by blast
  obtain m1 where m1: "init_page p ?s (m\<lparr>pool := q\<rparr>) = Some m1" "slab_core ?s m1 L (F(p := [0..<per_slab ?s])) U (insert p {}) {}"
      "free_nr (pages m1 p) = per_slab ?s" "confined {p} m m1" "pool m1 = q"
      "\<forall>k<per_slab ?s. clean_item (items m1 (slot_addr ?s m1 p k))"
    using new_page_core [OF core q(6,2-5,7,8)] by blast
  have c: "class_of ?s (free_nr (pages m1 p)) = 0" "0 < classes ?s"
    using m1(3) by (simp_all add: class_of_def classes_def)
  obtain m' where l: "link_page p (head_of ?s 0) m1 = Some (p, m')"
      "slab_core (set_head 0 p ?s) m' (L(0 := p # L 0)) (F(p := [0..<per_slab ?s])) U {} {}"
      "same_pages m1 m'" "\<forall>r. r \<noteq> p \<and> r \<notin> listed ?s L \<longrightarrow> pages m' r = pages m1 r"
    using link_page_core [OF m1(2) _ c(1)] m1(3) by auto
  have listed: "listed ?s = listed s"
    by (rule listed_cong) simp
  have "pre_alloc 1 (s, m) = Some (1, set_head 0 p ?s, m')"
    using q(1) m1(1) l(1) by (simp add: pre_alloc_page_def head_of_def set_head_def)
  moreover have "slab_inv (set_head 0 p ?s) m' (L(0 := p # L 0)) (F(p := [0..<per_slab s])) U"
    using l(2) n classes_cong [of "set_head 0 p ?s" s] sum_length_other [of 0 "classes s" L "p # L 0"]
    by (simp add: slab_inv_def counts_def)
  moreover have "confined (insert p (listed s L)) m1 m'"
    by (rule same_pages_confined [OF l(3)]) (use l(4) [unfolded listed] in blast)
  with m1(4) have "confined (insert p (listed s L)) m m'"
    by (rule confined_trans) auto
  moreover have "listed s (L(0 := p # L 0)) = insert p (listed s L)"
    using listed_link [OF c(2), of L p] unfolding listed .
  moreover have "pool m' = q" "items m' = items m1"
    using l(3) m1(5) by (simp_all add: same_pages_def)
  ultimately show ?thesis
    using q(4,5,9) m1(5,6) by (intro exI [of _ p] exI [of _ "set_head 0 p ?s"] exI [of _ m'])
      (simp add: same_slab_def slot_addr_def)
qed

section \<open>All slabs\<close>

lemma cache_inv_snoc:
  assumes "cache_inv ss m Ls Fs Us" and "slab_inv s m' L F U" and "slab_id s = length ss" and "listed s L \<noteq> {}"
    and "listed s L \<inter> pages_in_use (pool m) = {}" and "confined (listed s L) m m'" and "pages_in_use (pool m) \<subseteq> pages_in_use (pool m')"
  shows "cache_inv (ss @ [s]) m' (Ls(length ss := L)) (Fs(length ss := F)) (Us(length ss := U))"
proof -
  let ?ss = "ss @ [s]" and ?Ls = "Ls(length ss := L)"
  have wf: "mem_pool_wf (pool m')"
    using assms(2) by (simp add: slab_inv_def slab_core_def)
  have apart: "listed s L \<inter> own_pages ss Ls j = {}" if "j < length ss" for j
    using cache_pages_in_use [OF assms(1) that] assms(5) by blast
  have old: "slab_inv (ss ! j) m' (Ls j) (Fs j) (Us j)" if "j < length ss" for j
    by (rule slab_inv_outside [OF cache_invD(1) [OF assms(1) that] assms(6) apart [OF that] wf])
      (use cache_pages_in_use [OF assms(1) that] assms(7) in blast)
  have pages: "own_pages ?ss ?Ls j = (if j = length ss then listed s L else own_pages ss Ls j)" if "j < Suc (length ss)" for j
    using that by (simp add: nth_append)
  have "slab_inv (?ss ! j) m' (?Ls j) ((Fs(length ss := F)) j) ((Us(length ss := U)) j) \<and> slab_id (?ss ! j) = j \<and> own_pages ?ss ?Ls j \<noteq> {}"
    if "j < Suc (length ss)" for j
    using that old [of j] cache_invD(2,3) [OF assms(1), of j] assms(2-4) by (cases "j = length ss") (simp_all add: nth_append)
  moreover have "own_pages ?ss ?Ls j \<inter> own_pages ?ss ?Ls k = {}" if "j < Suc (length ss)" "k < Suc (length ss)" "j \<noteq> k" for j k
    unfolding pages [OF that(1)] pages [OF that(2)]
    using that apart [of j] apart [of k] cache_invD(4) [OF assms(1), of j k] by (auto simp: less_Suc_eq)
  ultimately show ?thesis
    by (simp add: cache_inv_def)
qed

lemma cache_clean_snoc:
  assumes "cache_inv ss m Ls Fs Us" and "cache_clean ss m Ls Fs" and "clean_pages s m' F (listed s L)"
    and "listed s L \<inter> pages_in_use (pool m) = {}" and "confined (listed s L) m m'"
  shows "cache_clean (ss @ [s]) m' (Ls(length ss := L)) (Fs(length ss := F))"
  unfolding cache_clean_def
proof
  fix b assume "b \<in> free_slots (ss @ [s]) m' (Ls(length ss := L)) (Fs(length ss := F))"
  then obtain j p k where j: "j < Suc (length ss)" "p \<in> own_pages (ss @ [s]) (Ls(length ss := L)) j" "k \<in> set ((Fs(length ss := F)) j p)"
      "b = slot_addr ((ss @ [s]) ! j) m' p k"
    by (auto simp: free_slots_def)
  show "clean_item (items m' b)"
  proof (cases "j = length ss")
    case True
    then show ?thesis
      using assms(3) j by (simp add: clean_pages_def)
  next
    case False
    then have b: "j < length ss" "p \<in> own_pages ss Ls j" "k \<in> set (Fs j p)" "b = slot_addr (ss ! j) m p k"
      using j assms(5) by (simp_all add: nth_append slot_addr_def confined_def)
    have "shape (ss ! j) m"
      using cache_invD(1) [OF assms(1) b(1)] by (simp add: slab_inv_def slab_core_def)
    then have "b div mp_page_size (pool m) = p"
      using slot_page free_slot_unused(2) [OF assms(1) b(1-3)] b(4) by simp
    then have "items m' b = items m b"
      using cache_pages_in_use [OF assms(1) b(1)] b(2) assms(4,5) by (auto simp: confined_def)
    moreover have "b \<in> free_slots ss m Ls Fs"
      using b unfolding free_slots_def by blast
    ultimately show ?thesis
      using assms(2) by (simp add: cache_clean_def)
  qed
qed

text \<open>The slabs are empty at first.\<close>

definition fresh_cache :: "slab_manager list \<Rightarrow> mdb_mem \<Rightarrow> bool" where
  "fresh_cache ss m \<longleftrightarrow> mem_pool_wf (pool m) \<and> mp_page_size (pool m) = 2 ^ 20
     \<and> (\<exists>Ls Fs. cache_inv ss m Ls Fs (\<lambda>_ _. []) \<and> cache_clean ss m Ls Fs)"

lemma first_page_step:
  assumes "fresh_cache ss m" and "mp_free_pages (pool m) \<noteq> 0" and "length ss < 2 ^ 8"
    and "sizeof_mdb_item + 16 \<le> start" and "start \<le> 2 ^ 20 - sizeof_page_info"
  shows "\<exists>s m'. pre_alloc 1 (new_slab (length ss) start (2 ^ 20), m) = Some (1, s, m') \<and> fresh_cache (ss @ [s]) m'
    \<and> mp_free_pages (pool m') = mp_free_pages (pool m) - 1 \<and> slab_size s = start \<and> per_slab s = (2 ^ 20 - sizeof_page_info) div start"
proof -
  let ?s = "new_slab (length ss) start (2 ^ 20)"
  have wf: "mem_pool_wf (pool m)" and sz: "mp_page_size (pool m) = 2 ^ 20"
    using assms(1) by (simp_all add: fresh_cache_def)
  obtain Ls Fs where inv: "cache_inv ss m Ls Fs (\<lambda>_ _. [])" "cache_clean ss m Ls Fs"
    using assms(1) by (auto simp: fresh_cache_def)
  have new: "slab_inv ?s m (\<lambda>_. []) (\<lambda>_. []) (\<lambda>_. [])"
    by (rule new_slab_inv [OF wf sz assms(3-5)])
  obtain p s m' where a: "pre_alloc 1 (?s, m) = Some (1, s, m')" "slab_inv s m' ((\<lambda>_. [])(0 := [p])) ((\<lambda>_. [])(p := [0..<per_slab ?s])) (\<lambda>_. [])"
      "same_slab ?s s" "p \<notin> pages_in_use (pool m)" "pages_in_use (pool m') = insert p (pages_in_use (pool m))"
      "confined (insert p (listed ?s (\<lambda>_. []))) m m'" "mp_free_pages (pool m') = mp_free_pages (pool m) - 1"
      "listed ?s ((\<lambda>_. [])(0 := [p])) = insert p (listed ?s (\<lambda>_. []))" "\<forall>k<per_slab ?s. clean_item (items m' (slot_addr ?s m' p k))"
    using pre_alloc_spec [OF new assms(2)] by blast
  have listed: "listed s ((\<lambda>_. [])(0 := [p])) = {p}"
    using a(8) unfolding same_slab_listed [OF a(3)] by (simp add: listed_def)
  have conf: "confined (listed s ((\<lambda>_. [])(0 := [p]))) m m'"
    using a(6) listed by (simp add: listed_def)
  have clean: "clean_pages s m' ((\<lambda>_. [])(p := [0..<per_slab ?s])) (listed s ((\<lambda>_. [])(0 := [p])))"
    using a(3,9) listed by (simp add: clean_pages_def same_slab_def slot_addr_def)
  have id: "slab_id s = length ss" "slab_size s = start" "per_slab s = (2 ^ 20 - sizeof_page_info) div start"
    using a(3) by (simp_all add: same_slab_def new_slab_def)
  have "cache_inv (ss @ [s]) m' (Ls(length ss := (\<lambda>_. [])(0 := [p]))) (Fs(length ss := (\<lambda>_. [])(p := [0..<per_slab ?s])))
      ((\<lambda>_ _. [])(length ss := \<lambda>_. []))"
    by (rule cache_inv_snoc [OF inv(1) a(2) id(1) _ _ conf]) (use listed a(4,5) in auto)
  moreover have "cache_clean (ss @ [s]) m' (Ls(length ss := (\<lambda>_. [])(0 := [p]))) (Fs(length ss := (\<lambda>_. [])(p := [0..<per_slab ?s])))"
    by (rule cache_clean_snoc [OF inv clean _ conf]) (use listed a(4) in auto)
  moreover have "((\<lambda>_ _. [])(length ss := \<lambda>_. [])) = ((\<lambda>_ _. []) :: ghost)"
    by (simp add: fun_eq_iff)
  moreover have "mem_pool_wf (pool m')" "mp_page_size (pool m') = 2 ^ 20"
    using a(2) conf sz by (simp_all add: slab_inv_def slab_core_def confined_def)
  ultimately have "fresh_cache (ss @ [s]) m'"
    unfolding fresh_cache_def by auto
  then show ?thesis
    using a(1,7) id(2,3) by blast
qed

text \<open>The sizes of the slabs of an engine with pages of 1 MB.\<close>

primrec slab_sizes :: "nat \<Rightarrow> (nat \<Rightarrow> nat) \<Rightarrow> nat \<Rightarrow> nat list" where
  "slab_sizes 0 enlarge start = []"
| "slab_sizes (Suc n) enlarge start =
     (let last_size = 2 ^ 20 - sizeof_page_info
      in if start \<le> last_size
         then let start = (if start > last_size div 2 then last_size else start) in start # slab_sizes n enlarge (ALIGN (enlarge start))
         else [])"

definition size_headers :: "nat list \<Rightarrow> nat" where
  "size_headers zs = sum_list (map (\<lambda>z. sizeof_slab_manager + ((2 ^ 20 - sizeof_page_info) div z + PARTIAL_PAGE_BUCKET - 1) div PARTIAL_PAGE_BUCKET * 4) zs)"

lemma slab_loop_spec:
  assumes "fresh_cache ss m" and "n \<le> mp_free_pages (pool m)" and "length ss + n \<le> 2 ^ 8" and "sizeof_mdb_item + 16 \<le> start"
    and "\<And>x. sizeof_mdb_item + 16 \<le> x \<Longrightarrow> sizeof_mdb_item + 16 \<le> enlarge x"
  shows "\<exists>zs m'. slab_loop n enlarge (length ss) start (ss, m) = Some (ss @ zs, m') \<and> fresh_cache (ss @ zs) m'
    \<and> map slab_size zs = slab_sizes n enlarge start \<and> slab_headers zs = size_headers (slab_sizes n enlarge start)"
  using assms(1-4)
proof (induction n arbitrary: ss m start)
  case 0
  then show ?case
    by (intro exI [of _ "[]"]) (simp add: slab_headers_def size_headers_def)
next
  case (Suc n)
  let ?last = "mp_page_size (pool m) - sizeof_page_info"
  let ?start = "if start > ?last div 2 then ?last else start"
  have sz: "mp_page_size (pool m) = 2 ^ 20"
    using Suc.prems(1) by (simp add: fresh_cache_def)
  show ?case
  proof (cases "start \<le> ?last")
    case True
    have start: "sizeof_mdb_item + 16 \<le> ?start" "?start \<le> 2 ^ 20 - sizeof_page_info"
      using True sz Suc.prems(4) by (auto simp: sizeof_page_info_def sizeof_mdb_item_def)
    obtain s m1 where p: "pre_alloc 1 (new_slab (length ss) ?start (2 ^ 20), m) = Some (1, s, m1)" "fresh_cache (ss @ [s]) m1"
        "mp_free_pages (pool m1) = mp_free_pages (pool m) - 1" "slab_size s = ?start" "per_slab s = (2 ^ 20 - sizeof_page_info) div ?start"
      using first_page_step [OF Suc.prems(1) _ _ start] Suc.prems(2,3) by auto
    have "sizeof_mdb_item + 16 \<le> ALIGN (enlarge ?start)"
      using assms(5) [OF start(1)] by (simp add: ALIGN_def sizeof_mdb_item_def)
    then obtain zs m' where "slab_loop n enlarge (length (ss @ [s])) (ALIGN (enlarge ?start)) (ss @ [s], m1) = Some ((ss @ [s]) @ zs, m')"
        "fresh_cache ((ss @ [s]) @ zs) m'" "map slab_size zs = slab_sizes n enlarge (ALIGN (enlarge ?start))"
        "slab_headers zs = size_headers (slab_sizes n enlarge (ALIGN (enlarge ?start)))"
      using Suc.IH [OF p(2)] p(3) Suc.prems(2,3) by fastforce
    moreover have eq: "slab_size s # slab_sizes n enlarge (ALIGN (enlarge ?start)) = slab_sizes (Suc n) enlarge start"
      using True unfolding p(4) sz by (simp add: Let_def)
    moreover from calculation(4) have "slab_headers (s # zs) = size_headers (slab_sizes (Suc n) enlarge start)"
      unfolding eq [symmetric] using p(4,5) by (simp add: slab_headers_def size_headers_def partial_pages_bucket_no_def)
    ultimately show ?thesis
      using True p(1) [folded sz] by (intro exI [of _ "s # zs"] exI [of _ m'])
        (simp del: slab_sizes.simps add: Let_def flip: Suc_eq_plus1 del: pre_alloc.simps One_nat_def split del: if_split)
  next
    case False
    then show ?thesis
      using Suc.prems(1) by (intro exI [of _ "[]"] exI [of _ m]) (simp add: Let_def sz slab_headers_def size_headers_def)
  qed
qed

section \<open>The hash table\<close>

lemma alloc_pages_wf:
  assumes "mem_pool_wf p" and "n \<le> mp_free_pages p"
  shows "\<exists>q. alloc_pages n p = Some q \<and> mem_pool_wf q \<and> mp_page_size q = mp_page_size p \<and> mp_free_pages q = mp_free_pages p - n"
  using assms
proof (induction n arbitrary: p)
  case (Suc n)
  obtain i q where q: "alloc_page p = Some (Some i, q)" "mem_pool_wf q" "mp_page_size q = mp_page_size p" "mp_free_pages q = mp_free_pages p - 1"
    using alloc_page_wf [OF Suc.prems(1)] Suc.prems(2) by auto
  then show ?case
    using Suc.IH [OF q(2)] Suc.prems(2) by auto
qed simp

lemma new_hash_map_wf:
  assumes "mem_pool_wf p" and "hash_table_pages = (2 ^ shift * 8 + mp_page_size p - 1) div mp_page_size p" and "hash_table_pages \<le> mp_free_pages p" and "shift < 32"
  shows "\<exists>t q. new_hash_map shift p = Some (t, q) \<and> mem_pool_wf q \<and> mp_page_size q = mp_page_size p
    \<and> mp_free_pages q = mp_free_pages p - hash_table_pages \<and> bucket_size t = 2 ^ shift \<and> hash_item_count t = 0 \<and> hashtable t = (\<lambda>_. 0)"
proof -
  have ps: "0 < mp_page_size p"
    using assms(1) by (simp add: mem_pool_wf_def)
  then have "mp_page_size p div mp_page_size p \<le> hash_table_pages"
    unfolding assms(2) using one_le_power [of "2 :: nat" shift] by (intro div_le_mono) linarith
  then have pos: "0 < hash_table_pages"
    using ps by simp
  obtain i q where q: "alloc_page p = Some (Some i, q)" "mem_pool_wf q" "mp_page_size q = mp_page_size p" "mp_free_pages q = mp_free_pages p - 1"
    using alloc_page_wf [OF assms(1)] assms(3) pos by auto
  have "hash_table_pages - 1 \<le> mp_free_pages q"
    using assms(3) q(4) by simp
  then obtain r where "alloc_pages (hash_table_pages - 1) q = Some r" "mem_pool_wf r" "mp_page_size r = mp_page_size q"
      "mp_free_pages r = mp_free_pages q - (hash_table_pages - 1)"
    using alloc_pages_wf [OF q(2)] by blast
  then show ?thesis
    using q(1,3,4) pos unfolding new_hash_map_def Let_def assms(2) [symmetric] by auto
qed

section \<open>The engine\<close>

text \<open>A configuration with room for the meta data, the hash table and one page per slab.\<close>

definition roomy :: "nat \<Rightarrow> nat \<Rightarrow> bool" where
  "roomy total_pages hash_shift \<longleftrightarrow> total_pages \<le> MAX_PAGES_NO \<and> hash_shift < 32
     \<and> (meta_len + 2 ^ 20 - 1) div 2 ^ 20 + (2 ^ hash_shift * 8 + 2 ^ 20 - 1) div 2 ^ 20 + TAIR_SLAB_LARGEST \<le> total_pages"

lemma empty_table:
  assumes "bucket_size t = 2 ^ shift" and "shift < 32" and "hash_item_count t = 0" and "hashtable t = (\<lambda>_. 0)"
  shows "table_inv t m (\<lambda>_. [])" "members t (\<lambda>_. []) = {}"
  using assms by (auto simp: table_inv_def members_def hash_chain_def id_to_item_None)

definition first_size :: "nat \<Rightarrow> nat" where
  "first_size slab_base_size = (let base = (if slab_base_size = 0 then sizeof_mdb_item + 16 else slab_base_size)
     in if base < sizeof_mdb_item + 16 then ALIGN (sizeof_mdb_item + 16) else base)"

lemma initialize_ok:
  assumes "roomy total_pages shift" and "base < 2 ^ 20" and "\<And>x. sizeof_mdb_item + 16 \<le> x \<Longrightarrow> sizeof_mdb_item + 16 \<le> enlarge x"
    and "size_headers (slab_sizes TAIR_SLAB_LARGEST enlarge (first_size base)) < MEMCACHE_META_LEN"
  shows "\<exists>M. mdb_initialize enlarge (2 ^ 20) total_pages shift base = Some M \<and> engine_ok M \<and> content M = (\<lambda>_. None)
    \<and> map slab_size (slab_managers M) = slab_sizes TAIR_SLAB_LARGEST enlarge (first_size base)"
proof -
  let ?mp = "(meta_len + 2 ^ 20 - 1) div 2 ^ 20" and ?hp = "(2 ^ shift * 8 + 2 ^ 20 - 1) div 2 ^ 20"
  have R: "0 < meta_len" "total_pages \<le> MAX_PAGES_NO" "shift < 32" "?mp + ?hp + TAIR_SLAB_LARGEST \<le> total_pages"
    using assms(1) by (simp_all add: roomy_def meta_len_def)
  have "?mp < total_pages" "?mp \<le> MAX_PAGES_NO"
    using R(2,4) by (simp_all add: TAIR_SLAB_LARGEST_def)
  then obtain p where p: "initialize_pool (2 ^ 20) total_pages meta_len zero_pool = Some p"
    by (simp add: initialize_pool_def zero_pool_def Let_def)
  have P: "mem_pool_wf p" "pages_in_use p = {..<?mp}" "mp_total_pages p = total_pages" "mp_page_size p = 2 ^ 20"
    using initialize_pool_wf [OF p _ R(1,2)] by (simp_all add: zero_pool_def)
  have free: "mp_free_pages p = total_pages - ?mp"
  proof -
    have "mp_free_pages p + card {..<?mp} = total_pages"
      using P(1) unfolding mem_pool_wf_def P(2,3) by blast
    then show ?thesis
      unfolding card_lessThan by linarith
  qed
  have hp: "?hp \<le> mp_free_pages p"
    using free R(4) by linarith
  obtain t q where t: "new_hash_map shift p = Some (t, q)" "mem_pool_wf q" "mp_page_size q = 2 ^ 20" "mp_free_pages q = mp_free_pages p - ?hp"
      "bucket_size t = 2 ^ shift" "hash_item_count t = 0" "hashtable t = (\<lambda>_. 0)"
    using new_hash_map_wf [OF P(1), of ?hp shift, unfolded P(4), OF refl hp R(3)] by blast
  let ?base = "if base = 0 then sizeof_mdb_item + 16 else base"
  let ?start = "if ?base < sizeof_mdb_item + 16 then ALIGN (sizeof_mdb_item + 16) else ?base"
  have fresh: "fresh_cache [] (zero_memory q)"
    using t(2,3) by (simp add: fresh_cache_def zero_memory_def cache_inv_def cache_clean_def free_slots_def)
  have start: "sizeof_mdb_item + 16 \<le> ?start"
    by (simp add: ALIGN_def sizeof_mdb_item_def)
  have enough: "TAIR_SLAB_LARGEST \<le> mp_free_pages (pool (zero_memory q))" "length ([] :: slab_manager list) + TAIR_SLAB_LARGEST \<le> 2 ^ 8"
    using R(4) t(4) free unfolding zero_memory_def TAIR_SLAB_LARGEST_def mdb_mem.simps list.size by (linarith, simp)
  obtain ss m where s: "slab_loop TAIR_SLAB_LARGEST enlarge 0 ?start ([], zero_memory q) = Some (ss, m)" "fresh_cache ss m"
      "map slab_size ss = slab_sizes TAIR_SLAB_LARGEST enlarge ?start" "slab_headers ss = size_headers (slab_sizes TAIR_SLAB_LARGEST enlarge ?start)"
    using slab_loop_spec [OF fresh enough start, of enlarge, OF assms(3)] unfolding append_Nil list.size by blast
  have "?start < mp_page_size (pool (zero_memory q))"
    using t(3) assms(2) by (simp add: zero_memory_def ALIGN_def sizeof_mdb_item_def)
  moreover have "slab_headers ss < MEMCACHE_META_LEN"
    using assms(4) unfolding s(4) first_size_def Let_def .
  ultimately have init: "slab_initialize enlarge TAIR_SLAB_LARGEST ?base (zero_memory q) = Some (ss, m)"
    unfolding slab_initialize_def Let_def using s(1) by simp
  let ?M = "\<lparr>memory = m, hashmap = t, slab_managers = ss, area_stat = \<lambda>_. zero_stat\<rparr>"
  have res: "mdb_initialize enlarge (2 ^ 20) total_pages shift base = Some ?M"
    unfolding mdb_initialize_def Let_def p using t(1) init by simp
  obtain Ls Fs where f: "cache_inv ss m Ls Fs (\<lambda>_ _. [])" "cache_clean ss m Ls Fs"
    using s(2) by (auto simp: fresh_cache_def)
  have none: "all_used ss (\<lambda>_ _. []) = {}"
    by (simp add: all_used_def used_def)
  have inv: "engine_inv ?M Ls Fs (\<lambda>_ _. []) (\<lambda>_. [])"
    using f none empty_table [OF t(5) R(3) t(6,7)] by (simp add: engine_inv_def cache_areas_def areas_ok_def)
  have "content ?M = (\<lambda>_. None)"
    by (rule map_SomeI) (use content_iff [OF inv] none in simp)
  then show ?thesis
    using res inv s(3) by (auto simp: engine_ok_def first_size_def Let_def)
qed

end
