(* ===== verification/Mdb_Sweep.thy ===== *)
theory Mdb_Sweep
  imports Mdb_Init
begin

unbundle bit_operations_syntax

text \<open>
  The passes of the storage engine over the whole hash table and over the item lists of an area
  (\<open>storage/mdb/mdb_manager.cpp\<close>): the removal of deleted and of expired items, the closing of buckets,
  the scan of a bucket for a migration and the clearing of an area. The loops over a hash chain differ
  in what they do with an item, so they are instances of one definition. The lemmas say for each pass
  that it ends, keeps the invariant of the engine and removes exactly the entries it is meant to; the
  scan moreover returns exactly the live entries of the bucket, each once.
\<close>

section \<open>Model\<close>

text \<open>
  The loop over a chain: the next pointer is read before the item may be removed. \<open>visit\<close> says for an
  item whether it is removed and what is collected from it; it is \<open>None\<close> where the code faults.
\<close>

partial_function (option) walk_chain ::
  "(mdb_item \<Rightarrow> (bool \<times> 'a list) option) \<Rightarrow> 64 word \<Rightarrow> 'a list \<Rightarrow> mdb_manager \<Rightarrow> ('a list \<times> mdb_manager) option" where
  "walk_chain visit h acc M =
     (if h = 0 then Some (acc, M)
      else do {
        a \<leftarrow> id_to_item (memory M) h;
        let it = items (memory M) a;
        (remove, found) \<leftarrow> visit it;
        M \<leftarrow> (if remove then remove_item a M else Some M);
        walk_chain visit (h_next it) (acc @ found) M })"

declare walk_chain.simps [code]

fun each :: "(nat \<Rightarrow> 's \<Rightarrow> 's option) \<Rightarrow> nat list \<Rightarrow> 's \<Rightarrow> 's option" where
  "each f [] s = Some s"
| "each f (i # is) s = do { s \<leftarrow> f i s; each f is s }"

definition sweep_bucket :: "(mdb_item \<Rightarrow> (bool \<times> unit list) option) \<Rightarrow> nat \<Rightarrow> mdb_manager \<Rightarrow> mdb_manager option" where
  "sweep_bucket visit i M = do { (found, M) \<leftarrow> walk_chain visit (hashtable (hashmap M) i) [] M; Some M }"

definition remove_deleted_item :: "mdb_manager \<Rightarrow> mdb_manager option" where
  "remove_deleted_item M =
     each (sweep_bucket (\<lambda>it. Some (ITEM_FLAGS (item_id it) AND ucast TAIR_ITEM_FLAG_DELETED \<noteq> 0, []))) [0..<bucket_size (hashmap M)] M"

text \<open>The passes count an item as expired in the second of its expiry; reading and storing count it one second later.\<close>

definition item_late :: "32 word \<Rightarrow> mdb_item \<Rightarrow> bool" where
  "item_late now it \<longleftrightarrow> exptime it \<noteq> 0 \<and> exptime it \<le> now"

text \<open>The clock is read anew for every bucket: \<open>clock i\<close> is the time at which bucket \<open>i\<close> is visited.\<close>

definition remove_exprd_item :: "(nat \<Rightarrow> 32 word) \<Rightarrow> mdb_manager \<Rightarrow> mdb_manager option" where
  "remove_exprd_item clock M =
     each (\<lambda>i. sweep_bucket (\<lambda>it. Some (item_late (clock i) it, [])) i) [0..<bucket_size (hashmap M)] M"

text \<open>The bucket of the server table an item belongs to; without buckets the code divides by zero.\<close>

definition server_bucket :: "32 word \<Rightarrow> mdb_item \<Rightarrow> 32 word option" where
  "server_bucket bucket_count it =
     (if bucket_count = 0 \<or> unat (key_len it) < 2 then None else Some (mhash2 (drop 2 (ITEM_KEY it)) mod bucket_count))"

definition close_visit :: "32 word \<Rightarrow> int list \<Rightarrow> 32 word \<Rightarrow> mdb_item \<Rightarrow> (bool \<times> unit list) option" where
  "close_visit bucket_count buckets now it =
     (if item_late now it then Some (True, [])
      else do { server_hash \<leftarrow> server_bucket bucket_count it; Some (sint server_hash \<in> set buckets, []) })"

definition close_buckets :: "32 word \<Rightarrow> int list \<Rightarrow> (nat \<Rightarrow> 32 word) \<Rightarrow> mdb_manager \<Rightarrow> mdb_manager option" where
  "close_buckets bucket_count buckets clock M =
     each (\<lambda>i. sweep_bucket (close_visit bucket_count buckets (clock i)) i) [0..<bucket_size (hashmap M)] M"

subsection \<open>The scan of a bucket\<close>

record md_info =
  hash_index :: nat
  db_id :: "32 word"

record item_data_info =
  header :: item_meta_info
  m_data :: bytes

text \<open>The block comes from \<open>malloc\<close>: \<open>junk\<close> is what it holds where the code does not write.\<close>

definition item_info :: "item_meta_info \<Rightarrow> mdb_item \<Rightarrow> item_data_info" where
  "item_info junk it =
     \<lparr>header = junk\<lparr>keysize := ucast (key_len it), valsize := ucast (data_len it), version := i_version it,
        flag := ucast (ITEM_FLAGS (item_id it)), mdate := update_time it, edate := exptime it\<rparr>,
      m_data = take (unat (key_len it) + unat (data_len it)) (idata it)\<rparr>"

definition scan_visit :: "item_meta_info \<Rightarrow> 32 word \<Rightarrow> 32 word \<Rightarrow> 32 word \<Rightarrow> mdb_item \<Rightarrow> (bool \<times> item_data_info list) option" where
  "scan_visit junk bucket_count db now it =
     (if item_late now it then Some (True, [])
      else do { server_hash \<leftarrow> server_bucket bucket_count it; Some (False, if server_hash \<noteq> db then [] else [item_info junk it]) })"

definition begin_scan :: "md_info \<Rightarrow> md_info" where
  "begin_scan info = info\<lparr>hash_index := 0\<rparr>"

text \<open>The index stays at most the number of buckets, which is below \<open>2 ^ 32\<close>, so it is a natural number here.\<close>

function skip_empty :: "cache_hash_map \<Rightarrow> nat \<Rightarrow> nat" where
  "skip_empty t i = (if i < bucket_size t \<and> hashtable t i = 0 then skip_empty t (Suc i) else i)"
  by auto
termination
  by (relation "measure (\<lambda>(t, i). bucket_size t - i)") auto

declare skip_empty.simps [simp del]

definition get_next_items ::
  "item_meta_info \<Rightarrow> 32 word \<Rightarrow> 32 word \<Rightarrow> md_info \<Rightarrow> mdb_manager \<Rightarrow> (bool \<times> item_data_info list \<times> md_info \<times> mdb_manager) option" where
  "get_next_items junk bucket_count now info M =
     (let i = skip_empty (hashmap M) (hash_index info);
          info = info\<lparr>hash_index := i\<rparr>
      in if bucket_size (hashmap M) \<le> i then Some (False, [], info, M)
         else do {
           (found, M) \<leftarrow> walk_chain (scan_visit junk bucket_count (db_id info) now) (hashtable (hashmap M) i) [] M;
           let info = info\<lparr>hash_index := Suc i\<rparr>;
           Some (Suc i < bucket_size (hashmap M), found, info, M) })"

subsection \<open>Clearing\<close>

text \<open>The loop over the items of an area in a slab.\<close>

partial_function (option) clear_list :: "64 word \<Rightarrow> mdb_manager \<Rightarrow> mdb_manager option" where
  "clear_list w M =
     (if w = 0 then Some M
      else case id_to_item (memory M) w of
        None \<Rightarrow> Some M
      | Some a \<Rightarrow> do { M' \<leftarrow> remove_item a M; clear_list (i_next (items (memory M) a)) M' })"

declare clear_list.simps [code]

definition clear_area :: "nat \<Rightarrow> mdb_manager \<Rightarrow> mdb_manager option" where
  "clear_area ar M =
     each (\<lambda>i M. do { w \<leftarrow> get_item_head i ar (slab_managers M); clear_list w M }) [0..<length (slab_managers M)] M"

text \<open>
  Clearing by the number of an area, with the numbers -1 for the expired items, -2 for a balancing of the
  slabs and -3 for all areas. The balancing computes with floating-point numbers and is an argument.
\<close>

definition mdb_clear :: "(mdb_manager \<Rightarrow> mdb_manager option) \<Rightarrow> (nat \<Rightarrow> 32 word) \<Rightarrow> int \<Rightarrow> mdb_manager \<Rightarrow> mdb_manager option" where
  "mdb_clear balance_slab clock ar M =
     (if ar = - 1 then remove_exprd_item clock M
      else if ar = - 2 then do { M \<leftarrow> balance_slab M; Some (M\<lparr>slab_managers := balance_slab_done (slab_managers M)\<rparr>) }
      else if ar = - 3 then each clear_area [0..<TAIR_MAX_AREA_COUNT] M
      else if 0 \<le> ar \<and> ar < int TAIR_MAX_AREA_COUNT then clear_area (nat ar) M
      else None)"

section \<open>Removing the entries that satisfy a predicate\<close>

definition prune :: "(bytes \<Rightarrow> stored \<Rightarrow> bool) \<Rightarrow> (bytes \<Rightarrow> stored option) \<Rightarrow> bytes \<Rightarrow> stored option" where
  "prune P c k = (case c k of None \<Rightarrow> None | Some v \<Rightarrow> if P k v then None else Some v)"

lemma prune_Some [simp]: "prune P c k = Some v \<longleftrightarrow> c k = Some v \<and> \<not> P k v"
  by (auto simp: prune_def split: option.splits)

lemma prune_prune: "prune P (prune Q c) = prune (\<lambda>k v. Q k v \<or> P k v) c"
  by (auto simp: prune_def fun_eq_iff split: option.splits)

lemma prune_cong: "(\<And>k v. c k = Some v \<Longrightarrow> P k v \<longleftrightarrow> Q k v) \<Longrightarrow> prune P c = prune Q c"
  by (auto simp: prune_def fun_eq_iff split: option.splits)

lemma prune_none: "(\<And>k v. c k = Some v \<Longrightarrow> \<not> P k v) \<Longrightarrow> prune P c = c"
  by (auto simp: prune_def fun_eq_iff split: option.splits)

lemma prune_drop: "c k = Some v \<Longrightarrow> P k v \<Longrightarrow> prune P (c(k := None)) = prune P c"
  by (auto simp: prune_def fun_eq_iff)

section \<open>The loop over a chain\<close>

text \<open>What a pass does with an entry, for items that are in order.\<close>

definition visits :: "(mdb_item \<Rightarrow> (bool \<times> 'a list) option) \<Rightarrow> (bytes \<Rightarrow> stored \<Rightarrow> bool) \<Rightarrow> (bytes \<Rightarrow> stored \<Rightarrow> 'a list) \<Rightarrow> bool" where
  "visits visit P out \<longleftrightarrow> (\<forall>it. item_ok it \<longrightarrow> visit it = Some (P (ITEM_KEY it) (stored_in it), out (ITEM_KEY it) (stored_in it)))"

lemma hash_chain_Cons:
  "hash_chain m w (a # xs) \<longleftrightarrow> id_to_item m w = Some a \<and> hash_chain m (h_next (items m a)) xs"
  by (auto simp: hash_chain_def hash_nx_def)

lemma hash_chain_suffix:
  assumes "hash_chain m w (xs @ ys)"
  shows "\<exists>w'. hash_chain m w' ys"
  using assms by (induction xs arbitrary: w) (auto simp: hash_chain_Cons)

text \<open>A pointer that led to the rest of a chain still does when the rest has stayed a chain.\<close>

lemma hash_chain_retarget:
  assumes "hash_chain m w ys" and "hash_chain m' w' ys" and "mp_page_size (pool m') = mp_page_size (pool m)"
  shows "hash_chain m' w ys"
proof -
  have "id_to_item m' w = id_to_item m w"
    by (simp add: id_to_item_def assms(3))
  then show ?thesis
    using assms(1,2) by (cases ys) (auto simp: hash_chain_Cons, auto simp: hash_chain_def)
qed

lemma chain_after_removal:
  assumes "engine_inv M Ls Fs Us C" and "j < bucket_size (hashmap M)" and "C j = xs @ a # ys" and "hash_chain (memory M) w (a # ys)"
    and "engine_inv M' Ls' Fs' Us' C'" and "links_gone M Us C a M' Us' C'"
  shows "C' j = xs @ ys" "hash_chain (memory M') (h_next (items (memory M) a)) ys"
proof -
  note T = tableD [OF engine_invD(4) [OF assms(1)] assms(2)]
  have "get_bucket_index (hashmap M) (key_of (memory M) a) = j"
    using T(4) [of a] assms(3) by simp
  then have "C' j = remove1 a (C j)"
    using assms(6) by (simp add: links_gone_def without_item_def Let_def)
  then show C': "C' j = xs @ ys"
    using T(2) assms(3) by (simp add: remove1_append)
  have L: "bucket_size (hashmap M') = bucket_size (hashmap M)" "mp_page_size (pool (memory M')) = mp_page_size (pool (memory M))"
    using assms(6) by (simp_all add: links_gone_def)
  have "hash_chain (memory M') (hashtable (hashmap M') j) (xs @ ys)"
    using tableD(1) [OF engine_invD(4) [OF assms(5)], of j] assms(2) L(1) C' by simp
  then obtain w' where "hash_chain (memory M') w' ys"
    using hash_chain_suffix by blast
  then show "hash_chain (memory M') (h_next (items (memory M) a)) ys"
    using hash_chain_retarget [OF _ _ L(2)] assms(4) by (auto simp: hash_chain_Cons)
qed

lemma walk_chain_spec:
  assumes "engine_inv M Ls Fs Us C" and "j < bucket_size (hashmap M)" and "C j = xs @ ys" and "hash_chain (memory M) w ys" and "visits visit P out"
  shows "\<exists>M' Ls' Fs' Us' C'. walk_chain visit w acc M
        = Some (acc @ concat (map (\<lambda>a. out (key_of (memory M) a) (stored_in (items (memory M) a))) ys), M')
    \<and> engine_inv M' Ls' Fs' Us' C' \<and> same_slabs M M' \<and> bucket_size (hashmap M') = bucket_size (hashmap M)
    \<and> content M' = prune (\<lambda>k v. k \<in> key_of (memory M) ` set ys \<and> P k v) (content M)"
  using assms(1-4)
proof (induction ys arbitrary: M Ls Fs Us C xs w acc)
  case Nil
  then have "w = 0"
    by (simp add: hash_chain_def id_to_item_None)
  then have "walk_chain visit w acc M = Some (acc, M)"
    by (simp add: walk_chain.simps)
  then show ?case
    using Nil(1) prune_none [of "content M" "\<lambda>k v. False"] by auto
next
  case (Cons a ys)
  let ?it = "items (memory M) a" and ?k = "key_of (memory M) a"
  have w: "id_to_item (memory M) w = Some a" "w \<noteq> 0" "hash_chain (memory M) (h_next ?it) ys"
    using Cons.prems(4) id_to_item_None [of "memory M" w] by (auto simp: hash_chain_Cons)
  have a: "a \<in> all_used (slab_managers M) Us"
    using tableD(5) [OF engine_invD(4) [OF Cons.prems(1)] Cons.prems(2)] engine_invD(5) [OF Cons.prems(1)] Cons.prems(3) by auto
  have v: "visit ?it = Some (P ?k (stored_in ?it), out ?k (stored_in ?it))"
    using assms(5) engine_invD(6) [OF Cons.prems(1) a] by (simp add: visits_def)
  have ys: "a \<notin> set ys"
    using tableD(2) [OF engine_invD(4) [OF Cons.prems(1)] Cons.prems(2)] Cons.prems(3) by simp
  have c: "content M ?k = Some (stored_in ?it)"
    by (rule content_used [OF Cons.prems(1) a])
  show ?case
  proof (cases "P ?k (stored_in ?it)")
    case True
    obtain M1 Ls1 Fs1 Us1 C1 where r: "remove_item a M = Some M1" "engine_inv M1 Ls1 Fs1 Us1 C1" "item_gone M Us a M1 Us1"
        "links_gone M Us C a M1 Us1 C1" "content M1 = (content M)(?k := None)"
      using remove_item_links [OF Cons.prems(1) a] by blast
    note ch = chain_after_removal [OF Cons.prems(1,2,3,4) r(2,4)]
    have bs: "bucket_size (hashmap M1) = bucket_size (hashmap M)" "same_slabs M M1"
      using r(3,4) by (simp_all add: links_gone_def item_gone_def)
    have "b \<noteq> a" if "b \<in> set ys" for b
      using that ys by auto
    then have "bare (items (memory M1) b) = bare (items (memory M) b)" if "b \<in> set ys" for b
      using r(3) that by (simp add: item_gone_def)
    note same = bare_stored [OF this]
    obtain M' Ls' Fs' Us' C' where IH: "walk_chain visit (h_next ?it) (acc @ out ?k (stored_in ?it)) M1
          = Some ((acc @ out ?k (stored_in ?it)) @ concat (map (\<lambda>a. out (key_of (memory M1) a) (stored_in (items (memory M1) a))) ys), M')"
        "engine_inv M' Ls' Fs' Us' C'" "same_slabs M1 M'" "bucket_size (hashmap M') = bucket_size (hashmap M1)"
        "content M' = prune (\<lambda>k v. k \<in> key_of (memory M1) ` set ys \<and> P k v) (content M1)"
      using Cons.IH [OF r(2) _ ch, of "acc @ out ?k (stored_in ?it)"] Cons.prems(2) bs(1) by auto
    have map: "map (\<lambda>a. out (key_of (memory M1) a) (stored_in (items (memory M1) a))) ys
        = map (\<lambda>a. out (key_of (memory M) a) (stored_in (items (memory M) a))) ys" "key_of (memory M1) ` set ys = key_of (memory M) ` set ys"
      using same by auto
    have "walk_chain visit w acc M = Some (acc @ concat (map (\<lambda>a. out (key_of (memory M) a) (stored_in (items (memory M) a))) (a # ys)), M')"
      using w v True r(1) IH(1) map(1) by (simp add: walk_chain.simps [of visit w] Let_def)
    moreover have "content M' = prune (\<lambda>k v. k \<in> key_of (memory M) ` set (a # ys) \<and> P k v) (content M)"
      unfolding IH(5) map(2) r(5) using c True by (auto simp: prune_def fun_eq_iff split: option.splits)
    ultimately show ?thesis
      using IH(2,4) bs same_slabs_trans [OF bs(2) IH(3)] by auto
  next
    case False
    obtain M' Ls' Fs' Us' C' where IH: "walk_chain visit (h_next ?it) (acc @ out ?k (stored_in ?it)) M
          = Some ((acc @ out ?k (stored_in ?it)) @ concat (map (\<lambda>a. out (key_of (memory M) a) (stored_in (items (memory M) a))) ys), M')"
        "engine_inv M' Ls' Fs' Us' C'" "same_slabs M M'" "bucket_size (hashmap M') = bucket_size (hashmap M)"
        "content M' = prune (\<lambda>k v. k \<in> key_of (memory M) ` set ys \<and> P k v) (content M)"
      using Cons.IH [OF Cons.prems(1,2) _ w(3), of "xs @ [a]" "acc @ out ?k (stored_in ?it)"] Cons.prems(3) by auto
    have "walk_chain visit w acc M = Some (acc @ concat (map (\<lambda>a. out (key_of (memory M) a) (stored_in (items (memory M) a))) (a # ys)), M')"
      using w v False IH(1) by (simp add: walk_chain.simps [of visit w] Let_def)
    moreover have "content M' = prune (\<lambda>k v. k \<in> key_of (memory M) ` set (a # ys) \<and> P k v) (content M)"
      unfolding IH(5) using c False by (intro prune_cong) auto
    ultimately show ?thesis
      using IH(2-4) by auto
  qed
qed

section \<open>A pass over the table\<close>

lemma each_upt:
  assumes "\<And>i s. m \<le> i \<Longrightarrow> i < n \<Longrightarrow> Q i s \<Longrightarrow> \<exists>s'. f i s = Some s' \<and> Q (Suc i) s'" and "m \<le> n" and "Q m s"
  shows "\<exists>s'. each f [m..<n] s = Some s' \<and> Q n s'"
  using assms(2,3,1)
proof (induction "n - m" arbitrary: m s)
  case 0
  then show ?case by simp
next
  case (Suc d)
  then have m: "m < n" "d = n - Suc m"
    by simp_all
  obtain s1 where s1: "f m s = Some s1" "Q (Suc m) s1"
    using Suc.prems(3) [of m s] m(1) Suc.prems(2) by auto
  have "\<exists>s'. each f [Suc m..<n] s1 = Some s' \<and> Q n s'"
    using Suc.hyps(1) [OF m(2) _ s1(2)] m(1) Suc.prems(3) by simp
  then show ?case
    using s1(1) by (simp add: upt_conv_Cons [OF m(1)])
qed

abbreviation index_of :: "mdb_manager \<Rightarrow> bytes \<Rightarrow> nat" where
  "index_of M k \<equiv> get_bucket_index (hashmap M) k"

lemma walk_bucket:
  assumes "engine_ok M" and "j < bucket_size (hashmap M)" and "visits visit P out"
  shows "\<exists>ks M'. walk_chain visit (hashtable (hashmap M) j) [] M
        = Some (concat (map (\<lambda>k. case content M k of None \<Rightarrow> [] | Some v \<Rightarrow> out k v) ks), M')
    \<and> distinct ks \<and> set ks = {k. content M k \<noteq> None \<and> index_of M k = j} \<and> engine_ok M' \<and> same_slabs M M'
    \<and> bucket_size (hashmap M') = bucket_size (hashmap M) \<and> content M' = prune (\<lambda>k v. index_of M k = j \<and> P k v) (content M)"
proof -
  obtain Ls Fs Us C where inv: "engine_inv M Ls Fs Us C"
    using assms(1) by (auto simp: engine_ok_def)
  note E = engine_invD [OF inv]
  note T = tableD [OF E(4) assms(2)]
  let ?ks = "map (key_of (memory M)) (C j)"
  have used: "a \<in> all_used (slab_managers M) Us" if "a \<in> set (C j)" for a
    using T(5) [OF that] E(5) by simp
  have keys: "k \<in> set ?ks \<longleftrightarrow> content M k \<noteq> None \<and> index_of M k = j" for k
  proof
    assume "k \<in> set ?ks"
    then show "content M k \<noteq> None \<and> index_of M k = j"
      using content_used [OF inv used] T(4) by auto
  next
    assume k: "content M k \<noteq> None \<and> index_of M k = j"
    then obtain a where a: "a \<in> all_used (slab_managers M) Us" "key_of (memory M) a = k"
      using content_iff [OF inv] by blast
    then have "a \<in> set (C j)"
      using member_bucket [OF E(4), of a] E(5) k by simp
    then show "k \<in> set ?ks"
      using a(2) by auto
  qed
  have "inj_on (key_of (memory M)) (set (C j))"
    using T(5) table_key [OF E(4)] by (auto simp: inj_on_def)
  then have d: "distinct ?ks"
    using T(2) by (simp add: distinct_map)
  obtain M' Ls' Fs' Us' C' where w: "walk_chain visit (hashtable (hashmap M) j) [] M
        = Some ([] @ concat (map (\<lambda>a. out (key_of (memory M) a) (stored_in (items (memory M) a))) (C j)), M')"
      "engine_inv M' Ls' Fs' Us' C'" "same_slabs M M'" "bucket_size (hashmap M') = bucket_size (hashmap M)"
      "content M' = prune (\<lambda>k v. k \<in> key_of (memory M) ` set (C j) \<and> P k v) (content M)"
    using walk_chain_spec [OF inv assms(2) _ T(1) assms(3), of "[]" "[]"] by auto
  have outs: "map (\<lambda>a. out (key_of (memory M) a) (stored_in (items (memory M) a))) (C j)
      = map (\<lambda>k. case content M k of None \<Rightarrow> [] | Some v \<Rightarrow> out k v) ?ks"
    using content_used [OF inv used] by simp
  have "content M' = prune (\<lambda>k v. index_of M k = j \<and> P k v) (content M)"
    unfolding w(5) by (rule prune_cong) (use keys in auto)
  then show ?thesis
    using w(1-4) d keys unfolding outs by (intro exI [of _ ?ks] exI [of _ M']) (auto simp: engine_ok_def)
qed

lemma engine_bucket: "engine_ok M \<Longrightarrow> index_of M k < bucket_size (hashmap M)"
  by (auto simp: engine_ok_def dest!: engine_invD(4) bucket_less)

lemma sweep_spec:
  assumes "engine_ok M" and "\<And>i. visits (visit i) (P i) (\<lambda>_ _. [])"
  shows "\<exists>M'. each (\<lambda>i. sweep_bucket (visit i) i) [0..<bucket_size (hashmap M)] M = Some M'
    \<and> engine_ok M' \<and> same_slabs M M' \<and> bucket_size (hashmap M') = bucket_size (hashmap M)
    \<and> content M' = prune (\<lambda>k v. P (index_of M k) k v) (content M)"
proof -
  let ?Q = "\<lambda>i M'. engine_ok M' \<and> same_slabs M M' \<and> bucket_size (hashmap M') = bucket_size (hashmap M)
    \<and> content M' = prune (\<lambda>k v. index_of M k < i \<and> P (index_of M k) k v) (content M)"
  have "\<exists>M'. each (\<lambda>i. sweep_bucket (visit i) i) [0..<bucket_size (hashmap M)] M = Some M' \<and> ?Q (bucket_size (hashmap M)) M'"
  proof (rule each_upt [where Q = ?Q])
    fix i M1
    assume i: "i < bucket_size (hashmap M)" and Q: "?Q i M1"
    then have j: "i < bucket_size (hashmap M1)" and ok: "engine_ok M1" and bs: "bucket_size (hashmap M1) = bucket_size (hashmap M)"
        and sl: "same_slabs M M1" and c: "content M1 = prune (\<lambda>k v. index_of M k < i \<and> P (index_of M k) k v) (content M)"
      by simp_all
    note idx = bucket_cong [OF bs]
    obtain ks M' where w: "walk_chain (visit i) (hashtable (hashmap M1) i) [] M1
          = Some (concat (map (\<lambda>k. case content M1 k of None \<Rightarrow> [] | Some v \<Rightarrow> []) ks), M')"
        "engine_ok M'" "same_slabs M1 M'" "bucket_size (hashmap M') = bucket_size (hashmap M1)"
        "content M' = prune (\<lambda>k v. index_of M1 k = i \<and> P i k v) (content M1)"
      using walk_bucket [OF ok j assms(2)] by blast
    have "content M' = prune (\<lambda>k v. index_of M k < Suc i \<and> P (index_of M k) k v) (content M)"
      unfolding w(5) idx c prune_prune by (rule prune_cong) (auto simp: less_Suc_eq)
    then show "\<exists>M'. sweep_bucket (visit i) i M1 = Some M' \<and> ?Q (Suc i) M'"
      using w(1,2,4) bs same_slabs_trans [OF sl w(3)] by (simp add: sweep_bucket_def)
  qed (use assms(1) prune_none [of "content M" "\<lambda>k v. False"] in auto)
  then obtain M' where M': "each (\<lambda>i. sweep_bucket (visit i) i) [0..<bucket_size (hashmap M)] M = Some M'" "?Q (bucket_size (hashmap M)) M'"
    by blast
  moreover have "prune (\<lambda>k v. index_of M k < bucket_size (hashmap M) \<and> P (index_of M k) k v) (content M)
      = prune (\<lambda>k v. P (index_of M k) k v) (content M)"
    using engine_bucket [OF assms(1)] by simp
  ultimately show ?thesis
    by auto
qed

section \<open>The passes\<close>

definition s_late :: "32 word \<Rightarrow> stored \<Rightarrow> bool" where
  "s_late now v \<longleftrightarrow> s_exptime v \<noteq> 0 \<and> s_exptime v \<le> now"

lemma s_late_item [simp]: "s_late now (stored_in it) = item_late now it"
  by (simp add: s_late_def item_late_def stored_in_def)

definition bucket_of :: "32 word \<Rightarrow> bytes \<Rightarrow> 32 word" where
  "bucket_of bucket_count k = mhash2 (drop 2 k) mod bucket_count"

lemma server_bucket_key: "item_ok it \<Longrightarrow> bucket_count \<noteq> 0 \<Longrightarrow> server_bucket bucket_count it = Some (bucket_of bucket_count (ITEM_KEY it))"
  by (simp add: server_bucket_def bucket_of_def item_ok_def)

lemma remove_deleted_item_spec:
  assumes "engine_ok M"
  shows "\<exists>M'. remove_deleted_item M = Some M' \<and> engine_ok M' \<and> same_slabs M M'
    \<and> content M' = prune (\<lambda>k v. s_flags v AND ucast TAIR_ITEM_FLAG_DELETED \<noteq> 0) (content M)"
  unfolding remove_deleted_item_def
  using sweep_spec [OF assms, of "\<lambda>_ it. Some (ITEM_FLAGS (item_id it) AND ucast TAIR_ITEM_FLAG_DELETED \<noteq> 0, [])"
      "\<lambda>_ _ v. s_flags v AND ucast TAIR_ITEM_FLAG_DELETED \<noteq> 0"]
  by (auto simp: visits_def stored_in_def)

lemma remove_exprd_item_spec:
  assumes "engine_ok M"
  shows "\<exists>M'. remove_exprd_item clock M = Some M' \<and> engine_ok M' \<and> same_slabs M M'
    \<and> content M' = prune (\<lambda>k v. s_late (clock (index_of M k)) v) (content M)"
  unfolding remove_exprd_item_def
  using sweep_spec [OF assms, of "\<lambda>i it. Some (item_late (clock i) it, [])" "\<lambda>i _ v. s_late (clock i) v"]
  by (auto simp: visits_def)

lemma close_visits:
  assumes "bucket_count \<noteq> 0"
  shows "visits (close_visit bucket_count buckets now) (\<lambda>k v. s_late now v \<or> sint (bucket_of bucket_count k) \<in> set buckets) (\<lambda>_ _. [])"
  using server_bucket_key [OF _ assms] by (auto simp: visits_def close_visit_def)

lemma close_buckets_spec:
  assumes "engine_ok M" and "bucket_count \<noteq> 0"
  shows "\<exists>M'. close_buckets bucket_count buckets clock M = Some M' \<and> engine_ok M' \<and> same_slabs M M'
    \<and> content M' = prune (\<lambda>k v. s_late (clock (index_of M k)) v \<or> sint (bucket_of bucket_count k) \<in> set buckets) (content M)"
  unfolding close_buckets_def using sweep_spec [OF assms(1) close_visits [OF assms(2)], of "\<lambda>_. buckets" clock] by blast

subsection \<open>The scan\<close>

text \<open>The entry a scan returns for a stored value.\<close>

definition info_of :: "item_meta_info \<Rightarrow> bytes \<Rightarrow> stored \<Rightarrow> item_data_info" where
  "info_of junk k v =
     \<lparr>header = junk\<lparr>keysize := of_nat (length k), valsize := of_nat (length (s_data v)), version := s_version v,
        flag := ucast (s_flags v), mdate := s_time v, edate := s_exptime v\<rparr>,
      m_data = k @ s_data v\<rparr>"

lemma item_info_stored:
  assumes "item_ok it"
  shows "item_info junk it = info_of junk (ITEM_KEY it) (stored_in it)"
proof -
  have "length (ITEM_KEY it) = unat (key_len it)" "length (ITEM_DATA it) = unat (data_len it)"
    using assms by (auto simp: item_ok_def ITEM_KEY_def ITEM_DATA_def)
  then show ?thesis
    using assms by (simp add: item_info_def info_of_def stored_in_def ITEM_KEY_def ITEM_DATA_def take_add item_ok_def min_def)
qed

definition scan_out :: "item_meta_info \<Rightarrow> 32 word \<Rightarrow> 32 word \<Rightarrow> 32 word \<Rightarrow> bytes \<Rightarrow> stored \<Rightarrow> item_data_info list" where
  "scan_out junk bucket_count db now k v = (if \<not> s_late now v \<and> bucket_of bucket_count k = db then [info_of junk k v] else [])"

lemma scan_visits:
  assumes "bucket_count \<noteq> 0"
  shows "visits (scan_visit junk bucket_count db now) (\<lambda>k v. s_late now v) (scan_out junk bucket_count db now)"
  using server_bucket_key [OF _ assms] item_info_stored by (auto simp: visits_def scan_visit_def scan_out_def)

lemma skip_empty_spec:
  "i \<le> skip_empty t i \<and> (\<forall>l. i \<le> l \<and> l < skip_empty t i \<longrightarrow> hashtable t l = 0) \<and> (skip_empty t i < bucket_size t \<longrightarrow> hashtable t (skip_empty t i) \<noteq> 0)
    \<and> (i \<le> bucket_size t \<longrightarrow> skip_empty t i \<le> bucket_size t)"
proof (induction t i rule: skip_empty.induct)
  case (1 t i)
  show ?case
  proof (cases "i < bucket_size t \<and> hashtable t i = 0")
    case True
    then show ?thesis
      using 1 [OF True] skip_empty.simps [of t i] by (auto simp: le_less_Suc_eq) (metis Suc_leI le_neq_implies_less)+
  next
    case False
    then show ?thesis
      using skip_empty.simps [of t i] by auto
  qed
qed

lemma empty_bucket:
  assumes "engine_ok M" and "j < bucket_size (hashmap M)" and "hashtable (hashmap M) j = 0" and "content M k = Some v"
  shows "index_of M k \<noteq> j"
proof
  assume j: "index_of M k = j"
  obtain Ls Fs Us C where inv: "engine_inv M Ls Fs Us C"
    using assms(1) by (auto simp: engine_ok_def)
  note E = engine_invD [OF inv]
  obtain a where a: "a \<in> all_used (slab_managers M) Us" "key_of (memory M) a = k"
    using assms(4) content_iff [OF inv] by blast
  have "a \<in> set (C j)"
    using member_bucket [OF E(4), of a] E(5) a j by simp
  moreover have "hash_chain (memory M) 0 (C j)"
    using tableD(1) [OF E(4) assms(2)] assms(3) by simp
  ultimately show False
    using id_to_item_None [of "memory M" 0] by (cases "C j") (auto simp: hash_chain_Cons)
qed

text \<open>One step of a scan: what it returns, and where it goes on.\<close>

definition scanned :: "item_meta_info \<Rightarrow> 32 word \<Rightarrow> 32 word \<Rightarrow> (bytes \<Rightarrow> 32 word) \<Rightarrow> bytes list \<Rightarrow> (bytes \<Rightarrow> stored option) \<Rightarrow> item_data_info list" where
  "scanned junk bucket_count db now ks c =
     concat (map (\<lambda>k. case c k of None \<Rightarrow> [] | Some v \<Rightarrow> scan_out junk bucket_count db (now k) k v) ks)"

lemma get_next_items_spec:
  assumes "engine_ok M" and "bucket_count \<noteq> 0" and "hash_index info \<le> bucket_size (hashmap M)"
  shows "\<exists>ks i M'. get_next_items junk bucket_count now info M
        = Some (i < bucket_size (hashmap M), scanned junk bucket_count (db_id info) (\<lambda>_. now) ks (content M), info\<lparr>hash_index := i\<rparr>, M')
    \<and> i \<le> bucket_size (hashmap M) \<and> (i = bucket_size (hashmap M) \<or> hash_index info < i)
    \<and> distinct ks \<and> set ks = {k. content M k \<noteq> None \<and> hash_index info \<le> index_of M k \<and> index_of M k < i}
    \<and> engine_ok M' \<and> same_slabs M M' \<and> bucket_size (hashmap M') = bucket_size (hashmap M)
    \<and> content M' = prune (\<lambda>k v. hash_index info \<le> index_of M k \<and> index_of M k < i \<and> s_late now v) (content M)"
proof -
  let ?bs = "bucket_size (hashmap M)" and ?j = "hash_index info"
  define i where "i = skip_empty (hashmap M) ?j"
  have i: "?j \<le> i" "\<And>l. ?j \<le> l \<Longrightarrow> l < i \<Longrightarrow> hashtable (hashmap M) l = 0" "i \<le> ?bs"
    using skip_empty_spec [of ?j "hashmap M"] assms(3) unfolding i_def by blast+
  have none: "\<not> (?j \<le> index_of M k \<and> index_of M k < i)" if "content M k = Some v" for k v
    using empty_bucket [OF assms(1) engine_bucket [OF assms(1)] i(2) that] by blast
  show ?thesis
  proof (cases "?bs \<le> i")
    case True
    have "prune (\<lambda>k v. ?j \<le> index_of M k \<and> index_of M k < i \<and> s_late now v) (content M) = content M"
      by (rule prune_none) (use none in blast)
    moreover have "{k. content M k \<noteq> None \<and> ?j \<le> index_of M k \<and> index_of M k < i} = {}"
      using none by auto
    ultimately show ?thesis
      using True i(3) assms(1) by (intro exI [of _ "[]"] exI [of _ i] exI [of _ M]) (simp add: get_next_items_def i_def [symmetric] scanned_def)
  next
    case False
    then have "i < ?bs"
      by simp
    obtain ks M' where w: "walk_chain (scan_visit junk bucket_count (db_id info) now) (hashtable (hashmap M) i) [] M
          = Some (scanned junk bucket_count (db_id info) (\<lambda>_. now) ks (content M), M')"
        "distinct ks" "set ks = {k. content M k \<noteq> None \<and> index_of M k = i}" "engine_ok M'" "same_slabs M M'"
        "bucket_size (hashmap M') = ?bs" "content M' = prune (\<lambda>k v. index_of M k = i \<and> s_late now v) (content M)"
      using walk_bucket [OF assms(1) \<open>i < ?bs\<close> scan_visits [OF assms(2)], of junk "db_id info" now] unfolding scanned_def by blast
    have idx: "index_of M k = i \<longleftrightarrow> ?j \<le> index_of M k \<and> index_of M k < Suc i" if "content M k = Some v" for k v
      using none [OF that] i(1) by (auto simp: less_Suc_eq)
    have ks: "set ks = {k. content M k \<noteq> None \<and> ?j \<le> index_of M k \<and> index_of M k < Suc i}"
      using w(3) idx by auto
    have c: "content M' = prune (\<lambda>k v. ?j \<le> index_of M k \<and> index_of M k < Suc i \<and> s_late now v) (content M)"
      unfolding w(7) by (rule prune_cong) (use idx in blast)
    have g: "get_next_items junk bucket_count now info M
        = Some (Suc i < ?bs, scanned junk bucket_count (db_id info) (\<lambda>_. now) ks (content M), info\<lparr>hash_index := Suc i\<rparr>, M')"
      using \<open>i < ?bs\<close> w(1,6) by (simp add: get_next_items_def i_def [symmetric])
    show ?thesis
      using g w(2,4-6) ks c \<open>i < ?bs\<close> i(1) by (intro exI [of _ ks] exI [of _ "Suc i"] exI [of _ M']) simp
  qed
qed

subsection \<open>Clearing an area\<close>

lemma area_list:
  assumes "engine_inv M Ls Fs Us C" and "i < length (slab_managers M)" and "x < TAIR_MAX_AREA_COUNT"
  shows "path (item_nx (memory M)) (id_to_item (memory M) (item_head (slab_managers M ! i) x)) (Us i x) None"
    and "distinct (Us i x)"
proof -
  have "lru_list (slab_managers M ! i) (memory M) x (Us i x)"
    using cache_invD(1) [OF engine_invD(1) [OF assms(1)] assms(2)] assms(3) by (auto simp: slab_inv_def slab_core_def lru_def)
  then show "path (item_nx (memory M)) (id_to_item (memory M) (item_head (slab_managers M ! i) x)) (Us i x) None" "distinct (Us i x)"
    by (simp_all add: lru_list_def dlist_def)
qed

lemma links_gone_at:
  assumes "engine_inv M Ls Fs Us C" and "links_gone M Us C a M' Us' C'" and "at_place (slab_managers M) Us i x a"
  shows "Us' = Us(i := (Us i)(x := remove1 a (Us i x)))"
proof -
  obtain j z where jz: "at_place (slab_managers M) Us j z a" "Us' = Us(j := (Us j)(z := remove1 a (Us j z)))"
    using assms(2) by (auto simp: links_gone_def)
  then have "i = j \<and> x = z"
    using at_place_unique [OF engine_invD(1) [OF assms(1)] assms(3)] by blast
  then show ?thesis
    using jz(2) by blast
qed

lemma clear_list_spec:
  assumes "engine_inv M Ls Fs Us C" and "i < length (slab_managers M)" and "x < TAIR_MAX_AREA_COUNT"
    and "path (item_nx (memory M)) (id_to_item (memory M) w) (Us i x) None"
  shows "\<exists>M' Ls' Fs' C'. clear_list w M = Some M' \<and> engine_inv M' Ls' Fs' (Us(i := (Us i)(x := []))) C' \<and> same_slabs M M'
    \<and> content M' = prune (\<lambda>k v. k \<in> key_of (memory M) ` set (Us i x)) (content M)"
  using assms
proof (induction "Us i x" arbitrary: M Ls Fs Us C w)
  case Nil
  then have "w = 0"
    by (simp add: id_to_item_None)
  then have c: "clear_list w M = Some M"
    by (simp add: clear_list.simps)
  have u: "Us(i := (Us i)(x := [])) = Us"
    using Nil(1) by (simp add: fun_eq_iff)
  have p: "prune (\<lambda>k v. k \<in> key_of (memory M) ` set (Us i x)) (content M) = content M"
    using Nil(1) by (intro prune_none) (metis empty_iff empty_set image_is_empty)
  show ?case
    unfolding u p using c Nil(2) same_slabs_refl by blast
next
  case (Cons a ys)
  note U = Cons.hyps(2) [symmetric]
  let ?it = "items (memory M) a" and ?k = "key_of (memory M) a"
  have w: "id_to_item (memory M) w = Some a" "w \<noteq> 0" "path (item_nx (memory M)) (id_to_item (memory M) (i_next ?it)) ys None"
    using Cons.prems(4) id_to_item_None [of "memory M" w] unfolding U by (auto simp: item_nx_def)
  have at: "at_place (slab_managers M) Us i x a"
    using Cons.prems(2,3) U by (simp add: at_place_def)
  have used: "b \<in> all_used (slab_managers M) Us" if "b \<in> set (a # ys)" for b
    using at_place_used [of "slab_managers M" Us i x b] that Cons.prems(2,3) U by (simp add: at_place_def)
  have d: "a \<notin> set ys"
    using area_list(2) [OF Cons.prems(1-3)] U by simp
  obtain M1 Ls1 Fs1 Us1 C1 where r: "remove_item a M = Some M1" "engine_inv M1 Ls1 Fs1 Us1 C1" "item_gone M Us a M1 Us1"
      "links_gone M Us C a M1 Us1 C1" "content M1 = (content M)(?k := None)"
    using remove_item_links [OF Cons.prems(1) used [of a]] by auto
  have Us1: "Us1 = Us(i := (Us i)(x := ys))"
    using links_gone_at [OF Cons.prems(1) r(4) at] U by simp
  then have U1: "Us1 i x = ys"
    by simp
  have sl: "same_slabs M M1" "mp_page_size (pool (memory M1)) = mp_page_size (pool (memory M))" "i < length (slab_managers M1)"
    using r(3,4) Cons.prems(2) by (simp_all add: item_gone_def links_gone_def same_slabs_def)
  have id: "id_to_item (memory M1) v = id_to_item (memory M) v" for v
    by (simp add: id_to_item_def sl(2))
  have "path (item_nx (memory M1)) (id_to_item (memory M1) (item_head (slab_managers M1 ! i) x)) ys None"
    using area_list(1) [OF r(2) sl(3) Cons.prems(3)] U1 by simp
  then have "path (item_nx (memory M1)) (id_to_item (memory M1) (i_next ?it)) (Us1 i x) None"
    using w(3) unfolding U1 id by (cases ys) auto
  from Cons.hyps(1) [OF U1 [symmetric] r(2) sl(3) Cons.prems(3) this]
  obtain M' Ls' Fs' C' where IH: "clear_list (i_next ?it) M1 = Some M'" "engine_inv M' Ls' Fs' (Us1(i := (Us1 i)(x := []))) C'"
      "same_slabs M1 M'" "content M' = prune (\<lambda>k v. k \<in> key_of (memory M1) ` set ys) (content M1)"
    unfolding U1 by blast
  have "b \<noteq> a" if "b \<in> set ys" for b
    using that d by auto
  then have "bare (items (memory M1) b) = bare (items (memory M) b)" if "b \<in> set ys" for b
    using r(3) that by (simp add: item_gone_def)
  then have keys: "key_of (memory M1) ` set ys = key_of (memory M) ` set ys"
    by (intro image_cong refl bare_stored(2))
  have "clear_list w M = Some M'"
    using w r(1) IH(1) by (simp add: clear_list.simps [of w])
  moreover have "engine_inv M' Ls' Fs' (Us(i := (Us i)(x := []))) C'"
    using IH(2) by (simp add: Us1)
  moreover have "content M' = prune (\<lambda>k v. k \<in> key_of (memory M) ` set (Us i x)) (content M)"
    unfolding IH(4) keys r(5) U by (auto simp: prune_def fun_eq_iff split: option.splits)
  ultimately show ?case
    using same_slabs_trans [OF sl(1) IH(3)] by blast
qed

lemma area_key:
  assumes "engine_inv M Ls Fs Us C" and "at_place (slab_managers M) Us i x a"
  shows "KEY_AREA (key_of (memory M) a) = x"
  using at_place_area [OF engine_invD(2) [OF assms(1)] assms(2)] key_area(1) [OF engine_invD(6) [OF assms(1)]] at_place_used [OF assms(2)] by simp

lemma clear_area_spec:
  assumes "engine_ok M" and "x < TAIR_MAX_AREA_COUNT"
  shows "\<exists>M'. clear_area x M = Some M' \<and> engine_ok M' \<and> same_slabs M M' \<and> content M' = prune (\<lambda>k v. KEY_AREA k = x) (content M)"
proof -
  let ?n = "length (slab_managers M)"
  let ?Q = "\<lambda>i M'. (\<exists>Ls Fs Us C. engine_inv M' Ls Fs Us C \<and> (\<forall>j<i. Us j x = [])) \<and> same_slabs M M'
    \<and> (\<exists>P. content M' = prune P (content M) \<and> (\<forall>k v. P k v \<longrightarrow> KEY_AREA k = x))"
  have "\<exists>M'. clear_area x M = Some M' \<and> ?Q ?n M'"
    unfolding clear_area_def
  proof (rule each_upt [where Q = ?Q])
    fix i M1
    assume i: "i < ?n" and Q: "?Q i M1"
    then obtain Ls Fs Us C P where E: "engine_inv M1 Ls Fs Us C" "\<forall>j<i. Us j x = []" "same_slabs M M1"
        "content M1 = prune P (content M)" "\<forall>k v. P k v \<longrightarrow> KEY_AREA k = x"
      by blast
    have i1: "i < length (slab_managers M1)"
      using i E(3) by (simp add: same_slabs_def)
    have h: "get_item_head i x (slab_managers M1) = Some (item_head (slab_managers M1 ! i) x)"
      using i1 assms(2) by (simp add: get_item_head_def)
    obtain M' Ls' Fs' C' where c: "clear_list (item_head (slab_managers M1 ! i) x) M1 = Some M'"
        "engine_inv M' Ls' Fs' (Us(i := (Us i)(x := []))) C'" "same_slabs M1 M'"
        "content M' = prune (\<lambda>k v. k \<in> key_of (memory M1) ` set (Us i x)) (content M1)"
      using clear_list_spec [OF E(1) i1 assms(2) area_list(1) [OF E(1) i1 assms(2)]] by blast
    have "KEY_AREA k = x" if "k \<in> key_of (memory M1) ` set (Us i x)" for k
      using area_key [OF E(1), of i x] that i1 assms(2) by (auto simp: at_place_def)
    then have "\<exists>P. content M' = prune P (content M) \<and> (\<forall>k v. P k v \<longrightarrow> KEY_AREA k = x)"
      unfolding c(4) E(4) prune_prune using E(5) by blast
    moreover have "\<exists>Ls Fs Us C. engine_inv M' Ls Fs Us C \<and> (\<forall>j<Suc i. Us j x = [])"
      by (rule exI [of _ Ls'], rule exI [of _ Fs'], rule exI [of _ "Us(i := (Us i)(x := []))"], rule exI [of _ C'])
        (use c(2) E(2) in \<open>simp add: less_Suc_eq\<close>)
    ultimately show "\<exists>M'. do { w \<leftarrow> get_item_head i x (slab_managers M1); clear_list w M1 } = Some M' \<and> ?Q (Suc i) M'"
      unfolding h using c(1) same_slabs_trans [OF E(3) c(3)] by simp
  next
    have "content M = prune (\<lambda>k v. False) (content M)"
      using prune_none [of "content M" "\<lambda>k v. False"] by simp
    then show "?Q 0 M"
      using assms(1) unfolding engine_ok_def by (metis not_less_zero same_slabs_refl)
  qed simp
  then obtain M' Ls Fs Us C P where M': "clear_area x M = Some M'" "engine_inv M' Ls Fs Us C" "\<forall>j<?n. Us j x = []" "same_slabs M M'"
      "content M' = prune P (content M)" "\<forall>k v. P k v \<longrightarrow> KEY_AREA k = x"
    by blast
  have gone: "KEY_AREA k \<noteq> x" if k: "content M' k = Some v" for k v
  proof -
    obtain a where a: "a \<in> all_used (slab_managers M') Us" "key_of (memory M') a = k"
      using k content_iff [OF M'(2)] by blast
    obtain j z where jz: "at_place (slab_managers M') Us j z a"
      using at_placeE [OF a(1)] .
    then have "z \<noteq> x"
      using M'(3,4) by (auto simp: at_place_def same_slabs_def)
    then show ?thesis
      using area_key [OF M'(2) jz] a(2) by simp
  qed
  have "content M' = prune (\<lambda>k v. KEY_AREA k = x) (content M)"
    unfolding M'(5) by (rule prune_cong) (use gone M'(5,6) in auto)
  then show ?thesis
    using M'(1,2,4) by (auto simp: engine_ok_def)
qed

lemma clear_all_spec:
  assumes "engine_ok M"
  shows "\<exists>M'. each clear_area [0..<TAIR_MAX_AREA_COUNT] M = Some M' \<and> engine_ok M' \<and> same_slabs M M'
    \<and> content M' = prune (\<lambda>k v. KEY_AREA k < TAIR_MAX_AREA_COUNT) (content M)"
proof (rule each_upt [where Q = "\<lambda>i M'. engine_ok M' \<and> same_slabs M M' \<and> content M' = prune (\<lambda>k v. KEY_AREA k < i) (content M)"])
  fix i M1
  assume i: "i < TAIR_MAX_AREA_COUNT" and Q: "engine_ok M1 \<and> same_slabs M M1 \<and> content M1 = prune (\<lambda>k v. KEY_AREA k < i) (content M)"
  obtain M' where c: "clear_area i M1 = Some M'" "engine_ok M'" "same_slabs M1 M'" "content M' = prune (\<lambda>k v. KEY_AREA k = i) (content M1)"
    using clear_area_spec [OF _ i] Q by blast
  have "content M' = prune (\<lambda>k v. KEY_AREA k < Suc i) (content M)"
    unfolding c(4) using Q by (simp add: prune_prune less_Suc_eq)
  then show "\<exists>M'. clear_area i M1 = Some M' \<and> engine_ok M' \<and> same_slabs M M' \<and> content M' = prune (\<lambda>k v. KEY_AREA k < Suc i) (content M)"
    using c(1,2) Q same_slabs_trans [OF _ c(3)] by blast
qed (use assms prune_none [of "content M" "\<lambda>k v. False"] in auto)

end
