(* ===== verification/Storage_Manager.thy ===== *)
theory Storage_Manager
  imports Mdb_Sweep
begin

text \<open>
  The interface between the data server and its storage engine (\<open>storage/storage_manager.hpp\<close>): the
  virtual functions as a record of functions, the base class that answers "not implemented", and the
  memory engine as an instance. The locale states what the server relies on, that an engine behaves as a
  map from keys to stored values; the memory engine is shown to satisfy it.
\<close>

section \<open>Model\<close>

definition TAIR_RETURN_IS_NOT_IMPLEMENT :: int where
  "TAIR_RETURN_IS_NOT_IMPLEMENT = - 20008"

datatype LeftOrRight = IS_LEFT | IS_RIGHT

datatype ExistOrNot = IS_NOT_EXIST | IS_EXIST | IS_NOT_EXIST_AND_EXPIRE | IS_EXIST_AND_EXPIRE

text \<open>The last arguments of the calls that change a structure: version care, version and expiry.\<close>

type_synonym write_mode = "bool \<times> 16 word \<times> int"

text \<open>
  The virtual functions for keys, lists, hashes and sets, one constructor each with its arguments, in the
  groups of the header file; \<open>'d\<close> stands for \<open>double\<close>.
\<close>

datatype key_call = Ttl | Type | Expire int | Expireat int | Persist | Exists | Getset data_entry write_mode

datatype list_call = Lindex int | Lrpush "data_entry list" LeftOrRight ExistOrNot int write_mode
  | Lrpop int LeftOrRight write_mode | Ltrim int int write_mode | Llen | Lrem int data_entry write_mode | Lrange int int
  | Lset int data_entry write_mode

datatype hash_call = Hgetall | Hkeys | Hvals | Hincrby data_entry int write_mode | Hmset "data_entry list" write_mode
  | Hset data_entry data_entry write_mode | Hsetnx data_entry data_entry write_mode | Hexists data_entry
  | Hget data_entry | Hmget "data_entry list" "data_entry list" | Hdel data_entry write_mode | Hlen

datatype set_call = Scard | Smembers | Sadd data_entry write_mode | Srem data_entry write_mode | Spop write_mode

datatype 'd zset_call = Zscore data_entry | Zrange int int int | Zrevrange int int int | Zrangebyscore 'd 'd int int
  | Zrevrangebyscore 'd 'd int int | Zadd 'd data_entry write_mode | Zrank data_entry | Zrevrank data_entry | Zcount 'd 'd
  | Zincrby data_entry 'd write_mode | Zcard | Zrem data_entry write_mode | Zremrangebyrank int int write_mode
  | Zremrangebyscore 'd 'd write_mode

datatype 'd structure_call = Key_call key_call | List_call list_call | Hash_call hash_call | Set_call set_call
  | Zset_call "'d zset_call"

text \<open>The functions that concern a whole area or its filters.\<close>

datatype area_call = Lazyclear | Dumparea | Loadarea
  | Addfilter data_entry data_entry data_entry | Removefilter data_entry data_entry data_entry

text \<open>The arguments through which the calls on structures return numbers, an entry, entries and scores.\<close>

record 'd out_args =
  o_num :: int
  o_len :: int
  o_value :: data_entry
  o_values :: "data_entry list"
  o_score :: 'd
  o_scores :: "'d list"

text \<open>
  A call gets the object and returns its code, the key and the other arguments it may write to, and the
  object; \<open>None\<close> means that the process dies.
\<close>

record ('d, 'o) storage_vtable =
  v_put :: "32 word \<Rightarrow> data_entry \<Rightarrow> data_entry \<Rightarrow> bool \<Rightarrow> int \<Rightarrow> 'o \<Rightarrow> (int \<times> data_entry \<times> 'o) option"
  v_putnx :: "32 word \<Rightarrow> data_entry \<Rightarrow> data_entry \<Rightarrow> bool \<Rightarrow> int \<Rightarrow> 'o \<Rightarrow> (int \<times> data_entry \<times> 'o) option"
  v_get :: "32 word \<Rightarrow> data_entry \<Rightarrow> data_entry \<Rightarrow> 'o \<Rightarrow> (int \<times> data_entry \<times> data_entry \<times> 'o) option"
  v_remove :: "32 word \<Rightarrow> data_entry \<Rightarrow> bool \<Rightarrow> 'o \<Rightarrow> (int \<times> data_entry \<times> 'o) option"
  v_incdecr :: "32 word \<Rightarrow> data_entry \<Rightarrow> int \<Rightarrow> int \<Rightarrow> int \<Rightarrow> write_mode \<Rightarrow> 'o \<Rightarrow> (int \<times> data_entry \<times> int \<times> 'o) option"
  v_structure :: "'d structure_call \<Rightarrow> 32 word \<Rightarrow> data_entry \<Rightarrow> 'd out_args \<Rightarrow> 'o \<Rightarrow> (int \<times> data_entry \<times> 'd out_args \<times> 'o) option"
  v_area :: "area_call \<Rightarrow> 32 word \<Rightarrow> 'o \<Rightarrow> (int \<times> 'o) option"
  v_clear :: "int \<Rightarrow> 'o \<Rightarrow> (int \<times> 'o) option"
  v_init_buckets :: "int list \<Rightarrow> 'o \<Rightarrow> (bool \<times> 'o) option"
  v_close_buckets :: "int list \<Rightarrow> 'o \<Rightarrow> 'o option"
  v_get_next_items :: "md_info \<Rightarrow> 'o \<Rightarrow> (bool \<times> item_data_info list \<times> md_info \<times> 'o) option"
  v_begin_scan :: "md_info \<Rightarrow> 'o \<Rightarrow> (md_info \<times> 'o) option"
  v_end_scan :: "md_info \<Rightarrow> 'o \<Rightarrow> (md_info \<times> 'o) option"

text \<open>The base class: its field, and what it answers to the functions an engine does not override.\<close>

record 'e storage_manager =
  bucket_count :: "32 word"
  derived :: 'e

definition set_bucket_count :: "32 word \<Rightarrow> 'e storage_manager \<Rightarrow> 'e storage_manager" where
  "set_bucket_count n S = (if bucket_count S \<noteq> 0 then S else S\<lparr>bucket_count := n\<rparr>)"

definition default_putnx :: "32 word \<Rightarrow> data_entry \<Rightarrow> data_entry \<Rightarrow> bool \<Rightarrow> int \<Rightarrow> 'o \<Rightarrow> (int \<times> data_entry \<times> 'o) option" where
  "default_putnx a key v version_care expire_time S = Some (TAIR_RETURN_IS_NOT_IMPLEMENT, key, S)"

definition default_incdecr :: "32 word \<Rightarrow> data_entry \<Rightarrow> int \<Rightarrow> int \<Rightarrow> int \<Rightarrow> write_mode \<Rightarrow> 'o \<Rightarrow> (int \<times> data_entry \<times> int \<times> 'o) option" where
  "default_incdecr a key init_value addvalue retvalue mode S = Some (TAIR_RETURN_IS_NOT_IMPLEMENT, key, retvalue, S)"

definition default_structure :: "'d structure_call \<Rightarrow> 32 word \<Rightarrow> data_entry \<Rightarrow> 'd out_args \<Rightarrow> 'o \<Rightarrow> (int \<times> data_entry \<times> 'd out_args \<times> 'o) option" where
  "default_structure call a key r S = Some (TAIR_RETURN_IS_NOT_IMPLEMENT, key, r, S)"

definition default_area :: "area_call \<Rightarrow> 32 word \<Rightarrow> 'o \<Rightarrow> (int \<times> 'o) option" where
  "default_area call a S = Some (TAIR_RETURN_IS_NOT_IMPLEMENT, S)"

text \<open>
  The memory engine as it answers at the time \<open>now\<close>; a pass reads the clock for each hash bucket. \<open>junk\<close> is
  the content of fresh memory, \<open>balance_slab\<close> the balancing of the slabs.
\<close>

definition mdb_vtable ::
  "(mdb_manager \<Rightarrow> mdb_manager option) \<Rightarrow> item_meta_info \<Rightarrow> (nat \<Rightarrow> 32 word) \<Rightarrow> 32 word \<Rightarrow> ('d, mdb_manager storage_manager) storage_vtable" where
  "mdb_vtable balance_slab junk clock now =
     \<lparr>v_put = \<lambda>a key v version_care ex S. do {
        (rc, key, M) \<leftarrow> do_put now key v version_care ex (derived S);
        Some (rc, key, S\<lparr>derived := M\<rparr>) },
      v_putnx = default_putnx,
      v_get = \<lambda>a key v S. do {
        (rc, key, v, M) \<leftarrow> do_get now key v (derived S);
        Some (rc, key, v, S\<lparr>derived := M\<rparr>) },
      v_remove = \<lambda>a key version_care S. do {
        (rc, key, M) \<leftarrow> do_remove key (derived S);
        Some (rc, key, S\<lparr>derived := M\<rparr>) },
      v_incdecr = default_incdecr,
      v_structure = default_structure,
      v_area = default_area,
      v_clear = \<lambda>ar S. do {
        M \<leftarrow> mdb_clear balance_slab clock ar (derived S);
        Some (0, S\<lparr>derived := M\<rparr>) },
      v_init_buckets = \<lambda>buckets S. Some (True, S),
      v_close_buckets = \<lambda>buckets S. do {
        M \<leftarrow> close_buckets (bucket_count S) buckets clock (derived S);
        Some (S\<lparr>derived := M\<rparr>) },
      v_get_next_items = \<lambda>info S. do {
        (more, found, info, M) \<leftarrow> get_next_items junk (bucket_count S) now info (derived S);
        Some (more, found, info, S\<lparr>derived := M\<rparr>) },
      v_begin_scan = \<lambda>info S. Some (begin_scan info, S),
      v_end_scan = \<lambda>info S. Some (info, S)\<rparr>"

section \<open>An engine as a map\<close>

text \<open>
  Storing under a key: nothing else goes, or one evicted entry does, whose expiry time the new entry
  inherits when the request names none.
\<close>

definition stores :: "(bytes \<Rightarrow> stored option) \<Rightarrow> bytes \<Rightarrow> (32 word \<Rightarrow> stored) \<Rightarrow> (bytes \<Rightarrow> stored option) \<Rightarrow> bool" where
  "stores c k v c' \<longleftrightarrow> c' = c(k \<mapsto> v 0) \<or> (\<exists>k1 w. k1 \<noteq> k \<and> c k1 = Some w \<and> c' = c(k1 := None, k \<mapsto> v (s_exptime w)))"

lemma storesD:
  assumes "stores c k v c'"
  shows "\<exists>et. c' k = Some (v et)" and "\<And>k1. k1 \<noteq> k \<Longrightarrow> c' k1 = c k1 \<or> c' k1 = None"
  using assms by (auto simp: stores_def split: if_splits)

text \<open>
  What the data server relies on: the engine as it answers at a time, which states are in order, the map
  a state holds, and which sizes it has room for.
\<close>

locale map_engine =
  fixes vt :: "(nat \<Rightarrow> 32 word) \<Rightarrow> 32 word \<Rightarrow> ('d, 'e storage_manager) storage_vtable"
    and ok :: "'e storage_manager \<Rightarrow> bool"
    and holds :: "'e storage_manager \<Rightarrow> bytes \<Rightarrow> stored option"
    and room :: "'e storage_manager \<Rightarrow> nat \<Rightarrow> bool"
    and place :: "'e storage_manager \<Rightarrow> bytes \<Rightarrow> nat"
  assumes put_conflict: "\<lbrakk>ok S; storable key d; room S (length (entry_data key) + length (entry_data d));
      conflict now vc (version (data_meta key)) (holds S (entry_data key))\<rbrakk>
    \<Longrightarrow> \<exists>key'. v_put (vt clock now) a key d vc ex S = Some (TAIR_RETURN_VERSION_ERROR, key', S)"
    and put_stores: "\<lbrakk>ok S; storable key d; room S (length (entry_data key) + length (entry_data d));
      \<not> conflict now vc (version (data_meta key)) (holds S (entry_data key))\<rbrakk>
    \<Longrightarrow> \<exists>key' S' old. v_put (vt clock now) a key d vc ex S = Some (0, key', S') \<and> ok S' \<and> room S' = room S \<and> bucket_count S' = bucket_count S
      \<and> (old = 0 \<or> old = TAIR_ITEM_FLAG_DELETED)
      \<and> stores (holds S) (entry_data key) (put_entry now key d vc ex (holds S (entry_data key)) old) (holds S')"
    and get_reads: "\<lbrakk>ok S; 2 \<le> length (entry_data key); unat (area key) = KEY_AREA (entry_data key); unat (area key) < TAIR_MAX_AREA_COUNT\<rbrakk>
    \<Longrightarrow> \<exists>key' value' S'. v_get (vt clock now) a key v S = Some (get_result now (holds S (entry_data key)), key', value', S')
      \<and> ok S' \<and> room S' = room S \<and> bucket_count S' = bucket_count S
      \<and> holds S' = (holds S)(entry_data key := live now (holds S (entry_data key)))
      \<and> answered (live now (holds S (entry_data key))) key v key' value'"
    and remove_removes: "\<lbrakk>ok S; entry_data key \<noteq> []; unat (area key) < TAIR_MAX_AREA_COUNT\<rbrakk>
    \<Longrightarrow> \<exists>key' S'. v_remove (vt clock now) a key vc S = Some (if holds S (entry_data key) = None then TAIR_RETURN_DATA_NOT_EXIST else 0, key', S')
      \<and> ok S' \<and> room S' = room S \<and> bucket_count S' = bucket_count S \<and> holds S' = (holds S)(entry_data key := None)"
    and incdecr_missing: "v_incdecr (vt clock now) a key init_value addvalue r mode S = Some (TAIR_RETURN_IS_NOT_IMPLEMENT, key, r, S)"
    and close_removes: "\<lbrakk>ok S; bucket_count S \<noteq> 0\<rbrakk>
    \<Longrightarrow> \<exists>S'. v_close_buckets (vt clock now) buckets S = Some S' \<and> ok S' \<and> room S' = room S \<and> bucket_count S' = bucket_count S
      \<and> holds S' = prune (\<lambda>k v. s_late (clock (place S k)) v \<or> sint (bucket_of (bucket_count S) k) \<in> set buckets) (holds S)"
    and init_keeps: "v_init_buckets (vt clock now) buckets S = Some (True, S)"
    and count_kept: "ok (S\<lparr>bucket_count := n\<rparr>) = ok S" "holds (S\<lparr>bucket_count := n\<rparr>) = holds S" "room (S\<lparr>bucket_count := n\<rparr>) = room S"

text \<open>
  An engine whose buckets can be scanned, as a migration does: each call goes some places on, returns the
  live entries of the bucket found there, each once, and removes the expired ones.
\<close>

locale scan_engine = map_engine +
  fixes junk :: item_meta_info
    and places :: "'e storage_manager \<Rightarrow> nat"
  assumes scan_begins: "v_begin_scan (vt clock now) info S = Some (info\<lparr>hash_index := 0\<rparr>, S)"
    and scan_ends: "v_end_scan (vt clock now) info S = Some (info, S)"
    and place_bound: "ok S \<Longrightarrow> place S k < places S"
    and scan_next: "\<lbrakk>ok S; bucket_count S \<noteq> 0; hash_index info \<le> places S\<rbrakk>
    \<Longrightarrow> \<exists>ks i S'. v_get_next_items (vt clock now) info S
        = Some (i < places S, scanned junk (bucket_count S) (db_id info) (\<lambda>_. now) ks (holds S), info\<lparr>hash_index := i\<rparr>, S')
      \<and> i \<le> places S \<and> (i = places S \<or> hash_index info < i)
      \<and> distinct ks \<and> set ks = {k. holds S k \<noteq> None \<and> hash_index info \<le> place S k \<and> place S k < i}
      \<and> ok S' \<and> room S' = room S \<and> bucket_count S' = bucket_count S \<and> places S' = places S \<and> place S' = place S
      \<and> holds S' = prune (\<lambda>k v. hash_index info \<le> place S k \<and> place S k < i \<and> s_late now v) (holds S)"

section \<open>The memory engine is a map\<close>

definition mdb_ok :: "mdb_manager storage_manager \<Rightarrow> bool" where
  "mdb_ok S \<longleftrightarrow> engine_ok (derived S)"

definition mdb_holds :: "mdb_manager storage_manager \<Rightarrow> bytes \<Rightarrow> stored option" where
  "mdb_holds S = content (derived S)"

definition mdb_room :: "mdb_manager storage_manager \<Rightarrow> nat \<Rightarrow> bool" where
  "mdb_room S n \<longleftrightarrow> get_slabmng (n + sizeof_mdb_item) (slab_managers (derived S)) \<noteq> None"

definition mdb_place :: "mdb_manager storage_manager \<Rightarrow> bytes \<Rightarrow> nat" where
  "mdb_place S = get_bucket_index (hashmap (derived S))"

lemmas mdb_defs = mdb_ok_def mdb_holds_def mdb_room_def mdb_place_def

lemma room_same: "same_slabs (derived S) M \<Longrightarrow> mdb_room (S\<lparr>derived := M\<rparr>) = mdb_room S"
  by (simp add: mdb_room_def fun_eq_iff same_slabs_slabmng)

lemma put_effect_stores: "put_effect M k v M' = stores (content M) k v (content M')"
  by (simp add: put_effect_def stores_def)

lemma mdb_put:
  assumes "mdb_ok S" and "storable key d" and "mdb_room S (length (entry_data key) + length (entry_data d))"
  shows "if conflict now vc (version (data_meta key)) (mdb_holds S (entry_data key))
    then \<exists>key'. v_put (mdb_vtable bal junk clock now) a key d vc ex S = Some (TAIR_RETURN_VERSION_ERROR, key', S)
    else \<exists>key' S' old. v_put (mdb_vtable bal junk clock now) a key d vc ex S = Some (0, key', S') \<and> mdb_ok S' \<and> mdb_room S' = mdb_room S
      \<and> bucket_count S' = bucket_count S \<and> (old = 0 \<or> old = TAIR_ITEM_FLAG_DELETED)
      \<and> stores (mdb_holds S) (entry_data key) (put_entry now key d vc ex (mdb_holds S (entry_data key)) old) (mdb_holds S')"
proof -
  obtain i where i: "get_slabmng (length (entry_data key) + length (entry_data d) + sizeof_mdb_item) (slab_managers (derived S)) = Some i"
    using assms(3) by (auto simp: mdb_room_def)
  note p = put_spec [OF assms(1) [unfolded mdb_ok_def] assms(2) i, of now vc ex, folded mdb_holds_def [unfolded fun_eq_iff, rule_format]]
  show ?thesis
  proof (cases "conflict now vc (version (data_meta key)) (mdb_holds S (entry_data key))")
    case True
    then show ?thesis
      using p by (auto simp: mdb_vtable_def mdb_holds_def)
  next
    case False
    then obtain key' M' old where q: "do_put now key d vc ex (derived S) = Some (0, key', M')" "engine_ok M'" "same_slabs (derived S) M'"
        "put_effect (derived S) (entry_data key) (put_entry now key d vc ex (mdb_holds S (entry_data key)) old) M'"
        "old = 0 \<or> old = TAIR_ITEM_FLAG_DELETED"
      using p by (auto simp: mdb_holds_def)
    then show ?thesis
      using False room_same [OF q(3)] put_effect_stores
      by (auto simp: mdb_vtable_def mdb_ok_def mdb_holds_def intro!: exI [of _ key'] exI [of _ "S\<lparr>derived := M'\<rparr>"] exI [of _ old])
  qed
qed

interpretation mdb: map_engine "mdb_vtable bal junk" mdb_ok mdb_holds mdb_room mdb_place
  for bal junk
proof
  fix S key d now vc clock a ex v buckets
  show "\<exists>key'. v_put (mdb_vtable bal junk clock now) a key d vc ex S = Some (TAIR_RETURN_VERSION_ERROR, key', S)"
    if "mdb_ok S" "storable key d" "mdb_room S (length (entry_data key) + length (entry_data d))"
      "conflict now vc (version (data_meta key)) (mdb_holds S (entry_data key))"
    using mdb_put [OF that(1-3), of now vc bal junk clock a ex] that(4) by simp
  show "\<exists>key' S' old. v_put (mdb_vtable bal junk clock now) a key d vc ex S = Some (0, key', S') \<and> mdb_ok S' \<and> mdb_room S' = mdb_room S
      \<and> bucket_count S' = bucket_count S \<and> (old = 0 \<or> old = TAIR_ITEM_FLAG_DELETED)
      \<and> stores (mdb_holds S) (entry_data key) (put_entry now key d vc ex (mdb_holds S (entry_data key)) old) (mdb_holds S')"
    if "mdb_ok S" "storable key d" "mdb_room S (length (entry_data key) + length (entry_data d))"
      "\<not> conflict now vc (version (data_meta key)) (mdb_holds S (entry_data key))"
    using mdb_put [OF that(1-3), of now vc bal junk clock a ex] that(4) by simp
  show "\<exists>key' value' S'. v_get (mdb_vtable bal junk clock now) a key v S = Some (get_result now (mdb_holds S (entry_data key)), key', value', S')
      \<and> mdb_ok S' \<and> mdb_room S' = mdb_room S \<and> bucket_count S' = bucket_count S
      \<and> mdb_holds S' = (mdb_holds S)(entry_data key := live now (mdb_holds S (entry_data key)))
      \<and> answered (live now (mdb_holds S (entry_data key))) key v key' value'"
    if "mdb_ok S" "2 \<le> length (entry_data key)" "unat (area key) = KEY_AREA (entry_data key)" "unat (area key) < TAIR_MAX_AREA_COUNT"
    using get_spec [OF that(1) [unfolded mdb_ok_def] that(2-4), of now v] room_same [of S]
    by (fastforce simp: mdb_vtable_def mdb_ok_def mdb_holds_def)
  show "\<exists>key' S'. v_remove (mdb_vtable bal junk clock now) a key vc S
        = Some (if mdb_holds S (entry_data key) = None then TAIR_RETURN_DATA_NOT_EXIST else 0, key', S')
      \<and> mdb_ok S' \<and> mdb_room S' = mdb_room S \<and> bucket_count S' = bucket_count S \<and> mdb_holds S' = (mdb_holds S)(entry_data key := None)"
    if "mdb_ok S" "entry_data key \<noteq> []" "unat (area key) < TAIR_MAX_AREA_COUNT"
    using remove_spec [OF that(1) [unfolded mdb_ok_def] that(2,3)] room_same [of S]
    by (fastforce simp: mdb_vtable_def mdb_ok_def mdb_holds_def)
  show "\<exists>S'. v_close_buckets (mdb_vtable bal junk clock now) buckets S = Some S' \<and> mdb_ok S' \<and> mdb_room S' = mdb_room S
      \<and> bucket_count S' = bucket_count S
      \<and> mdb_holds S' = prune (\<lambda>k v. s_late (clock (mdb_place S k)) v \<or> sint (bucket_of (bucket_count S) k) \<in> set buckets) (mdb_holds S)"
    if "mdb_ok S" "bucket_count S \<noteq> 0"
    using close_buckets_spec [OF that(1) [unfolded mdb_ok_def] that(2), of buckets clock] room_same [of S]
    by (fastforce simp: mdb_vtable_def mdb_ok_def mdb_holds_def mdb_place_def)
qed (simp_all add: mdb_vtable_def default_incdecr_def mdb_ok_def mdb_holds_def mdb_room_def fun_eq_iff)

section \<open>The scan of the memory engine\<close>

definition mdb_places :: "mdb_manager storage_manager \<Rightarrow> nat" where
  "mdb_places S = bucket_size (hashmap (derived S))"

lemma place_same: "bucket_size (hashmap M') = bucket_size (hashmap M) \<Longrightarrow> get_bucket_index (hashmap M') = get_bucket_index (hashmap M)"
  by (simp add: fun_eq_iff get_bucket_index_def)

interpretation mdb_scan: scan_engine "mdb_vtable bal junk" mdb_ok mdb_holds mdb_room mdb_place junk mdb_places
  for bal junk
proof
  fix S k info now clock
  show "mdb_place S k < mdb_places S" if "mdb_ok S"
    using engine_bucket [OF that [unfolded mdb_ok_def]] by (simp add: mdb_place_def mdb_places_def)
  show "\<exists>ks i S'. v_get_next_items (mdb_vtable bal junk clock now) info S
        = Some (i < mdb_places S, scanned junk (bucket_count S) (db_id info) (\<lambda>_. now) ks (mdb_holds S), info\<lparr>hash_index := i\<rparr>, S')
      \<and> i \<le> mdb_places S \<and> (i = mdb_places S \<or> hash_index info < i)
      \<and> distinct ks \<and> set ks = {k. mdb_holds S k \<noteq> None \<and> hash_index info \<le> mdb_place S k \<and> mdb_place S k < i}
      \<and> mdb_ok S' \<and> mdb_room S' = mdb_room S \<and> bucket_count S' = bucket_count S \<and> mdb_places S' = mdb_places S \<and> mdb_place S' = mdb_place S
      \<and> mdb_holds S' = prune (\<lambda>k v. hash_index info \<le> mdb_place S k \<and> mdb_place S k < i \<and> s_late now v) (mdb_holds S)"
    if "mdb_ok S" "bucket_count S \<noteq> 0" "hash_index info \<le> mdb_places S"
  proof -
    note S = that
    obtain ks i M' where g: "get_next_items junk (bucket_count S) now info (derived S)
          = Some (i < mdb_places S, scanned junk (bucket_count S) (db_id info) (\<lambda>_. now) ks (mdb_holds S), info\<lparr>hash_index := i\<rparr>, M')"
        "i \<le> mdb_places S" "i = mdb_places S \<or> hash_index info < i" "distinct ks"
        "set ks = {k. mdb_holds S k \<noteq> None \<and> hash_index info \<le> mdb_place S k \<and> mdb_place S k < i}"
        "engine_ok M'" "same_slabs (derived S) M'" "bucket_size (hashmap M') = mdb_places S"
        "content M' = prune (\<lambda>k v. hash_index info \<le> mdb_place S k \<and> mdb_place S k < i \<and> s_late now v) (mdb_holds S)"
      using get_next_items_spec [OF S(1) [unfolded mdb_ok_def] S(2) S(3) [unfolded mdb_places_def], of junk now]
      unfolding mdb_holds_def mdb_place_def mdb_places_def by blast
    show ?thesis
      using g room_same [OF g(7)] place_same [of M' "derived S"]
      by (intro exI [of _ ks] exI [of _ i] exI [of _ "S\<lparr>derived := M'\<rparr>"])
        (simp add: mdb_vtable_def mdb_ok_def mdb_holds_def mdb_place_def mdb_places_def)
  qed
qed (simp_all add: mdb_vtable_def begin_scan_def)

end
