(* ===== verification/Table_Manager.thy ===== *)
theory Table_Manager
  imports Prelude "HOL-Library.Multiset" "HOL-Library.Monad_Syntax"
begin

text \<open>
  The copy of the server table a data server works with (\<open>dataserver/table_manager.cpp\<close>): taking over
  a new table, the buckets the server holds, gets and gives up, the buckets it has to migrate and their
  targets, the slaves of a bucket, and the buckets found migrated at the start. The lemmas say which
  buckets end up in which list.
\<close>

section \<open>Model\<close>

text \<open>
  The table has one row of \<open>bucket_count\<close> servers per copy, the masters first; when the table differs
  from the one the cluster is to reach, the latter follows. \<open>None\<close> stands for the null pointer.
\<close>

record table_manager =
  server_table :: "64 word list option"
  table_version :: "32 word"
  copy_count :: nat
  tm_bucket_count :: nat
  holding_buckets :: "nat list"
  padding_buckets :: "nat list"
  release_buckets :: "nat list"
  available_server_ids :: "64 word set"
  migrates :: "nat \<rightharpoonup> 64 word list"

definition new_table_manager :: table_manager where
  "new_table_manager = \<lparr>server_table = None, table_version = 0, copy_count = 0, tm_bucket_count = 0, holding_buckets = [],
     padding_buckets = [], release_buckets = [], available_server_ids = {}, migrates = Map.empty\<rparr>"

text \<open>The counts are 32-bit numbers, and so is their product.\<close>

definition get_hash_table_size :: "table_manager \<Rightarrow> nat" where
  "get_hash_table_size t = tm_bucket_count t * copy_count t mod 2 ^ 32"

definition set_table_for_localmode :: "table_manager \<Rightarrow> table_manager" where
  "set_table_for_localmode t = t\<lparr>copy_count := 1, tm_bucket_count := 1\<rparr>"

definition clear_available_server :: "table_manager \<Rightarrow> table_manager" where
  "clear_available_server t = t\<lparr>available_server_ids := {}\<rparr>"

definition TAIR_SERVERFLAG_CLIENT :: "16 word" where
  "TAIR_SERVERFLAG_CLIENT = 0"

definition TAIR_SERVERFLAG_DUPLICATE :: "16 word" where
  "TAIR_SERVERFLAG_DUPLICATE = 1"

definition TAIR_SERVERFLAG_MIGRATE :: "16 word" where
  "TAIR_SERVERFLAG_MIGRATE = 2"

definition TAIR_SERVERFLAG_PROXY :: "16 word" where
  "TAIR_SERVERFLAG_PROXY = 3"

text \<open>An access outside the table or through the null pointer has no result.\<close>

definition table_at :: "64 word list \<Rightarrow> nat \<Rightarrow> 64 word option" where
  "table_at tab i = (if i < length tab then Some (tab ! i) else None)"

definition is_master :: "64 word \<Rightarrow> nat \<Rightarrow> 16 word \<Rightarrow> table_manager \<Rightarrow> bool option" where
  "is_master local_ip bucket_number server_flag t = do {
     tab \<leftarrow> server_table t;
     let index = (if server_flag = TAIR_SERVERFLAG_PROXY then bucket_number + get_hash_table_size t else bucket_number);
     s \<leftarrow> table_at tab index;
     Some (s = local_ip) }"

definition get_migrate_target :: "nat \<Rightarrow> table_manager \<Rightarrow> 64 word option" where
  "get_migrate_target bucket_number t = do {
     tab \<leftarrow> server_table t;
     table_at tab (bucket_number + get_hash_table_size t) }"

subsection \<open>Slaves\<close>

text \<open>The loop runs at least once, and for ever when there are no buckets.\<close>

partial_function (option) slaves_from :: "64 word list \<Rightarrow> nat \<Rightarrow> nat \<Rightarrow> nat \<Rightarrow> 64 word list \<Rightarrow> 64 word list option" where
  "slaves_from tab step stop index slaves = do {
     sid \<leftarrow> table_at tab index;
     let slaves = (if sid \<noteq> 0 then slaves @ [sid] else slaves);
     if index + step < stop then slaves_from tab step stop (index + step) slaves else Some slaves }"

declare slaves_from.simps [code]

definition get_slaves :: "64 word \<Rightarrow> nat \<Rightarrow> bool \<Rightarrow> table_manager \<Rightarrow> 64 word list option" where
  "get_slaves local_ip bucket_number is_migrating t = do {
     tab \<leftarrow> server_table t;
     let off = (if is_migrating then get_hash_table_size t else 0);
     let index = bucket_number + tm_bucket_count t + off;
     master \<leftarrow> table_at tab (index - tm_bucket_count t);
     if master \<noteq> local_ip then Some []
     else slaves_from tab (tm_bucket_count t) (get_hash_table_size t + off) index [] }"

subsection \<open>A new table\<close>

text \<open>\<open>std::set_difference\<close> of sorted lists.\<close>

fun set_difference :: "nat list \<Rightarrow> nat list \<Rightarrow> nat list" where
  "set_difference [] ys = []"
| "set_difference xs [] = xs"
| "set_difference (x # xs) (y # ys) =
     (if x < y then x # set_difference xs (y # ys)
      else if y < x then set_difference (x # xs) ys
      else set_difference xs ys)"

definition calculate_release_bucket :: "nat list \<Rightarrow> table_manager \<Rightarrow> nat list \<times> table_manager" where
  "calculate_release_bucket new_holding t =
     (let new_holding = sort new_holding;
          old = sort (holding_buckets t)
      in (new_holding, t\<lparr>holding_buckets := old, release_buckets := release_buckets t @ set_difference old new_holding\<rparr>))"

text \<open>The servers of a bucket in the part of the table that starts at \<open>off\<close>.\<close>

definition copies_at :: "64 word list \<Rightarrow> nat \<Rightarrow> nat \<Rightarrow> nat \<Rightarrow> nat \<Rightarrow> 64 word list" where
  "copies_at tab off copies buckets index = map (\<lambda>i. tab ! (off + index + buckets * i)) [0..<copies]"

definition calculate_migrates :: "64 word list \<Rightarrow> nat \<Rightarrow> table_manager \<Rightarrow> table_manager" where
  "calculate_migrates tab index t =
     (let source = copies_at tab 0 (copy_count t) (tm_bucket_count t) index;
          dest = copies_at tab (get_hash_table_size t) (copy_count t) (tm_bucket_count t) index;
          t = fold (\<lambda>d t. if d \<in> set source then t
                else t\<lparr>migrates := (migrates t)(index \<mapsto> (case migrates t index of None \<Rightarrow> [] | Some ds \<Rightarrow> ds) @ [d])\<rparr>) dest t
      in if migrates t index = None \<and> tab ! index \<noteq> tab ! (get_hash_table_size t + index)
         then t\<lparr>migrates := (migrates t)(index \<mapsto> [])\<rparr> else t)"

definition take_source :: "64 word \<Rightarrow> 64 word list \<Rightarrow> nat \<Rightarrow> nat list \<times> table_manager \<Rightarrow> nat list \<times> table_manager" where
  "take_source local_ip tab i ht = (case ht of (holding, t) \<Rightarrow>
     (let t = t\<lparr>available_server_ids := insert (tab ! i) (available_server_ids t)\<rparr>
      in if tab ! i = local_ip
         then (holding @ [i mod tm_bucket_count t],
               if i < tm_bucket_count t \<and> length tab > get_hash_table_size t then calculate_migrates tab i t else t)
         else (holding, t)))"

definition take_dest :: "64 word \<Rightarrow> 64 word list \<Rightarrow> nat \<Rightarrow> table_manager \<Rightarrow> table_manager" where
  "take_dest local_ip tab i t =
     (let t = t\<lparr>available_server_ids := insert (tab ! i) (available_server_ids t)\<rparr>
      in if tab ! i = local_ip then t\<lparr>padding_buckets := padding_buckets t @ [i mod tm_bucket_count t]\<rparr> else t)"

text \<open>
  The size must be a multiple of the size of a table; an empty table would be read out of bounds. The
  old table is freed after a pause, which only matters to other threads.
\<close>

definition do_update_table :: "64 word \<Rightarrow> 64 word list \<Rightarrow> 32 word \<Rightarrow> nat \<Rightarrow> nat \<Rightarrow> table_manager \<Rightarrow> table_manager option" where
  "do_update_table local_ip new_table tversion copies buckets t =
     (let t = t\<lparr>copy_count := copies, tm_bucket_count := buckets\<rparr>;
          hts = get_hash_table_size t
      in if hts = 0 \<or> length new_table mod hts \<noteq> 0 \<or> new_table = [] then None
         else
           let t = t\<lparr>server_table := Some new_table, padding_buckets := [], release_buckets := [], migrates := Map.empty,
                 available_server_ids := {}\<rparr>;
               (holding, t) = fold (take_source local_ip new_table) [0..<hts] ([], t);
               t = (if length new_table > hts then fold (take_dest local_ip new_table) [hts..<2 * hts] t else t);
               (holding, t) = calculate_release_bucket holding t
           in Some (t\<lparr>holding_buckets := holding, table_version := tversion\<rparr>))"

subsection \<open>The buckets that have migrated\<close>

text \<open>The bits of \<open>migrate_done_set\<close>; setting a bit outside has no result.\<close>

definition set_bit_at :: "nat \<Rightarrow> bool list \<Rightarrow> bool list option" where
  "set_bit_at i bits = (if i < length bits then Some (bits[i := True]) else None)"

text \<open>Whether one of the copies differs from the table: the first difference ends the loop.\<close>

fun differs :: "64 word list \<Rightarrow> nat \<Rightarrow> nat \<Rightarrow> 64 word list \<Rightarrow> bool option" where
  "differs tab index step [] = Some False"
| "differs tab index step (c # cs) = do {
     s \<leftarrow> table_at tab index;
     if c \<noteq> s then Some True else differs tab (index + step) step cs }"

text \<open>The state table is a sequence of bucket numbers, each followed by its copies.\<close>

function mark_done :: "64 word list \<Rightarrow> nat \<Rightarrow> nat \<Rightarrow> 64 word list \<Rightarrow> bool list \<Rightarrow> bool list option" where
  "mark_done tab copies buckets [] bits = Some bits"
| "mark_done tab copies buckets (b # state) bits =
     (if length state < copies then None
      else do {
        has_migrated \<leftarrow> differs tab (unat b) buckets (take copies state);
        bits \<leftarrow> (if has_migrated then set_bit_at (unat b) bits else Some bits);
        mark_done tab copies buckets (drop copies state) bits })"
  by pat_completeness auto
termination
  by (relation "measure (\<lambda>(tab, copies, buckets, state, bits). length state)") auto

definition init_migrate_done_set :: "64 word list \<Rightarrow> table_manager \<Rightarrow> bool list \<Rightarrow> bool list option" where
  "init_migrate_done_set state t bits = do {
     tab \<leftarrow> (if state = [] then Some [] else server_table t);
     mark_done tab (copy_count t) (tm_bucket_count t) state bits }"

section \<open>The buckets that are given up\<close>

lemma set_difference_in: "x \<in> set (set_difference xs ys) \<Longrightarrow> x \<in> set xs"
  by (induction xs ys rule: set_difference.induct) (auto split: if_splits)

lemma sorted_set_difference: "sorted xs \<Longrightarrow> sorted (set_difference xs ys)"
  by (induction xs ys rule: set_difference.induct) (auto dest: set_difference_in)

lemma mset_set_difference:
  assumes "sorted xs" and "sorted ys"
  shows "mset (set_difference xs ys) = mset xs - mset ys"
  using assms
proof (induction xs ys rule: set_difference.induct)
  case (3 x xs y ys)
  show ?case
  proof (cases "x < y")
    case True
    then have "x \<notin> set (y # ys)"
      using 3(5) by auto
    then have "mset (x # xs) - mset (y # ys) = add_mset x (mset xs - mset (y # ys))"
      by (simp add: diff_single_trivial add_mset_diff_bothsides diff_add_mset_swap)
    then show ?thesis
      using True 3(1) [OF True] 3(4,5) by simp
  next
    case False
    show ?thesis
    proof (cases "y < x")
      case True
      then have "y \<notin> set (x # xs)"
        using 3(4) by auto
      then have "mset (x # xs) - mset (y # ys) = mset (x # xs) - mset ys"
        by (simp add: diff_single_trivial)
      then show ?thesis
        using True False 3(2) [OF False True] 3(4,5) by simp
    next
      case eq: False
      then have "x = y"
        using False by simp
      then show ?thesis
        using 3(3) [OF False eq] 3(4,5) by simp
    qed
  qed
qed simp_all

section \<open>The buckets to migrate\<close>

text \<open>
  What the code wants to compute for a bucket the server is master of: the servers that are to hold the
  bucket and do not; no entry at all when there is none and the master stays.
\<close>

definition migration_targets :: "64 word list \<Rightarrow> nat \<Rightarrow> nat \<Rightarrow> nat \<Rightarrow> 64 word list option" where
  "migration_targets tab copies buckets k =
     (let new = filter (\<lambda>d. d \<notin> set (copies_at tab 0 copies buckets k)) (copies_at tab (buckets * copies) copies buckets k)
      in if new \<noteq> [] \<or> tab ! k \<noteq> tab ! (buckets * copies + k) then Some new else None)"

lemma add_targets:
  "fold (\<lambda>d t. if d \<in> A then t
        else t\<lparr>migrates := (migrates t)(index \<mapsto> (case migrates t index of None \<Rightarrow> [] | Some ds \<Rightarrow> ds) @ [d])\<rparr>) ds t
    = (let new = filter (\<lambda>d. d \<notin> A) ds
       in if new = [] then t else t\<lparr>migrates := (migrates t)(index \<mapsto> (case migrates t index of None \<Rightarrow> [] | Some ds \<Rightarrow> ds) @ new)\<rparr>)"
  by (induction ds arbitrary: t) (auto simp: Let_def)

lemma calculate_migrates_spec:
  assumes "migrates t index = None" and "get_hash_table_size t = tm_bucket_count t * copy_count t"
  shows "calculate_migrates tab index t
    = t\<lparr>migrates := (migrates t)(index := migration_targets tab (copy_count t) (tm_bucket_count t) index)\<rparr>"
proof -
  have same: "get_hash_table_size (t\<lparr>migrates := f\<rparr>) = get_hash_table_size t" for f
    by (simp add: get_hash_table_size_def)
  have none: "(migrates t)(index := None) = migrates t"
    using assms(1) by (simp add: fun_eq_iff)
  show ?thesis
    unfolding calculate_migrates_def Let_def add_targets assms(1) same
    using none assms(1) by (auto simp: migration_targets_def Let_def assms(2))
qed

section \<open>Taking over a table\<close>

definition held :: "64 word \<Rightarrow> 64 word list \<Rightarrow> nat \<Rightarrow> nat \<Rightarrow> nat \<Rightarrow> nat list" where
  "held ip tab buckets m n = map (\<lambda>i. i mod buckets) (filter (\<lambda>i. tab ! i = ip) [m..<n])"

lemma held_Suc: "m \<le> n \<Longrightarrow> held ip tab buckets m (Suc n) = held ip tab buckets m n @ (if tab ! n = ip then [n mod buckets] else [])"
  by (simp add: held_def)

lemma fold_take_dest:
  assumes "m \<le> n"
  shows "fold (take_dest ip tab) [m..<n] t
    = t\<lparr>available_server_ids := available_server_ids t \<union> (!) tab ` {m..<n}, padding_buckets := padding_buckets t @ held ip tab (tm_bucket_count t) m n\<rparr>"
  using assms
proof (induction n)
  case (Suc n)
  show ?case
  proof (cases "m = Suc n")
    case False
    then have mn: "m \<le> n"
      using Suc.prems by simp
    then show ?thesis
      using Suc.IH [OF mn] by (simp add: take_dest_def Let_def held_Suc atLeastLessThanSuc)
  qed (simp add: held_def)
qed (simp add: held_def)

text \<open>The entries of the masters among the first \<open>n\<close> cells.\<close>

definition migrates_to :: "64 word \<Rightarrow> 64 word list \<Rightarrow> nat \<Rightarrow> nat \<Rightarrow> nat \<Rightarrow> nat \<rightharpoonup> 64 word list" where
  "migrates_to ip tab copies buckets n =
     (\<lambda>k. if k < n \<and> k < buckets \<and> tab ! k = ip \<and> buckets * copies < length tab then migration_targets tab copies buckets k else None)"

lemma migrates_to_Suc:
  "migrates_to ip tab copies buckets (Suc n) =
     (if n < buckets \<and> tab ! n = ip \<and> buckets * copies < length tab
      then (migrates_to ip tab copies buckets n)(n := migration_targets tab copies buckets n) else migrates_to ip tab copies buckets n)"
  by (auto simp: migrates_to_def fun_eq_iff less_Suc_eq)

lemma fold_take_source:
  assumes "migrates t = Map.empty" and "available_server_ids t = {}" and "tm_bucket_count t * copy_count t < 2 ^ 32"
  shows "fold (take_source ip tab) [0..<n] ([], t)
    = (held ip tab (tm_bucket_count t) 0 n,
       t\<lparr>available_server_ids := (!) tab ` {0..<n}, migrates := migrates_to ip tab (copy_count t) (tm_bucket_count t) n\<rparr>)"
proof (induction n)
  case 0
  have "migrates_to ip tab (copy_count t) (tm_bucket_count t) 0 = Map.empty"
    by (simp add: migrates_to_def)
  then show ?case
    using assms(1,2) by (simp add: held_def)
next
  case (Suc n)
  let ?m = "migrates_to ip tab (copy_count t) (tm_bucket_count t)"
  let ?t = "\<lambda>A. t\<lparr>migrates := ?m n, available_server_ids := A\<rparr>"
  have size: "get_hash_table_size (?t A) = tm_bucket_count t * copy_count t" for A
    using assms(3) by (simp add: get_hash_table_size_def)
  have "?m n n = None"
    by (simp add: migrates_to_def)
  then have calc: "calculate_migrates tab n (?t A) = (?t A)\<lparr>migrates := (?m n)(n := migration_targets tab (copy_count t) (tm_bucket_count t) n)\<rparr>" for A
    using calculate_migrates_spec [of "?t A" n tab] size by simp
  have "take_source ip tab n (held ip tab (tm_bucket_count t) 0 n, t\<lparr>available_server_ids := (!) tab ` {0..<n}, migrates := ?m n\<rparr>)
      = (held ip tab (tm_bucket_count t) 0 (Suc n), (?t (insert (tab ! n) ((!) tab ` {0..<n})))\<lparr>migrates := ?m (Suc n)\<rparr>)"
    by (simp add: take_source_def Let_def held_Suc migrates_to_Suc calc size)
  then show ?case
    using Suc by (simp add: atLeastLessThanSuc)
qed

lemma do_update_table_spec:
  assumes "0 < copies" and "0 < buckets" and "buckets * copies < 2 ^ 32" and "length tab = buckets * copies \<or> length tab = 2 * (buckets * copies)"
  shows "\<exists>t'. do_update_table ip tab tv copies buckets t = Some t' \<and> server_table t' = Some tab \<and> copy_count t' = copies
    \<and> tm_bucket_count t' = buckets \<and> table_version t' = tv
    \<and> holding_buckets t' = sort (held ip tab buckets 0 (buckets * copies))
    \<and> padding_buckets t' = (if length tab > buckets * copies then held ip tab buckets (buckets * copies) (2 * (buckets * copies)) else [])
    \<and> release_buckets t' = set_difference (sort (holding_buckets t)) (holding_buckets t')
    \<and> migrates t' = migrates_to ip tab copies buckets (buckets * copies) \<and> available_server_ids t' = set tab"
proof -
  let ?n = "buckets * copies"
  have pos: "0 < ?n"
    using assms(1,2) by simp
  have ids: "(!) tab ` {0..<length tab} = set tab"
    by (simp add: set_conv_nth atLeast0LessThan [symmetric] image_def Bex_def, metis)
  have size: "get_hash_table_size (t\<lparr>copy_count := copies, tm_bucket_count := buckets\<rparr>) = ?n"
    using assms(3) by (simp add: get_hash_table_size_def)
  have m: "length tab mod ?n = 0" "tab \<noteq> []"
    using assms(4) pos by auto
  let ?t = "t\<lparr>copy_count := copies, tm_bucket_count := buckets, server_table := Some tab, padding_buckets := [], release_buckets := [],
      migrates := Map.empty, available_server_ids := {}\<rparr>"
  have src: "fold (take_source ip tab) [0..<?n] ([], ?t) = (held ip tab buckets 0 ?n,
      ?t\<lparr>available_server_ids := (!) tab ` {0..<?n}, migrates := migrates_to ip tab copies buckets ?n\<rparr>)"
    using fold_take_source [of ?t ip tab ?n] assms(3) by simp
  show ?thesis
  proof (cases "length tab > ?n")
    case True
    then have len: "length tab = 2 * ?n"
      using assms(4) by auto
    have "(!) tab ` {0..<?n} \<union> (!) tab ` {?n..<2 * ?n} = set tab"
      unfolding ids [symmetric] len image_Un [symmetric] by (simp add: ivl_disj_un_two(3))
    then show ?thesis
      using True m pos by (simp add: do_update_table_def Let_def size src fold_take_dest calculate_release_bucket_def)
  next
    case False
    then have len: "length tab = ?n"
      using assms(4) pos by auto
    show ?thesis
      using False m pos ids by (simp add: do_update_table_def Let_def size src calculate_release_bucket_def len)
  qed
qed

lemma set_held:
  assumes "0 < buckets" and "m mod buckets = 0"
  shows "set (held ip tab buckets m (m + buckets * copies)) = {b. b < buckets \<and> ip \<in> set (copies_at tab m copies buckets b)}"
proof (intro set_eqI iffI)
  fix b assume "b \<in> set (held ip tab buckets m (m + buckets * copies))"
  then obtain i where i: "b = i mod buckets" "m \<le> i" "i < m + buckets * copies" "tab ! i = ip"
    by (auto simp: held_def)
  have "(i - m) mod buckets = b"
    using i(1,2) assms(2) by (metis mod_diff_right_eq mod_mod_trivial diff_zero mod_diff_eq le_add_diff_inverse mod_add_eq add_0)
  then have "i = m + b + buckets * ((i - m) div buckets)"
    using i(2) by (metis add.assoc add.commute le_add_diff_inverse mult_div_mod_eq)
  moreover have "(i - m) div buckets < copies"
    using i(2,3) assms(1) by (simp add: less_mult_imp_div_less mult.commute)
  ultimately show "b \<in> {b. b < buckets \<and> ip \<in> set (copies_at tab m copies buckets b)}"
    using i(1,4) assms(1) by (auto simp: copies_at_def image_iff intro!: bexI [of _ "(i - m) div buckets"])
next
  fix b assume "b \<in> {b. b < buckets \<and> ip \<in> set (copies_at tab m copies buckets b)}"
  then obtain j where j: "b < buckets" "j < copies" "tab ! (m + b + buckets * j) = ip"
    by (auto simp: copies_at_def)
  have "b + buckets * j < buckets * copies"
    using j(1,2) by (metis add.commute add_mono_thms_linordered_field(1) add_less_cancel_left less_le_trans mult_Suc_right mult_le_mono2 Suc_leI)
  then have "m + b + buckets * j \<in> {i \<in> {m..<m + buckets * copies}. tab ! i = ip}"
    using j(3) by simp
  moreover have "b = (m + b + buckets * j) mod buckets"
    using j(1) assms(2) mod_add_left_eq [of m buckets b] by simp
  ultimately show "b \<in> set (held ip tab buckets m (m + buckets * copies))"
    unfolding held_def set_map set_filter set_upt by (rule image_eqI [rotated])
qed

text \<open>
  C9. After a new table has been taken over, the server holds exactly the buckets it serves a copy of in
  the table, is to receive exactly those it serves in the table to be reached, gives up exactly those it
  held and does not hold any more, and has a bucket to migrate exactly if it is its master and a copy goes
  to a server that has none, or the master changes; the targets are the servers that have none yet.
\<close>

theorem new_table_plan:
  assumes "0 < copies" and "0 < buckets" and "buckets * copies < 2 ^ 32"
    and "length tab = buckets * copies \<or> length tab = 2 * (buckets * copies)" and "distinct (holding_buckets t)"
  shows "\<exists>t'. do_update_table ip tab tv copies buckets t = Some t' \<and> server_table t' = Some tab
    \<and> set (holding_buckets t') = {b. b < buckets \<and> ip \<in> set (copies_at tab 0 copies buckets b)}
    \<and> set (padding_buckets t') = {b. b < buckets \<and> length tab > buckets * copies \<and> ip \<in> set (copies_at tab (buckets * copies) copies buckets b)}
    \<and> set (release_buckets t') = set (holding_buckets t) - set (holding_buckets t')
    \<and> migrates t' = (\<lambda>b. if b < buckets \<and> tab ! b = ip \<and> length tab > buckets * copies then migration_targets tab copies buckets b else None)"
proof -
  obtain t' where t: "do_update_table ip tab tv copies buckets t = Some t'" "server_table t' = Some tab"
      "holding_buckets t' = sort (held ip tab buckets 0 (buckets * copies))"
      "padding_buckets t' = (if length tab > buckets * copies then held ip tab buckets (buckets * copies) (2 * (buckets * copies)) else [])"
      "release_buckets t' = set_difference (sort (holding_buckets t)) (holding_buckets t')"
      "migrates t' = migrates_to ip tab copies buckets (buckets * copies)"
    using do_update_table_spec [OF assms(1-4), of ip tv t] by blast
  have r: "mset (release_buckets t') = mset (holding_buckets t) - mset (holding_buckets t')"
    unfolding t(5) by (subst mset_set_difference) (simp_all add: t(3))
  have one: "x \<in># mset (holding_buckets t) - N \<longleftrightarrow> x \<in> set (holding_buckets t) \<and> x \<notin># N" for x N
    using assms(5) by (auto simp: in_diff_count distinct_count_atmost_1 not_in_iff split: if_splits)
  have "x \<in> set (release_buckets t') \<longleftrightarrow> x \<in> set (holding_buckets t) \<and> x \<notin> set (holding_buckets t')" for x
    using one [of x "mset (holding_buckets t')"] unfolding r [symmetric] by simp
  then have "set (release_buckets t') = set (holding_buckets t) - set (holding_buckets t')"
    by blast
  moreover have "set (holding_buckets t') = {b. b < buckets \<and> ip \<in> set (copies_at tab 0 copies buckets b)}"
    using set_held [OF assms(2), of 0 ip tab copies] by (simp add: t(3))
  moreover have "set (padding_buckets t') = {b. b < buckets \<and> length tab > buckets * copies \<and> ip \<in> set (copies_at tab (buckets * copies) copies buckets b)}"
    using set_held [OF assms(2), of "buckets * copies" ip tab copies] by (auto simp: t(4) mult_2)
  moreover have "migrates t' = (\<lambda>b. if b < buckets \<and> tab ! b = ip \<and> length tab > buckets * copies then migration_targets tab copies buckets b else None)"
    using assms(1) by (auto simp: t(6) migrates_to_def fun_eq_iff less_le_trans)
  ultimately show ?thesis
    using t(1,2) by blast
qed

text \<open>Two buckets in two copies: the master of the first goes from server 7 to server 9, which gets a copy.\<close>

theorem new_table_plan_witness:
  "\<exists>t'. do_update_table 7 [7, 8, 8, 7, 9, 8, 8, 7] 3 2 2 new_table_manager = Some t' \<and> server_table t' = Some [7, 8, 8, 7, 9, 8, 8, 7]
    \<and> set (holding_buckets t') = {b. b < 2 \<and> 7 \<in> set (copies_at [7, 8, 8, 7, 9, 8, 8, 7] 0 2 2 b)}
    \<and> set (padding_buckets t') = {b. b < 2 \<and> length [7, 8, 8, 7, 9, 8, 8, 7 :: 64 word] > 2 * 2 \<and> 7 \<in> set (copies_at [7, 8, 8, 7, 9, 8, 8, 7] (2 * 2) 2 2 b)}
    \<and> migrates t' 0 = Some [9]"
proof -
  let ?tab = "[7, 8, 8, 7, 9, 8, 8, 7] :: 64 word list"
  have h: "0 < (2 :: nat)" "(2 :: nat) * 2 < 2 ^ 32" "length ?tab = 2 * 2 \<or> length ?tab = 2 * (2 * 2)" "distinct (holding_buckets new_table_manager)"
    by (simp_all add: new_table_manager_def)
  obtain t' where t: "do_update_table 7 ?tab 3 2 2 new_table_manager = Some t'" "server_table t' = Some ?tab"
      "set (holding_buckets t') = {b. b < 2 \<and> 7 \<in> set (copies_at ?tab 0 2 2 b)}"
      "set (padding_buckets t') = {b. b < 2 \<and> length ?tab > 2 * 2 \<and> 7 \<in> set (copies_at ?tab (2 * 2) 2 2 b)}"
      "migrates t' = (\<lambda>b. if b < 2 \<and> ?tab ! b = 7 \<and> length ?tab > 2 * 2 then migration_targets ?tab 2 2 b else None)"
    using new_table_plan [OF h(1,1-4), of 7 3] by blast
  have "migrates t' 0 = Some [9]"
    unfolding t(5) by (simp add: migration_targets_def copies_at_def upt_rec)
  then show ?thesis
    using t(1-4) by blast
qed

end
