(* ===== verification/Tair_Manager.thy ===== *)
theory Tair_Manager
  imports Storage_Manager Table_Manager
begin

unbundle bit_operations_syntax

text \<open>
  The data server behind its request handlers (\<open>dataserver/tair_manager.cpp\<close>): storing, reading, removing
  and counting under a key and an area, the writes that arrive with a migration, the routing decisions and
  the change to a new server table. The storage engine is reached through the table of its virtual
  functions. The lemmas on keys and values hold for every engine that behaves as a map, and are obtained
  for the memory engine by its interpretation.
\<close>

section \<open>Model\<close>

definition TAIR_MAX_KEY_SIZE :: int where
  "TAIR_MAX_KEY_SIZE = 1024"

definition TAIR_MAX_DATA_SIZE :: int where
  "TAIR_MAX_DATA_SIZE = 1000000"

definition TAIR_RETURN_FAILED :: int where
  "TAIR_RETURN_FAILED = - 3999"

definition TAIR_RETURN_ITEMSIZE_ERROR :: int where
  "TAIR_RETURN_ITEMSIZE_ERROR = - 3991"

definition TAIR_RETURN_SERVER_CAN_NOT_WORK :: int where
  "TAIR_RETURN_SERVER_CAN_NOT_WORK = - 3987"

definition TAIR_RETURN_WRITE_NOT_ON_MASTER :: int where
  "TAIR_RETURN_WRITE_NOT_ON_MASTER = - 3986"

definition TAIR_RETURN_DUPLICATE_BUSY :: int where
  "TAIR_RETURN_DUPLICATE_BUSY = - 3985"

definition TAIR_RETURN_MIGRATE_BUSY :: int where
  "TAIR_RETURN_MIGRATE_BUSY = - 3984"

definition TAIR_RETURN_CANNOT_OVERRIDE :: int where
  "TAIR_RETURN_CANNOT_OVERRIDE = - 3981"

definition TAIR_ITEM_FLAG_ADDCOUNT :: "8 word" where
  "TAIR_ITEM_FLAG_ADDCOUNT = 1"

datatype tm_status = STATUS_NOT_INITED | STATUS_INITED | STATUS_CAN_WORK

subsection \<open>Statistics\<close>

record tair_stat =
  get_count_value :: "32 word"
  put_count_value :: "32 word"
  evict_count_value :: "32 word"
  remove_count_value :: "32 word"
  hit_count_value :: "32 word"

type_synonym tair_stats = "nat \<Rightarrow> tair_stat"

text \<open>An area out of range counts for area 0.\<close>

definition stat_area :: "32 word \<Rightarrow> nat" where
  "stat_area a = (if sint a \<ge> int TAIR_MAX_AREA_COUNT \<or> sint a < 0 then 0 else nat (sint a))"

definition stat_get :: "32 word \<Rightarrow> int \<Rightarrow> tair_stats \<Rightarrow> tair_stats" where
  "stat_get a rc st =
     (let i = stat_area a;
          st = st(i := (st i)\<lparr>get_count_value := get_count_value (st i) + 1\<rparr>)
      in if rc = 0 then st(i := (st i)\<lparr>hit_count_value := hit_count_value (st i) + 1\<rparr>) else st)"

definition stat_put :: "32 word \<Rightarrow> tair_stats \<Rightarrow> tair_stats" where
  "stat_put a st = st(stat_area a := (st (stat_area a))\<lparr>put_count_value := put_count_value (st (stat_area a)) + 1\<rparr>)"

definition stat_remove :: "32 word \<Rightarrow> tair_stats \<Rightarrow> tair_stats" where
  "stat_remove a st = st(stat_area a := (st (stat_area a))\<lparr>remove_count_value := remove_count_value (st (stat_area a)) + 1\<rparr>)"

subsection \<open>The parts of the manager\<close>

text \<open>The migration thread as far as the request threads see it.\<close>

record migrate_manager =
  mg_servers :: "nat \<rightharpoonup> 64 word list"
  mg_version :: "32 word"
  current_locked_bucket :: int
  current_migrating_bucket :: int
  is_running :: nat
  is_stopped :: bool
  is_signaled :: bool
  is_alive :: bool
  mg_stop :: bool

definition mg_signal :: "migrate_manager \<Rightarrow> migrate_manager" where
  "mg_signal g = (if \<not> is_alive g \<or> mg_stop g then g else g\<lparr>is_signaled := True\<rparr>)"

definition set_migrate_server_list :: "(nat \<rightharpoonup> 64 word list) \<Rightarrow> 32 word \<Rightarrow> migrate_manager \<Rightarrow> migrate_manager" where
  "set_migrate_server_list ms v g = mg_signal (g\<lparr>mg_servers := ms, mg_version := v, is_running := 0\<rparr>)"

text \<open>The caller waits until the thread has ended its run.\<close>

definition do_server_list_changed :: "migrate_manager \<Rightarrow> migrate_manager" where
  "do_server_list_changed g = (if is_running g = 1 then g\<lparr>is_stopped := True, is_running := 2\<rparr> else g\<lparr>is_running := 2\<rparr>)"

definition is_bucket_available :: "int \<Rightarrow> migrate_manager \<Rightarrow> bool" where
  "is_bucket_available b g \<longleftrightarrow> current_locked_bucket g \<noteq> b"

definition is_bucket_migrating :: "int \<Rightarrow> migrate_manager \<Rightarrow> bool" where
  "is_bucket_migrating b g \<longleftrightarrow> current_migrating_bucket g = b"

text \<open>\<open>dup_queue_size\<close> is the queue size of the duplicator, \<open>None\<close> without one.\<close>

record 'e tair_manager =
  status :: tm_status
  localmode :: bool
  storage_mgr :: "'e storage_manager"
  table_mgr :: table_manager
  migrate_done_set :: "bool list"
  migrate_mgr :: migrate_manager
  dup_queue_size :: "32 word option"
  tair_stat_of :: tair_stats

definition is_working :: "'e tair_manager \<Rightarrow> bool" where
  "is_working T \<longleftrightarrow> status T = STATUS_CAN_WORK"

definition upd_stats :: "(tair_stats \<Rightarrow> tair_stats) \<Rightarrow> 'e tair_manager \<Rightarrow> 'e tair_manager" where
  "upd_stats f T = T\<lparr>tair_stat_of := f (tair_stat_of T)\<rparr>"

subsection \<open>Keys and values\<close>

definition TAIR_OPERATION_VERSION :: "32 word" where
  "TAIR_OPERATION_VERSION = 1"

definition TAIR_OPERATION_DUPLICATE :: "32 word" where
  "TAIR_OPERATION_DUPLICATE = 2"

definition TAIR_OPERATION_REMOTE :: "32 word" where
  "TAIR_OPERATION_REMOTE = 4"

definition get_op_flag :: "16 word \<Rightarrow> 32 word" where
  "get_op_flag sflag =
     (if sflag = TAIR_SERVERFLAG_CLIENT \<or> sflag = TAIR_SERVERFLAG_PROXY
      then 0 OR TAIR_OPERATION_VERSION OR TAIR_OPERATION_DUPLICATE OR TAIR_OPERATION_REMOTE else 0)"

definition NeedCopy :: "16 word \<Rightarrow> bool" where
  "NeedCopy sflag \<longleftrightarrow> get_op_flag sflag AND TAIR_OPERATION_DUPLICATE \<noteq> 0"

definition version_cares :: "data_entry \<Rightarrow> bool" where
  "version_cares key \<longleftrightarrow> get_op_flag (server_flag key) AND TAIR_OPERATION_VERSION \<noteq> 0"

definition bad_key :: "data_entry \<Rightarrow> bool" where
  "bad_key key \<longleftrightarrow> esize key \<ge> TAIR_MAX_KEY_SIZE \<or> esize key < 1"

definition bad_value :: "data_entry \<Rightarrow> bool" where
  "bad_value v \<longleftrightarrow> esize v \<ge> TAIR_MAX_DATA_SIZE \<or> esize v < 1"

text \<open>The copy of the key with the area in front.\<close>

definition merged_key :: "32 word \<Rightarrow> data_entry \<Rightarrow> data_entry" where
  "merged_key a key = merge_area a (assign_entry key init_entry)"

definition tm_put ::
  "('d, 'e storage_manager) storage_vtable \<Rightarrow> 32 word \<Rightarrow> data_entry \<Rightarrow> data_entry \<Rightarrow> int \<Rightarrow> 'e tair_manager \<Rightarrow> (int \<times> 'e tair_manager) option" where
  "tm_put vt a key v expire_time T =
     (if bad_key key then Some (TAIR_RETURN_ITEMSIZE_ERROR, T)
      else if bad_value v then Some (TAIR_RETURN_ITEMSIZE_ERROR, T)
      else do {
        (rc, mkey, S) \<leftarrow> v_put vt a (merged_key a key) v (version_cares key) expire_time (storage_mgr T);
        Some (rc, upd_stats (stat_put a) (T\<lparr>storage_mgr := S\<rparr>)) })"

definition tm_putnx ::
  "('d, 'e storage_manager) storage_vtable \<Rightarrow> 32 word \<Rightarrow> data_entry \<Rightarrow> data_entry \<Rightarrow> int \<Rightarrow> 'e tair_manager \<Rightarrow> (int \<times> 'e tair_manager) option" where
  "tm_putnx vt a key v expire_time T =
     (if bad_key key then Some (TAIR_RETURN_ITEMSIZE_ERROR, T)
      else if bad_value v then Some (TAIR_RETURN_ITEMSIZE_ERROR, T)
      else do {
        (rc, mkey, S) \<leftarrow> v_putnx vt a (merged_key a key) v (version_cares key) expire_time (storage_mgr T);
        Some (rc, upd_stats (stat_put a) (T\<lparr>storage_mgr := S\<rparr>)) })"

definition tm_get ::
  "('d, 'e storage_manager) storage_vtable \<Rightarrow> 32 word \<Rightarrow> data_entry \<Rightarrow> data_entry \<Rightarrow> 'e tair_manager
     \<Rightarrow> (int \<times> data_entry \<times> data_entry \<times> 'e tair_manager) option" where
  "tm_get vt a key v T =
     (if status T \<noteq> STATUS_CAN_WORK then Some (TAIR_RETURN_SERVER_CAN_NOT_WORK, key, v, T)
      else if bad_key key then Some (TAIR_RETURN_ITEMSIZE_ERROR, key, v, T)
      else do {
        (rc, mkey, v, S) \<leftarrow> v_get vt a (merged_key a key) v (storage_mgr T);
        Some (rc, key\<lparr>data_meta := data_meta mkey\<rparr>, v, upd_stats (stat_get a rc) (T\<lparr>storage_mgr := S\<rparr>)) })"

definition tm_remove ::
  "('d, 'e storage_manager) storage_vtable \<Rightarrow> 32 word \<Rightarrow> data_entry \<Rightarrow> 'e tair_manager \<Rightarrow> (int \<times> 'e tair_manager) option" where
  "tm_remove vt a key T =
     (if bad_key key then Some (TAIR_RETURN_ITEMSIZE_ERROR, T)
      else do {
        (rc, mkey, S) \<leftarrow> v_remove vt a (merged_key a key) (version_cares key) (storage_mgr T);
        Some (rc, upd_stats (stat_remove a) (T\<lparr>storage_mgr := S\<rparr>)) })"

definition tm_clear :: "('d, 'e storage_manager) storage_vtable \<Rightarrow> int \<Rightarrow> 'e tair_manager \<Rightarrow> (int \<times> 'e tair_manager) option" where
  "tm_clear vt a T =
     (if status T \<noteq> STATUS_CAN_WORK then Some (TAIR_RETURN_SERVER_CAN_NOT_WORK, T)
      else do { (rc, S) \<leftarrow> v_clear vt a (storage_mgr T); Some (rc, T\<lparr>storage_mgr := S\<rparr>) })"

text \<open>The writes of a migration: the key carries its area already.\<close>

definition direct_put ::
  "('d, 'e storage_manager) storage_vtable \<Rightarrow> data_entry \<Rightarrow> data_entry \<Rightarrow> 'e tair_manager \<Rightarrow> (int \<times> data_entry \<times> 'e tair_manager) option" where
  "direct_put vt key v T =
     (if bad_key key then Some (TAIR_RETURN_ITEMSIZE_ERROR, key, T)
      else if bad_value v then Some (TAIR_RETURN_ITEMSIZE_ERROR, key, T)
      else do {
        (a, akey) \<leftarrow> decode_area (assign_entry key init_entry);
        let key = key\<lparr>area := a\<rparr>;
        (rc, key, S) \<leftarrow> v_put vt a key v False 0 (storage_mgr T);
        Some (rc, key, upd_stats (stat_put a) (T\<lparr>storage_mgr := S\<rparr>)) })"

definition direct_remove ::
  "('d, 'e storage_manager) storage_vtable \<Rightarrow> data_entry \<Rightarrow> 'e tair_manager \<Rightarrow> (int \<times> data_entry \<times> 'e tair_manager) option" where
  "direct_remove vt key T =
     (if bad_key key then Some (TAIR_RETURN_ITEMSIZE_ERROR, key, T)
      else do {
        (a, akey) \<leftarrow> decode_area (assign_entry key init_entry);
        (rc, key, S) \<leftarrow> v_remove vt (area akey) key False (storage_mgr T);
        let rc = (if rc = TAIR_RETURN_DATA_NOT_EXIST then 0 else rc);
        Some (rc, key, upd_stats (stat_remove (area akey)) (T\<lparr>storage_mgr := S\<rparr>)) })"

subsection \<open>Counters\<close>

text \<open>A counter is a header of two bytes and the number, least significant byte first.\<close>

definition ITEM_HEAD_LENGTH :: nat where
  "ITEM_HEAD_LENGTH = 2"

definition counter_bytes :: "32 word \<Rightarrow> bytes" where
  "counter_bytes n = [ucast n, ucast (drop_bit 8 n), ucast (drop_bit 16 n), ucast (drop_bit 24 n)]"

definition counter_at :: "bytes \<Rightarrow> 32 word" where
  "counter_at d = ucast (d ! 0) OR push_bit 8 (ucast (d ! 1)) OR push_bit 16 (ucast (d ! 2)) OR push_bit 24 (ucast (d ! 3))"

text \<open>
  Adding in place. The value lies in a block that \<open>set_data\<close> has made one byte longer, with a zero behind the
  value; with less than five bytes of value the counter is read and written out of bounds.
\<close>

definition bump :: "32 word \<Rightarrow> data_entry \<Rightarrow> (32 word \<times> data_entry) option" where
  "bump addv v =
     (let d = entry_data v; mem = d @ [0]
      in if length mem < ITEM_HEAD_LENGTH + 4 then None
         else let n = counter_at (drop ITEM_HEAD_LENGTH mem) + addv;
                  mem = take ITEM_HEAD_LENGTH mem @ counter_bytes n @ drop (ITEM_HEAD_LENGTH + 4) mem
              in Some (n, v\<lparr>edata := Some (take (length d) mem)\<rparr>))"

definition fresh_counter :: "32 word \<Rightarrow> data_entry \<Rightarrow> data_entry" where
  "fresh_counter n v = set_data (Some ([0, 0x16] @ counter_bytes n)) 6 True v"

definition IS_ADDCOUNT_TYPE :: "8 word \<Rightarrow> bool" where
  "IS_ADDCOUNT_TYPE f \<longleftrightarrow> f AND TAIR_ITEM_FLAG_ADDCOUNT = TAIR_ITEM_FLAG_ADDCOUNT"

definition mark_counter :: "data_entry \<Rightarrow> data_entry" where
  "mark_counter v = v\<lparr>data_meta := (data_meta v)\<lparr>flag := flag (data_meta v) OR TAIR_ITEM_FLAG_ADDCOUNT\<rparr>\<rparr>"

text \<open>The result is the code, the number where there is one, and the key as the caller sees it.\<close>

definition add_count ::
  "('d, 'e storage_manager) storage_vtable \<Rightarrow> 32 word \<Rightarrow> data_entry \<Rightarrow> 32 word \<Rightarrow> 32 word \<Rightarrow> 32 word \<Rightarrow> int \<Rightarrow> 'e tair_manager
     \<Rightarrow> (int \<times> 32 word \<times> data_entry \<times> 'e tair_manager) option" where
  "add_count vt a key addv init_value result expire_time T =
     (if status T \<noteq> STATUS_CAN_WORK then Some (TAIR_RETURN_SERVER_CAN_NOT_WORK, result, key, T)
      else if bad_key key then Some (TAIR_RETURN_ITEMSIZE_ERROR, result, key, T)
      else do {
        (rc1, mkey, n, S) \<leftarrow> v_incdecr vt a (merged_key a key) (sint init_value) (sint addv) (sint result)
           (version_cares key, 0, expire_time) (storage_mgr T);
        if rc1 \<noteq> TAIR_RETURN_IS_NOT_IMPLEMENT
        then Some (rc1, of_int n, key\<lparr>data_meta := data_meta mkey\<rparr>, upd_stats (stat_put a) (T\<lparr>storage_mgr := S\<rparr>))
        else do {
          (rc, key, old_value, T) \<leftarrow> tm_get vt a key init_entry (T\<lparr>storage_mgr := S\<rparr>);
          if rc = 0 \<and> \<not> IS_ADDCOUNT_TYPE (flag (data_meta key)) then Some (TAIR_RETURN_CANNOT_OVERRIDE, of_int n, key, T)
          else do {
            (result, old_value) \<leftarrow>
              (if rc = 0 then bump addv old_value
               else Some (init_value + addv, fresh_counter (init_value + addv) old_value));
            (rc, T) \<leftarrow> tm_put vt a key (mark_counter old_value) expire_time T;
            Some (rc, result, key, T) } } })"

subsection \<open>Routing\<close>

text \<open>The bucket of a key; without buckets the code divides by zero. A test outside the set of bits has no result.\<close>

definition get_bucket_number :: "32 word \<Rightarrow> 'e tair_manager \<Rightarrow> nat option" where
  "get_bucket_number hash T = (if tm_bucket_count (table_mgr T) = 0 then None else Some (unat hash mod tm_bucket_count (table_mgr T)))"

definition key_bucket :: "data_entry \<Rightarrow> 'e tair_manager \<Rightarrow> nat option" where
  "key_bucket key T = get_bucket_number (mhash2 (take (nat (esize key)) (entry_data key))) T"

definition test_bit :: "nat \<Rightarrow> bool list \<Rightarrow> bool option" where
  "test_bit i bits = (if i < length bits then Some (bits ! i) else None)"

text \<open>Whether the request belongs to another server, and to which; the answer 0 stands for no server.\<close>

definition proxy_target :: "64 word \<Rightarrow> nat \<Rightarrow> 64 word \<Rightarrow> 'e tair_manager \<Rightarrow> (bool \<times> 64 word) option" where
  "proxy_target local_ip b target T = do {
     is_migrated \<leftarrow> test_bit b (migrate_done_set T);
     target \<leftarrow> (if is_migrated then do {
         t \<leftarrow> get_migrate_target b (table_mgr T);
         Some (if t = local_ip then 0 else t) } else Some target);
     Some (is_migrated \<and> target \<noteq> 0, target) }"

definition should_proxy :: "64 word \<Rightarrow> 32 word \<Rightarrow> 64 word \<Rightarrow> 'e tair_manager \<Rightarrow> (bool \<times> 64 word) option" where
  "should_proxy local_ip hash target T =
     (if localmode T then Some (False, target)
      else do { b \<leftarrow> get_bucket_number hash T; proxy_target local_ip b target T })"

definition should_proxy_key :: "64 word \<Rightarrow> data_entry \<Rightarrow> 64 word \<Rightarrow> 'e tair_manager \<Rightarrow> (bool \<times> 64 word) option" where
  "should_proxy_key local_ip key target T =
     (if server_flag key = TAIR_SERVERFLAG_PROXY then Some (False, target)
      else if localmode T then Some (False, target)
      else do { b \<leftarrow> key_bucket key T; proxy_target local_ip b target T })"

definition set_migrate_done :: "nat \<Rightarrow> 'e tair_manager \<Rightarrow> 'e tair_manager option" where
  "set_migrate_done b T = do { bits \<leftarrow> set_bit_at b (migrate_done_set T); Some (T\<lparr>migrate_done_set := bits\<rparr>) }"

definition get_proxying_buckets :: "'e tair_manager \<Rightarrow> nat list" where
  "get_proxying_buckets T = filter (\<lambda>i. migrate_done_set T ! i) [0..<length (migrate_done_set T)]"

definition tm_get_slaves :: "64 word \<Rightarrow> 16 word \<Rightarrow> nat \<Rightarrow> 64 word list \<Rightarrow> 'e tair_manager \<Rightarrow> 64 word list option" where
  "tm_get_slaves local_ip sflag b slaves T =
     (if copy_count (table_mgr T) = 1 then Some slaves
      else if sflag = TAIR_SERVERFLAG_PROXY then get_slaves local_ip b True (table_mgr T)
      else do { migrated \<leftarrow> test_bit b (migrate_done_set T); get_slaves local_ip b migrated (table_mgr T) })"

text \<open>
  Whether a write may be done here; the code of a refusal comes with it. The duplicator always counts as
  available, so its loop ends at once.
\<close>

definition should_write_local :: "64 word \<Rightarrow> nat \<Rightarrow> 16 word \<Rightarrow> 32 word \<Rightarrow> int \<Rightarrow> 'e tair_manager \<Rightarrow> (bool \<times> int) option" where
  "should_write_local local_ip b sflag op_flag rc T =
     (if status T \<noteq> STATUS_CAN_WORK then Some (False, TAIR_RETURN_SERVER_CAN_NOT_WORK)
      else if \<not> is_bucket_available (int b) (migrate_mgr T) then Some (False, TAIR_RETURN_MIGRATE_BUSY)
      else if sflag = TAIR_SERVERFLAG_CLIENT \<or> sflag = TAIR_SERVERFLAG_PROXY then do {
        migrated \<leftarrow> test_bit b (migrate_done_set T);
        stays \<leftarrow> (if migrated then is_master local_ip b TAIR_SERVERFLAG_PROXY (table_mgr T) else Some True);
        if migrated \<and> \<not> stays then Some (False, TAIR_RETURN_MIGRATE_BUSY)
        else do {
          master \<leftarrow> is_master local_ip b sflag (table_mgr T);
          if \<not> master then Some (False, TAIR_RETURN_WRITE_NOT_ON_MASTER) else Some (True, rc) } }
      else Some (True, rc))"

definition need_do_migrate_log :: "nat \<Rightarrow> 'e tair_manager \<Rightarrow> bool" where
  "need_do_migrate_log b T = is_bucket_migrating (int b) (migrate_mgr T)"

text \<open>The pause before the servers are forgotten only matters to other threads.\<close>

definition set_solitary :: "'e tair_manager \<Rightarrow> 'e tair_manager" where
  "set_solitary T =
     (if status T = STATUS_CAN_WORK
      then T\<lparr>status := STATUS_INITED, table_mgr := clear_available_server (table_mgr T),
             migrate_mgr := do_server_list_changed (migrate_mgr T)\<rparr>
      else T)"

subsection \<open>A new server table\<close>

text \<open>
  The log of a migration is opened when data is to be migrated; it is a file and not modelled, nor are
  the dumps that are cancelled.
\<close>

definition update_server_table ::
  "('d, 'e storage_manager) storage_vtable \<Rightarrow> 64 word \<Rightarrow> 64 word list \<Rightarrow> 32 word \<Rightarrow> 64 word list \<Rightarrow> nat \<Rightarrow> nat
     \<Rightarrow> 'e tair_manager \<Rightarrow> 'e tair_manager option" where
  "update_server_table vt local_ip tab tversion state copies buckets T = do {
     t \<leftarrow> do_update_table local_ip tab tversion copies buckets (table_mgr T);
     let queue = map_option (\<lambda>_. (of_nat (copy_count t) - 1) * 3) (dup_queue_size T);
     let S = set_bucket_count (of_nat (tm_bucket_count t)) (storage_mgr T);
     let bits = replicate (tm_bucket_count t) False;
     bits \<leftarrow> (if status T \<noteq> STATUS_CAN_WORK then init_migrate_done_set state t bits else Some bits);
     S \<leftarrow> (if release_buckets t \<noteq> [] then v_close_buckets vt (map int (release_buckets t)) S else Some S);
     (inited, S) \<leftarrow> (if holding_buckets t \<noteq> []
        then v_init_buckets vt (map int (filter (\<lambda>b. \<not> bits ! b) (holding_buckets t))) S else Some (True, S));
     (inited, S) \<leftarrow> (if padding_buckets t \<noteq> [] then v_init_buckets vt (map int (padding_buckets t)) S else Some (True, S));
     let g = do_server_list_changed (migrate_mgr T);
     let g = (if list_ex (\<lambda>b. migrates t b \<noteq> None) [0..<tm_bucket_count t]
              then set_migrate_server_list (\<lambda>b. if bits ! b then None else migrates t b) (table_version t) g else g);
     Some (T\<lparr>status := STATUS_CAN_WORK, storage_mgr := S, table_mgr := t, migrate_done_set := bits, migrate_mgr := g,
            dup_queue_size := queue\<rparr>) }"

end
