(* ===== verification/Tair_Server.thy ===== *)
theory Tair_Server
  imports Tair_Manager
begin

unbundle bit_operations_syntax

text \<open>
  What clients see of a data server: its storing, reading, removing and counting, in any order, behave as
  operations on one map from areas and keys to values. The lemmas are proved for every engine that
  behaves as a map and obtained for the memory engine; from an engine that has just started, no sequence
  of well-formed requests kills the process, and a read returns the value stored last or nothing.
\<close>

section \<open>Keys with their area\<close>

definition client_key :: "data_entry \<Rightarrow> bool" where
  "client_key key \<longleftrightarrow> \<not> has_merged key \<and> esize key = int (length (entry_data key)) \<and> 1 \<le> esize key \<and> esize key < TAIR_MAX_KEY_SIZE"

definition client_value :: "data_entry \<Rightarrow> bool" where
  "client_value v \<longleftrightarrow> esize v = int (length (entry_data v)) \<and> 1 \<le> esize v \<and> esize v < TAIR_MAX_DATA_SIZE"

definition full_key :: "32 word \<Rightarrow> bytes \<Rightarrow> bytes" where
  "full_key a k = [ucast (a AND 0xFF), ucast (drop_bit 8 a AND 0xFF)] @ k"

lemma area_bytes:
  assumes "a < (1024 :: 32 word)"
  shows "unat (ucast (a AND 0xFF) :: 8 word) + 256 * unat (ucast (drop_bit 8 a AND 0xFF) :: 8 word) = unat a"
proof -
  have ff: "(0xFF :: 32 word) = mask 8"
    by (simp add: mask_eq_exp_minus_1)
  have a: "unat a < 1024"
    using assms by (simp add: word_less_nat_alt)
  have "unat (ucast (a AND 0xFF) :: 8 word) = unat a mod 256"
    unfolding ff by (simp add: unsigned_ucast_eq take_bit_eq_mask [symmetric] unsigned_take_bit_eq take_bit_nat_def)
  moreover have "unat (ucast (drop_bit 8 a AND 0xFF) :: 8 word) = unat a div 256"
    unfolding ff using a by (simp add: unsigned_ucast_eq take_bit_eq_mask [symmetric] unsigned_take_bit_eq unsigned_drop_bit_eq take_bit_nat_def drop_bit_nat_def)
  ultimately show ?thesis
    by simp
qed

lemma KEY_AREA_full: "a < 1024 \<Longrightarrow> KEY_AREA (full_key a k) = unat a"
  using area_bytes [of a] by (simp add: KEY_AREA_def full_key_def)

lemma full_key_inj:
  assumes "a < 1024" and "a' < 1024"
  shows "full_key a k = full_key a' k' \<longleftrightarrow> a = a' \<and> k = k'"
proof
  assume eq: "full_key a k = full_key a' k'"
  then have "unat a = unat a'"
    using KEY_AREA_full [OF assms(1), of k] KEY_AREA_full [OF assms(2), of k'] by simp
  then show "a = a' \<and> k = k'"
    using eq by (simp add: word_unat_eq_iff full_key_def)
qed simp

lemma merged_key_fields:
  assumes "client_key key"
  shows "entry_data (merged_key a key) = full_key a (entry_data key)" "esize (merged_key a key) = int (length (full_key a (entry_data key)))"
    "area (merged_key a key) = a" "data_meta (merged_key a key) = data_meta key" "server_flag (merged_key a key) = server_flag key"
proof -
  obtain d where d: "edata key = Some d" "esize key = int (length d)" "0 < length d" "\<not> has_merged key"
    using assms by (cases "edata key") (auto simp: client_key_def entry_data_def Suc_le_eq)
  have s: "nat (int (length d) + 2) = length d + 2"
    by simp
  show "entry_data (merged_key a key) = full_key a (entry_data key)" "esize (merged_key a key) = int (length (full_key a (entry_data key)))"
    "area (merged_key a key) = a" "data_meta (merged_key a key) = data_meta key" "server_flag (merged_key a key) = server_flag key"
    using d by (auto simp: merged_key_def merge_area_def assign_entry_def copy_fields_def set_data_def free_data_def init_entry_def
        entry_data_def full_key_def Let_def s)
qed

section \<open>The operations on an engine that is a map\<close>

text \<open>Only the storage and the statistics of the server change.\<close>

definition same_server :: "'e tair_manager \<Rightarrow> 'e tair_manager \<Rightarrow> bool" where
  "same_server T T' \<longleftrightarrow> T' = T\<lparr>storage_mgr := storage_mgr T', tair_stat_of := tair_stat_of T'\<rparr>"

lemma same_server_refl [simp]: "same_server T T"
  by (simp add: same_server_def)

lemma same_server_trans: "same_server T T' \<Longrightarrow> same_server T' T'' \<Longrightarrow> same_server T T''"
  unfolding same_server_def by (metis (no_types, lifting) tair_manager.surjective tair_manager.update_convs(3,8))

lemma same_server_status: "same_server T T' \<Longrightarrow> status T' = status T"
  unfolding same_server_def by (metis tair_manager.select_convs(1) tair_manager.surjective tair_manager.update_convs(3,8))

lemma same_server_upd [simp]: "same_server T (upd_stats f (T\<lparr>storage_mgr := S\<rparr>))" "same_server T (upd_stats f T)"
  by (simp_all add: same_server_def upd_stats_def)

lemma storage_upd_stats [simp]: "storage_mgr (upd_stats f T) = storage_mgr T"
  by (simp add: upd_stats_def)

text \<open>Room for the largest key and the largest value a client may send.\<close>

definition takes_all :: "('s \<Rightarrow> nat \<Rightarrow> bool) \<Rightarrow> 's \<Rightarrow> bool" where
  "takes_all room S \<longleftrightarrow> (\<forall>n \<le> 1001024. room S n)"

lemma client_key_good: "client_key key \<Longrightarrow> \<not> bad_key key"
  by (auto simp: client_key_def bad_key_def)

lemma client_sizes:
  assumes "client_key key" and "client_value v" and "a < 1024"
  shows "storable (merged_key a key) v" "\<not> bad_key key" "\<not> bad_value v" "length (full_key a (entry_data key)) + length (entry_data v) \<le> 1001024"
  using assms merged_key_fields(1,2) [OF assms(1), of a] KEY_AREA_full [OF assms(3)]
  by (auto simp: storable_def client_key_def client_value_def bad_key_def bad_value_def TAIR_MAX_KEY_SIZE_def TAIR_MAX_DATA_SIZE_def
      full_key_def TAIR_MAX_AREA_COUNT_def word_less_nat_alt)

lemma put_entry_meta: "data_meta key' = data_meta key \<Longrightarrow> put_entry now key' v vc ex found = put_entry now key v vc ex found"
  by (simp add: put_entry_def fun_eq_iff)

subsection \<open>Counters\<close>

lemma counter_round_trip [simp]: "counter_at (counter_bytes n @ d) = n"
proof (rule bit_word_eqI)
  fix k assume k: "k < LENGTH(32)"
  then consider "k < 8" | "8 \<le> k \<and> k < 16" | "16 \<le> k \<and> k < 24" | "24 \<le> k \<and> k < 32"
    by force
  then show "bit (counter_at (counter_bytes n @ d)) k = bit n k"
    by cases (auto simp: counter_at_def counter_bytes_def bit_simps)
qed

lemma counter_round_trip_Nil [simp]: "counter_at (counter_bytes n) = n"
  using counter_round_trip [of n "[]"] by simp

lemma length_counter_bytes [simp]: "length (counter_bytes n) = 4"
  by (simp add: counter_bytes_def)

definition is_counter :: "stored \<Rightarrow> bool" where
  "is_counter w \<longleftrightarrow> IS_ADDCOUNT_TYPE (ucast (s_flags w))"

definition counter_of :: "stored \<Rightarrow> 32 word" where
  "counter_of w = counter_at (drop ITEM_HEAD_LENGTH (s_data w))"

text \<open>What a server without faulty counters holds: values of the sizes clients may send, counters with room for their number.\<close>

definition sound :: "(bytes \<Rightarrow> stored option) \<Rightarrow> bool" where
  "sound c \<longleftrightarrow> (\<forall>k w. c k = Some w \<longrightarrow> 1 \<le> length (s_data w) \<and> length (s_data w) < 1000000 \<and> (is_counter w \<longrightarrow> 6 \<le> length (s_data w)))"

lemma sound_upd: "sound c \<Longrightarrow> (\<And>w. x = Some w \<Longrightarrow> 1 \<le> length (s_data w) \<and> length (s_data w) < 1000000 \<and> (is_counter w \<longrightarrow> 6 \<le> length (s_data w)))
    \<Longrightarrow> sound (c(k := x))"
  by (auto simp: sound_def)

lemma stored_flag:
  assumes "old = 0 \<or> old = TAIR_ITEM_FLAG_DELETED"
  shows "is_counter (put_entry now key v vc ex found old et) \<longleftrightarrow> IS_ADDCOUNT_TYPE (flag (data_meta v))"
proof -
  have "bit (ucast (ucast (f OR old) AND (0xF :: 64 word)) :: 8 word) 0 = bit f 0" for f :: "8 word"
    using assms by (auto simp: TAIR_ITEM_FLAG_DELETED_def bit_simps)
  moreover have "IS_ADDCOUNT_TYPE f \<longleftrightarrow> bit f 0" for f
    by (simp add: IS_ADDCOUNT_TYPE_def TAIR_ITEM_FLAG_ADDCOUNT_def and_one_eq bit_0 odd_iff_mod_2_eq_one)
  ultimately show ?thesis
    by (simp add: is_counter_def put_entry_def)
qed

lemma bump_spec:
  assumes "6 \<le> length (entry_data v)"
  shows "\<exists>v'. bump addv v = Some (counter_at (drop ITEM_HEAD_LENGTH (entry_data v)) + addv, v')
    \<and> entry_data v' = take 2 (entry_data v) @ counter_bytes (counter_at (drop ITEM_HEAD_LENGTH (entry_data v)) + addv) @ drop 6 (entry_data v)
    \<and> esize v' = esize v"
proof -
  let ?d = "entry_data v" and ?n = "counter_at (drop 2 (entry_data v)) + addv"
  have n: "counter_at (drop 2 (?d @ [0])) = counter_at (drop 2 ?d)"
    using assms by (simp add: counter_at_def nth_append)
  have "take (length ?d) (take 2 (?d @ [0]) @ counter_bytes ?n @ drop 6 (?d @ [0])) = take 2 ?d @ counter_bytes ?n @ drop 6 ?d"
  proof -
    have "take 2 (?d @ [0]) @ counter_bytes ?n @ drop 6 (?d @ [0]) = (take 2 ?d @ counter_bytes ?n @ drop 6 ?d) @ [0]"
      using assms by simp
    moreover have "length (take 2 ?d @ counter_bytes ?n @ drop 6 ?d) = length ?d"
      using assms by (simp add: counter_bytes_def)
    ultimately show ?thesis
      by (metis append_eq_conv_conj)
  qed
  then have "bump addv v = Some (?n, v\<lparr>edata := Some (take 2 ?d @ counter_bytes ?n @ drop 6 ?d)\<rparr>)"
    using assms n by (simp add: bump_def Let_def ITEM_HEAD_LENGTH_def)
  then show ?thesis
    by (simp add: ITEM_HEAD_LENGTH_def entry_data_def [of "edata_update f v" for f])
qed

lemma fresh_counter_spec: "entry_data (fresh_counter n v) = [0, 0x16] @ counter_bytes n" "esize (fresh_counter n v) = 6"
  by (simp_all add: fresh_counter_def set_data_def free_data_def entry_data_def counter_bytes_def)

lemma mark_counter_spec [simp]: "entry_data (mark_counter v) = entry_data v" "esize (mark_counter v) = esize v" "IS_ADDCOUNT_TYPE (flag (data_meta (mark_counter v)))"
proof -
  have "(f OR 1) AND 1 = (1 :: 8 word)" for f
    by (rule bit_word_eqI) (auto simp: bit_simps)
  then show "IS_ADDCOUNT_TYPE (flag (data_meta (mark_counter v)))"
    by (simp add: mark_counter_def IS_ADDCOUNT_TYPE_def TAIR_ITEM_FLAG_ADDCOUNT_def)
qed (simp_all add: mark_counter_def entry_data_def)

text \<open>The entry a counting leaves, and the map after it.\<close>

definition counted_entry :: "32 word \<Rightarrow> (32 word \<Rightarrow> stored) \<Rightarrow> bool" where
  "counted_entry n w \<longleftrightarrow> (\<forall>et. is_counter (w et) \<and> counter_of (w et) = n \<and> 6 \<le> length (s_data (w et)) \<and> length (s_data (w et)) < 1000000)"

definition count_result :: "32 word \<Rightarrow> 32 word \<Rightarrow> stored option \<Rightarrow> 32 word" where
  "count_result addv init_value found = (case found of None \<Rightarrow> init_value + addv | Some w \<Rightarrow> counter_of w + addv)"

text \<open>The state after an operation: in order, with the same room, and the rest of the server as it was.\<close>

context map_engine
begin

lemma server_put:
  assumes "ok (storage_mgr T)" and "takes_all room (storage_mgr T)" and "client_key key" and "client_value v" and "a < 1024"
  shows "if conflict now (version_cares key) (version (data_meta key)) (holds (storage_mgr T) (full_key a (entry_data key)))
    then \<exists>T'. tm_put (vt clock now) a key v ex T = Some (TAIR_RETURN_VERSION_ERROR, T') \<and> storage_mgr T' = storage_mgr T \<and> same_server T T'
    else \<exists>T' old. tm_put (vt clock now) a key v ex T = Some (0, T') \<and> ok (storage_mgr T') \<and> room (storage_mgr T') = room (storage_mgr T)
      \<and> same_server T T' \<and> (old = 0 \<or> old = TAIR_ITEM_FLAG_DELETED)
      \<and> stores (holds (storage_mgr T)) (full_key a (entry_data key))
          (put_entry now key v (version_cares key) ex (holds (storage_mgr T) (full_key a (entry_data key))) old) (holds (storage_mgr T'))"
proof -
  note m = merged_key_fields [OF assms(3), of a] and c = client_sizes [OF assms(3-5)]
  let ?S = "storage_mgr T" and ?mk = "merged_key a key" and ?k = "full_key a (entry_data key)" and ?vc = "version_cares key"
  have room: "room ?S (length (entry_data ?mk) + length (entry_data v))"
    using assms(2) c(4) m(1) by (simp add: takes_all_def)
  show ?thesis
  proof (cases "conflict now ?vc (version (data_meta key)) (holds ?S ?k)")
    case True
    then obtain key' where "v_put (vt clock now) a ?mk v ?vc ex ?S = Some (TAIR_RETURN_VERSION_ERROR, key', ?S)"
      using put_conflict [OF assms(1) c(1) room, of now ?vc clock a ex] m by auto
    then have "tm_put (vt clock now) a key v ex T = Some (TAIR_RETURN_VERSION_ERROR, upd_stats (stat_put a) (T\<lparr>storage_mgr := ?S\<rparr>))"
      using c(2,3) by (simp add: tm_put_def)
    then show ?thesis
      using True by auto
  next
    case False
    then obtain key' S' old where p: "v_put (vt clock now) a ?mk v ?vc ex ?S = Some (0, key', S')" "ok S'" "room S' = room ?S"
        "old = 0 \<or> old = TAIR_ITEM_FLAG_DELETED" "stores (holds ?S) ?k (put_entry now ?mk v ?vc ex (holds ?S ?k) old) (holds S')"
      using put_stores [OF assms(1) c(1) room, of now ?vc clock a ex] m by auto
    then have "tm_put (vt clock now) a key v ex T = Some (0, upd_stats (stat_put a) (T\<lparr>storage_mgr := S'\<rparr>))"
      using c(2,3) by (simp add: tm_put_def)
    then show ?thesis
      using False p(2-5) put_entry_meta [OF m(4)] by auto
  qed
qed

lemma server_get:
  assumes "ok (storage_mgr T)" and "status T = STATUS_CAN_WORK" and "client_key key" and "a < 1024"
  shows "\<exists>key' v' T'. tm_get (vt clock now) a key v T = Some (get_result now (holds (storage_mgr T) (full_key a (entry_data key))), key', v', T')
    \<and> ok (storage_mgr T') \<and> room (storage_mgr T') = room (storage_mgr T) \<and> same_server T T'
    \<and> holds (storage_mgr T') = (holds (storage_mgr T))(full_key a (entry_data key) := live now (holds (storage_mgr T) (full_key a (entry_data key))))
    \<and> answered (live now (holds (storage_mgr T) (full_key a (entry_data key)))) key v key' v' \<and> (\<exists>m. key' = key\<lparr>data_meta := m\<rparr>)"
proof -
  note m = merged_key_fields [OF assms(3), of a]
  let ?S = "storage_mgr T" and ?mk = "merged_key a key" and ?k = "full_key a (entry_data key)"
  have k: "2 \<le> length (entry_data ?mk)" "unat (area ?mk) = KEY_AREA (entry_data ?mk)" "unat (area ?mk) < TAIR_MAX_AREA_COUNT"
    using m(1,3) KEY_AREA_full [OF assms(4)] assms(4) by (simp_all add: full_key_def TAIR_MAX_AREA_COUNT_def word_less_nat_alt)
  obtain mk' v' S' where g: "v_get (vt clock now) a ?mk v ?S = Some (get_result now (holds ?S ?k), mk', v', S')" "ok S'" "room S' = room ?S"
      "holds S' = (holds ?S)(?k := live now (holds ?S ?k))" "answered (live now (holds ?S ?k)) ?mk v mk' v'"
    using get_reads [OF assms(1) k, of clock now a v] m(1) by auto
  have "answered (live now (holds ?S ?k)) key v (key\<lparr>data_meta := data_meta mk'\<rparr>) v'"
    using g(5) m(4) by (auto simp: answered_def split: option.splits)
  moreover have "tm_get (vt clock now) a key v T = Some (get_result now (holds ?S ?k), key\<lparr>data_meta := data_meta mk'\<rparr>, v',
      upd_stats (stat_get a (get_result now (holds ?S ?k))) (T\<lparr>storage_mgr := S'\<rparr>))"
    using g(1) assms(2) client_key_good [OF assms(3)] by (simp add: tm_get_def)
  ultimately show ?thesis
    using g(2-4) by auto
qed

lemma server_remove:
  assumes "ok (storage_mgr T)" and "client_key key" and "a < 1024"
  shows "\<exists>T'. tm_remove (vt clock now) a key T
        = Some (if holds (storage_mgr T) (full_key a (entry_data key)) = None then TAIR_RETURN_DATA_NOT_EXIST else 0, T')
    \<and> ok (storage_mgr T') \<and> room (storage_mgr T') = room (storage_mgr T) \<and> same_server T T'
    \<and> holds (storage_mgr T') = (holds (storage_mgr T))(full_key a (entry_data key) := None)"
proof -
  note m = merged_key_fields [OF assms(2), of a]
  let ?S = "storage_mgr T" and ?mk = "merged_key a key" and ?k = "full_key a (entry_data key)"
  have k: "entry_data ?mk \<noteq> []" "unat (area ?mk) < TAIR_MAX_AREA_COUNT"
    using m(1,3) assms(3) by (simp_all add: full_key_def TAIR_MAX_AREA_COUNT_def word_less_nat_alt)
  obtain mk' S' where r: "v_remove (vt clock now) a ?mk (version_cares key) ?S = Some (if holds ?S ?k = None then TAIR_RETURN_DATA_NOT_EXIST else 0, mk', S')"
      "ok S'" "room S' = room ?S" "holds S' = (holds ?S)(?k := None)"
    using remove_removes [OF assms(1) k, of clock now a "version_cares key"] m(1) by auto
  have "tm_remove (vt clock now) a key T = Some (if holds ?S ?k = None then TAIR_RETURN_DATA_NOT_EXIST else 0, upd_stats (stat_remove a) (T\<lparr>storage_mgr := S'\<rparr>))"
    using r(1) client_key_good [OF assms(2)] by (simp add: tm_remove_def)
  then show ?thesis
    using r(2-4) by auto
qed

lemma server_store_counter:
  assumes "ok (storage_mgr T)" and "takes_all room (storage_mgr T)" and "client_key key" and "a < 1024"
    and "\<And>w. live now (holds (storage_mgr T) (full_key a (entry_data key))) = Some w \<Longrightarrow> version (data_meta key) = s_version w"
    and "esize v = int (length (entry_data v))" and "6 \<le> length (entry_data v)" and "length (entry_data v) < 1000000"
  shows "\<exists>T' w. tm_put (vt clock now) a key (mark_counter v) ex T = Some (0, T') \<and> ok (storage_mgr T') \<and> room (storage_mgr T') = room (storage_mgr T)
    \<and> same_server T T' \<and> stores (holds (storage_mgr T)) (full_key a (entry_data key)) w (holds (storage_mgr T'))
    \<and> counted_entry (counter_at (drop ITEM_HEAD_LENGTH (entry_data v))) w"
proof -
  let ?S = "storage_mgr T" and ?k = "full_key a (entry_data key)"
  have v: "client_value (mark_counter v)"
    using assms(6-8) by (simp add: client_value_def TAIR_MAX_DATA_SIZE_def)
  have nc: "\<not> conflict now (version_cares key) (version (data_meta key)) (holds ?S ?k)"
    using assms(5) by (auto simp: conflict_def split: option.splits)
  obtain T' old where p: "tm_put (vt clock now) a key (mark_counter v) ex T = Some (0, T')" "ok (storage_mgr T')" "room (storage_mgr T') = room ?S"
      "same_server T T'" "old = 0 \<or> old = TAIR_ITEM_FLAG_DELETED"
      "stores (holds ?S) ?k (put_entry now key (mark_counter v) (version_cares key) ex (holds ?S ?k) old) (holds (storage_mgr T'))"
    using server_put [OF assms(1-3) v assms(4), of now clock ex] nc by auto
  have "counted_entry (counter_at (drop ITEM_HEAD_LENGTH (entry_data v))) (put_entry now key (mark_counter v) (version_cares key) ex (holds ?S ?k) old)"
    using stored_flag [OF p(5)] assms(7,8) by (simp add: counted_entry_def counter_of_def) (simp add: put_entry_def)
  then show ?thesis
    using p by blast
qed

lemma server_count:
  assumes "ok (storage_mgr T)" and "takes_all room (storage_mgr T)" and "status T = STATUS_CAN_WORK" and "client_key key" and "a < 1024"
    and "sound (holds (storage_mgr T))"
  defines "c \<equiv> holds (storage_mgr T)" and "k \<equiv> full_key a (entry_data key)"
  shows "if \<exists>w. live now (c k) = Some w \<and> \<not> is_counter w
    then \<exists>n key' T'. add_count (vt clock now) a key addv init_value r ex T = Some (TAIR_RETURN_CANNOT_OVERRIDE, n, key', T')
      \<and> ok (storage_mgr T') \<and> room (storage_mgr T') = room (storage_mgr T) \<and> same_server T T' \<and> holds (storage_mgr T') = c
    else \<exists>w key' T'. add_count (vt clock now) a key addv init_value r ex T = Some (0, count_result addv init_value (live now (c k)), key', T')
      \<and> ok (storage_mgr T') \<and> room (storage_mgr T') = room (storage_mgr T) \<and> same_server T T'
      \<and> stores (c(k := live now (c k))) k w (holds (storage_mgr T')) \<and> counted_entry (count_result addv init_value (live now (c k))) w"
proof -
  let ?T = "T\<lparr>storage_mgr := storage_mgr T\<rparr>"
  obtain key' v' T1 where g: "tm_get (vt clock now) a key init_entry ?T = Some (get_result now (c k), key', v', T1)" "ok (storage_mgr T1)"
      "room (storage_mgr T1) = room (storage_mgr T)" "same_server T T1" "holds (storage_mgr T1) = c(k := live now (c k))"
      "answered (live now (c k)) key init_entry key' v'" "\<exists>m. key' = key\<lparr>data_meta := m\<rparr>"
    using server_get [OF assms(1,3-5), of clock now init_entry] unfolding c_def k_def by auto
  have key': "client_key key'" "full_key a (entry_data key') = k" "version_cares key' = version_cares key"
    using g(7) assms(4) by (auto simp: client_key_def k_def entry_data_def version_cares_def)
  have call: "add_count (vt clock now) a key addv init_value r ex T = (if get_result now (c k) = 0 \<and> \<not> IS_ADDCOUNT_TYPE (flag (data_meta key'))
      then Some (TAIR_RETURN_CANNOT_OVERRIDE, of_int (sint r), key', T1)
      else do {
        (n, w) \<leftarrow> (if get_result now (c k) = 0 then bump addv v' else Some (init_value + addv, fresh_counter (init_value + addv) v'));
        (rc, T) \<leftarrow> tm_put (vt clock now) a key' (mark_counter w) ex T1;
        Some (rc, n, key', T) })"
    using assms(3) client_key_good [OF assms(4)] g(1) by (simp add: add_count_def incdecr_missing)
  have all: "takes_all room (storage_mgr T1)"
    using assms(2) g(3) by (simp add: takes_all_def)
  show ?thesis
  proof (cases "live now (c k)")
    case None
    then have r: "get_result now (c k) \<noteq> 0"
      by (auto simp: get_result_def live_def TAIR_RETURN_DATA_NOT_EXIST_def TAIR_RETURN_DATA_EXPIRED_def split: option.splits if_splits)
    let ?v = "fresh_counter (init_value + addv) v'"
    obtain T' w where p: "tm_put (vt clock now) a key' (mark_counter ?v) ex T1 = Some (0, T')" "ok (storage_mgr T')" "room (storage_mgr T') = room (storage_mgr T1)"
        "same_server T1 T'" "stores (holds (storage_mgr T1)) k w (holds (storage_mgr T'))" "counted_entry (init_value + addv) w"
      using server_store_counter [OF g(2) all key'(1) assms(5), of now ?v clock ex] g(5) None
      by (auto simp: key'(2) fresh_counter_spec ITEM_HEAD_LENGTH_def live_def)
    then show ?thesis
      using None r call g(3-5) same_server_trans [OF g(4) p(4)] by (auto simp: count_result_def)
  next
    case (Some w)
    then have r: "get_result now (c k) = 0" "c k = Some w"
      by (auto simp: get_result_def live_def split: option.splits if_splits)
    have a: "returned w v'" "version (data_meta key') = s_version w" "flag (data_meta key') = ucast (s_flags w)"
      using g(6) Some by (simp_all add: answered_def)
    show ?thesis
    proof (cases "is_counter w")
      case False
      moreover have "c(k := live now (c k)) = c"
        using Some r(2) by auto
      ultimately show ?thesis
        using Some r call a(3) g(2-5) by (auto simp: is_counter_def)
    next
      case True
      have len: "6 \<le> length (entry_data v')" "length (entry_data v') < 1000000" "entry_data v' = s_data w" "esize v' = int (length (entry_data v'))"
        using a(1) assms(6) r(2) True unfolding c_def [symmetric] by (auto simp: returned_def sound_def)
      obtain v1 where b: "bump addv v' = Some (counter_of w + addv, v1)" "esize v1 = esize v'"
          "entry_data v1 = take 2 (entry_data v') @ counter_bytes (counter_of w + addv) @ drop 6 (entry_data v')"
        using bump_spec [OF len(1), of addv] by (auto simp: counter_of_def len(3))
      have v1: "esize v1 = int (length (entry_data v1))" "6 \<le> length (entry_data v1)" "length (entry_data v1) < 1000000"
          "counter_at (drop ITEM_HEAD_LENGTH (entry_data v1)) = counter_of w + addv"
        using b(2,3) len(1,2,4) by (simp_all add: ITEM_HEAD_LENGTH_def)
      have lv: "live now (Some w) = Some w"
        using Some r(2) by simp
      obtain T' w' where p: "tm_put (vt clock now) a key' (mark_counter v1) ex T1 = Some (0, T')" "ok (storage_mgr T')" "room (storage_mgr T') = room (storage_mgr T1)"
          "same_server T1 T'" "stores (holds (storage_mgr T1)) k w' (holds (storage_mgr T'))" "counted_entry (counter_of w + addv) w'"
        using server_store_counter [OF g(2) all key'(1) assms(5), of now v1 clock ex] g(5) Some v1 a(2) lv by (auto simp: key'(2))
      then show ?thesis
        using Some True r call b(1) a(3) g(3,5) same_server_trans [OF g(4) p(4)] by (auto simp: count_result_def is_counter_def)
    qed
  qed
qed

end

section \<open>Requests and answers\<close>

datatype server_request =
    Put_request "32 word" data_entry data_entry int
  | Get_request "32 word" data_entry
  | Remove_request "32 word" data_entry
  | Count_request "32 word" data_entry "32 word" "32 word" int

datatype answer = Code int | Read int "bytes option" | Number int "32 word"

definition serve :: "('d, 'e storage_manager) storage_vtable \<Rightarrow> server_request \<Rightarrow> 'e tair_manager \<Rightarrow> (answer \<times> 'e tair_manager) option" where
  "serve vt r T = (case r of
     Put_request a key v ex \<Rightarrow> do { (rc, T) \<leftarrow> tm_put vt a key v ex T; Some (Code rc, T) }
   | Get_request a key \<Rightarrow> do {
       (rc, key, v, T) \<leftarrow> tm_get vt a key init_entry T;
       Some (Read rc (if rc = 0 then Some (entry_data v) else None), T) }
   | Remove_request a key \<Rightarrow> do { (rc, T) \<leftarrow> tm_remove vt a key T; Some (Code rc, T) }
   | Count_request a key addv init_value ex \<Rightarrow> do {
       (rc, n, key, T) \<leftarrow> add_count vt a key addv init_value 0 ex T;
       Some (Number rc n, T) })"

text \<open>A sequence of requests, each with the time at which it is served.\<close>

fun serve_all ::
  "((nat \<Rightarrow> 32 word) \<Rightarrow> 32 word \<Rightarrow> ('d, 'e storage_manager) storage_vtable) \<Rightarrow> (32 word \<times> server_request) list \<Rightarrow> 'e tair_manager
     \<Rightarrow> (answer list \<times> 'e tair_manager) option" where
  "serve_all vt [] T = Some ([], T)"
| "serve_all vt ((now, r) # rs) T = do {
     (x, T) \<leftarrow> serve (vt (\<lambda>_. now) now) r T;
     (xs, T) \<leftarrow> serve_all vt rs T;
     Some (x # xs, T) }"

fun request_key :: "server_request \<Rightarrow> bytes" where
  "request_key (Put_request a key v ex) = full_key a (entry_data key)"
| "request_key (Get_request a key) = full_key a (entry_data key)"
| "request_key (Remove_request a key) = full_key a (entry_data key)"
| "request_key (Count_request a key addv init_value ex) = full_key a (entry_data key)"

fun request_ok :: "server_request \<Rightarrow> bool" where
  "request_ok (Put_request a key v ex) \<longleftrightarrow> a < 1024 \<and> client_key key \<and> client_value v
     \<and> (IS_ADDCOUNT_TYPE (flag (data_meta v)) \<longrightarrow> 6 \<le> length (entry_data v))"
| "request_ok (Get_request a key) \<longleftrightarrow> a < 1024 \<and> client_key key"
| "request_ok (Remove_request a key) \<longleftrightarrow> a < 1024 \<and> client_key key"
| "request_ok (Count_request a key addv init_value ex) \<longleftrightarrow> a < 1024 \<and> client_key key"

text \<open>The specification: what a map may answer to a request, and what it holds afterwards.\<close>

definition put_as_asked :: "32 word \<Rightarrow> data_entry \<Rightarrow> data_entry \<Rightarrow> int \<Rightarrow> stored option \<Rightarrow> (32 word \<Rightarrow> stored) \<Rightarrow> bool" where
  "put_as_asked now key v ex found w \<longleftrightarrow> (\<forall>et. s_data (w et) = entry_data v
     \<and> s_version (w et) = put_version now (version_cares key) (version (data_meta key)) found
     \<and> s_exptime (w et) = (if ex > 0 then expire_at now ex else et) \<and> is_counter (w et) = IS_ADDCOUNT_TYPE (flag (data_meta v)))"

fun allows :: "(bytes \<Rightarrow> stored option) \<Rightarrow> 32 word \<Rightarrow> server_request \<Rightarrow> answer \<Rightarrow> (bytes \<Rightarrow> stored option) \<Rightarrow> bool" where
  "allows c now (Put_request a key v ex) x c' \<longleftrightarrow>
     (let k = full_key a (entry_data key)
      in if conflict now (version_cares key) (version (data_meta key)) (c k) then x = Code TAIR_RETURN_VERSION_ERROR \<and> c' = c
         else x = Code 0 \<and> (\<exists>w. stores c k w c' \<and> put_as_asked now key v ex (c k) w))"
| "allows c now (Get_request a key) x c' \<longleftrightarrow>
     (let k = full_key a (entry_data key)
      in x = Read (get_result now (c k)) (map_option s_data (live now (c k))) \<and> c' = c(k := live now (c k)))"
| "allows c now (Remove_request a key) x c' \<longleftrightarrow>
     (let k = full_key a (entry_data key)
      in x = Code (if c k = None then TAIR_RETURN_DATA_NOT_EXIST else 0) \<and> c' = c(k := None))"
| "allows c now (Count_request a key addv init_value ex) x c' \<longleftrightarrow>
     (let k = full_key a (entry_data key)
      in if \<exists>w. live now (c k) = Some w \<and> \<not> is_counter w then (\<exists>n. x = Number TAIR_RETURN_CANNOT_OVERRIDE n) \<and> c' = c
         else x = Number 0 (count_result addv init_value (live now (c k)))
           \<and> (\<exists>w. stores (c(k := live now (c k))) k w c' \<and> counted_entry (count_result addv init_value (live now (c k))) w))"

inductive trace :: "(bytes \<Rightarrow> stored option) \<Rightarrow> (32 word \<times> server_request) list \<Rightarrow> answer list \<Rightarrow> (bytes \<Rightarrow> stored option) \<Rightarrow> bool" where
  trace_Nil: "trace c [] [] c"
| trace_Cons: "allows c now r x c1 \<Longrightarrow> trace c1 rs xs c' \<Longrightarrow> trace c ((now, r) # rs) (x # xs) c'"

inductive_cases trace_NilE: "trace c [] xs c'"
inductive_cases trace_ConsE: "trace c ((now, r) # rs) xs c'"

lemma sound_stores:
  assumes "sound c" and "stores c k w c'"
    and "\<And>et. 1 \<le> length (s_data (w et)) \<and> length (s_data (w et)) < 1000000 \<and> (is_counter (w et) \<longrightarrow> 6 \<le> length (s_data (w et)))"
  shows "sound c'"
  using assms by (auto simp: stores_def intro!: sound_upd)

lemma sound_live: "sound c \<Longrightarrow> sound (c(k := live now (c k)))"
  by (rule sound_upd) (auto simp: sound_def live_def split: option.splits if_splits)

lemma allows_sound:
  assumes "allows c now r x c'" and "sound c" and "request_ok r"
  shows "sound c'"
proof (cases r)
  case (Put_request a key v ex)
  let ?k = "full_key a (entry_data key)"
  have v: "1 \<le> length (entry_data v)" "length (entry_data v) < 1000000" "IS_ADDCOUNT_TYPE (flag (data_meta v)) \<longrightarrow> 6 \<le> length (entry_data v)"
    using assms(3) Put_request by (auto simp: client_value_def TAIR_MAX_DATA_SIZE_def)
  show ?thesis
  proof (cases "c' = c")
    case False
    then obtain w where w: "stores c ?k w c'" "put_as_asked now key v ex (c ?k) w"
      using assms(1) Put_request by (auto simp: Let_def split: if_splits)
    show ?thesis
      by (rule sound_stores [OF assms(2) w(1)]) (use w(2) v in \<open>simp add: put_as_asked_def\<close>)
  qed (use assms(2) in simp)
next
  case (Get_request a key)
  then show ?thesis
    using assms(1) sound_live [OF assms(2)] by (simp add: Let_def)
next
  case (Remove_request a key)
  then show ?thesis
    using assms(1) sound_upd [OF assms(2), of None] by (simp add: Let_def)
next
  case (Count_request a key addv init_value ex)
  let ?k = "full_key a (entry_data key)"
  show ?thesis
  proof (cases "c' = c")
    case False
    then obtain w where w: "stores (c(?k := live now (c ?k))) ?k w c'" "counted_entry (count_result addv init_value (live now (c ?k))) w"
      using assms(1) Count_request by (auto simp: Let_def split: if_splits)
    have "6 \<le> length (s_data (w et))" "length (s_data (w et)) < 1000000" for et
      using w(2) by (simp_all add: counted_entry_def)
    then show ?thesis
      by (intro sound_stores [OF sound_live [OF assms(2)] w(1)]) (metis order_trans one_le_numeral)
  qed (use assms(2) in simp)
qed

text \<open>Each operation of the server is allowed, and so is every sequence.\<close>

context map_engine
begin

lemma serve_allowed:
  assumes "ok (storage_mgr T)" and "takes_all room (storage_mgr T)" and "status T = STATUS_CAN_WORK" and "sound (holds (storage_mgr T))" and "request_ok r"
  shows "\<exists>x T'. serve (vt clock now) r T = Some (x, T') \<and> allows (holds (storage_mgr T)) now r x (holds (storage_mgr T'))
    \<and> ok (storage_mgr T') \<and> room (storage_mgr T') = room (storage_mgr T) \<and> same_server T T'"
proof (cases r)
  case (Put_request a key v ex)
  let ?c = "holds (storage_mgr T)" and ?k = "full_key a (entry_data key)"
  note p = server_put [OF assms(1,2), of key v a now clock ex]
  show ?thesis
  proof (cases "conflict now (version_cares key) (version (data_meta key)) (?c ?k)")
    case True
    then show ?thesis
      using p assms(1,5) Put_request by (auto simp: serve_def Let_def)
  next
    case False
    then obtain T' old where q: "tm_put (vt clock now) a key v ex T = Some (0, T')" "ok (storage_mgr T')" "room (storage_mgr T') = room (storage_mgr T)"
        "same_server T T'" "old = 0 \<or> old = TAIR_ITEM_FLAG_DELETED"
        "stores ?c ?k (put_entry now key v (version_cares key) ex (?c ?k) old) (holds (storage_mgr T'))"
      using p assms(5) Put_request by auto
    have "put_as_asked now key v ex (?c ?k) (put_entry now key v (version_cares key) ex (?c ?k) old)"
      using stored_flag [OF q(5)] by (simp add: put_as_asked_def) (simp add: put_entry_def)
    then show ?thesis
      using q False Put_request by (auto simp: serve_def Let_def)
  qed
next
  case (Get_request a key)
  let ?c = "holds (storage_mgr T)" and ?k = "full_key a (entry_data key)"
  obtain key' v' T' where g: "tm_get (vt clock now) a key init_entry T = Some (get_result now (?c ?k), key', v', T')" "ok (storage_mgr T')"
      "room (storage_mgr T') = room (storage_mgr T)" "same_server T T'" "holds (storage_mgr T') = ?c(?k := live now (?c ?k))"
      "answered (live now (?c ?k)) key init_entry key' v'"
    using server_get [OF assms(1,3), of key a clock now init_entry] assms(5) Get_request by auto
  have "(if get_result now (?c ?k) = 0 then Some (entry_data v') else None) = map_option s_data (live now (?c ?k))"
    using g(6) by (auto simp: get_result_def live_def answered_def returned_def TAIR_RETURN_DATA_NOT_EXIST_def TAIR_RETURN_DATA_EXPIRED_def
        split: option.splits if_splits)
  then show ?thesis
    using g(1-5) Get_request by (auto simp: serve_def Let_def)
next
  case (Remove_request a key)
  then show ?thesis
    using server_remove [OF assms(1), of key a clock now] assms(5) by (auto simp: serve_def Let_def)
next
  case (Count_request a key addv init_value ex)
  then show ?thesis
    using server_count [OF assms(1-3) _ _ assms(4), of key a now clock addv init_value 0 ex] assms(5)
    by (fastforce simp: serve_def Let_def split: if_splits)
qed

lemma serve_all_trace:
  assumes "ok (storage_mgr T)" and "takes_all room (storage_mgr T)" and "status T = STATUS_CAN_WORK" and "sound (holds (storage_mgr T))"
    and "\<forall>(now, r)\<in>set rs. request_ok r"
  shows "\<exists>xs T'. serve_all vt rs T = Some (xs, T') \<and> trace (holds (storage_mgr T)) rs xs (holds (storage_mgr T'))
    \<and> ok (storage_mgr T') \<and> room (storage_mgr T') = room (storage_mgr T) \<and> same_server T T' \<and> sound (holds (storage_mgr T'))"
  using assms
proof (induction rs arbitrary: T)
  case Nil
  then show ?case
    using trace_Nil by auto
next
  case (Cons nr rs)
  obtain now r where nr: "nr = (now, r)"
    by fastforce
  have r: "request_ok r"
    using Cons.prems(5) nr by simp
  obtain x T1 where s: "serve (vt (\<lambda>_. now) now) r T = Some (x, T1)" "allows (holds (storage_mgr T)) now r x (holds (storage_mgr T1))"
      "ok (storage_mgr T1)" "room (storage_mgr T1) = room (storage_mgr T)" "same_server T T1"
    using serve_allowed [OF Cons.prems(1-4) r] by blast
  have T1: "takes_all room (storage_mgr T1)" "status T1 = STATUS_CAN_WORK" "sound (holds (storage_mgr T1))"
    using Cons.prems(2,3) s(4) same_server_status [OF s(5)] allows_sound [OF s(2) Cons.prems(4) r] by (simp_all add: takes_all_def)
  obtain xs T' where q: "serve_all vt rs T1 = Some (xs, T')" "trace (holds (storage_mgr T1)) rs xs (holds (storage_mgr T'))"
      "ok (storage_mgr T')" "room (storage_mgr T') = room (storage_mgr T1)" "same_server T1 T'" "sound (holds (storage_mgr T'))"
    using Cons.IH [OF s(3) T1] Cons.prems(5) by auto
  show ?case
    using nr s(1,4) q(1,3,4,6) trace_Cons [OF s(2) q(2)] same_server_trans [OF s(5) q(5)] by auto
qed

end

section \<open>The server on a memory engine that has just started\<close>

lemma get_slabmng_iff: "get_slabmng n ss \<noteq> None \<longleftrightarrow> (\<exists>s\<in>set ss. n \<le> slab_size s)"
  by (induction ss) auto

text \<open>
  The pages of the engine and the room for the headers of its slabs suffice, and one of the slabs takes the
  largest entry.
\<close>

definition good_start :: "(nat \<Rightarrow> nat) \<Rightarrow> nat \<Rightarrow> nat \<Rightarrow> nat \<Rightarrow> bool" where
  "good_start enlarge total_pages shift base \<longleftrightarrow> roomy total_pages shift \<and> base < 2 ^ 20
     \<and> (\<forall>x\<ge>sizeof_mdb_item + 16. sizeof_mdb_item + 16 \<le> enlarge x)
     \<and> size_headers (slab_sizes TAIR_SLAB_LARGEST enlarge (first_size base)) < MEMCACHE_META_LEN
     \<and> (\<exists>s\<in>set (slab_sizes TAIR_SLAB_LARGEST enlarge (first_size base)). 1001024 + sizeof_mdb_item \<le> s)"

lemma started_engine:
  assumes "good_start enlarge total_pages shift base"
  shows "\<exists>M. mdb_initialize enlarge (2 ^ 20) total_pages shift base = Some M"
    and "mdb_initialize enlarge (2 ^ 20) total_pages shift base = Some M \<Longrightarrow> derived S = M
      \<Longrightarrow> mdb_ok S \<and> takes_all mdb_room S \<and> mdb_holds S = (\<lambda>_. None)"
    and "mdb_initialize enlarge (2 ^ 20) total_pages shift base = Some M \<Longrightarrow> set_area_quotas qs M = Some N \<Longrightarrow> derived S = N
      \<Longrightarrow> mdb_ok S \<and> takes_all mdb_room S \<and> mdb_holds S = (\<lambda>_. None)"
proof -
  obtain M' where M': "mdb_initialize enlarge (2 ^ 20) total_pages shift base = Some M'" "engine_ok M'" "content M' = (\<lambda>_. None)"
      "map slab_size (slab_managers M') = slab_sizes TAIR_SLAB_LARGEST enlarge (first_size base)"
    using initialize_ok [of total_pages shift base enlarge] assms by (auto simp: good_start_def)
  then show "\<exists>M. mdb_initialize enlarge (2 ^ 20) total_pages shift base = Some M"
    by blast
  obtain s where s: "s \<in> set (map slab_size (slab_managers M'))" "1001024 + sizeof_mdb_item \<le> s"
    using assms M'(4) by (auto simp: good_start_def)
  have started: "mdb_ok S \<and> takes_all mdb_room S \<and> mdb_holds S = (\<lambda>_. None)" if eq: "derived S = M'\<lparr>area_stat := st\<rparr>" for st
  proof -
    have "mdb_room S n" if "n \<le> 1001024" for n
      unfolding mdb_room_def get_slabmng_iff eq using s that by (auto intro!: bexI)
    then show ?thesis
      using M'(2,3) eq by (simp add: mdb_ok_def mdb_holds_def takes_all_def engine_ok_def)
  qed
  show "mdb_ok S \<and> takes_all mdb_room S \<and> mdb_holds S = (\<lambda>_. None)"
    if "mdb_initialize enlarge (2 ^ 20) total_pages shift base = Some M" "derived S = M"
    using started [of "area_stat M'"] that M'(1) by simp
  show "mdb_ok S \<and> takes_all mdb_room S \<and> mdb_holds S = (\<lambda>_. None)"
    if "mdb_initialize enlarge (2 ^ 20) total_pages shift base = Some M" "set_area_quotas qs M = Some N" "derived S = N"
    using started set_area_quotas_stat [OF that(2)] that(1,3) M'(1) by auto
qed

type_synonym 'd mdb_vt = "(nat \<Rightarrow> 32 word) \<Rightarrow> 32 word \<Rightarrow> ('d, mdb_manager storage_manager) storage_vtable"

lemma sound_empty [simp]: "sound (\<lambda>_. None)"
  by (simp add: sound_def)

text \<open>
  C1. A data server on a memory engine that has just started, with any quotas of its areas, serves
  every sequence of well-formed requests, at any times, to the end: no assertion fails and no memory is
  read out of place. A request is well-formed (\<open>request_ok\<close>) if its area is below 1024, its key has 1
  to 1023 bytes, its value 1 to 999999 bytes, and a value marked as a counter has at least six bytes. The answers and the content are those of a map from areas and keys to values,
  where a write may drop one other entry.
\<close>

theorem server_refines_map:
  assumes "good_start enlarge total_pages shift base"
    and "mdb_initialize enlarge (2 ^ 20) total_pages shift base = Some M0" and "set_area_quotas qs M0 = Some M"
    and "derived (storage_mgr T) = M" and "status T = STATUS_CAN_WORK" and "\<forall>(now, r)\<in>set rs. request_ok r"
  shows "\<exists>xs T'. serve_all (mdb_vtable balance junk :: 'd mdb_vt) rs T = Some (xs, T') \<and> length xs = length rs
    \<and> trace (\<lambda>_. None) rs xs (mdb_holds (storage_mgr T')) \<and> mdb_ok (storage_mgr T')"
proof -
  have S: "mdb_ok (storage_mgr T)" "takes_all mdb_room (storage_mgr T)" "mdb_holds (storage_mgr T) = (\<lambda>_. None)"
    using started_engine(3) [OF assms(1-4)] by simp_all
  obtain xs T' where r: "serve_all (mdb_vtable balance junk :: 'd mdb_vt) rs T = Some (xs, T')" "trace (\<lambda>_. None) rs xs (mdb_holds (storage_mgr T'))" "mdb_ok (storage_mgr T')"
    using mdb.serve_all_trace [OF S(1,2) assms(5) _ assms(6), of balance junk] S(3) by auto
  moreover have "length xs = length rs"
    using r(2) by (induction rule: trace.induct) simp_all
  ultimately show ?thesis
    by blast
qed

text \<open>A server and requests to try the theorems on.\<close>

definition ex_server :: "mdb_manager \<Rightarrow> mdb_manager tair_manager" where
  "ex_server M = \<lparr>status = STATUS_CAN_WORK, localmode = False, storage_mgr = \<lparr>bucket_count = 0, derived = M\<rparr>,
     table_mgr = new_table_manager, migrate_done_set = [],
     migrate_mgr = \<lparr>mg_servers = Map.empty, mg_version = 0, current_locked_bucket = - 1, current_migrating_bucket = - 1,
       is_running = 0, is_stopped = False, is_signaled = False, is_alive = True, mg_stop = False\<rparr>,
     dup_queue_size = None,
     tair_stat_of = \<lambda>_. \<lparr>get_count_value = 0, put_count_value = 0, evict_count_value = 0, remove_count_value = 0, hit_count_value = 0\<rparr>\<rparr>"

lemma ex_start: "good_start (\<lambda>x. 2 * x) 200 10 600000"
proof -
  have eq: "TAIR_SLAB_LARGEST = Suc (Suc 98)" "first_size 600000 = 600000"
    by (simp_all add: TAIR_SLAB_LARGEST_def first_size_def sizeof_mdb_item_def Let_def)
  have sizes: "slab_sizes TAIR_SLAB_LARGEST (\<lambda>x. 2 * x) (first_size 600000) = [2 ^ 20 - sizeof_page_info]"
    unfolding eq slab_sizes.simps by (simp add: Let_def sizeof_page_info_def ALIGN_def)
  have "1001024 + sizeof_mdb_item \<le> 2 ^ 20 - sizeof_page_info"
    by (simp add: sizeof_mdb_item_def sizeof_page_info_def)
  moreover have "size_headers [2 ^ 20 - sizeof_page_info] < MEMCACHE_META_LEN"
    by (simp add: size_headers_def MEMCACHE_META_LEN_def sizeof_slab_manager_def sizeof_page_info_def TAIR_SLAB_LARGEST_def
        TAIR_MAX_AREA_COUNT_def PARTIAL_PAGE_BUCKET_def)
  moreover have "roomy 200 10"
    by (simp add: roomy_def meta_len_def MEMCACHE_META_LEN_def sizeof_slab_manager_def TAIR_SLAB_LARGEST_def TAIR_MAX_AREA_COUNT_def MAX_PAGES_NO_def)
  ultimately show ?thesis
    unfolding good_start_def sizes by auto
qed

definition ex_requests :: "(32 word \<times> server_request) list" where
  "ex_requests = [(1, Put_request 5 (new_entry [107]) (new_entry [1, 2]) 0), (2, Get_request 5 (new_entry [107])),
     (3, Count_request 5 (new_entry [108]) 1 10 0)]"

lemma ex_requests_ok: "\<forall>(now, r)\<in>set ex_requests. request_ok r"
  by (simp add: ex_requests_def client_key_def client_value_def new_entry_def set_data_def free_data_def init_entry_def zero_meta_def
      entry_data_def TAIR_MAX_KEY_SIZE_def TAIR_MAX_DATA_SIZE_def IS_ADDCOUNT_TYPE_def TAIR_ITEM_FLAG_ADDCOUNT_def)

theorem server_refines_map_witness:
  "\<exists>M0 M. mdb_initialize (\<lambda>x. 2 * x) (2 ^ 20) 200 10 600000 = Some M0 \<and> set_area_quotas [(5, 1000)] M0 = Some M
     \<and> (\<exists>xs T'. serve_all (mdb_vtable Some zero_meta :: unit mdb_vt) ex_requests (ex_server M) = Some (xs, T')
       \<and> trace (\<lambda>_. None) ex_requests xs (mdb_holds (storage_mgr T')))"
proof -
  obtain M0 M where M: "mdb_initialize (\<lambda>x. 2 * x) (2 ^ 20) 200 10 600000 = Some M0" "set_area_quotas [(5, 1000)] M0 = Some M"
    using started_engine(1) [OF ex_start] by (auto simp: set_area_quota_def upd_stat_def TAIR_MAX_AREA_COUNT_def)
  then show ?thesis
    using server_refines_map [OF ex_start M _ _ ex_requests_ok, of "ex_server M" Some zero_meta] by (auto simp: ex_server_def)
qed

section \<open>A read returns the last write\<close>

lemma trace_append:
  "trace c (rs @ rs') xs c' \<longleftrightarrow> (\<exists>ys zs c1. xs = ys @ zs \<and> length ys = length rs \<and> trace c rs ys c1 \<and> trace c1 rs' zs c')"
proof (induction rs arbitrary: c xs)
  case Nil
  then show ?case
    by (auto intro: trace_Nil elim: trace_NilE)
next
  case (Cons nr rs)
  obtain now r where nr: "nr = (now, r)"
    by fastforce
  show ?case
  proof
    assume "trace c ((nr # rs) @ rs') xs c'"
    then obtain x xs1 c1 where x: "allows c now r x c1" "xs = x # xs1" "trace c1 (rs @ rs') xs1 c'"
      unfolding nr by (auto elim: trace_ConsE)
    then obtain ys zs c2 where "xs1 = ys @ zs" "length ys = length rs" "trace c1 rs ys c2" "trace c2 rs' zs c'"
      using Cons.IH by blast
    then show "\<exists>ys zs c1. xs = ys @ zs \<and> length ys = length (nr # rs) \<and> trace c (nr # rs) ys c1 \<and> trace c1 rs' zs c'"
      using x(1,2) trace_Cons nr by (intro exI [of _ "x # ys"] exI [of _ zs] exI [of _ c2]) auto
  next
    assume "\<exists>ys zs c1. xs = ys @ zs \<and> length ys = length (nr # rs) \<and> trace c (nr # rs) ys c1 \<and> trace c1 rs' zs c'"
    then obtain x ys zs c1 c2 where "xs = (x # ys) @ zs" "length ys = length rs" "allows c now r x c2" "trace c2 rs ys c1" "trace c1 rs' zs c'"
      unfolding nr by (auto elim: trace_ConsE)
    note x = this
    have "trace c2 (rs @ rs') (ys @ zs) c'"
      using x(2,4,5) Cons.IH by blast
    then show "trace c ((nr # rs) @ rs') xs c'"
      using x(1,3) trace_Cons nr by simp
  qed
qed

text \<open>A request for another key, or a read, leaves the entry of a key or drops it.\<close>

definition reads_only :: "bytes \<Rightarrow> server_request \<Rightarrow> bool" where
  "reads_only k r \<longleftrightarrow> (request_key r = k \<longrightarrow> (case r of Get_request a key \<Rightarrow> True | _ \<Rightarrow> False))"

lemma stores_keeps:
  assumes "stores c k1 w c'" and "k \<noteq> k1"
  shows "c' k = c k \<or> c' k = None"
  using storesD(2) [OF assms] .

lemma allows_keeps:
  assumes "allows c now r x c'" and "reads_only k r"
  shows "c' k = c k \<or> c' k = None"
proof (cases r)
  case (Put_request a key v ex)
  let ?k = "full_key a (entry_data key)"
  have k: "k \<noteq> ?k"
    using assms(2) unfolding Put_request reads_only_def by simp
  have "c' = c \<or> (\<exists>w. stores c ?k w c')"
    using assms(1) unfolding Put_request allows.simps(1) Let_def
    by (cases "conflict now (version_cares key) (version (data_meta key)) (c ?k)") (simp_all only: if_True if_False, blast+)
  then show ?thesis
    by (elim disjE exE) (simp, rule stores_keeps [OF _ k])
next
  case (Get_request a key)
  then show ?thesis
    using assms(1) by (auto simp: Let_def live_def split: option.splits)
next
  case (Remove_request a key)
  then show ?thesis
    using assms by (auto simp: Let_def reads_only_def)
next
  case (Count_request a key addv init_value ex)
  let ?k = "full_key a (entry_data key)"
  let ?c = "c(?k := live now (c ?k))"
  have k: "k \<noteq> ?k"
    using assms(2) unfolding Count_request reads_only_def by simp
  have "c' = c \<or> (\<exists>w. stores ?c ?k w c')"
    using assms(1) unfolding Count_request allows.simps(4) Let_def
    by (cases "\<exists>w. live now (c ?k) = Some w \<and> \<not> is_counter w") (simp_all only: if_True if_False, blast+)
  then have "c' k = c k \<or> c' k = ?c k \<or> c' k = None"
    by (elim disjE exE) (simp, metis stores_keeps [OF _ k])
  then show ?thesis
    using k by simp
qed

lemma trace_keeps:
  assumes "trace c rs xs c'" and "\<forall>(now, r)\<in>set rs. reads_only k r"
  shows "c' k = c k \<or> c' k = None"
  using assms
proof (induction rule: trace.induct)
  case (trace_Cons c now r x c1 rs xs c')
  then show ?case
    using allows_keeps [OF trace_Cons.hyps(1), of k] by auto
qed simp

text \<open>
  C2. When a write has been accepted and no later request writes or removes its key, then a read of
  the key in the same area returns exactly the bytes written, or reports that there is no entry or that
  the entry has expired: whatever other requests come between, and whatever they evict.
\<close>

theorem read_after_write:
  assumes "good_start enlarge total_pages shift base"
    and "mdb_initialize enlarge (2 ^ 20) total_pages shift base = Some M0" and "set_area_quotas qs M0 = Some M"
    and "derived (storage_mgr T) = M" and "status T = STATUS_CAN_WORK"
    and "rs = before @ (t, Put_request a key v ex) # between @ [(t', Get_request a key')]"
    and "\<forall>(now, r)\<in>set rs. request_ok r" and "entry_data key' = entry_data key"
    and "\<forall>(now, r)\<in>set between. reads_only (full_key a (entry_data key)) r"
    and "serve_all (mdb_vtable balance junk :: 'd mdb_vt) rs T = Some (xs, T')" and "xs ! length before = Code 0"
  shows "last xs \<in> {Read 0 (Some (entry_data v)), Read TAIR_RETURN_DATA_NOT_EXIST None, Read TAIR_RETURN_DATA_EXPIRED None}"
proof -
  let ?k = "full_key a (entry_data key)"
  have S: "mdb_ok (storage_mgr T)" "takes_all mdb_room (storage_mgr T)" "mdb_holds (storage_mgr T) = (\<lambda>_. None)"
    using started_engine(3) [OF assms(1-4)] by simp_all
  obtain xs1 T1 where "serve_all (mdb_vtable balance junk :: 'd mdb_vt) rs T = Some (xs1, T1)" "trace (\<lambda>_. None) rs xs1 (mdb_holds (storage_mgr T1))"
    using mdb.serve_all_trace [OF S(1,2) assms(5) _ assms(7), of balance junk] S(3) by auto
  then have "trace (\<lambda>_. None) rs xs (mdb_holds (storage_mgr T'))"
    using assms(10) by simp
  then obtain ys zs c1 where y: "xs = ys @ zs" "length ys = length before"
      "trace c1 ((t, Put_request a key v ex) # between @ [(t', Get_request a key')]) zs (mdb_holds (storage_mgr T'))"
    unfolding assms(6) trace_append by blast
  obtain x zs1 c2 where x: "allows c1 t (Put_request a key v ex) x c2" "zs = x # zs1" "trace c2 (between @ [(t', Get_request a key')]) zs1 (mdb_holds (storage_mgr T'))"
    using y(3) by (auto elim: trace_ConsE)
  have "x = Code 0"
    using assms(11) y(1,2) x(2) by (simp add: nth_append)
  then obtain w where w: "c2 ?k = Some w" "s_data w = entry_data v"
    using x(1) storesD(1) by (fastforce simp: Let_def put_as_asked_def TAIR_RETURN_VERSION_ERROR_def split: if_splits)
  obtain us ws c3 where u: "zs1 = us @ ws" "trace c2 between us c3" "trace c3 [(t', Get_request a key')] ws (mdb_holds (storage_mgr T'))"
    using x(3) unfolding trace_append by blast
  have c3: "c3 ?k = Some w \<or> c3 ?k = None"
    using trace_keeps [OF u(2) assms(9)] w(1) by simp
  have "ws = [Read (get_result t' (c3 ?k)) (map_option s_data (live t' (c3 ?k)))]"
    using u(3) assms(8) by (auto simp: Let_def elim!: trace_ConsE trace_NilE)
  then have "last xs = Read (get_result t' (c3 ?k)) (map_option s_data (live t' (c3 ?k)))"
    using y(1) x(2) u(1) by simp
  then show ?thesis
    using c3 w(2) by (cases "s_expired t' w") (auto simp: get_result_def live_def)
qed

theorem read_after_write_witness:
  "\<exists>M xs T'. mdb_initialize (\<lambda>x. 2 * x) (2 ^ 20) 200 10 600000 = Some M
     \<and> serve_all (mdb_vtable Some zero_meta :: unit mdb_vt)
         [(1, Put_request 5 (new_entry [107]) (new_entry [1, 2]) 0), (2, Get_request 5 (new_entry [107]))] (ex_server M) = Some (xs, T')
     \<and> last xs \<in> {Read 0 (Some (entry_data (new_entry [1, 2]))), Read TAIR_RETURN_DATA_NOT_EXIST None, Read TAIR_RETURN_DATA_EXPIRED None}"
proof -
  let ?put = "Put_request 5 (new_entry [107]) (new_entry [1, 2]) 0" and ?get = "Get_request 5 (new_entry [107])"
  let ?rs = "[(1, ?put), (2, ?get)]"
  obtain M where M: "mdb_initialize (\<lambda>x. 2 * x) (2 ^ 20) 200 10 600000 = Some M"
    using started_engine(1) [OF ex_start] by blast
  have d: "derived (storage_mgr (ex_server M)) = M" "status (ex_server M) = STATUS_CAN_WORK"
    by (simp_all add: ex_server_def)
  have S: "mdb_ok (storage_mgr (ex_server M))" "takes_all mdb_room (storage_mgr (ex_server M))" "mdb_holds (storage_mgr (ex_server M)) = (\<lambda>_. None)"
    using started_engine(2) [OF ex_start M d(1)] by simp_all
  have ok: "\<forall>(now, r)\<in>set ?rs. request_ok r"
    using ex_requests_ok by (simp add: ex_requests_def)
  obtain xs T' where r: "serve_all (mdb_vtable Some zero_meta :: unit mdb_vt) ?rs (ex_server M) = Some (xs, T')" "trace (\<lambda>_. None) ?rs xs (mdb_holds (storage_mgr T'))"
    using mdb.serve_all_trace [OF S(1,2) d(2) _ ok, of Some zero_meta] S(3) by auto
  have "xs ! 0 = Code 0"
    using r(2) by (auto simp: Let_def conflict_def live_def elim!: trace_ConsE split: if_splits)
  then have "last xs \<in> {Read 0 (Some (entry_data (new_entry [1, 2]))), Read TAIR_RETURN_DATA_NOT_EXIST None, Read TAIR_RETURN_DATA_EXPIRED None}"
    using read_after_write [OF ex_start M _ d, of "[]" ?rs "[]" 1 5 "new_entry [107]" "new_entry [1, 2]" 0 "[]" 2 "new_entry [107]" Some zero_meta xs T'] ok r(1)
    by simp
  then show ?thesis
    using M r(1) by blast
qed

section \<open>What the server lets through\<close>

context map_engine
begin

lemma put_not_expired:
  assumes "ok (storage_mgr T)" and "takes_all room (storage_mgr T)" and "client_key key" and "client_value v" and "a < 1024"
    and "version (data_meta key) = 0" and "0 < ex" and "now < of_int ex"
  shows "\<exists>T' w. tm_put (vt clock now) a key v ex T = Some (0, T') \<and> ok (storage_mgr T') \<and> same_server T T'
    \<and> holds (storage_mgr T') (full_key a (entry_data key)) = Some w \<and> \<not> s_expired now w \<and> s_data w = entry_data v
    \<and> (is_counter w \<longleftrightarrow> IS_ADDCOUNT_TYPE (flag (data_meta v)))"
proof -
  let ?k = "full_key a (entry_data key)" and ?c = "holds (storage_mgr T)"
  have "\<not> conflict now (version_cares key) (version (data_meta key)) (?c ?k)"
    using assms(6) by (simp add: conflict_def)
  then obtain T' old where p: "tm_put (vt clock now) a key v ex T = Some (0, T')" "ok (storage_mgr T')" "same_server T T'"
      "old = 0 \<or> old = TAIR_ITEM_FLAG_DELETED" "stores ?c ?k (put_entry now key v (version_cares key) ex (?c ?k) old) (holds (storage_mgr T'))"
    using server_put [OF assms(1-5), of now clock ex] by auto
  obtain et where "holds (storage_mgr T') ?k = Some (put_entry now key v (version_cares key) ex (?c ?k) old et)"
    using storesD(1) [OF p(5)] by blast
  moreover have "\<not> s_expired now (put_entry now key v (version_cares key) ex (?c ?k) old et)"
    using assms(7,8) less_imp_not_less [OF assms(8)] by (simp add: s_expired_def put_entry_def expire_at_def)
  ultimately show ?thesis
    using p(1-3) stored_flag [OF p(4)] by (auto simp: put_entry_def)
qed

lemma short_counter:
  assumes "ok (storage_mgr T)" and "status T = STATUS_CAN_WORK" and "client_key key" and "a < 1024"
    and "holds (storage_mgr T) (full_key a (entry_data key)) = Some w" and "\<not> s_expired now w" and "is_counter w" and "length (s_data w) < 5"
  shows "add_count (vt clock now) a key addv init_value r ex T = None"
proof -
  let ?T = "T\<lparr>storage_mgr := storage_mgr T\<rparr>"
  have l: "live now (Some w) = Some w" "get_result now (Some w) = 0"
    using assms(6) by (simp_all add: live_def get_result_def)
  obtain key' v' T1 where g: "tm_get (vt clock now) a key init_entry ?T = Some (0, key', v', T1)" "answered (Some w) key init_entry key' v'"
    using server_get [OF assms(1-4), of clock now init_entry] assms(5) l by auto
  have "IS_ADDCOUNT_TYPE (flag (data_meta key'))" "bump addv v' = None"
    using g(2) assms(7,8) by (simp_all add: answered_def returned_def is_counter_def bump_def Let_def ITEM_HEAD_LENGTH_def)
  then show ?thesis
    using g(1) assms(2) client_key_good [OF assms(3)] by (simp add: add_count_def incdecr_missing)
qed

end

text \<open>
  C30. A client can make the server access memory out of bounds with two requests: it stores a value of
  less than five bytes that it marks as a counter itself, which is accepted, and counts under the key,
  which reads and writes four bytes from the third one on, beyond the block of the value and its
  terminating zero.
\<close>

theorem short_counter_kills:
  assumes "mdb_ok (storage_mgr T)" and "takes_all mdb_room (storage_mgr T)" and "status T = STATUS_CAN_WORK"
    and "client_key key" and "version (data_meta key) = 0" and "client_value v" and "a < 1024"
    and "IS_ADDCOUNT_TYPE (flag (data_meta v))" and "length (entry_data v) < 5" and "0 < ex" and "now < of_int ex"
  shows "\<exists>T'. tm_put ((mdb_vtable balance junk :: 'd mdb_vt) clock now) a key v ex T = Some (0, T')
    \<and> add_count ((mdb_vtable balance junk :: 'd mdb_vt) clock now) a key addv init_value r ex' T' = None"
proof -
  obtain T' w where p: "tm_put ((mdb_vtable balance junk :: 'd mdb_vt) clock now) a key v ex T = Some (0, T')" "mdb_ok (storage_mgr T')"
      "same_server T T'" "mdb_holds (storage_mgr T') (full_key a (entry_data key)) = Some w" "\<not> s_expired now w" "s_data w = entry_data v" "is_counter w"
    using mdb.put_not_expired [OF assms(1,2,4,6,7,5,10,11), of balance junk clock] assms(8) by auto
  have "add_count ((mdb_vtable balance junk :: 'd mdb_vt) clock now) a key addv init_value r ex' T' = None"
    using mdb.short_counter [OF p(2) _ assms(4,7) p(4,5,7)] same_server_status [OF p(3)] p(6) assms(3,9) by simp
  then show ?thesis
    using p(1) by blast
qed

theorem short_counter_kills_witness:
  "\<exists>M T'. mdb_initialize (\<lambda>x. 2 * x) (2 ^ 20) 200 10 600000 = Some M
     \<and> tm_put ((mdb_vtable Some zero_meta :: unit mdb_vt) (\<lambda>_. 1) 1) 5 (new_entry [107]) (mark_counter (new_entry [1, 2])) 100 (ex_server M) = Some (0, T')
     \<and> add_count ((mdb_vtable Some zero_meta :: unit mdb_vt) (\<lambda>_. 1) 1) 5 (new_entry [107]) 1 0 0 0 T' = None"
proof -
  obtain M where M: "mdb_initialize (\<lambda>x. 2 * x) (2 ^ 20) 200 10 600000 = Some M"
    using started_engine(1) [OF ex_start] by blast
  have d: "derived (storage_mgr (ex_server M)) = M" "status (ex_server M) = STATUS_CAN_WORK"
    by (simp_all add: ex_server_def)
  have S: "mdb_ok (storage_mgr (ex_server M))" "takes_all mdb_room (storage_mgr (ex_server M))"
    using started_engine(2) [OF ex_start M d(1)] by simp_all
  have "client_key (new_entry [107])" "version (data_meta (new_entry [107])) = 0" "client_value (mark_counter (new_entry [1, 2]))"
      "length (entry_data (mark_counter (new_entry [1, 2]))) < 5" "(5 :: 32 word) < 1024" "(1 :: 32 word) < of_int 100"
    by (simp_all add: client_key_def client_value_def new_entry_def set_data_def free_data_def init_entry_def zero_meta_def entry_data_def Let_def
        mark_counter_def TAIR_MAX_KEY_SIZE_def TAIR_MAX_DATA_SIZE_def)
  then show ?thesis
    using short_counter_kills [OF S d(2), of "new_entry [107]" "mark_counter (new_entry [1, 2])" 5 100 1 Some zero_meta "\<lambda>_. 1" 1 0 0 0] M by auto
qed

text \<open>
  C31. The bucket a migration has locked is still written: \<open>should_write_local\<close> refuses the write with
  \<open>TAIR_RETURN_MIGRATE_BUSY\<close>, but \<open>put\<close> does not ask and stores the value.
\<close>

theorem locked_bucket_is_written:
  assumes "mdb_ok (storage_mgr T)" and "takes_all mdb_room (storage_mgr T)" and "status T = STATUS_CAN_WORK"
    and "client_key key" and "version (data_meta key) = 0" and "client_value v" and "a < 1024" and "0 < ex" and "now < of_int ex"
    and "key_bucket key T = Some b" and "current_locked_bucket (migrate_mgr T) = int b"
  shows "should_write_local local_ip b (server_flag key) (get_op_flag (server_flag key)) rc T = Some (False, TAIR_RETURN_MIGRATE_BUSY)
    \<and> (\<exists>T' w. tm_put ((mdb_vtable balance junk :: 'd mdb_vt) clock now) a key v ex T = Some (0, T')
       \<and> mdb_holds (storage_mgr T') (full_key a (entry_data key)) = Some w \<and> s_data w = entry_data v)"
proof -
  have "should_write_local local_ip b (server_flag key) (get_op_flag (server_flag key)) rc T = Some (False, TAIR_RETURN_MIGRATE_BUSY)"
    using assms(3,11) by (simp add: should_write_local_def is_bucket_available_def)
  then show ?thesis
    using mdb.put_not_expired [OF assms(1,2,4,6,7,5,8,9), of balance junk clock] by auto
qed

theorem locked_bucket_is_written_witness:
  "\<exists>M T' w. let T = (ex_server M)\<lparr>table_mgr := set_table_for_localmode new_table_manager,
         migrate_mgr := (migrate_mgr (ex_server M))\<lparr>current_locked_bucket := 0\<rparr>\<rparr>
     in should_write_local 7 0 (server_flag (new_entry [107])) (get_op_flag (server_flag (new_entry [107]))) 0 T = Some (False, TAIR_RETURN_MIGRATE_BUSY)
       \<and> tm_put ((mdb_vtable Some zero_meta :: unit mdb_vt) (\<lambda>_. 1) 1) 5 (new_entry [107]) (new_entry [1, 2]) 100 T = Some (0, T')
       \<and> mdb_holds (storage_mgr T') (full_key 5 (entry_data (new_entry [107]))) = Some w \<and> s_data w = entry_data (new_entry [1, 2])"
proof -
  obtain M where M: "mdb_initialize (\<lambda>x. 2 * x) (2 ^ 20) 200 10 600000 = Some M"
    using started_engine(1) [OF ex_start] by blast
  let ?T = "(ex_server M)\<lparr>table_mgr := set_table_for_localmode new_table_manager, migrate_mgr := (migrate_mgr (ex_server M))\<lparr>current_locked_bucket := 0\<rparr>\<rparr>"
  have d: "derived (storage_mgr ?T) = M" "status ?T = STATUS_CAN_WORK" "current_locked_bucket (migrate_mgr ?T) = int 0"
    by (simp_all add: ex_server_def)
  have S: "mdb_ok (storage_mgr ?T)" "takes_all mdb_room (storage_mgr ?T)"
    using started_engine(2) [OF ex_start M d(1)] by simp_all
  have k: "client_key (new_entry [107])" "version (data_meta (new_entry [107])) = 0" "client_value (new_entry [1, 2])" "(5 :: 32 word) < 1024"
      "(1 :: 32 word) < of_int 100"
    by (simp_all add: client_key_def client_value_def new_entry_def set_data_def free_data_def init_entry_def zero_meta_def entry_data_def Let_def
        TAIR_MAX_KEY_SIZE_def TAIR_MAX_DATA_SIZE_def)
  have b: "key_bucket (new_entry [107]) ?T = Some 0"
    by (simp add: key_bucket_def get_bucket_number_def set_table_for_localmode_def)
  show ?thesis
    using locked_bucket_is_written [OF S d(2) k(1-4) _ k(5) b d(3), of 7 0 Some zero_meta "\<lambda>_. 1"] unfolding Let_def by auto
qed

end
