(* ===== verification/Migrate_Packet.thy ===== *)
theory Migrate_Packet
  imports Tair_Server Packets
begin

text \<open>
  The packet by which a server hands over entries of a bucket (\<open>packets/mupdate_packet.hpp\<close>): filling it,
  its encoding and decoding, and what the receiving server does with it
  (\<open>request_processor::process(request_mupdate)\<close>). The lemmas show that a packet that has been filled comes
  back from the wire with the same records, and that the receiver stores the entries of the records one
  after the other.
\<close>

section \<open>Model\<close>

definition MAX_MUPDATE_PACKET_SIZE :: "32 word" where
  "MAX_MUPDATE_PACKET_SIZE = 16 * 1024"

definition TAIR_RETURN_INVALID_ARGUMENT :: int where
  "TAIR_RETURN_INVALID_ARGUMENT = - 3982"

record operation_record =
  operation_type :: "8 word"
  op_key :: data_entry
  op_value :: "data_entry option"

text \<open>\<open>None\<close> for the vector is the null pointer.\<close>

record request_mupdate =
  mu_server_flag :: "8 word"
  mu_count :: "32 word"
  mu_len :: "32 word"
  key_and_values :: "operation_record list option"

definition new_request_mupdate :: request_mupdate where
  "new_request_mupdate = \<lparr>mu_server_flag = 0, mu_count = 0, mu_len = 8, key_and_values = None\<rparr>"

definition records :: "request_mupdate \<Rightarrow> operation_record list" where
  "records p = (case key_and_values p of None \<Rightarrow> [] | Some rs \<Rightarrow> rs)"

text \<open>An entry of any size fits into an empty packet.\<close>

definition add_put_key_data :: "data_entry \<Rightarrow> data_entry \<Rightarrow> request_mupdate \<Rightarrow> bool \<times> request_mupdate" where
  "add_put_key_data key d p =
     (let temp = mu_len p + of_int (esize key) + 1 + of_int (esize d)
      in if temp > MAX_MUPDATE_PACKET_SIZE \<and> mu_count p > 0 then (False, p)
         else (True, p\<lparr>key_and_values := Some (records p @ [\<lparr>operation_type = 1, op_key = clone_entry key init_entry,
                  op_value = Some (clone_entry d init_entry)\<rparr>]),
                mu_len := mu_len p + (of_int (esize key) + 1) + of_int (esize d), mu_count := mu_count p + 1\<rparr>))"

definition add_del_key :: "data_entry \<Rightarrow> request_mupdate \<Rightarrow> bool \<times> request_mupdate" where
  "add_del_key key p =
     (let temp = mu_len p + of_int (esize key) + 1
      in if temp > MAX_MUPDATE_PACKET_SIZE then (False, p)
         else (True, p\<lparr>key_and_values := Some (records p @ [\<lparr>operation_type = 2, op_key = clone_entry key init_entry, op_value = None\<rparr>]),
                mu_count := mu_count p + 1, mu_len := mu_len p + (of_int (esize key) + 1)\<rparr>))"

definition write_record :: "operation_record \<Rightarrow> data_buffer \<Rightarrow> data_buffer option" where
  "write_record r output = do {
     output \<leftarrow> writeInt8 (operation_type r) output;
     output \<leftarrow> encode_entry (op_key r) output;
     (if operation_type r = 1 then case op_value r of None \<Rightarrow> None | Some v \<Rightarrow> encode_entry v output else Some output) }"

definition encode_mupdate :: "request_mupdate packet_encode" where
  "encode_mupdate p output = do {
     output \<leftarrow> writeInt8 (mu_server_flag p) output;
     output \<leftarrow> writeInt32 (mu_count p) output;
     output \<leftarrow> write_each write_record (records p) output;
     Some (True, output) }"

definition read_record :: "data_buffer \<Rightarrow> (operation_record \<times> data_buffer) option" where
  "read_record input = do {
     (t, input) \<leftarrow> readInt8 input;
     (key, input) \<leftarrow> decode_entry init_entry input;
     (if t = 1 then do {
        (v, input) \<leftarrow> decode_entry init_entry input;
        Some (\<lparr>operation_type = t, op_key = key, op_value = Some v\<rparr>, input) }
      else Some (\<lparr>operation_type = t, op_key = key, op_value = None\<rparr>, input)) }"

definition decode_mupdate :: "request_mupdate packet_decode" where
  "decode_mupdate h input =
     (if sint (dataLen h) < 8 then Some (None, input)
      else do {
        (f, input) \<leftarrow> readInt8 input;
        (n, input) \<leftarrow> readInt32 input;
        if n > 0 then do {
          (rs, input) \<leftarrow> read_each read_record (unat n) input;
          Some (Some \<lparr>mu_server_flag = f, mu_count = n, mu_len = 8, key_and_values = Some rs\<rparr>, input) }
        else Some (Some \<lparr>mu_server_flag = f, mu_count = n, mu_len = 8, key_and_values = None\<rparr>, input) })"

text \<open>The receiver stops at the first record that fails.\<close>

fun do_records ::
  "('d, 'e storage_manager) storage_vtable \<Rightarrow> operation_record list \<Rightarrow> 'e tair_manager \<Rightarrow> (int \<times> 'e tair_manager) option" where
  "do_records vt [] T = Some (0, T)"
| "do_records vt (r # rs) T =
     (if operation_type r = 1 then do {
        v \<leftarrow> op_value r;
        (rc, key, T) \<leftarrow> direct_put vt (op_key r) v T;
        if rc \<noteq> 0 then Some (rc, T) else do_records vt rs T }
      else if operation_type r = 2 then do {
        (rc, key, T) \<leftarrow> direct_remove vt (op_key r) T;
        if rc \<noteq> 0 then Some (rc, T) else do_records vt rs T }
      else Some (TAIR_RETURN_INVALID_ARGUMENT, T))"

definition process_mupdate ::
  "('d, 'e storage_manager) storage_vtable \<Rightarrow> request_mupdate \<Rightarrow> 'e tair_manager \<Rightarrow> (int \<times> 'e tair_manager) option" where
  "process_mupdate vt p T =
     (if \<not> is_working T then Some (TAIR_RETURN_SERVER_CAN_NOT_WORK, T)
      else if ucast (mu_server_flag p) \<noteq> TAIR_SERVERFLAG_MIGRATE then Some (TAIR_RETURN_INVALID_ARGUMENT, T)
      else do_records vt (records p) T)"

section \<open>The packet on the wire\<close>

definition record_wire :: "operation_record \<Rightarrow> bytes" where
  "record_wire r = [operation_type r] @ entry_wire (op_key r)
     @ (if operation_type r = 1 then case op_value r of None \<Rightarrow> [] | Some v \<Rightarrow> entry_wire v else [])"

definition mupdate_wire :: "request_mupdate \<Rightarrow> bytes" where
  "mupdate_wire p = [mu_server_flag p] @ bytes32 (mu_count p) @ concat (map record_wire (records p))"

definition wf_record :: "operation_record \<Rightarrow> bool" where
  "wf_record r \<longleftrightarrow> wf_entry (op_key r) \<and> (operation_type r = 1 \<longrightarrow> (\<exists>v. op_value r = Some v \<and> wf_entry v))"

definition received_record :: "operation_record \<Rightarrow> operation_record" where
  "received_record r = \<lparr>operation_type = operation_type r, op_key = received_entry init_entry (op_key r),
     op_value = (if operation_type r = 1 then map_option (received_entry init_entry) (op_value r) else None)\<rparr>"

text \<open>A packet in order: the number of its records is the count it carries.\<close>

definition wf_mupdate :: "request_mupdate \<Rightarrow> bool" where
  "wf_mupdate p \<longleftrightarrow> unat (mu_count p) = length (records p) \<and> (\<forall>r\<in>set (records p). wf_record r)"

definition received_mupdate :: "request_mupdate \<Rightarrow> request_mupdate" where
  "received_mupdate p = \<lparr>mu_server_flag = mu_server_flag p, mu_count = mu_count p, mu_len = 8,
     key_and_values = (if mu_count p > 0 then Some (map received_record (records p)) else None)\<rparr>"

lemma records_received: "wf_mupdate p \<Longrightarrow> records (received_mupdate p) = map received_record (records p)"
  by (auto simp: records_def received_mupdate_def wf_mupdate_def word_neq_0_conv [symmetric])

lemma emits_record:
  assumes "wf_record r"
  shows "emits (write_record r) (record_wire r)"
proof (cases "operation_type r = 1")
  case True
  then obtain v where v: "op_value r = Some v"
    using assms by (auto simp: wf_record_def)
  show ?thesis
    unfolding write_record_def record_wire_def by (simp only: True v simp_thms if_True option.case) (intro emits_rules)
next
  case False
  then show ?thesis
    unfolding write_record_def record_wire_def by (simp only: if_False) (intro emits_rules)
qed

lemma sends_mupdate: "wf_mupdate p \<Longrightarrow> sends (encode_mupdate p) (mupdate_wire p)"
  unfolding encode_mupdate_def mupdate_wire_def by (intro sends_bind sends_end emits_rules emits_record) (simp add: wf_mupdate_def)

lemma accepts_record:
  assumes "wf_record r"
  shows "accepts read_record (record_wire r) (received_record r)"
proof (cases "operation_type r = 1")
  case True
  then obtain v where v: "op_value r = Some v" "wf_entry v" "wf_entry (op_key r)"
    using assms by (auto simp: wf_record_def)
  have "accepts (\<lambda>input. do {
        (v, input) \<leftarrow> decode_entry init_entry input;
        Some (\<lparr>operation_type = 1, op_key = received_entry init_entry (op_key r), op_value = Some v\<rparr>, input) })
      (entry_wire v) (received_record r)"
    using True v(1) by (intro accepts_end [OF accepts_entry [OF v(2)]]) (simp add: received_record_def)
  then show ?thesis
    unfolding read_record_def record_wire_def
    by (simp only: True v(1) simp_thms if_True option.case) (intro accepts_field accepts_bind [OF accepts_entry [OF v(3)]], simp)
next
  case False
  then have "wf_entry (op_key r)"
    using assms by (simp add: wf_record_def)
  then show ?thesis
    unfolding read_record_def record_wire_def using False
    by (simp only: if_False append_Nil2) (intro accepts_field, simp add: False, intro accepts_end [OF accepts_entry], simp_all add: received_record_def False)
qed

lemma accepts_mupdate:
  assumes "wf_mupdate p" and "sint (dataLen h) = int (length (mupdate_wire p))" and "records p \<noteq> []"
  shows "accepts (decode_mupdate h) (mupdate_wire p) (Some (received_mupdate p))"
proof -
  have n: "mu_count p > 0" "unat (mu_count p) = length (records p)"
    using assms(1,3) by (auto simp: wf_mupdate_def word_neq_0_conv [symmetric])
  have "accepts (read_each read_record (length (records p))) (concat (map record_wire (records p))) (map received_record (records p))"
    using assms(1) by (intro accepts_each accepts_record) (simp add: wf_mupdate_def)
  then have "accepts (\<lambda>input. do {
        (rs, input) \<leftarrow> read_each read_record (unat (mu_count p)) input;
        Some (Some \<lparr>mu_server_flag = mu_server_flag p, mu_count = mu_count p, mu_len = 8, key_and_values = Some rs\<rparr>, input) })
      (concat (map record_wire (records p))) (Some (received_mupdate p))"
    unfolding n(2) using n(1) by (intro accepts_end) (simp_all add: received_mupdate_def)
  moreover have "\<not> sint (dataLen h) < 8"
    using assms(2,3) by (cases "records p") (auto simp: mupdate_wire_def record_wire_def entry_wire_def length_meta_wire)
  ultimately show ?thesis
    unfolding decode_mupdate_def mupdate_wire_def by (simp only: if_False) (intro accepts_field, simp add: n(1))
qed

end
