(* ===== verification/Migrate_Data.thy ===== *)
theory Migrate_Data
  imports Migrate_Packet
begin

unbundle bit_operations_syntax

text \<open>
  The copying of a bucket to its new servers (\<open>migrate_manager::migrate_data_file\<close> and \<open>send_packet\<close> in
  \<open>dataserver/migrate_manager.cpp\<close>): a scan of the storage engine, whose entries fill packets that are sent
  to every target until it has accepted them. The lemmas follow an entry from the engine of the sender
  through the packet and the wire into the engine of a target.
\<close>

section \<open>Model\<close>

text \<open>The entries of a packet point into the block the scan has returned.\<close>

definition item_key :: "item_data_info \<Rightarrow> data_entry" where
  "item_key item = (set_data (Some (m_data item)) (int (unat (keysize (header item)))) False init_entry)
     \<lparr>data_meta := header item, has_merged := True\<rparr>"

definition item_value :: "item_data_info \<Rightarrow> data_entry" where
  "item_value item = (set_data (Some (drop (unat (keysize (header item))) (m_data item))) (int (unat (valsize (header item)))) False init_entry)
     \<lparr>data_meta := header item\<rparr>"

text \<open>
  \<open>deliver\<close> is the network: the code of the answer, or \<open>None\<close> when the packet could not be sent or no
  answer came in time. \<open>stopped\<close> says whether the thread has been told to stop.
\<close>

fun send_round ::
  "(64 word \<Rightarrow> request_mupdate \<Rightarrow> 'n \<Rightarrow> int option \<times> 'n) \<Rightarrow> request_mupdate \<Rightarrow> 64 word list \<Rightarrow> 'n \<Rightarrow> 64 word list \<times> 'n" where
  "send_round deliver p [] n = ([], n)"
| "send_round deliver p (sid # dests) n =
     (let (rc, n) = deliver sid p n;
          (left, n) = send_round deliver p dests n
      in (if rc = Some 0 then left else sid # left, n))"

text \<open>The rounds go on until every target has accepted the packet.\<close>

partial_function (option) send_packet ::
  "(64 word \<Rightarrow> request_mupdate \<Rightarrow> 'n \<Rightarrow> int option \<times> 'n) \<Rightarrow> ('n \<Rightarrow> bool) \<Rightarrow> 64 word list \<Rightarrow> request_mupdate \<Rightarrow> 'n \<Rightarrow> (bool \<times> 'n) option" where
  "send_packet deliver stopped dests p n =
     (case send_round deliver p dests n of (left, n) \<Rightarrow>
        if stopped n then Some (False, n)
        else if left \<noteq> [] then send_packet deliver stopped left p n
        else Some (True, n))"

declare send_packet.simps [code]

definition migrate_packet :: request_mupdate where
  "migrate_packet = new_request_mupdate\<lparr>mu_server_flag := ucast TAIR_SERVERFLAG_MIGRATE\<rparr>"

fun add_items ::
  "(64 word \<Rightarrow> request_mupdate \<Rightarrow> 'n \<Rightarrow> int option \<times> 'n) \<Rightarrow> ('n \<Rightarrow> bool) \<Rightarrow> 64 word list \<Rightarrow> item_data_info list
     \<Rightarrow> bool \<times> request_mupdate \<times> 'n \<Rightarrow> (bool \<times> request_mupdate \<times> 'n) option" where
  "add_items deliver stopped dests [] s = Some s"
| "add_items deliver stopped dests (item # batch) (fl, p, n) =
     (let (added, p') = add_put_key_data (item_key item) (item_value item) p
      in if added then add_items deliver stopped dests batch (fl, p', n)
         else do {
           (fl, n) \<leftarrow> send_packet deliver stopped dests p n;
           let (added, p') = add_put_key_data (item_key item) (item_value item) migrate_packet;
           if added then add_items deliver stopped dests batch (fl, p', n) else None })"

text \<open>The loop over the batches of the scan; \<open>vts i\<close> is the engine as it answers the \<open>i\<close>th call.\<close>

partial_function (option) migrate_items ::
  "(64 word \<Rightarrow> request_mupdate \<Rightarrow> 'n \<Rightarrow> int option \<times> 'n) \<Rightarrow> ('n \<Rightarrow> bool) \<Rightarrow> (nat \<Rightarrow> ('d, 'o) storage_vtable) \<Rightarrow> 64 word list \<Rightarrow> nat
     \<Rightarrow> bool \<Rightarrow> md_info \<Rightarrow> item_data_info list \<Rightarrow> bool \<Rightarrow> bool \<times> request_mupdate \<times> 'n \<Rightarrow> 'o
     \<Rightarrow> (bool \<times> (bool \<times> request_mupdate \<times> 'n) \<times> md_info \<times> 'o) option" where
  "migrate_items deliver stopped vts dests i have_item info batch tag s S = do {
     s \<leftarrow> add_items deliver stopped dests batch s;
     let tag = (tag \<or> batch \<noteq> []);
     if \<not> fst s then Some (tag, s, info, S)
     else if have_item then do {
       (have_item, batch, info, S) \<leftarrow> v_get_next_items (vts i) info S;
       migrate_items deliver stopped vts dests (Suc i) have_item info batch tag s S }
     else Some (tag, s, info, S) }"

declare migrate_items.simps [code]

text \<open>The scan position is set by \<open>begin_scan\<close>.\<close>

definition migrate_data_file ::
  "(64 word \<Rightarrow> request_mupdate \<Rightarrow> 'n \<Rightarrow> int option \<times> 'n) \<Rightarrow> ('n \<Rightarrow> bool) \<Rightarrow> (nat \<Rightarrow> ('d, 'o) storage_vtable) \<Rightarrow> 32 word \<Rightarrow> 64 word list
     \<Rightarrow> 'o \<Rightarrow> 'n \<Rightarrow> (bool \<times> 'o \<times> 'n) option" where
  "migrate_data_file deliver stopped vts db dests S n = do {
     (info, S) \<leftarrow> v_begin_scan (vts 0) \<lparr>hash_index = 0, db_id = db\<rparr> S;
     (have_item, batch, info, S) \<leftarrow> v_get_next_items (vts 0) info S;
     (tag, (fl, p, n), info, S) \<leftarrow> migrate_items deliver stopped vts dests 1 have_item info batch False (True, migrate_packet, n) S;
     (fl, n) \<leftarrow> (if fl \<and> tag then send_packet deliver stopped dests p n else Some (fl, n));
     (info, S) \<leftarrow> v_end_scan (vts 0) info S;
     Some (fl, S, n) }"

section \<open>The receiver\<close>

text \<open>The entries a server accepts from a migration.\<close>

definition portable :: "bytes \<Rightarrow> stored \<Rightarrow> bool" where
  "portable k v \<longleftrightarrow> 3 \<le> length k \<and> length k < 1024 \<and> KEY_AREA k < TAIR_MAX_AREA_COUNT \<and> 1 \<le> length (s_data v) \<and> length (s_data v) < 1000000"

text \<open>A record for an entry.\<close>

definition carries :: "bytes \<times> stored \<Rightarrow> operation_record \<Rightarrow> bool" where
  "carries e r \<longleftrightarrow> operation_type r = 1 \<and> has_merged (op_key r) \<and> entry_data (op_key r) = fst e \<and> esize (op_key r) = int (length (fst e))
     \<and> version (data_meta (op_key r)) = s_version (snd e)
     \<and> (\<exists>d. op_value r = Some d \<and> entry_data d = s_data (snd e) \<and> esize d = int (length (s_data (snd e))) \<and> flag (data_meta d) = ucast (s_flags (snd e)))"

lemma carries_received:
  assumes "carries e r"
  shows "carries e (received_record r)"
  using assms by (auto simp: carries_def received_record_def received_entry_def)

text \<open>
  The copy of an entry: its bytes, its version and whether it is a counter. The expiry time is not
  copied: the copy has none, or that of an entry that is evicted for it.
\<close>

definition copies :: "stored \<Rightarrow> stored \<Rightarrow> bool" where
  "copies v w \<longleftrightarrow> s_data w = s_data v \<and> s_version w = s_version v \<and> is_counter w = is_counter v"

text \<open>
  What a map has become that has taken entries one after the other: every one was stored, and evicted at
  most one other.
\<close>

fun absorbed :: "(bytes \<times> stored) list \<Rightarrow> (bytes \<Rightarrow> stored option) \<Rightarrow> (bytes \<Rightarrow> stored option) \<Rightarrow> bool" where
  "absorbed [] c c' \<longleftrightarrow> c' = c"
| "absorbed ((k, v) # es) c c' \<longleftrightarrow>
     (\<exists>w c1. stores c k w c1 \<and> (\<forall>et. copies v (w et) \<and> s_exptime (w et) = et) \<and> absorbed es c1 c')"

lemma absorbed_append:
  assumes "absorbed xs c c1" and "absorbed ys c1 c2"
  shows "absorbed (xs @ ys) c c2"
  using assms by (induction xs c c1 rule: absorbed.induct) auto

lemma absorbed_single: "stores c k w c' \<Longrightarrow> (\<And>et. copies v (w et) \<and> s_exptime (w et) = et) \<Longrightarrow> absorbed [(k, v)] c c'"
  by auto

text \<open>So the map has a copy of the entry or has evicted it again, and has lost at most what it had under other keys.\<close>

lemma absorbed_other: "absorbed es c c' \<Longrightarrow> k \<notin> fst ` set es \<Longrightarrow> c' k = c k \<or> c' k = None"
proof (induction es c c' rule: absorbed.induct)
  case (2 k1 v es c c')
  obtain w c1 where s: "stores c k1 w c1" "absorbed es c1 c'"
    using 2(2) by auto
  have "c1 k = c k \<or> c1 k = None"
    using 2(3) by (intro storesD(2) [OF s(1)]) auto
  then show ?case
    using 2(1) [OF s(2)] 2(3) by auto
qed simp

lemma absorbed_copy:
  "absorbed es c c' \<Longrightarrow> distinct (map fst es) \<Longrightarrow> (k, v) \<in> set es \<Longrightarrow> c' k = None \<or> (\<exists>w. c' k = Some w \<and> copies v w)"
proof (induction es c c' rule: absorbed.induct)
  case (2 k1 v1 es c c')
  obtain w c1 where s: "stores c k1 w c1" "\<And>et. copies v1 (w et)" "absorbed es c1 c'"
    using 2(2) by auto
  show ?case
  proof (cases "(k, v) \<in> set es")
    case True
    then show ?thesis
      using 2(1) [OF s(3)] 2(3) by simp
  next
    case False
    then have k: "k = k1" "v = v1" "k \<notin> fst ` set es"
      using 2(3,4) by auto
    obtain et where "c1 k = Some (w et)"
      using storesD(1) [OF s(1)] k(1) by auto
    then show ?thesis
      using absorbed_other [OF s(3) k(3)] s(2) [of et] k(2) by auto
  qed
qed simp

lemma decode_area_some:
  assumes "has_merged key" and "3 \<le> length (entry_data key)" and "esize key = int (length (entry_data key))"
  shows "\<exists>a akey. decode_area (assign_entry key init_entry) = Some (a, akey)"
  using assms by (auto simp: decode_area_def assign_entry_def copy_fields_def set_data_def free_data_def Let_def)

context map_engine
begin

lemma receive_put:
  assumes "ok (storage_mgr T)" and "takes_all room (storage_mgr T)" and "portable k v" and "carries (k, v) r"
  shows "\<exists>d key' T'. op_value r = Some d \<and> direct_put (vt clock now) (op_key r) d T = Some (0, key', T')
    \<and> ok (storage_mgr T') \<and> room (storage_mgr T') = room (storage_mgr T) \<and> same_server T T'
    \<and> absorbed [(k, v)] (holds (storage_mgr T)) (holds (storage_mgr T'))"
proof -
  let ?S = "storage_mgr T"
  obtain d where r: "has_merged (op_key r)" "entry_data (op_key r) = k" "esize (op_key r) = int (length k)"
      "version (data_meta (op_key r)) = s_version v" "op_value r = Some d" "entry_data d = s_data v" "esize d = int (length (s_data v))"
      "flag (data_meta d) = ucast (s_flags v)"
    using assms(4) by (auto simp: carries_def)
  obtain a akey where da: "decode_area (assign_entry (op_key r) init_entry) = Some (a, akey)"
    using decode_area_some [of "op_key r"] r(1-3) assms(3) by (auto simp: portable_def)
  let ?key = "op_key r\<lparr>area := a\<rparr>"
  have st: "storable ?key d" "\<not> bad_key (op_key r)" "\<not> bad_value d" "room ?S (length (entry_data ?key) + length (entry_data d))"
    using assms(2,3) r by (auto simp: storable_def bad_key_def bad_value_def portable_def TAIR_MAX_KEY_SIZE_def TAIR_MAX_DATA_SIZE_def takes_all_def)
  have "\<not> conflict now False (version (data_meta ?key)) (holds ?S (entry_data ?key))"
    by (simp add: conflict_def)
  then obtain key' S' old where p: "v_put (vt clock now) a ?key d False 0 ?S = Some (0, key', S')" "ok S'" "room S' = room ?S"
      "old = 0 \<or> old = TAIR_ITEM_FLAG_DELETED" "stores (holds ?S) k (put_entry now ?key d False 0 (holds ?S k) old) (holds S')"
    using put_stores [OF assms(1) st(1,4), of now False clock a 0] r(2) by auto
  have "copies v (put_entry now ?key d False 0 (holds ?S k) old et) \<and> s_exptime (put_entry now ?key d False 0 (holds ?S k) old et) = et" for et
    using stored_flag [OF p(4), of now ?key d False 0 "holds ?S k" et] r by (simp add: copies_def is_counter_def) (simp add: put_entry_def put_version_def)
  then have "absorbed [(k, v)] (holds ?S) (holds S')"
    by (rule absorbed_single [OF p(5)])
  moreover have "direct_put (vt clock now) (op_key r) d T = Some (0, key', upd_stats (stat_put a) (T\<lparr>storage_mgr := S'\<rparr>))"
    using st(2,3) da p(1) by (simp add: direct_put_def)
  ultimately show ?thesis
    using r(5) p(2,3) by auto
qed

lemma receive_records:
  assumes "list_all2 carries es rs" and "ok (storage_mgr T)" and "takes_all room (storage_mgr T)"
    and "\<forall>(k, v)\<in>set es. portable k v"
  shows "\<exists>T'. do_records (vt clock now) rs T = Some (0, T') \<and> ok (storage_mgr T') \<and> room (storage_mgr T') = room (storage_mgr T)
    \<and> same_server T T' \<and> absorbed es (holds (storage_mgr T)) (holds (storage_mgr T'))"
  using assms
proof (induction es rs arbitrary: T rule: list_all2_induct)
  case (Cons e es r rs)
  obtain k v where e: "e = (k, v)"
    by fastforce
  obtain d key' T1 where p: "op_value r = Some d" "direct_put (vt clock now) (op_key r) d T = Some (0, key', T1)" "ok (storage_mgr T1)"
      "room (storage_mgr T1) = room (storage_mgr T)" "same_server T T1" "absorbed [(k, v)] (holds (storage_mgr T)) (holds (storage_mgr T1))"
    using receive_put [OF Cons.prems(1,2), of k v r clock now] Cons.prems(3) Cons.hyps(1) e by auto
  have "takes_all room (storage_mgr T1)"
    using Cons.prems(2) p(4) by (simp add: takes_all_def)
  then obtain T' where q: "do_records (vt clock now) rs T1 = Some (0, T')" "ok (storage_mgr T')" "room (storage_mgr T') = room (storage_mgr T1)"
      "same_server T1 T'" "absorbed es (holds (storage_mgr T1)) (holds (storage_mgr T'))"
    using Cons.IH [OF p(3)] Cons.prems(3) by auto
  have "operation_type r = 1"
    using Cons.hyps(1) by (simp add: carries_def)
  moreover have "absorbed ([(k, v)] @ es) (holds (storage_mgr T)) (holds (storage_mgr T'))"
    by (rule absorbed_append [OF p(6) q(5)])
  ultimately show ?case
    using p(1,2,4) q(1-3) same_server_trans [OF p(5) q(4)] e by simp
qed simp

end

section \<open>Filling a packet\<close>

text \<open>The entries a packet can carry; the receiver takes fewer.\<close>

definition loadable :: "bytes \<Rightarrow> stored \<Rightarrow> bool" where
  "loadable k v \<longleftrightarrow> 3 \<le> length k \<and> length k < 4096 \<and> 1 \<le> length (s_data v) \<and> length (s_data v) < 1000000"

lemma portable_loadable: "portable k v \<Longrightarrow> loadable k v"
  by (simp add: portable_def loadable_def)

lemma item_entries:
  fixes junk :: item_meta_info
  assumes "loadable k v"
  defines "item \<equiv> info_of junk k v"
  shows "esize (item_key item) = int (length k)" and "esize (item_value item) = int (length (s_data v))"
    and "carries (k, v) \<lparr>operation_type = 1, op_key = clone_entry (item_key item) init_entry, op_value = Some (clone_entry (item_value item) init_entry)\<rparr>"
    and "wf_record \<lparr>operation_type = 1, op_key = clone_entry (item_key item) init_entry, op_value = Some (clone_entry (item_value item) init_entry)\<rparr>"
proof -
  have n: "unat (keysize (header item)) = length k" "unat (valsize (header item)) = length (s_data v)"
    using assms(1) by (simp_all add: item_def info_of_def loadable_def unat_of_nat)
  have h: "version (header item) = s_version v" "flag (header item) = ucast (s_flags v)" "m_data item = k @ s_data v"
    by (simp_all add: item_def info_of_def)
  have wf: "wf_meta (header item)"
    using n(2) assms(1) by (simp add: wf_meta_take loadable_def word_unat_eq_iff unsigned_take_bit_eq take_bit_nat_def)
  show "esize (item_key item) = int (length k)" "esize (item_value item) = int (length (s_data v))"
    by (simp_all add: item_key_def item_value_def set_data_def n)
  have e: "entry_data (clone_entry (item_key item) init_entry) = k" "esize (clone_entry (item_key item) init_entry) = int (length k)"
    "entry_data (clone_entry (item_value item) init_entry) = s_data v" "esize (clone_entry (item_value item) init_entry) = int (length (s_data v))"
    "data_meta (clone_entry (item_key item) init_entry) = header item" "data_meta (clone_entry (item_value item) init_entry) = header item"
    "has_merged (clone_entry (item_key item) init_entry)"
    using assms(1) n h(3) by (auto simp: clone_entry_def copy_fields_def item_key_def item_value_def set_data_def free_data_def entry_data_def loadable_def Let_def)
  show "carries (k, v) \<lparr>operation_type = 1, op_key = clone_entry (item_key item) init_entry, op_value = Some (clone_entry (item_value item) init_entry)\<rparr>"
    using e h by (simp add: carries_def)
  show "wf_record \<lparr>operation_type = 1, op_key = clone_entry (item_key item) init_entry, op_value = Some (clone_entry (item_value item) init_entry)\<rparr>"
    using e wf assms(1) by (simp add: wf_record_def wf_entry_def loadable_def)
qed

text \<open>The bytes a list of entries adds to the length a packet keeps.\<close>

definition load :: "(bytes \<times> stored) list \<Rightarrow> nat" where
  "load es = (\<Sum>e\<leftarrow>es. length (fst e) + 1 + length (s_data (snd e)))"

lemma load_simps [simp]: "load [] = 0" "load (es @ fs) = load es + load fs" "load [(k, v)] = length k + 1 + length (s_data v)"
  by (simp_all add: load_def)

lemma length_load: "length es \<le> load es"
  by (induction es) (auto simp: load_def)

text \<open>A packet filled with entries: it exceeds its size with a single entry only.\<close>

definition filled :: "(bytes \<times> stored) list \<Rightarrow> request_mupdate \<Rightarrow> bool" where
  "filled es p \<longleftrightarrow> ucast (mu_server_flag p) = TAIR_SERVERFLAG_MIGRATE \<and> list_all2 carries es (records p) \<and> (\<forall>r\<in>set (records p). wf_record r)
     \<and> unat (mu_count p) = length es \<and> unat (mu_len p) = 8 + load es \<and> (length es \<le> 1 \<or> 8 + load es \<le> 16384)"

lemma filled_new: "filled [] migrate_packet"
  by (simp add: filled_def migrate_packet_def new_request_mupdate_def records_def TAIR_SERVERFLAG_MIGRATE_def)

definition loadables :: "(bytes \<times> stored) list \<Rightarrow> bool" where
  "loadables es \<longleftrightarrow> (\<forall>(k, v)\<in>set es. loadable k v)"

definition portables :: "(bytes \<times> stored) list \<Rightarrow> bool" where
  "portables es \<longleftrightarrow> (\<forall>(k, v)\<in>set es. portable k v)"

lemma portables_loadables: "portables es \<Longrightarrow> loadables es"
  using portable_loadable by (auto simp: portables_def loadables_def)

lemma filled_load:
  assumes "filled es p" and "loadables es"
  shows "load es < 1006000"
proof (cases "length es \<le> 1")
  case True
  then consider "es = []" | k v where "es = [(k, v)]"
    by (cases es) auto
  then show ?thesis
    using assms(2) by cases (auto simp: loadables_def loadable_def)
qed (use assms(1) in \<open>simp add: filled_def\<close>)

lemma unat_plus_small: "unat (x :: 32 word) + n < 2 ^ 32 \<Longrightarrow> unat (x + of_nat n) = unat x + n"
  by (simp add: unat_word_ariths unat_of_nat)

lemma add_entry:
  fixes junk :: item_meta_info
  assumes "filled es p" and "loadables es" and "loadable k v"
  defines "item \<equiv> info_of junk k v"
  shows "if es = [] \<or> 8 + load (es @ [(k, v)]) \<le> 16384
    then \<exists>p'. add_put_key_data (item_key item) (item_value item) p = (True, p') \<and> filled (es @ [(k, v)]) p'
    else add_put_key_data (item_key item) (item_value item) p = (False, p)"
proof -
  note i = item_entries [OF assms(3), where junk = junk, folded item_def]
  let ?n = "length k + 1 + length (s_data v)"
  have len: "unat (mu_len p) = 8 + load es" "unat (mu_count p) = length es"
    using assms(1) by (simp_all add: filled_def)
  have small: "load es < 1006000" "?n < 1006000" "length es < 1006000"
    using filled_load [OF assms(1,2)] length_load [of es] assms(3) by (auto simp: loadable_def)
  have temp: "mu_len p + of_int (esize (item_key item)) + 1 + of_int (esize (item_value item)) = mu_len p + of_nat ?n"
    "mu_len p + (of_int (esize (item_key item)) + 1) + of_int (esize (item_value item)) = mu_len p + of_nat ?n"
    by (simp_all add: i(1,2))
  have u: "unat (mu_len p + of_nat ?n) = 8 + load (es @ [(k, v)])"
    using small len(1) by (subst unat_plus_small) simp_all
  have c: "unat (mu_count p + 1) = length (es @ [(k, v)])"
    using small(3) len(2) unat_plus_small [of "mu_count p" 1] by simp
  have "mu_len p + of_nat ?n > MAX_MUPDATE_PACKET_SIZE \<longleftrightarrow> 8 + load (es @ [(k, v)]) > 16384"
    unfolding MAX_MUPDATE_PACKET_SIZE_def word_less_nat_alt u by simp
  moreover have "mu_count p > 0 \<longleftrightarrow> es \<noteq> []"
    using len(2) by (simp add: word_less_nat_alt)
  ultimately have g: "MAX_MUPDATE_PACKET_SIZE < mu_len p + of_nat ?n \<and> 0 < mu_count p \<longleftrightarrow> \<not> (es = [] \<or> 8 + load (es @ [(k, v)]) \<le> 16384)"
    by auto
  show ?thesis
  proof (cases "es = [] \<or> 8 + load (es @ [(k, v)]) \<le> 16384")
    case True
    then show ?thesis
      unfolding add_put_key_data_def temp Let_def g using assms(1) i(3,4) u c
      by (auto simp: filled_def records_def list_all2_appendI)
  next
    case False
    then show ?thesis
      unfolding add_put_key_data_def temp Let_def g by simp
  qed
qed

end
