(* ===== verification/Migrate_Bucket.thy ===== *)
theory Migrate_Bucket
  imports Migrate_Data
begin

text \<open>
  The migration of a bucket over a network that delivers every packet: what is sent goes through the
  encoding of the packet and is processed by the target as soon as it arrives. The lemmas are proved for
  every engine that can be scanned and obtained for the memory engine: the sender loses only expired
  entries, and every target gets a copy of each live entry of the bucket.
\<close>

section \<open>A network that delivers\<close>

definition wire_send :: "request_mupdate \<Rightarrow> request_mupdate option" where
  "wire_send p = (case encode_mupdate p new_data_buffer of
       Some (True, b) \<Rightarrow>
         (case decode_mupdate \<lparr>chid = 0, pcode = 0, dataLen = of_int (getDataLen b)\<rparr> b of Some (q, _) \<Rightarrow> q | None \<Rightarrow> None)
     | _ \<Rightarrow> None)"

text \<open>The servers answer; \<open>arrival\<close> says at what time a packet reaches a server.\<close>

definition reliable ::
  "(32 word \<Rightarrow> ('d, 'e storage_manager) storage_vtable) \<Rightarrow> (64 word \<Rightarrow> request_mupdate \<Rightarrow> 32 word) \<Rightarrow> 64 word \<Rightarrow> request_mupdate
     \<Rightarrow> (64 word \<Rightarrow> 'e tair_manager) \<Rightarrow> int option \<times> (64 word \<Rightarrow> 'e tair_manager)" where
  "reliable vt arrival sid p net = (case wire_send p of
       None \<Rightarrow> (None, net)
     | Some q \<Rightarrow> (case process_mupdate (vt (arrival sid p)) q (net sid) of
           None \<Rightarrow> (None, net)
         | Some (rc, T) \<Rightarrow> (Some rc, net(sid := T))))"

lemma length_record_wire:
  assumes "carries e r"
  shows "length (record_wire r) = 81 + length (fst e) + length (s_data (snd e))"
  using assms by (auto simp: carries_def record_wire_def entry_wire_def length_meta_wire)

lemma length_records_wire: "list_all2 carries es rs \<Longrightarrow> length (concat (map record_wire rs)) = 80 * length es + load es"
proof (induction es rs rule: list_all2_induct)
  case (Cons e es r rs)
  then show ?case
    using length_record_wire [OF Cons.hyps(1)] by (simp add: load_def)
qed simp

lemma wire_send_filled:
  assumes "filled es p" and "loadables es" and "es \<noteq> []"
  shows "wire_send p = Some (received_mupdate p)"
proof -
  note l = list_all2_lengthD
  have f: "list_all2 carries es (records p)" "wf_mupdate p" "records p \<noteq> []"
    using assms(1,3) l by (fastforce simp: filled_def wf_mupdate_def)+
  have "length es < 1006000" "load es < 1006000"
    using filled_load [OF assms(1,2)] length_load [of es] by auto
  then have len: "length (mupdate_wire p) < 2 ^ 29"
    using length_records_wire [OF f(1)] by (simp add: mupdate_wire_def)
  have b: "writable new_data_buffer" "stored new_data_buffer = []"
    by simp_all
  obtain c where c: "encode_mupdate p new_data_buffer = Some (True, c)" "writable c" "stored c = mupdate_wire p"
    using sendsD [OF sends_mupdate [OF f(2)] b(1)] b(2) len by auto
  have d: "sint (of_int (getDataLen c) :: 32 word) = int (length (mupdate_wire p))"
    using len c(3) getDataLen_stored [OF writable_wf [OF c(2)]] sint_of_int_small [of "int (length (mupdate_wire p))"] by (simp del: length_stored length_stored_writable)
  obtain c' where "decode_mupdate \<lparr>chid = 0, pcode = 0, dataLen = of_int (getDataLen c)\<rparr> c = Some (Some (received_mupdate p), c')"
    using acceptsD [OF accepts_mupdate [OF f(2) _ f(3), of "\<lparr>chid = 0, pcode = 0, dataLen = of_int (getDataLen c)\<rparr>"] writable_wf [OF c(2)], of "[]"] c(3) d by auto
  then show ?thesis
    by (simp add: wire_send_def c(1))
qed

section \<open>Sending\<close>

text \<open>A server that takes entries.\<close>

definition ready :: "('e storage_manager \<Rightarrow> bool) \<Rightarrow> ('e storage_manager \<Rightarrow> nat \<Rightarrow> bool) \<Rightarrow> 'e tair_manager \<Rightarrow> bool" where
  "ready ok room T \<longleftrightarrow> ok (storage_mgr T) \<and> takes_all room (storage_mgr T) \<and> status T = STATUS_CAN_WORK"

text \<open>The targets have taken the entries, the other servers are as they were.\<close>

definition delivered ::
  "('e storage_manager \<Rightarrow> bytes \<Rightarrow> stored option) \<Rightarrow> 64 word list \<Rightarrow> (bytes \<times> stored) list
     \<Rightarrow> (64 word \<Rightarrow> 'e tair_manager) \<Rightarrow> (64 word \<Rightarrow> 'e tair_manager) \<Rightarrow> bool" where
  "delivered holds dests es net net' \<longleftrightarrow>
     (\<forall>sid. if sid \<in> set dests then absorbed es (holds (storage_mgr (net sid))) (holds (storage_mgr (net' sid))) else net' sid = net sid)"

lemma delivered_Nil [simp]: "delivered holds dests [] net net"
  by (simp add: delivered_def)

lemma delivered_append:
  assumes "delivered holds dests xs net net1" and "delivered holds dests ys net1 net2"
  shows "delivered holds dests (xs @ ys) net net2"
  unfolding delivered_def
proof
  fix sid
  show "if sid \<in> set dests then absorbed (xs @ ys) (holds (storage_mgr (net sid))) (holds (storage_mgr (net2 sid))) else net2 sid = net sid"
  proof (cases "sid \<in> set dests")
    case True
    then have "absorbed xs (holds (storage_mgr (net sid))) (holds (storage_mgr (net1 sid)))"
        "absorbed ys (holds (storage_mgr (net1 sid))) (holds (storage_mgr (net2 sid)))"
      using assms(1,2) by (simp_all add: delivered_def)
    from absorbed_append [OF this] show ?thesis
      using True by simp
  qed (use assms(1,2) in \<open>simp add: delivered_def\<close>)
qed

context map_engine
begin

lemma deliver_filled:
  assumes "filled es p" and "portables es" and "es \<noteq> []" and "ready ok room (net sid)"
  shows "\<exists>T'. reliable (vt clock) arrival sid p net = (Some 0, net(sid := T')) \<and> ready ok room T'
    \<and> absorbed es (holds (storage_mgr (net sid))) (holds (storage_mgr T'))"
proof -
  have f: "wf_mupdate p" "ucast (mu_server_flag p) = TAIR_SERVERFLAG_MIGRATE" "list_all2 carries es (records p)"
    using assms(1) list_all2_lengthD by (fastforce simp: filled_def wf_mupdate_def)+
  have "list_all2 carries es (map received_record (records p))"
    using f(3) by (simp add: list_all2_map2 list_all2_mono carries_received)
  then have r: "list_all2 carries es (records (received_mupdate p))"
    by (simp add: records_received [OF f(1)])
  have p: "\<forall>(k, v)\<in>set es. portable k v"
    using assms(2) by (simp add: portables_def)
  obtain T' where T': "do_records (vt clock (arrival sid p)) (records (received_mupdate p)) (net sid) = Some (0, T')" "ok (storage_mgr T')"
      "room (storage_mgr T') = room (storage_mgr (net sid))" "same_server (net sid) T'"
      "absorbed es (holds (storage_mgr (net sid))) (holds (storage_mgr T'))"
    using receive_records [OF r _ _ p, of "net sid"] assms(4) by (auto simp: ready_def)
  have "status T' = status (net sid)"
    using T'(4) by (rule same_server_status)
  then have "ready ok room T'"
    using T'(2,3) assms(4) by (simp add: ready_def takes_all_def)
  moreover have "process_mupdate (vt clock (arrival sid p)) (received_mupdate p) (net sid) = Some (0, T')"
    using T'(1) f(2) assms(4) by (simp add: process_mupdate_def is_working_def ready_def received_mupdate_def)
  ultimately show ?thesis
    using T'(5) wire_send_filled [OF assms(1) portables_loadables [OF assms(2)] assms(3)] by (intro exI [of _ T']) (simp add: reliable_def)
qed

lemma send_round_filled:
  assumes "filled es p" and "portables es" and "es \<noteq> []" and "\<forall>sid\<in>D. ready ok room (net sid)" and "set dests \<subseteq> D" and "distinct dests"
  shows "\<exists>net'. send_round (reliable (vt clock) arrival) p dests net = ([], net') \<and> (\<forall>sid\<in>D. ready ok room (net' sid)) \<and> delivered holds dests es net net'"
  using assms(4-6)
proof (induction dests arbitrary: net)
  case Nil
  then show ?case
    by (simp add: delivered_def)
next
  case (Cons s dests)
  obtain T' where d: "reliable (vt clock) arrival s p net = (Some 0, net(s := T'))" "ready ok room T'"
      "absorbed es (holds (storage_mgr (net s))) (holds (storage_mgr T'))"
    using deliver_filled [OF assms(1-3), of net s clock arrival] Cons.prems by auto
  have "\<forall>sid\<in>D. ready ok room ((net(s := T')) sid)" "set dests \<subseteq> D" "distinct dests"
    using Cons.prems d(2) by simp_all
  from Cons.IH [OF this]
  obtain net' where n: "send_round (reliable (vt clock) arrival) p dests (net(s := T')) = ([], net')" "\<forall>sid\<in>D. ready ok room (net' sid)"
      "delivered holds dests es (net(s := T')) net'"
    by blast
  have "delivered holds (s # dests) es net net'"
    using n(3) d(3) Cons.prems(3) by (auto simp: delivered_def split: if_splits)
  then show ?case
    using d(1) n(1,2) by simp
qed

lemma send_packet_filled:
  assumes "filled es p" and "portables es" and "es \<noteq> []" and "\<forall>sid\<in>set dests. ready ok room (net sid)" and "distinct dests"
  shows "\<exists>net'. send_packet (reliable (vt clock) arrival) (\<lambda>_. False) dests p net = Some (True, net')
    \<and> (\<forall>sid\<in>set dests. ready ok room (net' sid)) \<and> delivered holds dests es net net'"
  using send_round_filled [OF assms(1-4) subset_refl assms(5), of clock arrival] by (auto simp: send_packet.simps)

lemma add_items_filled:
  assumes "filled es p" and "portables (es @ its)" and "\<forall>sid\<in>set dests. ready ok room (net sid)" and "distinct dests"
  shows "\<exists>sent es' p' net'. add_items (reliable (vt clock) arrival) (\<lambda>_. False) dests (map (\<lambda>(k, v). info_of junk k v) its) (True, p, net) = Some (True, p', net')
    \<and> es @ its = sent @ es' \<and> filled es' p' \<and> (its \<noteq> [] \<longrightarrow> es' \<noteq> []) \<and> (its = [] \<longrightarrow> es' = es)
    \<and> (\<forall>sid\<in>set dests. ready ok room (net' sid)) \<and> delivered holds dests sent net net'"
  using assms(1-3)
proof (induction its arbitrary: es p net)
  case Nil
  then show ?case
    by (intro exI [of _ "[]"] exI [of _ es]) simp
next
  case (Cons e its)
  obtain k v where e: "e = (k, v)"
    by fastforce
  let ?item = "info_of junk k v"
  have po: "portable k v" "portables es" "portables its"
    using Cons.prems(2) by (auto simp: portables_def e)
  note a = add_entry [OF Cons.prems(1) portables_loadables [OF po(2)] portable_loadable [OF po(1)], where junk = junk]
  show ?case
  proof (cases "es = [] \<or> 8 + load (es @ [(k, v)]) \<le> 16384")
    case True
    then obtain p' where p': "add_put_key_data (item_key ?item) (item_value ?item) p = (True, p')" "filled (es @ [(k, v)]) p'"
      using a by auto
    have "portables ((es @ [(k, v)]) @ its)"
      using Cons.prems(2) e by simp
    from Cons.IH [OF p'(2) this Cons.prems(3)]
    obtain sent es' p2 net' where i: "add_items (reliable (vt clock) arrival) (\<lambda>_. False) dests (map (\<lambda>(k, v). info_of junk k v) its) (True, p', net) = Some (True, p2, net')"
        "(es @ [(k, v)]) @ its = sent @ es'" "filled es' p2" "its \<noteq> [] \<longrightarrow> es' \<noteq> []" "its = [] \<longrightarrow> es' = es @ [(k, v)]"
        "\<forall>sid\<in>set dests. ready ok room (net' sid)" "delivered holds dests sent net net'"
      by blast
    have "es' \<noteq> []"
      using i(4,5) by (cases "its = []") auto
    moreover have "add_items (reliable (vt clock) arrival) (\<lambda>_. False) dests (map (\<lambda>(k, v). info_of junk k v) (e # its)) (True, p, net) = Some (True, p2, net')"
      using i(1) p'(1) e by simp
    moreover have "es @ e # its = sent @ es'"
      using i(2) e by simp
    ultimately show ?thesis
      using i(3,6,7) by blast
  next
    case False
    obtain net1 where s: "send_packet (reliable (vt clock) arrival) (\<lambda>_. False) dests p net = Some (True, net1)"
        "\<forall>sid\<in>set dests. ready ok room (net1 sid)" "delivered holds dests es net net1"
      using send_packet_filled [OF Cons.prems(1) po(2) _ Cons.prems(3) assms(4), of clock arrival] False by auto
    obtain p' where p': "add_put_key_data (item_key ?item) (item_value ?item) migrate_packet = (True, p')" "filled [(k, v)] p'"
      using add_entry [OF filled_new _ portable_loadable [OF po(1)], where junk = junk] by (auto simp: loadables_def)
    have "portables ([(k, v)] @ its)"
      using Cons.prems(2) e by (simp add: portables_def)
    from Cons.IH [OF p'(2) this s(2)]
    obtain sent es' p2 net' where i: "add_items (reliable (vt clock) arrival) (\<lambda>_. False) dests (map (\<lambda>(k, v). info_of junk k v) its) (True, p', net1) = Some (True, p2, net')"
        "[(k, v)] @ its = sent @ es'" "filled es' p2" "its \<noteq> [] \<longrightarrow> es' \<noteq> []" "its = [] \<longrightarrow> es' = [(k, v)]"
        "\<forall>sid\<in>set dests. ready ok room (net' sid)" "delivered holds dests sent net1 net'"
      by blast
    have "delivered holds dests (es @ sent) net net'"
      by (rule delivered_append [OF s(3) i(7)])
    moreover have "es' \<noteq> []"
      using i(4,5) by (cases "its = []") auto
    moreover have "add_items (reliable (vt clock) arrival) (\<lambda>_. False) dests (map (\<lambda>(k, v). info_of junk k v) (e # its)) (True, p, net) = Some (True, p2, net')"
      using False a i(1) s(1) p'(1) e by simp
    moreover have "es @ e # its = (es @ sent) @ es'"
      using i(2) e by simp
    ultimately show ?thesis
      using i(3,6) by blast
  qed
qed

end

section \<open>The scan\<close>

text \<open>The live entries of a bucket among some keys, each looked at at its time.\<close>

definition live_in :: "32 word \<Rightarrow> 32 word \<Rightarrow> (bytes \<Rightarrow> 32 word) \<Rightarrow> bytes list \<Rightarrow> (bytes \<Rightarrow> stored option) \<Rightarrow> (bytes \<times> stored) list" where
  "live_in n db seen ks c = concat (map (\<lambda>k. case c k of None \<Rightarrow> [] | Some v \<Rightarrow> if \<not> s_late (seen k) v \<and> bucket_of n k = db then [(k, v)] else []) ks)"

lemma live_in_Nil [simp]: "live_in n db seen [] c = []"
  by (simp add: live_in_def)

lemma live_in_append [simp]: "live_in n db seen (ks @ ks') c = live_in n db seen ks c @ live_in n db seen ks' c"
  by (simp add: live_in_def)

lemma set_live_in: "(k, v) \<in> set (live_in n db seen ks c) \<longleftrightarrow> k \<in> set ks \<and> c k = Some v \<and> \<not> s_late (seen k) v \<and> bucket_of n k = db"
  by (induction ks) (auto simp: live_in_def split: option.splits if_splits)

lemma keys_live_in: "fst ` set (live_in n db seen ks c) \<subseteq> set ks"
  using set_live_in by fastforce

lemma distinct_live_in: "distinct ks \<Longrightarrow> distinct (map fst (live_in n db seen ks c))"
proof (induction ks)
  case (Cons k ks)
  have "k \<notin> fst ` set (live_in n db seen ks c)"
    using keys_live_in [of n db seen ks c] Cons.prems by auto
  then show ?case
    using Cons by (simp add: live_in_def split: option.splits)
qed (simp add: live_in_def)

lemma live_in_cong:
  assumes "\<And>k. k \<in> set ks \<Longrightarrow> c k = c' k \<and> seen k = seen' k"
  shows "live_in n db seen ks c = live_in n db seen' ks c'"
  unfolding live_in_def using assms by (intro arg_cong [where f = concat] map_cong refl) (simp split: option.splits)

lemma scanned_live: "scanned junk n db seen ks c = map (\<lambda>(k, v). info_of junk k v) (live_in n db seen ks c)"
  by (induction ks) (simp_all add: scanned_def live_in_def scan_out_def split: option.splits)

text \<open>All entries of the bucket can be sent.\<close>

definition sendable :: "32 word \<Rightarrow> 32 word \<Rightarrow> (bytes \<Rightarrow> stored option) \<Rightarrow> bool" where
  "sendable n db c \<longleftrightarrow> (\<forall>k v. c k = Some v \<and> bucket_of n k = db \<longrightarrow> portable k v)"

lemma sendable_prune: "sendable n db c \<Longrightarrow> sendable n db (prune P c)"
  by (auto simp: sendable_def prune_def split: option.splits if_splits)

lemma portables_live_in: "sendable n db c \<Longrightarrow> portables (live_in n db seen ks c)"
  by (auto simp: portables_def sendable_def set_live_in)

lemma portables_append [simp]: "portables (xs @ ys) \<longleftrightarrow> portables xs \<and> portables ys"
  by (auto simp: portables_def)

lemma portables_subset: "portables es \<Longrightarrow> set fs \<subseteq> set es \<Longrightarrow> portables fs"
  unfolding portables_def by blast

lemma prune_same: "(\<And>v. c k = Some v \<Longrightarrow> \<not> P k v) \<Longrightarrow> prune P c k = c k"
  by (simp add: prune_def split: option.splits)

context scan_engine
begin

lemma scan_batch:
  assumes "ok S" and "bucket_count S \<noteq> 0" and "hash_index info < places S"
  shows "\<exists>ks j S'. v_get_next_items (vt clock now) info S
      = Some (j < places S, map (\<lambda>(k, v). info_of junk k v) (live_in (bucket_count S) (db_id info) (\<lambda>_. now) ks (holds S)), info\<lparr>hash_index := j\<rparr>, S')
    \<and> hash_index info < j \<and> j \<le> places S \<and> distinct ks
    \<and> set ks = {k. holds S k \<noteq> None \<and> hash_index info \<le> place S k \<and> place S k < j}
    \<and> ok S' \<and> room S' = room S \<and> bucket_count S' = bucket_count S \<and> places S' = places S \<and> place S' = place S
    \<and> holds S' = prune (\<lambda>k v. hash_index info \<le> place S k \<and> place S k < j \<and> s_late now v) (holds S)"
  using scan_next [OF assms(1,2), of info clock now] assms(3) unfolding scanned_live by fastforce

text \<open>
  The rest of a scan from a position: the keys met, the time at which each was looked at, and the state
  the scan leaves.
\<close>

lemma scan_rest:
  fixes seen2 :: "bytes \<Rightarrow> 32 word" and pl :: "bytes \<Rightarrow> nat"
  assumes "set ks1 = {k. c k \<noteq> None \<and> h \<le> pl k \<and> pl k < j}" and "set ks2 = {k. c1 k \<noteq> None \<and> j \<le> pl k}"
    and "c1 = prune (\<lambda>k v. h \<le> pl k \<and> pl k < j \<and> s_late now v) c" and "h < j"
  defines "seen \<equiv> \<lambda>k. if pl k < j then now else seen2 k"
  shows "set (ks1 @ ks2) = {k. c k \<noteq> None \<and> h \<le> pl k}"
    and "live_in n db seen (ks1 @ ks2) c = live_in n db (\<lambda>_. now) ks1 c @ live_in n db seen2 ks2 c1"
    and "prune (\<lambda>k v. j \<le> pl k \<and> s_late (seen2 k) v) c1 = prune (\<lambda>k v. h \<le> pl k \<and> s_late (seen k) v) c"
    and "set ks1 \<inter> set ks2 = {}"
proof -
  have same: "c1 k = c k" if "j \<le> pl k" for k
    unfolding assms(3) using that by (intro prune_same) auto
  have "set ks2 = {k. c k \<noteq> None \<and> j \<le> pl k}"
    using assms(2) same by auto
  then show "set (ks1 @ ks2) = {k. c k \<noteq> None \<and> h \<le> pl k}" "set ks1 \<inter> set ks2 = {}"
    using assms(1,4) by auto
  have "live_in n db seen ks1 c = live_in n db (\<lambda>_. now) ks1 c"
    using assms(1) by (intro live_in_cong) (simp add: seen_def)
  moreover have "live_in n db seen ks2 c = live_in n db seen2 ks2 c1"
    using assms(2) same by (intro live_in_cong) (simp add: seen_def)
  ultimately show "live_in n db seen (ks1 @ ks2) c = live_in n db (\<lambda>_. now) ks1 c @ live_in n db seen2 ks2 c1"
    by simp
  show "prune (\<lambda>k v. j \<le> pl k \<and> s_late (seen2 k) v) c1 = prune (\<lambda>k v. h \<le> pl k \<and> s_late (seen k) v) c"
    unfolding assms(3) prune_prune using assms(4) by (intro prune_cong) (auto simp: seen_def)
qed

lemma migrate_items_spec:
  assumes "ok S" and "bucket_count S \<noteq> 0" and "hash_index info \<le> places S" and "have_item = (hash_index info < places S)"
    and "filled es p" and "portables (es @ its)" and "sendable (bucket_count S) (db_id info) (holds S)"
    and "\<forall>sid\<in>set dests. ready ok room (net sid)" and "distinct dests"
  shows "\<exists>ks seen sent es' p' net' S' info'.
      migrate_items (reliable (vt clock') arrival) (\<lambda>_. False) (\<lambda>i. vt clock (tick i)) dests i have_item info
        (map (\<lambda>(k, v). info_of junk k v) its) (es \<noteq> []) (True, p, net) S = Some (es' \<noteq> [], (True, p', net'), info', S')
    \<and> es @ its @ live_in (bucket_count S) (db_id info) seen ks (holds S) = sent @ es' \<and> filled es' p' \<and> delivered holds dests sent net net'
    \<and> (\<forall>sid\<in>set dests. ready ok room (net' sid)) \<and> distinct ks \<and> set ks = {k. holds S k \<noteq> None \<and> hash_index info \<le> place S k}
    \<and> (\<forall>k. seen k \<in> range tick) \<and> ok S' \<and> bucket_count S' = bucket_count S
    \<and> holds S' = prune (\<lambda>k v. hash_index info \<le> place S k \<and> s_late (seen k) v) (holds S)"
  using assms(1-8)
proof (induction "places S - hash_index info" arbitrary: S info have_item es its p net i rule: less_induct)
  case less
  note A = less.prems
  let ?net = "reliable (vt clock') arrival" and ?c = "holds S" and ?n = "bucket_count S" and ?h = "hash_index info"
  let ?batch = "map (\<lambda>(k, v). info_of junk k v)"
  obtain sent1 es1 p1 net1 where a: "add_items ?net (\<lambda>_. False) dests (?batch its) (True, p, net) = Some (True, p1, net1)"
      "es @ its = sent1 @ es1" "filled es1 p1" "its \<noteq> [] \<longrightarrow> es1 \<noteq> []" "its = [] \<longrightarrow> es1 = es"
      "\<forall>sid\<in>set dests. ready ok room (net1 sid)" "delivered holds dests sent1 net net1"
    using add_items_filled [OF A(5,6,8) assms(9), of clock' arrival junk] by blast
  have tag: "(es \<noteq> [] \<or> ?batch its \<noteq> []) = (es1 \<noteq> [])"
    using a(4,5) by (cases "its = []") auto
  show ?case
  proof (cases have_item)
    case False
    then have none: "\<not> ?h \<le> place S k" for k
      using place_bound [OF A(1), of k] A(3,4) by simp
    have f1: "migrate_items ?net (\<lambda>_. False) (\<lambda>i. vt clock (tick i)) dests i have_item info (?batch its) (es \<noteq> []) (True, p, net) S
        = Some (es1 \<noteq> [], (True, p1, net1), info, S)"
      unfolding migrate_items.simps [of _ _ _ _ _ _ _ "?batch its"] a(1) using False tag by simp
    have f2: "prune (\<lambda>k v. ?h \<le> place S k \<and> s_late (tick 0) v) ?c = ?c"
      using none by (intro prune_none) simp
    have f3: "{k. ?c k \<noteq> None \<and> ?h \<le> place S k} = set []" "es @ its @ live_in ?n (db_id info) (\<lambda>_. tick 0) [] ?c = sent1 @ es1"
      using none a(2) by simp_all
    show ?thesis
      unfolding f1 by (rule exI [of _ "[]"], rule exI [of _ "\<lambda>_. tick 0"], rule exI [of _ sent1], rule exI [of _ es1])
        (use f2 f3 a(3,6,7) A(1) in simp)
  next
    case True
    then have h: "?h < places S"
      using A(4) by simp
    obtain ks1 j S1 where b: "v_get_next_items (vt clock (tick i)) info S
          = Some (j < places S, ?batch (live_in ?n (db_id info) (\<lambda>_. tick i) ks1 ?c), info\<lparr>hash_index := j\<rparr>, S1)"
        "?h < j" "j \<le> places S" "distinct ks1" "set ks1 = {k. ?c k \<noteq> None \<and> ?h \<le> place S k \<and> place S k < j}"
        "ok S1" "room S1 = room S" "bucket_count S1 = ?n" "places S1 = places S" "place S1 = place S"
        "holds S1 = prune (\<lambda>k v. ?h \<le> place S k \<and> place S k < j \<and> s_late (tick i) v) ?c"
      using scan_batch [OF A(1,2) h, of clock "tick i"] by blast
    let ?its1 = "live_in ?n (db_id info) (\<lambda>_. tick i) ks1 ?c" and ?info1 = "info\<lparr>hash_index := j\<rparr>"
    have step: "migrate_items ?net (\<lambda>_. False) (\<lambda>i. vt clock (tick i)) dests i have_item info (?batch its) (es \<noteq> []) (True, p, net) S
        = migrate_items ?net (\<lambda>_. False) (\<lambda>i. vt clock (tick i)) dests (Suc i) (j < places S) ?info1 (?batch ?its1) (es1 \<noteq> []) (True, p1, net1) S1"
      unfolding migrate_items.simps [of _ _ _ _ i _ _ "?batch its"] a(1) using True tag b(1) by simp
    have "set es1 \<subseteq> set (es @ its)"
      unfolding a(2) by simp
    then have "portables (es1 @ ?its1)"
      using portables_live_in [OF A(7)] portables_subset [OF A(6)] by simp
    moreover have "sendable (bucket_count S1) (db_id ?info1) (holds S1)"
      using sendable_prune [OF A(7)] b(8,11) by simp
    moreover have "places S1 - hash_index ?info1 < places S - ?h" "hash_index ?info1 \<le> places S1" "(j < places S) = (hash_index ?info1 < places S1)"
      using h b(2,3,9) by auto
    ultimately obtain ks2 seen2 sent2 es2 p2 net2 S2 info2 where
        r: "migrate_items ?net (\<lambda>_. False) (\<lambda>i. vt clock (tick i)) dests (Suc i) (j < places S) ?info1 (?batch ?its1) (es1 \<noteq> []) (True, p1, net1) S1
            = Some (es2 \<noteq> [], (True, p2, net2), info2, S2)"
          "es1 @ ?its1 @ live_in ?n (db_id info) seen2 ks2 (holds S1) = sent2 @ es2" "filled es2 p2" "delivered holds dests sent2 net1 net2"
          "\<forall>sid\<in>set dests. ready ok room (net2 sid)" "distinct ks2" "set ks2 = {k. holds S1 k \<noteq> None \<and> j \<le> place S k}"
          "\<forall>k. seen2 k \<in> range tick" "ok S2" "bucket_count S2 = ?n" "holds S2 = prune (\<lambda>k v. j \<le> place S k \<and> s_late (seen2 k) v) (holds S1)"
      using less.hyps [of S1 ?info1 "j < places S" es1 p1 ?its1 net1 "Suc i"] b(6,8,10) A(2) a(3,6) by auto
    let ?seen = "\<lambda>k. if place S k < j then tick i else seen2 k"
    note q = scan_rest(1) [OF b(5) r(7) b(11) b(2)] scan_rest(2) [OF b(5) r(7) b(11) b(2), of ?n "db_id info" seen2]
      scan_rest(3) [OF b(5) r(7) b(11) b(2), of seen2] scan_rest(4) [OF b(5) r(7) b(11) b(2)]
    have list: "es @ its @ live_in ?n (db_id info) ?seen (ks1 @ ks2) ?c = (sent1 @ sent2) @ es2"
      unfolding q(2) using arg_cong [OF a(2), of "\<lambda>xs. xs @ ?its1 @ live_in ?n (db_id info) seen2 ks2 (holds S1)"]
      by (simp only: append_assoc r(2))
    have del: "delivered holds dests (sent1 @ sent2) net net2"
      by (rule delivered_append [OF a(7) r(4)])
    have seen: "\<forall>k. ?seen k \<in> range tick"
      using r(8) by simp
    have ks: "distinct (ks1 @ ks2)"
      using b(4) r(6) q(4) by simp
    show ?thesis
      unfolding step r(1) by (rule exI [of _ "ks1 @ ks2"], rule exI [of _ ?seen], rule exI [of _ "sent1 @ sent2"], rule exI [of _ es2],
        rule exI [of _ p2], rule exI [of _ net2], rule exI [of _ S2], rule exI [of _ info2], intro conjI)
        (rule refl list r(3) del r(5) ks q(1) seen r(9,10) r(11) [unfolded q(3)])+
  qed
qed

lemma migrate_data_file_spec:
  assumes "ok S" and "bucket_count S \<noteq> 0" and "sendable (bucket_count S) db (holds S)" and "\<forall>sid\<in>set dests. ready ok room (net sid)" and "distinct dests"
  shows "\<exists>seen es S' net'. migrate_data_file (reliable (vt clock') arrival) (\<lambda>_. False) (\<lambda>i. vt clock (tick i)) db dests S net = Some (True, S', net')
    \<and> (\<forall>k. seen k \<in> range tick) \<and> ok S' \<and> holds S' = prune (\<lambda>k v. s_late (seen k) v) (holds S)
    \<and> distinct (map fst es) \<and> (\<forall>k v. (k, v) \<in> set es \<longleftrightarrow> holds S' k = Some v \<and> bucket_of (bucket_count S) k = db)
    \<and> delivered holds dests es net net' \<and> (\<forall>sid\<in>set dests. ready ok room (net' sid))"
proof -
  let ?net = "reliable (vt clock') arrival" and ?info = "\<lparr>hash_index = 0, db_id = db\<rparr>" and ?vts = "\<lambda>i. vt clock (tick i)"
  have 0: "0 < places S"
    using place_bound [OF assms(1)] by (metis gr_zeroI not_less_zero)
  obtain ks seen sent es p net1 S1 info where m: "migrate_items ?net (\<lambda>_. False) ?vts dests 0 True ?info [] False (True, migrate_packet, net) S
        = Some (es \<noteq> [], (True, p, net1), info, S1)"
      "live_in (bucket_count S) db seen ks (holds S) = sent @ es" "filled es p" "delivered holds dests sent net net1"
      "\<forall>sid\<in>set dests. ready ok room (net1 sid)" "distinct ks" "set ks = {k. holds S k \<noteq> None}" "\<forall>k. seen k \<in> range tick" "ok S1"
      "holds S1 = prune (\<lambda>k v. s_late (seen k) v) (holds S)"
    using migrate_items_spec [OF assms(1,2), of ?info True "[]" migrate_packet "[]" dests net clock' arrival clock tick 0] 0 assms(3-5) filled_new
    by (auto simp: portables_def)
  let ?es = "live_in (bucket_count S) db seen ks (holds S)"
  have d: "distinct (map fst ?es)" "portables es"
    using portables_live_in [OF assms(3), of seen ks] unfolding m(2) by (simp_all add: distinct_live_in [OF m(6), of "bucket_count S" db seen "holds S", unfolded m(2), simplified])
  obtain net2 where n: "(if es \<noteq> [] then send_packet ?net (\<lambda>_. False) dests p net1 else Some (True, net1)) = Some (True, net2)"
      "\<forall>sid\<in>set dests. ready ok room (net2 sid)" "delivered holds dests es net1 net2"
    using send_packet_filled [OF m(3) d(2) _ m(5) assms(5), of clock' arrival] m(5) by (cases "es = []") auto
  have "delivered holds dests ?es net net2"
    unfolding m(2) by (rule delivered_append [OF m(4) n(3)])
  moreover have "(k, v) \<in> set ?es \<longleftrightarrow> holds S1 k = Some v \<and> bucket_of (bucket_count S) k = db" for k v
    unfolding set_live_in m(7,10) by auto
  moreover have "migrate_data_file ?net (\<lambda>_. False) ?vts db dests S net = Some (True, S1, net2)"
    using m(1) n(1) unfolding migrate_items.simps [of _ _ _ _ 0]
    by (auto simp: migrate_data_file_def scan_begins scan_ends split: bind_splits)
  ultimately show ?thesis
    using d(1) m(8-10) n(2) by blast
qed

end

section \<open>The memory engine\<close>

text \<open>
  C3. A bucket whose entries \<open>direct_put\<close> accepts (\<open>portable\<close>: an area below 1024, a key of 3 to 1023 bytes
  with its area, a value of 1 to 999999 bytes), and whose targets work and have room, is migrated completely: over a network that loses no packet the copying ends with success;
  the source has lost nothing but entries that had expired when the scan met them; and every target has
  stored a copy of each entry of the bucket that is left, once each, evicting at most one entry of its own
  for each. A copy has the bytes, the version and the counter mark of its original, but not its expiry
  time. The other servers are as they were.
\<close>

theorem bucket_migrates:
  assumes "mdb_ok S" and "bucket_count S \<noteq> 0" and "sendable (bucket_count S) db (mdb_holds S)"
    and "\<forall>sid\<in>set dests. ready mdb_ok mdb_room (net sid)" and "distinct dests"
  shows "\<exists>seen es S' net'.
      migrate_data_file (reliable ((mdb_vtable balance junk :: 'd mdb_vt) clock') arrival) (\<lambda>_. False)
        (\<lambda>i. (mdb_vtable balance junk :: 'd mdb_vt) clock (tick i)) db dests S net = Some (True, S', net')
    \<and> (\<forall>k. seen k \<in> range tick) \<and> mdb_holds S' = prune (\<lambda>k v. s_late (seen k) v) (mdb_holds S)
    \<and> distinct (map fst es) \<and> set es = {(k, v). mdb_holds S' k = Some v \<and> bucket_of (bucket_count S) k = db}
    \<and> (\<forall>sid\<in>set dests. absorbed es (mdb_holds (storage_mgr (net sid))) (mdb_holds (storage_mgr (net' sid))))
    \<and> (\<forall>sid. sid \<notin> set dests \<longrightarrow> net' sid = net sid)"
proof -
  obtain seen es S' net' where m: "migrate_data_file (reliable ((mdb_vtable balance junk :: 'd mdb_vt) clock') arrival) (\<lambda>_. False)
        (\<lambda>i. (mdb_vtable balance junk :: 'd mdb_vt) clock (tick i)) db dests S net = Some (True, S', net')"
      "\<forall>k. seen k \<in> range tick" "mdb_holds S' = prune (\<lambda>k v. s_late (seen k) v) (mdb_holds S)" "distinct (map fst es)"
      "\<forall>k v. (k, v) \<in> set es \<longleftrightarrow> mdb_holds S' k = Some v \<and> bucket_of (bucket_count S) k = db" "delivered mdb_holds dests es net net'"
    using mdb_scan.migrate_data_file_spec [OF assms, of balance junk clock' arrival clock tick] by auto
  have "set es = {(k, v). mdb_holds S' k = Some v \<and> bucket_of (bucket_count S) k = db}"
    using m(5) by auto
  moreover have "absorbed es (mdb_holds (storage_mgr (net sid))) (mdb_holds (storage_mgr (net' sid)))" if "sid \<in> set dests" for sid
    using m(6) that by (simp add: delivered_def)
  moreover have "net' sid = net sid" if "sid \<notin> set dests" for sid
    using m(6) that by (simp add: delivered_def)
  ultimately show ?thesis
    using m(1-4) by blast
qed

lemma ex_source:
  "\<exists>M S v. mdb_ok \<lparr>bucket_count = 1, derived = M\<rparr> \<and> ready mdb_ok mdb_room (ex_server M) \<and> mdb_ok S \<and> bucket_count S = 1
     \<and> mdb_holds S = [[5, 0, 107] \<mapsto> v] \<and> s_data v = [1, 2]"
proof -
  obtain M where M: "mdb_initialize (\<lambda>x. 2 * x) (2 ^ 20) 200 10 600000 = Some M"
    using started_engine(1) [OF ex_start] by blast
  let ?S = "\<lparr>bucket_count = 1, derived = M\<rparr>" and ?key = "merged_key 5 (new_entry [107])" and ?v = "new_entry [1, 2]"
  have d: "derived (storage_mgr (ex_server M)) = M" "status (ex_server M) = STATUS_CAN_WORK"
    by (simp_all add: ex_server_def)
  note E = started_engine(2) [OF ex_start M d(1)]
  have S: "mdb_ok ?S" "mdb_holds ?S = (\<lambda>_. None)" "takes_all mdb_room ?S"
    using E d(1) by (simp_all add: mdb_ok_def mdb_holds_def takes_all_def mdb_room_def)
  have c: "client_key (new_entry [107])" "client_value ?v" "(5 :: 32 word) < 1024"
    by (simp_all add: client_key_def client_value_def new_entry_def set_data_def free_data_def init_entry_def entry_data_def Let_def
        TAIR_MAX_KEY_SIZE_def TAIR_MAX_DATA_SIZE_def)
  have k: "entry_data ?key = [5, 0, 107]" "entry_data ?v = [1, 2]"
    using merged_key_fields(1) [OF c(1), of 5] by (simp_all add: full_key_def new_entry_def entry_data_def set_data_def free_data_def init_entry_def)
  have st: "storable ?key ?v" "mdb_room ?S (length (entry_data ?key) + length (entry_data ?v))"
    using client_sizes(1) [OF c] S(3) k by (simp_all add: takes_all_def)
  obtain key' S' old where p: "mdb_ok S'" "bucket_count S' = 1"
      "stores (mdb_holds ?S) [5, 0, 107] (put_entry 1 ?key ?v False 0 (mdb_holds ?S [5, 0, 107]) old) (mdb_holds S')"
    using mdb.put_stores [OF S(1) st, of 1 False Some zero_meta "\<lambda>_. 1" 5 0] k(1) by (auto simp: conflict_def)
  have "mdb_holds S' = [[5, 0, 107] \<mapsto> put_entry 1 ?key ?v False 0 (mdb_holds ?S [5, 0, 107]) old 0]"
    using p(3) S(2) by (simp add: stores_def)
  moreover have "s_data (put_entry 1 ?key ?v False 0 (mdb_holds ?S [5, 0, 107]) old 0) = [1, 2]"
    using k(2) by (simp add: put_entry_def)
  moreover have "ready mdb_ok mdb_room (ex_server M)"
    using E d(2) by (simp add: ready_def)
  ultimately show ?thesis
    using S(1) p(1,2) by blast
qed

theorem bucket_migrates_witness:
  "\<exists>M S v seen es S' net'. mdb_holds S = [[5, 0, 107] \<mapsto> v] \<and> s_data v = [1, 2] \<and>
      migrate_data_file (reliable ((mdb_vtable Some zero_meta :: unit mdb_vt) (\<lambda>_. 1)) (\<lambda>_ _. 1)) (\<lambda>_. False)
        (\<lambda>i. (mdb_vtable Some zero_meta :: unit mdb_vt) (\<lambda>_. 1) 1) 0 [7, 8] S (\<lambda>_. ex_server M) = Some (True, S', net')
    \<and> mdb_holds S' = prune (\<lambda>k v. s_late (seen k) v) (mdb_holds S)
    \<and> distinct (map fst es) \<and> set es = {(k, v). mdb_holds S' k = Some v \<and> bucket_of 1 k = 0}
    \<and> (\<forall>sid\<in>set [7, 8]. absorbed es (mdb_holds (storage_mgr (ex_server M))) (mdb_holds (storage_mgr (net' sid))))
    \<and> net' 9 = ex_server M"
proof -
  obtain M S v where S: "ready mdb_ok mdb_room (ex_server M)" "mdb_ok S" "bucket_count S = 1" "mdb_holds S = [[5, 0, 107] \<mapsto> v]" "s_data v = [1, 2]"
    using ex_source by blast
  have h: "bucket_count S \<noteq> 0" "sendable (bucket_count S) 0 (mdb_holds S)" "\<forall>sid\<in>set [7, 8]. ready mdb_ok mdb_room ((\<lambda>_. ex_server M) sid)" "distinct [7, 8 :: 64 word]"
    using S by (simp_all add: sendable_def portable_def KEY_AREA_def TAIR_MAX_AREA_COUNT_def)
  obtain seen es S' net' where m: "migrate_data_file (reliable ((mdb_vtable Some zero_meta :: unit mdb_vt) (\<lambda>_. 1)) (\<lambda>_ _. 1)) (\<lambda>_. False)
        (\<lambda>i. (mdb_vtable Some zero_meta :: unit mdb_vt) (\<lambda>_. 1) 1) 0 [7, 8] S (\<lambda>_. ex_server M) = Some (True, S', net')"
      "mdb_holds S' = prune (\<lambda>k v. s_late (seen k) v) (mdb_holds S)" "distinct (map fst es)"
      "set es = {(k, v). mdb_holds S' k = Some v \<and> bucket_of (bucket_count S) k = 0}"
      "\<forall>sid\<in>set [7, 8]. absorbed es (mdb_holds (storage_mgr (ex_server M))) (mdb_holds (storage_mgr (net' sid)))"
      "\<forall>sid. sid \<notin> set [7, 8] \<longrightarrow> net' sid = ex_server M"
    using bucket_migrates [OF S(2) h, of Some zero_meta "\<lambda>_. 1" "\<lambda>_ _. 1" "\<lambda>_. 1" "\<lambda>_. 1"] by blast
  have "net' 9 = ex_server M"
    using m(6) by simp
  then show ?thesis
    using S(4,5) m(1-5) unfolding S(3) by blast
qed

section \<open>Keys that are too long\<close>

lemma do_records_refused:
  assumes "r \<in> set rs" and "operation_type r = 1" and "bad_key (op_key r)"
  shows "do_records vt rs T \<noteq> Some (0, T')"
  using assms(1)
proof (induction vt rs T rule: do_records.induct)
  case (2 vt r1 rs T)
  show ?case
  proof (cases "r1 = r")
    case True
    then show ?thesis
      using assms(2,3) by (auto simp: direct_put_def TAIR_RETURN_ITEMSIZE_ERROR_def split: bind_splits)
  next
    case False
    then have "r \<in> set rs"
      using 2(3) by simp
    then show ?thesis
      using 2(1,2) by (auto simp: TAIR_RETURN_INVALID_ARGUMENT_def split: bind_splits if_splits)
  qed
qed simp

lemma send_round_refused:
  assumes "\<And>sid n. sid \<in> set dests \<Longrightarrow> fst (deliver sid p n) \<noteq> Some 0"
  shows "fst (send_round deliver p dests n) = dests"
  using assms by (induction dests arbitrary: n) (auto simp: split_beta Let_def)

text \<open>A packet that some target always refuses is sent for ever.\<close>

lemma send_packet_refused:
  assumes "send_packet deliver stopped dests p n = Some y"
  shows "(\<forall>n. \<not> stopped n) \<longrightarrow> dests \<noteq> [] \<longrightarrow> (\<forall>sid\<in>set dests. \<forall>n. fst (deliver sid p n) \<noteq> Some 0) \<longrightarrow> False"
  using assms
proof (rule send_packet.raw_induct [rotated])
  fix "rec" :: "(64 word \<Rightarrow> request_mupdate \<Rightarrow> 'a \<Rightarrow> int option \<times> 'a) \<Rightarrow> ('a \<Rightarrow> bool) \<Rightarrow> 64 word list \<Rightarrow> request_mupdate \<Rightarrow> 'a \<Rightarrow> (bool \<times> 'a) option"
    and deliver stopped dests p n y
  assume IH: "\<And>deliver stopped dests p n y. rec deliver stopped dests p n = Some y
      \<Longrightarrow> (\<forall>n. \<not> stopped n) \<longrightarrow> dests \<noteq> [] \<longrightarrow> (\<forall>sid\<in>set dests. \<forall>n. fst (deliver sid p n) \<noteq> Some 0) \<longrightarrow> False"
    and y: "(case send_round deliver p dests n of (left, n) \<Rightarrow>
        if stopped n then Some (False, n) else if left \<noteq> [] then rec deliver stopped left p n else Some (True, n)) = Some y"
  show "(\<forall>n. \<not> stopped n) \<longrightarrow> dests \<noteq> [] \<longrightarrow> (\<forall>sid\<in>set dests. \<forall>n. fst (deliver sid p n) \<noteq> Some 0) \<longrightarrow> False"
  proof (intro impI)
    assume h: "\<forall>n. \<not> stopped n" "dests \<noteq> []" "\<forall>sid\<in>set dests. \<forall>n. fst (deliver sid p n) \<noteq> Some 0"
    obtain n' where "send_round deliver p dests n = (dests, n')"
      using send_round_refused [of dests deliver p n] h(3) by (metis prod.collapse)
    then have "rec deliver stopped dests p n' = Some y"
      using y h(1,2) by simp
    then show False
      using IH h by blast
  qed
qed

lemma send_packet_stuck:
  assumes "dests \<noteq> []" and "\<And>sid n. sid \<in> set dests \<Longrightarrow> fst (deliver sid p n) \<noteq> Some 0"
  shows "send_packet deliver (\<lambda>_. False) dests p n = None"
  using send_packet_refused [of deliver "\<lambda>_. False" dests p n] assms by fastforce

text \<open>
  C29. A key of 1022 or 1023 bytes is accepted from a client, but with its area in front it is too long for
  \<open>direct_put\<close>: a packet that carries it is refused by every server, and the migration of its bucket sends
  it for ever.
\<close>

theorem long_key_blocks_migration:
  assumes "mdb_ok (storage_mgr T)" and "takes_all mdb_room (storage_mgr T)" and "client_key key" and "version (data_meta key) = 0"
    and "1022 \<le> length (entry_data key)" and "client_value v" and "a < 1024" and "0 < ex" and "now < of_int ex"
    and "filled es p" and "loadables es" and "(full_key a (entry_data key), w) \<in> set es" and "dests \<noteq> []"
  shows "(\<exists>T' w. tm_put ((mdb_vtable balance junk :: 'd mdb_vt) clock now) a key v ex T = Some (0, T')
       \<and> mdb_holds (storage_mgr T') (full_key a (entry_data key)) = Some w \<and> s_data w = entry_data v)
    \<and> send_packet (reliable ((mdb_vtable balance junk :: 'd mdb_vt) clock') arrival) (\<lambda>_. False) dests p net = None"
proof
  show "\<exists>T' w. tm_put ((mdb_vtable balance junk :: 'd mdb_vt) clock now) a key v ex T = Some (0, T')
       \<and> mdb_holds (storage_mgr T') (full_key a (entry_data key)) = Some w \<and> s_data w = entry_data v"
    using mdb.put_not_expired [OF assms(1-3,6,7,4,8,9), of balance junk clock] by auto
  have ne: "es \<noteq> []"
    using assms(12) by auto
  have f: "list_all2 carries es (records p)" "wf_mupdate p"
    using assms(10) list_all2_lengthD by (fastforce simp: filled_def wf_mupdate_def)+
  obtain r where r: "r \<in> set (records p)" "carries (full_key a (entry_data key), w) r"
    using f(1) assms(12) by (metis in_set_conv_nth list_all2_conv_all_nth)
  have "received_record r \<in> set (records (received_mupdate p))"
    using r(1) by (simp add: records_received [OF f(2)])
  moreover have "operation_type (received_record r) = 1" "bad_key (op_key (received_record r))"
    using carries_received [OF r(2)] assms(5) by (auto simp: carries_def bad_key_def TAIR_MAX_KEY_SIZE_def full_key_def)
  ultimately have "do_records vt (records (received_mupdate p)) T1 \<noteq> Some (0, T2)" for vt :: "('d, mdb_manager storage_manager) storage_vtable" and T1 T2
    by (rule do_records_refused)
  then have "fst (reliable ((mdb_vtable balance junk :: 'd mdb_vt) clock') arrival sid p n) \<noteq> Some 0" for sid n
    by (auto simp: reliable_def wire_send_filled [OF assms(10,11) ne] process_mupdate_def TAIR_RETURN_SERVER_CAN_NOT_WORK_def
        TAIR_RETURN_INVALID_ARGUMENT_def split: option.splits if_splits)
  then show "send_packet (reliable ((mdb_vtable balance junk :: 'd mdb_vt) clock') arrival) (\<lambda>_. False) dests p net = None"
    using assms(13) by (intro send_packet_stuck)
qed

theorem long_key_blocks_migration_witness:
  "\<exists>M T' w p. filled [(full_key 5 (replicate 1022 107), w)] p
     \<and> tm_put ((mdb_vtable Some zero_meta :: unit mdb_vt) (\<lambda>_. 1) 1) 5 (new_entry (replicate 1022 107)) (new_entry [1, 2]) 100 (ex_server M) = Some (0, T')
     \<and> send_packet (reliable ((mdb_vtable Some zero_meta :: unit mdb_vt) (\<lambda>_. 1)) (\<lambda>_ _. 1)) (\<lambda>_. False) [7] p (\<lambda>_. ex_server M) = None"
proof -
  let ?key = "new_entry (replicate 1022 107)" and ?v = "new_entry [1, 2]"
  let ?w = "\<lparr>s_data = [1, 2], s_version = 1, s_exptime = 0, s_flags = 0, s_time = 1\<rparr>" and ?k = "full_key 5 (replicate 1022 107)"
  obtain M where M: "mdb_initialize (\<lambda>x. 2 * x) (2 ^ 20) 200 10 600000 = Some M"
    using started_engine(1) [OF ex_start] by blast
  have d: "derived (storage_mgr (ex_server M)) = M"
    by (simp add: ex_server_def)
  have S: "mdb_ok (storage_mgr (ex_server M))" "takes_all mdb_room (storage_mgr (ex_server M))"
    using started_engine(2) [OF ex_start M d] by simp_all
  have k: "client_key ?key" "version (data_meta ?key) = 0" "1022 \<le> length (entry_data ?key)" "client_value ?v" "entry_data ?key = replicate 1022 107"
    by (simp_all add: client_key_def client_value_def new_entry_def set_data_def free_data_def init_entry_def zero_meta_def entry_data_def Let_def
        TAIR_MAX_KEY_SIZE_def TAIR_MAX_DATA_SIZE_def)
  have l: "loadable ?k ?w" "loadables [(?k, ?w)]"
    by (simp_all add: loadables_def loadable_def full_key_def)
  obtain p where p: "filled [(?k, ?w)] p"
    using add_entry [OF filled_new _ l(1), where junk = zero_meta] by (auto simp: loadables_def)
  show ?thesis
    using long_key_blocks_migration [OF S k(1-4), of 5 100 1 "[(?k, ?w)]" p ?w "[7]" Some zero_meta "\<lambda>_. 1" "\<lambda>_. 1" "\<lambda>_ _. 1" "\<lambda>_. ex_server M"] p l(2)
    unfolding k(5) by auto
qed

end
