(* ===== verification/Spec2Isabelle.thy ===== *)
theory Spec2Isabelle
  imports Group_Rebuild Packet_Factory Packet_Queue Channel_Pool Migrate_Bucket
begin

text \<open>
  Tair, a distributed cache: a verification of its table construction, its messages, its memory
  storage engine, its data server and the migration of data between servers.

  \<^bold>\<open>The program.\<close> Keys are hashed into buckets. A \<^emph>\<open>config server\<close> assigns the copies of every bucket to data
  servers (the hash table), rebuilds the assignment when servers come or go, and leads the group from
  the table in use to the rebuilt one. A \<^emph>\<open>data server\<close> stores entries in a storage engine, follows the
  server table it is sent, and copies buckets it has to give up to their new servers. \<^emph>\<open>Clients\<close> and
  servers exchange packets over TCP connections. The sources are under
  \<open>src/DistributedCache/\<close>: Tair in \<open>tair_rdb_release_20121009/src/\<close> (\<open>configserver\<close>, \<open>dataserver\<close>,
  \<open>packets\<close>, \<open>common\<close>, \<open>storage\<close>), its network and system libraries in \<open>tb-common-utils/\<close> (\<open>tbnet\<close>, \<open>tbsys\<close>).

  \<^bold>\<open>Conventions.\<close> A class is a record, a member function a function that takes and returns the record. \<open>None\<close>
  as the result of an operation means that the process dies or its behaviour is undefined: a failed
  assertion, a null pointer, an access outside an array; every theorem that an operation has the result
  \<open>Some x\<close> says that this does not happen. Loops that might not end are defined by
  \<open>partial_function (option)\<close>, with \<open>None\<close> also for not ending, and are shown to end where a property
  speaks of their result; no fuel is used. Return codes are integers as in the code. \<open>std::map\<close> is a key-sorted association
  list, a loop with an early exit the combinator \<open>foldE\<close>. Integers have the width of the code where they can
  wrap around or are laid out in bytes, and are \<open>int\<close> or \<open>nat\<close> where bounds exclude it.
  Pointer structures live in an explicit memory. The clock, the balance of the slabs, the growth of the
  slab sizes, uninitialised memory and the network are parameters of the definitions that use them.
  Virtual functions are a record of functions (\<open>table_strategy\<close>, \<open>storage_vtable\<close>).

  \<^bold>\<open>Prelude and Linked\<close> hold the containers, the loops and the theory of linked lists in memory.

  \<^bold>\<open>Config server.\<close>
  \<^item> \<open>Table_Builder\<close> models the class \<open>table_builder\<close> (\<open>configserver/table_builder.cpp\<close>). \<open>Table_Builder_Counts\<close> and
    \<open>Table_Builder_Cells\<close> show that its counters and candidate index agree with the table after each change of a
    cell, \<open>Table_Builder_Quick\<close> treats the quick table, \<open>Table_Builder_Setup\<close> and \<open>Table_Builder_Rebuild\<close> the rebuild loop.
    The contract of a strategy is the locale \<open>build_strategy\<close>, extended by \<open>live_strategy\<close> (\<open>Table_Builder_Live\<close>) and
    \<open>rooms_strategy\<close> (\<open>Table_Builder_Rooms\<close>).
  \<^item> \<open>Table_Builder1\<close> and \<open>Table_Builder2\<close> model the two strategies (\<open>table_builder1.cpp\<close>, \<open>table_builder2.cpp\<close>) and interpret
    the locales: live and distinct servers in every bucket, balance and success for the first, copies in
    different rooms for the second. The single precision ratios of the second are rounded by \<open>f32\<close>.
  \<^item> \<open>Group_Info\<close> models \<open>group_info.cpp\<close>. \<open>Group_Migration\<close> takes its messages as the steps of a state machine: the
    migration is safe for every sequence of reports for existing buckets and completes when all buckets have been
    reported; it gets stuck in an assertion when the copies of a bucket only change places.
    \<open>Group_Rebuild\<close> shows what a rebuild does to the tables of a group.

  \<^bold>\<open>Messages.\<close>
  \<^item> \<open>Data_Buffer\<close> models \<open>DataBuffer\<close> (\<open>tbnet/src/databuffer.h\<close>) as a refinement of a byte queue; its locale \<open>field_codec\<close>
    is interpreted for the four widths of integers. \<open>Wire\<close> holds the composition rules for encoders and decoders.
    Their bounds, \<open>2 ^ 29\<close> bytes stored and a block below \<open>2 ^ 29\<close> bytes unless nothing has been taken from its front
    (\<open>writable\<close>), keep the sizes the code computes within 32 bits; an overflow is \<open>None\<close>.
  \<^item> \<open>Data_Entry\<close> models keys and values (\<open>common/data_entry.hpp\<close>) and the hash function.
  \<^item> \<open>Packet_Streamer\<close> models the framing of packets and the input loops of a connection; its locale \<open>packet_codec\<close> says what
    a packet class owes the streamer. \<open>Packets\<close> and \<open>Data_Packets\<close> model the packet classes (\<open>packets/*.hpp\<close>);
    \<open>Packet_Factory\<close> models the factory, interprets the locale and shows that all packets arrive in order.
  \<^item> \<open>Packet_Queue\<close> and \<open>Channel_Pool\<close> model the queue of a connection and the channels on which requests wait
    for answers (\<open>tbnet/src/packetqueue.cpp\<close>, \<open>channelpool.cpp\<close>); the queue is an instance of the locale \<open>fifo\<close>.

  \<^bold>\<open>Memory storage engine\<close> (\<open>storage/mdb/\<close>).
  \<^item> \<open>Mem_Pool\<close> models the bitmap of pages, \<open>Mdb_Item\<close> the item ids and the memory of the engine.
  \<^item> \<open>Slab_Manager\<close> models \<open>mem_cache::slab_manager\<close>. \<open>Slab_Pages\<close>, \<open>Slab_Items\<close> and \<open>Slab_Invariant\<close> state its invariant;
    \<open>Slab_Steps\<close>, \<open>Slab_Alloc\<close>, \<open>Slab_Free\<close> and \<open>Slab_Evict\<close> show that allocation, release and eviction end and keep it.
    \<open>Mem_Cache\<close> puts the slabs together.
  \<^item> \<open>Cache_Hashmap\<close> models the hash table.
  \<^item> \<open>Mdb_Manager\<close> models \<open>mdb_manager.cpp\<close>. \<open>Mdb_Content\<close> defines the map an engine holds (\<open>content\<close>) and its invariant
    (\<open>engine_ok\<close>); \<open>Mdb_Operations\<close> and \<open>Mdb_Put\<close> show what reading, removing and storing do to the map, \<open>Mdb_Init\<close>
    that a fresh engine is empty, \<open>Mdb_Sweep\<close> models the passes over the table and the scan of a bucket.

  \<^bold>\<open>Data server\<close> (\<open>dataserver/\<close>).
  \<^item> \<open>Storage_Manager\<close> models the interface of the engines. The locale \<open>map_engine\<close> says that an engine is a map that may
    drop entries when it stores one, \<open>scan_engine\<close> adds the scan; the memory engine interprets both.
  \<^item> \<open>Table_Manager\<close> models the server table of a data server and shows which buckets end up in which list.
  \<^item> \<open>Tair_Manager\<close> models \<open>tair_manager.cpp\<close> over any engine. \<open>Tair_Server\<close> specifies sequences of requests by an inductive
    relation on maps (\<open>trace\<close>) and shows that the server refines it.
  \<^item> \<open>Migrate_Packet\<close> models the packet of a migration and its receiver, \<open>Migrate_Data\<close> the sender
    (\<open>migrate_manager::migrate_data_file\<close>), and \<open>Migrate_Bucket\<close> joins scan, encoding, decoding and receiver: over a network
    that loses nothing the migration of a bucket ends and every target has stored every live entry.

  \<^bold>\<open>Deviations from the intended behaviour.\<close> Several properties state what the code does where it surely was meant
  to do something else: assertions that received messages or legal configurations make fail, messages
  that lose fields, a counter that reads beyond its value, a migration that never ends for long keys,
  writes to a bucket that is locked.

  \<^bold>\<open>Assumptions.\<close> Memory allocation succeeds. Operations run one at a time: the locks of the code are not
  modelled. A sequence of requests to a data server starts from an engine on fresh memory
  whose sizes satisfy \<open>good_start\<close>, with any quotas; its requests have areas below 1024, keys and values of the
  sizes \<open>put\<close> accepts, and at least six bytes in a value marked as a counter (\<open>request_ok\<close>). The entries of a
  migrated bucket are such as \<open>direct_put\<close> accepts (\<open>sendable\<close>), and its targets have room for every size of entry
  (\<open>ready\<close>). Reports of migrated buckets are for existing buckets, and ids of channels are not reused while in
  use. What happens outside these conditions is shown by properties of their own.

  \<^bold>\<open>Not modelled.\<close>
  \<^item> Threads, locks, timers, sockets and event polling (\<open>tbsys\<close>, the rest of \<open>tbnet\<close>), log output, configuration files and
    the start of the processes: operating-system calls.
  \<^item> The config server outside a group (\<open>server_conf_thread.cpp\<close>, \<open>tair_cfg_svr.cpp\<close>), which dispatches packets, reads
    configuration and maps files; the parsing of a group's configuration and the compression of its tables.
  \<^item> In the data server: the duplication to slaves, the heartbeat, the update log and its replay, the
    thread that chooses the bucket to migrate, dumps, and the request handlers apart from that of a migration
    packet. They consist of threads, network and file access around the modelled operations.
  \<^item> In the memory engine: re-attaching to shared memory, the balancing of slabs, which computes with double precision numbers, the quota thread and statistics output.
  \<^item> The engines \<open>fdb\<close>, \<open>kdb\<close> and \<open>rdb\<close>: files, the Kyoto Cabinet library, and an embedded Redis; with them the requests
    for lists, hashes, sets and sorted sets, which only the last engine implements.
  \<^item> The client library and the plugins: network code around the modelled packets.
\<close>

end
